(* ===== verification/Codec.thy ===== *)
theory Codec
  imports Prelude
begin

text \<open>
  The column codecs' frozen tag registry and the delta-of-delta codec of
  \<^verbatim>\<open>src/storage_lite/codec.rs\<close>: zigzag, LEB128 varints, and the encoder and decoder loops.
  All arithmetic is the wrapping arithmetic of 64-bit words, as in the code.  The contract
  of a column codec (decoding what was encoded, with its count, gives it back) is the
  locale \<open>column_codec\<close>, which every codec of the storage layer interprets.
\<close>

section \<open>The registry\<close>

datatype codec = Uncompressed | DeltaOfDeltaI64 | AlpF64 | ForI64 | ForU32

fun codec_tag :: "codec \<Rightarrow> u8" where
  "codec_tag Uncompressed = 0"
| "codec_tag DeltaOfDeltaI64 = 1"
| "codec_tag AlpF64 = 2"
| "codec_tag ForI64 = 3"
| "codec_tag ForU32 = 4"

definition codec_from_tag :: "u8 \<Rightarrow> codec option" where
  "codec_from_tag tag =
     (if tag = 0 then Some Uncompressed
      else if tag = 1 then Some DeltaOfDeltaI64
      else if tag = 2 then Some AlpF64
      else if tag = 3 then Some ForI64
      else if tag = 4 then Some ForU32
      else None)"

datatype codec_error = Truncated | VarintTooLong | TrailingBytes nat | Invalid string

section \<open>Zigzag and varints\<close>

definition zigzag :: "i64 \<Rightarrow> u64" where
  "zigzag value = push_bit 1 value XOR signed_drop_bit 63 value"

definition unzigzag :: "u64 \<Rightarrow> i64" where
  "unzigzag value = drop_bit 1 value XOR - (value AND 1)"

lemma unat_drop_bit_less: "drop_bit 7 (value :: u64) \<noteq> 0 \<Longrightarrow> unat (drop_bit 7 value) < unat value"
proof -
  assume "drop_bit 7 value \<noteq> 0"
  then have "0 < unat value" by (auto simp: unat_gt_0)
  then have "unat value div 2 ^ 7 < unat value" by (intro div_less_dividend) simp_all
  then show ?thesis
    by (simp only: unat_drop_bit_eq drop_bit_eq_div [where a = "unat value"])
qed

function push_varint :: "bytes \<Rightarrow> u64 \<Rightarrow> bytes" where
  "push_varint out value =
     (let byte = ucast (value AND 127); value = drop_bit 7 value
      in if value = 0 then out @ [byte] else push_varint (out @ [byte OR 128]) value)"
  by pat_completeness auto
termination
  by (relation "measure (\<lambda>(out, value). unat value)") (simp_all add: unat_drop_bit_less)

declare push_varint.simps [simp del]

text \<open>The \<open>for shift in 0..10\<close> loop of \<open>read_varint\<close>; a position is returned beside the value.\<close>

fun read_varint_loop :: "bytes \<Rightarrow> nat list \<Rightarrow> nat \<Rightarrow> u64 \<Rightarrow> (codec_error, u64 \<times> nat) outcome" where
  "read_varint_loop bytes [] position value = Err VarintTooLong"
| "read_varint_loop bytes (shift # shifts) position value =
     (if position < length bytes then
        let byte = bytes ! position; position = position + 1;
            value = value OR push_bit (7 * shift) (ucast (byte AND 127))
        in if byte AND 128 = 0 then Ok (value, position)
           else read_varint_loop bytes shifts position value
      else Err Truncated)"

definition read_varint :: "bytes \<Rightarrow> nat \<Rightarrow> (codec_error, u64 \<times> nat) outcome" where
  "read_varint bytes position = read_varint_loop bytes [0..<10] position 0"

section \<open>Delta of delta\<close>

fun dod_encode_loop :: "bytes \<Rightarrow> i64 \<Rightarrow> i64 \<Rightarrow> nat \<Rightarrow> i64 list \<Rightarrow> bytes" where
  "dod_encode_loop out previous previous_delta index [] = out"
| "dod_encode_loop out previous previous_delta index (value # values) =
     (let delta = value - previous;
          out = (if index = 1 then push_varint out (zigzag delta)
                 else push_varint out (zigzag (delta - previous_delta)))
      in dod_encode_loop out value delta (index + 1) values)"

definition encode_delta_of_delta :: "i64 list \<Rightarrow> bytes" where
  "encode_delta_of_delta values =
     (case values of
        [] \<Rightarrow> []
      | first # rest \<Rightarrow> dod_encode_loop (push_varint [] (zigzag first)) first 0 1 rest)"

fun dod_decode_loop :: "bytes \<Rightarrow> nat list \<Rightarrow> nat \<Rightarrow> i64 \<Rightarrow> i64 \<Rightarrow> i64 list \<Rightarrow>
    (codec_error, i64 list \<times> nat) outcome" where
  "dod_decode_loop bytes [] position value delta values = Ok (values, position)"
| "dod_decode_loop bytes (index # indices) position value delta values =
     bindR (read_varint bytes position) (\<lambda>(raw, position).
       let step = unzigzag raw;
           delta = (if index = 1 then step else delta + step);
           value = value + delta
       in dod_decode_loop bytes indices position value delta (values @ [value]))"

definition decode_delta_of_delta :: "bytes \<Rightarrow> nat \<Rightarrow> (codec_error, i64 list) outcome" where
  "decode_delta_of_delta bytes count =
     bindR (if count > 0 then
              bindR (read_varint bytes 0) (\<lambda>(raw, position).
                let value = unzigzag raw
                in dod_decode_loop bytes [1..<count] position value 0 [value])
            else Ok ([], 0))
       (\<lambda>(values, position).
          if position \<noteq> length bytes then Err (TrailingBytes (length bytes - position))
          else Ok values)"

section \<open>Lemmas\<close>

lemma codec_from_tag_inverse [simp]: "codec_from_tag (codec_tag c) = Some c"
  by (cases c) (simp_all add: codec_from_tag_def)

lemma bit_zigzag: "n < 64 \<Longrightarrow> bit (zigzag v) n \<longleftrightarrow> (0 < n \<and> bit v (n - 1)) \<noteq> bit v 63"
  unfolding zigzag_def
  by (simp only: bit_xor_iff bit_push_bit_iff bit_signed_drop_bit_iff)
    (auto simp: min_def not_less Suc_le_eq)

lemma unzigzag_zigzag [simp]: "unzigzag (zigzag v) = v"
proof (rule bit_word_eqI)
  fix n assume n: "n < LENGTH(64)"
  have low: "zigzag v AND 1 = (if bit v 63 then 1 else 0)"
    by (rule bit_word_eqI) (auto simp: bit_and_iff bit_1_iff bit_zigzag)
  have inside: "bit (drop_bit 1 (zigzag v)) m \<longleftrightarrow> (bit v m \<noteq> bit v 63)" if "m < 63" for m
    using that by (simp only: bit_drop_bit_eq comp_def) (simp add: bit_zigzag)
  have top: "\<not> bit (drop_bit 1 (zigzag v)) 63"
    by (simp only: bit_drop_bit_eq comp_def) (auto dest: bit_imp_le_length)
  have sign: "bit (- (zigzag v AND 1)) m \<longleftrightarrow> bit v 63" if "m < 64" for m
    using that by (simp add: low)
  consider "n < 63" | "n = 63" using n by fastforce
  then show "bit (unzigzag (zigzag v)) n = bit v n"
    unfolding unzigzag_def bit_xor_iff
    by cases (use n inside top sign in auto)
qed

lemma push_varint_append: "push_varint out v = out @ push_varint [] v"
proof (induction "unat v" arbitrary: out v rule: less_induct)
  case less
  let ?b = "ucast (v AND 127) :: u8"
  show ?case
  proof (cases "drop_bit 7 v = 0")
    case True
    then show ?thesis by (simp add: push_varint.simps [of out v] push_varint.simps [of "[]" v])
  next
    case False
    then have "push_varint xs (drop_bit 7 v) = xs @ push_varint [] (drop_bit 7 v)" for xs
      using less unat_drop_bit_less by blast
    from this [of "out @ [?b OR 128]"] this [of "[?b OR 128]"] show ?thesis
      using False by (simp add: push_varint.simps [of out v] push_varint.simps [of "[]" v] Let_def)
  qed
qed

lemma push_varint_unfold:
  "push_varint [] v = (if drop_bit 7 v = 0 then [ucast (v AND 127)]
     else (ucast (v AND 127) OR 128) # push_varint [] (drop_bit 7 v))"
  using push_varint_append [of "[ucast (v AND 127) OR 128]" "drop_bit 7 v"]
  by (simp add: push_varint.simps [of "[]" v] Let_def)

lemma push_varint_ne: "push_varint [] v \<noteq> []"
  by (subst push_varint_unfold) simp

text \<open>
  Reading back: after \<open>s\<close> bytes the loop holds the low bits, and what is left of the value
  has no bit that the remaining shifts would lose.
\<close>

lemma bit_0x80: "bit (128 :: u8) j \<longleftrightarrow> j = 7"
proof -
  have "(128 :: u8) = 2 ^ 7" by simp
  then show ?thesis by (simp only: bit_exp_iff) auto
qed

lemma bit_0x7f: "bit (127 :: u8) j \<longleftrightarrow> j < 7" "bit (127 :: u64) j \<longleftrightarrow> j < 7"
proof -
  have "(127 :: u8) = mask 7" "(127 :: u64) = mask 7" by (simp_all add: mask_eq_exp_minus_1)
  then show "bit (127 :: u8) j \<longleftrightarrow> j < 7" "bit (127 :: u64) j \<longleftrightarrow> j < 7"
    by (simp_all only: bit_mask_iff) auto
qed

lemma bit_0x80_u64: "bit (128 :: u64) j \<longleftrightarrow> j = 7"
proof -
  have "(128 :: u64) = 2 ^ 7" by simp
  then show ?thesis by (simp only: bit_exp_iff) auto
qed

lemma low_byte_bits:
  fixes v :: u64
  shows "(ucast (v AND 127) :: u8) AND 128 = 0"
    and "(ucast (v AND 127) OR (128 :: u8)) AND 128 \<noteq> 0"
    and "ucast ((ucast (v AND 127) :: u8) AND 127) = v AND 127"
    and "ucast ((ucast (v AND 127) OR (128 :: u8)) AND 127) = v AND 127"
proof -
  note bits = bit_and_iff bit_or_iff bit_ucast_iff bit_0x80 bit_0x7f
  show "(ucast (v AND 127) :: u8) AND 128 = 0"
    by (rule bit_word_eqI) (auto simp: bits simp del: bit_numeral_word_iff)
  have "bit ((ucast (v AND 127) OR (128 :: u8)) AND 128) 7"
    by (simp add: bits del: bit_numeral_word_iff)
  then show "(ucast (v AND 127) OR (128 :: u8)) AND 128 \<noteq> 0" by force
  show "ucast ((ucast (v AND 127) :: u8) AND 127) = v AND 127"
    by (rule bit_word_eqI) (auto simp: bits simp del: bit_numeral_word_iff)
  show "ucast ((ucast (v AND 127) OR (128 :: u8)) AND 127) = v AND 127"
    by (rule bit_word_eqI) (auto simp: bits simp del: bit_numeral_word_iff)
qed

lemma varint_assemble:
  fixes v acc :: u64
  shows "(acc OR push_bit (7 * s) (v AND 127)) OR push_bit (7 * Suc s) (drop_bit 7 v) =
    acc OR push_bit (7 * s) v"
proof (rule bit_word_eqI)
  fix n assume n: "n < LENGTH(64)"
  let ?goal = "bit ((acc OR push_bit (7 * s) (v AND 127)) OR push_bit (7 * Suc s) (drop_bit 7 v)) n =
      bit (acc OR push_bit (7 * s) v) n"
  consider "n < 7 * s" | "7 * s \<le> n" "n < 7 * Suc s" | "7 * Suc s \<le> n" by linarith
  then show ?goal
  proof cases
    case 1
    then show ?thesis by (simp only: bit_or_iff bit_push_bit_iff) auto
  next
    case 2
    then show ?thesis using n
      by (simp only: bit_or_iff bit_push_bit_iff bit_and_iff bit_0x7f) auto
  next
    case 3
    then have "7 + (n - 7 * Suc s) = n - 7 * s" "\<not> n - 7 * s < 7" by simp_all
    then show ?thesis using n 3
      by (simp only: bit_or_iff bit_push_bit_iff bit_and_iff bit_0x7f bit_drop_bit_eq comp_def) auto
  qed
qed

lemma read_varint_loop_final:
  "position < length bytes \<Longrightarrow> bytes ! position AND 128 = 0 \<Longrightarrow>
   read_varint_loop bytes (shift # shifts) position value =
     Ok (value OR push_bit (7 * shift) (ucast (bytes ! position AND 127)), Suc position)"
  "position < length bytes \<Longrightarrow> bytes ! position AND 128 \<noteq> 0 \<Longrightarrow>
   read_varint_loop bytes (shift # shifts) position value =
     read_varint_loop bytes shifts (Suc position)
       (value OR push_bit (7 * shift) (ucast (bytes ! position AND 127)))"
  by (simp_all add: Let_def)

lemma read_push_varint_loop:
  assumes "\<And>i. bit v i \<Longrightarrow> i + 7 * s < 64" and "s < 10"
  shows "read_varint_loop (pre @ push_varint [] v @ post) [s..<10] (length pre) acc =
    Ok (acc OR push_bit (7 * s) v, length pre + length (push_varint [] v))"
  using assms
proof (induction "unat v" arbitrary: v s pre acc rule: less_induct)
  case less
  have upt: "[s..<10] = s # [Suc s..<10]" using less.prems(2) by (simp add: upt_conv_Cons)
  let ?b = "ucast (v AND 127) :: u8"
  let ?acc = "acc OR push_bit (7 * s) (v AND 127)"
  show ?case
  proof (cases "drop_bit 7 v = 0")
    case True
    then have "?acc = acc OR push_bit (7 * s) v" "push_varint [] v = [?b]"
      using varint_assemble [of acc s v] by (simp_all add: push_varint_unfold [of v])
    then show ?thesis
      by (simp add: upt read_varint_loop_final low_byte_bits del: read_varint_loop.simps)
  next
    case False
    have bits: "i + 7 * Suc s < 64" if "bit (drop_bit 7 v) i" for i
      using that less.prems(1) [of "7 + i"] by (simp add: bit_drop_bit_eq)
    obtain i where "bit (drop_bit 7 v) i" using False
      by (metis bit_eqI bit_0_eq bot_apply bot_bool_def)
    then have s: "Suc s < 10" using bits by fastforce
    have v: "push_varint [] v = (?b OR 128) # push_varint [] (drop_bit 7 v)"
      using False by (subst push_varint_unfold) simp
    have "read_varint_loop ((pre @ [?b OR 128]) @ push_varint [] (drop_bit 7 v) @ post) [Suc s..<10]
        (length (pre @ [?b OR 128])) ?acc =
      Ok (?acc OR push_bit (7 * Suc s) (drop_bit 7 v),
        length (pre @ [?b OR 128]) + length (push_varint [] (drop_bit 7 v)))"
      by (rule less.hyps [OF unat_drop_bit_less [OF False] bits s])
    moreover have "read_varint_loop (pre @ ((?b OR 128) # bs)) (s # [Suc s..<10]) (length pre) acc =
      read_varint_loop (pre @ ((?b OR 128) # bs)) [Suc s..<10] (Suc (length pre)) ?acc" for bs
      by (subst read_varint_loop_final(2))
        (simp_all only: nth_append_length low_byte_bits length_append list.size, simp_all)
    ultimately show ?thesis
      unfolding varint_assemble v upt by simp
  qed
qed

lemma read_push_varint [simp]:
  "read_varint (pre @ push_varint [] v @ post) (length pre) =
    Ok (v, length pre + length (push_varint [] v))"
proof -
  have "i + 7 * 0 < 64" if "bit v i" for i using that by (auto dest: bit_imp_le_length)
  from read_push_varint_loop [where v = v and s = 0, OF this] show ?thesis
    by (simp add: read_varint_def)
qed

text \<open>A varint cut short is reported as truncated.\<close>

lemma push_varint_more:
  "drop_bit 7 v \<noteq> 0 \<Longrightarrow>
   push_varint [] v = (ucast (v AND 127) OR 128) # push_varint [] (drop_bit 7 v)"
  by (subst push_varint_unfold) simp

lemma push_varint_last: "drop_bit 7 v = 0 \<Longrightarrow> push_varint [] v = [ucast (v AND 127)]"
  by (subst push_varint_unfold) simp

lemma read_varint_loop_cut:
  assumes "\<And>i. bit v i \<Longrightarrow> i + 7 * s < 64" and "s < 10" and "k < length (push_varint [] v)"
  shows "read_varint_loop (pre @ take k (push_varint [] v)) [s..<10] (length pre) acc = Err Truncated"
  using assms
proof (induction "unat v" arbitrary: v s pre acc k rule: less_induct)
  case less
  have upt: "[s..<10] = s # [Suc s..<10]" using less.prems(2) by (simp add: upt_conv_Cons)
  let ?b = "ucast (v AND 127) :: u8"
  show ?case
  proof (cases k)
    case 0
    then show ?thesis by (simp add: upt)
  next
    case (Suc k')
    then have more: "drop_bit 7 v \<noteq> 0" using less.prems(3) by (auto simp: push_varint_last)
    have bits: "i + 7 * Suc s < 64" if "bit (drop_bit 7 v) i" for i
      using that less.prems(1) [of "7 + i"] by (simp add: bit_drop_bit_eq)
    obtain i where "bit (drop_bit 7 v) i" using more
      by (metis bit_eqI bit_0_eq bot_apply bot_bool_def)
    then have s: "Suc s < 10" using bits by fastforce
    have k': "k' < length (push_varint [] (drop_bit 7 v))"
      using less.prems(3) Suc by (simp add: push_varint_more [OF more])
    have "read_varint_loop (pre @ ((?b OR 128) # bs)) (s # [Suc s..<10]) (length pre) acc =
      read_varint_loop (pre @ ((?b OR 128) # bs)) [Suc s..<10] (Suc (length pre))
        (acc OR push_bit (7 * s) (v AND 127))" for bs
      by (subst read_varint_loop_final(2))
        (simp_all only: nth_append_length low_byte_bits length_append list.size, simp_all)
    moreover have "read_varint_loop ((pre @ [?b OR 128]) @ take k' (push_varint [] (drop_bit 7 v)))
        [Suc s..<10] (length (pre @ [?b OR 128])) (acc OR push_bit (7 * s) (v AND 127)) = Err Truncated"
      by (rule less.hyps [OF unat_drop_bit_less [OF more] bits s k'])
    ultimately show ?thesis
      unfolding push_varint_more [OF more] upt Suc by simp
  qed
qed

lemma read_varint_cut [simp]:
  "k < length (push_varint [] v) \<Longrightarrow>
   read_varint (pre @ take k (push_varint [] v)) (length pre) = Err Truncated"
proof -
  assume k: "k < length (push_varint [] v)"
  have "i + 7 * 0 < 64" if "bit v i" for i using that by (auto dest: bit_imp_le_length)
  from read_varint_loop_cut [where v = v and s = 0, OF this _ k] show ?thesis
    by (simp add: read_varint_def)
qed

lemma read_varint_end [simp]: "read_varint bytes (length bytes) = Err Truncated"
  by (simp add: read_varint_def upt_conv_Cons)

lemma read_varint_loop_not_Panic: "read_varint_loop bytes shifts position value \<noteq> Panic"
  by (induction shifts arbitrary: position "value") (auto simp: Let_def)

lemma read_varint_not_Panic [simp]: "read_varint bytes position \<noteq> Panic"
  by (simp add: read_varint_def read_varint_loop_not_Panic)

subsection \<open>Size of a varint\<close>

lemma length_push_varint_bits:
  assumes "0 < k" and "\<And>i. bit v i \<Longrightarrow> i < 7 * k"
  shows "length (push_varint [] v) \<le> k"
  using assms
proof (induction k arbitrary: v)
  case 0
  then show ?case by simp
next
  case (Suc k)
  show ?case
  proof (cases "drop_bit 7 v = 0")
    case True
    then show ?thesis by (simp add: push_varint_last)
  next
    case False
    have bits: "i < 7 * k" if "bit (drop_bit 7 v) i" for i
      using that Suc.prems(2) [of "7 + i"] by (simp add: bit_drop_bit_eq)
    obtain i where "bit (drop_bit 7 v) i" using False
      by (metis bit_eqI bit_0_eq bot_apply bot_bool_def)
    then have "0 < k" using bits by fastforce
    then show ?thesis using Suc.IH [of "drop_bit 7 v"] bits False by (simp add: push_varint_more)
  qed
qed

lemma length_push_varint: "length (push_varint [] v) \<le> 10"
  by (rule length_push_varint_bits) (auto dest: bit_imp_le_length)

lemma push_varint_zero [simp]: "push_varint [] 0 = [0]"
  by (simp add: push_varint_last)

lemma zigzag_zero [simp]: "zigzag 0 = 0"
  by (simp add: zigzag_def)

subsection \<open>The delta-of-delta stream\<close>

lemma dod_encode_loop_append:
  "dod_encode_loop out previous previous_delta index values =
     out @ dod_encode_loop [] previous previous_delta index values"
proof (induction "values" arbitrary: out previous previous_delta index)
  case Nil
  then show ?case by simp
next
  case (Cons v vs)
  show ?case
    by (simp add: Let_def push_varint_append [of out] Cons.IH [of "out @ x" for x]
        Cons.IH [of "push_varint [] x" for x])
qed

text \<open>The second difference written at an index, and the stream as a list of varints.\<close>

fun dod_steps :: "i64 \<Rightarrow> i64 \<Rightarrow> nat \<Rightarrow> i64 list \<Rightarrow> i64 list" where
  "dod_steps previous previous_delta index [] = []"
| "dod_steps previous previous_delta index (v # vs) =
     (v - previous - (if index = 1 then 0 else previous_delta)) #
       dod_steps v (v - previous) (index + 1) vs"

definition varints :: "i64 list \<Rightarrow> bytes" where
  "varints steps = concat (map (\<lambda>s. push_varint [] (zigzag s)) steps)"

lemma varints_simps [simp]:
  "varints [] = []" "varints (s # ss) = push_varint [] (zigzag s) @ varints ss"
  by (simp_all add: varints_def)

lemma length_dod_steps [simp]: "length (dod_steps p d i vs) = length vs"
  by (induction vs arbitrary: p d i) simp_all

lemma dod_encode_loop_varints: "dod_encode_loop [] p d i vs = varints (dod_steps p d i vs)"
  by (induction vs arbitrary: p d i)
    (simp_all add: Let_def dod_encode_loop_append [of "push_varint [] x" for x])

lemma encode_delta_of_delta_varints:
  "encode_delta_of_delta (v # vs) = varints (v # dod_steps v 0 1 vs)"
  by (simp add: encode_delta_of_delta_def dod_encode_loop_append [of "push_varint [] x" for x]
      dod_encode_loop_varints)

lemma upt_Cons_length: "[i..<i + length (v # vs)] = i # [Suc i..<Suc i + length vs]"
  by (subst upt_rec) (simp del: upt_Suc)

text \<open>One turn of the decoder's loop on the varint the encoder wrote.\<close>

lemma dod_decode_turn:
  fixes p d :: i64
  assumes "s = v - p - (if i = 1 then 0 else d)"
  shows "dod_decode_loop (pre @ push_varint [] (zigzag s) @ rest) (i # is) (length pre) p d acc =
    dod_decode_loop ((pre @ push_varint [] (zigzag s)) @ rest) is
      (length (pre @ push_varint [] (zigzag s))) v (v - p) (acc @ [v])"
proof -
  have "(if i = 1 then s else d + s) = v - p" using assms by simp
  moreover have "p + (v - p) = v" by simp
  ultimately show ?thesis by (cases "i = 1") (simp_all add: Let_def del: One_nat_def)
qed

lemma dod_decode_steps:
  "dod_decode_loop (pre @ varints (dod_steps p d i vs) @ post) [i..<i + length vs] (length pre) p d acc =
     Ok (acc @ vs, length pre + length (varints (dod_steps p d i vs)))"
proof (induction vs arbitrary: pre p d i acc)
  case Nil
  then show ?case by simp
next
  case (Cons v vs)
  let ?b = "push_varint [] (zigzag (v - p - (if i = 1 then 0 else d)))"
  have "dod_decode_loop (pre @ ?b @ varints (dod_steps v (v - p) (i + 1) vs) @ post)
      (i # [Suc i..<Suc i + length vs]) (length pre) p d acc =
    Ok ((acc @ [v]) @ vs, length (pre @ ?b) + length (varints (dod_steps v (v - p) (i + 1) vs)))"
    unfolding dod_decode_turn [OF refl]
    using Cons.IH [of "pre @ ?b" v "v - p" "Suc i" "acc @ [v]"] by (simp del: upt_Suc)
  then show ?case
    unfolding upt_Cons_length dod_steps.simps varints_simps by simp
qed

lemma dod_decode_steps_cut:
  "k < length (varints (dod_steps p d i vs)) \<Longrightarrow>
   dod_decode_loop (pre @ take k (varints (dod_steps p d i vs))) [i..<i + length vs] (length pre) p d acc =
     Err Truncated"
proof (induction vs arbitrary: pre p d i acc k)
  case Nil
  then show ?case by simp
next
  case (Cons v vs)
  let ?b = "push_varint [] (zigzag (v - p - (if i = 1 then 0 else d)))"
  let ?r = "varints (dod_steps v (v - p) (i + 1) vs)"
  show ?case
  proof (cases "k < length ?b")
    case True
    then show ?thesis
      unfolding upt_Cons_length dod_steps.simps varints_simps by simp
  next
    case False
    then have "k - length ?b < length ?r" using Cons.prems by simp
    from Cons.IH [OF this, of "pre @ ?b" "acc @ [v]"]
    have "dod_decode_loop (pre @ ?b @ take (k - length ?b) ?r) (i # [Suc i..<Suc i + length vs])
        (length pre) p d acc = Err Truncated"
      unfolding dod_decode_turn [OF refl] by simp
    then show ?thesis using False
      unfolding upt_Cons_length dod_steps.simps varints_simps by simp
  qed
qed

lemma dod_decode_loop_length:
  "dod_decode_loop bytes is position value delta values = Ok (vs, q) \<Longrightarrow>
   length vs = length values + length is"
  by (induction "is" arbitrary: position "value" delta "values") (auto simp: Let_def)

lemma dod_decode_loop_not_Panic: "dod_decode_loop bytes is position value delta values \<noteq> Panic"
proof (induction "is" arbitrary: position "value" delta "values")
  case (Cons i "is")
  show ?case by (cases "read_varint bytes position") (auto simp: Let_def Cons.IH)
qed simp

text \<open>
  The whole decoder on the encoding, on an encoding with bytes after it, and on a proper
  prefix of one.
\<close>

lemma decode_dod_framed:
  "decode_delta_of_delta (encode_delta_of_delta vs @ post) (length vs) =
     (if post = [] then Ok vs else Err (TrailingBytes (length post)))"
proof (cases vs)
  case Nil
  then show ?thesis by (simp add: decode_delta_of_delta_def encode_delta_of_delta_def)
next
  case (Cons v ws)
  have upt: "[Suc 0..<length vs] = [1..<1 + length ws]" using Cons by simp
  have "read_varint (push_varint [] (zigzag v) @ rest) 0 =
      Ok (zigzag v, length (push_varint [] (zigzag v)))" for rest
    using read_push_varint [of "[]" "zigzag v" rest] by simp
  moreover have "dod_decode_loop (push_varint [] (zigzag v) @ varints (dod_steps v 0 1 ws) @ post)
      [1..<1 + length ws] (length (push_varint [] (zigzag v))) v 0 [v] =
      Ok ([v] @ ws, length (push_varint [] (zigzag v)) + length (varints (dod_steps v 0 1 ws)))"
    by (rule dod_decode_steps)
  ultimately show ?thesis
    unfolding decode_delta_of_delta_def
    by (simp add: Cons encode_delta_of_delta_varints)
qed

lemma decode_dod_cut:
  assumes "k < length (encode_delta_of_delta vs)"
  shows "decode_delta_of_delta (take k (encode_delta_of_delta vs)) (length vs) = Err Truncated"
proof (cases vs)
  case Nil
  then show ?thesis using assms by (simp add: encode_delta_of_delta_def)
next
  case (Cons v ws)
  let ?b = "push_varint [] (zigzag v)"
  let ?r = "varints (dod_steps v 0 1 ws)"
  show ?thesis
  proof (cases "k < length ?b")
    case True
    then have "read_varint (take k ?b) 0 = Err Truncated"
      using read_varint_cut [of k "zigzag v" "[]"] by simp
    then show ?thesis using True
      by (simp add: decode_delta_of_delta_def Cons encode_delta_of_delta_varints)
  next
    case False
    then have "k - length ?b < length ?r" using assms by (simp add: Cons encode_delta_of_delta_varints)
    then have "dod_decode_loop (?b @ take (k - length ?b) ?r) [1..<1 + length ws] (length ?b) v 0 [v] =
        Err Truncated"
      by (rule dod_decode_steps_cut)
    moreover have "read_varint (?b @ rest) 0 = Ok (zigzag v, length ?b)" for rest
      using read_push_varint [of "[]" "zigzag v" rest] by simp
    ultimately show ?thesis using False
      by (simp add: decode_delta_of_delta_def Cons encode_delta_of_delta_varints)
  qed
qed

lemma decode_dod_length: "decode_delta_of_delta bytes n = Ok vs \<Longrightarrow> length vs = n"
  by (auto simp: decode_delta_of_delta_def Let_def split: if_splits dest!: dod_decode_loop_length)

lemma decode_dod_not_Panic: "decode_delta_of_delta bytes n \<noteq> Panic"
proof (cases "read_varint bytes 0")
  case (Ok a)
  obtain raw q where "a = (raw, q)" by fastforce
  then show ?thesis
    using Ok dod_decode_loop_not_Panic [of bytes "[Suc 0..<n]" q "unzigzag raw" 0 "[unzigzag raw]"]
    by (cases "dod_decode_loop bytes [Suc 0..<n] q (unzigzag raw) 0 [unzigzag raw]")
      (auto simp: decode_delta_of_delta_def split: if_splits)
qed (auto simp: decode_delta_of_delta_def split: if_splits)

section \<open>The contract of a column codec\<close>

text \<open>
  A codec of the storage layer is a pair of an encoder and a decoder that is given the
  number of values.  Decoding an encoding with its own count gives the values back; the
  decoder returns as many values as it was asked for, and reports bad bytes as an error,
  never as a panic.  The bound is that of a byte slice, whose length is a 64-bit number.
\<close>

locale column_codec =
  fixes encode :: "'a list \<Rightarrow> bytes"
    and decode :: "bytes \<Rightarrow> nat \<Rightarrow> (codec_error, 'a list) outcome"
  assumes decode_encode [simp]: "length (encode xs) < 2 ^ 64 \<Longrightarrow> decode (encode xs) (length xs) = Ok xs"
    and decode_length: "decode bytes n = Ok xs \<Longrightarrow> length xs = n"
    and decode_total: "decode bytes n \<noteq> Panic"
begin

lemma encode_inj:
  "encode xs = encode ys \<Longrightarrow> length xs = length ys \<Longrightarrow> length (encode xs) < 2 ^ 64 \<Longrightarrow> xs = ys"
  by (metis decode_encode outcome.inject(1))

lemma decode_cases:
  obtains (vals) xs where "decode bytes n = Ok xs" "length xs = n"
    | (bad) e where "decode bytes n = Err e"
  by (cases "decode bytes n") (auto simp: decode_total dest: decode_length)

lemma decode_stable:
  "decode bytes n = Ok xs \<Longrightarrow> length (encode xs) < 2 ^ 64 \<Longrightarrow> decode (encode xs) n = Ok xs"
  using decode_encode [of xs] decode_length [of bytes n xs] by simp

end

interpretation dod: column_codec encode_delta_of_delta decode_delta_of_delta
proof unfold_locales
  show "decode_delta_of_delta (encode_delta_of_delta xs) (length xs) = Ok xs" for xs
    using decode_dod_framed [of xs "[]"] by simp
qed (fact decode_dod_length decode_dod_not_Panic)+

section \<open>Size\<close>

lemma length_varints: "length (varints ss) \<le> 10 * length ss"
proof (induction ss)
  case (Cons s ss)
  then show ?case using length_push_varint [of "zigzag s"] by simp
qed simp

lemma length_encode_dod: "length (encode_delta_of_delta vs) \<le> 10 * length vs"
proof (cases vs)
  case (Cons v ws)
  then show ?thesis using length_varints [of "v # dod_steps v 0 1 ws"]
    by (simp add: encode_delta_of_delta_varints)
qed (simp add: encode_delta_of_delta_def)

definition cadence :: "i64 \<Rightarrow> i64 \<Rightarrow> nat \<Rightarrow> i64 list" where
  "cadence start step n = map (\<lambda>i. start + word_of_nat i * step) [0..<n]"

lemma cadence_Suc: "cadence start step (Suc n) = start # cadence (start + step) step n"
  unfolding cadence_def
  by (simp add: upt_conv_Cons map_Suc_upt [symmetric] algebra_simps comp_def del: upt_Suc map_Suc_upt)

lemma dod_steps_cadence:
  "1 < i \<Longrightarrow> dod_steps p step i (cadence (p + step) step n) = replicate n 0"
proof (induction n arbitrary: p i)
  case (Suc n)
  then show ?case using Suc.IH [of "Suc i" "p + step"] by (simp add: cadence_Suc)
qed (simp add: cadence_def)

lemma varints_zeros: "length (varints (replicate n 0)) = n"
  by (induction n) simp_all

lemma length_encode_cadence: "length (encode_delta_of_delta (cadence start step (n + 2))) \<le> n + 20"
proof -
  have eq: "cadence start step (n + 2) = start # (start + step) # cadence (start + step + step) step n"
    by (simp add: cadence_Suc)
  have zeros: "dod_steps (start + step) step (Suc (Suc 0)) (cadence (start + step + step) step n) =
      replicate n 0"
    by (rule dod_steps_cadence) simp
  have steps: "dod_steps start 0 1 ((start + step) # cadence (start + step + step) step n) =
      step # replicate n 0"
    using zeros by simp
  have "length (encode_delta_of_delta (cadence start step (n + 2))) =
      length (push_varint [] (zigzag start)) + (length (push_varint [] (zigzag step)) + n)"
    unfolding eq encode_delta_of_delta_varints steps varints_simps length_append varints_zeros ..
  then show ?thesis
    using length_push_varint [of "zigzag start"] length_push_varint [of "zigzag step"] by linarith
qed

section \<open>Properties\<close>

text \<open>
  C8: The delta-of-delta stream is exactly framed.  For every list of 64-bit integers
  (wrap-around differences included), decoding the encoding with its count returns the
  list; with bytes after it the decoder reports how many remain; and every proper prefix
  is reported as truncated.
\<close>
theorem dod_framing:
  "decode_delta_of_delta (encode_delta_of_delta vs @ post) (length vs) =
     (if post = [] then Ok vs else Err (TrailingBytes (length post))) \<and>
   (\<forall>k<length (encode_delta_of_delta vs).
     decode_delta_of_delta (take k (encode_delta_of_delta vs)) (length vs) = Err Truncated)"
  using decode_dod_framed decode_dod_cut by simp

theorem dod_framing_witness:
  "encode_delta_of_delta [5, 9] = [10, 8] \<and>
   decode_delta_of_delta (take 1 (encode_delta_of_delta [5, 9])) (length [5, 9 :: i64]) = Err Truncated"
proof -
  have "encode_delta_of_delta [5, 9] = [10, 8]"
    by (simp add: encode_delta_of_delta_def zigzag_def push_varint.simps Let_def signed_drop_bit_word_Suc_numeral)
  then show ?thesis using dod_framing [of "[5, 9]" "[]", THEN conjunct2, rule_format, of 1] by simp
qed

text \<open>
  The size of a delta-of-delta stream: never more than ten bytes a value, and for a
  regular cadence (any start, any step, wrapping or not) one byte a value after the
  first two.
\<close>
theorem dod_size:
  "length (encode_delta_of_delta vs) \<le> 10 * length vs \<and>
   length (encode_delta_of_delta (cadence start step (n + 2))) \<le> n + 20"
  by (intro conjI length_encode_dod length_encode_cadence)

end
