(* ===== verification/Crc.thy ===== *)
theory Crc
  imports Prelude
begin

text \<open>
  The two checksums of the storage layer: CRC-32C of \<^verbatim>\<open>src/storage_lite/format.rs\<close> and
  IEEE CRC-32 of \<^verbatim>\<open>src/storage_lite/tombstone.rs\<close>, both table-driven, differing in the
  polynomial.  The reference is the bit-at-a-time register \<open>crc_bit\<close>; it is linear and
  injective, which gives the table's correctness and the detection of every burst of
  damage within four consecutive bytes.
\<close>

section \<open>The code\<close>

text \<open>The body of the inner \<open>while bit < 8\<close> loop of the table's construction.\<close>

definition crc_bit :: "u32 \<Rightarrow> u32 \<Rightarrow> u32" where
  "crc_bit poly crc = (if crc AND 1 \<noteq> 0 then drop_bit 1 crc XOR poly else drop_bit 1 crc)"

definition crc_table :: "u32 \<Rightarrow> u32 list" where
  "crc_table poly = map (\<lambda>i. (crc_bit poly ^^ 8) (word_of_nat i)) [0..<256]"

definition crc_step :: "u32 list \<Rightarrow> u32 \<Rightarrow> u8 \<Rightarrow> u32" where
  "crc_step table crc byte = drop_bit 8 crc XOR (table ! unat ((crc XOR ucast byte) AND 0xFF))"

definition crc32c :: "bytes \<Rightarrow> u32" where
  "crc32c bytes = NOT (foldl (crc_step (crc_table 0x82F63B78)) 0xFFFFFFFF bytes)"

definition crc32 :: "bytes \<Rightarrow> u32" where
  "crc32 bytes = NOT (foldl (crc_step (crc_table 0xEDB88320)) 0xFFFFFFFF bytes)"

section \<open>The bitwise register\<close>

lemma xor_cancel:
  fixes a b c :: "'a::len word"
  shows "a XOR c = b XOR c \<Longrightarrow> a = b" and "c XOR a = c XOR b \<Longrightarrow> a = b"
proof -
  have r: "x = (x XOR c) XOR c" for x by (simp add: xor.assoc)
  show "a XOR c = b XOR c \<Longrightarrow> a = b" using r [of a] r [of b] by simp
  then show "c XOR a = c XOR b \<Longrightarrow> a = b" by (simp add: xor.commute)
qed

lemma split_mask: "x = (x AND m) XOR (x AND NOT m)" for x :: "'a::len word"
  by (rule bit_word_eqI) (auto simp: bit_xor_iff bit_and_iff bit_not_iff)

lemma crc_bit_XOR: "crc_bit poly (a XOR b) = crc_bit poly a XOR crc_bit poly b"
proof -
  have low: "x AND 1 \<noteq> 0 \<longleftrightarrow> bit x 0" for x :: u32
    using and_exp_eq_0_iff_not_bit [of x 0] by simp
  show ?thesis
    unfolding crc_bit_def low by (rule bit_word_eqI) (auto simp: bit_xor_iff bit_drop_bit_eq)
qed

lemma crc_bits_XOR: "(crc_bit poly ^^ n) (a XOR b) = (crc_bit poly ^^ n) a XOR (crc_bit poly ^^ n) b"
  by (induction n) (simp_all add: crc_bit_XOR)

lemma crc_bit_0 [simp]: "crc_bit poly 0 = 0"
  by (simp add: crc_bit_def)

lemma crc_bits_0 [simp]: "(crc_bit poly ^^ n) 0 = 0"
  by (induction n) simp_all

lemma crc_bits_inj:
  assumes "bit poly 31" "(crc_bit poly ^^ n) a = (crc_bit poly ^^ n) b"
  shows "a = b"
proof -
  have one: "c = 0" if "crc_bit poly c = 0" for c
  proof (rule bit_word_eqI)
    fix i assume i: "i < LENGTH(32)"
    have low: "c AND 1 \<noteq> 0 \<longleftrightarrow> bit c 0" using and_exp_eq_0_iff_not_bit [of c 0] by simp
    have top: "bit (crc_bit poly c) 31 \<longleftrightarrow> bit c 0"
      unfolding crc_bit_def low using assms(1)
      by (auto simp: bit_xor_iff bit_drop_bit_eq dest: bit_imp_le_length)
    then have "\<not> bit c 0" using that by simp
    moreover have "\<not> bit c (Suc j)" for j
      using that \<open>\<not> bit c 0\<close> unfolding crc_bit_def low
      by (auto simp: bit_drop_bit_eq dest: arg_cong [where f = "\<lambda>w. bit w j"])
    ultimately show "bit c i = bit 0 i" by (cases i) simp_all
  qed
  have zero: "(crc_bit poly ^^ k) c = 0 \<Longrightarrow> c = 0" for k c
    by (induction k) (auto dest: one)
  have "(crc_bit poly ^^ n) (a XOR b) = 0" using assms(2) by (simp add: crc_bits_XOR)
  then have "a XOR b = 0" by (rule zero)
  then have "a XOR b = b XOR b" by simp
  then show ?thesis by (rule xor_cancel(1))
qed

text \<open>Shifting zeros out of the low end.\<close>

lemma crc_bits_shift:
  assumes "\<And>i. i < n \<Longrightarrow> \<not> bit c i"
  shows "(crc_bit poly ^^ n) c = drop_bit n c"
  using assms
proof (induction n arbitrary: c)
  case (Suc n)
  have "c AND 1 = 0" using and_exp_eq_0_iff_not_bit [of c 0] Suc.prems [of 0] by simp
  then have "crc_bit poly c = drop_bit 1 c" by (simp add: crc_bit_def)
  moreover have "(crc_bit poly ^^ n) (drop_bit 1 c) = drop_bit n (drop_bit 1 c)"
    using Suc.prems [of "Suc _"] by (intro Suc.IH) (simp add: bit_drop_bit_eq)
  ultimately show ?case by (simp add: funpow_swap1)
qed simp

lemma crc_step_bits: "crc_step (crc_table poly) c b = (crc_bit poly ^^ 8) (c XOR ucast b)"
proof -
  let ?x = "c XOR ucast b"
  have mask: "(0xFF :: u32) = mask 8" by (simp add: mask_eq_exp_minus_1)
  have m: "bit (?x AND 0xFF) i \<longleftrightarrow> i < 8 \<and> bit ?x i" for i
    unfolding mask by (auto simp: bit_and_iff bit_mask_iff dest: bit_imp_le_length)
  have "?x = (?x AND 0xFF) XOR (?x AND NOT 0xFF)"
    by (rule split_mask)
  then have "(crc_bit poly ^^ 8) ?x = (crc_bit poly ^^ 8) (?x AND 0xFF) XOR (crc_bit poly ^^ 8) (?x AND NOT 0xFF)"
    by (metis crc_bits_XOR)
  also have "(crc_bit poly ^^ 8) (?x AND NOT 0xFF) = drop_bit 8 (?x AND NOT 0xFF)"
    by (rule crc_bits_shift) (simp add: mask bit_and_iff bit_not_iff bit_mask_iff)
  also have "drop_bit 8 (?x AND NOT 0xFF) = drop_bit 8 c"
    by (rule bit_word_eqI)
      (auto simp: mask bit_drop_bit_eq bit_and_iff bit_not_iff bit_mask_iff bit_xor_iff bit_ucast_iff
        dest: bit_imp_le_length)
  finally have e: "(crc_bit poly ^^ 8) ?x = (crc_bit poly ^^ 8) (?x AND 0xFF) XOR drop_bit 8 c" .
  have "?x AND 0xFF \<le> 0xFF" by (rule word_and_le1)
  then have "unat (?x AND 0xFF) < 2 ^ 8" by (simp only: word_le_nat_alt) simp
  then show ?thesis unfolding crc_step_def crc_table_def e by (simp add: xor.commute)
qed

text \<open>Up to four bytes: one run of the register over them as one word.\<close>

lemma crc_fold_word:
  "length bs \<le> 4 \<Longrightarrow>
   foldl (crc_step (crc_table poly)) c bs = (crc_bit poly ^^ (8 * length bs)) (c XOR le_word bs)"
proof (induction bs arbitrary: c)
  case (Cons b bs)
  let ?w = "le_word bs :: u32"
  have w: "bit ?w i \<longrightarrow> i < 24" for i
  proof -
    have "i div 8 < length bs \<Longrightarrow> i < 24" using Cons.prems by (auto simp: div_less_iff_less_mult)
    then show ?thesis by (auto simp: bit_le_word)
  qed
  have "drop_bit 8 (push_bit 8 ?w) = ?w"
    using w by (intro bit_word_eqI) (fastforce simp: bit_drop_bit_eq bit_push_bit_iff)
  moreover have "(crc_bit poly ^^ 8) (push_bit 8 ?w) = drop_bit 8 (push_bit 8 ?w)"
    by (rule crc_bits_shift) (simp add: bit_push_bit_iff)
  ultimately have shift: "(crc_bit poly ^^ 8) (push_bit 8 ?w) = ?w" by simp
  have or: "c XOR (ucast b OR push_bit 8 ?w) = (c XOR ucast b) XOR push_bit 8 ?w"
    by (rule bit_word_eqI)
      (auto simp: bit_xor_iff bit_or_iff bit_push_bit_iff bit_ucast_iff dest: bit_imp_le_length)
  have "foldl (crc_step (crc_table poly)) c (b # bs) =
      (crc_bit poly ^^ (8 * length bs)) ((crc_bit poly ^^ 8) (c XOR ucast b) XOR ?w)"
    using Cons.IH [of "(crc_bit poly ^^ 8) (c XOR ucast b)"] Cons.prems
    by (simp add: crc_step_bits [of poly c b])
  also have "(crc_bit poly ^^ 8) (c XOR ucast b) XOR ?w =
      (crc_bit poly ^^ 8) ((c XOR ucast b) XOR push_bit 8 ?w)"
    by (simp add: crc_bits_XOR shift)
  also have "(crc_bit poly ^^ (8 * length bs)) \<dots> =
      (crc_bit poly ^^ (8 * length bs + 8)) ((c XOR ucast b) XOR push_bit 8 ?w)"
    by (simp add: funpow_add)
  finally show ?case by (simp add: or add.commute)
qed simp

lemma crc_fold_inj_state:
  assumes "bit poly 31" "foldl (crc_step (crc_table poly)) c bs = foldl (crc_step (crc_table poly)) d bs"
  shows "c = d"
  using assms(2)
proof (induction bs arbitrary: c d)
  case (Cons b bs)
  then have "crc_step (crc_table poly) c b = crc_step (crc_table poly) d b" by (simp only: foldl_Cons)
  then have "c XOR ucast b = d XOR ucast b"
    unfolding crc_step_bits by (rule crc_bits_inj [OF assms(1)])
  then show ?case by (rule xor_cancel(1))
qed simp

lemma crc_burst:
  assumes "bit poly 31" "length xs = length ys" "length xs \<le> 4" "xs \<noteq> ys"
  shows "foldl (crc_step (crc_table poly)) c (pre @ xs @ post) \<noteq>
    foldl (crc_step (crc_table poly)) c (pre @ ys @ post)"
proof
  let ?f = "foldl (crc_step (crc_table poly))"
  assume "?f c (pre @ xs @ post) = ?f c (pre @ ys @ post)"
  then have "?f (?f (?f c pre) xs) post = ?f (?f (?f c pre) ys) post" by (simp only: foldl_append)
  then have "?f (?f c pre) xs = ?f (?f c pre) ys" by (rule crc_fold_inj_state [OF assms(1)])
  then have "(crc_bit poly ^^ (8 * length ys)) (?f c pre XOR le_word xs) =
      (crc_bit poly ^^ (8 * length ys)) (?f c pre XOR le_word ys)"
    using crc_fold_word [of xs poly] crc_fold_word [of ys poly] assms(2,3) by simp
  then have "?f c pre XOR le_word xs = ?f c pre XOR (le_word ys :: u32)"
    by (rule crc_bits_inj [OF assms(1)])
  then have "(le_word xs :: u32) = le_word ys" by (rule xor_cancel(2))
  then have "le_bytes (length xs) (le_word xs :: u32) = le_bytes (length ys) (le_word ys :: u32)"
    using assms(2) by simp
  then show False using assms by (simp add: le_bytes_le_word)
qed

lemma crc_polynomials: "bit (0x82F63B78 :: u32) 31" "bit (0xEDB88320 :: u32) 31"
  by simp_all

text \<open>
  C13: The table-driven checksums are the bit-at-a-time register over their polynomials,
  and both detect every burst of damage confined to four consecutive bytes, wherever it
  sits in however long a message.
\<close>
theorem crc_correct:
  assumes "length xs = length ys" "length xs \<le> 4" "xs \<noteq> ys"
  shows "crc32c bs = NOT (foldl (\<lambda>c b. (crc_bit 0x82F63B78 ^^ 8) (c XOR ucast b)) 0xFFFFFFFF bs) \<and>
    crc32 bs = NOT (foldl (\<lambda>c b. (crc_bit 0xEDB88320 ^^ 8) (c XOR ucast b)) 0xFFFFFFFF bs) \<and>
    crc32c (pre @ xs @ post) \<noteq> crc32c (pre @ ys @ post) \<and>
    crc32 (pre @ xs @ post) \<noteq> crc32 (pre @ ys @ post)"
  using crc_burst [OF crc_polynomials(1) assms] crc_burst [OF crc_polynomials(2) assms]
  by (simp add: crc32c_def crc32_def crc_step_bits [abs_def])

theorem crc_correct_witness:
  "crc32c [] = 0 \<and> crc32c ([7] @ [1, 2] @ [9]) \<noteq> crc32c ([7] @ [3, 2] @ [9])"
  using crc_correct [of "[1, 2]" "[3, 2]" "[]" "[7]" "[9]"] by simp

end
