(* ===== verification/Reader.thy ===== *)
theory Reader
  imports Codec Crc
begin

text \<open>
  The bounds-checked little-endian \<open>Reader\<close> of \<^verbatim>\<open>src/storage_lite/format.rs\<close> and its error
  type.  A parser is a function of the reader (its slice and its position) to a result
  and the advanced reader; \<open>bindP\<close> sequences two parsers as the code's \<open>?\<close> does.
  \<open>parses p xs v\<close> says that \<open>p\<close>, standing before the bytes \<open>xs\<close> anywhere in a slice, reads
  exactly them and returns \<open>v\<close>; it composes over \<open>bindP\<close> and concatenation, so that every
  round trip of the file formats is a walk along the encoder.  An error message keeps the
  literal part of the code's text.
\<close>

datatype format_error =
    BadMagic
  | UnsupportedVersion u16
  | ChecksumMismatch u32 u32
  | Corrupt string
  | CodecErr codec_error

record reader =
  r_bytes :: bytes
  r_position :: nat

type_synonym 'a parser = "reader \<Rightarrow> (format_error, 'a \<times> reader) outcome"

definition returnP :: "'a \<Rightarrow> 'a parser" where
  "returnP v r = Ok (v, r)"

definition bindP :: "'a parser \<Rightarrow> ('a \<Rightarrow> 'b parser) \<Rightarrow> 'b parser" where
  "bindP p f r = bindR (p r) (\<lambda>(v, r). f v r)"

definition liftP :: "(format_error, 'a) outcome \<Rightarrow> 'a parser" where
  "liftP m r = mapR (\<lambda>v. (v, r)) m"

definition r_take :: "nat \<Rightarrow> bytes parser" where
  "r_take count r =
     (let end = r_position r + count
      in if end < 2 ^ 64 \<and> end \<le> length (r_bytes r)
         then Ok (take count (drop (r_position r) (r_bytes r)), r\<lparr>r_position := end\<rparr>)
         else Err (Corrupt ''unexpected end of file''))"

definition r_u8 :: "u8 parser" where
  "r_u8 = bindP (r_take 1) (\<lambda>b. returnP (hd b))"

definition r_u16 :: "u16 parser" where
  "r_u16 = bindP (r_take 2) (\<lambda>b. returnP (le_word b))"

definition r_u32 :: "u32 parser" where
  "r_u32 = bindP (r_take 4) (\<lambda>b. returnP (le_word b))"

definition r_u64 :: "u64 parser" where
  "r_u64 = bindP (r_take 8) (\<lambda>b. returnP (le_word b))"

definition r_i32 :: "i32 parser" where
  "r_i32 = bindP (r_take 4) (\<lambda>b. returnP (le_word b))"

text \<open>A parser run a number of times, collecting its results.\<close>

fun repeatP :: "nat \<Rightarrow> 'a parser \<Rightarrow> 'a list parser" where
  "repeatP 0 p = returnP []"
| "repeatP (Suc n) p = bindP p (\<lambda>v. bindP (repeatP n p) (\<lambda>vs. returnP (v # vs)))"

section \<open>Composition\<close>

definition parses :: "'a parser \<Rightarrow> bytes \<Rightarrow> 'a \<Rightarrow> bool" where
  "parses p xs v \<longleftrightarrow> (\<forall>pre post. length (pre @ xs @ post) < 2 ^ 64 \<longrightarrow>
     p \<lparr>r_bytes = pre @ xs @ post, r_position = length pre\<rparr> =
       Ok (v, \<lparr>r_bytes = pre @ xs @ post, r_position = length pre + length xs\<rparr>))"

named_theorems parses_intros \<open>the compositional rules of \<open>parses\<close>\<close>

lemma parsesD:
  "parses p xs v \<Longrightarrow> length (pre @ xs @ post) < 2 ^ 64 \<Longrightarrow>
   p \<lparr>r_bytes = pre @ xs @ post, r_position = length pre\<rparr> =
     Ok (v, \<lparr>r_bytes = pre @ xs @ post, r_position = length pre + length xs\<rparr>)"
  unfolding parses_def by blast

lemma parses_return [parses_intros]: "parses (returnP v) [] v"
  by (simp add: parses_def returnP_def)

lemma parses_bind:
  assumes "parses p xs a" "parses (f a) ys b"
  shows "parses (bindP p f) (xs @ ys) b"
  unfolding parses_def
proof (intro allI impI)
  fix pre post :: bytes
  assume "length (pre @ (xs @ ys) @ post) < 2 ^ 64"
  then show "bindP p f \<lparr>r_bytes = pre @ (xs @ ys) @ post, r_position = length pre\<rparr> =
      Ok (b, \<lparr>r_bytes = pre @ (xs @ ys) @ post, r_position = length pre + length (xs @ ys)\<rparr>)"
    using parsesD [OF assms(1), of pre "ys @ post"] parsesD [OF assms(2), of "pre @ xs" post]
    by (simp add: bindP_def add.assoc)
qed

text \<open>The last parser of a sequence, and a step that reads nothing.\<close>

lemma parses_bind_return: "parses p xs a \<Longrightarrow> parses (bindP p (\<lambda>v. returnP (g v))) xs (g a)"
  using parses_bind [OF _ parses_return, of p xs a g] by simp

lemma parses_bind_silent: "parses p [] a \<Longrightarrow> parses (f a) ys b \<Longrightarrow> parses (bindP p f) ys b"
  using parses_bind [of p "[]" a f ys b] by simp

lemma parses_lift: "m = Ok v \<Longrightarrow> parses (liftP m) [] v"
  by (simp add: parses_def liftP_def)

lemma parses_take [parses_intros]: "length xs = n \<Longrightarrow> parses (r_take n) xs xs"
  by (simp add: parses_def r_take_def)

lemma parses_u8 [parses_intros]: "parses r_u8 [b] b"
  unfolding r_u8_def using parses_bind_return [OF parses_take, of "[b]" 1 hd] by simp

lemma parses_u16 [parses_intros]: "parses r_u16 (le_bytes 2 w) w"
  unfolding r_u16_def using parses_bind_return [OF parses_take, of "le_bytes 2 w" 2 "le_word :: bytes \<Rightarrow> u16"] by simp

lemma parses_u32 [parses_intros]: "parses r_u32 (le_bytes 4 w) w"
  unfolding r_u32_def using parses_bind_return [OF parses_take, of "le_bytes 4 w" 4 "le_word :: bytes \<Rightarrow> u32"] by simp

lemma parses_u64 [parses_intros]: "parses r_u64 (le_bytes 8 w) w"
  unfolding r_u64_def using parses_bind_return [OF parses_take, of "le_bytes 8 w" 8 "le_word :: bytes \<Rightarrow> u64"] by simp

lemma parses_i32 [parses_intros]: "parses r_i32 (le_bytes 4 w) w"
  unfolding r_i32_def using parses_bind_return [OF parses_take, of "le_bytes 4 w" 4 "le_word :: bytes \<Rightarrow> i32"] by simp

lemma parses_repeat:
  assumes "\<And>v. v \<in> set vs \<Longrightarrow> parses p (enc v) v"
  shows "parses (repeatP (length vs) p) (concat (map enc vs)) vs"
  using assms
proof (induction vs)
  case Nil
  then show ?case by (simp add: parses_return)
next
  case (Cons v vs)
  then show ?case
    by (auto intro!: parses_bind [of p "enc v" v] parses_bind_return [where g = "\<lambda>us. v # us"])
qed

text \<open>One step of each kind before the rest of a parser.\<close>

lemmas parses_steps = parses_bind [OF parses_u8] parses_bind [OF parses_u16] parses_bind [OF parses_u32]
  parses_bind [OF parses_u64] parses_bind [OF parses_i32]

lemma parses_bind_take: "length xs = n \<Longrightarrow> parses (f xs) ys b \<Longrightarrow> parses (bindP (r_take n) f) (xs @ ys) b"
  by (rule parses_bind [OF parses_take])

lemma parses_bind_last: "parses p xs a \<Longrightarrow> parses (f a) [] b \<Longrightarrow> parses (bindP p f) xs b"
  using parses_bind [of p xs a f "[]" b] by simp

lemma parses_take_last: "length xs = n \<Longrightarrow> parses (f xs) [] b \<Longrightarrow> parses (bindP (r_take n) f) xs b"
  by (rule parses_bind_last [OF parses_take])

lemma parses_byte: "parses (f b) ys v \<Longrightarrow> parses (bindP r_u8 f) (b # ys) v"
  using parses_bind [OF parses_u8, of f b ys v] by simp

text \<open>The same at the end of a slice, where the reader has nothing left.\<close>

definition parses_end :: "'a parser \<Rightarrow> bytes \<Rightarrow> 'a \<Rightarrow> bool" where
  "parses_end p xs v \<longleftrightarrow> (\<forall>pre. length (pre @ xs) < 2 ^ 64 \<longrightarrow>
     p \<lparr>r_bytes = pre @ xs, r_position = length pre\<rparr> =
       Ok (v, \<lparr>r_bytes = pre @ xs, r_position = length pre + length xs\<rparr>))"

lemma parses_endI: "parses p xs v \<Longrightarrow> parses_end p xs v"
  unfolding parses_end_def using parsesD [of p xs v _ "[]"] by simp

lemma parses_end_bind:
  assumes "parses p xs a" "parses_end (f a) ys b"
  shows "parses_end (bindP p f) (xs @ ys) b"
  unfolding parses_end_def
proof (intro allI impI)
  fix pre :: bytes
  assume "length (pre @ xs @ ys) < 2 ^ 64"
  then show "bindP p f \<lparr>r_bytes = pre @ xs @ ys, r_position = length pre\<rparr> =
      Ok (b, \<lparr>r_bytes = pre @ xs @ ys, r_position = length pre + length (xs @ ys)\<rparr>)"
    using parsesD [OF assms(1), of pre ys]
      assms(2) [unfolded parses_end_def, THEN spec, of "pre @ xs"]
    by (simp add: bindP_def add.assoc)
qed

lemma parses_end_run: "parses_end p xs v \<Longrightarrow> length xs < 2 ^ 64 \<Longrightarrow>
  p \<lparr>r_bytes = xs, r_position = 0\<rparr> = Ok (v, \<lparr>r_bytes = xs, r_position = length xs\<rparr>)"
  unfolding parses_end_def by (auto dest: spec [of _ "[]"])

text \<open>A parser that cannot panic, whatever the bytes.\<close>

definition safeP :: "'a parser \<Rightarrow> bool" where
  "safeP p \<longleftrightarrow> (\<forall>r. p r \<noteq> Panic)"

lemma safe_return [intro, simp]: "safeP (returnP v)"
  by (simp add: safeP_def returnP_def)

lemma safe_bind [intro]: "safeP p \<Longrightarrow> (\<And>v. safeP (f v)) \<Longrightarrow> safeP (bindP p f)"
  by (auto simp: safeP_def bindP_def)

lemma safe_lift [intro]: "m \<noteq> Panic \<Longrightarrow> safeP (liftP m)"
  by (simp add: safeP_def liftP_def)

lemma safe_take [intro, simp]: "safeP (r_take n)"
  by (simp add: safeP_def r_take_def Let_def)

lemma safe_numbers [intro, simp]: "safeP r_u8" "safeP r_u16" "safeP r_u32" "safeP r_u64" "safeP r_i32"
  by (auto simp: r_u8_def r_u16_def r_u32_def r_u64_def r_i32_def)

lemma safe_repeat [intro]: "safeP p \<Longrightarrow> safeP (repeatP n p)"
  by (induction n) auto

end
