(* ===== verification/Bitpack.thy ===== *)
theory Bitpack
  imports Codec
begin

text \<open>
  Frame of reference and bit packing, the integer half of \<^verbatim>\<open>src/storage_lite/alp.rs\<close>:
  \<open>pack_bits\<close> with its 128-bit accumulator, \<open>unpack_bits\<close> with its per-byte inner loop, and
  the chunked encoders and decoders of \<open>i64\<close> columns and \<open>u32\<close> symbol codes.  The bit
  stream is also read as a list of booleans (\<open>stream\<close>), in which both loops are
  concatenation and slicing.
\<close>

section \<open>Packing\<close>

text \<open>The inner \<open>while bits >= 8\<close> loop.\<close>

function pack_drain :: "bytes \<Rightarrow> 128 word \<Rightarrow> nat \<Rightarrow> bytes \<times> 128 word \<times> nat" where
  "pack_drain out acc bits =
     (if 8 \<le> bits then pack_drain (out @ [ucast (acc AND 0xFF)]) (drop_bit 8 acc) (bits - 8)
      else (out, acc, bits))"
  by pat_completeness auto
termination by (relation "measure (\<lambda>(out, acc, bits). bits)") auto

declare pack_drain.simps [simp del]

fun pack_loop :: "bytes \<Rightarrow> 128 word \<Rightarrow> nat \<Rightarrow> u64 list \<Rightarrow> nat \<Rightarrow> bytes \<times> 128 word \<times> nat" where
  "pack_loop out acc bits [] width = (out, acc, bits)"
| "pack_loop out acc bits (value # values) width =
     (let acc = acc OR push_bit bits (ucast value); bits = bits + width;
          (out, acc, bits) = pack_drain out acc bits
      in pack_loop out acc bits values width)"

definition pack_bits :: "bytes \<Rightarrow> u64 list \<Rightarrow> nat \<Rightarrow> bytes" where
  "pack_bits out values width =
     (if width = 0 then out
      else (let (out, acc, bits) = pack_loop out 0 0 values width
            in if 0 < bits then out @ [ucast (acc AND 0xFF)] else out))"

section \<open>Unpacking\<close>

text \<open>The inner \<open>while got < width\<close> loop: at least one bit of the current byte is taken.\<close>

function unpack_value :: "bytes \<Rightarrow> nat \<Rightarrow> nat \<Rightarrow> u64 \<Rightarrow> nat \<Rightarrow> ('e, u64 \<times> nat) outcome" where
  "unpack_value stream width pos value got =
     (if got < width then
        if pos div 8 < length stream then
          (let byte = stream ! (pos div 8); offset = pos mod 8; available = 8 - offset;
               need = width - got; taken = min available need;
               chunk = drop_bit offset (ucast byte) AND (push_bit taken 1 - 1)
           in unpack_value stream width (pos + taken) (value OR push_bit got chunk) (got + taken))
        else Panic
      else Ok (value, pos))"
  by pat_completeness auto
termination
  by (relation "measure (\<lambda>(stream, width, pos, value, got). width - got)") auto

declare unpack_value.simps [simp del]

fun unpack_loop :: "bytes \<Rightarrow> nat \<Rightarrow> nat \<Rightarrow> u64 list \<Rightarrow> nat \<Rightarrow> ('e, u64 list) outcome" where
  "unpack_loop stream width pos values 0 = Ok values"
| "unpack_loop stream width pos values (Suc n) =
     bindR (unpack_value stream width pos 0 0) (\<lambda>(value, pos).
       unpack_loop stream width pos (values @ [value]) n)"

definition unpack_bits :: "bytes \<Rightarrow> nat \<Rightarrow> nat \<Rightarrow> nat \<Rightarrow> (codec_error, u64 list \<times> nat) outcome" where
  "unpack_bits bytes position count width =
     (if width = 0 then Ok (replicate count 0, position)
      else let total_bits = count * width
           in if 2 ^ 64 \<le> total_bits then Err Truncated
              else let total_bytes = div_ceil total_bits 8; end = position + total_bytes
                   in if 2 ^ 64 \<le> end then Err Truncated
                      else if length bytes < end then Err Truncated
                      else mapR (\<lambda>values. (values, end))
                        (unpack_loop (take total_bytes (drop position bytes)) width 0 [] count))"

text \<open>\<open>(64 - value.leading_zeros()) as u8\<close>\<close>

definition leading_zeros :: "u64 \<Rightarrow> nat" where
  "leading_zeros value = length (takeWhile (\<lambda>i. \<not> bit value i) (rev [0..<64]))"

definition width_of :: "u64 \<Rightarrow> nat" where
  "width_of value = 64 - leading_zeros value"

definition take_u8 :: "bytes \<Rightarrow> nat \<Rightarrow> (codec_error, u8 \<times> nat) outcome" where
  "take_u8 bytes position =
     (if position < length bytes then Ok (bytes ! position, position + 1) else Err Truncated)"

definition take_array :: "nat \<Rightarrow> bytes \<Rightarrow> nat \<Rightarrow> (codec_error, bytes \<times> nat) outcome" where
  "take_array n bytes position =
     (let end = position + n
      in if end < 2 ^ 64 \<and> end \<le> length bytes then Ok (take n (drop position bytes), end)
         else Err Truncated)"

section \<open>Bit streams\<close>

definition wbits :: "nat \<Rightarrow> 'a::len word \<Rightarrow> bool list" where
  "wbits n w = map (bit w) [0..<n]"

definition stream :: "bytes \<Rightarrow> bool list" where
  "stream bs = concat (map (wbits 8) bs)"

lemma length_wbits [simp]: "length (wbits n w) = n"
  by (simp add: wbits_def)

lemma nth_wbits [simp]: "i < n \<Longrightarrow> wbits n w ! i = bit w i"
  by (simp add: wbits_def)

lemma wbits_0 [simp]: "wbits 0 w = []"
  by (simp add: wbits_def)

lemma stream_simps [simp]: "stream [] = []" "stream (b # bs) = wbits 8 b @ stream bs"
  "stream (xs @ ys) = stream xs @ stream ys"
  by (simp_all add: stream_def)

lemma length_stream [simp]: "length (stream bs) = 8 * length bs"
  by (induction bs) simp_all

lemma nth_stream: "i < 8 * length bs \<Longrightarrow> stream bs ! i = bit (bs ! (i div 8)) (i mod 8)"
proof (induction bs arbitrary: i)
  case (Cons b bs)
  show ?case
  proof (cases "i < 8")
    case False
    then have "i div 8 = Suc ((i - 8) div 8)" "i mod 8 = (i - 8) mod 8"
      by (simp_all add: le_div_geq le_mod_geq)
    then show ?thesis using False Cons by (simp add: nth_append)
  qed (simp add: nth_append)
qed simp

lemma wbits_split: "wbits (m + n) w = wbits m w @ wbits n (drop_bit m w)"
  by (rule nth_equalityI) (auto simp: nth_append bit_drop_bit_eq)

lemma wbits_inject:
  fixes v w :: "'a::len word"
  assumes "wbits n v = wbits n w" "\<And>i. bit v i \<Longrightarrow> i < n" "\<And>i. bit w i \<Longrightarrow> i < n"
  shows "v = w"
proof (rule bit_word_eqI)
  fix i assume "i < LENGTH('a)"
  show "bit v i = bit w i"
  proof (cases "i < n")
    case True
    then show ?thesis using arg_cong [OF assms(1), of "\<lambda>l. l ! i"] by simp
  qed (use assms in blast)
qed

definition fits :: "nat \<Rightarrow> 'a::len word \<Rightarrow> bool" where
  "fits n w \<longleftrightarrow> (\<forall>i. bit w i \<longrightarrow> i < n)"

lemma fitsD: "fits n w \<Longrightarrow> bit w i \<Longrightarrow> i < n"
  by (simp add: fits_def)

lemma fits_0 [simp]: "fits n 0"
  by (simp add: fits_def)

lemma fits_zero_width: "fits 0 (w :: 'a::len word) \<longleftrightarrow> w = 0"
  by (auto simp: fits_def intro: bit_word_eqI)

lemma fits_len: "LENGTH('a) \<le> n \<Longrightarrow> fits n (w :: 'a::len word)"
  by (auto simp: fits_def dest: bit_imp_le_length)

text \<open>The accumulator step: the new value's bits follow the carried ones.\<close>

lemma wbits_acc:
  fixes acc :: "128 word" and v :: u64
  assumes "fits b acc" "b + w \<le> 128"
  shows "wbits (b + w) (acc OR push_bit b (ucast v)) = wbits b acc @ wbits w v"
proof (rule nth_equalityI)
  fix i assume "i < length (wbits (b + w) (acc OR push_bit b (ucast v)))"
  then have i: "i < b + w" by simp
  show "wbits (b + w) (acc OR push_bit b (ucast v)) ! i = (wbits b acc @ wbits w v) ! i"
  proof (cases "i < b")
    case True
    then show ?thesis using i assms(2) by (simp add: nth_append bit_or_iff bit_push_bit_iff)
  next
    case False
    then have "\<not> bit acc i" using assms(1) by (auto dest: fitsD)
    then show ?thesis using False i assms(2)
      by (auto simp: nth_append bit_or_iff bit_push_bit_iff bit_ucast_iff)
  qed
qed simp

lemma fits_acc:
  fixes acc :: "128 word" and v :: u64
  assumes "fits b acc" "fits w v"
  shows "fits (b + w) (acc OR push_bit b (ucast v))"
proof -
  have "i < b + w" if "bit acc i \<or> b \<le> i \<and> bit v (i - b)" for i
    using that assms by (auto dest!: fitsD)
  then show ?thesis by (auto simp: fits_def bit_or_iff bit_push_bit_iff bit_ucast_iff)
qed

lemma wbits_low_byte: "wbits 8 (ucast (acc AND 0xFF) :: u8) = wbits 8 (acc :: 128 word)"
proof -
  have "bit (0xFF :: 128 word) i \<longleftrightarrow> i < 8" for i
  proof -
    have "(0xFF :: 128 word) = mask 8" by (simp add: mask_eq_exp_minus_1)
    then show ?thesis by (simp only: bit_mask_iff) auto
  qed
  then show ?thesis
    by (intro nth_equalityI) (auto simp: bit_ucast_iff bit_and_iff simp del: bit_numeral_word_iff)
qed

lemma pack_drain_stream:
  assumes "pack_drain out acc bits = (out', acc', bits')" "fits bits acc"
  shows "bits' < 8 \<and> fits bits' acc' \<and>
    stream out' @ wbits bits' acc' = stream out @ wbits bits acc"
  using assms
proof (induction out acc bits rule: pack_drain.induct)
  case (1 out acc bits)
  show ?case
  proof (cases "8 \<le> bits")
    case True
    have "fits (bits - 8) (drop_bit 8 acc)"
      using "1.prems"(2) by (fastforce simp: fits_def bit_drop_bit_eq)
    moreover have "wbits bits acc = wbits 8 acc @ wbits (bits - 8) (drop_bit 8 acc)"
      using wbits_split [of 8 "bits - 8" acc] True by simp
    ultimately show ?thesis
      using "1.IH" "1.prems" True wbits_low_byte [of acc]
      by (subst (asm) (2) pack_drain.simps) simp
  next
    case False
    then show ?thesis using "1.prems" by (subst (asm) (1) pack_drain.simps) simp
  qed
qed

lemma pack_loop_stream:
  assumes "pack_loop out acc bits vs w = (out', acc', bits')" "fits bits acc" "bits < 8" "w \<le> 64"
    and "\<forall>v\<in>set vs. fits w v"
  shows "bits' < 8 \<and> fits bits' acc' \<and>
    stream out' @ wbits bits' acc' = stream out @ wbits bits acc @ concat (map (wbits w) vs)"
  using assms
proof (induction vs arbitrary: out acc bits)
  case (Cons v vs)
  let ?acc = "acc OR push_bit bits (ucast v)"
  obtain out1 acc1 bits1 where d: "pack_drain out ?acc (bits + w) = (out1, acc1, bits1)"
    by (metis prod_cases3)
  have "fits (bits + w) ?acc" using Cons.prems by (intro fits_acc) auto
  note s = pack_drain_stream [OF d this]
  have "wbits (bits + w) ?acc = wbits bits acc @ wbits w v"
    using Cons.prems by (intro wbits_acc) auto
  moreover have "pack_loop out1 acc1 bits1 vs w = (out', acc', bits')"
    using Cons.prems(1) d by simp
  ultimately show ?case using Cons.IH [of out1 acc1 bits1] s Cons.prems(4,5) by simp
qed simp

text \<open>The packed bytes are the values' bits in a row, zero-filled to a whole byte.\<close>

definition packed_of :: "nat \<Rightarrow> u64 list \<Rightarrow> bool list" where
  "packed_of w vs = concat (map (wbits w) vs)"

lemma length_packed_of [simp]: "length (packed_of w vs) = length vs * w"
  by (induction vs) (simp_all add: packed_of_def)

lemma nth_packed_of:
  "k < length vs \<Longrightarrow> i < w \<Longrightarrow> packed_of w vs ! (k * w + i) = bit (vs ! k) i"
proof (induction vs arbitrary: k)
  case (Cons v vs)
  then show ?case by (cases k) (simp_all add: packed_of_def nth_append add.assoc)
qed simp

lemma pack_bits_stream:
  assumes "w \<le> 64" "0 < w" "\<forall>v\<in>set vs. fits w v"
  shows "\<exists>bs pad. pack_bits out vs w = out @ bs \<and> length bs = div_ceil (length vs * w) 8 \<and>
    stream bs = packed_of w vs @ pad"
proof -
  have gen: "\<exists>bs. fst (pack_drain out acc bits) = out @ bs" for out acc bits
  proof (induction out acc bits rule: pack_drain.induct)
    case (1 out acc bits)
    then show ?case by (subst pack_drain.simps) auto
  qed
  have loop: "\<exists>bs. fst (pack_loop out acc bits vs w) = out @ bs" for out acc bits
  proof (induction vs arbitrary: out acc bits)
    case (Cons v vs)
    let ?d = "pack_drain out (acc OR push_bit bits (ucast v)) (bits + w)"
    obtain bs where "fst ?d = out @ bs" using gen by blast
    then show ?case using Cons [of "out @ bs" "fst (snd ?d)" "snd (snd ?d)"]
      by (auto simp: case_prod_unfold Let_def)
  qed simp
  obtain out' acc' bits' where l: "pack_loop out 0 0 vs w = (out', acc', bits')"
    by (metis prod_cases3)
  obtain bs where bs: "out' = out @ bs" using loop [of out 0 0] l by auto
  have s: "bits' < 8" "fits bits' acc'" "stream bs @ wbits bits' acc' = packed_of w vs"
    using pack_loop_stream [OF l _ _ assms(1,3)] bs by (auto simp: packed_of_def)
  have len: "8 * length bs + bits' = length vs * w"
    using arg_cong [OF s(3), of length] by simp
  show ?thesis
  proof (cases "bits' = 0")
    case True
    then have "length bs = div_ceil (length vs * w) 8" using len by (simp add: div_ceil_def flip: len)
    then show ?thesis using True s bs l assms(2) by (auto simp: pack_bits_def)
  next
    case False
    have "length vs * w mod 8 = bits'" "length vs * w div 8 = length bs"
      using s(1) by (simp_all flip: len)
    then have "div_ceil (length vs * w) 8 = Suc (length bs)" using False by (simp add: div_ceil_def)
    moreover have "stream (bs @ [ucast (acc' AND 0xFF)]) =
        packed_of w vs @ wbits (8 - bits') (drop_bit bits' acc')"
      using wbits_split [of bits' "8 - bits'" acc'] s by (simp add: wbits_low_byte flip: s(3))
    ultimately show ?thesis using False bs l assms(2)
      by (intro exI [of _ "bs @ [ucast (acc' AND 0xFF)]"]
          exI [of _ "wbits (8 - bits') (drop_bit bits' acc')"]) (simp add: pack_bits_def)
  qed
qed

section \<open>Unpacking what was packed\<close>

lemma bit_chunk:
  fixes byte :: u8
  shows "bit (drop_bit offset (ucast byte :: u64) AND (push_bit taken 1 - 1)) i \<longleftrightarrow>
    i < taken \<and> bit byte (offset + i)"
proof -
  have "(push_bit taken 1 - 1 :: u64) = mask taken" by (simp add: mask_eq_exp_minus_1)
  then show ?thesis
    by (auto simp only: bit_and_iff bit_mask_iff bit_drop_bit_eq comp_def bit_ucast_iff)
      (auto dest: bit_imp_le_length)
qed

lemma div_mod_8: "r < 8 \<Longrightarrow> (8 * q + r) div 8 = q" "r < 8 \<Longrightarrow> (8 * q + r) mod 8 = (r :: nat)"
  by simp_all

lemma unpack_value_bits:
  assumes "start + width \<le> 8 * length s" "got \<le> width" "width \<le> 64" "fits got value"
    and "\<forall>i<got. bit value i = stream s ! (start + i)"
  shows "\<exists>v. unpack_value s width (start + got) value got = (Ok (v, start + width) :: ('e, _) outcome) \<and>
    fits width v \<and> (\<forall>i<width. bit v i = stream s ! (start + i))"
  using assms(2,4,5)
proof (induction "width - got" arbitrary: got "value" rule: less_induct)
  case less
  show ?case
  proof (cases "got < width")
    case False
    then show ?thesis using less.prems by (subst unpack_value.simps) auto
  next
    case True
    let ?pos = "start + got"
    let ?t = "min (8 - ?pos mod 8) (width - got)"
    let ?chunk = "drop_bit (?pos mod 8) (ucast (s ! (?pos div 8)) :: u64) AND (push_bit ?t 1 - 1)"
    let ?v = "value OR push_bit got ?chunk"
    have t: "0 < ?t" "got + ?t \<le> width" "?pos mod 8 + ?t \<le> 8" using True by auto
    have inb: "?pos div 8 < length s" using assms(1) True by linarith
    have low: "bit ?v i = bit value i" if "i < got" for i
      using that by (simp only: bit_or_iff bit_push_bit_iff) auto
    have high: "bit ?v i \<longleftrightarrow> i - got < ?t \<and> bit (s ! (?pos div 8)) (?pos mod 8 + (i - got))"
      if "got \<le> i" "i < 64" for i
    proof -
      have "\<not> bit value i" using that less.prems(2) by (auto dest: fitsD)
      then show ?thesis using that by (simp only: bit_or_iff bit_push_bit_iff bit_chunk) auto
    qed
    have "fits (got + ?t) ?v"
      unfolding fits_def
    proof (intro allI impI)
      fix i assume b: "bit ?v i"
      then have "i < 64" using bit_imp_le_length by fastforce
      then show "i < got + ?t" using high [of i] b by (cases "i < got") auto
    qed
    moreover have "bit ?v i = stream s ! (start + i)" if "i < got + ?t" for i
    proof (cases "i < got")
      case True
      then show ?thesis using low less.prems(3) by simp
    next
      case False
      then have e: "start + i = 8 * (?pos div 8) + (?pos mod 8 + (i - got))" by simp
      have m: "?pos mod 8 + (i - got) < 8" using that False t by linarith
      have "(start + i) div 8 = ?pos div 8" "(start + i) mod 8 = ?pos mod 8 + (i - got)"
        unfolding e by (rule div_mod_8 [OF m])+
      moreover have "start + i < 8 * length s" using that t(2) assms(1) by linarith
      ultimately have "stream s ! (start + i) = bit (s ! (?pos div 8)) (?pos mod 8 + (i - got))"
        using nth_stream [of "start + i" s] by (simp only:)
      moreover have "got \<le> i" "i < 64" "i - got < ?t"
        using False that t(2) assms(3) by linarith+
      ultimately show ?thesis using high [of i] by blast
    qed
    ultimately obtain v where "unpack_value s width (start + (got + ?t)) ?v (got + ?t) =
        (Ok (v, start + width) :: ('e, _) outcome)"
      "fits width v" "\<forall>i<width. bit v i = stream s ! (start + i)"
      using less.hyps [of "got + ?t" ?v] t True by (metis diff_less_mono2 less_add_same_cancel1)
    then show ?thesis using True inb
      by (subst unpack_value.simps) (simp add: Let_def add.assoc)
  qed
qed

lemma unpack_loop_bits:
  assumes "(k + n) * w \<le> 8 * length s" "w \<le> 64"
  shows "\<exists>vs. unpack_loop s w (k * w) acc n = (Ok (acc @ vs) :: ('e, _) outcome) \<and> length vs = n \<and>
    (\<forall>j<n. fits w (vs ! j) \<and> (\<forall>i<w. bit (vs ! j) i = stream s ! ((k + j) * w + i)))"
  using assms(1)
proof (induction n arbitrary: k acc)
  case 0
  then show ?case by simp
next
  case (Suc n)
  have "k * w + w \<le> 8 * length s" using Suc.prems by (simp add: algebra_simps)
  from unpack_value_bits [OF this, of 0 0] assms(2) obtain v where
    v: "unpack_value s w (k * w) 0 0 = (Ok (v, k * w + w) :: ('e, _) outcome)"
      "fits w v" "\<forall>i<w. bit v i = stream s ! (k * w + i)"
    by auto
  have "(Suc k + n) * w \<le> 8 * length s" using Suc.prems by simp
  from Suc.IH [OF this, of "acc @ [v]"] obtain vs where
    vs: "unpack_loop s w (Suc k * w) (acc @ [v]) n = (Ok ((acc @ [v]) @ vs) :: ('e, _) outcome)"
      "length vs = n" "\<forall>j<n. fits w (vs ! j) \<and> (\<forall>i<w. bit (vs ! j) i = stream s ! ((Suc k + j) * w + i))"
    by blast
  have "fits w ((v # vs) ! j) \<and> (\<forall>i<w. bit ((v # vs) ! j) i = stream s ! ((k + j) * w + i))"
    if "j < Suc n" for j
    using that v vs by (cases j) simp_all
  then show ?case using v(1) vs(1,2) by (intro exI [of _ "v # vs"]) (simp add: add.commute)
qed

lemma div_ceil_8_ge: "n \<le> 8 * div_ceil n 8"
  by (auto simp: div_ceil_def)

lemma unpack_loop_not_Panic:
  assumes "n * w \<le> 8 * length s" "w \<le> 64"
  shows "\<exists>vs. unpack_loop s w 0 [] n = (Ok vs :: ('e, _) outcome) \<and> length vs = n"
  using unpack_loop_bits [of 0 n w s "[]"] assms by auto

lemma unpack_pack_bits:
  assumes "w \<le> 64" "\<forall>v\<in>set vs. fits w v" "length (pre @ pack_bits [] vs w @ post) < 2 ^ 64"
    "length vs < 2 ^ 32"
  shows "unpack_bits (pre @ pack_bits [] vs w @ post) (length pre) (length vs) w =
    Ok (vs, length pre + length (pack_bits [] vs w))"
proof (cases "w = 0")
  case True
  then have "vs = replicate (length vs) 0"
    using assms(2) replicate_length_same [of vs 0] by (simp add: fits_zero_width)
  then show ?thesis using True by (simp add: unpack_bits_def pack_bits_def)
next
  case False
  then obtain bs pad where bs: "pack_bits [] vs w = bs" "length bs = div_ceil (length vs * w) 8"
    "stream bs = packed_of w vs @ pad"
    using pack_bits_stream [of w vs "[]"] assms by auto
  have "length vs * w \<le> 8 * length bs" using div_ceil_8_ge bs(2) by simp
  with unpack_loop_bits [of 0 "length vs" w bs "[]"] assms(1) obtain us where
    us: "unpack_loop bs w 0 [] (length vs) = (Ok us :: (codec_error, _) outcome)" "length us = length vs"
      "\<forall>j<length vs. fits w (us ! j) \<and> (\<forall>i<w. bit (us ! j) i = stream bs ! (j * w + i))"
    by auto
  have "us = vs"
  proof (rule nth_equalityI)
    fix j assume "j < length us"
    then have j: "j < length vs" using us by simp
    have "j * w + i < length vs * w" if "i < w" for i
    proof -
      have "j * w + i < Suc j * w" using that by simp
      also have "\<dots> \<le> length vs * w" using j by (intro mult_le_mono1) simp
      finally show ?thesis .
    qed
    then have "bit (us ! j) i = bit (vs ! j) i" if "i < w" for i
      using us(3) j that bs(3) by (simp add: nth_append nth_packed_of)
    moreover have "fits w (us ! j)" "fits w (vs ! j)" using us(3) j assms(2) by auto
    ultimately show "us ! j = vs ! j"
      by (intro wbits_inject [of w]) (auto simp: wbits_def fits_def)
  qed (use us in simp)
  moreover have "length vs * w < 2 ^ 64"
  proof -
    have "length vs * w \<le> 2 ^ 32 * 64" using assms by (intro mult_le_mono) simp_all
    then show ?thesis by simp
  qed
  ultimately show ?thesis
    using us(1) bs(1,2) False assms(3) by (simp add: unpack_bits_def Let_def)
qed

lemma unpack_bits_length:
  assumes "unpack_bits bytes position n w = Ok (vs, q)" "w \<le> 64"
  shows "length vs = n"
proof (cases "w = 0")
  case False
  let ?s = "take (div_ceil (n * w) 8) (drop position bytes)"
  have "n * w \<le> 8 * length ?s"
    using assms False div_ceil_8_ge [of "n * w"] by (auto simp: unpack_bits_def Let_def split: if_splits)
  from unpack_loop_not_Panic [OF this assms(2)] obtain us where
    "unpack_loop ?s w 0 [] n = (Ok us :: (codec_error, _) outcome)" "length us = n" by blast
  then show ?thesis using assms False by (auto simp: unpack_bits_def Let_def split: if_splits)
qed (use assms in \<open>auto simp: unpack_bits_def\<close>)

lemma unpack_bits_not_Panic:
  assumes "w \<le> 64"
  shows "unpack_bits bytes position n w \<noteq> Panic"
proof
  assume p: "unpack_bits bytes position n w = Panic"
  let ?s = "take (div_ceil (n * w) 8) (drop position bytes)"
  have "n * w \<le> 8 * length ?s"
    using p div_ceil_8_ge [of "n * w"] by (auto simp: unpack_bits_def Let_def split: if_splits)
  from unpack_loop_not_Panic [OF this assms] obtain us where
    "unpack_loop ?s w 0 [] n = (Ok us :: (codec_error, _) outcome)" by blast
  then show False using p by (auto simp: unpack_bits_def Let_def split: if_splits)
qed

section \<open>Widths\<close>

lemma fits_width_of: "fits (width_of v) v" and width_of_le: "width_of v \<le> 64"
proof -
  let ?P = "\<lambda>i. \<not> bit v i"
  let ?r = "rev [0..<64]"
  show "width_of v \<le> 64" by (simp add: width_of_def)
  show "fits (width_of v) v"
    unfolding fits_def
  proof (intro allI impI, rule ccontr)
    fix i assume b: "bit v i" and "\<not> i < width_of v"
    then have i: "i < 64" "63 - i < leading_zeros v"
      using bit_imp_le_length [OF b] by (auto simp: width_of_def)
    then have "takeWhile ?P ?r ! (63 - i) = ?r ! (63 - i)"
      by (intro takeWhile_nth) (simp add: leading_zeros_def)
    also have "\<dots> = i" using i by (simp add: rev_nth)
    finally have "takeWhile ?P ?r ! (63 - i) = i" .
    then have "i \<in> set (takeWhile ?P ?r)"
      using i by (metis leading_zeros_def nth_mem)
    then show False using b by (auto dest: set_takeWhileD)
  qed
qed

end
