(* ===== verification/For.thy ===== *)
theory For
  imports Bitpack
begin

text \<open>
  Chunked column codecs (\<^verbatim>\<open>src/storage_lite/alp.rs\<close>).  A column is cut into chunks of 1024
  values, each encoded on its own; the decoders share the \<open>while remaining > 0\<close> loop
  \<open>decode_chunks\<close>.  The locale \<open>chunk_codec\<close> states what one chunk's encoder and decoder
  promise, and is a \<open>column_codec\<close>; the frame-of-reference codecs of \<open>i64\<close> columns and of
  \<open>u32\<close> symbol codes interpret it.
\<close>

section \<open>The chunk loop\<close>

definition CHUNK :: nat where
  "CHUNK = 1024"

function decode_chunks :: "(bytes \<Rightarrow> nat \<Rightarrow> nat \<Rightarrow> (codec_error, 'a list \<times> nat) outcome) \<Rightarrow> bytes \<Rightarrow>
    nat \<Rightarrow> nat \<Rightarrow> 'a list \<Rightarrow> (codec_error, 'a list \<times> nat) outcome" where
  "decode_chunks step bytes position remaining values =
     (if 0 < remaining then
        (let chunk = min remaining CHUNK
         in bindR (step bytes position chunk) (\<lambda>(vs, position).
              decode_chunks step bytes position (remaining - chunk) (values @ vs)))
      else Ok (values, position))"
  by pat_completeness auto
termination
  by (relation "measure (\<lambda>(step, bytes, position, remaining, values). remaining)")
    (auto simp: CHUNK_def)

declare decode_chunks.simps [simp del]

definition decode_column_chunks :: "(bytes \<Rightarrow> nat \<Rightarrow> nat \<Rightarrow> (codec_error, 'a list \<times> nat) outcome) \<Rightarrow>
    bytes \<Rightarrow> nat \<Rightarrow> (codec_error, 'a list) outcome" where
  "decode_column_chunks step bytes count =
     bindR (decode_chunks step bytes 0 count []) (\<lambda>(values, position).
       if position \<noteq> length bytes then Err (TrailingBytes (length bytes - position)) else Ok values)"

definition encode_column_chunks :: "('a list \<Rightarrow> bytes) \<Rightarrow> 'a list \<Rightarrow> bytes" where
  "encode_column_chunks enc values = concat (map enc (chunks CHUNK values))"

lemma encode_column_chunks_simps:
  "encode_column_chunks enc [] = []"
  "xs \<noteq> [] \<Longrightarrow> encode_column_chunks enc xs =
     enc (take CHUNK xs) @ encode_column_chunks enc (drop CHUNK xs)"
proof -
  show "encode_column_chunks enc [] = []"
    unfolding encode_column_chunks_def by (subst chunks.simps) simp
  show "encode_column_chunks enc xs = enc (take CHUNK xs) @ encode_column_chunks enc (drop CHUNK xs)"
    if "xs \<noteq> []"
    using that unfolding encode_column_chunks_def by (subst chunks.simps) (simp add: CHUNK_def)
qed

locale chunk_codec =
  fixes enc :: "'a list \<Rightarrow> bytes"
    and step :: "bytes \<Rightarrow> nat \<Rightarrow> nat \<Rightarrow> (codec_error, 'a list \<times> nat) outcome"
  assumes step_enc: "xs \<noteq> [] \<Longrightarrow> length xs \<le> CHUNK \<Longrightarrow> length (pre @ enc xs @ post) < 2 ^ 64 \<Longrightarrow>
      step (pre @ enc xs @ post) (length pre) (length xs) = Ok (xs, length pre + length (enc xs))"
    and step_length: "step bytes position n = Ok (xs, q) \<Longrightarrow> length xs = n"
    and step_total: "step bytes position n \<noteq> Panic"
begin

lemma decode_chunks_enc:
  "length (pre @ encode_column_chunks enc xs @ post) < 2 ^ 64 \<Longrightarrow>
   decode_chunks step (pre @ encode_column_chunks enc xs @ post) (length pre) (length xs) acc =
     Ok (acc @ xs, length pre + length (encode_column_chunks enc xs))"
proof (induction "length xs" arbitrary: xs pre acc rule: less_induct)
  case less
  show ?case
  proof (cases "xs = []")
    case True
    then show ?thesis by (simp add: decode_chunks.simps encode_column_chunks_simps)
  next
    case False
    let ?x = "take CHUNK xs" and ?y = "drop CHUNK xs"
    let ?rest = "encode_column_chunks enc ?y"
    let ?bytes = "pre @ enc ?x @ ?rest @ post"
    have unfold: "decode_chunks step bytes q (length xs) acc =
        bindR (step bytes q (length ?x)) (\<lambda>(vs, q). decode_chunks step bytes q (length ?y) (acc @ vs))"
      for bytes q
    proof -
      have "length xs - min (length xs) CHUNK = length xs - CHUNK" by simp
      then show ?thesis using False by (subst decode_chunks.simps) (simp add: Let_def)
    qed
    have small: "length ?bytes < 2 ^ 64" using less.prems False by (simp add: encode_column_chunks_simps)
    have "step ?bytes (length pre) (length ?x) = Ok (?x, length pre + length (enc ?x))"
      using False small by (intro step_enc) (auto simp: CHUNK_def)
    moreover have "decode_chunks step ((pre @ enc ?x) @ ?rest @ post) (length (pre @ enc ?x)) (length ?y)
        (acc @ ?x) = Ok ((acc @ ?x) @ ?y, length (pre @ enc ?x) + length ?rest)"
      using False small by (intro less.hyps) (auto simp: CHUNK_def)
    ultimately show ?thesis
      using False unfolding unfold by (simp add: encode_column_chunks_simps)
  qed
qed

lemma decode_chunks_length:
  "decode_chunks step bytes position n acc = Ok (xs, q) \<Longrightarrow> length xs = length acc + n"
proof (induction n arbitrary: position acc rule: less_induct)
  case (less n)
  then show ?case
    by (subst (asm) (2) decode_chunks.simps)
      (fastforce simp: Let_def CHUNK_def split: if_splits dest!: step_length less.IH [rotated])
qed

lemma decode_chunks_total: "decode_chunks step bytes position n acc \<noteq> Panic"
proof (induction n arbitrary: position acc rule: less_induct)
  case (less n)
  then show ?case
    by (subst decode_chunks.simps) (auto simp: Let_def CHUNK_def step_total)
qed

sublocale column_codec "encode_column_chunks enc" "decode_column_chunks step"
proof unfold_locales
  fix xs :: "'a list"
  assume "length (encode_column_chunks enc xs) < 2 ^ 64"
  then show "decode_column_chunks step (encode_column_chunks enc xs) (length xs) = Ok xs"
    using decode_chunks_enc [of "[]" xs "[]" "[]"] by (simp add: decode_column_chunks_def)
next
  fix bytes n xs
  show "decode_column_chunks step bytes n = Ok xs \<Longrightarrow> length xs = n"
    using decode_chunks_length by (fastforce simp: decode_column_chunks_def split: if_splits)
  show "decode_column_chunks step bytes n \<noteq> Panic"
    by (auto simp: decode_column_chunks_def decode_chunks_total split: if_splits)
qed

end

section \<open>The frame-of-reference codecs\<close>

definition min_i64 :: "i64 list \<Rightarrow> i64" where
  "min_i64 xs = foldl (\<lambda>m v. if sint v < sint m then v else m) (hd xs) (tl xs)"

definition min_u32 :: "u32 list \<Rightarrow> u32" where
  "min_u32 xs = foldl min (hd xs) (tl xs)"

text \<open>\<open>deltas.iter().copied().max().map_or(0, width_of)\<close>\<close>

fun max_width :: "u64 list \<Rightarrow> nat" where
  "max_width [] = 0"
| "max_width (d # ds) = width_of (foldl max d ds)"

definition encode_for_i64_chunk :: "i64 list \<Rightarrow> bytes" where
  "encode_for_i64_chunk chunk =
     (let base = min_i64 chunk;
          deltas = map (\<lambda>value. value - base) chunk;
          width = max_width deltas
      in pack_bits (le_bytes 8 base @ [word_of_nat width]) deltas width)"

definition encode_for_i64 :: "i64 list \<Rightarrow> bytes" where
  "encode_for_i64 values = encode_column_chunks encode_for_i64_chunk values"

definition decode_for_i64_chunk :: "bytes \<Rightarrow> nat \<Rightarrow> nat \<Rightarrow> (codec_error, i64 list \<times> nat) outcome" where
  "decode_for_i64_chunk bytes position chunk =
     bindR (take_array 8 bytes position) (\<lambda>(base, position).
     bindR (take_u8 bytes position) (\<lambda>(width, position).
       if 64 < width then Err (Invalid ''FOR bit width over 64'')
       else mapR (\<lambda>(deltas, position). (map (\<lambda>delta. le_word base + delta) deltas, position))
         (unpack_bits bytes position chunk (unat width))))"

definition decode_for_i64 :: "bytes \<Rightarrow> nat \<Rightarrow> (codec_error, i64 list) outcome" where
  "decode_for_i64 bytes count = decode_column_chunks decode_for_i64_chunk bytes count"

definition encode_for_u32_chunk :: "u32 list \<Rightarrow> bytes" where
  "encode_for_u32_chunk chunk =
     (let base = min_u32 chunk;
          deltas = map (\<lambda>value. ucast (value - base)) chunk;
          width = max_width deltas
      in pack_bits (le_bytes 4 base @ [word_of_nat width]) deltas width)"

definition encode_for_u32 :: "u32 list \<Rightarrow> bytes" where
  "encode_for_u32 values = encode_column_chunks encode_for_u32_chunk values"

definition decode_for_u32_chunk :: "bytes \<Rightarrow> nat \<Rightarrow> nat \<Rightarrow> (codec_error, u32 list \<times> nat) outcome" where
  "decode_for_u32_chunk bytes position chunk =
     bindR (take_array 4 bytes position) (\<lambda>(base, position).
     bindR (take_u8 bytes position) (\<lambda>(width, position).
       if 32 < width then Err (Invalid ''FOR u32 bit width over 32'')
       else bindR (unpack_bits bytes position chunk (unat width)) (\<lambda>(deltas, position).
         mapR (\<lambda>vs. (vs, position)) (traverseR (\<lambda>delta.
           (let value = ucast (le_word base :: u32) + delta
            in if value < 2 ^ 32 then Ok (ucast value) else Err (Invalid ''FOR u32 overflow''))) deltas))))"

definition decode_for_u32 :: "bytes \<Rightarrow> nat \<Rightarrow> (codec_error, u32 list) outcome" where
  "decode_for_u32 bytes count = decode_column_chunks decode_for_u32_chunk bytes count"

section \<open>Lemmas\<close>

lemma take_array_at [simp]:
  "length xs = n \<Longrightarrow> length (pre @ xs @ post) < 2 ^ 64 \<Longrightarrow>
   take_array n (pre @ xs @ post) (length pre) = Ok (xs, length pre + n)"
  by (simp add: take_array_def)

lemma take_array_not_Panic [simp]: "take_array n bytes position \<noteq> Panic"
  by (simp add: take_array_def Let_def)

lemma take_u8_at [simp]: "take_u8 (pre @ b # post) (length pre) = Ok (b, length pre + 1)"
  by (simp add: take_u8_def)

lemma take_u8_not_Panic [simp]: "take_u8 bytes position \<noteq> Panic"
  by (simp add: take_u8_def)

lemma fits_iff_less: "n \<le> LENGTH('a) \<Longrightarrow> fits n (w :: 'a::len word) \<longleftrightarrow> unat w < 2 ^ n"
proof
  assume "fits n w"
  then have "take_bit n w = w"
    by (intro bit_word_eqI) (auto simp: bit_take_bit_iff fits_def)
  then have "take_bit n (unat w) = unat w" by (metis unsigned_take_bit_eq)
  then show "unat w < 2 ^ n" by (metis take_bit_nat_less_exp)
next
  assume less: "unat w < 2 ^ n"
  show "fits n w"
    unfolding fits_def
  proof (intro allI impI, rule ccontr)
    fix i assume b: "bit w i" and "\<not> i < n"
    then have "(2 :: nat) ^ n \<le> 2 ^ i" by (intro power_increasing) auto
    moreover have "bit (unat w) i" using b bit_imp_le_length [OF b] by (simp add: bit_unsigned_iff)
    then have "2 ^ i \<le> unat w"
      by (cases "unat w < 2 ^ i") (simp_all add: bit_iff_odd)
    ultimately show False using less by linarith
  qed
qed

lemma fits_mono: "fits n w \<Longrightarrow> v \<le> w \<Longrightarrow> n \<le> 64 \<Longrightarrow> fits n (v :: u64)"
  by (simp add: fits_iff_less word_le_nat_alt)

lemma width_of_le_fits: "fits n v \<Longrightarrow> n \<le> 64 \<Longrightarrow> width_of v \<le> n"
proof -
  assume f: "fits n v" and n: "n \<le> 64"
  have "rev [0..<64] = rev [n..<64] @ rev [0..<n]"
    using upt_split [of 0 n 64] n by (simp flip: rev_append)
  moreover have "\<forall>i\<in>set (rev [n..<64]). \<not> bit v i" using f by (auto simp: fits_def)
  ultimately have "length (rev [n..<64]) \<le> leading_zeros v"
    unfolding leading_zeros_def by (simp only:) (subst takeWhile_append2, auto)
  then show ?thesis using n by (simp add: width_of_def)
qed

lemma foldl_max_in: "foldl max d ds \<in> insert d (set ds)" for d :: "'b::linorder"
  by (induction ds arbitrary: d) (auto simp: max_def split: if_splits)

lemma foldl_max_ge:
  "(d :: 'b::linorder) \<le> foldl max d ds" "e \<in> set ds \<Longrightarrow> e \<le> foldl max d ds"
proof -
  have ge: "d \<le> foldl max d ds" for d :: 'b and ds
    by (induction ds arbitrary: d) (simp, metis foldl_Cons max.boundedE)
  show "d \<le> foldl max d ds" by (rule ge)
  show "e \<in> set ds \<Longrightarrow> e \<le> foldl max d ds"
  proof (induction ds arbitrary: d)
    case (Cons a ds)
    then show ?case using ge [of "max d a" ds] by auto
  qed simp
qed

lemma max_width_fits: "\<forall>d\<in>set ds. fits (max_width ds) d" and max_width_le: "max_width ds \<le> 64"
proof -
  show "max_width ds \<le> 64" by (cases ds) (simp_all add: width_of_le)
  show "\<forall>d\<in>set ds. fits (max_width ds) d"
  proof (cases ds)
    case (Cons e es)
    have "fits (max_width ds) d" if "d \<in> set ds" for d
      using that foldl_max_ge [where d = e and ds = es] Cons
      by (auto intro!: fits_mono [OF fits_width_of _ width_of_le])
    then show ?thesis by blast
  qed simp
qed

lemma length_pack_bits_append: "w \<le> 64 \<Longrightarrow> \<forall>v\<in>set vs. fits w v \<Longrightarrow>
  pack_bits out vs w = out @ pack_bits [] vs w"
proof -
  have drain: "pack_drain (out @ xs) acc b = (case pack_drain xs acc b of (o', a', b') \<Rightarrow> (out @ o', a', b'))"
    for xs acc b
  proof (induction xs acc b rule: pack_drain.induct)
    case (1 xs acc b)
    then show ?case by (subst (1 2) pack_drain.simps) simp
  qed
  have loop: "pack_loop (out @ xs) acc b vs w = (case pack_loop xs acc b vs w of (o', a', b') \<Rightarrow> (out @ o', a', b'))"
    for xs acc b
    by (induction vs arbitrary: xs acc b) (simp_all add: drain Let_def case_prod_unfold)
  show ?thesis using loop [of "[]" 0 0] by (simp add: pack_bits_def case_prod_unfold Let_def)
qed

text \<open>A packed body read back at its place.\<close>

lemma unpack_at:
  assumes "w \<le> 64" "\<forall>v\<in>set vs. fits w v" "length vs \<le> CHUNK"
    and "length (pre @ pack_bits out vs w @ post) < 2 ^ 64"
  shows "unpack_bits (pre @ pack_bits out vs w @ post) (length pre + length out) (length vs) w =
    Ok (vs, length pre + length (pack_bits out vs w))"
proof -
  have p: "pack_bits out vs w = out @ pack_bits [] vs w"
    by (rule length_pack_bits_append [OF assms(1,2)])
  show ?thesis
    using unpack_pack_bits [OF assms(1,2), of "pre @ out" post] assms(3,4)
    by (subst p) (subst p, simp add: p CHUNK_def)
qed

lemma min_u32_le:
  assumes "v \<in> set xs"
  shows "min_u32 xs \<le> v"
proof -
  have fold: "foldl min m vs \<le> m \<and> (\<forall>v\<in>set vs. foldl min m vs \<le> v)" for m :: u32 and vs
  proof (induction vs arbitrary: m)
    case (Cons a vs)
    then show ?case using Cons [of "min m a"] by auto
  qed simp
  then show ?thesis using assms by (cases xs) (auto simp: min_u32_def)
qed

text \<open>The common frame: the base's bytes, the width's byte, the packed offsets.\<close>

lemma frame_at:
  assumes "w \<le> 64" "\<forall>d\<in>set ds. fits w d" "length ds \<le> CHUNK" "length B = k"
    and "length (pre @ pack_bits (B @ [word_of_nat w]) ds w @ post) < 2 ^ 64"
  defines "bytes \<equiv> pre @ pack_bits (B @ [word_of_nat w]) ds w @ post"
  shows "take_array k bytes (length pre) = Ok (B, length pre + k)"
    and "take_u8 bytes (length pre + k) = Ok (word_of_nat w, length pre + k + 1)"
    and "unpack_bits bytes (length pre + k + 1) (length ds) w =
      Ok (ds, length pre + length (pack_bits (B @ [word_of_nat w]) ds w))"
proof -
  let ?body = "pack_bits [] ds w"
  have bytes: "bytes = pre @ B @ word_of_nat w # ?body @ post"
    using length_pack_bits_append [OF assms(1,2), of "B @ [word_of_nat w]"] by (simp add: bytes_def)
  show "take_array k bytes (length pre) = Ok (B, length pre + k)"
    using assms(5) unfolding bytes_def [symmetric] bytes by (intro take_array_at [OF assms(4)])
  show "take_u8 bytes (length pre + k) = Ok (word_of_nat w, length pre + k + 1)"
    using take_u8_at [of "pre @ B" "word_of_nat w" "?body @ post"] assms(4) by (simp add: bytes)
  show "unpack_bits bytes (length pre + k + 1) (length ds) w =
      Ok (ds, length pre + length (pack_bits (B @ [word_of_nat w]) ds w))"
    using unpack_at [OF assms(1-3), of pre "B @ [word_of_nat w]" post] assms(4,5)
    by (simp add: bytes_def)
qed

lemma u8_of_width: "w \<le> 64 \<Longrightarrow> unat (word_of_nat w :: u8) = w"
  by simp

lemma for_i64_chunk:
  assumes "length xs \<le> CHUNK" "length (pre @ encode_for_i64_chunk xs @ post) < 2 ^ 64"
  shows "decode_for_i64_chunk (pre @ encode_for_i64_chunk xs @ post) (length pre) (length xs) =
    Ok (xs, length pre + length (encode_for_i64_chunk xs))"
proof -
  define base where "base = min_i64 xs"
  define ds where "ds = map (\<lambda>v. v - base) xs"
  define w where "w = max_width ds"
  have enc: "encode_for_i64_chunk xs = pack_bits (le_bytes 8 base @ [word_of_nat w]) ds w"
    by (simp add: encode_for_i64_chunk_def Let_def w_def ds_def base_def)
  have w: "w \<le> 64" "\<forall>d\<in>set ds. fits w d" by (simp_all add: w_def max_width_le max_width_fits)
  then have "\<not> (64 :: u8) < word_of_nat w" by (simp add: word_less_nat_alt)
  moreover have "map (\<lambda>d. base + d) ds = xs" by (simp add: ds_def comp_def)
  moreover have ds: "length ds = length xs" by (simp add: ds_def)
  ultimately show ?thesis
    using frame_at [OF w, of "le_bytes 8 base" 8 pre post] assms u8_of_width [OF w(1)]
    unfolding enc decode_for_i64_chunk_def by simp
qed

lemma unat_u64_of_u32: "unat (ucast (v :: u32) :: u64) = unat v"
  by (simp add: unsigned_ucast_eq take_bit_nat_eq_self less_le_trans [OF unsigned_less])

lemma unat_u32_less: "unat (v :: u32) < 4294967296"
  using unsigned_less [of v] by simp

lemma traverse_offsets:
  assumes "\<And>v. v \<in> set xs \<Longrightarrow> base \<le> v"
  shows "traverseR (\<lambda>delta. (let value = ucast base + delta in
    if value < 2 ^ 32 then Ok (ucast value) else Err e)) (map (\<lambda>v. ucast (v - base) :: u64) xs) = Ok (xs :: u32 list)"
  using assms
proof (induction xs)
  case (Cons v xs)
  have "unat (v - base) = unat v - unat base" using Cons.prems [of v] by (simp add: unat_sub)
  moreover have "unat base \<le> unat v" "unat v < 2 ^ 32"
    using Cons.prems [of v] unsigned_less [of v] by (simp_all add: word_le_nat_alt)
  ultimately have sum: "(ucast base :: u64) + ucast (v - base) = ucast v"
    by (intro word_unat_eq_iff [THEN iffD2]) (simp add: unat_word_ariths unat_u64_of_u32)
  have "(ucast v :: u64) < 2 ^ 32"
    using unsigned_less [of v] by (simp add: word_less_nat_alt unat_u64_of_u32)
  moreover have "(ucast (ucast v :: u64) :: u32) = v"
    by (rule bit_word_eqI) (simp add: bit_ucast_iff)
  ultimately show ?case using Cons sum by simp
qed simp

lemma for_u32_chunk:
  assumes "length xs \<le> CHUNK" "length (pre @ encode_for_u32_chunk xs @ post) < 2 ^ 64"
  shows "decode_for_u32_chunk (pre @ encode_for_u32_chunk xs @ post) (length pre) (length xs) =
    Ok (xs, length pre + length (encode_for_u32_chunk xs))"
proof -
  define base where "base = min_u32 xs"
  define ds where "ds = map (\<lambda>v. ucast (v - base) :: u64) xs"
  define w where "w = max_width ds"
  have enc: "encode_for_u32_chunk xs = pack_bits (le_bytes 4 base @ [word_of_nat w]) ds w"
    by (simp add: encode_for_u32_chunk_def Let_def w_def ds_def base_def)
  have w: "w \<le> 64" "\<forall>d\<in>set ds. fits w d" by (simp_all add: w_def max_width_le max_width_fits)
  have "w \<le> 32"
  proof (cases ds)
    case (Cons e es)
    have "foldl max e es \<in> set ds" using foldl_max_in [of e es] by (simp add: Cons)
    then have "fits 32 (foldl max e es)" by (auto simp: ds_def fits_iff_less unat_u64_of_u32 unat_u32_less)
    then show ?thesis using Cons width_of_le_fits [of 32] by (simp add: w_def)
  qed (simp add: w_def)
  have "\<not> (32 :: u8) < word_of_nat w" using \<open>w \<le> 32\<close> by (simp add: word_less_nat_alt)
  moreover have "traverseR (\<lambda>delta. (let value = ucast base + delta in
      if value < 2 ^ 32 then Ok (ucast value) else Err (Invalid ''FOR u32 overflow''))) ds = Ok xs"
    using traverse_offsets [of xs base] min_u32_le [of _ xs] by (simp add: ds_def base_def)
  moreover have ds: "length ds = length xs" by (simp add: ds_def)
  ultimately show ?thesis
    using frame_at [OF w, of "le_bytes 4 base" 4 pre post] assms u8_of_width [OF w(1)]
    unfolding enc decode_for_u32_chunk_def by simp
qed

interpretation for_i64: chunk_codec encode_for_i64_chunk decode_for_i64_chunk
  rewrites "encode_column_chunks encode_for_i64_chunk = encode_for_i64"
    and "decode_column_chunks decode_for_i64_chunk = decode_for_i64"
proof -
  show "chunk_codec encode_for_i64_chunk decode_for_i64_chunk"
  proof unfold_locales
    fix bytes position n xs q
    show "decode_for_i64_chunk bytes position n = Ok (xs, q) \<Longrightarrow> length xs = n"
      by (auto simp: decode_for_i64_chunk_def not_less word_le_nat_alt split: if_splits
          dest!: unpack_bits_length)
    show "decode_for_i64_chunk bytes position n \<noteq> Panic"
      by (auto simp: decode_for_i64_chunk_def not_less word_le_nat_alt unpack_bits_not_Panic split: if_splits)
  qed (rule for_i64_chunk)
qed (simp_all add: fun_eq_iff encode_for_i64_def decode_for_i64_def)

interpretation for_u32: chunk_codec encode_for_u32_chunk decode_for_u32_chunk
  rewrites "encode_column_chunks encode_for_u32_chunk = encode_for_u32"
    and "decode_column_chunks decode_for_u32_chunk = decode_for_u32"
proof -
  show "chunk_codec encode_for_u32_chunk decode_for_u32_chunk"
  proof unfold_locales
    fix bytes position n xs q
    show "decode_for_u32_chunk bytes position n = Ok (xs, q) \<Longrightarrow> length xs = n"
      by (auto simp: decode_for_u32_chunk_def not_less word_le_nat_alt split: if_splits
          dest!: unpack_bits_length traverseR_length)
    show "decode_for_u32_chunk bytes position n \<noteq> Panic"
      by (auto simp: decode_for_u32_chunk_def not_less word_le_nat_alt unpack_bits_not_Panic Let_def
          split: if_splits dest!: traverseR_not_Panic [THEN notE, rotated])
  qed (rule for_u32_chunk)
qed (simp_all add: fun_eq_iff encode_for_u32_def decode_for_u32_def)

section \<open>Properties\<close>

text \<open>
  C7: The frame-of-reference codecs are lossless over the whole range of their types: any
  list of 64-bit signed integers, and any list of 32-bit symbol codes, comes back from its
  encoding (\<open>i64::MIN\<close> beside \<open>i64::MAX\<close> included, since the offsets wrap).
\<close>
theorem for_roundtrip:
  "(length (encode_for_i64 xs) < 2 ^ 64 \<longrightarrow> decode_for_i64 (encode_for_i64 xs) (length xs) = Ok xs) \<and>
   (length (encode_for_u32 cs) < 2 ^ 64 \<longrightarrow> decode_for_u32 (encode_for_u32 cs) (length cs) = Ok cs)"
  by simp

theorem for_roundtrip_witness:
  "encode_for_u32 [6, 4, 7] = [4, 0, 0, 0, 2, 50] \<and>
   decode_for_u32 [4, 0, 0, 0, 2, 50] 3 = Ok [6, 4, 7]"
proof -
  have "encode_for_u32 [6, 4, 7] = [4, 0, 0, 0, 2, 50]" by code_simp
  then show ?thesis using for_roundtrip [of "[]" "[6, 4, 7]"] by (simp add: numeral_3_eq_3)
qed

end
