(* ===== verification/Float64.thy ===== *)
theory Float64
  imports Prelude
begin

text \<open>
  The IEEE 754 binary64 operations the engine's own code uses, on bit patterns and
  executable: classification, comparison, multiplication, conversion from \<open>i64\<close>, rounding
  to the nearest integer.  A finite number is \<open>(-1)^s * m * 2^e\<close>; every result is rounded
  once, to nearest with ties to even, by \<open>f64_round_pack\<close>.  A NaN result is the canonical
  quiet NaN (its payload is the processor's choice, and no caller looks at it).
\<close>

section \<open>Fields\<close>

definition f64_sign :: "f64 \<Rightarrow> bool" where
  "f64_sign x = bit x 63"

definition f64_exponent :: "f64 \<Rightarrow> nat" where
  "f64_exponent x = unat (drop_bit 52 x AND 0x7FF)"

definition f64_fraction :: "f64 \<Rightarrow> nat" where
  "f64_fraction x = unat (x AND 0xFFFFFFFFFFFFF)"

definition f64_is_nan :: "f64 \<Rightarrow> bool" where
  "f64_is_nan x \<longleftrightarrow> f64_exponent x = 0x7FF \<and> f64_fraction x \<noteq> 0"

definition f64_is_infinite :: "f64 \<Rightarrow> bool" where
  "f64_is_infinite x \<longleftrightarrow> f64_exponent x = 0x7FF \<and> f64_fraction x = 0"

definition f64_is_finite :: "f64 \<Rightarrow> bool" where
  "f64_is_finite x \<longleftrightarrow> f64_exponent x \<noteq> 0x7FF"

definition f64_mantissa :: "f64 \<Rightarrow> nat" where
  "f64_mantissa x = (if f64_exponent x = 0 then f64_fraction x else f64_fraction x + 2 ^ 52)"

definition f64_scale :: "f64 \<Rightarrow> int" where
  "f64_scale x = int (max (f64_exponent x) 1) - 1075"

section \<open>Rounding\<close>

text \<open>The number of binary digits of a natural number.\<close>

fun nat_digits :: "nat \<Rightarrow> nat" where
  "nat_digits n = (if n = 0 then 0 else Suc (nat_digits (n div 2)))"

declare nat_digits.simps [simp del]

text \<open>\<open>m / 2^d\<close> to the nearest integer, ties to even.\<close>

definition div_round_even :: "nat \<Rightarrow> nat \<Rightarrow> nat" where
  "div_round_even m d =
     (let q = m div 2 ^ d; r = m mod 2 ^ d
      in if 2 * r < 2 ^ d then q
         else if 2 ^ d < 2 * r then q + 1
         else if even q then q else q + 1)"

definition f64_infinity :: "bool \<Rightarrow> f64" where
  "f64_infinity s = (if s then 0xFFF0000000000000 else 0x7FF0000000000000)"

definition f64_nan :: f64 where
  "f64_nan = 0x7FF8000000000000"

definition f64_zero :: "bool \<Rightarrow> f64" where
  "f64_zero s = (if s then 0x8000000000000000 else 0)"

text \<open>
  \<open>(-1)^s * m * 2^e\<close> rounded to 53 digits, or to a multiple of \<open>2^-1074\<close> below the normal
  range.  Adding the kept digits to the shifted exponent lets a carry of the rounding
  move to the next binade, and past the last one to infinity.
\<close>

definition f64_round_pack :: "bool \<Rightarrow> nat \<Rightarrow> int \<Rightarrow> f64" where
  "f64_round_pack s m e =
     (if m = 0 then f64_zero s
      else (let target = max (e + int (nat_digits m) - 53) (- 1074);
                q = (if target \<le> e then m * 2 ^ nat (e - target)
                     else div_round_even m (nat (target - e)));
                magnitude = nat (target + 1074) * 2 ^ 52 + q
            in if 0x7FF * 2 ^ 52 \<le> magnitude then f64_infinity s
               else word_of_nat magnitude OR f64_zero s))"

section \<open>Operations\<close>

definition f64_mul :: "f64 \<Rightarrow> f64 \<Rightarrow> f64" where
  "f64_mul x y =
     (let s = (f64_sign x \<noteq> f64_sign y)
      in if f64_is_nan x \<or> f64_is_nan y then f64_nan
         else if f64_is_infinite x then (if f64_is_finite y \<and> f64_mantissa y = 0 then f64_nan else f64_infinity s)
         else if f64_is_infinite y then (if f64_mantissa x = 0 then f64_nan else f64_infinity s)
         else f64_round_pack s (f64_mantissa x * f64_mantissa y) (f64_scale x + f64_scale y))"

definition f64_of_i64 :: "i64 \<Rightarrow> f64" where
  "f64_of_i64 v = f64_round_pack (sint v < 0) (nat \<bar>sint v\<bar>) 0"

text \<open>\<open>x.round()\<close> as an integer: half away from zero (finite \<open>x\<close>).\<close>

definition f64_round_int :: "f64 \<Rightarrow> int" where
  "f64_round_int x =
     (let m = f64_mantissa x; e = f64_scale x;
          n = (if 0 \<le> e then m * 2 ^ nat e else (m + 2 ^ nat (- e - 1)) div 2 ^ nat (- e))
      in if f64_sign x then - int n else int n)"

text \<open>The saturating cast \<open>as i64\<close> of an integral float.\<close>

definition i64_saturate :: "int \<Rightarrow> i64" where
  "i64_saturate n = (if n < - (2 ^ 63) then word_of_int (- (2 ^ 63))
     else if 2 ^ 63 - 1 < n then word_of_int (2 ^ 63 - 1) else word_of_int n)"

text \<open>Comparison: NaN compares with nothing, and the two zeros are equal.\<close>

definition f64_key :: "f64 \<Rightarrow> int" where
  "f64_key x = (let n = int (unat (x AND 0x7FFFFFFFFFFFFFFF)) in if f64_sign x then - n else n)"

definition f64_le :: "f64 \<Rightarrow> f64 \<Rightarrow> bool" where
  "f64_le x y \<longleftrightarrow> \<not> f64_is_nan x \<and> \<not> f64_is_nan y \<and> f64_key x \<le> f64_key y"

definition f64_lt :: "f64 \<Rightarrow> f64 \<Rightarrow> bool" where
  "f64_lt x y \<longleftrightarrow> \<not> f64_is_nan x \<and> \<not> f64_is_nan y \<and> f64_key x < f64_key y"

definition f64_eq :: "f64 \<Rightarrow> f64 \<Rightarrow> bool" where
  "f64_eq x y \<longleftrightarrow> \<not> f64_is_nan x \<and> \<not> f64_is_nan y \<and> f64_key x = f64_key y"

text \<open>\<open>f64::min\<close> and \<open>f64::max\<close>: a NaN operand gives the other; between equal values (the two
  zeros) the standard library leaves the choice open, and the first is taken here.\<close>

definition f64_min :: "f64 \<Rightarrow> f64 \<Rightarrow> f64" where
  "f64_min x y = (if f64_is_nan x then y else if f64_is_nan y then x else if f64_lt y x then y else x)"

definition f64_max :: "f64 \<Rightarrow> f64 \<Rightarrow> f64" where
  "f64_max x y = (if f64_is_nan x then y else if f64_is_nan y then x else if f64_lt x y then y else x)"

lemma f64_le_trans: "f64_le x y \<Longrightarrow> f64_le y z \<Longrightarrow> f64_le x z"
  by (auto simp: f64_le_def)

lemma f64_le_refl: "\<not> f64_is_nan x \<Longrightarrow> f64_le x x"
  by (simp add: f64_le_def)

lemma f64_min_le:
  assumes "\<not> f64_is_nan x" "\<not> f64_is_nan y"
  shows "f64_le (f64_min x y) x" "f64_le (f64_min x y) y" "\<not> f64_is_nan (f64_min x y)"
  using assms by (auto simp: f64_min_def f64_le_def f64_lt_def)

lemma f64_max_ge:
  assumes "\<not> f64_is_nan x" "\<not> f64_is_nan y"
  shows "f64_le x (f64_max x y)" "f64_le y (f64_max x y)" "\<not> f64_is_nan (f64_max x y)"
  using assms by (auto simp: f64_max_def f64_le_def f64_lt_def)

text \<open>The rounding used everywhere is to a nearest integer.\<close>

lemma div_round_even_nearest:
  "2 * \<bar>int m - int (div_round_even m d) * 2 ^ d\<bar> \<le> 2 ^ d"
proof -
  define p :: nat where "p = 2 ^ d"
  define q where "q = m div p"
  define r where "r = m mod p"
  have m: "m = q * p + r" and r: "r < p"
    using div_mult_mod_eq [of m p] by (simp_all add: q_def r_def p_def)
  then have m': "int m = int q * int p + int r" by simp
  have dr: "div_round_even m d = (if 2 * r < p then q else if p < 2 * r then q + 1 else if even q then q else q + 1)"
    by (simp add: div_round_even_def q_def r_def p_def Let_def)
  have up: "int m - int (q + 1) * int p = int r - int p" unfolding m' by (simp add: algebra_simps)
  have dn: "int m - int q * int p = int r" unfolding m' by simp
  have "2 * \<bar>int m - int (div_round_even m d) * int p\<bar> \<le> int p"
  proof (cases "div_round_even m d = q")
    case True
    then have "2 * r \<le> p" using dr r by (auto split: if_splits)
    then show ?thesis unfolding True dn by simp
  next
    case False
    then have "div_round_even m d = q + 1" "p \<le> 2 * r" using dr by (auto split: if_splits)
    then show ?thesis using up r by simp
  qed
  then show ?thesis by (simp add: p_def)
qed

end
