(* ===== verification/Alp.thy ===== *)
theory Alp
  imports For Float64 "HOL-Library.Product_Lexorder"
begin

text \<open>
  The \<open>f64\<close> column codec of \<^verbatim>\<open>src/storage_lite/alp.rs\<close>: per chunk of 1024 values the smallest
  of ALP (decimal digits, verified bit-exactly at encode time, exceptions verbatim), ALP-RD
  (a dictionary of left parts, right parts verbatim) and raw bytes.  Floating-point
  arithmetic is that of \<open>Float64\<close>.  The codec is a \<open>chunk_codec\<close>.
\<close>

section \<open>Tables\<close>

text \<open>The powers of ten up to \<open>1e18\<close> are exact; their inverses are the nearest doubles.\<close>

definition POW10 :: "f64 list" where
  "POW10 = map (\<lambda>e. f64_round_pack False (10 ^ e) 0) [0..<19]"

definition INV10 :: "f64 list" where
  "INV10 =
     [0x3FF0000000000000, 0x3FB999999999999A, 0x3F847AE147AE147B, 0x3F50624DD2F1A9FC,
      0x3F1A36E2EB1C432D, 0x3EE4F8B588E368F1, 0x3EB0C6F7A0B5ED8D, 0x3E7AD7F29ABCAF48,
      0x3E45798EE2308C3A, 0x3E112E0BE826D695, 0x3DDB7CDFD9D7BDBB, 0x3DA5FD7FE1796495,
      0x3D719799812DEA11, 0x3D3C25C268497682, 0x3D06849B86A12B9B, 0x3CD203AF9EE75616,
      0x3C9CD2B297D889BC, 0x3C670EF54646D497, 0x3C32725DD1D243AC]"

definition MODE_ALP :: u8 where "MODE_ALP = 0"

definition MODE_RD :: u8 where "MODE_RD = 1"

definition MODE_RAW :: u8 where "MODE_RAW = 2"

section \<open>ALP\<close>

definition alp_reconstruct :: "i64 \<Rightarrow> nat \<Rightarrow> nat \<Rightarrow> f64" where
  "alp_reconstruct digits e f = f64_mul (f64_mul (f64_of_i64 digits) (POW10 ! f)) (INV10 ! e)"

definition alp_convert :: "f64 \<Rightarrow> nat \<Rightarrow> nat \<Rightarrow> i64 option" where
  "alp_convert value e f =
     (let scaled = f64_mul (f64_mul value (POW10 ! e)) (INV10 ! f)
      in if \<not> (f64_is_finite scaled \<and> f64_le (f64_of_i64 (- 9000000000000000000)) scaled \<and>
              f64_le scaled (f64_of_i64 9000000000000000000)) then None
         else let digits = i64_saturate (f64_round_int scaled)
              in if alp_reconstruct digits e f = value then Some digits else None)"

definition step_by :: "nat \<Rightarrow> 'a list \<Rightarrow> 'a list" where
  "step_by step xs = map (\<lambda>i. xs ! i) (filter (\<lambda>i. i mod step = 0) [0..<length xs])"

definition I64_MAX :: i64 where "I64_MAX = 0x7FFFFFFFFFFFFFFF"

definition I64_MIN :: i64 where "I64_MIN = 0x8000000000000000"

text \<open>The running exceptions, low and high digits of a loop over converted values.\<close>

fun digit_range :: "i64 option list \<Rightarrow> nat \<times> i64 \<times> i64 \<Rightarrow> nat \<times> i64 \<times> i64" where
  "digit_range [] (exceptions, low, high) = (exceptions, low, high)"
| "digit_range (Some digits # rest) (exceptions, low, high) =
     digit_range rest (exceptions, if sint digits < sint low then digits else low,
       if sint high < sint digits then digits else high)"
| "digit_range (None # rest) (exceptions, low, high) = digit_range rest (exceptions + 1, low, high)"

definition exponent_score :: "f64 list \<Rightarrow> nat \<Rightarrow> nat \<Rightarrow> nat" where
  "exponent_score sample e f =
     (let (exceptions, low, high) = digit_range (map (\<lambda>v. alp_convert v e f) sample) (0, I64_MAX, I64_MIN);
          width = (if sint low \<le> sint high then width_of (high - low) else 64)
      in exceptions * (64 + 16) + (length sample - exceptions) * width)"

definition choose_exponents :: "f64 list \<Rightarrow> nat \<times> nat" where
  "choose_exponents values =
     (let step = max (length values div 32) 1;
          sample = step_by step values
      in fst (foldl (\<lambda>(best, best_score) (e, f).
           let score = exponent_score sample e f
           in if score < best_score then ((e, f), score) else (best, best_score))
         ((0, 0), 2 ^ 64 - 1)
         (concat (map (\<lambda>e. map (\<lambda>f. (e, f)) [0..<Suc e]) [0..<length POW10]))))"

text \<open>The exception list: the positions of the values that did not convert, with their bits.\<close>

definition alp_exceptions :: "i64 option list \<Rightarrow> f64 list \<Rightarrow> bytes" where
  "alp_exceptions digits values =
     concat (map (\<lambda>(position, digit, value).
       if digit = None then le_bytes 2 (word_of_nat position :: u16) @ le_bytes 8 value else [])
       (zip [0..<length values] (zip digits values)))"

definition encode_alp_chunk :: "f64 list \<Rightarrow> bytes option" where
  "encode_alp_chunk values =
     (let (e, f) = choose_exponents values;
          digits = map (\<lambda>value. alp_convert value e f) values;
          (exceptions, low, high) = digit_range digits (0, I64_MAX, I64_MIN)
      in if sint high < sint low then None
         else
           (let width = width_of (high - low);
                packed = map (\<lambda>digit. (case digit of Some d \<Rightarrow> d | None \<Rightarrow> low) - low) digits;
                out = [MODE_ALP, word_of_nat e, word_of_nat f] @ le_bytes 8 low @ [word_of_nat width]
            in Some (pack_bits out packed width @
                 le_bytes 2 (word_of_nat exceptions :: u16) @ alp_exceptions digits values)))"

fun decode_alp_exceptions :: "bytes \<Rightarrow> nat \<Rightarrow> nat \<Rightarrow> nat \<Rightarrow> f64 list \<Rightarrow>
    (codec_error, f64 list \<times> nat) outcome" where
  "decode_alp_exceptions bytes position count 0 values = Ok (values, position)"
| "decode_alp_exceptions bytes position count (Suc n) values =
     bindR (take_array 2 bytes position) (\<lambda>(slot, position).
     bindR (take_array 8 bytes position) (\<lambda>(bits, position).
       let slot = unat (le_word slot :: u16)
       in if count \<le> slot then Err (Invalid ''ALP exception past the chunk'')
          else decode_alp_exceptions bytes position count n (values[slot := le_word bits])))"

definition decode_alp_chunk :: "bytes \<Rightarrow> nat \<Rightarrow> nat \<Rightarrow> (codec_error, f64 list \<times> nat) outcome" where
  "decode_alp_chunk bytes position count =
     bindR (take_u8 bytes position) (\<lambda>(e, position).
     bindR (take_u8 bytes position) (\<lambda>(f, position).
     let e = unat e; f = unat f
     in if length POW10 \<le> e \<or> e < f then Err (Invalid ''ALP exponents out of range'')
        else
          bindR (take_array 8 bytes position) (\<lambda>(base, position).
          bindR (take_u8 bytes position) (\<lambda>(width, position).
          if 64 < width then Err (Invalid ''ALP bit width over 64'')
          else
            bindR (unpack_bits bytes position count (unat width)) (\<lambda>(packed, position).
            let values = map (\<lambda>delta. alp_reconstruct (le_word base + delta) e f) packed
            in bindR (take_array 2 bytes position) (\<lambda>(exceptions, position).
                 decode_alp_exceptions bytes position count (unat (le_word exceptions :: u16)) values))))))"

section \<open>ALP-RD\<close>

definition RD_DICT :: nat where "RD_DICT = 8"

definition RD_LEFT_MAX :: nat where "RD_LEFT_MAX = 16"

definition rd_left :: "nat \<Rightarrow> f64 \<Rightarrow> u16" where
  "rd_left shift value = ucast (drop_bit shift value)"

definition push_run :: "(u16 \<times> nat) list \<Rightarrow> u16 \<Rightarrow> (u16 \<times> nat) list" where
  "push_run runs left =
     (if runs \<noteq> [] \<and> fst (last runs) = left
      then butlast runs @ [(left, snd (last runs) + 1)] else runs @ [(left, 1)])"

text \<open>One candidate width: its dictionary and the size it would encode to.\<close>

definition cut_candidate :: "f64 list \<Rightarrow> nat \<Rightarrow> u16 list \<times> nat" where
  "cut_candidate values left_width =
     (let shift = 64 - left_width;
          lefts = sort (map (rd_left shift) values);
          runs = foldl push_run [] lefts;
          runs = sort_key (\<lambda>(left, count). (- int count, uint left)) runs;
          dict = map fst (take RD_DICT runs);
          covered = sum_list (map snd (take RD_DICT runs));
          exceptions = length values - covered;
          size = div_ceil (length values * 3) 8 + div_ceil (length values * (64 - left_width)) 8 +
            length dict * 2 + exceptions * 4
      in (dict, size))"

definition choose_cut :: "f64 list \<Rightarrow> nat \<times> u16 list" where
  "choose_cut values =
     fst (foldl (\<lambda>(best, best_size) left_width.
       let (dict, size) = cut_candidate values left_width
       in if size < best_size then ((left_width, dict), size) else (best, best_size))
     ((1, []), 2 ^ 64 - 1) [1..<Suc RD_LEFT_MAX])"

fun position_of :: "'a \<Rightarrow> 'a list \<Rightarrow> nat option" where
  "position_of x [] = None"
| "position_of x (y # ys) = (if y = x then Some 0 else map_option Suc (position_of x ys))"

definition encode_rd_chunk :: "f64 list \<Rightarrow> bytes" where
  "encode_rd_chunk values =
     (let (left_width, dict) = choose_cut values;
          shift = 64 - left_width;
          right_width = 64 - left_width;
          out = [MODE_RD, word_of_nat left_width, word_of_nat (length dict)] @ concat (map (le_bytes 2) dict);
          codes = map (\<lambda>value. case position_of (rd_left shift value) dict of
              Some code \<Rightarrow> word_of_nat code | None \<Rightarrow> 0) values;
          exceptions = filter (\<lambda>(position, left). position_of left dict = None)
            (zip [0..<length values] (map (rd_left shift) values));
          out = pack_bits out codes 3;
          rights = map (\<lambda>value. if right_width = 64 then value
            else value AND (push_bit right_width 1 - 1)) values;
          out = pack_bits out rights right_width
      in out @ le_bytes 2 (word_of_nat (length exceptions) :: u16) @
         concat (map (\<lambda>(position, left). le_bytes 2 (word_of_nat position :: u16) @ le_bytes 2 left) exceptions))"

fun read_dict :: "bytes \<Rightarrow> nat \<Rightarrow> nat \<Rightarrow> u16 list \<Rightarrow> (codec_error, u16 list \<times> nat) outcome" where
  "read_dict bytes position 0 dict = Ok (dict, position)"
| "read_dict bytes position (Suc n) dict =
     bindR (take_array 2 bytes position) (\<lambda>(entry, position).
       read_dict bytes position n (dict @ [le_word entry]))"

fun decode_rd_exceptions :: "bytes \<Rightarrow> nat \<Rightarrow> nat \<Rightarrow> nat \<Rightarrow> u64 list \<Rightarrow> nat \<Rightarrow> f64 list \<Rightarrow>
    (codec_error, f64 list \<times> nat) outcome" where
  "decode_rd_exceptions bytes position count shift rights 0 values = Ok (values, position)"
| "decode_rd_exceptions bytes position count shift rights (Suc n) values =
     bindR (take_array 2 bytes position) (\<lambda>(slot, position).
     bindR (take_array 2 bytes position) (\<lambda>(left, position).
       let slot = unat (le_word slot :: u16)
       in if count \<le> slot then Err (Invalid ''RD exception past the chunk'')
          else decode_rd_exceptions bytes position count shift rights n
            (values[slot := push_bit shift (ucast (le_word left :: u16)) OR rights ! slot])))"

definition decode_rd_chunk :: "bytes \<Rightarrow> nat \<Rightarrow> nat \<Rightarrow> (codec_error, f64 list \<times> nat) outcome" where
  "decode_rd_chunk bytes position count =
     bindR (take_u8 bytes position) (\<lambda>(left_width, position).
     let left_width = unat left_width
     in if left_width = 0 \<or> RD_LEFT_MAX < left_width then Err (Invalid ''RD left width out of range'')
        else
          bindR (take_u8 bytes position) (\<lambda>(dict_len, position).
          let dict_len = unat dict_len
          in if dict_len = 0 \<or> RD_DICT < dict_len then Err (Invalid ''RD dictionary size out of range'')
             else
               bindR (read_dict bytes position dict_len []) (\<lambda>(dict, position).
               bindR (unpack_bits bytes position count 3) (\<lambda>(codes, position).
               let right_width = 64 - left_width
               in bindR (unpack_bits bytes position count right_width) (\<lambda>(rights, position).
                  let shift = 64 - left_width
                  in bindR (traverseR (\<lambda>(code, right).
                         if unat code < length dict
                         then Ok (push_bit shift (ucast (dict ! unat code)) OR right)
                         else Err (Invalid ''RD code past its dictionary'')) (zip codes rights)) (\<lambda>values.
                     bindR (take_array 2 bytes position) (\<lambda>(exceptions, position).
                       decode_rd_exceptions bytes position count shift rights
                         (unat (le_word exceptions :: u16)) values)))))))"

section \<open>The column codec\<close>

definition encode_raw_chunk :: "f64 list \<Rightarrow> bytes" where
  "encode_raw_chunk values = MODE_RAW # concat (map (le_bytes 8) values)"

definition encode_alp_f64_chunk :: "f64 list \<Rightarrow> bytes" where
  "encode_alp_f64_chunk chunk =
     (let alp = encode_alp_chunk chunk;
          rd = encode_rd_chunk chunk;
          raw_size = 1 + length chunk * 8;
          otherwise = (if length rd < raw_size then rd else encode_raw_chunk chunk)
      in case alp of
           Some alp \<Rightarrow> if length alp \<le> length rd \<and> length alp < raw_size then alp else otherwise
         | None \<Rightarrow> otherwise)"

definition encode_alp_f64 :: "f64 list \<Rightarrow> bytes" where
  "encode_alp_f64 values = encode_column_chunks encode_alp_f64_chunk values"

fun decode_raw :: "bytes \<Rightarrow> nat \<Rightarrow> nat \<Rightarrow> f64 list \<Rightarrow> (codec_error, f64 list \<times> nat) outcome" where
  "decode_raw bytes position 0 values = Ok (values, position)"
| "decode_raw bytes position (Suc n) values =
     bindR (take_array 8 bytes position) (\<lambda>(bits, position).
       decode_raw bytes position n (values @ [le_word bits]))"

definition decode_alp_f64_chunk :: "bytes \<Rightarrow> nat \<Rightarrow> nat \<Rightarrow> (codec_error, f64 list \<times> nat) outcome" where
  "decode_alp_f64_chunk bytes position chunk =
     bindR (take_u8 bytes position) (\<lambda>(mode, position).
       if mode = MODE_ALP then decode_alp_chunk bytes position chunk
       else if mode = MODE_RD then decode_rd_chunk bytes position chunk
       else if mode = MODE_RAW then decode_raw bytes position chunk []
       else Err (Invalid ''unknown ALP chunk mode''))"

definition decode_alp_f64 :: "bytes \<Rightarrow> nat \<Rightarrow> (codec_error, f64 list) outcome" where
  "decode_alp_f64 bytes count = decode_column_chunks decode_alp_f64_chunk bytes count"

section \<open>The choices are within their ranges\<close>

lemma foldl_invariant:
  "P a \<Longrightarrow> (\<And>a x. x \<in> set xs \<Longrightarrow> P a \<Longrightarrow> P (f a x)) \<Longrightarrow> P (foldl f a xs)"
  by (induction xs arbitrary: a) auto

lemma choose_exponents_bounds:
  assumes "choose_exponents values = (e, f)"
  shows "e < 19" and "f \<le> e"
proof -
  have "\<forall>e f. fst acc = (e, f) \<longrightarrow> e < 19 \<and> f \<le> e"
    if "acc = foldl (\<lambda>(best, best_score) (e, f).
         let score = exponent_score sample e f
         in if score < best_score then ((e, f), score) else (best, best_score)) ((0, 0), 2 ^ 64 - 1)
       (concat (map (\<lambda>e. map (\<lambda>f. (e, f)) [0..<Suc e]) [0..<length POW10]))" for acc sample
    unfolding that
    by (rule foldl_invariant) (auto simp: Let_def POW10_def case_prod_unfold)
  then show "e < 19" "f \<le> e" using assms by (auto simp: choose_exponents_def Let_def)
qed

lemma foldl_push_run: "xs \<noteq> [] \<or> runs \<noteq> [] \<Longrightarrow> foldl push_run runs xs \<noteq> []"
  by (induction xs arbitrary: runs) (auto simp: push_run_def)

lemma sort_key_Nil: "sort_key k xs = [] \<longleftrightarrow> xs = []"
proof -
  have "length (sort_key k xs) = length xs" by (rule length_sort)
  then show ?thesis by (metis length_0_conv)
qed

lemma cut_candidate_bounds:
  assumes "cut_candidate values w = (dict, sz)" "values \<noteq> []" "length values \<le> CHUNK"
  shows "1 \<le> length dict \<and> length dict \<le> 8 \<and> sz < 2 ^ 64 - 1"
proof -
  let ?lefts = "sort (map (rd_left (64 - w)) values)"
  let ?runs = "sort_key (\<lambda>(left, count). (- int count, uint left)) (foldl push_run [] ?lefts)"
  have "?lefts \<noteq> []" using assms(2) by (simp only: sort_key_Nil list.map_disc_iff not_False_eq_True)
  then have "foldl push_run [] ?lefts \<noteq> []" by (intro foldl_push_run) simp
  then have "?runs \<noteq> []" by (simp only: sort_key_Nil not_False_eq_True)
  then have dict: "1 \<le> length dict" "length dict \<le> 8"
    using assms(1) by (auto simp: cut_candidate_def Let_def RD_DICT_def Suc_le_eq)
  have dc: "div_ceil k 8 \<le> k + 1" for k
    using div_le_dividend [of k 8] by (auto simp: div_ceil_def le_SucI)
  have "length values * (64 - w) \<le> length values * 64" by simp
  moreover have "sz = div_ceil (length values * 3) 8 + div_ceil (length values * (64 - w)) 8 +
      length dict * 2 + (length values - sum_list (map snd (take RD_DICT ?runs))) * 4"
    using assms(1) by (auto simp: cut_candidate_def Let_def)
  ultimately have "sz \<le> 100000"
    using dc [of "length values * 3"] dc [of "length values * (64 - w)"] dict assms(3)
    unfolding CHUNK_def by linarith
  then show ?thesis using dict by simp
qed

lemma choose_cut_bounds:
  assumes "choose_cut values = (w, dict)" "values \<noteq> []" "length values \<le> CHUNK"
  shows "1 \<le> w \<and> w \<le> 16 \<and> 1 \<le> length dict \<and> length dict \<le> 8"
proof -
  let ?step = "\<lambda>(best, best_size) left_width.
       let (dict, size) = cut_candidate values left_width
       in if size < best_size then ((left_width, dict), size) else (best, best_size :: nat)"
  let ?P = "\<lambda>acc. 1 \<le> fst (fst acc) \<and> fst (fst acc) \<le> (16 :: nat) \<and>
    1 \<le> length (snd (fst acc)) \<and> length (snd (fst acc)) \<le> 8"
  obtain d1 s1 where c1: "cut_candidate values 1 = (d1, s1)" by fastforce
  note b1 = cut_candidate_bounds [OF c1 assms(2,3)]
  have upt: "[1..<Suc RD_LEFT_MAX] = 1 # [2..<17]"
    unfolding RD_LEFT_MAX_def by (subst upt_rec) (simp del: upt_rec_numeral upt_Suc add: numeral_2_eq_2)
  have "?step ((1, []), 2 ^ 64 - 1) 1 = ((1, d1), s1)" using b1 c1 by simp
  then have "foldl ?step ((1, []), 2 ^ 64 - 1) [1..<Suc RD_LEFT_MAX] = foldl ?step ((1, d1), s1) [2..<17]"
    unfolding upt foldl_Cons by (simp only:)
  moreover have "?P (foldl ?step ((1, d1), s1) [2..<17])"
  proof (rule foldl_invariant)
    show "?P ((1, d1), s1)" using b1 by simp
  next
    fix acc :: "(nat \<times> u16 list) \<times> nat" and x assume x: "x \<in> set [2..<17 :: nat]" and P: "?P acc"
    obtain d s where c: "cut_candidate values x = (d, s)" by fastforce
    have "1 \<le> x \<and> x \<le> 16" using x by auto
    then show "?P (?step acc x)"
      using P cut_candidate_bounds [OF c assms(2,3)] c by (simp add: case_prod_unfold Let_def)
  qed
  ultimately show ?thesis using assms(1) unfolding choose_cut_def by simp
qed

section \<open>The exception lists\<close>

lemma take_two [simp]:
  "length (pre @ le_bytes 2 a @ post) < 2 ^ 64 \<Longrightarrow>
   take_array 2 (pre @ le_bytes 2 (a :: u16) @ post) (length pre) = Ok (le_bytes 2 a, length pre + 2)"
  by (intro take_array_at) simp_all

lemma decode_alp_exceptions_at:
  assumes "length vs = length ds" "length ys = count" "s + length ds = count" "count \<le> CHUNK"
    and "\<forall>i<length ds. ds ! i \<noteq> None \<longrightarrow> ys ! (s + i) = vs ! i"
  defines "body \<equiv> \<lambda>s ds vs. concat (map (\<lambda>(position, digit, value).
       if digit = (None :: i64 option) then le_bytes 2 (word_of_nat position :: u16) @ le_bytes 8 value else [])
       (zip [s..<s + length vs] (zip ds vs)))"
  assumes "length (pre @ body s ds vs @ post) < 2 ^ 64"
  shows "decode_alp_exceptions (pre @ body s ds vs @ post) (length pre) count
      (length (filter (\<lambda>d. d = None) ds)) ys = Ok (take s ys @ vs, length pre + length (body s ds vs))"
  using assms(1-5,7)
proof (induction vs ds arbitrary: s pre ys rule: list_induct2)
  case Nil
  then show ?case by (simp add: body_def)
next
  case (Cons v vs d ds)
  have upt: "[s..<s + length (v # vs)] = s # [Suc s..<Suc s + length vs]"
    by (subst upt_rec) (simp del: upt_Suc)
  have body: "body s (d # ds) (v # vs) =
      (if d = None then le_bytes 2 (word_of_nat s :: u16) @ le_bytes 8 v else []) @ body (Suc s) ds vs"
    unfolding body_def upt by simp
  have rest: "\<forall>i<length ds. ds ! i \<noteq> None \<longrightarrow> ys ! (Suc s + i) = vs ! i"
    using Cons.prems(4) by fastforce
  have s: "s < count" using Cons.prems(2) by simp
  show ?case
  proof (cases d)
    case (Some x)
    have "ys ! s = v" using Cons.prems(4) Some by (auto dest: spec [of _ 0])
    then have "take (Suc s) ys @ vs = take s ys @ v # vs"
      using s Cons.prems(1) by (simp add: take_Suc_conv_app_nth)
    then show ?thesis
      using Cons.IH [of ys "Suc s" pre] Cons.prems Some rest unfolding body by simp
  next
    case None
    let ?head = "le_bytes 2 (word_of_nat s :: u16) @ le_bytes 8 v"
    let ?bytes = "pre @ ?head @ body (Suc s) ds vs @ post"
    have small: "length ?bytes < 2 ^ 64" using Cons.prems(5) None unfolding body by simp
    have t1: "take_array 2 ?bytes (length pre) = Ok (le_bytes 2 (word_of_nat s :: u16), length pre + 2)"
      using small by (simp add: take_array_def)
    have t2: "take_array 8 ?bytes (length pre + 2) = Ok (le_bytes 8 v, length pre + 10)"
      using small by (simp add: take_array_def)
    have slot: "unat (word_of_nat s :: u16) = s" using s Cons.prems(3) by (simp add: CHUNK_def)
    have "decode_alp_exceptions ((pre @ ?head) @ body (Suc s) ds vs @ post) (length (pre @ ?head)) count
        (length (filter (\<lambda>d. d = None) ds)) (ys[s := v]) =
      Ok (take (Suc s) (ys[s := v]) @ vs, length (pre @ ?head) + length (body (Suc s) ds vs))"
      using Cons.prems rest small by (intro Cons.IH) (auto simp: nth_list_update)
    moreover have "take (Suc s) (ys[s := v]) @ vs = take s ys @ v # vs"
      using s Cons.prems(1) by (simp add: take_Suc_conv_app_nth)
    ultimately show ?thesis
      using None t1 t2 slot s unfolding body by (simp add: Let_def)
  qed
qed

section \<open>ALP chunks\<close>

lemma digit_range_bounds:
  "digit_range ds (ex, lo, hi) = (ex', lo', hi') \<Longrightarrow>
   ex' = ex + length (filter (\<lambda>d. d = None) ds) \<and> sint lo' \<le> sint lo \<and> sint hi \<le> sint hi' \<and>
   (\<forall>d. Some d \<in> set ds \<longrightarrow> sint lo' \<le> sint d \<and> sint d \<le> sint hi')"
proof (induction ds "(ex, lo, hi)" arbitrary: ex lo hi rule: digit_range.induct)
  case (2 digits rest ex lo hi)
  then show ?case by (fastforce split: if_splits)
qed auto

lemma uint_diff_signed:
  fixes a b :: i64
  assumes "sint a \<le> sint b"
  shows "uint (b - a) = sint b - sint a"
proof -
  have "b - a = word_of_int (sint b - sint a)" by (simp add: wi_hom_syms)
  moreover have "sint b < 2 ^ 63" "- (2 ^ 63) \<le> sint a" using sint_lt [of b] sint_ge [of a] by simp_all
  ultimately show ?thesis
    using assms by (simp only: uint_word_of_int_eq) (rule take_bit_int_eq_self, simp_all)
qed

lemma fits_signed_offset:
  fixes low d high :: i64
  assumes "sint low \<le> sint d" "sint d \<le> sint high"
  shows "fits (width_of (high - low)) (d - low)"
proof (rule fits_mono [OF fits_width_of _ width_of_le])
  show "d - low \<le> high - low"
    using uint_diff_signed [of low d] uint_diff_signed [of low high] assms by (simp add: word_le_def)
qed

lemma alp_convert_exact: "alp_convert v e f = Some d \<Longrightarrow> alp_reconstruct d e f = v"
  by (auto simp: alp_convert_def Let_def split: if_splits)

text \<open>The decoder, from what each of its reads returns.\<close>

lemma decode_alp_chunkI:
  assumes "take_u8 bs p1 = Ok (eb, p2)" "take_u8 bs p2 = Ok (fb, p3)" "take_array 8 bs p3 = Ok (B, p4)"
    and "take_u8 bs p4 = Ok (wb, p5)" "unpack_bits bs p5 n (unat wb) = Ok (packed, p6)"
    and "take_array 2 bs p6 = Ok (ex, p7)" "unat eb < 19" "unat fb \<le> unat eb" "\<not> 64 < wb"
    and "decode_alp_exceptions bs p7 n (unat (le_word ex :: u16))
      (map (\<lambda>delta. alp_reconstruct (le_word B + delta) (unat eb) (unat fb)) packed) = r"
  shows "decode_alp_chunk bs p1 n = r"
  using assms by (auto simp: decode_alp_chunk_def POW10_def Let_def)

lemma alp_chunk:
  assumes "encode_alp_chunk xs = Some out" "length xs \<le> CHUNK" "length (pre @ out @ post) < 2 ^ 64"
  shows "\<exists>body. out = MODE_ALP # body \<and>
    decode_alp_chunk (pre @ out @ post) (length pre + 1) (length xs) = Ok (xs, length pre + length out)"
proof -
  obtain e f where ef: "choose_exponents xs = (e, f)" by fastforce
  define ds where "ds = map (\<lambda>v. alp_convert v e f) xs"
  obtain n low high where dr: "digit_range ds (0, I64_MAX, I64_MIN) = (n, low, high)" by (metis prod_cases3)
  define w where "w = width_of (high - low)"
  define packed where "packed = map (\<lambda>digit. (case digit of Some d \<Rightarrow> d | None \<Rightarrow> low) - low) ds"
  define B where "B = le_bytes 8 low"
  define exc where "exc = alp_exceptions ds xs"
  have ord: "sint low \<le> sint high"
    and out: "out = pack_bits ([MODE_ALP, word_of_nat e, word_of_nat f] @ B @ [word_of_nat w]) packed w @
      le_bytes 2 (word_of_nat n :: u16) @ exc"
    using assms(1) ef dr unfolding encode_alp_chunk_def
    by (auto simp: ds_def [symmetric] w_def packed_def B_def exc_def Let_def split: if_splits)
  have rng: "n = length (filter (\<lambda>d. d = None) ds)"
    "\<And>d. Some d \<in> set ds \<Longrightarrow> sint low \<le> sint d \<and> sint d \<le> sint high"
    using digit_range_bounds [OF dr] by auto
  have w: "w \<le> 64" by (simp add: w_def width_of_le)
  have fit: "\<forall>v\<in>set packed. fits w v"
    using rng(2) ord by (auto simp: packed_def w_def intro!: fits_signed_offset split: option.splits)
  have len: "length packed = length xs" "length ds = length xs" by (simp_all add: packed_def ds_def)
  have bounds: "e < 19" "f \<le> e" using choose_exponents_bounds [OF ef] by auto
  let ?P = "pre @ [MODE_ALP, word_of_nat e, word_of_nat f]"
  let ?post = "le_bytes 2 (word_of_nat n :: u16) @ exc @ post"
  let ?body = "pack_bits (B @ [word_of_nat w]) packed w"
  have app: "pack_bits (hs @ B @ [word_of_nat w]) packed w = hs @ ?body" for hs
    using length_pack_bits_append [OF w fit, of "hs @ B @ [word_of_nat w]"]
      length_pack_bits_append [OF w fit, of "B @ [word_of_nat w]"] by simp
  have bytes: "pre @ out @ post = ?P @ ?body @ ?post" unfolding out app by simp
  have small: "length (?P @ ?body @ ?post) < 2 ^ 64" using assms(3) unfolding bytes .
  have "length packed \<le> CHUNK" "length B = 8" using len assms(2) by (simp_all add: B_def)
  note frame = frame_at [OF w fit this small]
  have f3: "unpack_bits (?P @ ?body @ ?post) (length ?P + 8 + 1) (length xs) (unat (word_of_nat w :: u8)) =
      Ok (packed, length ?P + length ?body)"
    using frame(3) unfolding len u8_of_width [OF w] .
  have e1: "take_u8 (?P @ ?body @ ?post) (length pre + 1) = Ok (word_of_nat e, length pre + 2)"
    and e2: "take_u8 (?P @ ?body @ ?post) (length pre + 2) = Ok (word_of_nat f, length pre + 3)"
    by (simp_all add: take_u8_def nth_append)
  have "n \<le> length ds" by (simp add: rng(1))
  then have n: "unat (word_of_nat n :: u16) = n" using len assms(2) by (simp add: CHUNK_def)
  have t: "take_array 2 (?P @ ?body @ ?post) (length ?P + length ?body) =
      Ok (le_bytes 2 (word_of_nat n :: u16), length ?P + length ?body + 2)"
    using take_two [of "?P @ ?body" "word_of_nat n" "exc @ post"] small by simp
  let ?ys = "map (\<lambda>delta. alp_reconstruct (low + delta) e f) packed"
  have conv: "\<forall>i<length ds. ds ! i \<noteq> None \<longrightarrow> ?ys ! (0 + i) = xs ! i"
    using alp_convert_exact by (auto simp: packed_def ds_def)
  have "decode_alp_exceptions ((?P @ ?body @ le_bytes 2 (word_of_nat n :: u16)) @ exc @ post)
      (length (?P @ ?body @ le_bytes 2 (word_of_nat n :: u16))) (length xs) n ?ys =
    Ok (take 0 ?ys @ xs, length (?P @ ?body @ le_bytes 2 (word_of_nat n :: u16)) + length exc)"
    using decode_alp_exceptions_at [of xs ds ?ys "length xs" 0
        "?P @ ?body @ le_bytes 2 (word_of_nat n :: u16)" post] len assms(2) small conv rng(1)
    unfolding exc_def alp_exceptions_def by simp
  then have x: "decode_alp_exceptions (?P @ ?body @ ?post) (length ?P + length ?body + 2) (length xs) n ?ys =
      Ok (xs, length ?P + length ?body + 2 + length exc)" by simp
  have ue: "unat (word_of_nat e :: u8) = e" "unat (word_of_nat f :: u8) = f" using bounds by simp_all
  have uw: "\<not> (64 :: u8) < word_of_nat w" using w by (simp add: word_less_nat_alt)
  have base: "le_word B = low" by (simp add: B_def)
  have P: "length ?P = length pre + 3" by simp
  have "decode_alp_chunk (?P @ ?body @ ?post) (length pre + 1) (length xs) =
      Ok (xs, length ?P + length ?body + 2 + length exc)"
  proof (rule decode_alp_chunkI [OF e1 e2 [folded P] frame(1) frame(2) f3 t])
    show "decode_alp_exceptions (?P @ ?body @ ?post) (length ?P + length ?body + 2) (length xs)
        (unat (le_word (le_bytes 2 (word_of_nat n :: u16)) :: u16))
        (map (\<lambda>delta. alp_reconstruct (le_word B + delta) (unat (word_of_nat e :: u8))
          (unat (word_of_nat f :: u8))) packed) =
      Ok (xs, length ?P + length ?body + 2 + length exc)"
      using x unfolding ue base le_word_bytes n .
  qed (use bounds ue uw in simp_all)
  moreover have "out = MODE_ALP # word_of_nat e # word_of_nat f # ?body @
      le_bytes 2 (word_of_nat n :: u16) @ exc"
    using out app [of "[MODE_ALP, word_of_nat e, word_of_nat f]"] by simp
  ultimately show ?thesis unfolding bytes by simp
qed

section \<open>RD chunks\<close>

lemma bit_rd_left:
  "bit (rd_left shift v) i \<longleftrightarrow> i < 16 \<and> bit v (shift + i)"
  by (auto simp: rd_left_def bit_ucast_iff bit_drop_bit_eq dest: bit_imp_le_length)

lemma rd_reassemble:
  assumes "48 \<le> shift" "shift < 64"
  shows "push_bit shift (ucast (rd_left shift v)) OR (v AND (push_bit shift 1 - 1)) = (v :: f64)"
proof (rule bit_word_eqI)
  fix i assume i: "i < LENGTH(64)"
  have "(push_bit shift 1 - 1 :: f64) = mask shift" by (simp add: mask_eq_exp_minus_1)
  then have right: "bit (v AND (push_bit shift 1 - 1)) i \<longleftrightarrow> i < shift \<and> bit v i"
    using i by (auto simp only: bit_and_iff bit_mask_iff dest: bit_imp_possible_bit)
  have left: "bit (push_bit shift (ucast (rd_left shift v) :: f64)) i \<longleftrightarrow>
      shift \<le> i \<and> i - shift < 16 \<and> bit v (shift + (i - shift))"
    using i by (auto simp only: bit_push_bit_iff bit_ucast_iff bit_rd_left)
      (auto dest: bit_imp_le_length)
  consider "i < shift" | "shift \<le> i" "i - shift < 16" "shift + (i - shift) = i"
    using i assms by (cases "i < shift") auto
  then show "bit (push_bit shift (ucast (rd_left shift v)) OR (v AND (push_bit shift 1 - 1))) i = bit v i"
    unfolding bit_or_iff left right by cases auto
qed

lemma position_of_Some: "position_of x dict = Some c \<Longrightarrow> c < length dict \<and> dict ! c = x"
  by (induction dict arbitrary: c) (auto split: if_splits)

lemma read_dict_at:
  "length (pre @ concat (map (le_bytes 2) dict) @ post) < 2 ^ 64 \<Longrightarrow>
   read_dict (pre @ concat (map (le_bytes 2) dict) @ post) (length pre) (length dict) acc =
     Ok (acc @ dict, length pre + 2 * length dict)"
proof (induction dict arbitrary: pre acc)
  case (Cons d dict)
  have "take_array 2 (pre @ le_bytes 2 d @ (concat (map (le_bytes 2) dict) @ post)) (length pre) =
      Ok (le_bytes 2 d, length pre + 2)"
    using Cons.prems by (intro take_two) simp
  moreover have "read_dict ((pre @ le_bytes 2 d) @ concat (map (le_bytes 2) dict) @ post)
      (length (pre @ le_bytes 2 d)) (length dict) (acc @ [d]) =
      Ok ((acc @ [d]) @ dict, length (pre @ le_bytes 2 d) + 2 * length dict)"
    using Cons.prems by (intro Cons.IH) simp
  ultimately show ?case by simp
qed simp

lemma decode_rd_exceptions_at:
  assumes "length ys = count" "s + length vs = count" "count \<le> CHUNK" "length rights = count"
    and "\<forall>i<length vs. push_bit shift (ucast (rd_left shift (vs ! i))) OR rights ! (s + i) = vs ! i"
    and "\<forall>i<length vs. position_of (rd_left shift (vs ! i)) dict \<noteq> None \<longrightarrow> ys ! (s + i) = vs ! i"
  defines "exs \<equiv> \<lambda>s vs. filter (\<lambda>(position, left). position_of left dict = None)
            (zip [s..<s + length vs] (map (rd_left shift) vs))"
  defines "body \<equiv> \<lambda>exs. concat (map (\<lambda>(position, left). le_bytes 2 (word_of_nat position :: u16) @
    le_bytes 2 (left :: u16)) exs)"
  assumes "length (pre @ body (exs s vs) @ post) < 2 ^ 64"
  shows "decode_rd_exceptions (pre @ body (exs s vs) @ post) (length pre) count shift rights
      (length (exs s vs)) ys = Ok (take s ys @ vs, length pre + length (body (exs s vs)))"
  using assms(1-6,9)
proof (induction vs arbitrary: s pre ys)
  case Nil
  then show ?case by (simp add: body_def exs_def)
next
  case (Cons v vs)
  let ?l = "rd_left shift v"
  have upt: "[s..<s + length (v # vs)] = s # [Suc s..<Suc s + length vs]"
    by (subst upt_rec) (simp del: upt_Suc)
  have exs: "exs s (v # vs) = (if position_of ?l dict = None then [(s, ?l)] else []) @ exs (Suc s) vs"
    unfolding exs_def upt by simp
  have rest: "\<forall>i<length vs. push_bit shift (ucast (rd_left shift (vs ! i))) OR rights ! (Suc s + i) = vs ! i"
    "\<forall>i<length vs. position_of (rd_left shift (vs ! i)) dict \<noteq> None \<longrightarrow> ys ! (Suc s + i) = vs ! i"
    using Cons.prems(5,6) by fastforce+
  have s: "s < count" using Cons.prems(2) by simp
  show ?case
  proof (cases "position_of ?l dict = None")
    case False
    have "ys ! s = v" using Cons.prems(6) False by (auto dest: spec [of _ 0])
    then have "take (Suc s) ys @ vs = take s ys @ v # vs"
      using s Cons.prems(1) by (simp add: take_Suc_conv_app_nth)
    moreover have e: "exs s (v # vs) = exs (Suc s) vs" using False by (simp only: exs if_False append_Nil)
    moreover have "decode_rd_exceptions (pre @ body (exs (Suc s) vs) @ post) (length pre) count shift rights
        (length (exs (Suc s) vs)) ys = Ok (take (Suc s) ys @ vs, length pre + length (body (exs (Suc s) vs)))"
      using Cons.prems rest unfolding e by (intro Cons.IH) simp_all
    ultimately show ?thesis by simp
  next
    case True
    let ?head = "le_bytes 2 (word_of_nat s :: u16) @ le_bytes 2 ?l"
    let ?rest = "body (exs (Suc s) vs)"
    let ?bytes = "pre @ ?head @ ?rest @ post"
    have b: "body (exs s (v # vs)) = ?head @ ?rest" using True by (simp add: exs body_def)
    have small: "length ?bytes < 2 ^ 64" using Cons.prems(7) unfolding b by simp
    have t1: "take_array 2 ?bytes (length pre) = Ok (le_bytes 2 (word_of_nat s :: u16), length pre + 2)"
      using small by (simp add: take_array_def)
    have t2: "take_array 2 ?bytes (length pre + 2) = Ok (le_bytes 2 ?l, length pre + 4)"
      using small by (simp add: take_array_def)
    have slot: "unat (word_of_nat s :: u16) = s" using s Cons.prems(3) by (simp add: CHUNK_def)
    have v: "push_bit shift (ucast ?l) OR rights ! s = v" using Cons.prems(5) by (auto dest: spec [of _ 0])
    have "decode_rd_exceptions ((pre @ ?head) @ ?rest @ post) (length (pre @ ?head)) count shift rights
        (length (exs (Suc s) vs)) (ys[s := v]) =
      Ok (take (Suc s) (ys[s := v]) @ vs, length (pre @ ?head) + length ?rest)"
      using Cons.prems rest small by (intro Cons.IH) (auto simp: nth_list_update)
    moreover have "take (Suc s) (ys[s := v]) @ vs = take s ys @ v # vs"
      using s Cons.prems(1) by (simp add: take_Suc_conv_app_nth)
    moreover have "length (exs s (v # vs)) = Suc (length (exs (Suc s) vs))" using True by (simp add: exs)
    ultimately show ?thesis
      using True t1 t2 slot s v unfolding b by (simp add: Let_def)
  qed
qed

lemma decode_rd_chunkI:
  assumes "take_u8 bs p1 = Ok (lw, p2)" "take_u8 bs p2 = Ok (dl, p3)"
    and "read_dict bs p3 (unat dl) [] = Ok (dict, p4)" "unpack_bits bs p4 n 3 = Ok (codes, p5)"
    and "unpack_bits bs p5 n (64 - unat lw) = Ok (rights, p6)"
    and "length codes = length rights" "\<And>i. i < length codes \<Longrightarrow> unat (codes ! i) < length dict"
    and "take_array 2 bs p6 = Ok (ex, p7)" "1 \<le> unat lw" "unat lw \<le> 16" "1 \<le> unat dl" "unat dl \<le> 8"
    and "decode_rd_exceptions bs p7 n (64 - unat lw) rights (unat (le_word ex :: u16))
      (map (\<lambda>(code, right). push_bit (64 - unat lw) (ucast (dict ! unat code)) OR right) (zip codes rights)) = r"
  shows "decode_rd_chunk bs p1 n = r"
proof -
  have "traverseR (\<lambda>(code, right). if unat code < length dict
      then Ok (push_bit (64 - unat lw) (ucast (dict ! unat code)) OR right)
      else Err (Invalid ''RD code past its dictionary'')) (zip codes rights) =
    Ok (map (\<lambda>(code, right). push_bit (64 - unat lw) (ucast (dict ! unat code)) OR right) (zip codes rights))"
    using assms(6,7) by (intro traverseR_Ok) (auto simp: in_set_zip)
  then show ?thesis
    using assms by (auto simp: decode_rd_chunk_def RD_LEFT_MAX_def RD_DICT_def Let_def)
qed

lemma rd_chunk:
  assumes "xs \<noteq> []" "length xs \<le> CHUNK" "length (pre @ encode_rd_chunk xs @ post) < 2 ^ 64"
  shows "\<exists>body. encode_rd_chunk xs = MODE_RD # body \<and>
    decode_rd_chunk (pre @ encode_rd_chunk xs @ post) (length pre + 1) (length xs) =
      Ok (xs, length pre + length (encode_rd_chunk xs))"
proof -
  obtain lw dict where cut: "choose_cut xs = (lw, dict)" by fastforce
  note cb = choose_cut_bounds [OF cut assms(1,2)]
  define shift where "shift = 64 - lw"
  define codes where "codes = map (\<lambda>v. case position_of (rd_left shift v) dict of
    Some code \<Rightarrow> word_of_nat code :: u64 | None \<Rightarrow> 0) xs"
  define rights where "rights = map (\<lambda>v. v AND (push_bit shift 1 - 1)) xs"
  define exs where "exs = filter (\<lambda>(position, left). position_of left dict = None)
    (zip [0..<length xs] (map (rd_left shift) xs))"
  define body where "body = concat (map (\<lambda>(position, left).
    le_bytes 2 (word_of_nat position :: u16) @ le_bytes 2 left) exs)"
  define ds where "ds = concat (map (le_bytes 2) dict)"
  have shift: "48 \<le> shift" "shift < 64" using cb by (auto simp: shift_def)
  have fc: "\<forall>v\<in>set codes. fits 3 v" and dc: "\<And>i. i < length xs \<Longrightarrow> unat (codes ! i) < length dict"
  proof -
    have c: "unat (case position_of l dict of Some code \<Rightarrow> word_of_nat code :: u64 | None \<Rightarrow> 0) < length dict" for l
      using cb position_of_Some [of l dict] by (auto split: option.splits)
    then show "\<And>i. i < length xs \<Longrightarrow> unat (codes ! i) < length dict" by (simp add: codes_def)
    show "\<forall>v\<in>set codes. fits 3 v"
      using c cb by (auto simp: codes_def fits_iff_less intro: less_le_trans)
  qed
  have fr: "\<forall>v\<in>set rights. fits shift v"
  proof -
    have "(push_bit shift 1 - 1 :: f64) = mask shift" by (simp add: mask_eq_exp_minus_1)
    then show ?thesis by (auto simp: rights_def fits_def bit_and_iff bit_mask_iff simp del: push_bit_of_1)
  qed
  let ?hd = "[MODE_RD, word_of_nat lw, word_of_nat (length dict)] @ ds"
  let ?C = "pack_bits [] codes 3" and ?R = "pack_bits [] rights shift"
  let ?E = "le_bytes 2 (word_of_nat (length exs) :: u16)"
  have w: "shift \<le> 64" using shift by simp
  have enc: "encode_rd_chunk xs = ?hd @ ?C @ ?R @ ?E @ body"
  proof -
    have "encode_rd_chunk xs = pack_bits (pack_bits ?hd codes 3) rights shift @ ?E @ body"
      using cut shift
      by (simp add: encode_rd_chunk_def Let_def shift_def codes_def rights_def exs_def body_def ds_def)
    also have "pack_bits (pack_bits ?hd codes 3) rights shift = ?hd @ ?C @ ?R"
      using length_pack_bits_append [OF w fr, of "pack_bits ?hd codes 3"]
        length_pack_bits_append [OF _ fc, of ?hd] by simp
    finally show ?thesis by simp
  qed
  let ?bytes = "pre @ ?hd @ ?C @ ?R @ ?E @ body @ post"
  have bytes: "pre @ encode_rd_chunk xs @ post = ?bytes" by (simp add: enc)
  have small: "length ?bytes < 2 ^ 64" using assms(3) unfolding bytes .
  have len: "length codes = length xs" "length rights = length xs" "length xs < 2 ^ 32"
    using assms(2) by (simp_all add: codes_def rights_def CHUNK_def)
  have u: "unat (word_of_nat lw :: u8) = lw" "unat (word_of_nat (length dict) :: u8) = length dict"
    using cb by simp_all
  have e1: "take_u8 ?bytes (length pre + 1) = Ok (word_of_nat lw, length pre + 2)"
    and e2: "take_u8 ?bytes (length pre + 2) = Ok (word_of_nat (length dict), length pre + 3)"
    by (simp_all add: take_u8_def nth_append)
  have e3: "read_dict ?bytes (length pre + 3) (unat (word_of_nat (length dict) :: u8)) [] =
      Ok (dict, length pre + 3 + length ds)"
    using read_dict_at [of "pre @ [MODE_RD, word_of_nat lw, word_of_nat (length dict)]" dict
        "?C @ ?R @ ?E @ body @ post" "[]"] small unfolding u ds_def
    by (simp add: length_concat comp_def sum_list_triv numeral_3_eq_3 mult.commute)
  have e4: "unpack_bits ?bytes (length pre + 3 + length ds) (length xs) 3 =
      Ok (codes, length pre + 3 + length ds + length ?C)"
    using unpack_pack_bits [OF _ fc, of "pre @ ?hd" "?R @ ?E @ body @ post"] small len by (simp add: numeral_3_eq_3)
  have e5: "unpack_bits ?bytes (length pre + 3 + length ds + length ?C) (length xs) (64 - unat (word_of_nat lw :: u8)) =
      Ok (rights, length pre + 3 + length ds + length ?C + length ?R)"
    using unpack_pack_bits [OF w fr, of "pre @ ?hd @ ?C" "?E @ body @ post"] small len
    unfolding u shift_def [symmetric] by (simp add: add.assoc numeral_3_eq_3)
  have e6: "take_array 2 ?bytes (length pre + 3 + length ds + length ?C + length ?R) =
      Ok (?E, length pre + 3 + length ds + length ?C + length ?R + 2)"
    using take_two [of "pre @ ?hd @ ?C @ ?R" "word_of_nat (length exs)" "body @ post"] small
    by (simp add: add.assoc numeral_3_eq_3)
  have "length exs \<le> length xs" unfolding exs_def by (rule order_trans [OF length_filter_le]) simp
  then have n: "unat (word_of_nat (length exs) :: u16) = length exs"
    using assms(2) by (simp add: CHUNK_def)
  let ?ys = "map (\<lambda>(code, right). push_bit shift (ucast (dict ! unat code)) OR right) (zip codes rights)"
  have re: "\<forall>i<length xs. push_bit shift (ucast (rd_left shift (xs ! i))) OR rights ! (0 + i) = xs ! i"
    using rd_reassemble [OF shift] by (simp add: rights_def)
  have known: "\<forall>i<length xs. position_of (rd_left shift (xs ! i)) dict \<noteq> None \<longrightarrow> ?ys ! (0 + i) = xs ! i"
  proof (intro allI impI)
    fix i assume i: "i < length xs" "position_of (rd_left shift (xs ! i)) dict \<noteq> None"
    then obtain c where c: "position_of (rd_left shift (xs ! i)) dict = Some c" by blast
    note pc = position_of_Some [OF c]
    then have "unat (word_of_nat c :: u64) = c" using cb by simp
    then show "?ys ! (0 + i) = xs ! i"
      using i c pc re len by (simp add: codes_def)
  qed
  have "decode_rd_exceptions ((pre @ ?hd @ ?C @ ?R @ ?E) @ body @ post) (length (pre @ ?hd @ ?C @ ?R @ ?E))
      (length xs) shift rights (length exs) ?ys =
    Ok (take 0 ?ys @ xs, length (pre @ ?hd @ ?C @ ?R @ ?E) + length body)"
    using decode_rd_exceptions_at [of ?ys "length xs" 0 xs rights shift dict "pre @ ?hd @ ?C @ ?R @ ?E" post]
      re known len assms(2) small unfolding exs_def body_def by simp
  then have x: "decode_rd_exceptions ?bytes (length pre + 3 + length ds + length ?C + length ?R + 2) (length xs)
      shift rights (length exs) ?ys =
    Ok (xs, length pre + 3 + length ds + length ?C + length ?R + 2 + length body)"
    by (simp add: add.assoc numeral_3_eq_3)
  have "decode_rd_chunk ?bytes (length pre + 1) (length xs) =
      Ok (xs, length pre + 3 + length ds + length ?C + length ?R + 2 + length body)"
  proof (rule decode_rd_chunkI [OF e1 e2 e3 e4 e5 _ _ e6])
    show "decode_rd_exceptions ?bytes (length pre + 3 + length ds + length ?C + length ?R + 2) (length xs)
        (64 - unat (word_of_nat lw :: u8)) rights (unat (le_word ?E :: u16))
        (map (\<lambda>(code, right). push_bit (64 - unat (word_of_nat lw :: u8)) (ucast (dict ! unat code)) OR right)
          (zip codes rights)) =
      Ok (xs, length pre + 3 + length ds + length ?C + length ?R + 2 + length body)"
      using x unfolding u shift_def [symmetric] le_word_bytes n .
  qed (use cb dc len u in simp_all)
  then show ?thesis unfolding bytes by (simp add: enc)
qed

section \<open>The dispatch\<close>

lemma decode_raw_at:
  "length (pre @ concat (map (le_bytes 8) xs) @ post) < 2 ^ 64 \<Longrightarrow>
   decode_raw (pre @ concat (map (le_bytes 8) xs) @ post) (length pre) (length xs) acc =
     Ok (acc @ xs, length pre + 8 * length xs)"
proof (induction xs arbitrary: pre acc)
  case (Cons d xs)
  have "take_array 8 (pre @ le_bytes 8 d @ (concat (map (le_bytes 8) xs) @ post)) (length pre) =
      Ok (le_bytes 8 d, length pre + 8)"
    using Cons.prems by (intro take_array_at) simp_all
  moreover have "decode_raw ((pre @ le_bytes 8 d) @ concat (map (le_bytes 8) xs) @ post)
      (length (pre @ le_bytes 8 d)) (length xs) (acc @ [d]) =
      Ok ((acc @ [d]) @ xs, length (pre @ le_bytes 8 d) + 8 * length xs)"
    using Cons.prems by (intro Cons.IH) simp
  ultimately show ?case by simp
qed simp

lemma alp_f64_chunk:
  assumes "xs \<noteq> []" "length xs \<le> CHUNK" "length (pre @ encode_alp_f64_chunk xs @ post) < 2 ^ 64"
  shows "decode_alp_f64_chunk (pre @ encode_alp_f64_chunk xs @ post) (length pre) (length xs) =
    Ok (xs, length pre + length (encode_alp_f64_chunk xs))"
proof -
  let ?enc = "encode_alp_f64_chunk xs"
  have "encode_alp_chunk xs = Some ?enc \<or> ?enc = encode_rd_chunk xs \<or> ?enc = encode_raw_chunk xs"
    unfolding encode_alp_f64_chunk_def Let_def by (cases "encode_alp_chunk xs") simp_all
  then consider (alp) "encode_alp_chunk xs = Some ?enc" | (rd) "?enc = encode_rd_chunk xs"
    | (raw) "?enc = encode_raw_chunk xs" by blast
  then show ?thesis
  proof cases
    case alp
    from alp_chunk [OF this assms(2,3)] obtain body where
      b: "?enc = MODE_ALP # body" "decode_alp_chunk (pre @ ?enc @ post) (length pre + 1) (length xs) =
        Ok (xs, length pre + length ?enc)" by blast
    have "take_u8 (pre @ ?enc @ post) (length pre) = Ok (MODE_ALP, length pre + 1)"
      using take_u8_at [of pre MODE_ALP "body @ post"] b(1) by simp
    then show ?thesis using b(2) by (simp add: decode_alp_f64_chunk_def)
  next
    case rd
    from rd_chunk [of xs pre post] assms rd obtain body where
      b: "?enc = MODE_RD # body" "decode_rd_chunk (pre @ ?enc @ post) (length pre + 1) (length xs) =
        Ok (xs, length pre + length ?enc)" by auto
    have "take_u8 (pre @ ?enc @ post) (length pre) = Ok (MODE_RD, length pre + 1)"
      using take_u8_at [of pre MODE_RD "body @ post"] b(1) by simp
    then show ?thesis using b(2) by (simp add: decode_alp_f64_chunk_def MODE_ALP_def MODE_RD_def)
  next
    case raw
    let ?body = "concat (map (le_bytes 8) xs)"
    have "take_u8 (pre @ ?enc @ post) (length pre) = Ok (MODE_RAW, length pre + 1)"
      using take_u8_at [of pre MODE_RAW "?body @ post"] raw by (simp add: encode_raw_chunk_def)
    moreover have "length ?body = 8 * length xs" by (simp add: length_concat comp_def sum_list_triv)
    ultimately show ?thesis
      using decode_raw_at [of "pre @ [MODE_RAW]" xs post "[]"] assms(3) raw
      by (simp add: decode_alp_f64_chunk_def MODE_ALP_def MODE_RD_def MODE_RAW_def encode_raw_chunk_def)
  qed
qed

text \<open>Any bytes decode to as many values as asked for, or to an error.\<close>

lemma decode_alp_exceptions_length:
  "decode_alp_exceptions bytes p n k ys = Ok (xs, q) \<Longrightarrow> length xs = length ys"
  by (induction bytes p n k ys rule: decode_alp_exceptions.induct) (auto simp: Let_def split: if_splits)

lemma decode_alp_exceptions_total: "decode_alp_exceptions bytes p n k ys \<noteq> Panic"
  by (induction bytes p n k ys rule: decode_alp_exceptions.induct) (auto simp: Let_def)

lemma decode_rd_exceptions_length:
  "decode_rd_exceptions bytes p n sh rs k ys = Ok (xs, q) \<Longrightarrow> length xs = length ys"
  by (induction bytes p n sh rs k ys rule: decode_rd_exceptions.induct) (auto simp: Let_def split: if_splits)

lemma decode_rd_exceptions_total: "decode_rd_exceptions bytes p n sh rs k ys \<noteq> Panic"
  by (induction bytes p n sh rs k ys rule: decode_rd_exceptions.induct) (auto simp: Let_def)

lemma decode_raw_length: "decode_raw bytes p k ys = Ok (xs, q) \<Longrightarrow> length xs = length ys + k"
  by (induction bytes p k ys rule: decode_raw.induct) auto

lemma decode_raw_total: "decode_raw bytes p k ys \<noteq> Panic"
  by (induction bytes p k ys rule: decode_raw.induct) auto

lemma read_dict_total: "read_dict bytes p k ys \<noteq> Panic"
  by (induction bytes p k ys rule: read_dict.induct) auto

lemma decode_alp_chunk_length: "decode_alp_chunk bytes p n = Ok (xs, q) \<Longrightarrow> length xs = n"
  by (auto simp: decode_alp_chunk_def Let_def not_less word_le_nat_alt split: if_splits
      dest!: decode_alp_exceptions_length unpack_bits_length)

lemma decode_alp_chunk_total: "decode_alp_chunk bytes p n \<noteq> Panic"
  by (auto simp: decode_alp_chunk_def Let_def not_less word_le_nat_alt decode_alp_exceptions_total
      unpack_bits_not_Panic split: if_splits)

lemma decode_rd_chunk_length: "decode_rd_chunk bytes p n = Ok (xs, q) \<Longrightarrow> length xs = n"
  by (auto simp: decode_rd_chunk_def Let_def split: if_splits
      dest!: decode_rd_exceptions_length unpack_bits_length traverseR_length)

lemma decode_rd_chunk_total: "decode_rd_chunk bytes p n \<noteq> Panic"
  by (auto simp: decode_rd_chunk_def Let_def decode_rd_exceptions_total unpack_bits_not_Panic read_dict_total
      split: if_splits dest!: traverseR_not_Panic [THEN notE, rotated])

interpretation alp: chunk_codec encode_alp_f64_chunk decode_alp_f64_chunk
  rewrites "encode_column_chunks encode_alp_f64_chunk = encode_alp_f64"
    and "decode_column_chunks decode_alp_f64_chunk = decode_alp_f64"
proof -
  show "chunk_codec encode_alp_f64_chunk decode_alp_f64_chunk"
  proof unfold_locales
    fix bytes position n xs q
    show "decode_alp_f64_chunk bytes position n = Ok (xs, q) \<Longrightarrow> length xs = n"
      by (auto simp: decode_alp_f64_chunk_def split: if_splits
          dest!: decode_alp_chunk_length decode_rd_chunk_length decode_raw_length)
    show "decode_alp_f64_chunk bytes position n \<noteq> Panic"
      by (auto simp: decode_alp_f64_chunk_def decode_alp_chunk_total decode_rd_chunk_total decode_raw_total
          split: if_splits)
  qed (rule alp_f64_chunk)
qed (simp_all add: fun_eq_iff encode_alp_f64_def decode_alp_f64_def)

section \<open>The table of inverses\<close>

text \<open>Every entry of \<open>INV10\<close> is the nearest double: within half a unit in its last place.\<close>

lemma INV10_nearest:
  "list_all (\<lambda>x. let (k, x) = x; m = int (f64_mantissa x); d = nat (- f64_scale x)
     in \<not> f64_sign x \<and> 2 ^ 52 \<le> m \<and> 2 * \<bar>m * 10 ^ k - 2 ^ d\<bar> \<le> 10 ^ k) (zip [0..<19] INV10)"
  unfolding INV10_def
  by (simp add: f64_mantissa_def f64_scale_def f64_exponent_def f64_fraction_def f64_sign_def upt_rec)

section \<open>Size\<close>

lemma encode_alp_f64_chunk_size: "length (encode_alp_f64_chunk xs) \<le> 1 + 8 * length xs"
proof -
  have "length (encode_raw_chunk xs) = 1 + 8 * length xs"
    by (simp add: encode_raw_chunk_def length_concat comp_def sum_list_triv)
  then show ?thesis
    unfolding encode_alp_f64_chunk_def Let_def by (cases "encode_alp_chunk xs") auto
qed

lemma div_ceil_step: "0 < n \<Longrightarrow> 0 < m \<Longrightarrow> div_ceil n m = Suc (div_ceil (n - m) m)"
proof -
  assume n: "0 < n" "0 < m"
  show ?thesis
  proof (cases "m \<le> n")
    case True
    then show ?thesis using n by (auto simp: div_ceil_def le_div_geq le_mod_geq)
  next
    case False
    then show ?thesis using n by (simp add: div_ceil_def)
  qed
qed

lemma encode_alp_f64_size: "length (encode_alp_f64 xs) \<le> 8 * length xs + div_ceil (length xs) CHUNK"
  unfolding encode_alp_f64_def
proof (induction "length xs" arbitrary: xs rule: less_induct)
  case less
  show ?case
  proof (cases "xs = []")
    case False
    have "length (encode_column_chunks encode_alp_f64_chunk (drop CHUNK xs)) \<le>
        8 * length (drop CHUNK xs) + div_ceil (length (drop CHUNK xs)) CHUNK"
      using False by (intro less.hyps) (auto simp: CHUNK_def)
    moreover have "div_ceil (length xs) CHUNK = Suc (div_ceil (length xs - CHUNK) CHUNK)"
      using False by (intro div_ceil_step) (auto simp: CHUNK_def)
    moreover have "8 * length xs = 8 * length (take CHUNK xs) + 8 * length (drop CHUNK xs)"
      by simp
    ultimately show ?thesis
      using encode_alp_f64_chunk_size [of "take CHUNK xs"] False
      by (simp add: encode_column_chunks_simps)
  qed (simp add: encode_column_chunks_simps div_ceil_def)
qed

section \<open>Properties\<close>

text \<open>
  C3: The ALP codec of \<open>f64\<close> columns is lossless bit for bit and never larger than the raw
  bytes but for one mode byte a chunk.  Whatever the encoder chooses for each chunk
  (decimal digits with exceptions, the RD cut, or raw bytes), decoding with the count
  gives back the same bit patterns: NaN payloads, signed zeros, subnormals and
  infinities included.
\<close>
theorem alp_roundtrip:
  assumes "length xs < 2 ^ 60"
  shows "decode_alp_f64 (encode_alp_f64 xs) (length xs) = Ok xs \<and>
    length (encode_alp_f64 xs) \<le> 8 * length xs + div_ceil (length xs) CHUNK"
proof -
  have "div_ceil (length xs) CHUNK \<le> Suc (length xs)"
    using div_le_dividend [of "length xs" CHUNK] by (auto simp: div_ceil_def le_SucI)
  then have "length (encode_alp_f64 xs) < 2 ^ 64"
    using encode_alp_f64_size [of xs] assms by simp
  then show ?thesis using alp.decode_encode encode_alp_f64_size by blast
qed

theorem alp_roundtrip_witness:
  "decode_alp_f64 (encode_alp_f64 [0x7FF8000000000001, 0x8000000000000000]) 2 =
     Ok [0x7FF8000000000001, 0x8000000000000000]"
proof -
  let ?xs = "[0x7FF8000000000001, 0x8000000000000000] :: f64 list"
  have "length ?xs = 2" "length ?xs < 2 ^ 60" by simp_all
  then show ?thesis using alp_roundtrip [of ?xs] by metis
qed


end
