(* ===== verification/Bitmap.thy ===== *)
theory Bitmap
  imports Prelude
begin

text \<open>
  The shared bitmap of \<^verbatim>\<open>src/arrow_lite/bitmap.rs\<close>: one bit per row, least significant bit
  first, padding bits zero.  The state is the struct's two fields; every method is one
  definition.  \<open>bits\<close> reads a bitmap as the list of booleans it stands for, and
  \<open>bitmap_ok\<close> is the canonical form the file's header promises.  The interface the rest of
  the engine relies on (masks of rows with Boolean operations) is the locale \<open>row_mask\<close>,
  interpreted here on the byte-level code.
\<close>

section \<open>The code\<close>

record bitmap =
  bm_bytes :: bytes
  bm_len :: nat

definition byte_len :: "nat \<Rightarrow> nat" where
  "byte_len len = div_ceil len 8"

definition tail_mask :: "nat \<Rightarrow> u8" where
  "tail_mask len = (if len mod 8 = 0 then 0xFF else push_bit (len mod 8) 1 - 1)"

text \<open>\<open>if let Some(last) = bytes.last_mut() { *last &= m }\<close>\<close>

definition mask_last :: "u8 \<Rightarrow> bytes \<Rightarrow> bytes" where
  "mask_last m bs = (if bs = [] then [] else butlast bs @ [last bs AND m])"

definition new_set :: "nat \<Rightarrow> bitmap" where
  "new_set len = \<lparr>bm_bytes = mask_last (tail_mask len) (replicate (byte_len len) 0xFF), bm_len = len\<rparr>"

definition new_unset :: "nat \<Rightarrow> bitmap" where
  "new_unset len = \<lparr>bm_bytes = replicate (byte_len len) 0, bm_len = len\<rparr>"

text \<open>The loop of \<open>from_bools\<close>: a byte is pushed at every eighth bit and set through
  \<open>last_mut\<close>.\<close>

fun from_bools_loop :: "bool list \<Rightarrow> bytes \<Rightarrow> nat \<Rightarrow> bitmap" where
  "from_bools_loop [] bytes len = \<lparr>bm_bytes = bytes, bm_len = len\<rparr>"
| "from_bools_loop (b # bs) bytes len =
     (let bytes = (if len mod 8 = 0 then bytes @ [0] else bytes);
          bytes = (if b then butlast bytes @ [last bytes OR push_bit (len mod 8) 1] else bytes)
      in from_bools_loop bs bytes (len + 1))"

definition from_bools :: "bool list \<Rightarrow> bitmap" where
  "from_bools bools = from_bools_loop bools [] 0"

definition bm_is_empty :: "bitmap \<Rightarrow> bool" where
  "bm_is_empty bm \<longleftrightarrow> bm_len bm = 0"

definition bm_get :: "bitmap \<Rightarrow> nat \<Rightarrow> ('e, bool) outcome" where
  "bm_get bm index =
     (if index < bm_len bm \<and> index div 8 < length (bm_bytes bm)
      then Ok ((bm_bytes bm ! (index div 8)) AND push_bit (index mod 8) 1 \<noteq> 0)
      else Panic)"

definition bm_set :: "bitmap \<Rightarrow> nat \<Rightarrow> bool \<Rightarrow> ('e, bitmap) outcome" where
  "bm_set bm index value =
     (if index < bm_len bm \<and> index div 8 < length (bm_bytes bm)
      then let mask = push_bit (index mod 8) 1; byte = bm_bytes bm ! (index div 8)
           in Ok (bm\<lparr>bm_bytes := (bm_bytes bm)[index div 8 :=
                (if value then byte OR mask else byte AND NOT mask)]\<rparr>)
      else Panic)"

definition count_ones :: "u8 \<Rightarrow> nat" where
  "count_ones b = length (filter (bit b) [0..<8])"

definition count_set :: "bitmap \<Rightarrow> nat" where
  "count_set bm = sum_list (map count_ones (bm_bytes bm))"

definition zip_bytes :: "(u8 \<Rightarrow> u8 \<Rightarrow> u8) \<Rightarrow> bitmap \<Rightarrow> bitmap \<Rightarrow> ('e, bitmap) outcome" where
  "zip_bytes op a b =
     (if bm_len a = bm_len b
      then Ok \<lparr>bm_bytes = map2 op (bm_bytes a) (bm_bytes b), bm_len = bm_len a\<rparr>
      else Panic)"

definition bm_and :: "bitmap \<Rightarrow> bitmap \<Rightarrow> ('e, bitmap) outcome" where
  "bm_and = zip_bytes (AND)"

definition bm_or :: "bitmap \<Rightarrow> bitmap \<Rightarrow> ('e, bitmap) outcome" where
  "bm_or = zip_bytes (OR)"

definition bm_not :: "bitmap \<Rightarrow> bitmap" where
  "bm_not bm = bm\<lparr>bm_bytes := mask_last (tail_mask (bm_len bm)) (map (\<lambda>b. NOT b) (bm_bytes bm))\<rparr>"

definition iter_set :: "bitmap \<Rightarrow> nat list" where
  "iter_set bm =
     concat (map (\<lambda>(byte_index, byte).
         map (\<lambda>bit. byte_index * 8 + bit) (filter (\<lambda>bit. byte AND push_bit bit 1 \<noteq> 0) [0..<8]))
       (filter (\<lambda>(_, byte). byte \<noteq> 0) (enumerate 0 (bm_bytes bm))))"

section \<open>What a bitmap stands for\<close>

definition bm_bit :: "bitmap \<Rightarrow> nat \<Rightarrow> bool" where
  "bm_bit bm i = bit (bm_bytes bm ! (i div 8)) (i mod 8)"

definition bits :: "bitmap \<Rightarrow> bool list" where
  "bits bm = map (bm_bit bm) [0..<bm_len bm]"

definition bitmap_ok :: "bitmap \<Rightarrow> bool" where
  "bitmap_ok bm \<longleftrightarrow> length (bm_bytes bm) = byte_len (bm_len bm) \<and>
     (\<forall>i \<in> set [bm_len bm..<8 * length (bm_bytes bm)]. \<not> bm_bit bm i)"

lemma length_bits [simp]: "length (bits bm) = bm_len bm"
  by (simp add: bits_def)

lemma nth_bits [simp]: "i < bm_len bm \<Longrightarrow> bits bm ! i = bm_bit bm i"
  by (simp add: bits_def)

lemma byte_len_bounds: "n \<le> 8 * byte_len n" "8 * byte_len n < n + 8"
proof -
  have "8 * (n div 8) + n mod 8 = n" by simp
  then show "n \<le> 8 * byte_len n" "8 * byte_len n < n + 8"
    by (cases "n mod 8 = 0"; simp add: byte_len_def div_ceil_def; linarith)+
qed

lemma byte_index_less: "i < n \<Longrightarrow> i div 8 < byte_len n"
  by (simp add: byte_len_def div_ceil_8_less)

lemma and_push_bit_1: "(b AND push_bit i 1 \<noteq> 0) = bit b i" for b :: "'a::len word"
  by (simp add: bit_iff_and_push_bit_not_eq_0)

lemma bit_tail_mask: "j < 8 \<Longrightarrow> bit (tail_mask n) j \<longleftrightarrow> n mod 8 = 0 \<or> j < n mod 8"
proof -
  assume j: "j < 8"
  have "push_bit k 1 - 1 = (mask k :: u8)" for k
    by (simp add: mask_eq_exp_minus_1 push_bit_of_1)
  moreover have "bit (0xFF :: u8) j"
  proof -
    have "(0xFF :: u8) = mask 8" by (simp add: mask_eq_exp_minus_1)
    then show ?thesis using j by (simp only: bit_mask_iff) simp
  qed
  ultimately show ?thesis using j by (auto simp: tail_mask_def bit_simps)
qed

lemma bitmap_okI:
  assumes "length (bm_bytes bm) = byte_len (bm_len bm)"
    and "\<And>i. bm_len bm \<le> i \<Longrightarrow> i < 8 * length (bm_bytes bm) \<Longrightarrow> \<not> bm_bit bm i"
  shows "bitmap_ok bm"
  using assms by (auto simp: bitmap_ok_def)

lemma bitmap_ok_length: "bitmap_ok bm \<Longrightarrow> length (bm_bytes bm) = byte_len (bm_len bm)"
  by (simp add: bitmap_ok_def)

lemma bitmap_ok_pad: "bitmap_ok bm \<Longrightarrow> bm_len bm \<le> i \<Longrightarrow> i < 8 * length (bm_bytes bm) \<Longrightarrow> \<not> bm_bit bm i"
  by (simp add: bitmap_ok_def)

text \<open>Canonical bitmaps are determined by what they stand for: equality works byte by byte.\<close>

lemma bits_inject:
  assumes "bitmap_ok a" "bitmap_ok b" and eq: "bits a = bits b"
  shows "a = b"
proof -
  have len: "bm_len a = bm_len b" using arg_cong [OF eq, of length] by simp
  have lb: "length (bm_bytes a) = length (bm_bytes b)"
    using assms(1,2) len by (simp add: bitmap_ok_length)
  have bit: "bm_bit a i = bm_bit b i" if "i < 8 * length (bm_bytes a)" for i
  proof (cases "i < bm_len a")
    case True
    then show ?thesis using eq len by (metis nth_bits)
  next
    case False
    then show ?thesis using assms(1,2) that len lb by (simp add: bitmap_ok_pad)
  qed
  have "bm_bytes a = bm_bytes b"
  proof (rule nth_equalityI [OF lb])
    fix k assume k: "k < length (bm_bytes a)"
    show "bm_bytes a ! k = bm_bytes b ! k"
    proof (rule bit_word_eqI)
      fix j assume j: "j < LENGTH(8)"
      have "(8 * k + j) div 8 = k" "(8 * k + j) mod 8 = j" using j by auto
      moreover have "8 * k + j < 8 * length (bm_bytes a)" using k j by simp
      ultimately show "bit (bm_bytes a ! k) j = bit (bm_bytes b ! k) j"
        using bit [of "8 * k + j"] by (simp add: bm_bit_def)
    qed
  qed
  then show ?thesis using len by (simp add: bitmap.equality)
qed

section \<open>Every operation, read through \<open>bits\<close>\<close>

text \<open>The bit at a position inside one byte list entry, for the updates below.\<close>

lemma bm_bit_update:
  assumes "index div 8 < length bs" "i div 8 < length bs"
  shows "bit (bs[index div 8 := x] ! (i div 8)) (i mod 8) \<longleftrightarrow>
    (if i div 8 = index div 8 then bit x (i mod 8) else bit (bs ! (i div 8)) (i mod 8))"
  using assms by (simp add: nth_list_update)

lemma div_mod_8_eq: "(i div 8 = k div 8 \<and> i mod 8 = k mod 8) \<longleftrightarrow> i = (k :: nat)"
  by (metis div_mult_mod_eq)

lemma less_8_mult: "i < 8 * n \<longleftrightarrow> i div 8 < (n :: nat)"
  by (simp add: div_less_iff_less_mult mult.commute)

text \<open>Reading a canonical bitmap off a pointwise description of its bytes.\<close>

lemma bitmap_by_bits:
  assumes "length bs = byte_len n"
    and "\<And>i. i < 8 * length bs \<Longrightarrow> bit (bs ! (i div 8)) (i mod 8) \<longleftrightarrow> i < n \<and> xs ! i"
    and "length xs = n"
  shows "bitmap_ok \<lparr>bm_bytes = bs, bm_len = n\<rparr>" "bits \<lparr>bm_bytes = bs, bm_len = n\<rparr> = xs"
proof -
  show "bitmap_ok \<lparr>bm_bytes = bs, bm_len = n\<rparr>"
    using assms by (intro bitmap_okI) (auto simp: bm_bit_def)
  show "bits \<lparr>bm_bytes = bs, bm_len = n\<rparr> = xs"
  proof (rule nth_equalityI)
    fix i assume "i < length (bits \<lparr>bm_bytes = bs, bm_len = n\<rparr>)"
    then have i: "i < n" by simp
    then have "i < 8 * length bs" using assms(1) byte_len_bounds(1) [of n] by simp
    then show "bits \<lparr>bm_bytes = bs, bm_len = n\<rparr> ! i = xs ! i"
      using i assms(2) by (simp add: bm_bit_def)
  qed (simp add: assms(3))
qed

lemma bit_mask_last:
  assumes "length bs = byte_len n" "i < 8 * length bs"
  shows "bit (mask_last (tail_mask n) bs ! (i div 8)) (i mod 8) \<longleftrightarrow>
    i < n \<and> bit (bs ! (i div 8)) (i mod 8)"
proof -
  have len: "length bs = byte_len n" and i: "i div 8 < length bs"
    using assms by (simp_all add: less_8_mult)
  then have ne: "bs \<noteq> []" by auto
  show ?thesis
  proof (cases "i div 8 = length bs - 1")
    case True
    have "mask_last (tail_mask n) bs ! (i div 8) = last bs AND tail_mask n"
      using True ne by (simp add: mask_last_def nth_append)
    moreover have "last bs = bs ! (i div 8)" using True ne by (simp add: last_conv_nth)
    moreover have "(n mod 8 = 0 \<or> i mod 8 < n mod 8) \<longleftrightarrow> i < n"
    proof -
      have eqs: "8 * (i div 8) + i mod 8 = i" "8 * (n div 8) + n mod 8 = n" by simp_all
      have r: "i mod 8 < 8" by simp
      show ?thesis
      proof (cases "n mod 8 = 0")
        case z: True
        then have "i div 8 + 1 = n div 8"
          using True i len by (simp add: byte_len_def div_ceil_def)
        then show ?thesis using z eqs r by linarith
      next
        case nz: False
        then have "i div 8 = n div 8"
          using True i len by (simp add: byte_len_def div_ceil_def)
        then show ?thesis using nz eqs by linarith
      qed
    qed
    ultimately show ?thesis by (auto simp: bit_and_iff bit_tail_mask)
  next
    case False
    have "i div 8 < length bs - 1" using False i by simp
    then have "mask_last (tail_mask n) bs ! (i div 8) = bs ! (i div 8)"
      using ne by (simp add: mask_last_def nth_append nth_butlast)
    moreover have "i < n"
    proof -
      have "i div 8 + 1 < byte_len n" using False i len by simp
      then show ?thesis using byte_len_bounds(2) [of n] by linarith
    qed
    ultimately show ?thesis by simp
  qed
qed

lemma length_mask_last [simp]: "length (mask_last m bs) = length bs"
  by (simp add: mask_last_def)

lemma new_set_bits: "bitmap_ok (new_set n)" "bits (new_set n) = replicate n True"
proof -
  let ?bs = "mask_last (tail_mask n) (replicate (byte_len n) 0xFF)"
  have ff: "bit (0xFF :: u8) j" if "j < 8" for j
    using bit_tail_mask [OF that, of 0] by (simp add: tail_mask_def)
  have "bit (?bs ! (i div 8)) (i mod 8) \<longleftrightarrow> i < n \<and> replicate n True ! i"
    if "i < 8 * length ?bs" for i
    using that bit_mask_last [of "replicate (byte_len n) 0xFF" n i] ff [of "i mod 8"]
    by (auto simp: less_8_mult)
  then have *: "\<And>i. i < 8 * length ?bs \<Longrightarrow>
      bit (?bs ! (i div 8)) (i mod 8) \<longleftrightarrow> i < n \<and> replicate n True ! i" by blast
  show "bitmap_ok (new_set n)" "bits (new_set n) = replicate n True"
    unfolding new_set_def by (rule bitmap_by_bits [OF _ *]; simp)+
qed

lemma new_unset_bits: "bitmap_ok (new_unset n)" "bits (new_unset n) = replicate n False"
proof -
  have *: "bit (replicate (byte_len n) (0 :: u8) ! (i div 8)) (i mod 8) \<longleftrightarrow>
      i < n \<and> replicate n False ! i"
    if "i < 8 * length (replicate (byte_len n) (0 :: u8))" for i
    using that by (auto simp: less_8_mult)
  show "bitmap_ok (new_unset n)" "bits (new_unset n) = replicate n False"
    unfolding new_unset_def by (rule bitmap_by_bits [OF _ *]; simp)+
qed

lemma bm_get_bits:
  assumes "bitmap_ok bm" "i < bm_len bm"
  shows "bm_get bm i = Ok (bits bm ! i)"
  using assms by (simp add: bm_get_def bitmap_ok_length byte_index_less and_exp_eq_0_iff_not_bit bm_bit_def)

lemma bm_set_bits:
  assumes "bitmap_ok bm" "i < bm_len bm"
  obtains bm' where "bm_set bm i v = Ok bm'" "bitmap_ok bm'" "bits bm' = (bits bm)[i := v]"
proof -
  let ?x = "if v then bm_bytes bm ! (i div 8) OR push_bit (i mod 8) 1
    else bm_bytes bm ! (i div 8) AND NOT (push_bit (i mod 8) 1)"
  let ?bs = "(bm_bytes bm)[i div 8 := ?x]"
  have lt: "i div 8 < length (bm_bytes bm)"
    using assms by (simp add: bitmap_ok_length byte_index_less)
  have x: "bit ?x j \<longleftrightarrow> (if j = i mod 8 then v else bit (bm_bytes bm ! (i div 8)) j)" if "j < 8" for j
    using that by (auto simp: bit_simps)
  have *: "bit (?bs ! (k div 8)) (k mod 8) \<longleftrightarrow> k < bm_len bm \<and> (bits bm)[i := v] ! k"
    if "k < 8 * length ?bs" for k
  proof -
    have old: "bit (bm_bytes bm ! (k div 8)) (k mod 8) \<longleftrightarrow> k < bm_len bm \<and> bits bm ! k"
      using bitmap_ok_pad [OF assms(1), of k] that by (cases "k < bm_len bm") (auto simp: bm_bit_def)
    show ?thesis
      using that lt x [of "k mod 8"] old assms(2) div_mod_8_eq [of k i]
      by (cases "k = i") (auto simp: less_8_mult bm_bit_update)
  qed
  have "bm_set bm i v = Ok (bm\<lparr>bm_bytes := ?bs\<rparr>)"
    using assms(2) lt by (simp add: bm_set_def Let_def)
  moreover have "bm\<lparr>bm_bytes := ?bs\<rparr> = \<lparr>bm_bytes = ?bs, bm_len = bm_len bm\<rparr>"
    by (simp add: bitmap.equality)
  moreover note bitmap_by_bits [OF _ *]
  ultimately show thesis using that assms(1) by (simp add: bitmap_ok_length)
qed

lemma zip_bytes_bits:
  assumes ok: "bitmap_ok a" "bitmap_ok b" and len: "bm_len a = bm_len b"
    and op: "\<And>x y j. j < 8 \<Longrightarrow> bit (op x y) j \<longleftrightarrow> f (bit x j) (bit y j)" and pad: "\<not> f False False"
  obtains c where "zip_bytes op a b = Ok c" "bitmap_ok c" "bits c = map2 f (bits a) (bits b)"
proof -
  let ?bs = "map2 op (bm_bytes a) (bm_bytes b)"
  have lb: "length (bm_bytes a) = length (bm_bytes b)" using ok len by (simp add: bitmap_ok_length)
  have *: "bit (?bs ! (i div 8)) (i mod 8) \<longleftrightarrow> i < bm_len a \<and> map2 f (bits a) (bits b) ! i"
    if "i < 8 * length ?bs" for i
  proof -
    have i: "i < 8 * length (bm_bytes a)" "i < 8 * length (bm_bytes b)" using that lb by simp_all
    then have "bit (?bs ! (i div 8)) (i mod 8) \<longleftrightarrow> f (bm_bit a i) (bm_bit b i)"
      by (simp add: less_8_mult op bm_bit_def)
    then show ?thesis
      using bitmap_ok_pad [OF ok(1) _ i(1)] bitmap_ok_pad [OF ok(2) _ i(2)] len pad
      by (cases "i < bm_len a") auto
  qed
  have "zip_bytes op a b = Ok \<lparr>bm_bytes = ?bs, bm_len = bm_len a\<rparr>" by (simp add: zip_bytes_def len)
  moreover note bitmap_by_bits [OF _ *]
  ultimately show thesis using that ok lb len by (simp add: bitmap_ok_length)
qed

lemma bm_and_bits:
  assumes "bitmap_ok a" "bitmap_ok b" "bm_len a = bm_len b"
  obtains c where "bm_and a b = Ok c" "bitmap_ok c" "bits c = map2 (\<and>) (bits a) (bits b)"
  unfolding bm_and_def by (rule zip_bytes_bits [OF assms, of "(AND)" "(\<and>)"]) (auto simp: bit_and_iff)

lemma bm_or_bits:
  assumes "bitmap_ok a" "bitmap_ok b" "bm_len a = bm_len b"
  obtains c where "bm_or a b = Ok c" "bitmap_ok c" "bits c = map2 (\<or>) (bits a) (bits b)"
  unfolding bm_or_def by (rule zip_bytes_bits [OF assms, of "(OR)" "(\<or>)"]) (auto simp: bit_or_iff)

lemma bm_not_bits:
  assumes "bitmap_ok bm"
  shows "bitmap_ok (bm_not bm)" "bits (bm_not bm) = map Not (bits bm)"
proof -
  let ?bs = "mask_last (tail_mask (bm_len bm)) (map (\<lambda>b. NOT b) (bm_bytes bm))"
  have eq: "bm_not bm = \<lparr>bm_bytes = ?bs, bm_len = bm_len bm\<rparr>"
    by (simp add: bm_not_def bitmap.equality)
  have len: "length (bm_bytes bm) = byte_len (bm_len bm)" using assms by (rule bitmap_ok_length)
  have *: "bit (?bs ! (i div 8)) (i mod 8) \<longleftrightarrow> i < bm_len bm \<and> map Not (bits bm) ! i"
    if "i < 8 * length ?bs" for i
    using that len bit_mask_last [of "map (\<lambda>b. NOT b) (bm_bytes bm)" "bm_len bm" i]
    by (auto simp: less_8_mult bit_not_iff bm_bit_def)
  show "bitmap_ok (bm_not bm)" "bits (bm_not bm) = map Not (bits bm)"
    unfolding eq by (rule bitmap_by_bits [OF _ *]; simp add: len)+
qed

text \<open>\<open>from_bools\<close>: each turn of the loop appends one bit to a canonical bitmap.\<close>

lemma butlast_last_update: "length xs = k + 1 \<Longrightarrow> butlast xs @ [f (last xs)] = xs[k := f (xs ! k)]"
  by (cases xs rule: rev_cases) (auto simp: nth_append)

lemma from_bools_step:
  assumes ok: "bitmap_ok \<lparr>bm_bytes = bs, bm_len = n\<rparr>"
    and bs0_def: "bs0 = (if n mod 8 = 0 then bs @ [0] else bs)"
    and bs1_def: "bs1 = (if b then butlast bs0 @ [last bs0 OR push_bit (n mod 8) 1] else bs0)"
  shows "bitmap_ok \<lparr>bm_bytes = bs1, bm_len = n + 1\<rparr>"
    "bits \<lparr>bm_bytes = bs1, bm_len = n + 1\<rparr> = bits \<lparr>bm_bytes = bs, bm_len = n\<rparr> @ [b]"
proof -
  let ?bm = "\<lparr>bm_bytes = bs, bm_len = n\<rparr>"
  have len: "length bs = byte_len n" using bitmap_ok_length [OF ok] by simp
  have len0: "length bs0 = n div 8 + 1"
    using len by (simp add: bs0_def byte_len_def div_ceil_def)
  then have ne: "bs0 \<noteq> []" by auto
  have upd: "bs1 = bs0[n div 8 := (if b then bs0 ! (n div 8) OR push_bit (n mod 8) 1 else bs0 ! (n div 8))]"
    using butlast_last_update [OF len0, of "\<lambda>x. x OR push_bit (n mod 8) 1"] by (simp add: bs1_def)
  have len1: "length bs1 = byte_len (n + 1)"
    using len0 upd by (simp add: byte_len_def div_ceil_def mod_Suc div_Suc)
  have old: "bit (bs0 ! (i div 8)) (i mod 8) \<longleftrightarrow> i < n \<and> bits ?bm ! i" if "i < 8 * length bs0" for i
  proof (cases "i < 8 * length bs")
    case True
    then have "bs0 ! (i div 8) = bs ! (i div 8)" by (simp add: bs0_def nth_append less_8_mult)
    then show ?thesis
      using bitmap_ok_pad [OF ok, of i] True by (cases "i < n") (auto simp: bm_bit_def)
  next
    case False
    then have "n \<le> i" using byte_len_bounds(1) [of n] len by simp
    moreover have "bs0 ! (i div 8) = 0"
      using False that by (auto simp: bs0_def nth_append less_8_mult split: if_splits)
    ultimately show ?thesis by simp
  qed
  have *: "bit (bs1 ! (i div 8)) (i mod 8) \<longleftrightarrow> i < n + 1 \<and> (bits ?bm @ [b]) ! i"
    if "i < 8 * length bs1" for i
  proof -
    have i: "i < 8 * length bs0" using that upd by simp
    have j: "i div 8 < length bs0" using i by (simp add: less_8_mult)
    have eq: "bit (bs1 ! (i div 8)) (i mod 8) \<longleftrightarrow> (if i = n then b else bit (bs0 ! (i div 8)) (i mod 8))"
    proof (cases "i div 8 = n div 8")
      case False
      then show ?thesis using upd by auto
    next
      case True
      then have "bs1 ! (i div 8) = (if b then bs0 ! (i div 8) OR push_bit (n mod 8) 1 else bs0 ! (i div 8))"
        unfolding upd using j by simp
      moreover have "i mod 8 = n mod 8 \<longleftrightarrow> i = n" using div_mod_8_eq [of i n] True by simp
      moreover have "\<not> bit (bs0 ! (n div 8)) (n mod 8)"
        using old [of n] len0 by (simp add: less_8_mult)
      ultimately show ?thesis using True by (cases b) (auto simp: bit_or_iff bit_exp_iff)
    qed
    show ?thesis using eq old [OF i] by (auto simp: nth_append less_Suc_eq)
  qed
  show "bitmap_ok \<lparr>bm_bytes = bs1, bm_len = n + 1\<rparr>"
    "bits \<lparr>bm_bytes = bs1, bm_len = n + 1\<rparr> = bits ?bm @ [b]"
    by (rule bitmap_by_bits [OF len1 *]; simp)+
qed

lemma from_bools_loop_bits:
  assumes "bitmap_ok \<lparr>bm_bytes = bs, bm_len = n\<rparr>"
  shows "bitmap_ok (from_bools_loop xs bs n) \<and>
    bits (from_bools_loop xs bs n) = bits \<lparr>bm_bytes = bs, bm_len = n\<rparr> @ xs"
  using assms
proof (induction xs arbitrary: bs n)
  case Nil
  then show ?case by simp
next
  case (Cons x xs)
  note step = from_bools_step [OF Cons.prems refl refl, of x]
  show ?case using Cons.IH [OF step(1)] step(2) by (simp add: Let_def)
qed

lemma from_bools_bits [simp]: "bitmap_ok (from_bools xs)" "bits (from_bools xs) = xs"
proof -
  have "bitmap_ok \<lparr>bm_bytes = [], bm_len = 0\<rparr>"
    by (rule bitmap_okI) (simp_all add: byte_len_def div_ceil_def)
  from from_bools_loop_bits [OF this, of xs]
  show "bitmap_ok (from_bools xs)" "bits (from_bools xs) = xs"
    by (simp_all add: from_bools_def bits_def)
qed

lemma bm_len_from_bools [simp]: "bm_len (from_bools xs) = length xs"
  by (metis from_bools_bits(2) length_bits)

lemma from_bools_of_bits: "bitmap_ok bm \<Longrightarrow> from_bools (bits bm) = bm"
  by (rule bits_inject) simp_all

text \<open>The fallible operations as equations: the result is the bitmap of the pointwise list.\<close>

lemma bm_and_eq:
  assumes "bitmap_ok a" "bitmap_ok b" "bm_len a = bm_len b"
  shows "bm_and a b = Ok (from_bools (map2 (\<and>) (bits a) (bits b)))"
  by (rule bm_and_bits [OF assms]) (use from_bools_of_bits in force)

lemma bm_or_eq:
  assumes "bitmap_ok a" "bitmap_ok b" "bm_len a = bm_len b"
  shows "bm_or a b = Ok (from_bools (map2 (\<or>) (bits a) (bits b)))"
  by (rule bm_or_bits [OF assms]) (use from_bools_of_bits in force)

lemma bm_set_eq:
  assumes "bitmap_ok bm" "i < bm_len bm"
  shows "bm_set bm i v = Ok (from_bools ((bits bm)[i := v]))"
  by (rule bm_set_bits [OF assms, of v]) (use from_bools_of_bits in force)

text \<open>Counting and enumerating the set bits.\<close>

lemma iter_set_offset:
  "concat (map (\<lambda>(k, byte). map (\<lambda>bit. k * 8 + bit) (filter (\<lambda>bit. byte AND push_bit bit 1 \<noteq> 0) [0..<8]))
       (filter (\<lambda>(_, byte). byte \<noteq> 0) (enumerate s bs))) =
   filter (\<lambda>i. bit (bs ! (i div 8 - s)) (i mod 8)) [8 * s..<8 * (s + length bs)]"
proof (induction bs arbitrary: s)
  case Nil
  then show ?case by simp
next
  case (Cons b bs)
  let ?sel = "\<lambda>bit. b AND push_bit bit 1 \<noteq> 0"
  let ?P = "\<lambda>i. bit ((b # bs) ! (i div 8 - s)) (i mod 8)"
  have hd: "map (\<lambda>bit. s * 8 + bit) (filter ?sel [0..<8]) = filter ?P [8 * s..<8 * s + 8]"
  proof -
    have "[8 * s..<8 * s + 8] = map (\<lambda>bit. s * 8 + bit) [0..<8]"
      using map_shift_upt [of "8 * s" 8] by (simp add: mult.commute)
    moreover have "filter ?sel [0..<8] = filter (?P \<circ> (\<lambda>bit. s * 8 + bit)) [0..<8]"
      by (rule filter_cong) (auto simp: and_exp_eq_0_iff_not_bit)
    ultimately show ?thesis by (simp add: filter_map)
  qed
  have tl: "filter (\<lambda>i. bit (bs ! (i div 8 - Suc s)) (i mod 8)) [8 * Suc s..<8 * (Suc s + length bs)] =
      filter ?P [8 * Suc s..<8 * (s + length (b # bs))]"
  proof (rule filter_cong)
    fix i assume "i \<in> set [8 * Suc s..<8 * (s + length (b # bs))]"
    then have "Suc s \<le> i div 8" by (simp add: less_eq_div_iff_mult_less_eq mult.commute)
    then have "i div 8 - s = Suc (i div 8 - Suc s)" by simp
    then show "bit (bs ! (i div 8 - Suc s)) (i mod 8) = ?P i" by simp
  qed simp
  have zero: "filter ?sel [0..<8] = []" if "b = 0" using that by simp
  have "[8 * s..<8 * (s + length (b # bs))] = [8 * s..<8 * s + 8] @ [8 * Suc s..<8 * (s + length (b # bs))]"
    using upt_split [of "8 * s" "8 * s + 8" "8 * (s + length (b # bs))"] by (simp add: add.commute)
  then show ?case using hd tl Cons.IH [of "Suc s"] zero by (cases "b = 0") auto
qed

lemma iter_set_bits:
  assumes "bitmap_ok bm"
  shows "iter_set bm = filter (\<lambda>i. bits bm ! i) [0..<bm_len bm]"
proof -
  let ?n = "8 * length (bm_bytes bm)"
  have n: "bm_len bm \<le> ?n" using assms byte_len_bounds(1) by (simp add: bitmap_ok_length)
  have "iter_set bm = filter (bm_bit bm) [0..<?n]"
    using iter_set_offset [of 0 "bm_bytes bm"] by (simp add: iter_set_def bm_bit_def [abs_def])
  also have "\<dots> = filter (bm_bit bm) [0..<bm_len bm] @ filter (bm_bit bm) [bm_len bm..<?n]"
    using upt_split [of 0 "bm_len bm" ?n] n by simp
  also have "filter (bm_bit bm) [bm_len bm..<?n] = []"
    using assms by (auto simp: filter_empty_conv bitmap_ok_pad)
  also have "filter (bm_bit bm) [0..<bm_len bm] = filter (\<lambda>i. bits bm ! i) [0..<bm_len bm]"
    by (rule filter_cong) simp_all
  finally show ?thesis by simp
qed

lemma count_set_iter_set: "count_set bm = length (iter_set bm)"
proof -
  have "sum_list (map count_ones bs) = length (concat (map (\<lambda>(k, byte).
         map (\<lambda>bit. k * 8 + bit) (filter (\<lambda>bit. byte AND push_bit bit 1 \<noteq> 0) [0..<8]))
       (filter (\<lambda>(_, byte). byte \<noteq> 0) (enumerate s bs))))" for s and bs :: bytes
  proof (induction bs arbitrary: s)
    case Nil
    then show ?case by simp
  next
    case (Cons b bs)
    have "count_ones b = length (filter (\<lambda>j. b AND push_bit j 1 \<noteq> 0) [0..<8])"
      unfolding count_ones_def
      by (rule arg_cong [of _ _ length], rule filter_cong) (auto simp: and_exp_eq_0_iff_not_bit)
    moreover have "count_ones b = 0" if "b = 0" using that by (simp add: count_ones_def)
    ultimately show ?case using Cons.IH [of "Suc s"] by auto
  qed
  then show ?thesis by (simp add: count_set_def iter_set_def)
qed

lemma count_set_bits:
  assumes "bitmap_ok bm"
  shows "count_set bm = length (filter id (bits bm))"
proof -
  have "filter id (bits bm) = map (\<lambda>i. bits bm ! i) (filter (\<lambda>i. bits bm ! i) [0..<bm_len bm])"
    by (metis (no_types, lifting) filter_cong filter_map id_comp id_def length_bits map_nth comp_def)
  then show ?thesis by (simp add: count_set_iter_set iter_set_bits [OF assms])
qed

section \<open>The interface: masks of rows\<close>

text \<open>
  What the layers above rely on.  A mask is as good as the list of booleans it stands for:
  \<open>mk\<close> builds the mask of a list, \<open>rd\<close> reads it back, and each operation is the pointwise
  one.  From these laws alone the masks form a Boolean algebra, as equalities between masks
  and not only between what they stand for, and counting is additive.
\<close>

locale row_mask =
  fixes mk :: "bool list \<Rightarrow> 'm"
    and rd :: "'m \<Rightarrow> bool list"
    and ok :: "'m \<Rightarrow> bool"
    and get :: "'m \<Rightarrow> nat \<Rightarrow> ('e, bool) outcome"
    and conj :: "'m \<Rightarrow> 'm \<Rightarrow> ('e, 'm) outcome"
    and disj :: "'m \<Rightarrow> 'm \<Rightarrow> ('e, 'm) outcome"
    and neg :: "'m \<Rightarrow> 'm"
    and count :: "'m \<Rightarrow> nat"
  assumes ok_mk [simp, intro]: "ok (mk xs)"
    and rd_mk [simp]: "rd (mk xs) = xs"
    and mk_rd [simp]: "ok m \<Longrightarrow> mk (rd m) = m"
    and get_eq: "ok m \<Longrightarrow> i < length (rd m) \<Longrightarrow> get m i = Ok (rd m ! i)"
    and conj_eq: "ok a \<Longrightarrow> ok b \<Longrightarrow> length (rd a) = length (rd b) \<Longrightarrow>
      conj a b = Ok (mk (map2 (\<and>) (rd a) (rd b)))"
    and disj_eq: "ok a \<Longrightarrow> ok b \<Longrightarrow> length (rd a) = length (rd b) \<Longrightarrow>
      disj a b = Ok (mk (map2 (\<or>) (rd a) (rd b)))"
    and neg_eq: "ok m \<Longrightarrow> neg m = mk (map Not (rd m))"
    and count_eq: "ok m \<Longrightarrow> count m = length (filter id (rd m))"
begin

lemma neg_neg: "ok m \<Longrightarrow> neg (neg m) = m"
  by (simp add: neg_eq comp_def)

lemma de_morgan_conj:
  assumes "ok a" "ok b" "length (rd a) = length (rd b)"
  shows "mapR neg (conj a b) = disj (neg a) (neg b)"
  using assms by (simp add: conj_eq disj_eq neg_eq zip_map_map case_prod_unfold comp_def)

lemma de_morgan_disj:
  assumes "ok a" "ok b" "length (rd a) = length (rd b)"
  shows "mapR neg (disj a b) = conj (neg a) (neg b)"
  using assms by (simp add: conj_eq disj_eq neg_eq zip_map_map case_prod_unfold comp_def)

lemma count_neg: "ok m \<Longrightarrow> count m + count (neg m) = length (rd m)"
  using sum_length_filter_compl [of id "rd m"]
  by (simp add: count_eq neg_eq filter_map comp_def)

lemma count_inclusion_exclusion:
  assumes "ok a" "ok b" "length (rd a) = length (rd b)" "conj a b = Ok c" "disj a b = Ok d"
  shows "count c + count d = count a + count b"
proof -
  have "length (filter id (map2 (\<and>) xs ys)) + length (filter id (map2 (\<or>) xs ys)) =
      length (filter id xs) + length (filter id ys)" if "length xs = length ys" for xs ys
    using that by (induction xs ys rule: list_induct2) auto
  from this [OF assms(3)] show ?thesis using assms by (auto simp: conj_eq disj_eq count_eq)
qed

end

interpretation bm: row_mask from_bools bits bitmap_ok bm_get bm_and bm_or bm_not count_set
proof
  fix a b :: bitmap
  assume ab: "bitmap_ok a" "bitmap_ok b" "length (bits a) = length (bits b)"
  then have len: "bm_len a = bm_len b" by simp
  show "bm_and a b = Ok (from_bools (map2 (\<and>) (bits a) (bits b)))"
    by (rule bm_and_eq [OF ab(1,2) len])
  show "bm_or a b = Ok (from_bools (map2 (\<or>) (bits a) (bits b)))"
    by (rule bm_or_eq [OF ab(1,2) len])
next
  fix m :: bitmap
  assume "bitmap_ok m"
  then show "bm_not m = from_bools (map Not (bits m))"
    by (metis bm_not_bits from_bools_of_bits)
qed (simp_all add: from_bools_of_bits bm_get_bits count_set_bits)

section \<open>Properties\<close>

text \<open>De Morgan's law holds on the bytes: negating the AND of two canonical bitmaps of one
  length gives exactly the bitmap that the OR of the negations gives, padding included.\<close>

theorem bitmap_de_morgan:
  assumes "bitmap_ok a" "bitmap_ok b" "bm_len a = bm_len b"
  shows "mapR bm_not (bm_and a b) = bm_or (bm_not a) (bm_not b)"
  using assms by (intro bm.de_morgan_conj) simp_all

theorem bitmap_de_morgan_witness:
  "mapR bm_not (bm_and (new_set 11) (new_unset 11)) = bm_or (bm_not (new_set 11)) (bm_not (new_unset 11))"
  using bitmap_de_morgan [OF new_set_bits(1) new_unset_bits(1)] by (simp add: new_set_def new_unset_def)

text \<open>On a canonical bitmap \<open>iter_set\<close> yields exactly the indices below the length whose bit
  \<open>get\<close> reads as set, in increasing order and each once, and \<open>count_set\<close> is their number.\<close>

theorem bitmap_iter_count:
  assumes "bitmap_ok bm"
  shows "sorted (iter_set bm) \<and> distinct (iter_set bm) \<and>
    set (iter_set bm) = {i. i < bm_len bm \<and> bm_get bm i = (Ok True :: ('e, bool) outcome)} \<and>
    count_set bm = card (set (iter_set bm))"
proof -
  have it: "iter_set bm = filter (\<lambda>i. bits bm ! i) [0..<bm_len bm]"
    using assms by (rule iter_set_bits)
  have "distinct (iter_set bm)" by (simp add: it)
  moreover have "bm_get bm i = (Ok True :: ('e, bool) outcome) \<longleftrightarrow> bits bm ! i" if "i < bm_len bm" for i
    using assms that by (simp add: bm_get_bits)
  ultimately show ?thesis
    by (auto simp: count_set_iter_set distinct_card) (auto simp: it sorted_wrt_filter)
qed

theorem bitmap_iter_count_witness:
  "set (iter_set (from_bools [True, False, True])) =
     {i. i < length [True, False, True] \<and> bm_get (from_bools [True, False, True]) i = (Ok True :: (unit, bool) outcome)}"
  using bitmap_iter_count [of "from_bools [True, False, True]", where ?'e = unit] by (simp del: length_Cons)

text \<open>\<open>set\<close> keeps a bitmap canonical, panics on exactly the indices outside the length, and
  changes exactly the bit it names: reading any index back gives the new value there and the
  old one elsewhere.\<close>

theorem bitmap_set_get:
  assumes "bitmap_ok bm"
  shows "(case (bm_set bm i v :: ('e, bitmap) outcome) of
      Ok bm' \<Rightarrow> i < bm_len bm \<and> bitmap_ok bm' \<and> bm_len bm' = bm_len bm \<and>
        (\<forall>j < bm_len bm. bm_get bm' j = (if j = i then Ok v else (bm_get bm j :: ('e, bool) outcome)))
    | Err e \<Rightarrow> False
    | Panic \<Rightarrow> bm_len bm \<le> i)"
proof (cases "i < bm_len bm")
  case True
  then show ?thesis using assms by (simp add: bm_set_eq bm_get_bits del: nth_bits)
next
  case False
  then show ?thesis by (simp add: bm_set_def)
qed

theorem bitmap_set_get_witness:
  "(case (bm_set (new_unset 10) 9 True :: (unit, bitmap) outcome) of
      Ok bm' \<Rightarrow> bm_get bm' 9 = (Ok True :: (unit, bool) outcome) | _ \<Rightarrow> False)"
  using bitmap_set_get [OF new_unset_bits(1) [of 10], of 9 True, where ?'e = unit]
  by (simp add: new_unset_def split: outcome.splits)

end
