(* ===== verification/Dictionary.thy ===== *)
theory Dictionary
  imports Prelude
begin

text \<open>
  The interning table of \<^verbatim>\<open>src/arrow_lite/key.rs\<close>: distinct strings in the Arrow Utf8
  layout (offsets and concatenated bytes) with a lookup index, and the interface the key
  columns, the segment decoder and the write buffer use, as the locale \<open>interner\<close>.
  \<open>dict_of\<close> lays out a list of distinct strings; \<open>dict_ok\<close> says that a dictionary is the
  layout of the strings it renders.
\<close>

section \<open>The code\<close>

record dictionary =
  d_offsets :: "i32 list"
  d_bytes :: bytes
  d_index :: "rstring \<rightharpoonup> u32"

definition dict_new :: dictionary where
  "dict_new = \<lparr>d_offsets = [0], d_bytes = [], d_index = Map.empty\<rparr>"

definition dict_len :: "dictionary \<Rightarrow> nat" where
  "dict_len d = length (d_offsets d) - 1"

definition dict_is_empty :: "dictionary \<Rightarrow> bool" where
  "dict_is_empty d \<longleftrightarrow> dict_len d = 0"

text \<open>A new code, and the new end offset, must fit their types; both \<open>expect\<close>s come before
  anything is written.\<close>

definition dict_intern :: "dictionary \<Rightarrow> rstring \<Rightarrow> ('e, dictionary \<times> u32) outcome" where
  "dict_intern d value =
     (case d_index d value of
        Some code \<Rightarrow> Ok (d, code)
      | None \<Rightarrow>
          if dict_len d < 2 ^ 32 then
            (let code = word_of_nat (dict_len d);
                 end = length (d_bytes d) + length value
             in if end < 2 ^ 31 then
                  Ok (\<lparr>d_offsets = d_offsets d @ [word_of_nat end],
                       d_bytes = d_bytes d @ value,
                       d_index = (d_index d)(value \<mapsto> code)\<rparr>, code)
                else Panic)
          else Panic)"

definition dict_code_of :: "dictionary \<Rightarrow> rstring \<Rightarrow> u32 option" where
  "dict_code_of d value = d_index d value"

definition i32_as_usize :: "i32 \<Rightarrow> nat" where
  "i32_as_usize offset = unat (scast offset :: u64)"

definition dict_value :: "dictionary \<Rightarrow> u32 \<Rightarrow> ('e, rstring) outcome" where
  "dict_value d code =
     (let i = unat code
      in if i < dict_len d then
           (let start = i32_as_usize (d_offsets d ! i); end = i32_as_usize (d_offsets d ! (i + 1))
            in if start \<le> end \<and> end \<le> length (d_bytes d) then
                 (let value = take (end - start) (drop start (d_bytes d))
                  in if valid_utf8 value then Ok value else Panic)
               else Panic)
         else Panic)"

section \<open>The layout of a list of strings\<close>

definition dict_of :: "rstring list \<Rightarrow> dictionary" where
  "dict_of vs =
     \<lparr>d_offsets = map (\<lambda>k. word_of_nat (length (concat (take k vs)))) [0..<Suc (length vs)],
      d_bytes = concat vs,
      d_index = map_of (zip vs (map word_of_nat [0..<length vs]))\<rparr>"

definition dict_fits :: "rstring list \<Rightarrow> bool" where
  "dict_fits vs \<longleftrightarrow> distinct vs \<and> (\<forall>v\<in>set vs. valid_utf8 v) \<and> length (concat vs) < 2 ^ 31 \<and>
     length vs \<le> 2 ^ 32"

definition dict_names :: "dictionary \<Rightarrow> rstring list" where
  "dict_names d = map (\<lambda>i. take (i32_as_usize (d_offsets d ! (i + 1)) - i32_as_usize (d_offsets d ! i))
     (drop (i32_as_usize (d_offsets d ! i)) (d_bytes d))) [0..<dict_len d]"

definition dict_ok :: "dictionary \<Rightarrow> bool" where
  "dict_ok d \<longleftrightarrow> d = dict_of (dict_names d) \<and> dict_fits (dict_names d)"

lemma dict_len_of [simp]: "dict_len (dict_of vs) = length vs"
  by (simp add: dict_len_def dict_of_def)

lemma dict_new_of: "dict_new = dict_of []"
  by (simp add: dict_new_def dict_of_def)

lemma dict_fits_Nil [simp]: "dict_fits []"
  by (simp add: dict_fits_def)

lemma i32_as_usize_nat [simp]:
  assumes "n < 2 ^ 31"
  shows "i32_as_usize (word_of_nat n) = n"
proof -
  have high: "\<not> bit n k" if "31 \<le> k" for k
  proof -
    have "(2 :: nat) ^ 31 \<le> 2 ^ k" using that by (rule power_increasing) simp
    then show ?thesis using assms by (simp add: bit_iff_odd)
  qed
  have "(scast (word_of_nat n :: i32) :: u64) = word_of_nat n"
    by (rule bit_word_eqI) (auto simp: bit_simps min_def high not_le)
  then show ?thesis using assms unfolding i32_as_usize_def by (simp add: unat_of_nat)
qed

lemma length_concat_take_le: "length (concat (take k vs)) \<le> length (concat vs)"
  by (metis append_take_drop_id concat_append length_append le_add1)

lemma dict_offset_of:
  "dict_fits vs \<Longrightarrow> k \<le> length vs \<Longrightarrow>
   i32_as_usize (d_offsets (dict_of vs) ! k) = length (concat (take k vs))"
  using length_concat_take_le [of k vs]
  by (simp add: dict_of_def dict_fits_def nth_append del: upt_Suc)

lemma concat_take_slice:
  "i < length vs \<Longrightarrow>
   take (length (concat (take (Suc i) vs)) - length (concat (take i vs)))
     (drop (length (concat (take i vs))) (concat vs)) = vs ! i"
  using arg_cong [OF id_take_nth_drop [of i vs], of concat]
  by (simp add: take_Suc_conv_app_nth)

lemma dict_names_of [simp]: "dict_fits vs \<Longrightarrow> dict_names (dict_of vs) = vs"
proof (rule nth_equalityI)
  fix i assume "dict_fits vs" "i < length (dict_names (dict_of vs))"
  then show "dict_names (dict_of vs) ! i = vs ! i"
    using concat_take_slice [of i vs]
    by (simp add: dict_names_def dict_offset_of) (simp add: dict_of_def)
qed (simp add: dict_names_def)

lemma dict_ok_of [simp, intro]: "dict_fits vs \<Longrightarrow> dict_ok (dict_of vs)"
  by (simp add: dict_ok_def)

lemma dict_okE:
  assumes "dict_ok d"
  obtains vs where "d = dict_of vs" "dict_fits vs"
  using assms by (auto simp: dict_ok_def)

lemma dict_index_of:
  assumes "dict_fits vs"
  shows "dict_code_of (dict_of vs) v = Some c \<longleftrightarrow> unat c < length vs \<and> vs ! unat c = v"
proof -
  have small: "unat (word_of_nat i :: u32) = i" if "i < length vs" for i
    using that assms by (simp add: dict_fits_def)
  have d: "distinct (map fst (zip vs (map word_of_nat [0..<length vs])))"
    using assms by (simp add: dict_fits_def)
  have "dict_code_of (dict_of vs) v = Some c \<longleftrightarrow> (\<exists>i<length vs. v = vs ! i \<and> c = word_of_nat i)"
    by (auto simp: dict_code_of_def dict_of_def map_of_eq_Some_iff [OF d] in_set_zip)
  also have "\<dots> \<longleftrightarrow> unat c < length vs \<and> vs ! unat c = v"
    using small by (auto intro!: exI [of _ "unat c"])
  finally show ?thesis .
qed

lemma dict_value_of:
  assumes "dict_fits vs"
  shows "dict_value (dict_of vs) c = (if unat c < length vs then Ok (vs ! unat c) else Panic)"
proof (cases "unat c < length vs")
  case True
  let ?i = "unat c"
  have "length (concat (take ?i vs)) \<le> length (concat (take (Suc ?i) vs))"
    using True by (simp add: take_Suc_conv_app_nth)
  moreover have "length (concat (take (Suc ?i) vs)) \<le> length (concat vs)"
    by (rule length_concat_take_le)
  moreover have "valid_utf8 (vs ! ?i)" using True assms by (simp add: dict_fits_def)
  moreover have "d_bytes (dict_of vs) = concat vs" by (simp add: dict_of_def)
  ultimately show ?thesis
    using True assms concat_take_slice [OF True]
    by (simp add: dict_value_def dict_offset_of Let_def del: length_concat)
qed (simp add: dict_value_def)

lemma dict_of_snoc:
  assumes "v \<notin> set vs"
  shows "dict_of (vs @ [v]) =
    \<lparr>d_offsets = d_offsets (dict_of vs) @ [word_of_nat (length (d_bytes (dict_of vs)) + length v)],
     d_bytes = d_bytes (dict_of vs) @ v,
     d_index = (d_index (dict_of vs))(v \<mapsto> word_of_nat (length vs))\<rparr>"
proof -
  have "v \<notin> dom (map_of (zip vs (map word_of_nat [0..<length vs])))"
    using assms by (auto dest!: map_of_SomeD set_zip_leftD)
  then have "map_of (zip (vs @ [v]) (map word_of_nat [0..<length (vs @ [v])])) =
      (map_of (zip vs (map word_of_nat [0..<length vs])))(v \<mapsto> (word_of_nat (length vs) :: u32))"
    by (simp add: map_add_comm [of "[v \<mapsto> word_of_nat (length vs)]"])
  then show ?thesis by (simp add: dict_of_def)
qed

lemma dict_intern_of:
  assumes "dict_fits vs"
  shows "dict_intern (dict_of vs) v =
    (if v \<in> set vs then Ok (dict_of vs, the (dict_code_of (dict_of vs) v))
     else if length vs < 2 ^ 32 \<and> length (concat vs) + length v < 2 ^ 31
     then Ok (dict_of (vs @ [v]), word_of_nat (length vs)) else Panic)"
proof (cases "v \<in> set vs")
  case True
  then obtain i where "i < length vs" "vs ! i = v" by (auto simp: in_set_conv_nth)
  then have "dict_code_of (dict_of vs) v = Some (word_of_nat i)"
    using assms by (simp add: dict_index_of dict_fits_def)
  then show ?thesis using True by (simp add: dict_intern_def dict_code_of_def)
next
  case False
  then have "dict_code_of (dict_of vs) v = None"
    using dict_index_of [OF assms, of v] by (metis not_None_eq nth_mem)
  moreover have "d_bytes (dict_of vs) = concat vs" by (simp add: dict_of_def)
  ultimately show ?thesis
    using False by (simp add: dict_intern_def dict_code_of_def dict_of_snoc Let_def)
qed

lemma dict_fits_snoc:
  "dict_fits vs \<Longrightarrow> v \<notin> set vs \<Longrightarrow> valid_utf8 v \<Longrightarrow> length vs < 2 ^ 32 \<Longrightarrow>
   length (concat vs) + length v < 2 ^ 31 \<Longrightarrow> dict_fits (vs @ [v])"
  by (auto simp: dict_fits_def)

section \<open>The contract of an interning table\<close>

text \<open>
  What the users of a dictionary rely on: it renders the codes it has given out, an
  interned string keeps its code, and a new string is appended.  \<open>intern_all\<close> is the
  \<open>map(|v| dictionary.intern(v)).collect()\<close> of the code.
\<close>

definition intern_all :: "('d \<Rightarrow> 's \<Rightarrow> ('e, 'd \<times> u32) outcome) \<Rightarrow> 'd \<Rightarrow> 's list \<Rightarrow>
    ('e, 'd \<times> u32 list) outcome" where
  "intern_all intern d vs =
     foldR (\<lambda>(d, codes) v. bindR (intern d v) (\<lambda>(d, code). Ok (d, codes @ [code]))) (d, []) vs"

locale interner =
  fixes intern :: "'d \<Rightarrow> 's \<Rightarrow> ('e, 'd \<times> u32) outcome"
    and code_of :: "'d \<Rightarrow> 's \<Rightarrow> u32 option"
    and val :: "'d \<Rightarrow> u32 \<Rightarrow> ('e, 's) outcome"
    and names :: "'d \<Rightarrow> 's list"
    and ok :: "'d \<Rightarrow> bool"
    and str :: "'s \<Rightarrow> bool"
  assumes names_distinct: "ok d \<Longrightarrow> distinct (names d)"
    and code_of_iff: "ok d \<Longrightarrow> code_of d s = Some c \<longleftrightarrow> unat c < length (names d) \<and> names d ! unat c = s"
    and val_eq: "ok d \<Longrightarrow> val d c = (if unat c < length (names d) then Ok (names d ! unat c) else Panic)"
    and intern_known: "ok d \<Longrightarrow> code_of d s = Some c \<Longrightarrow> intern d s = Ok (d, c)"
    and intern_new: "ok d \<Longrightarrow> str s \<Longrightarrow> s \<notin> set (names d) \<Longrightarrow> intern d s = Ok (d', c) \<Longrightarrow>
      ok d' \<and> names d' = names d @ [s] \<and> unat c = length (names d)"
    and code_of_known: "ok d \<Longrightarrow> s \<in> set (names d) \<Longrightarrow> code_of d s \<noteq> None"
begin

lemma intern_sound:
  assumes "ok d" "str s" "intern d s = Ok (d', c)"
  shows "ok d'" and "names d' = (if s \<in> set (names d) then names d else names d @ [s])"
    and "unat c < length (names d')" and "names d' ! unat c = s" and "val d' c = Ok s"
proof -
  have "ok d' \<and> names d' = (if s \<in> set (names d) then names d else names d @ [s]) \<and>
      unat c < length (names d') \<and> names d' ! unat c = s"
  proof (cases "s \<in> set (names d)")
    case True
    then obtain c' where c': "code_of d s = Some c'" using assms(1) code_of_known by blast
    then have "intern d s = Ok (d, c')" using assms(1) by (rule intern_known [rotated])
    then show ?thesis using assms c' True by (simp add: code_of_iff)
  next
    case False
    then show ?thesis using intern_new [OF assms(1,2) False assms(3)] by simp
  qed
  then have "ok d'" "unat c < length (names d')" "names d' ! unat c = s"
    and "names d' = (if s \<in> set (names d) then names d else names d @ [s])"
    by blast+
  then show "ok d'" "unat c < length (names d')" "names d' ! unat c = s"
    and "names d' = (if s \<in> set (names d) then names d else names d @ [s])" .
  show "val d' c = Ok s"
    using \<open>ok d'\<close> \<open>unat c < length (names d')\<close> \<open>names d' ! unat c = s\<close> by (simp add: val_eq)
qed

lemma intern_idem:
  assumes "ok d" "str s" "intern d s = Ok (d', c)"
  shows "intern d' s = Ok (d', c)"
  using intern_sound [OF assms] by (intro intern_known) (simp_all add: code_of_iff)

text \<open>Codes already given out keep their value.\<close>

lemma val_stable:
  assumes "ok d" "str s" "intern d s = Ok (d', c)" "unat k < length (names d)"
  shows "val d' k = val d k"
  using intern_sound [OF assms(1-3)] assms by (auto simp: val_eq nth_append)

lemma codes_injective:
  assumes "ok d" "val d c = Ok s" "val d c' = Ok s"
  shows "c = c'"
  using assms names_distinct [OF assms(1)]
  by (auto simp: val_eq nth_eq_iff_index_eq word_unat_eq_iff split: if_splits)

lemma intern_all_fold:
  assumes "ok d" "\<forall>v\<in>set vs. str v"
    and "foldR (\<lambda>(d, codes) v. bindR (intern d v) (\<lambda>(d, code). Ok (d, codes @ [code]))) (d, cs) vs =
      Ok (d', cs')"
  shows "ok d' \<and> (\<exists>ext. names d' = names d @ ext) \<and> set (names d') = set (names d) \<union> set vs \<and>
    (\<exists>ks. cs' = cs @ ks \<and> length ks = length vs \<and> (\<forall>k\<in>set ks. unat k < length (names d')) \<and>
      map (\<lambda>k. names d' ! unat k) ks = vs)"
  using assms
proof (induction vs arbitrary: d cs)
  case Nil
  then show ?case by auto
next
  case (Cons v vs)
  obtain d1 c where i: "intern d v = Ok (d1, c)"
    and r: "foldR (\<lambda>(d, codes) v. bindR (intern d v) (\<lambda>(d, code). Ok (d, codes @ [code])))
      (d1, cs @ [c]) vs = Ok (d', cs')"
    using Cons.prems(3) by auto
  note s = intern_sound [OF Cons.prems(1) _ i]
  have ok1: "ok d1" and n1: "names d1 = (if v \<in> set (names d) then names d else names d @ [v])"
    and c: "unat c < length (names d1)" "names d1 ! unat c = v"
    using s Cons.prems(2) by auto
  have str: "\<forall>v\<in>set vs. str v" using Cons.prems(2) by simp
  from Cons.IH [OF ok1 str r] obtain ext ks where
    IH: "ok d'" "names d' = names d1 @ ext" "set (names d') = set (names d1) \<union> set vs"
      "cs' = (cs @ [c]) @ ks" "length ks = length vs" "\<forall>k\<in>set ks. unat k < length (names d')"
      "map (\<lambda>k. names d' ! unat k) ks = vs"
    by blast
  have "names d' ! unat c = v" using IH(2) c by (simp add: nth_append)
  moreover have "unat c < length (names d')" using IH(2) c by simp
  moreover have "\<exists>ext. names d' = names d @ ext" using IH(2) n1 by auto
  moreover have "set (names d') = set (names d) \<union> set (v # vs)"
    using IH(3) n1 by auto
  moreover have "cs' = cs @ (c # ks)" "length (c # ks) = length (v # vs)"
    using IH(4,5) by simp_all
  moreover have "\<forall>k\<in>set (c # ks). unat k < length (names d')"
    using IH(6) \<open>unat c < length (names d')\<close> by simp
  moreover have "map (\<lambda>k. names d' ! unat k) (c # ks) = v # vs"
    unfolding list.map IH(7) \<open>names d' ! unat c = v\<close> ..
  ultimately show ?case using IH(1) by (intro conjI exI [of _ "c # ks"]) assumption+
qed

lemma intern_all_sound:
  assumes "ok d" "\<forall>v\<in>set vs. str v" "intern_all intern d vs = Ok (d', cs)"
  shows "ok d'" and "\<exists>ext. names d' = names d @ ext" and "set (names d') = set (names d) \<union> set vs"
    and "length cs = length vs" and "\<forall>c\<in>set cs. unat c < length (names d')"
    and "map (\<lambda>c. names d' ! unat c) cs = vs"
  using intern_all_fold [OF assms(1,2), of "[]" d' cs] assms(3) by (auto simp: intern_all_def)

end

interpretation di: interner dict_intern dict_code_of dict_value dict_names dict_ok valid_utf8
proof unfold_locales
  fix d d' :: dictionary and s c
  assume ok: "dict_ok d"
  then obtain vs where d: "d = dict_of vs" "dict_fits vs" by (rule dict_okE)
  then have n: "dict_names d = vs" by simp
  show "distinct (dict_names d)" using d by (simp add: dict_fits_def)
  show known: "dict_code_of d s = Some c \<longleftrightarrow> unat c < length (dict_names d) \<and> dict_names d ! unat c = s"
    using d by (simp add: dict_index_of)
  show "dict_value d c = (if unat c < length (dict_names d) then Ok (dict_names d ! unat c) else Panic)"
    using d by (simp add: dict_value_of)
  show "dict_code_of d s = Some c \<Longrightarrow> dict_intern d s = Ok (d, c)"
    by (simp add: dict_intern_def dict_code_of_def)
  show "dict_code_of d s \<noteq> None" if mem: "s \<in> set (dict_names d)"
  proof -
    obtain i where i: "i < length vs" "vs ! i = s" using mem n by (auto simp: in_set_conv_nth)
    then have "dict_code_of d s = Some (word_of_nat i)"
      using d by (simp add: dict_index_of dict_fits_def)
    then show ?thesis by simp
  qed
  show "dict_ok d' \<and> dict_names d' = dict_names d @ [s] \<and> unat c = length (dict_names d)"
    if "valid_utf8 s" "s \<notin> set (dict_names d)" "dict_intern d s = Ok (d', c)"
  proof -
    have *: "length vs < 2 ^ 32" "length (concat vs) + length s < 2 ^ 31"
      and "d' = dict_of (vs @ [s])" "c = word_of_nat (length vs)"
      using that d n by (auto simp: dict_intern_of split: if_splits)
    moreover have "dict_fits (vs @ [s])" using that d n * by (intro dict_fits_snoc) auto
    ultimately show ?thesis using d by simp
  qed
qed

lemma dict_ok_new [simp]: "dict_ok dict_new" "dict_names dict_new = []"
  by (simp_all add: dict_new_of)

lemma dict_ok_value:
  "dict_ok d \<Longrightarrow> dict_value d c = (if unat c < dict_len d then Ok (dict_names d ! unat c) else Panic)"
  by (elim dict_okE) (simp add: dict_value_of)

lemma length_dict_names [simp]: "length (dict_names d) = dict_len d"
  by (simp add: dict_names_def)

text \<open>Interning never fails while the distinct strings fit.\<close>

lemma dict_fits_subset:
  assumes "dict_fits us" "distinct ws" "set ws \<subseteq> set us"
  shows "dict_fits ws"
proof -
  have len: "length (concat xs) = (\<Sum>x\<in>set xs. length x)" if "distinct xs" for xs :: "rstring list"
    using that by (simp add: length_concat sum_list_distinct_conv_sum_set)
  have "length (concat ws) \<le> length (concat us)"
    using assms by (simp add: len dict_fits_def sum_mono2)
  moreover have "length ws \<le> length us"
    using assms card_mono [of "set us" "set ws"] by (simp add: dict_fits_def distinct_card)
  ultimately show ?thesis using assms unfolding dict_fits_def by (auto intro: le_less_trans)
qed

lemma intern_all_of:
  assumes "dict_fits us" "distinct ws" "set (ws @ vs) \<subseteq> set us"
  shows "\<exists>d cs'. foldR (\<lambda>(d, codes) v. bindR (dict_intern d v) (\<lambda>(d, code). Ok (d, codes @ [code])))
    (dict_of ws, cs) vs = (Ok (d, cs') :: ('e, _) outcome)"
  using assms(2,3)
proof (induction vs arbitrary: ws cs)
  case Nil
  then show ?case by simp
next
  case (Cons v vs)
  have ws: "dict_fits ws" using assms(1) Cons.prems by (intro dict_fits_subset [OF assms(1)]) auto
  show ?case
  proof (cases "v \<in> set ws")
    case True
    then show ?thesis using Cons ws by (simp add: dict_intern_of)
  next
    case False
    then have "dict_fits (ws @ [v])"
      using Cons.prems by (intro dict_fits_subset [OF assms(1)]) auto
    then have "length ws < 2 ^ 32" "length (concat ws) + length v < 2 ^ 31"
      by (auto simp: dict_fits_def)
    then show ?thesis using Cons.IH [of "ws @ [v]" "cs @ [word_of_nat (length ws)]"] Cons.prems False ws
      by (simp add: dict_intern_of)
  qed
qed

lemma intern_all_total:
  assumes "dict_fits us" "set vs \<subseteq> set us"
  shows "\<exists>d cs. intern_all dict_intern dict_new vs = (Ok (d, cs) :: ('e, _) outcome)"
  using intern_all_of [OF assms(1), of "[]" vs "[]"] assms(2) by (simp add: intern_all_def dict_new_of)

end
