(* ===== verification/Columns.thy ===== *)
theory Columns
  imports Bitmap Dictionary
begin

text \<open>
  The column types of \<^verbatim>\<open>src/arrow_lite\<close>: \<open>ColumnType\<close> and \<open>LogicalType\<close> with their frozen
  tags (\<^verbatim>\<open>column.rs\<close>, \<^verbatim>\<open>logical.rs\<close>), \<open>NumericColumn\<close> (\<^verbatim>\<open>buffer.rs\<close>), \<open>KeyColumn\<close>
  (\<^verbatim>\<open>key.rs\<close>), \<open>Column\<close> and the zero-copy views (\<^verbatim>\<open>column.rs\<close>), \<open>Field\<close>, \<open>Schema\<close> and
  \<open>RecordBatch\<close> (\<^verbatim>\<open>schema.rs\<close>).  A buffer is the list of its elements; an \<open>f64\<close> element is
  its bit pattern.  A failed \<open>assert!\<close> is \<open>Panic\<close>.  \<open>column_ok\<close> is the invariant the
  private fields and checking constructors give every column.
\<close>

section \<open>Type tags\<close>

datatype column_type = F64 | I64 | Key

fun column_type_tag :: "column_type \<Rightarrow> u8" where
  "column_type_tag F64 = 0"
| "column_type_tag I64 = 1"
| "column_type_tag Key = 2"

definition column_type_from_tag :: "u8 \<Rightarrow> column_type option" where
  "column_type_from_tag tag =
     (if tag = 0 then Some F64 else if tag = 1 then Some I64 else if tag = 2 then Some Key else None)"

datatype logical_type = TimestampNs | Decimal64 u8

definition DECIMAL64_PRECISION :: u8 where
  "DECIMAL64_PRECISION = 18"

fun logical_tag :: "logical_type \<Rightarrow> u8" where
  "logical_tag TimestampNs = 1"
| "logical_tag (Decimal64 s) = 2"

definition logical_from_parts :: "u8 \<Rightarrow> u8 \<Rightarrow> logical_type option" where
  "logical_from_parts tag payload =
     (if tag = 1 then Some TimestampNs
      else if tag = 2 \<and> payload \<le> DECIMAL64_PRECISION then Some (Decimal64 payload)
      else None)"

definition logical_valid_for :: "logical_type \<Rightarrow> column_type \<Rightarrow> bool" where
  "logical_valid_for logical ct \<longleftrightarrow> ct = I64"

fun c_data_format :: "logical_type \<Rightarrow> ('e, rstring) outcome" where
  "c_data_format TimestampNs = Ok (ascii ''tsn:'')"
| "c_data_format (Decimal64 s) =
     (if s \<le> DECIMAL64_PRECISION
      then Ok (ascii ''d:'' @ decimal (unat DECIMAL64_PRECISION) @ ascii '','' @ decimal (unat s) @
        ascii '',64'')
      else Panic)"

section \<open>Numeric columns\<close>

record numeric_column =
  nc_values :: "u64 list"
  nc_validity :: "bitmap option"

definition nc_new_non_null :: "u64 list \<Rightarrow> numeric_column" where
  "nc_new_non_null vs = \<lparr>nc_values = vs, nc_validity = None\<rparr>"

definition nc_new_nullable :: "u64 list \<Rightarrow> bitmap \<Rightarrow> ('e, numeric_column) outcome" where
  "nc_new_nullable vs bm =
     (if length vs = bm_len bm then Ok \<lparr>nc_values = vs, nc_validity = Some bm\<rparr> else Panic)"

definition nc_len :: "numeric_column \<Rightarrow> nat" where
  "nc_len c = length (nc_values c)"

definition validity_get :: "bitmap option \<Rightarrow> nat \<Rightarrow> nat \<Rightarrow> ('e, bool) outcome" where
  "validity_get validity len index =
     (if index < len then (case validity of Some bm \<Rightarrow> bm_get bm index | None \<Rightarrow> Ok True) else Panic)"

definition validity_null_count :: "bitmap option \<Rightarrow> nat" where
  "validity_null_count validity =
     (case validity of Some bm \<Rightarrow> bm_len bm - count_set bm | None \<Rightarrow> 0)"

definition nc_is_valid :: "numeric_column \<Rightarrow> nat \<Rightarrow> ('e, bool) outcome" where
  "nc_is_valid c index = validity_get (nc_validity c) (nc_len c) index"

definition nc_null_count :: "numeric_column \<Rightarrow> nat" where
  "nc_null_count c = validity_null_count (nc_validity c)"

datatype numeric_data = NF64 numeric_column | NI64 numeric_column

fun nd_column :: "numeric_data \<Rightarrow> numeric_column" where
  "nd_column (NF64 c) = c"
| "nd_column (NI64 c) = c"

section \<open>Key columns\<close>

record key_column =
  kc_codes :: "u32 list"
  kc_validity :: "bitmap option"
  kc_dictionary :: dictionary

definition validate_codes :: "u32 list \<Rightarrow> dictionary \<Rightarrow> ('e, unit) outcome" where
  "validate_codes codes d = (if \<exists>c\<in>set codes. dict_len d \<le> unat c then Panic else Ok ())"

definition kc_new_non_null :: "u32 list \<Rightarrow> dictionary \<Rightarrow> ('e, key_column) outcome" where
  "kc_new_non_null codes d =
     bindR (validate_codes codes d) (\<lambda>_.
       Ok \<lparr>kc_codes = codes, kc_validity = None, kc_dictionary = d\<rparr>)"

definition kc_new_nullable :: "u32 list \<Rightarrow> bitmap \<Rightarrow> dictionary \<Rightarrow> ('e, key_column) outcome" where
  "kc_new_nullable codes bm d =
     (if length codes = bm_len bm then
        bindR (validate_codes codes d) (\<lambda>_.
          Ok \<lparr>kc_codes = codes, kc_validity = Some bm, kc_dictionary = d\<rparr>)
      else Panic)"

definition kc_from_values :: "rstring list \<Rightarrow> ('e, key_column) outcome" where
  "kc_from_values vs =
     mapR (\<lambda>(d, codes). \<lparr>kc_codes = codes, kc_validity = None, kc_dictionary = d\<rparr>)
       (intern_all dict_intern dict_new vs)"

definition kc_len :: "key_column \<Rightarrow> nat" where
  "kc_len c = length (kc_codes c)"

definition kc_is_valid :: "key_column \<Rightarrow> nat \<Rightarrow> ('e, bool) outcome" where
  "kc_is_valid c index = validity_get (kc_validity c) (kc_len c) index"

definition kc_null_count :: "key_column \<Rightarrow> nat" where
  "kc_null_count c = validity_null_count (kc_validity c)"

definition kc_value_at :: "key_column \<Rightarrow> nat \<Rightarrow> ('e, rstring option) outcome" where
  "kc_value_at c index =
     bindR (kc_is_valid c index) (\<lambda>valid.
       if valid then mapR Some (dict_value (kc_dictionary c) (kc_codes c ! index)) else Ok None)"

section \<open>Columns\<close>

datatype column = Numeric numeric_data | KeyCol key_column

fun col_len :: "column \<Rightarrow> nat" where
  "col_len (Numeric n) = nc_len (nd_column n)"
| "col_len (KeyCol k) = kc_len k"

fun col_null_count :: "column \<Rightarrow> nat" where
  "col_null_count (Numeric n) = nc_null_count (nd_column n)"
| "col_null_count (KeyCol k) = kc_null_count k"

fun col_is_valid :: "column \<Rightarrow> nat \<Rightarrow> ('e, bool) outcome" where
  "col_is_valid (Numeric n) i = nc_is_valid (nd_column n) i"
| "col_is_valid (KeyCol k) i = kc_is_valid k i"

fun col_type :: "column \<Rightarrow> column_type" where
  "col_type (Numeric (NF64 _)) = F64"
| "col_type (Numeric (NI64 _)) = I64"
| "col_type (KeyCol _) = Key"

fun col_validity :: "column \<Rightarrow> bitmap option" where
  "col_validity (Numeric n) = nc_validity (nd_column n)"
| "col_validity (KeyCol k) = kc_validity k"

section \<open>Views\<close>

text \<open>\<open>offset.checked_add(len)\<close> fails only past the address space.\<close>

definition check_range :: "nat \<Rightarrow> nat \<Rightarrow> nat \<Rightarrow> ('e, unit) outcome" where
  "check_range offset len outer =
     (if offset + len < 2 ^ 64 \<and> offset + len \<le> outer then Ok () else Panic)"

record numeric_view =
  nv_column :: numeric_column
  nv_offset :: nat
  nv_len :: nat

definition nc_view :: "numeric_column \<Rightarrow> nat \<Rightarrow> nat \<Rightarrow> ('e, numeric_view) outcome" where
  "nc_view c offset len =
     bindR (check_range offset len (nc_len c)) (\<lambda>_.
       Ok \<lparr>nv_column = c, nv_offset = offset, nv_len = len\<rparr>)"

definition nv_values :: "numeric_view \<Rightarrow> u64 list" where
  "nv_values v = take (nv_len v) (drop (nv_offset v) (nc_values (nv_column v)))"

definition nv_is_valid :: "numeric_view \<Rightarrow> nat \<Rightarrow> ('e, bool) outcome" where
  "nv_is_valid v index =
     bindR (check_range index 1 (nv_len v)) (\<lambda>_. nc_is_valid (nv_column v) (nv_offset v + index))"

definition nv_null_count :: "numeric_view \<Rightarrow> ('e, nat) outcome" where
  "nv_null_count v =
     (case nc_validity (nv_column v) of
        Some _ \<Rightarrow> foldR (\<lambda>n i. mapR (\<lambda>valid. if valid then n else n + 1) (nv_is_valid v i)) 0 [0..<nv_len v]
      | None \<Rightarrow> Ok 0)"

definition nv_slice :: "numeric_view \<Rightarrow> nat \<Rightarrow> nat \<Rightarrow> ('e, numeric_view) outcome" where
  "nv_slice v offset len =
     bindR (check_range offset len (nv_len v)) (\<lambda>_.
       Ok \<lparr>nv_column = nv_column v, nv_offset = nv_offset v + offset, nv_len = len\<rparr>)"

record key_view =
  kv_column :: key_column
  kv_offset :: nat
  kv_len :: nat

definition kc_view :: "key_column \<Rightarrow> nat \<Rightarrow> nat \<Rightarrow> ('e, key_view) outcome" where
  "kc_view c offset len =
     bindR (check_range offset len (kc_len c)) (\<lambda>_.
       Ok \<lparr>kv_column = c, kv_offset = offset, kv_len = len\<rparr>)"

definition kv_codes :: "key_view \<Rightarrow> u32 list" where
  "kv_codes v = take (kv_len v) (drop (kv_offset v) (kc_codes (kv_column v)))"

definition kv_is_valid :: "key_view \<Rightarrow> nat \<Rightarrow> ('e, bool) outcome" where
  "kv_is_valid v index =
     bindR (check_range index 1 (kv_len v)) (\<lambda>_. kc_is_valid (kv_column v) (kv_offset v + index))"

definition kv_slice :: "key_view \<Rightarrow> nat \<Rightarrow> nat \<Rightarrow> ('e, key_view) outcome" where
  "kv_slice v offset len =
     bindR (check_range offset len (kv_len v)) (\<lambda>_.
       Ok \<lparr>kv_column = kv_column v, kv_offset = kv_offset v + offset, kv_len = len\<rparr>)"

section \<open>Schemas and record batches\<close>

record field =
  f_name :: rstring
  f_column_type :: column_type
  f_nullable :: bool
  f_logical :: "logical_type option"

definition field_new :: "rstring \<Rightarrow> column_type \<Rightarrow> bool \<Rightarrow> field" where
  "field_new name ct nullable =
     \<lparr>f_name = name, f_column_type = ct, f_nullable = nullable, f_logical = None\<rparr>"

definition with_logical :: "field \<Rightarrow> logical_type \<Rightarrow> ('e, field) outcome" where
  "with_logical f logical =
     (if logical_valid_for logical (f_column_type f) then Ok (f\<lparr>f_logical := Some logical\<rparr>) else Panic)"

record schema =
  s_fields :: "field list"

record record_batch =
  rb_schema :: schema
  rb_columns :: "column list"
  rb_num_rows :: nat

definition binding_ok :: "nat \<Rightarrow> field \<Rightarrow> column \<Rightarrow> bool" where
  "binding_ok num_rows f c \<longleftrightarrow>
     f_column_type f = col_type c \<and> col_len c = num_rows \<and> (f_nullable f \<or> col_validity c = None)"

definition record_batch_new :: "schema \<Rightarrow> column list \<Rightarrow> ('e, record_batch) outcome" where
  "record_batch_new s cs =
     (if length (s_fields s) = length cs then
        (let num_rows = (case cs of [] \<Rightarrow> 0 | c # _ \<Rightarrow> col_len c)
         in if list_all (\<lambda>(f, c). binding_ok num_rows f c) (zip (s_fields s) cs)
            then Ok \<lparr>rb_schema = s, rb_columns = cs, rb_num_rows = num_rows\<rparr> else Panic)
      else Panic)"

section \<open>Well-formed columns\<close>

definition validity_ok :: "nat \<Rightarrow> bitmap option \<Rightarrow> bool" where
  "validity_ok len validity = (case validity of None \<Rightarrow> True | Some bm \<Rightarrow> bitmap_ok bm \<and> bm_len bm = len)"

fun column_ok :: "column \<Rightarrow> bool" where
  "column_ok (Numeric n) = validity_ok (nc_len (nd_column n)) (nc_validity (nd_column n))"
| "column_ok (KeyCol k) \<longleftrightarrow> validity_ok (kc_len k) (kc_validity k) \<and> dict_ok (kc_dictionary k) \<and>
     (\<forall>c\<in>set (kc_codes k). unat c < dict_len (kc_dictionary k))"

definition batch_ok :: "record_batch \<Rightarrow> bool" where
  "batch_ok rb \<longleftrightarrow> length (s_fields (rb_schema rb)) = length (rb_columns rb) \<and>
     (rb_columns rb = [] \<longrightarrow> rb_num_rows rb = 0) \<and>
     list_all2 (binding_ok (rb_num_rows rb)) (s_fields (rb_schema rb)) (rb_columns rb) \<and>
     (\<forall>c\<in>set (rb_columns rb). column_ok c)"

text \<open>The presence bits of a column.\<close>

definition presence :: "nat \<Rightarrow> bitmap option \<Rightarrow> bool list" where
  "presence len validity = (case validity of None \<Rightarrow> replicate len True | Some bm \<Rightarrow> bits bm)"

lemma length_presence [simp]: "validity_ok len v \<Longrightarrow> length (presence len v) = len"
  by (simp add: validity_ok_def presence_def split: option.splits)

lemma validity_get_presence:
  "validity_ok len v \<Longrightarrow> i < len \<Longrightarrow> validity_get v len i = Ok (presence len v ! i)"
  by (auto simp: validity_ok_def presence_def validity_get_def bm_get_bits split: option.splits)

lemma validity_null_count_presence:
  "validity_ok len v \<Longrightarrow> validity_null_count v = length (filter Not (presence len v))"
  using sum_length_filter_compl [of id "presence len v"]
  by (auto simp: validity_ok_def presence_def validity_null_count_def count_set_bits split: option.splits)

definition col_presence :: "column \<Rightarrow> bool list" where
  "col_presence c = presence (col_len c) (col_validity c)"

lemma column_ok_validity: "column_ok c \<Longrightarrow> validity_ok (col_len c) (col_validity c)"
  by (cases c) auto

lemma col_is_valid_presence:
  "column_ok c \<Longrightarrow> i < col_len c \<Longrightarrow> col_is_valid c i = Ok (col_presence c ! i)"
  using validity_get_presence [of "col_len c" "col_validity c" i] column_ok_validity [of c]
  by (cases c) (simp_all add: col_presence_def nc_is_valid_def kc_is_valid_def)

lemma col_null_count_presence:
  "column_ok c \<Longrightarrow> col_null_count c = length (filter Not (col_presence c))"
  using validity_null_count_presence [of "col_len c" "col_validity c"] column_ok_validity [of c]
  by (cases c) (simp_all add: col_presence_def nc_null_count_def kc_null_count_def)

lemma tags_inverse [simp]:
  "column_type_from_tag (column_type_tag ct) = Some ct"
  "logical_from_parts 1 p = Some TimestampNs"
  "s \<le> DECIMAL64_PRECISION \<Longrightarrow> logical_from_parts 2 s = Some (Decimal64 s)"
  by (cases ct) (simp_all add: column_type_from_tag_def logical_from_parts_def)

lemma from_tag_eq_Some: "column_type_from_tag t = Some ct \<longleftrightarrow> t = column_type_tag ct"
  by (cases ct) (auto simp: column_type_from_tag_def)

lemma validate_codes_eq: "validate_codes codes d = Ok () \<longleftrightarrow> (\<forall>c\<in>set codes. unat c < dict_len d)"
  by (auto simp: validate_codes_def not_le not_less)

lemma kc_new_non_null_eq:
  "kc_new_non_null codes d = (if \<forall>c\<in>set codes. unat c < dict_len d
     then Ok \<lparr>kc_codes = codes, kc_validity = None, kc_dictionary = d\<rparr> else Panic)"
  by (auto simp: kc_new_non_null_def validate_codes_def not_le not_less)

lemma kc_new_nullable_eq:
  "kc_new_nullable codes bm d = (if length codes = bm_len bm \<and> (\<forall>c\<in>set codes. unat c < dict_len d)
     then Ok \<lparr>kc_codes = codes, kc_validity = Some bm, kc_dictionary = d\<rparr> else Panic)"
  by (auto simp: kc_new_nullable_def validate_codes_def not_le not_less)

lemma record_batch_new_ok:
  assumes "record_batch_new s cs = Ok rb" "\<forall>c\<in>set cs. column_ok c"
  shows "batch_ok rb" "rb_schema rb = s" "rb_columns rb = cs"
  using assms by (auto simp: record_batch_new_def batch_ok_def list_all2_iff list_all_iff Let_def split: if_splits)

lemma record_batch_new_of:
  assumes "batch_ok rb"
  shows "record_batch_new (rb_schema rb) (rb_columns rb) = Ok rb"
proof -
  have rows: "(case rb_columns rb of [] \<Rightarrow> 0 | c # _ \<Rightarrow> col_len c) = rb_num_rows rb"
  proof (cases "rb_columns rb")
    case (Cons c cs)
    then obtain f fs where "s_fields (rb_schema rb) = f # fs" "binding_ok (rb_num_rows rb) f c"
      using assms by (auto simp: batch_ok_def list_all2_Cons2)
    then show ?thesis using Cons by (simp add: binding_ok_def)
  qed (use assms in \<open>simp add: batch_ok_def\<close>)
  have "list_all (\<lambda>(f, c). binding_ok (rb_num_rows rb) f c) (zip (s_fields (rb_schema rb)) (rb_columns rb))"
    using assms by (simp add: batch_ok_def list_all2_iff list_all_iff)
  then show ?thesis using assms rows by (simp add: record_batch_new_def Let_def batch_ok_def)
qed

lemma batch_ok_len: "batch_ok rb \<Longrightarrow> c \<in> set (rb_columns rb) \<Longrightarrow> col_len c = rb_num_rows rb"
  by (fastforce simp: batch_ok_def binding_ok_def list_all2_conv_all_nth in_set_conv_nth)

section \<open>Views\<close>

definition view_ok :: "numeric_view \<Rightarrow> bool" where
  "view_ok v \<longleftrightarrow> validity_ok (nc_len (nv_column v)) (nc_validity (nv_column v)) \<and>
     nv_offset v + nv_len v \<le> nc_len (nv_column v) \<and> nc_len (nv_column v) < 2 ^ 64"

lemma nc_view_slice:
  assumes "nc_view c o1 n1 = Ok v" "nv_slice v o2 n2 = Ok w" "nc_len c < 2 ^ 64"
  shows "nc_view c (o1 + o2) n2 = Ok w" and "nv_values w = take n2 (drop o2 (nv_values v))"
  using assms
  by (auto simp: nc_view_def nv_slice_def check_range_def nv_values_def drop_take min_def add.commute
      split: if_splits)

lemma nv_is_valid_eq:
  assumes "view_ok v" "i < nv_len v"
  shows "nv_is_valid v i =
    Ok (take (nv_len v) (drop (nv_offset v) (presence (nc_len (nv_column v)) (nc_validity (nv_column v)))) ! i)"
  using assms validity_get_presence [of "nc_len (nv_column v)" "nc_validity (nv_column v)" "nv_offset v + i"]
  by (auto simp: view_ok_def nv_is_valid_def nc_is_valid_def check_range_def)

lemma foldR_count:
  assumes "\<And>i. i < length bs \<Longrightarrow> f i = Ok (bs ! i)"
  shows "foldR (\<lambda>n i. mapR (\<lambda>valid. if valid then n else n + 1) (f i)) k [0..<length bs] =
    Ok (k + length (filter Not bs))"
  using assms
proof (induction bs arbitrary: k rule: rev_induct)
  case (snoc b bs)
  have "f i = Ok (bs ! i)" if "i < length bs" for i using snoc.prems [of i] that by (simp add: nth_append)
  moreover have "f (length bs) = Ok b" using snoc.prems [of "length bs"] by simp
  ultimately show ?case using snoc.IH by (simp add: foldR_append)
qed simp

lemma nv_null_count_eq:
  assumes "view_ok v"
  shows "nv_null_count v = Ok (length (filter Not
    (take (nv_len v) (drop (nv_offset v) (presence (nc_len (nv_column v)) (nc_validity (nv_column v)))))))"
proof (cases "nc_validity (nv_column v)")
  case None
  then show ?thesis by (simp add: nv_null_count_def presence_def)
next
  case (Some bm)
  let ?p = "take (nv_len v) (drop (nv_offset v) (presence (nc_len (nv_column v)) (nc_validity (nv_column v))))"
  have "length ?p = nv_len v" using assms by (auto simp: view_ok_def min_def)
  moreover have "foldR (\<lambda>n i. mapR (\<lambda>valid. if valid then n else n + 1) (nv_is_valid v i)) 0 [0..<length ?p] =
      Ok (0 + length (filter Not ?p))"
    using nv_is_valid_eq [OF assms] \<open>length ?p = nv_len v\<close> by (intro foldR_count) simp
  ultimately show ?thesis using Some by (simp add: nv_null_count_def)
qed

section \<open>Properties\<close>

text \<open>
  Building a key column interns and renders faithfully.  For strings whose distinct
  values fit the dictionary, \<open>KeyColumn::from_values\<close> succeeds; the column it builds is
  well-formed, its dictionary holds exactly the distinct inputs, every row renders its
  input, and two rows share a code exactly when they are the same string.
\<close>
theorem key_column_from_values:
  assumes "dict_fits us" "set vs \<subseteq> set us"
  shows "\<exists>kc. kc_from_values vs = (Ok kc :: ('e, key_column) outcome) \<and> column_ok (KeyCol kc) \<and>
    set (dict_names (kc_dictionary kc)) = set vs \<and> kc_len kc = length vs \<and>
    (\<forall>i<length vs. kc_value_at kc i = (Ok (Some (vs ! i)) :: ('e, rstring option) outcome)) \<and>
    (\<forall>i<length vs. \<forall>j<length vs. kc_codes kc ! i = kc_codes kc ! j \<longleftrightarrow> vs ! i = vs ! j)"
proof -
  obtain d cs where all: "intern_all dict_intern dict_new vs = (Ok (d, cs) :: ('e, _) outcome)"
    using intern_all_total [OF assms] by blast
  have str: "\<forall>v\<in>set vs. valid_utf8 v" using assms by (auto simp: dict_fits_def)
  note sound = di.intern_all_sound [OF dict_ok_new(1) str all]
  let ?kc = "\<lparr>kc_codes = cs, kc_validity = None, kc_dictionary = d\<rparr>"
  have row: "dict_names d ! unat (cs ! i) = vs ! i" "unat (cs ! i) < dict_len d" if "i < length vs" for i
    using that sound(4,5) nth_map [of i cs "\<lambda>c. dict_names d ! unat c"] unfolding sound(6) by auto
  have "distinct (dict_names d)" by (rule di.names_distinct [OF sound(1)])
  then have inj: "cs ! i = cs ! j \<longleftrightarrow> vs ! i = vs ! j" if "i < length vs" "j < length vs" for i j
    using row [of i] row [of j] that by (metis length_dict_names nth_eq_iff_index_eq word_unat_eq_iff)
  have val: "kc_value_at ?kc i = (Ok (Some (vs ! i)) :: ('e, rstring option) outcome)" if "i < length vs" for i
    using that sound(1,4) row [OF that]
    by (simp add: kc_value_at_def kc_is_valid_def validity_get_def kc_len_def dict_ok_value)
  have made: "kc_from_values vs = (Ok ?kc :: ('e, key_column) outcome)"
    using all by (simp add: kc_from_values_def)
  have "column_ok (KeyCol ?kc)" using sound by (simp add: validity_ok_def kc_len_def)
  moreover have "set (dict_names d) = set vs" using sound(3) by simp
  moreover have "kc_len ?kc = length vs" using sound(4) by (simp add: kc_len_def)
  ultimately show ?thesis
    using made val inj by (intro exI [of _ ?kc]) simp
qed

theorem key_column_from_values_witness:
  "\<exists>kc. kc_from_values [ascii ''b'', ascii ''a'', ascii ''b''] = (Ok kc :: (unit, key_column) outcome) \<and>
     kc_value_at kc 2 = (Ok (Some (ascii ''b'')) :: (unit, rstring option) outcome)"
proof -
  have "dict_fits [ascii ''b'', ascii ''a'']" by (simp add: dict_fits_def ascii_def)
  from key_column_from_values [where ?'e = unit, OF this, of "[ascii ''b'', ascii ''a'', ascii ''b'']"]
  show ?thesis by fastforce
qed

text \<open>
  Views are windows.  A slice of a view is the view of the column at the added
  offsets, shows the sub-list of the view's values, and counts as nulls exactly the rows
  of the window that the column holds no value for.
\<close>
theorem view_windows:
  assumes "nc_view c o1 n1 = Ok v" "nv_slice v o2 n2 = (Ok w :: ('e, numeric_view) outcome)"
    and "nc_len c < 2 ^ 64" "column_ok (Numeric (NI64 c))"
  shows "nc_view c (o1 + o2) n2 = (Ok w :: ('e, numeric_view) outcome) \<and>
    nv_values w = take n2 (drop o2 (take n1 (drop o1 (nc_values c)))) \<and>
    nv_null_count w = (Ok (length (filter Not (take n2 (drop o2 (take n1 (drop o1
      (col_presence (Numeric (NI64 c))))))))) :: ('e, nat) outcome)"
proof -
  have v: "v = \<lparr>nv_column = c, nv_offset = o1, nv_len = n1\<rparr>" "o1 + n1 \<le> nc_len c"
    and w: "w = \<lparr>nv_column = c, nv_offset = o1 + o2, nv_len = n2\<rparr>" "o2 + n2 \<le> n1"
    using assms(1,2) by (auto simp: nc_view_def nv_slice_def check_range_def split: if_splits)
  have "view_ok w" using v w assms(3,4) by (simp add: view_ok_def)
  moreover have "min n2 (n1 - o2) = n2" "n2 \<le> n1 - o2" using w(2) by simp_all
  ultimately show ?thesis
    using nc_view_slice [OF assms(1-3)] nv_null_count_eq [of w] v w
    by (simp add: nv_values_def col_presence_def drop_take min_def add.commute)
qed

theorem view_windows_witness:
  "\<exists>v w. nc_view (nc_new_non_null [7, 8, 9]) 1 2 = (Ok v :: (unit, numeric_view) outcome) \<and>
     nv_slice v 1 1 = (Ok w :: (unit, numeric_view) outcome) \<and>
     nc_view (nc_new_non_null [7, 8, 9]) 2 1 = (Ok w :: (unit, numeric_view) outcome) \<and> nv_values w = [9]"
proof -
  let ?c = "nc_new_non_null [7, 8, 9]"
  let ?v = "\<lparr>nv_column = ?c, nv_offset = 1, nv_len = 2\<rparr>"
  let ?w = "\<lparr>nv_column = ?c, nv_offset = 2, nv_len = 1\<rparr>"
  have "nc_view ?c 1 2 = (Ok ?v :: (unit, numeric_view) outcome)"
    and "nv_slice ?v 1 1 = (Ok ?w :: (unit, numeric_view) outcome)"
    by (simp_all add: nc_view_def nv_slice_def check_range_def nc_len_def nc_new_non_null_def)
  moreover have "nc_len ?c < 2 ^ 64" "column_ok (Numeric (NI64 ?c))"
    by (simp_all add: nc_len_def nc_new_non_null_def validity_ok_def)
  ultimately have "nc_view ?c (1 + 1) 1 = (Ok ?w :: (unit, numeric_view) outcome) \<and>
      nv_values ?w = take 1 (drop 1 (take 2 (drop 1 (nc_values ?c))))"
    using view_windows [where ?'e = unit, of ?c 1 2 ?v 1 1 ?w] by blast
  then show ?thesis using \<open>nc_view ?c 1 2 = Ok ?v\<close> \<open>nv_slice ?v 1 1 = Ok ?w\<close>
    unfolding one_add_one by (intro exI [of _ ?v] exI [of _ ?w]) (simp add: nc_new_non_null_def)
qed

end
