(* ===== verification/Mem.thy ===== *)
theory Mem
  imports Columns Float64
begin

text \<open>
  \<^verbatim>\<open>src/storage_lite/mem.rs\<close>: the row-at-a-time write buffer with its per-column builders,
  the zone maps computed at freeze, and the immutable segment with its sequence
  information.  The abstract view of a column is the list of its cells (\<open>column_cells\<close>);
  the main results are that freezing keeps exactly the appended rows, and that a zone map
  bounds every valid value of its column.  The \<open>u64\<close> additions of the sequence functions
  wrap, as in a release build.
\<close>

section \<open>Rows and errors\<close>

datatype row_value = RvF64 f64 | RvI64 i64 | RvKey rstring | RvNull

text \<open>The cases of \<open>StorageError\<close> this file raises.\<close>

datatype mem_error =
    WrongArity nat nat
  | TypeMismatch rstring column_type
  | NullNotAllowed rstring
  | BadOrderingKey string
  | AllNullKeyColumn rstring

section \<open>The write buffer\<close>

datatype column_builder =
    BF64 "f64 list" "bool list"
  | BI64 "i64 list" "bool list"
  | BKey "u32 list" "bool list" dictionary

record write_buffer =
  wb_schema :: schema
  wb_ordering_key :: nat
  wb_builders :: "column_builder list"
  wb_rows :: nat
  wb_ordered :: bool
  wb_last :: "i64 option"

fun builder_new :: "column_type \<Rightarrow> column_builder" where
  "builder_new F64 = BF64 [] []"
| "builder_new I64 = BI64 [] []"
| "builder_new Key = BKey [] [] dict_new"

definition wb_new :: "schema \<Rightarrow> nat \<Rightarrow> (mem_error, write_buffer) outcome" where
  "wb_new s ordering_key =
     (if ordering_key < length (s_fields s) then
        (let f = s_fields s ! ordering_key
         in if f_column_type f \<noteq> I64 then Err (BadOrderingKey ''is not i64'')
            else if f_nullable f then Err (BadOrderingKey ''must be NOT NULL'')
            else Ok \<lparr>wb_schema = s, wb_ordering_key = ordering_key,
                     wb_builders = map (\<lambda>f. builder_new (f_column_type f)) (s_fields s),
                     wb_rows = 0, wb_ordered = True, wb_last = None\<rparr>)
      else Err (BadOrderingKey ''index out of range''))"

fun cell_matches :: "column_type \<Rightarrow> row_value \<Rightarrow> bool" where
  "cell_matches F64 (RvF64 _) = True"
| "cell_matches I64 (RvI64 _) = True"
| "cell_matches Key (RvKey _) = True"
| "cell_matches _ _ = False"

fun validate_cells :: "field list \<Rightarrow> row_value list \<Rightarrow> (mem_error, unit) outcome" where
  "validate_cells (f # fs) (cell # cells) =
     (if cell = RvNull then
        (if f_nullable f then validate_cells fs cells else Err (NullNotAllowed (f_name f)))
      else if cell_matches (f_column_type f) cell then validate_cells fs cells
      else Err (TypeMismatch (f_name f) (f_column_type f)))"
| "validate_cells _ _ = Ok ()"

definition wb_validate :: "write_buffer \<Rightarrow> row_value list \<Rightarrow> (mem_error, unit) outcome" where
  "wb_validate wb row =
     (let fields = s_fields (wb_schema wb)
      in if length row \<noteq> length fields then Err (WrongArity (length fields) (length row))
         else validate_cells fields row)"

fun builder_push :: "column_builder \<Rightarrow> row_value \<Rightarrow> ('e, column_builder) outcome" where
  "builder_push (BF64 vs nulls) (RvF64 v) = Ok (BF64 (vs @ [v]) (nulls @ [False]))"
| "builder_push (BF64 vs nulls) RvNull = Ok (BF64 (vs @ [0]) (nulls @ [True]))"
| "builder_push (BI64 vs nulls) (RvI64 v) = Ok (BI64 (vs @ [v]) (nulls @ [False]))"
| "builder_push (BI64 vs nulls) RvNull = Ok (BI64 (vs @ [0]) (nulls @ [True]))"
| "builder_push (BKey codes nulls d) (RvKey s) =
     mapR (\<lambda>(d, code). BKey (codes @ [code]) (nulls @ [False]) d) (dict_intern d s)"
| "builder_push (BKey codes nulls d) RvNull = Ok (BKey (codes @ [0]) (nulls @ [True]) d)"
| "builder_push _ _ = Panic"

definition wb_append :: "write_buffer \<Rightarrow> row_value list \<Rightarrow> (mem_error, write_buffer) outcome" where
  "wb_append wb row =
     bindR (wb_validate wb row) (\<lambda>_.
     bindR (traverseR (\<lambda>(b, cell). builder_push b cell) (zip (wb_builders wb) row)) (\<lambda>builders.
       let (ordered, last) =
         (case row ! wb_ordering_key wb of
            RvI64 v \<Rightarrow>
              ((case wb_last wb of
                  Some l \<Rightarrow> if sint v < sint l then False else wb_ordered wb
                | None \<Rightarrow> wb_ordered wb), Some v)
          | _ \<Rightarrow> (wb_ordered wb, wb_last wb))
       in Ok (wb\<lparr>wb_builders := builders, wb_ordered := ordered, wb_last := last,
                 wb_rows := wb_rows wb + 1\<rparr>)))"

definition wb_len :: "write_buffer \<Rightarrow> nat" where
  "wb_len wb = wb_rows wb"

definition wb_is_empty :: "write_buffer \<Rightarrow> bool" where
  "wb_is_empty wb \<longleftrightarrow> wb_rows wb = 0"

definition nulls_validity :: "bool list \<Rightarrow> bitmap option" where
  "nulls_validity nulls = (if list_ex id nulls then Some (from_bools (map Not nulls)) else None)"

definition finish_numeric :: "u64 list \<Rightarrow> bool list \<Rightarrow> (mem_error, numeric_column) outcome" where
  "finish_numeric vs nulls =
     (case nulls_validity nulls of
        Some bm \<Rightarrow> nc_new_nullable vs bm
      | None \<Rightarrow> Ok (nc_new_non_null vs))"

fun builder_finish :: "column_builder \<Rightarrow> rstring \<Rightarrow> (mem_error, column) outcome" where
  "builder_finish (BF64 vs nulls) name = mapR (\<lambda>c. Numeric (NF64 c)) (finish_numeric vs nulls)"
| "builder_finish (BI64 vs nulls) name = mapR (\<lambda>c. Numeric (NI64 c)) (finish_numeric vs nulls)"
| "builder_finish (BKey codes nulls d) name =
     (if dict_is_empty d \<and> codes \<noteq> [] then Err (AllNullKeyColumn name)
      else mapR KeyCol
        (case nulls_validity nulls of
           Some bm \<Rightarrow> kc_new_nullable codes bm d
         | None \<Rightarrow> kc_new_non_null codes d))"

section \<open>Zone maps\<close>

datatype zone_map = ZF64 f64 f64 bool | ZI64 i64 i64

definition zone_step_f64 :: "(f64 \<times> f64) option \<times> bool \<Rightarrow> f64 \<Rightarrow> (f64 \<times> f64) option \<times> bool" where
  "zone_step_f64 = (\<lambda>(bounds, nan) v.
     if f64_is_nan v then (bounds, True)
     else (Some (case bounds of None \<Rightarrow> (v, v) | Some (low, high) \<Rightarrow> (f64_min low v, f64_max high v)), nan))"

definition zone_step_i64 :: "(i64 \<times> i64) option \<Rightarrow> i64 \<Rightarrow> (i64 \<times> i64) option" where
  "zone_step_i64 bounds v = Some (case bounds of
     None \<Rightarrow> (v, v)
   | Some (low, high) \<Rightarrow> (if sint v < sint low then v else low, if sint high < sint v then v else high))"

text \<open>The loop over a numeric column's valid values.\<close>

definition zone_fold :: "('s \<Rightarrow> u64 \<Rightarrow> 's) \<Rightarrow> 's \<Rightarrow> numeric_column \<Rightarrow> ('e, 's) outcome" where
  "zone_fold step init c =
     foldR (\<lambda>s (index, v). mapR (\<lambda>valid. if valid then step s v else s) (nc_is_valid c index))
       init (zip [0..<length (nc_values c)] (nc_values c))"

fun compute_zone_map :: "column \<Rightarrow> ('e, zone_map option) outcome" where
  "compute_zone_map (Numeric (NF64 c)) =
     mapR (\<lambda>(bounds, nan).
       case bounds of
         Some (lo, hi) \<Rightarrow> Some (ZF64 lo hi nan)
       | None \<Rightarrow> if nan then Some (ZF64 f64_nan f64_nan True) else None)
     (zone_fold zone_step_f64 (None, False) c)"
| "compute_zone_map (Numeric (NI64 c)) =
     mapR (map_option (\<lambda>(lo, hi). ZI64 lo hi)) (zone_fold zone_step_i64 None c)"
| "compute_zone_map (KeyCol k) = Ok None"

section \<open>Segments\<close>

datatype sequence_info = RowIds | Contiguous u64 | Explicit "u64 list"

record segment =
  sg_batch :: record_batch
  sg_ordering_key :: nat
  sg_ordered :: bool
  sg_base_row_id :: u64
  sg_zone_maps :: "zone_map option list"
  sg_sequence :: sequence_info
  sg_superseded :: "u64 list option"

definition freeze_at :: "write_buffer \<Rightarrow> u64 \<Rightarrow> (mem_error, segment) outcome" where
  "freeze_at wb base_row_id =
     bindR (traverseR (\<lambda>(f, b). builder_finish b (f_name f)) (zip (s_fields (wb_schema wb)) (wb_builders wb)))
       (\<lambda>columns.
     bindR (traverseR compute_zone_map columns) (\<lambda>zone_maps.
     bindR (record_batch_new (wb_schema wb) columns) (\<lambda>batch.
       Ok \<lparr>sg_batch = batch, sg_ordering_key = wb_ordering_key wb, sg_ordered = wb_ordered wb,
           sg_base_row_id = base_row_id, sg_zone_maps = zone_maps, sg_sequence = RowIds,
           sg_superseded = None\<rparr>)))"

definition freeze :: "write_buffer \<Rightarrow> (mem_error, segment) outcome" where
  "freeze wb = freeze_at wb 0"

text \<open>\<open>snapshot_at\<close> freezes a clone.\<close>

definition snapshot_at :: "write_buffer \<Rightarrow> u64 \<Rightarrow> (mem_error, segment) outcome" where
  "snapshot_at wb base_row_id = freeze_at wb base_row_id"

definition segment_from_batch :: "record_batch \<Rightarrow> nat \<Rightarrow> bool \<Rightarrow> ('e, segment) outcome" where
  "segment_from_batch rb ordering_key ordered =
     mapR (\<lambda>zone_maps. \<lparr>sg_batch = rb, sg_ordering_key = ordering_key, sg_ordered = ordered,
         sg_base_row_id = 0, sg_zone_maps = zone_maps, sg_sequence = RowIds, sg_superseded = None\<rparr>)
       (traverseR compute_zone_map (rb_columns rb))"

definition segment_from_batch_unpruned :: "record_batch \<Rightarrow> nat \<Rightarrow> bool \<Rightarrow> segment" where
  "segment_from_batch_unpruned rb ordering_key ordered =
     \<lparr>sg_batch = rb, sg_ordering_key = ordering_key, sg_ordered = ordered,
      sg_base_row_id = 0, sg_zone_maps = [], sg_sequence = RowIds, sg_superseded = None\<rparr>"

definition sg_zone_map :: "segment \<Rightarrow> nat \<Rightarrow> zone_map option" where
  "sg_zone_map s index = (if index < length (sg_zone_maps s) then sg_zone_maps s ! index else None)"

definition zone_maps_present :: "segment \<Rightarrow> bool" where
  "zone_maps_present s \<longleftrightarrow> sg_zone_maps s \<noteq> []"

fun column_resident_bytes :: "column \<Rightarrow> nat" where
  "column_resident_bytes (Numeric n) = nc_len (nd_column n) * 8 +
     (case nc_validity (nd_column n) of Some bm \<Rightarrow> length (bm_bytes bm) | None \<Rightarrow> 0)"
| "column_resident_bytes (KeyCol k) = kc_len k * 4 +
     (case kc_validity k of Some bm \<Rightarrow> length (bm_bytes bm) | None \<Rightarrow> 0) +
     length (d_bytes (kc_dictionary k)) + length (d_offsets (kc_dictionary k)) * 4"

definition resident_bytes :: "segment \<Rightarrow> nat" where
  "resident_bytes s =
     sum_list (map column_resident_bytes (rb_columns (sg_batch s))) +
     (case sg_sequence s of Explicit vs \<Rightarrow> length vs * 8 | _ \<Rightarrow> 0) +
     (case sg_superseded s of Some kills \<Rightarrow> length kills * 8 | None \<Rightarrow> 0)"

fun sequence_at_info :: "sequence_info \<Rightarrow> u64 \<Rightarrow> nat \<Rightarrow> ('e, u64) outcome" where
  "sequence_at_info RowIds base_row_id offset = Ok (base_row_id + word_of_nat offset)"
| "sequence_at_info (Contiguous base) base_row_id offset = Ok (base + word_of_nat offset)"
| "sequence_at_info (Explicit vs) base_row_id offset = (if offset < length vs then Ok (vs ! offset) else Panic)"

definition sequence_at :: "segment \<Rightarrow> nat \<Rightarrow> ('e, u64) outcome" where
  "sequence_at s offset = sequence_at_info (sg_sequence s) (sg_base_row_id s) offset"

definition max_u64 :: "u64 list \<Rightarrow> u64 option" where
  "max_u64 vs = (case vs of [] \<Rightarrow> None | v # rest \<Rightarrow> Some (foldl max v rest))"

definition sequence_end :: "segment \<Rightarrow> u64" where
  "sequence_end s =
     (let rows = word_of_nat (rb_num_rows (sg_batch s))
      in case sg_sequence s of
           RowIds \<Rightarrow> sg_base_row_id s + rows
         | Contiguous base \<Rightarrow> base + rows
         | Explicit vs \<Rightarrow> (case max_u64 vs of Some largest \<Rightarrow> largest + 1 | None \<Rightarrow> 0))"

definition with_sequence :: "segment \<Rightarrow> sequence_info \<Rightarrow> ('e, segment) outcome" where
  "with_sequence s info =
     (case info of
        Explicit vs \<Rightarrow> if length vs = rb_num_rows (sg_batch s) then Ok (s\<lparr>sg_sequence := info\<rparr>) else Panic
      | _ \<Rightarrow> Ok (s\<lparr>sg_sequence := info\<rparr>))"

definition with_superseded :: "segment \<Rightarrow> u64 list \<Rightarrow> ('e, segment) outcome" where
  "with_superseded s kills =
     (if length kills = rb_num_rows (sg_batch s) then Ok (s\<lparr>sg_superseded := Some kills\<rparr>) else Panic)"

section \<open>Cells\<close>

fun column_cells :: "column \<Rightarrow> row_value list" where
  "column_cells (Numeric (NF64 c)) =
     map2 (\<lambda>v p. if p then RvF64 v else RvNull) (nc_values c) (presence (nc_len c) (nc_validity c))"
| "column_cells (Numeric (NI64 c)) =
     map2 (\<lambda>v p. if p then RvI64 v else RvNull) (nc_values c) (presence (nc_len c) (nc_validity c))"
| "column_cells (KeyCol k) =
     map2 (\<lambda>c p. if p then RvKey (dict_names (kc_dictionary k) ! unat c) else RvNull)
       (kc_codes k) (presence (kc_len k) (kc_validity k))"

fun builder_type :: "column_builder \<Rightarrow> column_type" where
  "builder_type (BF64 _ _) = F64"
| "builder_type (BI64 _ _) = I64"
| "builder_type (BKey _ _ _) = Key"

fun builder_ok :: "column_builder \<Rightarrow> bool" where
  "builder_ok (BF64 vs nulls) \<longleftrightarrow> length vs = length nulls"
| "builder_ok (BI64 vs nulls) \<longleftrightarrow> length vs = length nulls"
| "builder_ok (BKey codes nulls d) \<longleftrightarrow> length codes = length nulls \<and> dict_ok d \<and>
     list_all2 (\<lambda>c null. if null then c = 0 else unat c < dict_len d) codes nulls"

fun builder_cells :: "column_builder \<Rightarrow> row_value list" where
  "builder_cells (BF64 vs nulls) = map2 (\<lambda>v null. if null then RvNull else RvF64 v) vs nulls"
| "builder_cells (BI64 vs nulls) = map2 (\<lambda>v null. if null then RvNull else RvI64 v) vs nulls"
| "builder_cells (BKey codes nulls d) =
     map2 (\<lambda>c null. if null then RvNull else RvKey (dict_names d ! unat c)) codes nulls"

text \<open>A \<open>&str\<close> is always UTF-8.\<close>

fun cell_utf8 :: "row_value \<Rightarrow> bool" where
  "cell_utf8 (RvKey s) = valid_utf8 s"
| "cell_utf8 _ = True"

lemma builder_new_ok [simp]:
  "builder_ok (builder_new ct)" "builder_cells (builder_new ct) = []" "builder_type (builder_new ct) = ct"
  by (cases ct; simp)+

lemma map2_snoc: "length xs = length ys \<Longrightarrow> map2 f (xs @ [x]) (ys @ [y]) = map2 f xs ys @ [f x y]"
  by simp

lemma list_all2_imp: "list_all2 P xs ys \<Longrightarrow> (\<And>x y. P x y \<Longrightarrow> Q x y) \<Longrightarrow> list_all2 Q xs ys"
  by (rule list_all2_mono)

lemma list_all2_snoc: "list_all2 P xs ys \<Longrightarrow> P x y \<Longrightarrow> list_all2 P (xs @ [x]) (ys @ [y])"
  by (intro list_all2_appendI) simp_all

lemma builder_push_cells:
  assumes "builder_push b cell = (Ok b' :: ('e, _) outcome)" "builder_ok b" "cell_utf8 cell"
  shows "builder_ok b' \<and> builder_type b' = builder_type b \<and> builder_cells b' = builder_cells b @ [cell]"
proof (cases b)
  case (BF64 vs nulls)
  then show ?thesis using assms by (cases cell) auto
next
  case (BI64 vs nulls)
  then show ?thesis using assms by (cases cell) auto
next
  case (BKey codes nulls d)
  then have ok: "length codes = length nulls" "dict_ok d"
    "list_all2 (\<lambda>c null. if null then c = 0 else unat c < dict_len d) codes nulls"
    using assms(2) by simp_all
  show ?thesis
  proof (cases cell)
    case (RvKey s)
    then obtain d' code where i: "dict_intern d s = (Ok (d', code) :: ('e, _) outcome)"
      and b': "b' = BKey (codes @ [code]) (nulls @ [False]) d'"
      using assms(1) BKey by auto
    have "valid_utf8 s" using assms(3) RvKey by simp
    note snd = di.intern_sound [OF ok(2) this i]
    have grow: "dict_len d \<le> dict_len d'"
      using arg_cong [OF snd(2), of length] by (auto split: if_splits)
    then have l2: "list_all2 (\<lambda>c null. if null then c = 0 else unat c < dict_len d') codes nulls"
      by (intro list_all2_imp [OF ok(3)]) (auto split: if_splits)
    have same: "dict_names d' ! unat c = dict_names d ! unat c" if "unat c < dict_len d" for c :: u32
      using that snd(2) by (auto simp: nth_append)
    have "map2 (\<lambda>c null. if null then RvNull else RvKey (dict_names d' ! unat c)) codes nulls =
        map2 (\<lambda>c null. if null then RvNull else RvKey (dict_names d ! unat c)) codes nulls"
      using ok(1,3) same by (induction codes nulls rule: list_induct2) auto
    moreover have "unat code < dict_len d'" using snd(3) by simp
    then have "list_all2 (\<lambda>c null. if null then c = 0 else unat c < dict_len d') (codes @ [code])
        (nulls @ [False])" by (intro list_all2_snoc [OF l2]) simp
    ultimately show ?thesis using snd(1,4) ok(1) BKey RvKey by (simp add: b')
  next
    case RvNull
    then have "b' = BKey (codes @ [0]) (nulls @ [True]) d" using assms(1) BKey by simp
    then show ?thesis using ok BKey RvNull list_all2_snoc [OF ok(3), where x = 0 and y = True] by simp
  qed (use assms(1) BKey in simp_all)
qed

lemma nulls_validity_presence:
  "length nulls = n \<Longrightarrow> validity_ok n (nulls_validity nulls) \<and> presence n (nulls_validity nulls) = map Not nulls"
proof (cases "list_ex id nulls")
  case False
  then have "map Not nulls = replicate (length nulls) True"
    by (induction nulls) auto
  then show "length nulls = n \<Longrightarrow> ?thesis" using False by (simp add: nulls_validity_def validity_ok_def presence_def)
qed (simp add: nulls_validity_def validity_ok_def presence_def)

lemma finish_numeric_eq:
  "length vs = length nulls \<Longrightarrow> finish_numeric vs nulls = Ok \<lparr>nc_values = vs, nc_validity = nulls_validity nulls\<rparr>"
  by (auto simp: finish_numeric_def nulls_validity_def nc_new_nullable_def nc_new_non_null_def)

lemma map2_Not: "length xs = length ys \<Longrightarrow> map2 (\<lambda>v p. if p then f v else z) xs (map Not ys) =
    map2 (\<lambda>v null. if null then z else f v) xs ys"
  by (induction xs ys rule: list_induct2) auto

lemma builder_finish_cells:
  assumes "builder_finish b name = Ok col" "builder_ok b"
  shows "column_ok col \<and> col_type col = builder_type b \<and> column_cells col = builder_cells b \<and>
    col_len col = length (builder_cells b) \<and> (col_validity col \<noteq> None \<longleftrightarrow> RvNull \<in> set (builder_cells b))"
proof (cases b)
  case (BF64 vs nulls)
  then have len: "length vs = length nulls" using assms(2) by simp
  then have "col = Numeric (NF64 \<lparr>nc_values = vs, nc_validity = nulls_validity nulls\<rparr>)"
    using assms(1) BF64 by (simp add: finish_numeric_eq)
  moreover have "RvNull \<in> set (builder_cells b) \<longleftrightarrow> nulls_validity nulls \<noteq> None"
    unfolding BF64 nulls_validity_def using len by (induction vs nulls rule: list_induct2) auto
  ultimately show ?thesis
    using BF64 len nulls_validity_presence [of nulls "length vs"] by (simp add: nc_len_def map2_Not)
next
  case (BI64 vs nulls)
  then have len: "length vs = length nulls" using assms(2) by simp
  then have "col = Numeric (NI64 \<lparr>nc_values = vs, nc_validity = nulls_validity nulls\<rparr>)"
    using assms(1) BI64 by (simp add: finish_numeric_eq)
  moreover have "RvNull \<in> set (builder_cells b) \<longleftrightarrow> nulls_validity nulls \<noteq> None"
    unfolding BI64 nulls_validity_def using len by (induction vs nulls rule: list_induct2) auto
  ultimately show ?thesis
    using BI64 len nulls_validity_presence [of nulls "length vs"] by (simp add: nc_len_def map2_Not)
next
  case (BKey codes nulls d)
  then have ok: "length codes = length nulls" "dict_ok d" using assms(2) by simp_all
  have col: "col = KeyCol \<lparr>kc_codes = codes, kc_validity = nulls_validity nulls, kc_dictionary = d\<rparr>"
    and "\<forall>c\<in>set codes. unat c < dict_len d"
    using assms(1) BKey by (auto simp: nulls_validity_def kc_new_nullable_eq kc_new_non_null_eq split: if_splits)
  moreover have cells: "column_cells col = builder_cells b"
    unfolding col BKey column_cells.simps builder_cells.simps key_column.simps kc_len_def
    using map2_Not [OF ok(1), of "\<lambda>c. RvKey (dict_names d ! unat c)" RvNull]
      nulls_validity_presence [of nulls "length codes"] ok(1) by simp
  moreover have "RvNull \<in> set (builder_cells b) \<longleftrightarrow> nulls_validity nulls \<noteq> None"
    unfolding BKey nulls_validity_def using ok(1) by (induction codes nulls rule: list_induct2) auto
  ultimately show ?thesis
    using BKey ok nulls_validity_presence [of nulls "length codes"] cells by (simp add: kc_len_def)
qed

lemma length_column_cells [simp]: "column_ok col \<Longrightarrow> length (column_cells col) = col_len col"
  by (cases col rule: column_cells.cases) (simp_all add: nc_len_def kc_len_def)

section \<open>The buffer holds the rows it was given\<close>

definition row_key :: "nat \<Rightarrow> row_value list \<Rightarrow> i64" where
  "row_key k row = (case row ! k of RvI64 v \<Rightarrow> v | _ \<Rightarrow> 0)"

definition sorted_keys :: "nat \<Rightarrow> row_value list list \<Rightarrow> bool" where
  "sorted_keys k rows \<longleftrightarrow> sorted (map (\<lambda>r. sint (row_key k r)) rows)"

definition wb_holds :: "write_buffer \<Rightarrow> row_value list list \<Rightarrow> bool" where
  "wb_holds wb rows \<longleftrightarrow>
     wb_rows wb = length rows \<and>
     list_all2 (\<lambda>f b. builder_ok b \<and> builder_type b = f_column_type f \<and>
       (f_nullable f \<or> RvNull \<notin> set (builder_cells b))) (s_fields (wb_schema wb)) (wb_builders wb) \<and>
     (\<forall>j<length (s_fields (wb_schema wb)). builder_cells (wb_builders wb ! j) = map (\<lambda>r. r ! j) rows) \<and>
     wb_ordering_key wb < length (s_fields (wb_schema wb)) \<and>
     f_column_type (s_fields (wb_schema wb) ! wb_ordering_key wb) = I64 \<and>
     \<not> f_nullable (s_fields (wb_schema wb) ! wb_ordering_key wb) \<and>
     wb_ordered wb = sorted_keys (wb_ordering_key wb) rows \<and>
     wb_last wb = (if rows = [] then None else Some (row_key (wb_ordering_key wb) (last rows)))"

lemma wb_new_holds:
  assumes "wb_new s k = Ok wb"
  shows "wb_holds wb []" "wb_schema wb = s" "wb_ordering_key wb = k"
  using assms
  by (auto simp: wb_new_def wb_holds_def Let_def sorted_keys_def list_all2_conv_all_nth split: if_splits)

lemma validate_cells_iff:
  "length fs = length row \<Longrightarrow> validate_cells fs row = Ok () \<longleftrightarrow>
   list_all2 (\<lambda>f cell. if cell = RvNull then f_nullable f else cell_matches (f_column_type f) cell) fs row"
  by (induction fs row rule: list_induct2) auto

lemma traverseR_nth:
  "traverseR f xs = Ok ys \<Longrightarrow> length ys = length xs \<and> (\<forall>i<length xs. f (xs ! i) = Ok (ys ! i))"
proof (induction xs arbitrary: ys)
  case (Cons x xs)
  then obtain y zs where "f x = Ok y" "traverseR f xs = Ok zs" "ys = y # zs" by auto
  then show ?case using Cons.IH [of zs] by (auto simp: nth_Cons split: nat.splits)
qed simp

lemma sorted_snoc: "sorted (xs @ [x]) \<longleftrightarrow> sorted xs \<and> (xs = [] \<or> last xs \<le> x)"
proof (cases xs rule: rev_cases)
  case (snoc ys y)
  then show ?thesis by (auto simp: sorted_append)
qed simp

lemma wb_append_holds:
  assumes "wb_holds wb rows" "wb_append wb row = Ok wb'" "\<forall>cell\<in>set row. cell_utf8 cell"
  shows "wb_holds wb' (rows @ [row])" "wb_schema wb' = wb_schema wb" "wb_ordering_key wb' = wb_ordering_key wb"
proof -
  let ?fs = "s_fields (wb_schema wb)" and ?bs = "wb_builders wb" and ?k = "wb_ordering_key wb"
  let ?ord = "case row ! ?k of
       RvI64 v \<Rightarrow> ((case wb_last wb of Some l \<Rightarrow> if sint v < sint l then False else wb_ordered wb
         | None \<Rightarrow> wb_ordered wb), Some v)
     | _ \<Rightarrow> (wb_ordered wb, wb_last wb)"
  obtain ord' last' where o: "?ord = (ord', last')" by fastforce
  have "\<exists>u bs. wb_validate wb row = Ok u \<and>
      traverseR (\<lambda>(b, cell). builder_push b cell) (zip ?bs row) = (Ok bs :: (mem_error, _) outcome) \<and>
      wb' = wb\<lparr>wb_builders := bs, wb_ordered := ord', wb_last := last', wb_rows := wb_rows wb + 1\<rparr>"
    using assms(2) unfolding wb_append_def Let_def o bindR_eq_Ok prod.case outcome.inject by (simp add: case_prod_unfold) metis
  then obtain bs where v: "wb_validate wb row = Ok ()"
    and t: "traverseR (\<lambda>(b, cell). builder_push b cell) (zip ?bs row) = (Ok bs :: (mem_error, _) outcome)"
    and wb': "wb' = wb\<lparr>wb_builders := bs, wb_ordered := ord', wb_last := last', wb_rows := wb_rows wb + 1\<rparr>"
    by auto
  have ord: "(wb_ordered wb', wb_last wb') = ?ord" unfolding o wb' by simp
  have schema: "wb_schema wb' = wb_schema wb" "wb_ordering_key wb' = ?k" "wb_builders wb' = bs"
    "wb_rows wb' = wb_rows wb + 1" by (simp_all add: wb')
  have len: "length row = length ?fs" and cells: "\<forall>j<length ?fs. if row ! j = RvNull then f_nullable (?fs ! j)
      else cell_matches (f_column_type (?fs ! j)) (row ! j)"
    using v validate_cells_iff [of ?fs row]
    by (auto simp: wb_validate_def Let_def list_all2_conv_all_nth split: if_splits)
  have l2: "length ?bs = length ?fs" "\<forall>j<length ?fs. builder_ok (?bs ! j) \<and> builder_type (?bs ! j) = f_column_type (?fs ! j) \<and>
      (f_nullable (?fs ! j) \<or> RvNull \<notin> set (builder_cells (?bs ! j)))"
    using assms(1) by (auto simp: wb_holds_def list_all2_conv_all_nth)
  have push: "length bs = length ?fs" "\<forall>j<length ?fs. builder_push (?bs ! j) (row ! j) = (Ok (bs ! j) :: (mem_error, _) outcome)"
    using traverseR_nth [OF t] l2(1) len by auto
  have step: "builder_ok (bs ! j) \<and> builder_type (bs ! j) = builder_type (?bs ! j) \<and>
      builder_cells (bs ! j) = builder_cells (?bs ! j) @ [row ! j]" if "j < length ?fs" for j
    using that push(2) l2 assms(3) len
      builder_push_cells [where ?'e = mem_error and b = "?bs ! j" and cell = "row ! j" and b' = "bs ! j"]
    by simp
  have k: "?k < length ?fs" "f_column_type (?fs ! ?k) = I64" "\<not> f_nullable (?fs ! ?k)"
    using assms(1) by (simp_all add: wb_holds_def)
  obtain key where key: "row ! ?k = RvI64 key"
    using cells k by (cases "row ! ?k") (auto split: if_splits)
  have ordered: "wb_ordered wb' = sorted_keys ?k (rows @ [row]) \<and> wb_last wb' = Some (row_key ?k row)"
    using ord key assms(1)
    by (auto simp: wb_holds_def sorted_keys_def row_key_def sorted_snoc last_map not_less split: if_splits)
  have "list_all2 (\<lambda>f b. builder_ok b \<and> builder_type b = f_column_type f \<and>
       (f_nullable f \<or> RvNull \<notin> set (builder_cells b))) ?fs bs"
    unfolding list_all2_conv_all_nth
  proof (intro conjI allI impI)
    fix j assume j: "j < length ?fs"
    then show "builder_ok (bs ! j)" "builder_type (bs ! j) = f_column_type (?fs ! j)" using step l2(2) by auto
    show "f_nullable (?fs ! j) \<or> RvNull \<notin> set (builder_cells (bs ! j))"
      using j step [OF j] l2(2) cells by (auto split: if_splits)
  qed (use push in simp)
  moreover have "\<forall>j<length ?fs. builder_cells (bs ! j) = map (\<lambda>r. r ! j) (rows @ [row])"
    using step assms(1) by (simp add: wb_holds_def)
  ultimately show "wb_holds wb' (rows @ [row])"
    using ordered k assms(1) by (simp add: wb_holds_def schema)
  show "wb_schema wb' = wb_schema wb" "wb_ordering_key wb' = wb_ordering_key wb" by (rule schema)+
qed

section \<open>Zone maps bound their columns\<close>

definition valid_values :: "numeric_column \<Rightarrow> u64 list" where
  "valid_values c = map fst (filter snd (zip (nc_values c) (presence (nc_len c) (nc_validity c))))"

lemma zone_fold_valid:
  assumes "validity_ok (nc_len c) (nc_validity c)"
  shows "zone_fold step init c = (Ok (foldl step init (valid_values c)) :: ('e, 's) outcome)"
proof -
  let ?p = "presence (nc_len c) (nc_validity c)"
  have gen: "foldR (\<lambda>s (index, v). mapR (\<lambda>valid. if valid then step s v else s) (nc_is_valid c index)) s
      (zip [i..<i + length vs] vs) = (Ok (foldl step s (map fst (filter snd (zip vs (drop i ?p))))) :: ('e, 's) outcome)"
    if "i + length vs = nc_len c" for i vs s
    using that
  proof (induction vs arbitrary: i s)
    case (Cons v vs)
    have upt: "[i..<i + length (v # vs)] = i # [Suc i..<Suc i + length vs]"
      by (subst upt_rec) (simp del: upt_Suc)
    have i: "i < nc_len c" using Cons.prems by simp
    then have "nc_is_valid c i = (Ok (?p ! i) :: ('e, bool) outcome)"
      using validity_get_presence [OF assms] by (simp add: nc_is_valid_def)
    moreover have "drop i ?p = ?p ! i # drop (Suc i) ?p"
      using i assms by (intro Cons_nth_drop_Suc [symmetric]) simp
    ultimately show ?case
      using Cons.IH [of "Suc i"] Cons.prems unfolding upt by simp
  qed simp
  show ?thesis using gen [of 0 "nc_values c" init] by (simp add: zone_fold_def nc_len_def valid_values_def)
qed

lemma compute_zone_map_total:
  "column_ok col \<Longrightarrow> \<exists>zm. compute_zone_map col = (Ok zm :: ('e, _) outcome)"
  by (cases col rule: compute_zone_map.cases) (simp_all add: zone_fold_valid)

fun zone_bounds :: "zone_map option \<Rightarrow> column \<Rightarrow> bool" where
  "zone_bounds None (Numeric n) \<longleftrightarrow> valid_values (nd_column n) = []"
| "zone_bounds (Some (ZF64 lo hi nan)) (Numeric (NF64 c)) \<longleftrightarrow>
     (nan \<longleftrightarrow> (\<exists>v\<in>set (valid_values c). f64_is_nan v)) \<and>
     (\<forall>v\<in>set (valid_values c). f64_is_nan v \<or> (f64_le lo v \<and> f64_le v hi))"
| "zone_bounds (Some (ZI64 lo hi)) (Numeric (NI64 c)) \<longleftrightarrow>
     (\<forall>v\<in>set (valid_values c). sint lo \<le> sint v \<and> sint v \<le> sint hi)"
| "zone_bounds None (KeyCol _) = True"
| "zone_bounds _ _ = False"

text \<open>What the running state of each fold says of the values seen.\<close>

fun zone_seen_f64 :: "f64 list \<Rightarrow> (f64 \<times> f64) option \<times> bool \<Rightarrow> bool" where
  "zone_seen_f64 vs (None, nan) \<longleftrightarrow> (nan \<longleftrightarrow> vs \<noteq> []) \<and> (\<forall>v\<in>set vs. f64_is_nan v)"
| "zone_seen_f64 vs (Some (lo, hi), nan) \<longleftrightarrow> (nan \<longleftrightarrow> (\<exists>v\<in>set vs. f64_is_nan v)) \<and>
     \<not> f64_is_nan lo \<and> \<not> f64_is_nan hi \<and> (\<forall>v\<in>set vs. f64_is_nan v \<or> (f64_le lo v \<and> f64_le v hi))"

fun zone_seen_i64 :: "i64 list \<Rightarrow> (i64 \<times> i64) option \<Rightarrow> bool" where
  "zone_seen_i64 vs None \<longleftrightarrow> vs = []"
| "zone_seen_i64 vs (Some (lo, hi)) \<longleftrightarrow> (\<forall>v\<in>set vs. sint lo \<le> sint v \<and> sint v \<le> sint hi)"

lemma zone_step_seen_f64: "zone_seen_f64 vs st \<Longrightarrow> zone_seen_f64 (vs @ [v]) (zone_step_f64 st v)"
proof (cases "(vs, st)" rule: zone_seen_f64.cases)
  case (1 us nan)
  then show "zone_seen_f64 vs st \<Longrightarrow> ?thesis"
    by (cases "f64_is_nan v"; cases us) (auto simp: zone_step_f64_def f64_le_refl)
next
  case (2 us lo hi nan)
  assume seen: "zone_seen_f64 vs st"
  show ?thesis
  proof (cases "f64_is_nan v")
    case True
    then show ?thesis using seen 2 by (simp add: zone_step_f64_def)
  next
    case False
    have m: "f64_le (f64_min lo v) lo" "f64_le (f64_min lo v) v" "\<not> f64_is_nan (f64_min lo v)"
      "f64_le hi (f64_max hi v)" "f64_le v (f64_max hi v)" "\<not> f64_is_nan (f64_max hi v)"
      using seen 2 False f64_min_le [of lo v] f64_max_ge [of hi v] by simp_all
    have "f64_is_nan u \<or> (f64_le (f64_min lo v) u \<and> f64_le u (f64_max hi v))" if "u \<in> set vs" for u
      using that seen 2 f64_le_trans [OF m(1)] f64_le_trans [OF _ m(4)] by auto
    then show ?thesis using seen 2 False m by (simp add: zone_step_f64_def)
  qed
qed

lemma zone_step_seen_i64: "zone_seen_i64 vs st \<Longrightarrow> zone_seen_i64 (vs @ [v]) (zone_step_i64 st v)"
  by (cases "(vs, st)" rule: zone_seen_i64.cases) (fastforce simp: zone_step_i64_def)+

lemma foldl_seen:
  assumes "P [] st" "\<And>vs st v. P vs st \<Longrightarrow> P (vs @ [v]) (step st v)"
  shows "P vs (foldl step st vs)"
  using assms by (induction vs rule: rev_induct) simp_all

lemma compute_zone_map_bounds:
  assumes "column_ok col" "compute_zone_map col = (Ok zm :: ('e, zone_map option) outcome)"
  shows "zone_bounds zm col"
proof (cases col rule: compute_zone_map.cases)
  case (1 c)
  obtain bounds nan where f: "foldl zone_step_f64 (None, False) (valid_values c) = (bounds, nan)" by fastforce
  let ?vs = "valid_values c"
  have seen: "zone_seen_f64 ?vs (bounds, nan)"
    using foldl_seen [where P = zone_seen_f64 and st = "(None, False)" and step = zone_step_f64, OF _ zone_step_seen_f64]
      f [symmetric] by simp
  have "zm = (case bounds of Some (lo, hi) \<Rightarrow> Some (ZF64 lo hi nan)
      | None \<Rightarrow> if nan then Some (ZF64 f64_nan f64_nan True) else None)"
    using assms 1 f by (simp add: zone_fold_valid)
  then show ?thesis using seen 1 by (cases "(?vs, (bounds, nan))" rule: zone_seen_f64.cases) (auto simp: neq_Nil_conv)
next
  case (2 c)
  let ?vs = "valid_values c"
  have seen: "zone_seen_i64 ?vs (foldl zone_step_i64 None ?vs)"
    using foldl_seen [where P = zone_seen_i64 and st = None and step = zone_step_i64, OF _ zone_step_seen_i64]
    by simp
  have "zm = map_option (\<lambda>(lo, hi). ZI64 lo hi) (foldl zone_step_i64 None ?vs)"
    using assms 2 by (simp add: zone_fold_valid)
  then show ?thesis
    using seen 2 by (cases "(?vs, foldl zone_step_i64 None ?vs)" rule: zone_seen_i64.cases) simp_all
qed (use assms in simp)

section \<open>Freezing\<close>

lemma freeze_at_holds:
  assumes "wb_holds wb rows" "freeze_at wb base = Ok seg"
  shows "batch_ok (sg_batch seg)" "sg_ordered seg = sorted_keys (wb_ordering_key wb) rows"
    "rb_schema (sg_batch seg) = wb_schema wb" "sg_base_row_id seg = base" "sg_sequence seg = RowIds"
    "\<forall>j<length (s_fields (wb_schema wb)).
      column_cells (rb_columns (sg_batch seg) ! j) = map (\<lambda>r. r ! j) rows \<and>
      zone_bounds (sg_zone_maps seg ! j) (rb_columns (sg_batch seg) ! j)"
    "rb_num_rows (sg_batch seg) = length rows"
proof -
  let ?fs = "s_fields (wb_schema wb)" and ?bs = "wb_builders wb"
  obtain cols zms rb where c: "traverseR (\<lambda>(f, b). builder_finish b (f_name f)) (zip ?fs ?bs) = Ok cols"
    and z: "traverseR compute_zone_map cols = (Ok zms :: (mem_error, _) outcome)"
    and r: "record_batch_new (wb_schema wb) cols = (Ok rb :: (mem_error, _) outcome)"
    and seg: "seg = \<lparr>sg_batch = rb, sg_ordering_key = wb_ordering_key wb, sg_ordered = wb_ordered wb,
           sg_base_row_id = base, sg_zone_maps = zms, sg_sequence = RowIds, sg_superseded = None\<rparr>"
    using assms(2) by (auto simp: freeze_at_def)
  have l2: "length ?bs = length ?fs" "\<forall>j<length ?fs. builder_ok (?bs ! j)"
    "\<forall>j<length ?fs. builder_cells (?bs ! j) = map (\<lambda>r. r ! j) rows"
    using assms(1) by (auto simp: wb_holds_def list_all2_conv_all_nth)
  have cols: "length cols = length ?fs" "\<forall>j<length ?fs. builder_finish (?bs ! j) (f_name (?fs ! j)) = Ok (cols ! j)"
    using traverseR_nth [OF c] l2(1) by auto
  have fin: "column_ok (cols ! j) \<and> column_cells (cols ! j) = map (\<lambda>r. r ! j) rows \<and>
      col_len (cols ! j) = length rows" if "j < length ?fs" for j
    using builder_finish_cells [of "?bs ! j"] cols l2 that by fastforce
  have ok: "\<forall>c\<in>set cols. column_ok c" using fin cols(1) by (auto simp: in_set_conv_nth)
  note rb = record_batch_new_ok [OF r ok]
  have "0 < length ?fs" using assms(1) by (auto simp: wb_holds_def)
  then have "cols ! 0 \<in> set cols" using cols(1) by simp
  then have "rb_num_rows rb = length rows"
    using batch_ok_len [OF rb(1), of "cols ! 0"] rb(3) fin [of 0] \<open>0 < length ?fs\<close> by simp
  then show "rb_num_rows (sg_batch seg) = length rows" by (simp add: seg)
  show "\<forall>j<length ?fs. column_cells (rb_columns (sg_batch seg) ! j) = map (\<lambda>r. r ! j) rows \<and>
      zone_bounds (sg_zone_maps seg ! j) (rb_columns (sg_batch seg) ! j)"
    using traverseR_nth [OF z] fin cols(1) rb(3) compute_zone_map_bounds [where ?'e = mem_error]
    by (simp add: seg)
  show "batch_ok (sg_batch seg)" "sg_ordered seg = sorted_keys (wb_ordering_key wb) rows"
    "rb_schema (sg_batch seg) = wb_schema wb" "sg_base_row_id seg = base" "sg_sequence seg = RowIds"
    using rb assms(1) by (simp_all add: seg wb_holds_def)
qed

lemma append_all_holds:
  assumes "wb_holds wb rows0" "foldR wb_append wb rows = Ok wb'" "\<forall>r\<in>set rows. \<forall>cell\<in>set r. cell_utf8 cell"
  shows "wb_holds wb' (rows0 @ rows) \<and> wb_schema wb' = wb_schema wb \<and> wb_ordering_key wb' = wb_ordering_key wb"
  using assms
proof (induction rows arbitrary: wb rows0)
  case (Cons r rows)
  then obtain wb1 where a: "wb_append wb r = Ok wb1" "foldR wb_append wb1 rows = Ok wb'" by auto
  then show ?case
    using Cons.IH [OF wb_append_holds(1) [OF Cons.prems(1) a(1)] a(2)]
      wb_append_holds(2,3) [OF Cons.prems(1) a(1)] Cons.prems(3) by simp
qed simp

section \<open>Properties\<close>

text \<open>
  C2: Ingest is faithful.  Rows appended to a fresh write buffer freeze into a well-formed
  segment that holds exactly those rows: as many rows, and in every column the cells that
  were given, nulls included; the ordered flag says whether the ordering key arrived
  non-decreasing; and every column's zone map bounds its valid values (with the NaN flag
  exactly when a valid NaN is present).
\<close>
theorem freeze_faithful:
  assumes "wb_new s k = Ok wb0" "foldR wb_append wb0 rows = Ok wb" "freeze_at wb base = Ok seg"
    and "\<forall>r\<in>set rows. \<forall>cell\<in>set r. cell_utf8 cell"
  shows "batch_ok (sg_batch seg) \<and> rb_schema (sg_batch seg) = s \<and> sg_base_row_id seg = base \<and>
    rb_num_rows (sg_batch seg) = length rows \<and>
    (\<forall>j<length (s_fields s). column_cells (rb_columns (sg_batch seg) ! j) = map (\<lambda>r. r ! j) rows) \<and>
    (sg_ordered seg \<longleftrightarrow> sorted (map (\<lambda>r. sint (row_key k r)) rows)) \<and>
    (\<forall>j<length (s_fields s). zone_bounds (sg_zone_maps seg ! j) (rb_columns (sg_batch seg) ! j))"
proof -
  have "wb_holds wb rows" "wb_schema wb = s" "wb_ordering_key wb = k"
    using append_all_holds [OF wb_new_holds(1) [OF assms(1)] assms(2,4)] wb_new_holds(2,3) [OF assms(1)]
    by simp_all
  then show ?thesis using freeze_at_holds [OF _ assms(3), of rows] by (simp add: sorted_keys_def)
qed

theorem freeze_faithful_witness:
  "\<exists>wb0 wb seg. wb_new \<lparr>s_fields = [field_new (ascii ''t'') I64 False]\<rparr> 0 = Ok wb0 \<and>
     foldR wb_append wb0 [[RvI64 3], [RvI64 1]] = Ok wb \<and> freeze_at wb 7 = Ok seg \<and>
     rb_num_rows (sg_batch seg) = 2 \<and> \<not> sg_ordered seg"
proof -
  let ?s = "\<lparr>s_fields = [field_new (ascii ''t'') I64 False]\<rparr>"
  have "\<exists>wb0 wb seg. wb_new ?s 0 = Ok wb0 \<and> foldR wb_append wb0 [[RvI64 3], [RvI64 1]] = Ok wb \<and>
      freeze_at wb 7 = Ok seg"
    by (simp add: wb_new_def field_new_def wb_append_def wb_validate_def freeze_at_def finish_numeric_def
        nulls_validity_def nc_new_non_null_def zone_fold_def nc_is_valid_def validity_get_def nc_len_def
        record_batch_new_def binding_ok_def Let_def)
  then obtain wb0 wb seg where h: "wb_new ?s 0 = Ok wb0" "foldR wb_append wb0 [[RvI64 3], [RvI64 1]] = Ok wb"
    "freeze_at wb 7 = Ok seg" by blast
  have "rb_num_rows (sg_batch seg) = 2 \<and> \<not> sg_ordered seg"
    using freeze_faithful [OF h] by (simp add: row_key_def)
  then show ?thesis using h by blast
qed



end
