(* ===== verification/Format.thy ===== *)
theory Format
  imports Reader Alp Mem
begin

text \<open>
  The segment file of \<^verbatim>\<open>src/storage_lite/format.rs\<close>: encoder and decoder of fields, zone maps,
  validity bitmaps, columns with their codecs, dictionaries, the trailer sections and the
  whole file with its checksum.  \<open>segment_ok\<close> collects what the engine's constructors
  establish of a segment plus the bounds of the file's length fields; for such a segment
  decoding inverts encoding (\<open>SegmentFile\<close>).
\<close>

definition failP :: "format_error \<Rightarrow> 'a parser" where
  "failP e r = Err e"

lemma safe_fail [intro, simp]: "safeP (failP e)"
  by (simp add: safeP_def failP_def)

definition corruptP :: "string \<Rightarrow> 'a parser" where
  "corruptP what = failP (Corrupt what)"

lemma safe_corrupt [intro, simp]: "safeP (corruptP what)"
  by (simp add: corruptP_def)

text \<open>The file's unread length: \<open>bytes.len() - reader.position\<close>.\<close>

definition r_remaining :: "nat parser" where
  "r_remaining r = Ok (length (r_bytes r) - r_position r, r)"

lemma safe_remaining [intro, simp]: "safeP r_remaining"
  by (simp add: safeP_def r_remaining_def)

definition MAGIC :: bytes where "MAGIC = ascii ''TALLYSEG''"

definition VERSION :: u16 where "VERSION = 1"

definition VERSION_TRAILERED :: u16 where "VERSION_TRAILERED = 2"

definition TRAILER_SEQUENCE :: u16 where "TRAILER_SEQUENCE = 1"

definition TRAILER_SUPERSEDED :: u16 where "TRAILER_SUPERSEDED = 2"

definition SEQUENCE_CONTIGUOUS :: u8 where "SEQUENCE_CONTIGUOUS = 1"

definition SEQUENCE_EXPLICIT :: u8 where "SEQUENCE_EXPLICIT = 2"

definition PAYLOAD_OFFSET :: nat where "PAYLOAD_OFFSET = 16"

section \<open>Encoding\<close>

definition u8_of_bool :: "bool \<Rightarrow> u8" where
  "u8_of_bool b = (if b then 1 else 0)"

fun logical_payload :: "logical_type \<Rightarrow> u8" where
  "logical_payload (Decimal64 s) = s"
| "logical_payload TimestampNs = 0"

text \<open>The name's length is cast with \<open>as u16\<close>.\<close>

definition encode_field :: "field \<Rightarrow> bytes" where
  "encode_field f =
     le_bytes 2 (word_of_nat (length (f_name f)) :: u16) @ f_name f @
     [column_type_tag (f_column_type f), u8_of_bool (f_nullable f)] @
     (case f_logical f of
        None \<Rightarrow> [0, 0]
      | Some logical \<Rightarrow> [logical_tag logical, logical_payload logical])"

fun writer_codec :: "segment \<Rightarrow> column \<Rightarrow> bool \<Rightarrow> codec" where
  "writer_codec s (Numeric (NI64 _)) is_ordering_key =
     (if is_ordering_key \<and> sg_ordered s then DeltaOfDeltaI64 else ForI64)"
| "writer_codec s (Numeric (NF64 _)) is_ordering_key = AlpF64"
| "writer_codec s (KeyCol _) is_ordering_key = ForU32"

fun encode_zone_map :: "zone_map option \<Rightarrow> bytes" where
  "encode_zone_map None = [0]"
| "encode_zone_map (Some (ZF64 lo hi nan)) = [1 OR push_bit 1 (u8_of_bool nan)] @ le_bytes 8 lo @ le_bytes 8 hi"
| "encode_zone_map (Some (ZI64 lo hi)) = [1] @ le_bytes 8 lo @ le_bytes 8 hi"

fun encode_validity :: "bitmap option \<Rightarrow> bytes" where
  "encode_validity None = [0]"
| "encode_validity (Some bm) = [1] @ le_bytes 4 (word_of_nat (length (bm_bytes bm)) :: u32) @ bm_bytes bm"

definition push_values :: "bytes \<Rightarrow> bytes" where
  "push_values bytes = le_bytes 8 (word_of_nat (length bytes) :: u64) @ bytes"

definition encode_dictionary :: "dictionary \<Rightarrow> bytes" where
  "encode_dictionary d =
     le_bytes 4 (word_of_nat (dict_len d) :: u32) @ concat (map (le_bytes 4) (d_offsets d)) @
     le_bytes 4 (word_of_nat (length (d_bytes d)) :: u32) @ d_bytes d"

fun encode_values :: "codec \<Rightarrow> column \<Rightarrow> bytes" where
  "encode_values codec (Numeric (NF64 c)) =
     push_values (case codec of
       AlpF64 \<Rightarrow> encode_alp_f64 (nc_values c)
     | _ \<Rightarrow> concat (map (le_bytes 8) (nc_values c)))"
| "encode_values codec (Numeric (NI64 c)) =
     push_values (case codec of
       DeltaOfDeltaI64 \<Rightarrow> encode_delta_of_delta (nc_values c)
     | ForI64 \<Rightarrow> encode_for_i64 (nc_values c)
     | _ \<Rightarrow> concat (map (le_bytes 8) (nc_values c)))"
| "encode_values codec (KeyCol k) =
     push_values (case codec of
       ForU32 \<Rightarrow> encode_for_u32 (kc_codes k)
     | _ \<Rightarrow> concat (map (le_bytes 4) (kc_codes k))) @ encode_dictionary (kc_dictionary k)"

definition encode_column :: "segment \<Rightarrow> field \<Rightarrow> column \<Rightarrow> bool \<Rightarrow> zone_map option \<Rightarrow> bytes" where
  "encode_column s f c is_ordering_key zm =
     (let codec = writer_codec s c is_ordering_key
      in encode_field f @ [codec_tag codec] @ encode_zone_map zm @ encode_validity (col_validity c) @
         encode_values codec c)"

text \<open>\<open>u64\<close> sequences go through the \<open>i64\<close> codec by a bit-preserving cast.\<close>

definition trailer_sections :: "segment \<Rightarrow> (u16 \<times> bytes) list" where
  "trailer_sections s =
     (case sg_sequence s of
        RowIds \<Rightarrow> []
      | Contiguous base \<Rightarrow> [(TRAILER_SEQUENCE, SEQUENCE_CONTIGUOUS # le_bytes 8 base)]
      | Explicit vs \<Rightarrow> [(TRAILER_SEQUENCE, SEQUENCE_EXPLICIT # encode_delta_of_delta vs)]) @
     (case sg_superseded s of
        Some kills \<Rightarrow> [(TRAILER_SUPERSEDED, encode_delta_of_delta kills)]
      | None \<Rightarrow> [])"

definition encode_sections :: "(u16 \<times> bytes) list \<Rightarrow> bytes" where
  "encode_sections sections =
     le_bytes 2 (word_of_nat (length sections) :: u16) @
     concat (map (\<lambda>(tag, payload). le_bytes 2 tag @ le_bytes 4 (word_of_nat (length payload) :: u32) @ payload)
       sections)"

definition segment_version :: "segment \<Rightarrow> u16" where
  "segment_version s =
     (if sg_sequence s = RowIds \<and> sg_superseded s = None then VERSION else VERSION_TRAILERED)"

definition segment_payload :: "segment \<Rightarrow> bytes" where
  "segment_payload s =
     (let batch = sg_batch s; fields = s_fields (rb_schema batch)
      in le_bytes 8 (sg_base_row_id s) @
         le_bytes 8 (word_of_nat (rb_num_rows batch) :: u64) @
         le_bytes 4 (word_of_nat (sg_ordering_key s) :: u32) @
         le_bytes 4 (if sg_ordered s then 1 else 0 :: u32) @
         le_bytes 4 (word_of_nat (length fields) :: u32) @
         concat (map (\<lambda>(index, f, c). encode_column s f c (index = sg_ordering_key s) (sg_zone_map s index))
           (zip [0..<length fields] (zip fields (rb_columns batch)))) @
         (if segment_version s = VERSION_TRAILERED then encode_sections (trailer_sections s) else []))"

text \<open>The header, then the checksum of everything after it.\<close>

definition seal :: "bytes \<Rightarrow> u16 \<Rightarrow> bytes \<Rightarrow> bytes" where
  "seal magic version payload =
     magic @ le_bytes 2 version @ le_bytes 2 (0 :: u16) @ le_bytes 4 (crc32c payload) @ payload"

definition encode_segment :: "segment \<Rightarrow> bytes" where
  "encode_segment s = seal MAGIC (segment_version s) (segment_payload s)"

section \<open>Decoding\<close>

definition decode_field :: "field parser" where
  "decode_field =
     bindP r_u16 (\<lambda>name_len.
     bindP (r_take (unat name_len)) (\<lambda>name.
     if \<not> valid_utf8 name then corruptP ''column name is not UTF-8''
     else
       bindP r_u8 (\<lambda>type_tag.
       case column_type_from_tag type_tag of
         None \<Rightarrow> corruptP ''unknown column type''
       | Some ct \<Rightarrow>
           bindP r_u8 (\<lambda>nullable.
           bindP r_u8 (\<lambda>tag.
           bindP r_u8 (\<lambda>payload.
           let f = field_new name ct (nullable \<noteq> 0)
           in if tag = 0 then returnP f
              else case logical_from_parts tag payload of
                     None \<Rightarrow> corruptP ''unknown logical type''
                   | Some logical \<Rightarrow> liftP (with_logical f logical)))))))"

definition decode_zone_map :: "column_type \<Rightarrow> zone_map option parser" where
  "decode_zone_map ct =
     bindP r_u8 (\<lambda>presence.
     if presence AND NOT 3 \<noteq> 0 \<or> (presence AND 2 \<noteq> 0 \<and> presence AND 1 = 0)
     then corruptP ''invalid zone-map presence byte''
     else if presence AND 1 = 0 then returnP None
     else
       (let nan = (presence AND 2 \<noteq> 0)
        in bindP (r_take 8) (\<lambda>lo.
           bindP (r_take 8) (\<lambda>hi.
           case ct of
             F64 \<Rightarrow> returnP (Some (ZF64 (le_word lo) (le_word hi) nan))
           | I64 \<Rightarrow> if nan then corruptP ''i64 column carries the NaN zone-map bit''
                    else returnP (Some (ZI64 (le_word lo) (le_word hi)))
           | Key \<Rightarrow> corruptP ''key column carries a zone map''))))"

definition decode_validity :: "nat \<Rightarrow> bitmap option parser" where
  "decode_validity rows =
     bindP r_u8 (\<lambda>present.
     if present \<noteq> 0 then
       bindP r_u32 (\<lambda>byte_len.
       bindP (r_take (unat byte_len)) (\<lambda>bytes.
       if unat byte_len < div_ceil rows 8 then corruptP ''validity bitmap is shorter than the rows''
       else liftP (mapR (\<lambda>bools. Some (from_bools bools))
         (traverseR (\<lambda>row. if row div 8 < length bytes
            then Ok (drop_bit (row mod 8) (bytes ! (row div 8)) AND 1 = 1) else Panic) [0..<rows]))))
     else returnP None)"

text \<open>\<open>bytes.as_chunks::<N>().0\<close> read as little-endian words.\<close>

fun le_words :: "nat \<Rightarrow> bytes \<Rightarrow> nat \<Rightarrow> 'a::len word list" where
  "le_words n bytes 0 = []"
| "le_words n bytes (Suc k) = le_word (take n bytes) # le_words n (drop n bytes) k"

definition decode_plain :: "nat \<Rightarrow> string \<Rightarrow> bytes \<Rightarrow> nat \<Rightarrow> (format_error, 'a::len word list) outcome" where
  "decode_plain n what bytes rows =
     (if length bytes \<noteq> rows * n then Err (Corrupt what) else Ok (le_words n bytes rows))"

fun decode_f64_values :: "codec \<Rightarrow> bytes \<Rightarrow> nat \<Rightarrow> (format_error, f64 list) outcome" where
  "decode_f64_values Uncompressed bytes rows = decode_plain 8 ''f64 column holds another number of bytes'' bytes rows"
| "decode_f64_values AlpF64 bytes rows = map_err CodecErr (decode_alp_f64 bytes rows)"
| "decode_f64_values _ bytes rows = Err (Corrupt ''f64 column carries another codec'')"

fun decode_i64_values :: "codec \<Rightarrow> bytes \<Rightarrow> nat \<Rightarrow> (format_error, i64 list) outcome" where
  "decode_i64_values Uncompressed bytes rows = decode_plain 8 ''i64 column holds another number of bytes'' bytes rows"
| "decode_i64_values DeltaOfDeltaI64 bytes rows = map_err CodecErr (decode_delta_of_delta bytes rows)"
| "decode_i64_values ForI64 bytes rows = map_err CodecErr (decode_for_i64 bytes rows)"
| "decode_i64_values _ bytes rows = Err (Corrupt ''i64 column carries another codec'')"

fun decode_code_values :: "codec \<Rightarrow> bytes \<Rightarrow> nat \<Rightarrow> (format_error, u32 list) outcome" where
  "decode_code_values ForU32 bytes rows = map_err CodecErr (decode_for_u32 bytes rows)"
| "decode_code_values Uncompressed bytes rows = decode_plain 4 ''key column holds another number of bytes'' bytes rows"
| "decode_code_values _ bytes rows = Err (Corrupt ''key column carries another codec'')"

text \<open>The loop over \<open>offsets.windows(2)\<close>; an \<open>i32\<close> is read with its sign.\<close>

fun dictionary_loop :: "bytes \<Rightarrow> i32 list \<Rightarrow> dictionary \<Rightarrow> (format_error, dictionary) outcome" where
  "dictionary_loop bytes (start # end # rest) d =
     (if \<not> (0 \<le> sint start \<and> sint start \<le> sint end \<and> i32_as_usize end \<le> length bytes)
      then Err (Corrupt ''dictionary offsets are not monotonic in range'')
      else
        (let value = take (i32_as_usize end - i32_as_usize start) (drop (i32_as_usize start) bytes)
         in if \<not> valid_utf8 value then Err (Corrupt ''dictionary value is not UTF-8'')
            else bindR (dict_intern d value) (\<lambda>(d, code).
              if unat code \<noteq> dict_len d - 1 then Err (Corrupt ''dictionary repeats a value'')
              else dictionary_loop bytes (end # rest) d)))"
| "dictionary_loop bytes _ d = Ok d"

definition decode_dictionary :: "dictionary parser" where
  "decode_dictionary =
     bindP r_u32 (\<lambda>entries.
     bindP (repeatP (unat entries + 1) r_i32) (\<lambda>offsets.
     bindP r_u32 (\<lambda>bytes_len.
     bindP (r_take (unat bytes_len)) (\<lambda>bytes.
     liftP (dictionary_loop bytes offsets dict_new)))))"

definition numeric_of :: "u64 list \<Rightarrow> bitmap option \<Rightarrow> ('e, numeric_column) outcome" where
  "numeric_of vs validity =
     (case validity of Some bm \<Rightarrow> nc_new_nullable vs bm | None \<Rightarrow> Ok (nc_new_non_null vs))"

definition code_ok :: "dictionary \<Rightarrow> u32 \<Rightarrow> bool" where
  "code_ok d code \<longleftrightarrow> unat code < dict_len d \<or> (code = 0 \<and> dict_is_empty d)"

definition decode_values :: "column_type \<Rightarrow> codec \<Rightarrow> nat \<Rightarrow> bitmap option \<Rightarrow> bytes \<Rightarrow> column parser" where
  "decode_values ct codec rows validity values =
     (case ct of
        F64 \<Rightarrow> liftP (bindR (decode_f64_values codec values rows) (\<lambda>vs.
          mapR (\<lambda>c. Numeric (NF64 c)) (numeric_of vs validity)))
      | I64 \<Rightarrow> liftP (bindR (decode_i64_values codec values rows) (\<lambda>vs.
          mapR (\<lambda>c. Numeric (NI64 c)) (numeric_of vs validity)))
      | Key \<Rightarrow>
          bindP (liftP (decode_code_values codec values rows)) (\<lambda>codes.
          bindP decode_dictionary (\<lambda>d.
          if \<exists>code\<in>set codes. \<not> code_ok d code then corruptP ''key column code exceeds its dictionary''
          else liftP (mapR KeyCol (case validity of
            Some bm \<Rightarrow> kc_new_nullable codes bm d
          | None \<Rightarrow> kc_new_non_null codes d)))))"

definition decode_column :: "nat \<Rightarrow> (field \<times> column \<times> zone_map option) parser" where
  "decode_column rows =
     bindP decode_field (\<lambda>f.
     bindP r_u8 (\<lambda>codec_byte.
     case codec_from_tag codec_byte of
       None \<Rightarrow> corruptP ''unknown codec''
     | Some codec \<Rightarrow>
         bindP (decode_zone_map (f_column_type f)) (\<lambda>zm.
         bindP (decode_validity rows) (\<lambda>validity.
         bindP r_u64 (\<lambda>values_len.
         bindP (r_take (unat values_len)) (\<lambda>values.
         bindP (decode_values (f_column_type f) codec rows validity values) (\<lambda>c.
         returnP (f, c, zm))))))))"

definition decode_sequence_section :: "bytes \<Rightarrow> nat \<Rightarrow> (format_error, sequence_info) outcome" where
  "decode_sequence_section payload rows =
     (case payload of
        [] \<Rightarrow> Err (Corrupt ''empty sequence section'')
      | state # rest \<Rightarrow>
          if state = SEQUENCE_CONTIGUOUS then
            (if length rest = 8 then Ok (Contiguous (le_word rest))
             else Err (Corrupt ''contiguous sequence base is 8 bytes''))
          else if state = SEQUENCE_EXPLICIT then
            mapR Explicit (map_err CodecErr (decode_delta_of_delta rest rows))
          else Err (Corrupt ''unknown sequence state byte''))"

text \<open>
  The section scheme segments and manifests share: a count, then per section a tag, a
  length and a payload.  \<open>handler\<close> is the \<open>match\<close> on the tag.
\<close>

fun read_sections :: "(u16 \<Rightarrow> bytes \<Rightarrow> 's \<Rightarrow> (format_error, 's) outcome) \<Rightarrow> nat \<Rightarrow> 's \<Rightarrow> 's parser" where
  "read_sections handler 0 st = returnP st"
| "read_sections handler (Suc n) st =
     bindP r_u16 (\<lambda>tag.
     bindP r_u32 (\<lambda>len.
     bindP (r_take (unat len)) (\<lambda>payload.
     bindP (liftP (handler tag payload st)) (\<lambda>st.
     read_sections handler n st))))"

definition trailer_section ::
  "nat \<Rightarrow> u16 \<Rightarrow> bytes \<Rightarrow> sequence_info \<times> u64 list option \<Rightarrow> (format_error, sequence_info \<times> u64 list option) outcome" where
  "trailer_section rows tag payload st =
     (if tag = TRAILER_SEQUENCE then
        mapR (\<lambda>sequence. (sequence, snd st)) (decode_sequence_section payload rows)
      else if tag = TRAILER_SUPERSEDED then
        mapR (\<lambda>kills. (fst st, Some kills)) (map_err CodecErr (decode_delta_of_delta payload rows))
      else Ok st)"

definition segment_body :: "u16 \<Rightarrow> segment parser" where
  "segment_body version =
     bindP r_u64 (\<lambda>base_row_id.
     bindP r_u64 (\<lambda>row_count.
     bindP r_u32 (\<lambda>ordering_key.
     bindP r_u32 (\<lambda>flags.
     bindP r_u32 (\<lambda>column_count.
     if unat column_count \<le> unat ordering_key then corruptP ''ordering key index out of range''
     else
       bindP (repeatP (unat column_count) (decode_column (unat row_count))) (\<lambda>cols.
       bindP (if version = VERSION_TRAILERED
              then bindP r_u16 (\<lambda>n. read_sections (trailer_section (unat row_count)) (unat n) (RowIds, None))
              else returnP (RowIds, None)) (\<lambda>(sequence, superseded).
       bindP r_remaining (\<lambda>left.
       if left \<noteq> 0 then corruptP ''bytes remain after the last column or section''
       else
         liftP (mapR (\<lambda>batch. \<lparr>sg_batch = batch, sg_ordering_key = unat ordering_key,
             sg_ordered = (flags AND 1 \<noteq> 0), sg_base_row_id = base_row_id,
             sg_zone_maps = map (\<lambda>(f, c, zm). zm) cols, sg_sequence = sequence, sg_superseded = superseded\<rparr>)
           (record_batch_new \<lparr>s_fields = map (\<lambda>(f, c, zm). f) cols\<rparr> (map (\<lambda>(f, c, zm). c) cols)))))))))))"

text \<open>The header checks both containers share.\<close>

definition open_sealed :: "bytes \<Rightarrow> bytes \<Rightarrow> u16 \<Rightarrow> u16 \<Rightarrow> (u16 \<Rightarrow> 'a parser) \<Rightarrow> (format_error, 'a) outcome" where
  "open_sealed bytes magic v1 v2 body =
     mapR fst (bindP (r_take 8) (\<lambda>m.
       if m \<noteq> magic then failP BadMagic
       else
         bindP r_u16 (\<lambda>version.
         if version \<noteq> v1 \<and> version \<noteq> v2 then failP (UnsupportedVersion version)
         else
           bindP r_u16 (\<lambda>reserved.
           if reserved \<noteq> 0 then corruptP ''reserved header bytes are not zero''
           else
             bindP r_u32 (\<lambda>stored.
             let computed = crc32c (drop PAYLOAD_OFFSET bytes)
             in if stored \<noteq> computed then failP (ChecksumMismatch stored computed)
                else body version))))
       \<lparr>r_bytes = bytes, r_position = 0\<rparr>)"

definition decode_segment :: "bytes \<Rightarrow> (format_error, segment) outcome" where
  "decode_segment bytes = open_sealed bytes MAGIC VERSION VERSION_TRAILERED segment_body"

end
