(* ===== verification/SegmentFile.thy ===== *)
theory SegmentFile
  imports Format
begin

text \<open>
  What the segment file promises: every part that the encoder writes is read back by its
  decoder (\<open>parses\<close>), and a whole well-formed segment decodes to itself.
\<close>

section \<open>Fields\<close>

definition field_ok :: "field \<Rightarrow> bool" where
  "field_ok f \<longleftrightarrow> length (f_name f) < 2 ^ 16 \<and> valid_utf8 (f_name f) \<and>
     (case f_logical f of
        None \<Rightarrow> True
      | Some logical \<Rightarrow> f_column_type f = I64 \<and>
          (case logical of TimestampNs \<Rightarrow> True | Decimal64 s \<Rightarrow> s \<le> DECIMAL64_PRECISION))"

lemma parses_if: "\<not> c \<Longrightarrow> parses q xs v \<Longrightarrow> parses (if c then p else q) xs v"
  by simp

lemma parses_field: "field_ok f \<Longrightarrow> parses decode_field (encode_field f) f"
proof -
  assume ok: "field_ok f"
  obtain name ct nullable logical where f: "f = \<lparr>f_name = name, f_column_type = ct, f_nullable = nullable, f_logical = logical\<rparr>"
    by (cases f) simp
  have n: "unat (word_of_nat (length name) :: u16) = length name" "valid_utf8 name"
    using ok by (simp_all add: field_ok_def f)
  have l: "parses (let f = field_new name ct (u8_of_bool nullable \<noteq> 0)
      in if tag = 0 then returnP f
         else case logical_from_parts tag payload of
                None \<Rightarrow> corruptP ''unknown logical type''
              | Some logical \<Rightarrow> liftP (with_logical f logical)) [] f"
    if "[tag, payload] = (case logical of None \<Rightarrow> [0, 0] | Some l \<Rightarrow> [logical_tag l, logical_payload l])"
    for tag payload
    using ok that
    by (cases logical; cases "the logical")
      (auto simp: f field_ok_def field_new_def u8_of_bool_def with_logical_def logical_valid_for_def
        intro!: parses_return parses_lift)
  obtain tag payload where tp: "(case logical of None \<Rightarrow> [0, 0] | Some l \<Rightarrow> [logical_tag l, logical_payload l]) =
      [tag, payload]" by (cases logical) auto
  show ?thesis
    unfolding decode_field_def encode_field_def f field.simps tp append_Cons append_Nil
    by (rule parses_steps(2), rule parses_bind_take, simp add: n, rule parses_if, simp add: n,
        rule parses_byte, simp only: tags_inverse option.case, rule parses_byte, rule parses_byte,
        rule parses_byte, rule l [unfolded f], simp add: tp)
qed

section \<open>Zone maps and validity\<close>

fun zone_ok :: "column_type \<Rightarrow> zone_map option \<Rightarrow> bool" where
  "zone_ok ct None = True"
| "zone_ok ct (Some (ZF64 _ _ _)) \<longleftrightarrow> ct = F64"
| "zone_ok ct (Some (ZI64 _ _)) \<longleftrightarrow> ct = I64"

lemma parses_zone_map: "zone_ok ct zm \<Longrightarrow> parses (decode_zone_map ct) (encode_zone_map zm) zm"
proof (induction ct zm rule: zone_ok.induct)
  case (1 ct)
  show ?case unfolding decode_zone_map_def encode_zone_map.simps
    by (rule parses_byte) (simp add: parses_return)
next
  case (2 ct lo hi nan)
  have "parses (bindP (r_take 8) (\<lambda>lo. bindP (r_take 8) (\<lambda>hi. returnP (Some (ZF64 (le_word lo) (le_word hi) nan)))))
      (le_bytes 8 lo @ le_bytes 8 hi) (Some (ZF64 lo hi nan))"
    by (rule parses_bind_take, simp)
      (use parses_bind_take [of "le_bytes 8 hi" 8 "\<lambda>b. returnP (Some (ZF64 lo (le_word b) nan))" "[]"] in
        \<open>simp add: parses_return\<close>)
  then show ?case using 2 unfolding decode_zone_map_def encode_zone_map.simps append_Cons append_Nil
    by (intro parses_byte) (cases nan; simp add: u8_of_bool_def)
next
  case (3 ct lo hi)
  have "parses (bindP (r_take 8) (\<lambda>lo. bindP (r_take 8) (\<lambda>hi. returnP (Some (ZI64 (le_word lo) (le_word hi))))))
      (le_bytes 8 lo @ le_bytes 8 hi) (Some (ZI64 lo hi))"
    by (rule parses_bind_take, simp)
      (use parses_bind_take [of "le_bytes 8 hi" 8 "\<lambda>b. returnP (Some (ZI64 lo (le_word b)))" "[]"] in
        \<open>simp add: parses_return\<close>)
  then show ?case using 3 unfolding decode_zone_map_def encode_zone_map.simps append_Cons append_Nil
    by (intro parses_byte) simp
qed

lemma and_1_bit: "drop_bit k b AND 1 = (1 :: u8) \<longleftrightarrow> bit b k"
  using bit_iff_and_drop_bit_eq_1 [of b k] by (simp add: and.commute)

lemma parses_validity:
  assumes "validity_ok rows validity" "rows < 2 ^ 34"
  shows "parses (decode_validity rows) (encode_validity validity) validity"
proof (cases validity)
  case None
  show ?thesis unfolding None decode_validity_def encode_validity.simps
    by (rule parses_byte) (simp add: parses_return)
next
  case (Some bm)
  then have ok: "bitmap_ok bm" "bm_len bm = rows" using assms(1) by (simp_all add: validity_ok_def)
  have len: "length (bm_bytes bm) = div_ceil rows 8"
    using bitmap_ok_length [OF ok(1)] ok(2) by (simp add: byte_len_def)
  have "div_ceil rows 8 \<le> rows div 8 + 1" by (simp add: div_ceil_def)
  then have small: "unat (word_of_nat (length (bm_bytes bm)) :: u32) = length (bm_bytes bm)"
    using len assms(2) by simp
  have "traverseR (\<lambda>row. if row div 8 < length (bm_bytes bm)
        then Ok (drop_bit (row mod 8) (bm_bytes bm ! (row div 8)) AND 1 = 1) else Panic) [0..<rows] =
      (Ok (map (\<lambda>row. bm_bit bm row) [0..<rows]) :: (format_error, _) outcome)"
    using len div_ceil_8_less by (intro traverseR_Ok) (simp add: and_1_bit bm_bit_def)
  also have "map (\<lambda>row. bm_bit bm row) [0..<rows] = bits bm" by (simp add: bits_def ok(2))
  finally have t: "mapR (\<lambda>bools. Some (from_bools bools)) (traverseR (\<lambda>row. if row div 8 < length (bm_bytes bm)
        then Ok (drop_bit (row mod 8) (bm_bytes bm ! (row div 8)) AND 1 = 1) else Panic) [0..<rows]) =
      (Ok (Some bm) :: (format_error, _) outcome)"
    using from_bools_of_bits [OF ok(1)] by simp
  show ?thesis
    unfolding Some decode_validity_def encode_validity.simps append_Cons append_Nil
    by (rule parses_byte, simp only: one_neq_zero not_False_eq_True if_True, rule parses_steps(3),
        rule parses_take_last, simp add: small, rule parses_if,
        simp add: len small [unfolded len], rule parses_lift [OF t])
qed

section \<open>Dictionaries\<close>

lemma sint_of_nat_i32: "n < 2 ^ 31 \<Longrightarrow> sint (word_of_nat n :: i32) = int n"
  by (simp add: signed_of_nat signed_take_bit_int_eq_self)

definition offset_of :: "rstring list \<Rightarrow> nat \<Rightarrow> i32" where
  "offset_of vs k = word_of_nat (length (concat (take k vs)))"

lemma dictionary_loop_of:
  assumes "dict_fits vs" "k \<le> length vs"
  shows "dictionary_loop (concat vs) (map (offset_of vs) [k..<Suc (length vs)]) (dict_of (take k vs)) =
    Ok (dict_of vs)"
  using assms(2)
proof (induction "length vs - k" arbitrary: k)
  case 0
  then have "[k..<Suc (length vs)] = [k]" by simp
  then show ?case using 0 by simp
next
  case (Suc n)
  then have k: "k < length vs" by simp
  have upt: "[k..<Suc (length vs)] = k # Suc k # [Suc (Suc k)..<Suc (length vs)]"
    "[Suc k..<Suc (length vs)] = Suc k # [Suc (Suc k)..<Suc (length vs)]"
    using k by (simp_all add: upt_rec [of k] upt_rec [of "Suc k"] del: upt_Suc)
  have small: "length (concat (take j vs)) < 2 ^ 31" for j
    using length_concat_take_le [of j vs] assms(1) by (simp add: dict_fits_def)
  have mono: "length (concat (take k vs)) \<le> length (concat (take (Suc k) vs))"
    "length (concat (take (Suc k) vs)) \<le> length (concat vs)"
    using k length_concat_take_le [of "Suc k" vs] by (simp_all add: take_Suc_conv_app_nth)
  have fk: "dict_fits (take k vs)"
    using assms(1) by (intro dict_fits_subset [OF assms(1)]) (auto simp: dict_fits_def dest: in_set_takeD)
  have new: "vs ! k \<notin> set (take k vs)"
    using assms(1) k by (auto simp: dict_fits_def in_set_conv_nth nth_eq_iff_index_eq)
  have utf: "valid_utf8 (vs ! k)" using assms(1) k by (simp add: dict_fits_def)
  have "take (Suc k) vs = take k vs @ [vs ! k]" using k by (simp add: take_Suc_conv_app_nth)
  moreover have "k < 2 ^ 32" using k assms(1) by (simp add: dict_fits_def)
  moreover have "length (concat (take k vs)) + length (vs ! k) < 2 ^ 31"
    using small [of "Suc k"] k by (simp add: take_Suc_conv_app_nth)
  ultimately have intern: "dict_intern (dict_of (take k vs)) (vs ! k) =
      (Ok (dict_of (take (Suc k) vs), word_of_nat k) :: (format_error, _) outcome)"
    using new k by (simp add: dict_intern_of [OF fk] min_def)
  have "dictionary_loop (concat vs) (map (offset_of vs) [Suc k..<Suc (length vs)]) (dict_of (take (Suc k) vs)) =
      Ok (dict_of vs)"
    using Suc k by (intro Suc.hyps(1)) simp_all
  then have IH: "dictionary_loop (concat vs) (offset_of vs (Suc k) # map (offset_of vs) [Suc (Suc k)..<Suc (length vs)])
      (dict_of (take (Suc k) vs)) = Ok (dict_of vs)" unfolding upt by simp
  have c: "unat (word_of_nat k :: u32) = k" using \<open>k < 2 ^ 32\<close> by simp
  have off: "i32_as_usize (offset_of vs j) = length (concat (take j vs))"
    "sint (offset_of vs j) = int (length (concat (take j vs)))" for j
    using small by (simp_all only: offset_of_def i32_as_usize_nat sint_of_nat_i32)
  have "min (length vs) (Suc k) - 1 = k" using k by simp
  then show ?case
    unfolding upt list.map dictionary_loop.simps off concat_take_slice [OF k]
    using mono utf intern IH c k by (simp del: length_concat)
qed

lemma parses_dictionary:
  assumes "dict_ok d" "dict_len d < 2 ^ 32"
  shows "parses decode_dictionary (encode_dictionary d) d"
proof -
  obtain vs where d: "d = dict_of vs" "dict_fits vs" using assms(1) by (rule dict_okE)
  have n: "unat (word_of_nat (length vs) :: u32) = length vs" using assms(2) d by simp
  have offs: "d_offsets d = map (offset_of vs) [0..<Suc (length vs)]"
    by (simp add: d dict_of_def offset_of_def)
  have bytes: "d_bytes d = concat vs" by (simp add: d dict_of_def)
  have "length (concat vs) < 2 ^ 31" using d(2) by (simp add: dict_fits_def)
  then have b: "unat (word_of_nat (length (concat vs)) :: u32) = length (concat vs)" by (simp del: length_concat)
  have loop: "dictionary_loop (concat vs) (d_offsets d) dict_new = Ok d"
    using dictionary_loop_of [OF d(2) le0] unfolding offs dict_new_of take0 d(1) [symmetric] .
  have dl: "dict_len d = length vs" by (simp add: d)
  have count: "unat (word_of_nat (length vs) :: u32) + 1 = length (d_offsets d)" unfolding n offs by simp
  have rep: "parses (repeatP (length (d_offsets d)) r_i32) (concat (map (le_bytes 4) (d_offsets d))) (d_offsets d)"
    by (rule parses_repeat) (rule parses_i32)
  show ?thesis
    unfolding decode_dictionary_def encode_dictionary_def bytes dl
    by (rule parses_steps(3), rule parses_bind [OF rep [folded count]], rule parses_steps(3),
        rule parses_take_last, simp only: b, rule parses_lift [OF loop])
qed

section \<open>Columns\<close>

text \<open>The column fits the length fields of the file.\<close>

definition column_fits :: "segment \<Rightarrow> column \<Rightarrow> bool \<Rightarrow> bool" where
  "column_fits s c is_key \<longleftrightarrow> length (encode_values (writer_codec s c is_key) c) < 2 ^ 64 \<and>
     (case c of KeyCol k \<Rightarrow> dict_len (kc_dictionary k) < 2 ^ 32 | _ \<Rightarrow> True)"

lemma numeric_of_eq:
  "validity_ok (length vs) v \<Longrightarrow> numeric_of vs v = Ok \<lparr>nc_values = vs, nc_validity = v\<rparr>"
  by (auto simp: numeric_of_def validity_ok_def nc_new_nullable_def nc_new_non_null_def split: option.splits)

lemma parses_values_of:
  assumes "column_ok c" "col_len c = rows" "column_fits s c is_key"
  defines "codec \<equiv> writer_codec s c is_key"
  shows "parses (bindP r_u64 (\<lambda>values_len. bindP (r_take (unat values_len)) (\<lambda>values.
      decode_values (col_type c) codec rows (col_validity c) values))) (encode_values codec c) c"
proof -
  have step: "parses (bindP r_u64 (\<lambda>n. bindP (r_take (unat n)) p)) (push_values vs @ rest) v"
    if "parses (p vs) rest v" "length vs < 2 ^ 64" for p vs rest and v :: column
    unfolding push_values_def append_assoc
    using that by (intro parses_steps(4) parses_bind_take) simp_all
  show ?thesis
  proof (cases c rule: column_cells.cases)
    case (1 nc)
    let ?vs = "encode_alp_f64 (nc_values nc)"
    have small: "length ?vs < 2 ^ 64" using assms 1 by (simp add: column_fits_def push_values_def)
    have "decode_f64_values codec ?vs rows = Ok (nc_values nc)"
      using small assms 1 alp.decode_encode by (auto simp: codec_def nc_len_def)
    moreover have "numeric_of (nc_values nc) (nc_validity nc) = (Ok nc :: (format_error, _) outcome)"
      using assms 1 by (simp add: numeric_of_eq nc_len_def)
    ultimately have "parses (decode_values F64 codec rows (col_validity c) ?vs) [] c"
      unfolding decode_values_def column_type.case 1 by (intro parses_lift) simp
    then show ?thesis using step [of _ ?vs "[]"] small 1 by (simp add: codec_def)
  next
    case (2 nc)
    define vs where "vs = (if codec = DeltaOfDeltaI64 then encode_delta_of_delta (nc_values nc)
      else encode_for_i64 (nc_values nc))"
    have enc: "encode_values codec c = push_values vs"
      using 2 by (auto simp: codec_def vs_def)
    then have small: "length vs < 2 ^ 64" using assms by (simp add: column_fits_def push_values_def codec_def)
    have "decode_i64_values codec vs rows = Ok (nc_values nc)"
      using small assms(2) 2 for_i64.decode_encode dod.decode_encode
      by (auto simp: codec_def nc_len_def vs_def)
    moreover have "numeric_of (nc_values nc) (nc_validity nc) = (Ok nc :: (format_error, _) outcome)"
      using assms 2 by (simp add: numeric_of_eq nc_len_def)
    ultimately have "parses (decode_values I64 codec rows (col_validity c) vs) [] c"
      unfolding decode_values_def column_type.case 2 by (intro parses_lift) simp
    then show ?thesis using step [of _ vs "[]"] small 2 enc by simp
  next
    case (3 k)
    let ?vs = "encode_for_u32 (kc_codes k)"
    have small: "length ?vs < 2 ^ 64" using assms 3 by (simp add: column_fits_def push_values_def)
    have codes: "decode_code_values codec ?vs rows = Ok (kc_codes k)"
      using small assms 3 for_u32.decode_encode by (auto simp: codec_def kc_len_def)
    have dict: "parses decode_dictionary (encode_dictionary (kc_dictionary k)) (kc_dictionary k)"
      using assms 3 by (intro parses_dictionary) (simp_all add: column_fits_def)
    have ok: "\<not> (\<exists>code\<in>set (kc_codes k). \<not> code_ok (kc_dictionary k) code)"
      using assms(1) 3 by (simp add: code_ok_def)
    have col: "mapR KeyCol (case kc_validity k of
            Some bm \<Rightarrow> kc_new_nullable (kc_codes k) bm (kc_dictionary k)
          | None \<Rightarrow> kc_new_non_null (kc_codes k) (kc_dictionary k)) = (Ok c :: (format_error, _) outcome)"
      using assms(1) 3 by (auto simp: kc_new_nullable_eq kc_new_non_null_eq validity_ok_def kc_len_def split: option.splits)
    have "parses (decode_values Key codec rows (col_validity c) ?vs) (encode_dictionary (kc_dictionary k)) c"
      unfolding decode_values_def column_type.case 3 col_validity.simps
      by (rule parses_bind_silent [OF parses_lift [OF codes]], rule parses_bind_last [OF dict], rule parses_if [OF ok],
          rule parses_lift [OF col [unfolded 3]])
    then show ?thesis using step [of _ ?vs] small 3 by (simp add: codec_def)
  qed
qed

lemma parses_column:
  assumes "column_ok c" "col_len c = rows" "rows < 2 ^ 34" "column_fits s c is_key" "field_ok f"
    "f_column_type f = col_type c" "zone_ok (col_type c) zm"
  shows "parses (decode_column rows) (encode_column s f c is_key zm) (f, c, zm)"
proof -
  let ?codec = "writer_codec s c is_key"
  have validity: "parses (decode_validity rows) (encode_validity (col_validity c)) (col_validity c)"
    using column_ok_validity [OF assms(1)] assms(2,3) by (intro parses_validity) simp_all
  have assoc: "bindP r_u64 (\<lambda>n. bindP (r_take (unat n)) (\<lambda>vs. bindP (g vs) (\<lambda>c. returnP (f, c, zm)))) =
      bindP (bindP r_u64 (\<lambda>n. bindP (r_take (unat n)) g)) (\<lambda>c. returnP (f, c, zm))" for g :: "bytes \<Rightarrow> column parser"
    by (simp add: fun_eq_iff bindP_def bindR_assoc case_prod_unfold)
  show ?thesis
    unfolding decode_column_def encode_column_def Let_def append_Cons append_Nil
    by (rule parses_bind [OF parses_field [OF assms(5)]], rule parses_byte,
        simp only: codec_from_tag_inverse option.case assms(6), rule parses_bind [OF parses_zone_map [OF assms(7)]],
        rule parses_bind [OF validity], unfold assoc,
        rule parses_bind_return [OF parses_values_of [OF assms(1,2,4)]])
qed

section \<open>Trailer sections\<close>

definition section_bytes :: "u16 \<times> bytes \<Rightarrow> bytes" where
  "section_bytes = (\<lambda>(tag, payload). le_bytes 2 tag @ le_bytes 4 (word_of_nat (length payload) :: u32) @ payload)"

lemma encode_sections_bytes: "encode_sections sections =
    le_bytes 2 (word_of_nat (length sections) :: u16) @ concat (map section_bytes sections)"
  by (simp add: encode_sections_def section_bytes_def)

lemma parses_read_sections:
  assumes "foldR (\<lambda>st (tag, payload). handler tag payload st) st sections = Ok st'"
    and "\<forall>(tag, payload)\<in>set sections. length payload < 2 ^ 32"
  shows "parses (read_sections handler (length sections) st) (concat (map section_bytes sections)) st'"
  using assms
proof (induction sections arbitrary: st)
  case Nil
  then show ?case by (simp add: parses_return)
next
  case (Cons x sections)
  obtain tag payload where sec: "x = (tag, payload)" by fastforce
  obtain st1 where h: "handler tag payload st = Ok st1"
    and rest: "foldR (\<lambda>st (tag, payload). handler tag payload st) st1 sections = Ok st'"
    using Cons.prems(1) sec by auto
  have small: "length payload < 2 ^ 32" using Cons.prems(2) sec by simp
  show ?case
    unfolding sec list.size list.map concat.simps section_bytes_def prod.case append_assoc add_0_right add_Suc_right
      read_sections.simps
    by (rule parses_steps(2), rule parses_steps(3), rule parses_bind_take, use small in simp,
        rule parses_bind_silent [OF parses_lift [OF h]], fold section_bytes_def,
        rule Cons.IH [OF rest], use Cons.prems(2) in simp)
qed

lemma parses_sections:
  assumes "foldR (\<lambda>st (tag, payload). handler tag payload st) st sections = Ok st'"
    and "\<forall>(tag, payload)\<in>set sections. length payload < 2 ^ 32" "length sections < 2 ^ 16"
  shows "parses (bindP r_u16 (\<lambda>n. read_sections handler (unat n) st)) (encode_sections sections) st'"
  unfolding encode_sections_bytes
  using parses_read_sections [OF assms(1,2)] assms(3) by (intro parses_steps(2)) simp

definition sections_ok :: "segment \<Rightarrow> bool" where
  "sections_ok s \<longleftrightarrow>
     (case sg_sequence s of Explicit vs \<Rightarrow> length vs = rb_num_rows (sg_batch s) | _ \<Rightarrow> True) \<and>
     (case sg_superseded s of Some kills \<Rightarrow> length kills = rb_num_rows (sg_batch s) | None \<Rightarrow> True) \<and>
     (\<forall>(tag, payload)\<in>set (trailer_sections s). length payload < 2 ^ 32)"

lemma decode_sequence_of:
  "decode_sequence_section (SEQUENCE_CONTIGUOUS # le_bytes 8 base) rows = Ok (Contiguous base)"
  "length (encode_delta_of_delta vs) < 2 ^ 64 \<Longrightarrow> decode_sequence_section (SEQUENCE_EXPLICIT # encode_delta_of_delta vs) (length vs) = Ok (Explicit vs)"
  using dod.decode_encode [of vs]
  by (simp_all add: decode_sequence_section_def SEQUENCE_CONTIGUOUS_def SEQUENCE_EXPLICIT_def)

lemma trailers_fold:
  assumes "sections_ok s"
  shows "foldR (\<lambda>st (tag, payload). trailer_section (rb_num_rows (sg_batch s)) tag payload st) (RowIds, None)
    (trailer_sections s) = Ok (sg_sequence s, sg_superseded s)"
proof -
  have tags: "TRAILER_SUPERSEDED \<noteq> TRAILER_SEQUENCE" by (simp add: TRAILER_SUPERSEDED_def TRAILER_SEQUENCE_def)
  have kills: "decode_delta_of_delta (encode_delta_of_delta ks) (rb_num_rows (sg_batch s)) = Ok ks"
    if "sg_superseded s = Some ks" for ks
    using assms that dod.decode_encode [of ks] by (auto simp: sections_ok_def trailer_sections_def)
  have births: "decode_sequence_section (SEQUENCE_EXPLICIT # encode_delta_of_delta vs) (rb_num_rows (sg_batch s)) =
      Ok (Explicit vs)" if "sg_sequence s = Explicit vs" for vs
    using assms that decode_sequence_of(2) [of vs] by (auto simp: sections_ok_def trailer_sections_def)
  show ?thesis
    using tags kills births
    by (cases "sg_sequence s"; cases "sg_superseded s")
      (simp_all add: trailer_sections_def trailer_section_def decode_sequence_of(1))
qed

lemma parses_trailers:
  assumes "sections_ok s"
  shows "parses (bindP r_u16 (\<lambda>n. read_sections (trailer_section (rb_num_rows (sg_batch s))) (unat n) (RowIds, None)))
    (encode_sections (trailer_sections s)) (sg_sequence s, sg_superseded s)"
  using assms
  by (intro parses_sections trailers_fold)
    (simp_all add: sections_ok_def trailer_sections_def split: sequence_info.split option.split)

section \<open>The body\<close>

lemma parses_repeat_all2:
  "list_all2 (parses p) xs vs \<Longrightarrow> parses (repeatP (length vs) p) (concat xs) vs"
proof (induction rule: list_all2_induct)
  case (Cons x xs v vs)
  then show ?case
    by (auto intro!: parses_bind [of p x v] parses_bind_return [where g = "\<lambda>us. v # us"])
qed (simp add: parses_return)

lemma parses_end_remaining: "parses_end (f 0) [] b \<Longrightarrow> parses_end (bindP r_remaining f) [] b"
  by (simp add: parses_end_def r_remaining_def bindP_def)

lemma parses_end_u32: "parses_end (f w) ys v \<Longrightarrow> parses_end (bindP r_u32 f) (le_bytes 4 w @ ys) v"
  by (rule parses_end_bind [OF parses_u32])

lemma parses_end_u64: "parses_end (f w) ys v \<Longrightarrow> parses_end (bindP r_u64 f) (le_bytes 8 w @ ys) v"
  by (rule parses_end_bind [OF parses_u64])

lemma parses_end_if: "\<not> c \<Longrightarrow> parses_end q xs v \<Longrightarrow> parses_end (if c then p else q) xs v"
  by simp

lemma parses_end_bind_last: "parses p xs a \<Longrightarrow> parses_end (f a) [] b \<Longrightarrow> parses_end (bindP p f) xs b"
  using parses_end_bind [of p xs a f "[]" b] by simp

definition column_parts :: "segment \<Rightarrow> (field \<times> column \<times> zone_map option) list" where
  "column_parts s = zip (s_fields (rb_schema (sg_batch s))) (zip (rb_columns (sg_batch s)) (sg_zone_maps s))"

definition segment_ok :: "segment \<Rightarrow> bool" where
  "segment_ok s \<longleftrightarrow>
     (let rb = sg_batch s; fields = s_fields (rb_schema rb)
      in batch_ok rb \<and> rb_num_rows rb < 2 ^ 34 \<and> sg_ordering_key s < length fields \<and> length fields < 2 ^ 32 \<and>
         length (sg_zone_maps s) = length fields \<and>
         (\<forall>index<length fields. field_ok (fields ! index) \<and>
            zone_ok (f_column_type (fields ! index)) (sg_zone_maps s ! index) \<and>
            column_fits s (rb_columns rb ! index) (index = sg_ordering_key s)) \<and>
         sections_ok s \<and> length (segment_payload s) + 16 < 2 ^ 64)"

lemma segment_okD:
  assumes "segment_ok s"
  shows "batch_ok (sg_batch s)" "rb_num_rows (sg_batch s) < 2 ^ 34"
    "sg_ordering_key s < length (s_fields (rb_schema (sg_batch s)))"
    "length (s_fields (rb_schema (sg_batch s))) < 2 ^ 32"
    "length (sg_zone_maps s) = length (s_fields (rb_schema (sg_batch s)))"
    "length (rb_columns (sg_batch s)) = length (s_fields (rb_schema (sg_batch s)))"
    "sections_ok s" "length (segment_payload s) + 16 < 2 ^ 64"
  using assms by (simp_all add: segment_ok_def Let_def batch_ok_def)

lemma segment_ok_column:
  assumes "segment_ok s" "index < length (s_fields (rb_schema (sg_batch s)))"
  shows "parses (decode_column (rb_num_rows (sg_batch s)))
    (encode_column s (s_fields (rb_schema (sg_batch s)) ! index) (rb_columns (sg_batch s) ! index)
      (index = sg_ordering_key s) (sg_zone_map s index))
    (column_parts s ! index)"
proof -
  let ?f = "s_fields (rb_schema (sg_batch s)) ! index" and ?c = "rb_columns (sg_batch s) ! index"
  note D = segment_okD [OF assms(1)]
  have bind: "binding_ok (rb_num_rows (sg_batch s)) ?f ?c" "column_ok ?c"
    using D(1,6) assms(2) by (auto simp: batch_ok_def list_all2_conv_all_nth)
  have p: "column_parts s ! index = (?f, ?c, sg_zone_map s index)"
    using assms(2) D(5,6) by (simp add: column_parts_def sg_zone_map_def)
  have parts: "field_ok ?f" "zone_ok (col_type ?c) (sg_zone_map s index)"
    "column_fits s ?c (index = sg_ordering_key s)"
    using assms D(5) bind(1) by (auto simp: segment_ok_def Let_def sg_zone_map_def binding_ok_def)
  show ?thesis unfolding p
    using bind parts D(2) by (intro parses_column) (simp_all add: binding_ok_def)
qed

lemma parses_columns:
  assumes "segment_ok s"
  defines "flds \<equiv> s_fields (rb_schema (sg_batch s))"
  shows "parses (repeatP (length flds) (decode_column (rb_num_rows (sg_batch s))))
    (concat (map (\<lambda>(index, f, c). encode_column s f c (index = sg_ordering_key s) (sg_zone_map s index))
      (zip [0..<length flds] (zip flds (rb_columns (sg_batch s)))))) (column_parts s)"
proof -
  let ?ps = "map (\<lambda>(index, f, c). encode_column s f c (index = sg_ordering_key s) (sg_zone_map s index))
      (zip [0..<length flds] (zip flds (rb_columns (sg_batch s))))"
  have len: "length (column_parts s) = length flds"
    using segment_okD(5,6) [OF assms(1)] by (simp add: column_parts_def flds_def)
  have "list_all2 (parses (decode_column (rb_num_rows (sg_batch s)))) ?ps (column_parts s)"
    using segment_ok_column [OF assms(1)] segment_okD(6) [OF assms(1)] len
    by (simp add: list_all2_conv_all_nth flds_def)
  from parses_repeat_all2 [OF this] show ?thesis by (simp only: len)
qed

lemma column_parts_maps:
  assumes "segment_ok s"
  shows "map (\<lambda>(f, c, zm). f) (column_parts s) = s_fields (rb_schema (sg_batch s))"
    "map (\<lambda>(f, c, zm). c) (column_parts s) = rb_columns (sg_batch s)"
    "map (\<lambda>(f, c, zm). zm) (column_parts s) = sg_zone_maps s"
  using segment_okD(5,6) [OF assms]
  by (simp_all add: column_parts_def list_eq_iff_nth_eq)

lemma parses_trailer_part:
  assumes "segment_ok s"
  shows "parses (if segment_version s = VERSION_TRAILERED
      then bindP r_u16 (\<lambda>n. read_sections (trailer_section (rb_num_rows (sg_batch s))) (unat n) (RowIds, None))
      else returnP (RowIds, None))
    (if segment_version s = VERSION_TRAILERED then encode_sections (trailer_sections s) else [])
    (sg_sequence s, sg_superseded s)"
  using parses_trailers [OF segment_okD(7) [OF assms]]
  by (auto simp: segment_version_def VERSION_def VERSION_TRAILERED_def parses_return)

lemma parses_segment_body:
  assumes "segment_ok s"
  shows "parses_end (segment_body (segment_version s)) (segment_payload s) s"
proof -
  note D = segment_okD [OF assms]
  let ?rb = "sg_batch s"
  let ?n = "length (s_fields (rb_schema ?rb))"
  have n: "unat (word_of_nat ?n :: u32) = ?n" "unat (word_of_nat (sg_ordering_key s) :: u32) = sg_ordering_key s"
    "unat (word_of_nat (rb_num_rows ?rb) :: u64) = rb_num_rows ?rb"
    using D(2-4) by simp_all
  have last: "mapR (\<lambda>batch. \<lparr>sg_batch = batch, sg_ordering_key = sg_ordering_key s,
             sg_ordered = ((if sg_ordered s then 1 else 0 :: u32) AND 1 \<noteq> 0), sg_base_row_id = sg_base_row_id s,
             sg_zone_maps = map (\<lambda>(f, c, zm). zm) (column_parts s),
             sg_sequence = sg_sequence s, sg_superseded = sg_superseded s\<rparr>)
           (record_batch_new \<lparr>s_fields = map (\<lambda>(f, c, zm). f) (column_parts s)\<rparr>
             (map (\<lambda>(f, c, zm). c) (column_parts s))) = (Ok s :: (format_error, _) outcome)"
  proof -
    have sch: "\<lparr>s_fields = s_fields (rb_schema ?rb)\<rparr> = rb_schema ?rb" by simp
    have rb: "record_batch_new \<lparr>s_fields = s_fields (rb_schema ?rb)\<rparr> (rb_columns ?rb) = (Ok ?rb :: (format_error, _) outcome)"
      unfolding sch by (rule record_batch_new_of [OF D(1)])
    show ?thesis unfolding column_parts_maps [OF assms] rb by (cases s) simp
  qed
  show ?thesis
    unfolding segment_body_def segment_payload_def Let_def
    by (rule parses_end_u64, rule parses_end_u64, rule parses_end_u32, rule parses_end_u32, rule parses_end_u32,
        rule parses_end_if, use D(3) n in simp, unfold n,
        rule parses_end_bind [OF parses_columns [OF assms]],
        rule parses_end_bind_last [OF parses_trailer_part [OF assms]], simp only: prod.case,
        rule parses_end_remaining, rule parses_end_if, simp,
        rule parses_endI, rule parses_lift, rule last)
qed

section \<open>The sealed file\<close>

lemma parses_bind_run:
  assumes "parses p xs a" "bytes = pre @ xs @ post" "length bytes < 2 ^ 64" "at = length pre"
  shows "bindP p f \<lparr>r_bytes = bytes, r_position = at\<rparr> = f a \<lparr>r_bytes = bytes, r_position = at + length xs\<rparr>"
  using parsesD [OF assms(1), of pre post] assms(2-4) by (simp add: bindP_def)

lemma open_sealed_eq:
  fixes stored :: u32 and version :: u16
  assumes "length magic' = 8" "length payload + 16 < 2 ^ 64"
  defines "file \<equiv> magic' @ le_bytes 2 version @ le_bytes 2 (0 :: u16) @ le_bytes 4 stored @ payload"
  shows "open_sealed file magic v1 v2 body =
    (if magic' \<noteq> magic then Err BadMagic
     else if version \<noteq> v1 \<and> version \<noteq> v2 then Err (UnsupportedVersion version)
     else if stored \<noteq> crc32c payload then Err (ChecksumMismatch stored (crc32c payload))
     else mapR fst (body version \<lparr>r_bytes = file, r_position = 16\<rparr>))"
proof -
  have len: "length file < 2 ^ 64" using assms by simp
  have e: "file = [] @ magic' @ (le_bytes 2 version @ le_bytes 2 (0 :: u16) @ le_bytes 4 stored @ payload)"
    "file = magic' @ le_bytes 2 version @ (le_bytes 2 (0 :: u16) @ le_bytes 4 stored @ payload)"
    "file = (magic' @ le_bytes 2 version) @ le_bytes 2 (0 :: u16) @ (le_bytes 4 stored @ payload)"
    "file = (magic' @ le_bytes 2 version @ le_bytes 2 (0 :: u16)) @ le_bytes 4 stored @ payload"
    by (simp_all add: file_def)
  note run = parses_bind_run [OF parses_take [OF assms(1)] e(1) len, of 0]
    parses_bind_run [OF parses_u16 e(2) len, of 8] parses_bind_run [OF parses_u16 e(3) len, of 10]
    parses_bind_run [OF parses_u32 e(4) len, of 12]
  have s1: "bindP (r_take 8) f \<lparr>r_bytes = file, r_position = 0\<rparr> = f magic' \<lparr>r_bytes = file, r_position = 8\<rparr>"
    for f :: "bytes \<Rightarrow> 'a parser" using run(1) [of f] assms(1) by simp
  have s2: "bindP r_u16 f \<lparr>r_bytes = file, r_position = 8\<rparr> = f version \<lparr>r_bytes = file, r_position = 10\<rparr>"
    for f :: "u16 \<Rightarrow> 'a parser" using run(2) [of f] assms(1) by simp
  have s3: "bindP r_u16 f \<lparr>r_bytes = file, r_position = 10\<rparr> = f 0 \<lparr>r_bytes = file, r_position = 12\<rparr>"
    for f :: "u16 \<Rightarrow> 'a parser" using run(3) [of f] assms(1) by simp
  have s4: "bindP r_u32 f \<lparr>r_bytes = file, r_position = 12\<rparr> = f stored \<lparr>r_bytes = file, r_position = 16\<rparr>"
    for f :: "u32 \<Rightarrow> 'a parser" using run(4) [of f] assms(1) by simp
  have d: "drop PAYLOAD_OFFSET file = payload" using assms(1) by (simp add: file_def PAYLOAD_OFFSET_def)
  show ?thesis
    unfolding open_sealed_def s1 d
    by (cases "magic' = magic"; cases "version = v1 \<or> version = v2")
      (auto simp: s2 s3 s4 failP_def Let_def)
qed

lemma open_sealed_seal:
  assumes "length magic = 8" "length payload + 16 < 2 ^ 64" "version = v1 \<or> version = v2"
    "parses_end (body version) payload v"
  shows "open_sealed (seal magic version payload) magic v1 v2 body = Ok v"
proof -
  let ?file = "magic @ le_bytes 2 version @ le_bytes 2 (0 :: u16) @ le_bytes 4 (crc32c payload) @ payload"
  have "body version \<lparr>r_bytes = ?file, r_position = 16\<rparr> = Ok (v, \<lparr>r_bytes = ?file, r_position = 16 + length payload\<rparr>)"
    using assms(4) [unfolded parses_end_def, THEN spec,
        of "magic @ le_bytes 2 version @ le_bytes 2 (0 :: u16) @ le_bytes 4 (crc32c payload)"] assms(1,2)
    by simp
  then show ?thesis unfolding seal_def open_sealed_eq [OF assms(1,2)] using assms(3) by auto
qed

text \<open>A burst of at most four damaged payload bytes is always caught.\<close>

lemma open_sealed_damaged:
  assumes "length magic = 8" "length (pre @ xs @ post) + 16 < 2 ^ 64" "version = v1 \<or> version = v2"
    "length xs = length ys" "length xs \<le> 4" "xs \<noteq> ys"
  shows "open_sealed (take 16 (seal magic version (pre @ xs @ post)) @ pre @ ys @ post) magic v1 v2 body =
    Err (ChecksumMismatch (crc32c (pre @ xs @ post)) (crc32c (pre @ ys @ post)))"
proof -
  have "crc32c (pre @ xs @ post) \<noteq> crc32c (pre @ ys @ post)"
    using crc_burst [OF crc_polynomials(1) assms(4-6)] by (simp add: crc32c_def)
  then show ?thesis
    using open_sealed_eq [OF assms(1), of "pre @ ys @ post" version "crc32c (pre @ xs @ post)" magic v1 v2 body] assms
    by (auto simp: seal_def)
qed

lemma decode_encode_segment: "segment_ok s \<Longrightarrow> decode_segment (encode_segment s) = Ok s"
  unfolding decode_segment_def encode_segment_def
  by (rule open_sealed_seal)
    (use parses_segment_body [of s] segment_okD(8) [of s] in
      \<open>simp_all add: MAGIC_def segment_version_def ascii_def\<close>)

section \<open>A sample segment\<close>

definition sample_segment :: segment where
  "sample_segment = \<lparr>sg_batch = \<lparr>rb_schema = \<lparr>s_fields = [field_new (ascii ''t'') I64 False]\<rparr>,
       rb_columns = [Numeric (NI64 \<lparr>nc_values = [5, 7], nc_validity = None\<rparr>)], rb_num_rows = 2\<rparr>,
     sg_ordering_key = 0, sg_ordered = True, sg_base_row_id = 3, sg_zone_maps = [Some (ZI64 5 7)],
     sg_sequence = Contiguous 9, sg_superseded = Some [11, 12]\<rparr>"

lemma sample_payload: "length (segment_payload sample_segment) < 1000"
  by code_simp

lemma sample_values:
  "length (encode_values (writer_codec sample_segment (rb_columns (sg_batch sample_segment) ! 0) True)
     (rb_columns (sg_batch sample_segment) ! 0)) < 1000"
  by code_simp

lemma sample_sections: "list_all (\<lambda>(tag, payload). length payload < 1000) (trailer_sections sample_segment)"
  by code_simp

lemma sample_segment_ok: "segment_ok sample_segment"
proof -
  have "valid_utf8 (ascii ''t'')" "length (ascii ''t'') = 1" by code_simp+
  then have "batch_ok (sg_batch sample_segment)" "field_ok (field_new (ascii ''t'') I64 False)"
    by (simp_all add: sample_segment_def batch_ok_def binding_ok_def field_new_def nc_len_def validity_ok_def
      field_ok_def)
  moreover have "sections_ok sample_segment"
    using sample_sections by (fastforce simp: sections_ok_def sample_segment_def list_all_iff)
  moreover have "column_fits sample_segment (rb_columns (sg_batch sample_segment) ! 0) True"
    using sample_values by (simp add: column_fits_def sample_segment_def)
  ultimately show ?thesis
    using sample_payload by (simp add: segment_ok_def Let_def) (simp add: sample_segment_def field_new_def)
qed

section \<open>Properties\<close>

text \<open>
  C1: A segment survives the file.  Whatever its columns, codecs, zone maps, dictionaries,
  birth sequences and kill coordinates, a well-formed segment within the bounds of the
  file's length fields is read back from its own encoding exactly.
\<close>
theorem segment_roundtrip:
  assumes "segment_ok s"
  shows "decode_segment (encode_segment s) = Ok s"
  by (rule decode_encode_segment [OF assms])

theorem segment_roundtrip_witness:
  "decode_segment (encode_segment sample_segment) = Ok sample_segment"
  by (rule segment_roundtrip [OF sample_segment_ok])

text \<open>
  C6: Damage is caught.  Any change confined to four consecutive bytes of a segment
  file's checksummed payload makes decoding stop with a checksum mismatch, before any of
  the payload is interpreted.
\<close>
theorem segment_damage_detected:
  assumes "segment_payload s = pre @ xs @ post" "length (segment_payload s) + 16 < 2 ^ 64"
    and "length ys = length xs" "length xs \<le> 4" "ys \<noteq> xs"
  shows "decode_segment (take 16 (encode_segment s) @ pre @ ys @ post) =
    Err (ChecksumMismatch (crc32c (segment_payload s)) (crc32c (pre @ ys @ post)))"
  unfolding decode_segment_def encode_segment_def assms(1)
  by (rule open_sealed_damaged) (use assms in \<open>auto simp: MAGIC_def segment_version_def ascii_def\<close>)

theorem segment_damage_detected_witness:
  "\<exists>stored computed. decode_segment (take 16 (encode_segment sample_segment) @ [] @ [1, 0] @
     drop 2 (segment_payload sample_segment)) = Err (ChecksumMismatch stored computed)"
proof -
  have "take 2 (segment_payload sample_segment) = [3, 0]" by code_simp
  then have "segment_payload sample_segment = [] @ [3, 0] @ drop 2 (segment_payload sample_segment)"
    by (metis append_Nil append_take_drop_id)
  from segment_damage_detected [OF this, of "[1, 0]"] show ?thesis using sample_payload by auto
qed

section \<open>Where the decoder panics\<close>

text \<open>\<open>stuck p xs\<close>: before the bytes \<open>xs\<close> the parser panics, wherever they stand.\<close>

definition stuck :: "'a parser \<Rightarrow> bytes \<Rightarrow> bool" where
  "stuck p xs \<longleftrightarrow> (\<forall>pre post. length (pre @ xs @ post) < 2 ^ 64 \<longrightarrow>
     p \<lparr>r_bytes = pre @ xs @ post, r_position = length pre\<rparr> = Panic)"

lemma stuckD: "stuck p xs \<Longrightarrow> length (pre @ xs @ post) < 2 ^ 64 \<Longrightarrow>
    p \<lparr>r_bytes = pre @ xs @ post, r_position = length pre\<rparr> = Panic"
  unfolding stuck_def by blast

lemma stuck_lift: "m = Panic \<Longrightarrow> stuck (liftP m) []"
  by (simp add: stuck_def liftP_def)

lemma stuck_first: "stuck p xs \<Longrightarrow> stuck (bindP p f) xs"
  by (simp add: stuck_def bindP_def)

lemma stuck_bind:
  assumes "parses p xs a" "stuck (f a) ys"
  shows "stuck (bindP p f) (xs @ ys)"
  unfolding stuck_def
proof (intro allI impI)
  fix pre post :: bytes
  assume "length (pre @ (xs @ ys) @ post) < 2 ^ 64"
  then show "bindP p f \<lparr>r_bytes = pre @ (xs @ ys) @ post, r_position = length pre\<rparr> = Panic"
    using parsesD [OF assms(1), of pre "ys @ post"] stuckD [OF assms(2), of "pre @ xs" post]
    by (simp add: bindP_def)
qed

lemma stuck_byte: "stuck (f b) ys \<Longrightarrow> stuck (bindP r_u8 f) (b # ys)"
  using stuck_bind [OF parses_u8, of f b ys] by simp

lemma stuck_bind_last: "parses p xs a \<Longrightarrow> stuck (f a) [] \<Longrightarrow> stuck (bindP p f) xs"
  using stuck_bind [of p xs a f "[]"] by simp

lemma stuck_bind_silent: "parses p [] a \<Longrightarrow> stuck (f a) ys \<Longrightarrow> stuck (bindP p f) ys"
  using stuck_bind [of p "[]" a f ys] by simp

lemma stuck_if: "\<not> c \<Longrightarrow> stuck q xs \<Longrightarrow> stuck (if c then p else q) xs"
  by simp

lemmas stuck_steps = stuck_bind [OF parses_u16] stuck_bind [OF parses_u32] stuck_bind [OF parses_u64]

text \<open>A logical type over a column that is not \<open>i64\<close>.\<close>

lemma stuck_field:
  assumes "length name < 2 ^ 16" "valid_utf8 name" "ct \<noteq> I64"
  shows "stuck decode_field (encode_field
    \<lparr>f_name = name, f_column_type = ct, f_nullable = nullable, f_logical = Some TimestampNs\<rparr>)"
  unfolding decode_field_def encode_field_def field.simps option.case append_Cons append_Nil
  by (rule stuck_steps(1), rule stuck_bind [OF parses_take], use assms(1) in simp, rule stuck_if, simp add: assms(2),
      rule stuck_byte, simp only: tags_inverse option.case, rule stuck_byte, rule stuck_byte, rule stuck_byte,
      simp add: Let_def, rule stuck_lift, use assms(3) in \<open>simp add: with_logical_def logical_valid_for_def field_new_def\<close>)

text \<open>A column whose values decode but whose assembly panics.\<close>

lemma stuck_column:
  assumes "field_ok f" "validity_ok rows validity" "rows < 2 ^ 34" "length values < 2 ^ 64"
    and "stuck (decode_values (f_column_type f) codec rows validity values) rest"
  shows "stuck (decode_column rows)
    (encode_field f @ [codec_tag codec] @ encode_zone_map None @ encode_validity validity @ push_values values @ rest)"
  unfolding decode_column_def append_Cons append_Nil push_values_def append_assoc
  by (rule stuck_bind [OF parses_field [OF assms(1)]], rule stuck_byte, simp only: codec_from_tag_inverse option.case,
      rule stuck_bind [OF parses_zone_map], simp, rule stuck_bind [OF parses_validity [OF assms(2,3)]],
      rule stuck_steps(3), rule stuck_bind [OF parses_take], use assms(4) in simp, rule stuck_first, rule assms(5))

text \<open>A file of one column, sealed with its proper checksum.\<close>

definition one_column_file :: "u64 \<Rightarrow> bytes \<Rightarrow> bytes" where
  "one_column_file rows column =
     seal MAGIC VERSION (le_bytes 8 (0 :: u64) @ le_bytes 8 rows @ le_bytes 4 (0 :: u32) @ le_bytes 4 (0 :: u32) @
       le_bytes 4 (1 :: u32) @ column)"

lemma decode_one_column_stuck:
  assumes "stuck (decode_column (unat rows)) column" "length column < 2 ^ 60"
  shows "decode_segment (one_column_file rows column) = Panic"
proof -
  let ?payload = "le_bytes 8 (0 :: u64) @ le_bytes 8 rows @ le_bytes 4 (0 :: u32) @ le_bytes 4 (0 :: u32) @
       le_bytes 4 (1 :: u32) @ column"
  have "stuck (segment_body VERSION) ?payload"
    unfolding segment_body_def
    by (rule stuck_steps(3), rule stuck_steps(3), rule stuck_steps(2), rule stuck_steps(2), rule stuck_steps(2),
        rule stuck_if, simp, rule stuck_first, unfold unsigned_1 One_nat_def repeatP.simps, rule stuck_first,
        rule assms(1))
  from stuckD [OF this, of "MAGIC @ le_bytes 2 VERSION @ le_bytes 2 (0 :: u16) @ le_bytes 4 (crc32c ?payload)" "[]"]
  show ?thesis
    unfolding decode_segment_def one_column_file_def seal_def
    using assms(2) by (subst open_sealed_eq) (simp_all add: MAGIC_def ascii_def)
qed

text \<open>The same at the end of the file, for the assembly of the batch.\<close>

definition stuck_end :: "'a parser \<Rightarrow> bytes \<Rightarrow> bool" where
  "stuck_end p xs \<longleftrightarrow> (\<forall>pre. length (pre @ xs) < 2 ^ 64 \<longrightarrow>
     p \<lparr>r_bytes = pre @ xs, r_position = length pre\<rparr> = Panic)"

lemma stuck_endI: "stuck p xs \<Longrightarrow> stuck_end p xs"
  unfolding stuck_end_def using stuckD [of p xs _ "[]"] by simp

lemma stuck_endD: "stuck_end p xs \<Longrightarrow> length (pre @ xs) < 2 ^ 64 \<Longrightarrow>
    p \<lparr>r_bytes = pre @ xs, r_position = length pre\<rparr> = Panic"
  unfolding stuck_end_def by blast

lemma stuck_end_bind:
  assumes "parses p xs a" "stuck_end (f a) ys"
  shows "stuck_end (bindP p f) (xs @ ys)"
  unfolding stuck_end_def
proof (intro allI impI)
  fix pre :: bytes
  assume "length (pre @ xs @ ys) < 2 ^ 64"
  then show "bindP p f \<lparr>r_bytes = pre @ xs @ ys, r_position = length pre\<rparr> = Panic"
    using parsesD [OF assms(1), of pre ys] stuck_endD [OF assms(2), of "pre @ xs"] by (simp add: bindP_def)
qed

lemma stuck_end_bind_last: "parses p xs a \<Longrightarrow> stuck_end (f a) [] \<Longrightarrow> stuck_end (bindP p f) xs"
  using stuck_end_bind [of p xs a f "[]"] by simp

lemma stuck_end_remaining: "stuck_end (f 0) [] \<Longrightarrow> stuck_end (bindP r_remaining f) []"
  by (simp add: stuck_end_def r_remaining_def bindP_def)

lemma stuck_end_if: "\<not> c \<Longrightarrow> stuck_end q xs \<Longrightarrow> stuck_end (if c then p else q) xs"
  by simp

lemmas stuck_end_steps = stuck_end_bind [OF parses_u16] stuck_end_bind [OF parses_u32] stuck_end_bind [OF parses_u64]

lemma decode_one_column_rejected:
  assumes "parses (decode_column (unat rows)) column (f, c, zm)" "length column < 2 ^ 60"
    "record_batch_new \<lparr>s_fields = [f]\<rparr> [c] = (Panic :: (format_error, _) outcome)"
  shows "decode_segment (one_column_file rows column) = Panic"
proof -
  let ?payload = "le_bytes 8 (0 :: u64) @ le_bytes 8 rows @ le_bytes 4 (0 :: u32) @ le_bytes 4 (0 :: u32) @
       le_bytes 4 (1 :: u32) @ column"
  have cols: "parses (repeatP (unat (1 :: u32)) (decode_column (unat rows))) column [(f, c, zm)]"
    unfolding unsigned_1 One_nat_def repeatP.simps
    by (rule parses_bind_last [OF assms(1)], rule parses_bind_silent [OF parses_return parses_return])
  have trailers: "parses (if VERSION = VERSION_TRAILERED
      then bindP r_u16 (\<lambda>n. read_sections (trailer_section (unat rows)) (unat n) (RowIds, None))
      else returnP (RowIds, None)) [] (RowIds, None)"
    by (simp add: VERSION_def VERSION_TRAILERED_def parses_return)
  have "stuck_end (segment_body VERSION) ?payload"
    unfolding segment_body_def
    by (rule stuck_end_steps(3), rule stuck_end_steps(3), rule stuck_end_steps(2), rule stuck_end_steps(2),
        rule stuck_end_steps(2), rule stuck_end_if, simp, rule stuck_end_bind_last [OF cols],
        rule stuck_end_bind_last [OF trailers], simp only: prod.case, rule stuck_end_remaining,
        rule stuck_end_if, simp, rule stuck_endI, rule stuck_lift, use assms(3) in simp)
  from stuck_endD [OF this, of "MAGIC @ le_bytes 2 VERSION @ le_bytes 2 (0 :: u16) @ le_bytes 4 (crc32c ?payload)"]
  show ?thesis
    unfolding decode_segment_def one_column_file_def seal_def
    using assms(2) by (subst open_sealed_eq) (simp_all add: MAGIC_def ascii_def)
qed

text \<open>
  C12: The decoder is not total on files that pass the checksum.  It panics, where it
  promises an error, on a logical type over an \<open>f64\<close> column, on a key column of code 0
  with an empty dictionary, and on a validity bitmap under a \<open>NOT NULL\<close> field: three
  assertions of the constructors that the decoder does not check first.
\<close>
theorem segment_decoder_panics:
  "decode_segment (one_column_file 0 (encode_field
      \<lparr>f_name = [], f_column_type = F64, f_nullable = False, f_logical = Some TimestampNs\<rparr>)) = Panic \<and>
   decode_segment (one_column_file 1 (encode_field (field_new [] Key False) @
      [codec_tag Uncompressed] @ encode_zone_map None @ encode_validity None @
      push_values (le_bytes 4 (0 :: u32)) @ encode_dictionary dict_new)) = Panic \<and>
   decode_segment (one_column_file 0 (encode_column sample_segment (field_new [] I64 False)
      (Numeric (NI64 \<lparr>nc_values = [], nc_validity = Some (from_bools [])\<rparr>)) False None)) = Panic"
proof (intro conjI)
  have utf: "valid_utf8 []" by code_simp
  have d: "dict_ok dict_new" "dict_len dict_new = 0" by (rule dict_ok_new(1), simp add: dict_new_def dict_len_def)
  have bm: "bitmap_ok (from_bools [])" "bm_len (from_bools []) = 0" by code_simp+
  let ?c = "Numeric (NI64 \<lparr>nc_values = [], nc_validity = Some (from_bools [])\<rparr>)"
  show "decode_segment (one_column_file 0 (encode_field
      \<lparr>f_name = [], f_column_type = F64, f_nullable = False, f_logical = Some TimestampNs\<rparr>)) = Panic"
    by (rule decode_one_column_stuck, unfold decode_column_def, rule stuck_first, rule stuck_field)
      (simp_all add: utf encode_field_def)
  have "stuck (decode_values Key Uncompressed 1 None (le_bytes 4 (0 :: u32))) (encode_dictionary dict_new)"
    unfolding decode_values_def column_type.case
    by (rule stuck_bind_silent [OF parses_lift], simp add: decode_plain_def, simp,
        rule stuck_bind_last [OF parses_dictionary], use d in simp, use d in simp,
        rule stuck_if, use d in \<open>simp add: code_ok_def dict_is_empty_def\<close>,
        rule stuck_lift, use d in \<open>simp add: kc_new_non_null_eq\<close>)
  then show "decode_segment (one_column_file 1 (encode_field (field_new [] Key False) @
      [codec_tag Uncompressed] @ encode_zone_map None @ encode_validity None @
      push_values (le_bytes 4 (0 :: u32)) @ encode_dictionary dict_new)) = Panic"
    by (intro decode_one_column_stuck stuck_column)
      (simp_all add: utf field_ok_def field_new_def validity_ok_def encode_field_def push_values_def encode_dictionary_def
        dict_new_def dict_len_def)
  have "parses (decode_column (unat (0 :: u64))) (encode_column sample_segment (field_new [] I64 False) ?c False None)
      (field_new [] I64 False, ?c, None)"
    using bm utf by (intro parses_column)
      (simp_all add: validity_ok_def nc_len_def column_fits_def push_values_def field_ok_def field_new_def
        encode_for_i64_def encode_column_chunks_simps)
  then show "decode_segment (one_column_file 0 (encode_column sample_segment (field_new [] I64 False) ?c False None)) = Panic"
    by (rule decode_one_column_rejected)
      (simp_all add: record_batch_new_def binding_ok_def field_new_def encode_column_def encode_field_def
        push_values_def nc_len_def encode_for_i64_def encode_column_chunks_simps bm from_bools_def)
qed

end
