(* ===== verification/Tombstone.thy ===== *)
theory Tombstone
  imports Reader
begin

text \<open>
  The delete log of \<^verbatim>\<open>src/storage_lite/tombstone.rs\<close>: magic, version, checksum, the knowledge
  stamp, the supersession coordinate and the ascending row ids, delta-of-delta coded.  A
  \<open>BTreeSet<u64>\<close> is a set of words; its iteration is the ascending list.  The abstract
  reading of the file is its triple (ids, stamp, superseding), which decoding inverts.
\<close>

record delete_log =
  dl_ids :: "u64 set"
  dl_stamped_at :: u64
  dl_superseding :: u64

definition TOMBSTONE_MAGIC :: bytes where
  "TOMBSTONE_MAGIC = ascii ''TALLYDEL''"

definition encode_tombstones :: "u64 set \<Rightarrow> u64 \<Rightarrow> u64 \<Rightarrow> bytes" where
  "encode_tombstones ids stamped_at superseding =
     (let signed = sorted_list_of_set ids;
          body = le_bytes 8 stamped_at @ le_bytes 8 superseding @
            le_bytes 8 (word_of_nat (card ids) :: u64) @ encode_delta_of_delta signed
      in TOMBSTONE_MAGIC @ le_bytes 2 (2 :: u16) @ le_bytes 2 (0 :: u16) @ le_bytes 4 (crc32 body) @ body)"

text \<open>\<open>bytes[from..to]\<close>, which panics out of range.\<close>

definition slice :: "bytes \<Rightarrow> nat \<Rightarrow> nat \<Rightarrow> ('e, bytes) outcome" where
  "slice bytes from to =
     (if from \<le> to \<and> to \<le> length bytes then Ok (take (to - from) (drop from bytes)) else Panic)"

text \<open>The loop that rebuilds the set, checking that the ids ascend.\<close>

fun collect_ascending :: "u64 option \<Rightarrow> u64 set \<Rightarrow> u64 list \<Rightarrow> (format_error, u64 set) outcome" where
  "collect_ascending previous ids [] = Ok ids"
| "collect_ascending previous ids (k # rest) =
     (if (case previous of Some p \<Rightarrow> k \<le> p | None \<Rightarrow> False)
      then Err (Corrupt ''delete log row ids are not strictly ascending'')
      else collect_ascending (Some k) (insert k ids) rest)"

definition decode_tombstones :: "bytes \<Rightarrow> (format_error, delete_log) outcome" where
  "decode_tombstones bytes =
     (if length bytes < 24 then Err (Corrupt ''delete log too short'')
      else
        bindR (slice bytes 0 8) (\<lambda>magic.
        if magic \<noteq> TOMBSTONE_MAGIC then Err BadMagic
        else
          bindR (mapR le_word (slice bytes 8 10)) (\<lambda>version :: u16.
          if version \<noteq> 1 \<and> version \<noteq> 2 then Err (UnsupportedVersion version)
          else
            bindR (slice bytes 10 12) (\<lambda>reserved.
            if reserved \<noteq> [0, 0] then Err (Corrupt ''reserved header bytes are not zero'')
            else
              bindR (mapR le_word (slice bytes 12 16)) (\<lambda>stored :: u32.
              let computed = crc32 (drop 16 bytes)
              in if stored \<noteq> computed then Err (ChecksumMismatch stored computed)
                 else
                   bindR (if version = 2 then
                            (if length bytes < 40 then Err (Corrupt ''delete log too short'')
                             else bindR (mapR le_word (slice bytes 16 24)) (\<lambda>stamped_at :: u64.
                                  bindR (mapR le_word (slice bytes 24 32)) (\<lambda>superseding :: u64.
                                    Ok (stamped_at, superseding, 32))))
                          else Ok (0, 0, 16))
                   (\<lambda>(stamped_at, superseding, position).
                   bindR (mapR (\<lambda>b. unat (le_word b :: u64)) (slice bytes position (position + 8))) (\<lambda>count.
                   bindR (map_err CodecErr (decode_delta_of_delta (drop (position + 8) bytes) count)) (\<lambda>signed.
                   mapR (\<lambda>ids. \<lparr>dl_ids = ids, dl_stamped_at = stamped_at, dl_superseding = superseding\<rparr>)
                     (collect_ascending None {} signed)))))))))"

section \<open>Round trip\<close>

lemma collect_ascending_sorted:
  assumes "sorted_wrt (<) (xs :: u64 list)" "case previous of Some p \<Rightarrow> \<forall>x\<in>set xs. p < x | None \<Rightarrow> True"
  shows "collect_ascending previous ids xs = Ok (ids \<union> set xs)"
  using assms by (induction xs arbitrary: previous ids) (auto simp: not_le split: option.splits)

lemma collect_ascending_Ok:
  "collect_ascending previous ids xs = Ok ids' \<Longrightarrow> ids' = ids \<union> set xs \<and> sorted_wrt (<) xs \<and>
   (\<forall>p. previous = Some p \<longrightarrow> (\<forall>x\<in>set xs. p < x))"
proof (induction xs arbitrary: previous ids)
  case (Cons x xs)
  then have "collect_ascending (Some x) (insert x ids) xs = Ok ids'"
    and p: "\<forall>p. previous = Some p \<longrightarrow> p < x" by (auto split: if_splits option.splits)
  from Cons.IH [OF this(1)] p show ?case by (auto intro: less_trans)
qed simp

lemma collect_ascending_not_Panic: "collect_ascending previous ids xs \<noteq> Panic"
  by (induction xs arbitrary: previous ids) auto

lemma slice_mid [simp]: "length xs = n \<Longrightarrow> slice (pre @ xs @ post) (length pre) (length pre + n) = Ok xs"
  by (simp add: slice_def)

lemma slice_at: "bs = pre @ xs @ post \<Longrightarrow> length pre = i \<Longrightarrow> i + length xs = j \<Longrightarrow> slice bs i j = Ok xs"
  by (auto simp: slice_def)

lemma length_TOMBSTONE_MAGIC [simp]: "length TOMBSTONE_MAGIC = 8"
  by (simp add: TOMBSTONE_MAGIC_def ascii_def)

lemma finite_words [simp]: "finite (S :: 'a::len word set)"
  by (rule finite_subset [OF subset_UNIV]) (rule finite)

text \<open>
  C9: A delete log decodes to what was written.  For every set of row ids, stamp and
  supersession coordinate, decoding the encoded log returns the same three; the ids are
  fewer than \<open>2^64\<close>, so their count always fits its field.
\<close>
theorem tombstone_roundtrip:
  assumes "card ids < 2 ^ 60"
  shows "decode_tombstones (encode_tombstones ids stamp sq) =
    Ok \<lparr>dl_ids = ids, dl_stamped_at = stamp, dl_superseding = sq\<rparr>"
proof -
  let ?xs = "sorted_list_of_set ids"
  let ?enc = "encode_delta_of_delta ?xs"
  let ?n = "le_bytes 8 (word_of_nat (card ids) :: u64)"
  let ?body = "le_bytes 8 stamp @ le_bytes 8 sq @ ?n @ ?enc"
  let ?h = "TOMBSTONE_MAGIC @ le_bytes 2 (2 :: u16) @ le_bytes 2 (0 :: u16) @ le_bytes 4 (crc32 ?body)"
  define bs where "bs = encode_tombstones ids stamp sq"
  have bs: "bs = ?h @ ?body" by (simp add: bs_def encode_tombstones_def Let_def)
  have len: "length ?xs = card ids" by simp
  have z: "le_bytes 2 (0 :: u16) = [0, 0]" by (simp add: le_bytes_def upt_rec)
  have s1: "slice bs 0 8 = (Ok TOMBSTONE_MAGIC :: (format_error, _) outcome)"
    and s2: "slice bs 8 10 = (Ok (le_bytes 2 (2 :: u16)) :: (format_error, _) outcome)"
    and s3: "slice bs 10 12 = (Ok [0, 0] :: (format_error, _) outcome)"
    and s4: "slice bs 12 16 = (Ok (le_bytes 4 (crc32 ?body)) :: (format_error, _) outcome)"
    and s5: "slice bs 16 24 = (Ok (le_bytes 8 stamp) :: (format_error, _) outcome)"
    and s6: "slice bs 24 32 = (Ok (le_bytes 8 sq) :: (format_error, _) outcome)"
    and s7: "slice bs 32 40 = (Ok ?n :: (format_error, _) outcome)"
    unfolding bs z [symmetric] by (simp_all add: slice_def)
  have d: "drop 16 bs = ?body" "drop 40 bs = ?enc" "40 \<le> length bs" unfolding bs by simp_all
  have count: "unat (word_of_nat (card ids) :: u64) = card ids" using assms by simp
  have enc: "decode_delta_of_delta ?enc (card ids) = Ok ?xs"
    using decode_dod_framed [of ?xs "[]"] len by simp
  have "collect_ascending None {} ?xs = Ok ids"
    using collect_ascending_sorted [of ?xs None "{}"] by (simp add: strict_sorted_iff)
  then show ?thesis
    using s1 s2 s3 s4 s5 s6 s7 d count enc
    unfolding decode_tombstones_def bs_def [symmetric] by (simp add: Let_def)
qed

theorem tombstone_roundtrip_witness:
  "decode_tombstones (encode_tombstones {9, 4} 7 0) =
     Ok \<lparr>dl_ids = {4, 9}, dl_stamped_at = 7, dl_superseding = 0\<rparr>"
proof -
  have "card {9, 4 :: u64} < 2 ^ 60" by simp
  then show ?thesis using tombstone_roundtrip [of "{9, 4}" 7 0] by (simp add: insert_commute)
qed

text \<open>Decoding never panics, and what it accepts carries a checksum that matches.\<close>

lemma slice_in_range: "i \<le> j \<Longrightarrow> j \<le> length bs \<Longrightarrow> slice bs i j = Ok (take (j - i) (drop i bs))"
  by (simp add: slice_def)

lemma decode_tombstones_not_Panic: "decode_tombstones bs \<noteq> Panic"
  unfolding decode_tombstones_def
  by (auto simp: slice_in_range Let_def decode_dod_not_Panic collect_ascending_not_Panic split: if_splits)

end
