(* ===== verification/Manifest.thy ===== *)
theory Manifest
  imports SegmentFile
begin

text \<open>
  The table manifest of \<^verbatim>\<open>src/storage_lite/format.rs\<close>: schema, ordering key, generation and the
  sections (segment records, knowledge watermark, history names), with its encoder and
  decoder.  The container (magic, version, checksum) and the section scheme are those of
  the segment file.
\<close>

definition MANIFEST_MAGIC :: bytes where "MANIFEST_MAGIC = ascii ''TALLYMFT''"

definition MANIFEST_VERSION :: u16 where "MANIFEST_VERSION = 1"

definition MANIFEST_VERSION_SECTIONED :: u16 where "MANIFEST_VERSION_SECTIONED = 2"

datatype sequence_summary = SRowIds | SContiguous u64 | SExplicit u64

record segment_record =
  sr_name :: rstring
  sr_base_row_id :: u64
  sr_rows :: u64
  sr_ordered :: bool
  sr_sequence :: sequence_summary
  sr_zone_maps :: "zone_map option list"

definition record_of :: "rstring \<Rightarrow> segment \<Rightarrow> ('e, segment_record) outcome" where
  "record_of name s =
     (if zone_maps_present s then
        Ok \<lparr>sr_name = name, sr_base_row_id = sg_base_row_id s,
            sr_rows = word_of_nat (rb_num_rows (sg_batch s)), sr_ordered = sg_ordered s,
            sr_sequence = (case sg_sequence s of
                RowIds \<Rightarrow> SRowIds
              | Contiguous base \<Rightarrow> SContiguous base
              | Explicit _ \<Rightarrow> SExplicit (sequence_end s)),
            sr_zone_maps = map (sg_zone_map s) [0..<length (rb_columns (sg_batch s))]\<rparr>
      else Panic)"

fun record_sequence_end :: "segment_record \<Rightarrow> u64" where
  "record_sequence_end r = (case sr_sequence r of
       SRowIds \<Rightarrow> sr_base_row_id r + sr_rows r
     | SContiguous base \<Rightarrow> base + sr_rows r
     | SExplicit end \<Rightarrow> end)"

definition record_diverged :: "segment_record \<Rightarrow> bool" where
  "record_diverged r \<longleftrightarrow> sr_sequence r \<noteq> SRowIds"

record manifest_sections =
  ms_segments :: "segment_record list"
  ms_next_sequence :: "u64 option"
  ms_history :: "rstring list"

definition no_sections :: manifest_sections where
  "no_sections = \<lparr>ms_segments = [], ms_next_sequence = None, ms_history = []\<rparr>"

definition sections_empty :: "manifest_sections \<Rightarrow> bool" where
  "sections_empty m \<longleftrightarrow> ms_segments m = [] \<and> ms_next_sequence m = None \<and> ms_history m = []"

definition SECTION_SEGMENTS :: u16 where "SECTION_SEGMENTS = 1"

definition SECTION_KNOWLEDGE :: u16 where "SECTION_KNOWLEDGE = 2"

definition SECTION_HISTORY :: u16 where "SECTION_HISTORY = 3"

record manifest =
  mf_schema :: schema
  mf_ordering_key :: nat
  mf_generation :: u64
  mf_sections :: manifest_sections

section \<open>Encoding\<close>

text \<open>A name with its length cast by \<open>as u16\<close>.\<close>

definition encode_name :: "rstring \<Rightarrow> bytes" where
  "encode_name name = le_bytes 2 (word_of_nat (length name) :: u16) @ name"

fun encode_summary :: "sequence_summary \<Rightarrow> bytes" where
  "encode_summary SRowIds = [0]"
| "encode_summary (SContiguous base) = [1] @ le_bytes 8 base"
| "encode_summary (SExplicit end) = [2] @ le_bytes 8 end"

definition encode_record :: "segment_record \<Rightarrow> bytes" where
  "encode_record r =
     encode_name (sr_name r) @ le_bytes 8 (sr_base_row_id r) @ le_bytes 8 (sr_rows r) @
     [u8_of_bool (sr_ordered r)] @ encode_summary (sr_sequence r) @
     le_bytes 4 (word_of_nat (length (sr_zone_maps r)) :: u32) @ concat (map encode_zone_map (sr_zone_maps r))"

definition manifest_section_list :: "manifest_sections \<Rightarrow> (u16 \<times> bytes) list" where
  "manifest_section_list m =
     (if ms_segments m \<noteq> [] then
        [(SECTION_SEGMENTS, le_bytes 4 (word_of_nat (length (ms_segments m)) :: u32) @
           concat (map encode_record (ms_segments m)))]
      else []) @
     (case ms_next_sequence m of Some n \<Rightarrow> [(SECTION_KNOWLEDGE, le_bytes 8 n)] | None \<Rightarrow> []) @
     (if ms_history m \<noteq> [] then
        [(SECTION_HISTORY, le_bytes 4 (word_of_nat (length (ms_history m)) :: u32) @
           concat (map encode_name (ms_history m)))]
      else [])"

definition manifest_version :: "manifest_sections \<Rightarrow> u16" where
  "manifest_version m = (if sections_empty m then MANIFEST_VERSION else MANIFEST_VERSION_SECTIONED)"

definition manifest_core :: "schema \<Rightarrow> nat \<Rightarrow> u64 \<Rightarrow> bytes" where
  "manifest_core s ordering_key generation =
     le_bytes 8 generation @ le_bytes 4 (word_of_nat ordering_key :: u32) @
     le_bytes 4 (word_of_nat (length (s_fields s)) :: u32) @ concat (map encode_field (s_fields s))"

definition encode_manifest :: "schema \<Rightarrow> nat \<Rightarrow> u64 \<Rightarrow> manifest_sections \<Rightarrow> bytes" where
  "encode_manifest s ordering_key generation m =
     seal MANIFEST_MAGIC (manifest_version m)
       (manifest_core s ordering_key generation @
        (if manifest_version m = MANIFEST_VERSION_SECTIONED then encode_sections (manifest_section_list m) else []))"

section \<open>Decoding\<close>

definition decode_name :: "string \<Rightarrow> rstring parser" where
  "decode_name what =
     bindP r_u16 (\<lambda>len.
     bindP (r_take (unat len)) (\<lambda>name.
     if valid_utf8 name then returnP name else corruptP what))"

definition decode_summary :: "sequence_summary parser" where
  "decode_summary =
     bindP r_u8 (\<lambda>kind.
     if kind = 0 then returnP SRowIds
     else if kind = 1 then bindP r_u64 (\<lambda>base. returnP (SContiguous base))
     else if kind = 2 then bindP r_u64 (\<lambda>end. returnP (SExplicit end))
     else corruptP ''unknown sequence kind'')"

fun decode_zone_maps :: "field list \<Rightarrow> zone_map option list parser" where
  "decode_zone_maps [] = returnP []"
| "decode_zone_maps (f # fs) =
     bindP (decode_zone_map (f_column_type f)) (\<lambda>zm. bindP (decode_zone_maps fs) (\<lambda>zms. returnP (zm # zms)))"

definition decode_record :: "field list \<Rightarrow> segment_record parser" where
  "decode_record fs =
     bindP (decode_name ''segment record name is not UTF-8'') (\<lambda>name.
     bindP r_u64 (\<lambda>base_row_id.
     bindP r_u64 (\<lambda>rows.
     bindP r_u8 (\<lambda>ordered.
     if ordered \<noteq> 0 \<and> ordered \<noteq> 1 then corruptP ''segment record has another ordered byte''
     else
       bindP decode_summary (\<lambda>sequence.
       bindP r_u32 (\<lambda>map_count.
       if unat map_count \<noteq> length fs then corruptP ''segment record carries another number of zone maps''
       else
         bindP (decode_zone_maps fs) (\<lambda>zone_maps.
         returnP \<lparr>sr_name = name, sr_base_row_id = base_row_id, sr_rows = rows, sr_ordered = (ordered = 1),
           sr_sequence = sequence, sr_zone_maps = zone_maps\<rparr>)))))))"

text \<open>A counted list read by an inner reader over a section's payload, which it must exhaust.\<close>

definition decode_counted :: "'a parser \<Rightarrow> string \<Rightarrow> bytes \<Rightarrow> (format_error, 'a list) outcome" where
  "decode_counted p what payload =
     bindR (bindP r_u32 (\<lambda>count. repeatP (unat count) p) \<lparr>r_bytes = payload, r_position = 0\<rparr>)
       (\<lambda>(vs, inner). if r_position inner \<noteq> length payload then Err (Corrupt what) else Ok vs)"

definition manifest_section ::
  "field list \<Rightarrow> u16 \<Rightarrow> bytes \<Rightarrow> manifest_sections \<Rightarrow> (format_error, manifest_sections) outcome" where
  "manifest_section fs tag payload m =
     (if tag = SECTION_SEGMENTS then
        mapR (\<lambda>rs. m\<lparr>ms_segments := ms_segments m @ rs\<rparr>)
          (decode_counted (decode_record fs) ''trailing bytes in the segments section'' payload)
      else if tag = SECTION_KNOWLEDGE then
        (if length payload = 8 then Ok (m\<lparr>ms_next_sequence := Some (le_word payload)\<rparr>)
         else Err (Corrupt ''knowledge section is 8 bytes''))
      else if tag = SECTION_HISTORY then
        mapR (\<lambda>names. m\<lparr>ms_history := ms_history m @ names\<rparr>)
          (decode_counted (decode_name ''history segment name is not UTF-8'')
            ''trailing bytes in the history section'' payload)
      else Ok m)"

definition manifest_body :: "u16 \<Rightarrow> manifest parser" where
  "manifest_body version =
     bindP r_u64 (\<lambda>generation.
     bindP r_u32 (\<lambda>ordering_key.
     bindP r_u32 (\<lambda>column_count.
     if unat column_count \<le> unat ordering_key then corruptP ''ordering key index out of range''
     else
       bindP (repeatP (unat column_count) decode_field) (\<lambda>fs.
       bindP (if version = MANIFEST_VERSION_SECTIONED
              then bindP r_u16 (\<lambda>n. read_sections (manifest_section fs) (unat n) no_sections)
              else returnP no_sections) (\<lambda>sections.
       bindP r_remaining (\<lambda>left.
       if left \<noteq> 0 then corruptP ''bytes remain after the last column or section''
       else returnP \<lparr>mf_schema = \<lparr>s_fields = fs\<rparr>, mf_ordering_key = unat ordering_key,
         mf_generation = generation, mf_sections = sections\<rparr>))))))"

definition decode_manifest :: "bytes \<Rightarrow> (format_error, manifest) outcome" where
  "decode_manifest bytes =
     open_sealed bytes MANIFEST_MAGIC MANIFEST_VERSION MANIFEST_VERSION_SECTIONED manifest_body"

section \<open>Round trip\<close>

definition name_ok :: "rstring \<Rightarrow> bool" where
  "name_ok name \<longleftrightarrow> length name < 2 ^ 16 \<and> valid_utf8 name"

definition record_ok :: "field list \<Rightarrow> segment_record \<Rightarrow> bool" where
  "record_ok fs r \<longleftrightarrow> name_ok (sr_name r) \<and>
     list_all2 (\<lambda>f zm. zone_ok (f_column_type f) zm) fs (sr_zone_maps r)"

definition manifest_ok :: "schema \<Rightarrow> nat \<Rightarrow> manifest_sections \<Rightarrow> bool" where
  "manifest_ok s ordering_key m \<longleftrightarrow>
     length (s_fields s) < 2 ^ 32 \<and> ordering_key < length (s_fields s) \<and>
     (\<forall>f\<in>set (s_fields s). field_ok f) \<and> (\<forall>r\<in>set (ms_segments m). record_ok (s_fields s) r) \<and>
     (\<forall>name\<in>set (ms_history m). name_ok name) \<and>
     length (ms_segments m) < 2 ^ 32 \<and> length (ms_history m) < 2 ^ 32 \<and>
     (\<forall>(tag, payload)\<in>set (manifest_section_list m). length payload < 2 ^ 32)"

lemma parses_name: "name_ok name \<Longrightarrow> parses (decode_name what) (encode_name name) name"
  unfolding decode_name_def encode_name_def
  by (rule parses_steps(2), rule parses_take_last) (simp_all add: name_ok_def parses_return)

lemma parses_summary: "parses decode_summary (encode_summary q) q"
proof (cases q)
  case SRowIds
  show ?thesis unfolding SRowIds decode_summary_def encode_summary.simps
    by (rule parses_byte) (simp add: parses_return)
next
  case (SContiguous b)
  show ?thesis unfolding SContiguous decode_summary_def encode_summary.simps append_Cons append_Nil
    by (rule parses_byte, simp, rule parses_bind_return [OF parses_u64])
next
  case (SExplicit e)
  show ?thesis unfolding SExplicit decode_summary_def encode_summary.simps append_Cons append_Nil
    by (rule parses_byte, simp, rule parses_bind_return [OF parses_u64])
qed

lemma parses_zone_maps:
  "list_all2 (\<lambda>f zm. zone_ok (f_column_type f) zm) fs zms \<Longrightarrow>
   parses (decode_zone_maps fs) (concat (map encode_zone_map zms)) zms"
proof (induction rule: list_all2_induct)
  case (Cons f fs zm zms)
  then show ?case
    by (auto intro!: parses_bind [OF parses_zone_map] parses_bind_return [where g = "\<lambda>zs. zm # zs"])
qed (simp add: parses_return)

lemma parses_record:
  assumes "record_ok fs r" "length fs < 2 ^ 32"
  shows "parses (decode_record fs) (encode_record r) r"
proof -
  have len: "length (sr_zone_maps r) = length fs"
    using assms(1) by (auto simp: record_ok_def dest: list_all2_lengthD)
  have n: "unat (word_of_nat (length fs) :: u32) = length fs" using assms(2) by simp
  have zm: "parses (decode_zone_maps fs) (concat (map encode_zone_map (sr_zone_maps r))) (sr_zone_maps r)"
    using assms(1) by (intro parses_zone_maps) (simp add: record_ok_def)
  have name: "name_ok (sr_name r)" using assms(1) by (simp add: record_ok_def)
  have b: "(u8_of_bool (sr_ordered r) = 1) = sr_ordered r"
    "\<not> (u8_of_bool (sr_ordered r) \<noteq> 0 \<and> u8_of_bool (sr_ordered r) \<noteq> 1)"
    by (simp_all add: u8_of_bool_def)
  show ?thesis
    unfolding decode_record_def encode_record_def len append_Cons append_Nil
    by (rule parses_bind [OF parses_name [OF name]], rule parses_steps(4), rule parses_steps(4), rule parses_byte,
        rule parses_if [OF b(2)], rule parses_bind [OF parses_summary], rule parses_steps(3),
        rule parses_if, simp add: n, unfold b(1), rule parses_bind_last [OF zm], cases r, simp add: parses_return)
qed

lemma decode_counted_of:
  assumes "\<forall>v\<in>set vs. parses p (enc v) v" "length vs < 2 ^ 32"
    "length (le_bytes 4 (word_of_nat (length vs) :: u32) @ concat (map enc vs)) < 2 ^ 32"
  shows "decode_counted p what (le_bytes 4 (word_of_nat (length vs) :: u32) @ concat (map enc vs)) = Ok vs"
proof -
  have n: "unat (word_of_nat (length vs) :: u32) = length vs" using assms(2) by simp
  have "parses (bindP r_u32 (\<lambda>count. repeatP (unat count) p))
      (le_bytes 4 (word_of_nat (length vs) :: u32) @ concat (map enc vs)) vs"
    by (rule parses_steps(3), unfold n, rule parses_repeat) (use assms(1) in simp)
  from parses_end_run [OF parses_endI [OF this]] show ?thesis
    using assms(3) by (simp add: decode_counted_def del: length_append)
qed

lemma sections_fold:
  assumes "manifest_ok s k m"
  shows "foldR (\<lambda>st (tag, payload). manifest_section (s_fields s) tag payload st) no_sections
    (manifest_section_list m) = Ok m"
proof -
  obtain segs n hist where m: "m = \<lparr>ms_segments = segs, ms_next_sequence = n, ms_history = hist\<rparr>" by (cases m)
  have small: "\<forall>(tag, payload)\<in>set (manifest_section_list m). length payload < 2 ^ 32"
    using assms by (simp add: manifest_ok_def)
  have segs: "decode_counted (decode_record (s_fields s)) what
      (le_bytes 4 (word_of_nat (length segs) :: u32) @ concat (map encode_record segs)) = Ok segs"
    if "segs \<noteq> []" for what
    using assms small that
    by (intro decode_counted_of) (auto simp: m manifest_ok_def manifest_section_list_def intro: parses_record)
  have hist: "decode_counted (decode_name w) what
      (le_bytes 4 (word_of_nat (length hist) :: u32) @ concat (map encode_name hist)) = Ok hist"
    if "hist \<noteq> []" for what w
    using assms small that
    by (intro decode_counted_of) (auto simp: m manifest_ok_def manifest_section_list_def intro: parses_name)
  have tags: "SECTION_KNOWLEDGE \<noteq> SECTION_SEGMENTS" "SECTION_HISTORY \<noteq> SECTION_SEGMENTS"
    "SECTION_HISTORY \<noteq> SECTION_KNOWLEDGE"
    by (simp_all add: SECTION_KNOWLEDGE_def SECTION_SEGMENTS_def SECTION_HISTORY_def)
  have [simp]: "le_word (le_bytes 8 w) = w" for w :: u64 by simp
  show ?thesis
    using segs hist tags
    by (cases "segs = []"; cases n; cases "hist = []")
      (simp_all add: m manifest_section_list_def manifest_section_def no_sections_def)
qed

text \<open>The body, with sections of other tags after the known ones.\<close>

definition unknown_sections :: "(u16 \<times> bytes) list \<Rightarrow> bool" where
  "unknown_sections extra \<longleftrightarrow> (\<forall>(tag, payload)\<in>set extra.
     tag \<noteq> SECTION_SEGMENTS \<and> tag \<noteq> SECTION_KNOWLEDGE \<and> tag \<noteq> SECTION_HISTORY \<and> length payload < 2 ^ 32)"

lemma unknown_fold:
  "unknown_sections extra \<Longrightarrow> foldR (\<lambda>st (tag, payload). manifest_section fs tag payload st) m extra = Ok m"
  by (induction extra) (auto simp: unknown_sections_def manifest_section_def)

lemma parses_manifest_body:
  assumes "manifest_ok s k m" "unknown_sections extra" "length extra < 1000"
    and v: "version = MANIFEST_VERSION_SECTIONED \<or> (version = MANIFEST_VERSION \<and> m = no_sections)"
  shows "parses_end (manifest_body version)
    (manifest_core s k g @
     (if version = MANIFEST_VERSION_SECTIONED then encode_sections (manifest_section_list m @ extra) else []))
    \<lparr>mf_schema = s, mf_ordering_key = k, mf_generation = g, mf_sections = m\<rparr>"
proof -
  let ?n = "length (s_fields s)"
  have n: "unat (word_of_nat ?n :: u32) = ?n" "unat (word_of_nat k :: u32) = k"
    using assms(1) by (simp_all add: manifest_ok_def)
  have key: "\<not> ?n \<le> k" using assms(1) by (simp add: manifest_ok_def)
  have fields: "parses (repeatP ?n decode_field) (concat (map encode_field (s_fields s))) (s_fields s)"
    using assms(1) by (intro parses_repeat parses_field) (simp add: manifest_ok_def)
  have "parses (bindP r_u16 (\<lambda>n. read_sections (manifest_section (s_fields s)) (unat n) no_sections))
      (encode_sections (manifest_section_list m @ extra)) m"
  proof (rule parses_sections)
    show "foldR (\<lambda>st (tag, payload). manifest_section (s_fields s) tag payload st) no_sections
        (manifest_section_list m @ extra) = Ok m"
      using sections_fold [OF assms(1)] unknown_fold [OF assms(2)] by (simp add: foldR_append)
    show "\<forall>(tag, payload)\<in>set (manifest_section_list m @ extra). length payload < 2 ^ 32"
      using assms(1,2) by (auto simp: manifest_ok_def unknown_sections_def)
    show "length (manifest_section_list m @ extra) < 2 ^ 16"
      using assms(3) by (simp add: manifest_section_list_def split: option.split)
  qed
  then have sections: "parses (if version = MANIFEST_VERSION_SECTIONED
        then bindP r_u16 (\<lambda>n. read_sections (manifest_section (s_fields s)) (unat n) no_sections)
        else returnP no_sections)
      (if version = MANIFEST_VERSION_SECTIONED then encode_sections (manifest_section_list m @ extra) else []) m"
    using v by (auto simp: MANIFEST_VERSION_def MANIFEST_VERSION_SECTIONED_def parses_return)
  have sch: "\<lparr>s_fields = s_fields s\<rparr> = s" by simp
  show ?thesis
    unfolding manifest_body_def manifest_core_def append_assoc
    by (rule parses_end_u64, rule parses_end_u32, rule parses_end_u32, unfold n, rule parses_end_if [OF key],
        rule parses_end_bind [OF fields], rule parses_end_bind_last [OF sections], rule parses_end_remaining,
        rule parses_end_if, simp, rule parses_endI, unfold sch, rule parses_return)
qed

lemma manifest_version_cases: "manifest_version m = MANIFEST_VERSION_SECTIONED \<or>
    (manifest_version m = MANIFEST_VERSION \<and> m = no_sections)"
  by (cases m) (simp add: manifest_version_def sections_empty_def no_sections_def)

section \<open>Properties\<close>

text \<open>
  C16: The manifest survives the file.  Schema, ordering key, generation and every section
  (segment records with their sequence summaries and zone maps, the knowledge watermark,
  the history names) are read back exactly; and a manifest written by a newer writer with
  further sections of unknown tags is read as if they were not there.
\<close>
theorem manifest_roundtrip:
  assumes "manifest_ok s k m" "unknown_sections extra" "length extra < 1000"
    and size: "length (manifest_core s k g @ encode_sections (manifest_section_list m @ extra)) + 16 < 2 ^ 64"
  shows "decode_manifest (encode_manifest s k g m) =
      Ok \<lparr>mf_schema = s, mf_ordering_key = k, mf_generation = g, mf_sections = m\<rparr> \<and>
    decode_manifest (seal MANIFEST_MAGIC MANIFEST_VERSION_SECTIONED
        (manifest_core s k g @ encode_sections (manifest_section_list m @ extra))) =
      Ok \<lparr>mf_schema = s, mf_ordering_key = k, mf_generation = g, mf_sections = m\<rparr>"
proof
  have magic: "length MANIFEST_MAGIC = 8" by (simp add: MANIFEST_MAGIC_def ascii_def)
  have known: "unknown_sections []" by (simp add: unknown_sections_def)
  show "decode_manifest (encode_manifest s k g m) =
      Ok \<lparr>mf_schema = s, mf_ordering_key = k, mf_generation = g, mf_sections = m\<rparr>"
    unfolding decode_manifest_def encode_manifest_def
  proof (rule open_sealed_seal [OF magic])
    show "length (manifest_core s k g @ (if manifest_version m = MANIFEST_VERSION_SECTIONED
        then encode_sections (manifest_section_list m) else [])) + 16 < 2 ^ 64"
      using size by (simp add: encode_sections_bytes)
  qed (use parses_manifest_body [OF assms(1) known, of "manifest_version m" g] manifest_version_cases [of m]
      in \<open>auto simp: \<close>)
  show "decode_manifest (seal MANIFEST_MAGIC MANIFEST_VERSION_SECTIONED
        (manifest_core s k g @ encode_sections (manifest_section_list m @ extra))) =
      Ok \<lparr>mf_schema = s, mf_ordering_key = k, mf_generation = g, mf_sections = m\<rparr>"
    unfolding decode_manifest_def
    by (rule open_sealed_seal [OF magic size])
      (use parses_manifest_body [OF assms(1-3), of MANIFEST_VERSION_SECTIONED g] in simp_all)
qed

definition sample_manifest :: manifest_sections where
  "sample_manifest = \<lparr>ms_segments = [\<lparr>sr_name = ascii ''seg-0-0'', sr_base_row_id = 0, sr_rows = 2,
       sr_ordered = True, sr_sequence = SContiguous 4, sr_zone_maps = [Some (ZI64 5 7)]\<rparr>],
     ms_next_sequence = Some 9, ms_history = [ascii ''hist-0-0'']\<rparr>"

theorem manifest_roundtrip_witness:
  "decode_manifest (encode_manifest \<lparr>s_fields = [field_new (ascii ''t'') I64 False]\<rparr> 0 3 sample_manifest) =
     Ok \<lparr>mf_schema = \<lparr>s_fields = [field_new (ascii ''t'') I64 False]\<rparr>, mf_ordering_key = 0, mf_generation = 3,
       mf_sections = sample_manifest\<rparr>"
proof -
  let ?s = "\<lparr>s_fields = [field_new (ascii ''t'') I64 False]\<rparr>"
  have utf: "valid_utf8 (ascii ''t'')" "valid_utf8 (ascii ''seg-0-0'')" "valid_utf8 (ascii ''hist-0-0'')" by code_simp+
  have lens: "length (ascii ''t'') < 100" "length (ascii ''seg-0-0'') < 100" "length (ascii ''hist-0-0'') < 100"
    by code_simp+
  have small: "list_all (\<lambda>(tag, payload). length payload < 1000) (manifest_section_list sample_manifest)" by code_simp
  have size: "length (manifest_core ?s 0 3 @ encode_sections (manifest_section_list sample_manifest @ [])) < 1000"
    by code_simp
  have names: "name_ok (ascii ''seg-0-0'')" "name_ok (ascii ''hist-0-0'')"
    using utf(2,3) lens(2,3) by (simp_all only: name_ok_def) simp_all
  have "field_ok (field_new (ascii ''t'') I64 False)"
    using utf(1) lens(1) by (simp add: field_ok_def field_new_def)
  moreover have "\<forall>r\<in>set (ms_segments sample_manifest). record_ok (s_fields ?s) r"
    "\<forall>name\<in>set (ms_history sample_manifest). name_ok name"
    using names by (simp_all add: sample_manifest_def record_ok_def field_new_def)
  moreover have "\<forall>(tag, payload)\<in>set (manifest_section_list sample_manifest). length payload < 2 ^ 32"
    using small by (auto simp: list_all_iff)
  moreover have "length (ms_segments sample_manifest) < 2 ^ 32" "length (ms_history sample_manifest) < 2 ^ 32"
    by (simp_all add: sample_manifest_def)
  ultimately have "manifest_ok ?s 0 sample_manifest" by (simp add: manifest_ok_def)
  from manifest_roundtrip [OF this, where extra = "[]" and g = 3] size
  show ?thesis by (simp add: unknown_sections_def)
qed



lemma decode_field_name:
  assumes "decode_field r = Ok (f, r')" "r_u16 r = Ok (w, r1)" "r_take (unat w) r1 = Ok (name, r2)"
  shows "f_name f = name"
proof -
  have "f_name g = name" if "with_logical (field_new name ct nullable) logical = (Ok g :: (format_error, _) outcome)"
    for ct nullable logical g
    using that by (auto simp: with_logical_def field_new_def split: if_splits)
  then show ?thesis
    using assms
    by (auto simp: decode_field_def bindP_def returnP_def corruptP_def failP_def liftP_def Let_def field_new_def
        split: if_splits option.splits)
qed

text \<open>
  Names of 65536 bytes or more are lost.  The length prefix is cast to 16 bits, so the
  decoder cannot read such a field name or record name back.
\<close>
theorem long_names_lost:
  assumes "2 ^ 16 \<le> length name" "length name < 2 ^ 60"
  shows "\<not> parses (decode_name what) (encode_name name) name \<and>
    \<not> parses decode_field (encode_field (field_new name ct nullable)) (field_new name ct nullable)"
proof -
  let ?k = "length name mod 2 ^ 16"
  have k: "unat (word_of_nat (length name) :: u16) = ?k" by (simp add: unat_of_nat)
  have less: "?k < length name" using assms(1) by (simp add: mod_less_eq_dividend order_less_le_trans)
  then have take: "take ?k name \<noteq> name" by (metis length_take min.absorb4 less_irrefl)
  have read: "r_u16 \<lparr>r_bytes = encode_name name @ rest, r_position = 0\<rparr> =
      Ok (word_of_nat (length name), \<lparr>r_bytes = encode_name name @ rest, r_position = 2\<rparr>)"
    "r_take ?k \<lparr>r_bytes = encode_name name @ rest, r_position = 2\<rparr> =
      Ok (take ?k name, \<lparr>r_bytes = encode_name name @ rest, r_position = 2 + ?k\<rparr>)"
    if "length rest < 100" for rest
    using parsesD [OF parses_u16, of "[]" "word_of_nat (length name)" "name @ rest"] assms(2) that less
    by (simp_all add: encode_name_def r_take_def)
  have "\<not> parses (decode_name what) (encode_name name) name"
  proof
    assume "parses (decode_name what) (encode_name name) name"
    from parsesD [OF this, of "[]" "[]"] read [of "[]"] take assms(2) show False
      by (simp add: decode_name_def bindP_def k returnP_def corruptP_def failP_def encode_name_def split: if_splits)
  qed
  moreover have "\<not> parses decode_field (encode_field (field_new name ct nullable)) (field_new name ct nullable)"
  proof
    let ?f = "field_new name ct nullable"
    obtain rest where rest: "encode_field ?f = encode_name name @ rest" "length rest < 100"
      by (simp add: encode_field_def encode_name_def field_new_def)
    assume "parses decode_field (encode_field ?f) ?f"
    from parsesD [OF this, of "[]" "[]"] rest assms(2) obtain r where
      "decode_field \<lparr>r_bytes = encode_name name @ rest, r_position = 0\<rparr> = Ok (?f, r)"
      by (auto simp: encode_name_def)
    then have "f_name ?f = take ?k name"
      using read [OF rest(2)] k by (intro decode_field_name) auto
    then show False using take by (simp add: field_new_def)
  qed
  ultimately show ?thesis by blast
qed

theorem long_names_lost_witness:
  "\<not> parses (decode_name ''name is not UTF-8'') (encode_name (replicate 65536 65)) (replicate 65536 65)"
  using long_names_lost [of "replicate 65536 65"] by simp

end
