(* ===== verification/Wal.thy ===== *)
theory Wal
  imports SegmentFile
begin

text \<open>
  The write-ahead log of \<^verbatim>\<open>src/storage_lite/format.rs\<close>: header, row records, the supersession
  bracket, and the decoder that keeps the clean prefix.  \<open>wal_records\<close> is the decoder's
  \<open>while let\<close> loop; every \<open>break\<close> is the empty rest.
\<close>

definition WAL_MAGIC :: bytes where "WAL_MAGIC = ascii ''TALLYWAL''"

definition WAL_VERSION :: u16 where "WAL_VERSION = 2"

definition WAL_HEADER_LEN :: nat where "WAL_HEADER_LEN = 30"

datatype wal_cell = WNull | WI64 i64 | WF64 f64 | WKey rstring

fun as_row_value :: "wal_cell \<Rightarrow> row_value" where
  "as_row_value WNull = RvNull"
| "as_row_value (WI64 v) = RvI64 v"
| "as_row_value (WF64 v) = RvF64 v"
| "as_row_value (WKey v) = RvKey v"

datatype wal_entry = WRow "wal_cell list" | WSupersession u64 u64

record wal_contents =
  wc_generation :: u64
  wc_base_row_id :: u64
  wc_entries :: "wal_entry list"

section \<open>Encoding\<close>

definition encode_wal_header :: "u64 \<Rightarrow> u64 \<Rightarrow> bytes" where
  "encode_wal_header generation base_row_id =
     (let out = WAL_MAGIC @ le_bytes 2 WAL_VERSION @ le_bytes 8 generation @ le_bytes 8 base_row_id
      in out @ le_bytes 4 (crc32c out))"

fun encode_wal_cell :: "row_value \<Rightarrow> bytes" where
  "encode_wal_cell RvNull = [0]"
| "encode_wal_cell (RvI64 v) = [1] @ le_bytes 8 v"
| "encode_wal_cell (RvF64 v) = [2] @ le_bytes 8 v"
| "encode_wal_cell (RvKey v) = [3] @ le_bytes 4 (word_of_nat (length v) :: u32) @ v"

text \<open>Length, payload, checksum of the payload.\<close>

definition wal_frame :: "bytes \<Rightarrow> bytes" where
  "wal_frame payload = le_bytes 4 (word_of_nat (length payload) :: u32) @ payload @ le_bytes 4 (crc32c payload)"

definition encode_wal_record :: "row_value list \<Rightarrow> bytes" where
  "encode_wal_record row = wal_frame (concat (map encode_wal_cell row))"

definition encode_wal_supersession :: "u64 \<Rightarrow> u64 \<Rightarrow> bytes" where
  "encode_wal_supersession sequence replacements =
     wal_frame ([0xFF, 1] @ le_bytes 8 sequence @ le_bytes 8 replacements)"

section \<open>Decoding\<close>

text \<open>
  One cell; any failure stops the log, so the error values of this parser are not looked
  at.
\<close>

definition decode_wal_cell :: "wal_cell parser" where
  "decode_wal_cell =
     bindP r_u8 (\<lambda>tag.
     if tag = 0 then returnP WNull
     else if tag = 1 then bindP (r_take 8) (\<lambda>b. returnP (WI64 (le_word b)))
     else if tag = 2 then bindP (r_take 8) (\<lambda>b. returnP (WF64 (le_word b)))
     else if tag = 3 then
       bindP r_u32 (\<lambda>len.
       bindP (r_take (unat len)) (\<lambda>b.
       if valid_utf8 b then returnP (WKey b) else corruptP ''key is not UTF-8''))
     else corruptP ''unknown cell tag'')"

definition wal_payload :: "nat \<Rightarrow> bytes \<Rightarrow> wal_entry option" where
  "wal_payload columns payload =
     (if payload \<noteq> [] \<and> hd payload = 0xFF then
        (if length payload = 18 \<and> payload ! 1 = 1
         then Some (WSupersession (le_word (take 8 (drop 2 payload))) (le_word (take 8 (drop 10 payload))))
         else None)
      else
        (case repeatP columns decode_wal_cell \<lparr>r_bytes = payload, r_position = 0\<rparr> of
           Ok (row, _) \<Rightarrow> Some (WRow row)
         | _ \<Rightarrow> None))"

lemma r_take_position:
  "r_take n r = Ok (v, r1) \<Longrightarrow>
   r_bytes r1 = r_bytes r \<and> r_position r1 = r_position r + n \<and> r_position r1 \<le> length (r_bytes r)"
  by (auto simp: r_take_def Let_def split: if_splits)

lemma r_u32_position:
  "r_u32 r = Ok (v, r1) \<Longrightarrow>
   r_bytes r1 = r_bytes r \<and> r_position r1 = r_position r + 4 \<and> r_position r1 \<le> length (r_bytes r)"
  by (auto simp: r_u32_def bindP_def returnP_def dest!: r_take_position)

function wal_records :: "nat \<Rightarrow> reader \<Rightarrow> wal_entry list" where
  "wal_records columns r =
     (case r_u32 r of
        Ok (len, r1) \<Rightarrow>
          (case r_take (unat len) r1 of
             Ok (payload, r2) \<Rightarrow>
               (case r_u32 r2 of
                  Ok (stored, r3) \<Rightarrow>
                    (if crc32c payload \<noteq> stored then []
                     else case wal_payload columns payload of
                            None \<Rightarrow> []
                          | Some entry \<Rightarrow> entry # wal_records columns r3)
                | _ \<Rightarrow> [])
           | _ \<Rightarrow> [])
      | _ \<Rightarrow> [])"
  by pat_completeness auto
termination
  by (relation "measure (\<lambda>(columns, r). length (r_bytes r) - r_position r)")
    (auto dest!: r_take_position r_u32_position)

declare wal_records.simps [simp del]

definition decode_wal :: "bytes \<Rightarrow> nat \<Rightarrow> (format_error, wal_contents) outcome" where
  "decode_wal bytes columns =
     mapR fst (bindP (r_take 8) (\<lambda>m.
       if m \<noteq> WAL_MAGIC then corruptP ''not a WAL file''
       else
         bindP r_u16 (\<lambda>version.
         if version \<noteq> 1 \<and> version \<noteq> WAL_VERSION then corruptP ''WAL version is not readable''
         else
           bindP r_u64 (\<lambda>generation.
           bindP r_u64 (\<lambda>base_row_id.
           bindP r_u32 (\<lambda>stored_crc.
           if crc32c (take (WAL_HEADER_LEN - 4) bytes) \<noteq> stored_crc
           then corruptP ''WAL header checksum mismatch''
           else (\<lambda>r. Ok (\<lparr>wc_generation = generation, wc_base_row_id = base_row_id,
                  wc_entries = wal_records columns r\<rparr>, r)))))))
       \<lparr>r_bytes = bytes, r_position = 0\<rparr>)"

section \<open>Records\<close>

fun entry_payload :: "wal_entry \<Rightarrow> bytes" where
  "entry_payload (WRow row) = concat (map encode_wal_cell (map as_row_value row))"
| "entry_payload (WSupersession sequence replacements) = [0xFF, 1] @ le_bytes 8 sequence @ le_bytes 8 replacements"

fun entry_bytes :: "wal_entry \<Rightarrow> bytes" where
  "entry_bytes (WRow row) = encode_wal_record (map as_row_value row)"
| "entry_bytes (WSupersession sequence replacements) = encode_wal_supersession sequence replacements"

lemma entry_bytes_frame: "entry_bytes e = wal_frame (entry_payload e)"
  by (cases e) (simp_all add: encode_wal_record_def encode_wal_supersession_def)

fun wal_cell_ok :: "wal_cell \<Rightarrow> bool" where
  "wal_cell_ok (WKey v) \<longleftrightarrow> valid_utf8 v \<and> length v < 2 ^ 32"
| "wal_cell_ok _ = True"

definition entry_ok :: "nat \<Rightarrow> wal_entry \<Rightarrow> bool" where
  "entry_ok columns e \<longleftrightarrow> length (entry_payload e) < 2 ^ 32 \<and>
     (case e of WRow row \<Rightarrow> length row = columns \<and> list_all wal_cell_ok row | _ \<Rightarrow> True)"

lemma parses_wal_cell:
  "wal_cell_ok c \<Longrightarrow> parses decode_wal_cell (encode_wal_cell (as_row_value c)) c"
proof (cases c)
  case WNull
  show ?thesis unfolding WNull decode_wal_cell_def as_row_value.simps encode_wal_cell.simps
    by (rule parses_byte) (simp add: parses_return)
next
  case (WI64 v)
  show ?thesis unfolding WI64 decode_wal_cell_def as_row_value.simps encode_wal_cell.simps append_Cons append_Nil
    by (rule parses_byte, simp, rule parses_take_last, simp, simp add: parses_return)
next
  case (WF64 v)
  show ?thesis unfolding WF64 decode_wal_cell_def as_row_value.simps encode_wal_cell.simps append_Cons append_Nil
    by (rule parses_byte, simp, rule parses_take_last, simp, simp add: parses_return)
next
  case (WKey v)
  assume ok: "wal_cell_ok c"
  show ?thesis unfolding WKey decode_wal_cell_def as_row_value.simps encode_wal_cell.simps append_Cons append_Nil
    by (rule parses_byte, simp, rule parses_steps(3), rule parses_take_last, use ok WKey in simp,
        use ok WKey in \<open>simp add: parses_return\<close>)
qed

lemma wal_cell_head: "\<exists>tag rest. encode_wal_cell v = tag # rest \<and> tag \<noteq> 0xFF"
  by (cases v) auto

lemma row_payload_head:
  "row \<noteq> [] \<Longrightarrow> hd (concat (map encode_wal_cell (map as_row_value row)) @ extra) \<noteq> 0xFF"
  using wal_cell_head [of "as_row_value (hd row)"] by (cases row) auto

text \<open>A row's payload, with bytes after its last cell or without.\<close>

lemma wal_payload_row:
  assumes "list_all wal_cell_ok row" "row \<noteq> [] \<or> extra = []"
    "length (entry_payload (WRow row) @ extra) < 2 ^ 64"
  shows "wal_payload (length row) (entry_payload (WRow row) @ extra) = Some (WRow row)"
proof -
  let ?bytes = "entry_payload (WRow row) @ extra"
  have "parses (repeatP (length row) decode_wal_cell) (concat (map (\<lambda>c. encode_wal_cell (as_row_value c)) row)) row"
    using assms(1) by (intro parses_repeat parses_wal_cell) (simp add: list_all_iff)
  from parsesD [OF this, of "[]" extra]
  have "repeatP (length row) decode_wal_cell \<lparr>r_bytes = ?bytes, r_position = 0\<rparr> =
      Ok (row, \<lparr>r_bytes = ?bytes, r_position = length (entry_payload (WRow row))\<rparr>)"
    using assms(3) by (simp add: comp_def)
  moreover have "\<not> (?bytes \<noteq> [] \<and> hd ?bytes = 0xFF)"
    using row_payload_head [of row extra] assms(2) by (cases "row = []") auto
  ultimately show ?thesis unfolding wal_payload_def by simp
qed

lemma wal_payload_entry:
  assumes "entry_ok columns e"
  shows "wal_payload columns (entry_payload e) = Some e"
proof (cases e)
  case (WRow row)
  then show ?thesis using assms wal_payload_row [of row "[]"] by (auto simp: entry_ok_def)
next
  case (WSupersession sq n)
  have d: "drop 2 ([0xFF, 1] @ le_bytes 8 sq @ le_bytes 8 n) = le_bytes 8 sq @ le_bytes 8 n"
    "drop 10 ([0xFF, 1] @ le_bytes 8 sq @ le_bytes 8 n) = le_bytes 8 n"
    by simp_all
  have "length (entry_payload e) = 18" "entry_payload e ! 1 = 1" "hd (entry_payload e) = 0xFF" "entry_payload e \<noteq> []"
    by (simp_all add: WSupersession)
  then show ?thesis unfolding wal_payload_def using d by (simp add: WSupersession)
qed

section \<open>The clean prefix\<close>

lemma wal_records_frame:
  assumes "wal_payload columns payload = Some e" "length payload < 2 ^ 32"
    "length (pre @ wal_frame payload @ post) < 2 ^ 64"
  shows "wal_records columns \<lparr>r_bytes = pre @ wal_frame payload @ post, r_position = length pre\<rparr> =
    e # wal_records columns \<lparr>r_bytes = pre @ wal_frame payload @ post, r_position = length (pre @ wal_frame payload)\<rparr>"
proof -
  let ?len = "le_bytes 4 (word_of_nat (length payload) :: u32)" and ?crc = "le_bytes 4 (crc32c payload)"
  let ?bytes = "pre @ wal_frame payload @ post"
  have f: "wal_frame payload = ?len @ payload @ ?crc" by (simp add: wal_frame_def)
  have n: "unat (word_of_nat (length payload) :: u32) = length payload" using assms(2) by simp
  have 1: "r_u32 \<lparr>r_bytes = ?bytes, r_position = length pre\<rparr> =
      Ok (word_of_nat (length payload), \<lparr>r_bytes = ?bytes, r_position = length (pre @ ?len)\<rparr>)"
    using parsesD [OF parses_u32, of pre _ "payload @ ?crc @ post"] assms(3) by (simp add: f)
  have 2: "r_take (length payload) \<lparr>r_bytes = ?bytes, r_position = length (pre @ ?len)\<rparr> =
      Ok (payload, \<lparr>r_bytes = ?bytes, r_position = length (pre @ ?len @ payload)\<rparr>)"
    using parsesD [OF parses_take [OF refl], of "pre @ ?len" payload "?crc @ post"] assms(3) by (simp add: f)
  have 3: "r_u32 \<lparr>r_bytes = ?bytes, r_position = length (pre @ ?len @ payload)\<rparr> =
      Ok (crc32c payload, \<lparr>r_bytes = ?bytes, r_position = length (pre @ wal_frame payload)\<rparr>)"
    using parsesD [OF parses_u32, of "pre @ ?len @ payload" _ post] assms(3) by (simp add: f)
  show ?thesis by (subst wal_records.simps) (simp only: 1 2 3 n outcome.case prod.case assms(1) option.case if_False simp_thms)
qed

text \<open>A reader too close to the end.\<close>

lemma r_u32_short: "length bytes < at + 4 \<Longrightarrow> r_u32 \<lparr>r_bytes = bytes, r_position = at\<rparr> = Err (Corrupt ''unexpected end of file'')"
  by (simp add: r_u32_def bindP_def r_take_def)

lemma r_take_short: "length bytes < at + n \<Longrightarrow> r_take n \<lparr>r_bytes = bytes, r_position = at\<rparr> = Err (Corrupt ''unexpected end of file'')"
  by (simp add: r_take_def)

lemma wal_records_torn:
  assumes "length payload < 2 ^ 32" "k < length (wal_frame payload)" "length pre + k < 2 ^ 64"
  shows "wal_records columns \<lparr>r_bytes = pre @ take k (wal_frame payload), r_position = length pre\<rparr> = []"
proof -
  let ?len = "le_bytes 4 (word_of_nat (length payload) :: u32)" and ?crc = "le_bytes 4 (crc32c payload)"
  let ?bytes = "pre @ take k (wal_frame payload)"
  have n: "unat (word_of_nat (length payload) :: u32) = length payload" using assms(1) by simp
  have f: "wal_frame payload = ?len @ payload @ ?crc" by (simp add: wal_frame_def)
  have k: "length ?bytes = length pre + k" "k < 8 + length payload" using assms(2) by (simp_all add: f)
  have 1: "r_u32 \<lparr>r_bytes = ?bytes, r_position = length pre\<rparr> =
      Ok (word_of_nat (length payload), \<lparr>r_bytes = ?bytes, r_position = length pre + 4\<rparr>)" if "4 \<le> k"
    using parsesD [OF parses_u32, of pre _ "take (k - 4) (payload @ ?crc)"] assms(3) k that by (simp add: f)
  have 2: "r_take (length payload) \<lparr>r_bytes = ?bytes, r_position = length pre + 4\<rparr> =
      Ok (payload, \<lparr>r_bytes = ?bytes, r_position = length pre + 4 + length payload\<rparr>)" if "4 + length payload \<le> k"
    using parsesD [OF parses_take [OF refl], of "pre @ ?len" payload "take (k - 4 - length payload) ?crc"] assms(3) k that
    by (simp add: f)
  consider "k < 4" | "4 \<le> k" "k < 4 + length payload" | "4 + length payload \<le> k" by linarith
  then show ?thesis
  proof cases
    case 1
    then show ?thesis by (subst wal_records.simps) (simp add: r_u32_short k)
  next
    case 2
    then show ?thesis by (subst wal_records.simps) (simp add: 1 n r_take_short k)
  next
    case 3
    then show ?thesis using k by (subst wal_records.simps) (simp add: 1 2 n r_u32_short k)
  qed
qed

lemma wal_records_damaged:
  assumes "length payload < 2 ^ 32" "length damaged = length payload" "crc32c damaged \<noteq> crc32c payload"
    "length (pre @ wal_frame payload @ post) < 2 ^ 64"
  shows "wal_records columns \<lparr>r_bytes = pre @ le_bytes 4 (word_of_nat (length payload) :: u32) @ damaged @
      le_bytes 4 (crc32c payload) @ post, r_position = length pre\<rparr> = []"
proof -
  let ?len = "le_bytes 4 (word_of_nat (length payload) :: u32)" and ?crc = "le_bytes 4 (crc32c payload)"
  let ?bytes = "pre @ ?len @ damaged @ ?crc @ post"
  have n: "unat (word_of_nat (length payload) :: u32) = length damaged" using assms(1,2) by simp
  have len: "length ?bytes < 2 ^ 64" using assms(2,4) by (simp add: wal_frame_def)
  have 1: "r_u32 \<lparr>r_bytes = ?bytes, r_position = length pre\<rparr> =
      Ok (word_of_nat (length payload), \<lparr>r_bytes = ?bytes, r_position = length (pre @ ?len)\<rparr>)"
    using parsesD [OF parses_u32, of pre _ "damaged @ ?crc @ post"] len by simp
  have 2: "r_take (length damaged) \<lparr>r_bytes = ?bytes, r_position = length (pre @ ?len)\<rparr> =
      Ok (damaged, \<lparr>r_bytes = ?bytes, r_position = length (pre @ ?len @ damaged)\<rparr>)"
    using parsesD [OF parses_take [OF refl], of "pre @ ?len" damaged "?crc @ post"] len by simp
  have 3: "r_u32 \<lparr>r_bytes = ?bytes, r_position = length (pre @ ?len @ damaged)\<rparr> =
      Ok (crc32c payload, \<lparr>r_bytes = ?bytes, r_position = length (pre @ ?len @ damaged @ ?crc)\<rparr>)"
    using parsesD [OF parses_u32, of "pre @ ?len @ damaged" _ post] len by simp
  show ?thesis by (subst wal_records.simps) (simp only: 1 2 3 n outcome.case prod.case assms(3) if_True simp_thms)
qed

lemma wal_records_prefix:
  assumes "list_all (entry_ok columns) es" "length (pre @ concat (map entry_bytes es) @ tail) < 2 ^ 64"
  shows "wal_records columns \<lparr>r_bytes = pre @ concat (map entry_bytes es) @ tail, r_position = length pre\<rparr> =
    es @ wal_records columns \<lparr>r_bytes = pre @ concat (map entry_bytes es) @ tail,
      r_position = length (pre @ concat (map entry_bytes es))\<rparr>"
  using assms
proof (induction es arbitrary: pre)
  case (Cons e es)
  have "wal_records columns \<lparr>r_bytes = pre @ entry_bytes e @ (concat (map entry_bytes es) @ tail), r_position = length pre\<rparr> =
      e # wal_records columns \<lparr>r_bytes = pre @ entry_bytes e @ (concat (map entry_bytes es) @ tail),
        r_position = length (pre @ entry_bytes e)\<rparr>"
    unfolding entry_bytes_frame using Cons.prems
    by (intro wal_records_frame wal_payload_entry) (simp_all add: entry_ok_def entry_bytes_frame [symmetric])
  moreover have "wal_records columns \<lparr>r_bytes = (pre @ entry_bytes e) @ concat (map entry_bytes es) @ tail,
        r_position = length (pre @ entry_bytes e)\<rparr> =
      es @ wal_records columns \<lparr>r_bytes = (pre @ entry_bytes e) @ concat (map entry_bytes es) @ tail,
        r_position = length ((pre @ entry_bytes e) @ concat (map entry_bytes es))\<rparr>"
    using Cons.prems by (intro Cons.IH) simp_all
  ultimately show ?case by (simp only: append_assoc list.map concat.simps append_Cons)
qed simp

lemma decode_wal_eq:
  assumes "length rest + 30 < 2 ^ 64"
  shows "decode_wal (encode_wal_header g b @ rest) columns =
    Ok \<lparr>wc_generation = g, wc_base_row_id = b,
      wc_entries = wal_records columns \<lparr>r_bytes = encode_wal_header g b @ rest, r_position = length (encode_wal_header g b)\<rparr>\<rparr>"
proof -
  let ?out = "WAL_MAGIC @ le_bytes 2 WAL_VERSION @ le_bytes 8 g @ le_bytes 8 b"
  define bytes where "bytes = encode_wal_header g b @ rest"
  have magic: "length WAL_MAGIC = 8" by (simp add: WAL_MAGIC_def ascii_def)
  have len: "length bytes < 2 ^ 64" using assms magic by (simp add: bytes_def encode_wal_header_def)
  have e: "bytes = [] @ WAL_MAGIC @ (le_bytes 2 WAL_VERSION @ le_bytes 8 g @ le_bytes 8 b @ le_bytes 4 (crc32c ?out) @ rest)"
    "bytes = WAL_MAGIC @ le_bytes 2 WAL_VERSION @ (le_bytes 8 g @ le_bytes 8 b @ le_bytes 4 (crc32c ?out) @ rest)"
    "bytes = (WAL_MAGIC @ le_bytes 2 WAL_VERSION) @ le_bytes 8 g @ (le_bytes 8 b @ le_bytes 4 (crc32c ?out) @ rest)"
    "bytes = (WAL_MAGIC @ le_bytes 2 WAL_VERSION @ le_bytes 8 g) @ le_bytes 8 b @ (le_bytes 4 (crc32c ?out) @ rest)"
    "bytes = ?out @ le_bytes 4 (crc32c ?out) @ rest"
    by (simp_all add: bytes_def encode_wal_header_def)
  note run = parses_bind_run [OF parses_take [OF magic] e(1) len, of 0]
    parses_bind_run [OF parses_u16 e(2) len, of 8] parses_bind_run [OF parses_u64 e(3) len, of 10]
    parses_bind_run [OF parses_u64 e(4) len, of 18] parses_bind_run [OF parses_u32 e(5) len, of 26]
  have t: "take (WAL_HEADER_LEN - 4) bytes = ?out" unfolding e(5) by (simp add: WAL_HEADER_LEN_def magic)
  have h: "length (encode_wal_header g b) = 30" by (simp add: encode_wal_header_def magic)
  show ?thesis
    unfolding bytes_def [symmetric] decode_wal_def h
    by (simp add: run magic t WAL_VERSION_def)
qed

lemma length_wal_header [simp]: "length (encode_wal_header g b) = 30"
  by (simp add: encode_wal_header_def WAL_MAGIC_def ascii_def)

section \<open>Properties\<close>

text \<open>
  C14: The log is read up to the crash boundary.  Whatever rows and supersession brackets
  were logged, a file cut anywhere inside the next record is read as exactly the records
  before it, neither fewer nor more; cut at a record boundary it is the round trip of the
  whole log.
\<close>
theorem wal_torn_tail:
  assumes "list_all (entry_ok columns) es" "entry_ok columns e" "k < length (entry_bytes e)"
    and "length (concat (map entry_bytes es)) + length (entry_bytes e) + 30 < 2 ^ 64"
  shows "decode_wal (encode_wal_header g b @ concat (map entry_bytes es) @ take k (entry_bytes e)) columns =
    Ok \<lparr>wc_generation = g, wc_base_row_id = b, wc_entries = es\<rparr>"
proof -
  let ?pre = "encode_wal_header g b" and ?tail = "take k (entry_bytes e)"
  have "wal_records columns \<lparr>r_bytes = (?pre @ concat (map entry_bytes es)) @ ?tail,
      r_position = length (?pre @ concat (map entry_bytes es))\<rparr> = []"
    unfolding entry_bytes_frame [of e] using assms(2-4)
    by (intro wal_records_torn) (simp_all add: entry_ok_def entry_bytes_frame)
  then show ?thesis
    using wal_records_prefix [OF assms(1), of ?pre ?tail] assms(3,4) by (simp add: decode_wal_eq)
qed

theorem wal_torn_tail_witness:
  "decode_wal (encode_wal_header 3 5 @ concat (map entry_bytes [WRow [WI64 7, WNull], WSupersession 9 1]) @
       take 4 (entry_bytes (WRow [WNull, WF64 1]))) 2 =
     Ok \<lparr>wc_generation = 3, wc_base_row_id = 5, wc_entries = [WRow [WI64 7, WNull], WSupersession 9 1]\<rparr>"
  by (rule wal_torn_tail)
    (simp_all add: entry_ok_def entry_bytes_frame wal_frame_def)

text \<open>
  C15: Damage stops the log, it never invents rows.  If four or fewer consecutive bytes of
  a record's payload are damaged, decoding keeps exactly the records before it, whatever
  follows.
\<close>
theorem wal_damage_stops:
  assumes "list_all (entry_ok columns) es" "entry_ok columns e" "entry_payload e = pre @ xs @ post"
    and "length ys = length xs" "length xs \<le> 4" "ys \<noteq> xs"
    and "length (concat (map entry_bytes es)) + length (entry_bytes e) + length rest + 30 < 2 ^ 64"
  shows "decode_wal (encode_wal_header g b @ concat (map entry_bytes es) @
      le_bytes 4 (word_of_nat (length (entry_payload e)) :: u32) @ (pre @ ys @ post) @
      le_bytes 4 (crc32c (entry_payload e)) @ rest) columns =
    Ok \<lparr>wc_generation = g, wc_base_row_id = b, wc_entries = es\<rparr>"
proof -
  let ?h = "encode_wal_header g b"
  let ?tail = "le_bytes 4 (word_of_nat (length (entry_payload e)) :: u32) @ (pre @ ys @ post) @
      le_bytes 4 (crc32c (entry_payload e)) @ rest"
  have "crc32c (pre @ ys @ post) \<noteq> crc32c (entry_payload e)"
    using crc_burst [OF crc_polynomials(1) assms(4) _ assms(6)] assms(3-5) by (simp add: crc32c_def)
  then have "wal_records columns \<lparr>r_bytes = (?h @ concat (map entry_bytes es)) @ ?tail,
      r_position = length (?h @ concat (map entry_bytes es))\<rparr> = []"
    using assms(2-4,7) by (intro wal_records_damaged) (simp_all add: entry_ok_def entry_bytes_frame)
  moreover have "length (?h @ concat (map entry_bytes es) @ ?tail) < 2 ^ 64"
    using assms(3,4,7) by (simp add: entry_bytes_frame wal_frame_def)
  ultimately show ?thesis
    using wal_records_prefix [OF assms(1), of ?h ?tail] assms(3,4,7)
    by (simp add: decode_wal_eq entry_bytes_frame wal_frame_def)
qed

theorem wal_damage_stops_witness:
  "decode_wal (encode_wal_header 3 5 @ concat (map entry_bytes [WRow [WI64 7]]) @
      le_bytes 4 (word_of_nat (length (entry_payload (WRow [WNull]))) :: u32) @ ([] @ [1] @ []) @
      le_bytes 4 (crc32c (entry_payload (WRow [WNull]))) @ entry_bytes (WRow [WI64 8])) 1 =
     Ok \<lparr>wc_generation = 3, wc_base_row_id = 5, wc_entries = [WRow [WI64 7]]\<rparr>"
  by (rule wal_damage_stops [where xs = "[0]"])
    (simp_all add: entry_ok_def entry_bytes_frame wal_frame_def)

text \<open>
  A record wider than the table is not refused.  The decoder reads the first cells of
  a row record and ignores what is left of its payload, so a record of more cells than
  columns is accepted as a narrower row.
\<close>
theorem wal_wide_row_accepted:
  assumes "list_all wal_cell_ok row" "row \<noteq> []" "length (entry_payload (WRow (row @ beyond))) < 2 ^ 64"
  shows "wal_payload (length row) (entry_payload (WRow (row @ beyond))) = Some (WRow row)"
  using wal_payload_row [OF assms(1), of "entry_payload (WRow beyond)"] assms(2,3) by simp

theorem wal_wide_row_accepted_witness:
  "wal_payload 1 (entry_payload (WRow [WI64 7, WNull])) = Some (WRow [WI64 7])"
  using wal_wide_row_accepted [of "[WI64 7]" "[WNull]"] by simp

end
