(* ===== verification/Views.thy ===== *)
theory Views
  imports SegmentFile Manifest
begin

text \<open>
  How a reader sees one segment (\<^verbatim>\<open>src/storage_lite/store.rs\<close>): \<open>SegmentView\<close>, the decoded
  segment with its live mask; \<open>SegmentMeta\<close>, what is known of a segment without decoding
  it; \<open>SegmentSlot\<close>, the residency slot that faults the segment in from the backend; and
  \<open>SegmentHandle\<close>, a slot with a live mask.  The backend's \<open>read\<close> is a parameter.  The
  residency accounting around a fault is modelled in theory \<open>Cache\<close>; here a fault is the
  function from the stored bytes to the segment it yields.
\<close>

section \<open>Errors\<close>

datatype io_error = NotFound rstring | Backend string

datatype storage_error =
    MemErr mem_error
  | Options string
  | Io io_error
  | FormatErr format_error
  | SchemaMismatch string
  | MissingRows u64
  | TombstoneOutOfRange u64
  | Misuse string

type_synonym read_object = "rstring \<Rightarrow> (io_error, bytes) outcome"

section \<open>Views\<close>

record segment_view =
  sv_segment :: segment
  sv_live :: "bitmap option"

definition sv_all_live :: "segment \<Rightarrow> segment_view" where
  "sv_all_live s = \<lparr>sv_segment = s, sv_live = None\<rparr>"

definition sv_live_rows :: "segment_view \<Rightarrow> nat" where
  "sv_live_rows v =
     (case sv_live v of None \<Rightarrow> rb_num_rows (sg_batch (sv_segment v)) | Some bm \<Rightarrow> count_set bm)"

definition sv_is_live :: "segment_view \<Rightarrow> nat \<Rightarrow> ('e, bool) outcome" where
  "sv_is_live v row = (case sv_live v of None \<Rightarrow> Ok True | Some bm \<Rightarrow> bm_get bm row)"

text \<open>Bit per row, \<open>True\<close> when live.\<close>

definition liveness :: "segment_view \<Rightarrow> bool list" where
  "liveness view =
     (case sv_live view of
        None \<Rightarrow> replicate (rb_num_rows (sg_batch (sv_segment view))) True
      | Some bm \<Rightarrow> bits bm)"

section \<open>Metadata\<close>

record segment_meta =
  sm_base_row_id :: u64
  sm_rows :: nat
  sm_ordered :: bool
  sm_sequence_end :: u64
  sm_diverged :: bool
  sm_zone_maps :: "zone_map option list"

definition meta_of :: "segment \<Rightarrow> segment_meta" where
  "meta_of s =
     \<lparr>sm_base_row_id = sg_base_row_id s, sm_rows = rb_num_rows (sg_batch s), sm_ordered = sg_ordered s,
      sm_sequence_end = sequence_end s, sm_diverged = (sg_sequence s \<noteq> RowIds),
      sm_zone_maps = (if zone_maps_present s
        then map (sg_zone_map s) [0..<length (rb_columns (sg_batch s))] else [])\<rparr>"

definition meta_from_record :: "segment_record \<Rightarrow> segment_meta" where
  "meta_from_record r =
     \<lparr>sm_base_row_id = sr_base_row_id r, sm_rows = unat (sr_rows r), sm_ordered = sr_ordered r,
      sm_sequence_end = record_sequence_end r, sm_diverged = record_diverged r,
      sm_zone_maps = sr_zone_maps r\<rparr>"

section \<open>Slots\<close>

text \<open>
  What a slot shares with its store: the schema, and whether there is a backend.  The
  backend itself is shared state that outlives the slot's view of it, so what it answers
  now is the argument \<open>read\<close> of the operations that ask it.
\<close>

record slot_shared =
  sh_schema :: schema
  sh_ordering_key :: nat
  sh_backend :: bool

record segment_slot =
  sl_meta :: "segment_meta option"
  sl_name :: "rstring option"
  sl_shared :: slot_shared
  sl_state :: "segment option"

definition slot_resident :: "segment \<Rightarrow> slot_shared \<Rightarrow> rstring option \<Rightarrow> segment_slot" where
  "slot_resident s shared name =
     \<lparr>sl_meta = Some (meta_of s), sl_name = name, sl_shared = shared, sl_state = Some s\<rparr>"

definition slot_lazy :: "segment_record \<Rightarrow> slot_shared \<Rightarrow> segment_slot" where
  "slot_lazy r shared =
     \<lparr>sl_meta = Some (meta_from_record r), sl_name = Some (sr_name r), sl_shared = shared, sl_state = None\<rparr>"

definition slot_history :: "rstring \<Rightarrow> slot_shared \<Rightarrow> segment_slot" where
  "slot_history name shared =
     \<lparr>sl_meta = None, sl_name = Some name, sl_shared = shared, sl_state = None\<rparr>"

definition slot_evictable :: "segment_slot \<Rightarrow> bool" where
  "slot_evictable sl \<longleftrightarrow> sl_name sl \<noteq> None \<and> sh_backend (sl_shared sl)"

definition slot_meta :: "segment_slot \<Rightarrow> ('e, segment_meta) outcome" where
  "slot_meta sl = (case sl_meta sl of Some m \<Rightarrow> Ok m | None \<Rightarrow> Panic)"

text \<open>The checks a decoded segment passes before it is adopted.\<close>

definition slot_verify :: "segment_slot \<Rightarrow> segment \<Rightarrow> (storage_error, segment) outcome" where
  "slot_verify sl s =
     (if rb_schema (sg_batch s) \<noteq> sh_schema (sl_shared sl)
      then Err (SchemaMismatch ''written under a different schema'')
      else case sl_meta sl of
             None \<Rightarrow> Ok s
           | Some m \<Rightarrow>
               if sg_base_row_id s \<noteq> sm_base_row_id m \<or> rb_num_rows (sg_batch s) \<noteq> sm_rows m \<or>
                  sg_ordered s \<noteq> sm_ordered m \<or> sequence_end s \<noteq> sm_sequence_end m
               then Err (SchemaMismatch ''disagrees with its manifest record'')
               else Ok s)"

definition slot_fault :: "read_object \<Rightarrow> segment_slot \<Rightarrow> (storage_error, segment) outcome" where
  "slot_fault read sl =
     (case sl_name sl of
        None \<Rightarrow> Panic
      | Some name \<Rightarrow>
          if \<not> sh_backend (sl_shared sl) then Panic
          else
            bindR (map_err Io (read name)) (\<lambda>bytes.
            bindR (map_err FormatErr (decode_segment bytes)) (slot_verify sl)))"

text \<open>The segment a slot yields, and the slot afterwards.\<close>

definition slot_segment :: "read_object \<Rightarrow> segment_slot \<Rightarrow> (storage_error, segment) outcome" where
  "slot_segment read sl = (case sl_state sl of Some s \<Rightarrow> Ok s | None \<Rightarrow> slot_fault read sl)"

definition slot_loaded :: "read_object \<Rightarrow> segment_slot \<Rightarrow> (storage_error, segment_slot) outcome" where
  "slot_loaded read sl = mapR (\<lambda>s. sl\<lparr>sl_state := Some s\<rparr>) (slot_segment read sl)"

section \<open>Handles\<close>

record segment_handle =
  sh_slot :: segment_slot
  sh_live :: "bitmap option"

definition handle_resident :: "segment \<Rightarrow> bitmap option \<Rightarrow> segment_handle" where
  "handle_resident s live =
     \<lparr>sh_slot = slot_resident s \<lparr>sh_schema = rb_schema (sg_batch s), sh_ordering_key = sg_ordering_key s,
        sh_backend = False\<rparr> None, sh_live = live\<rparr>"

definition handle_rows :: "segment_handle \<Rightarrow> ('e, nat) outcome" where
  "handle_rows h = mapR sm_rows (slot_meta (sh_slot h))"

definition handle_base_row_id :: "segment_handle \<Rightarrow> ('e, u64) outcome" where
  "handle_base_row_id h = mapR sm_base_row_id (slot_meta (sh_slot h))"

definition handle_zone_map :: "segment_handle \<Rightarrow> nat \<Rightarrow> ('e, zone_map option) outcome" where
  "handle_zone_map h index =
     mapR (\<lambda>m. if index < length (sm_zone_maps m) then sm_zone_maps m ! index else None) (slot_meta (sh_slot h))"

definition handle_zone_maps_present :: "segment_handle \<Rightarrow> ('e, bool) outcome" where
  "handle_zone_maps_present h = mapR (\<lambda>m. sm_zone_maps m \<noteq> []) (slot_meta (sh_slot h))"

definition handle_sequence_end :: "segment_handle \<Rightarrow> ('e, u64) outcome" where
  "handle_sequence_end h = mapR sm_sequence_end (slot_meta (sh_slot h))"

definition handle_live_rows :: "segment_handle \<Rightarrow> ('e, nat) outcome" where
  "handle_live_rows h = (case sh_live h of None \<Rightarrow> handle_rows h | Some bm \<Rightarrow> Ok (count_set bm))"

definition handle_view :: "read_object \<Rightarrow> segment_handle \<Rightarrow> (storage_error, segment_view) outcome" where
  "handle_view read h =
     mapR (\<lambda>s. \<lparr>sv_segment = s, sv_live = sh_live h\<rparr>) (slot_segment read (sh_slot h))"

section \<open>Faulting is transparent\<close>

text \<open>
  A slot stands for a segment: what it holds is that segment, what it knows of it is the
  segment's metadata, and, when it can be emptied, the object it names decodes to it.
\<close>

definition slot_stands_for :: "read_object \<Rightarrow> segment_slot \<Rightarrow> segment \<Rightarrow> bool" where
  "slot_stands_for read sl s \<longleftrightarrow>
     (sl_state sl = Some s \<or> sl_state sl = None \<and> slot_evictable sl) \<and>
     (sl_meta sl = None \<or> sl_meta sl = Some (meta_of s)) \<and>
     rb_schema (sg_batch s) = sh_schema (sl_shared sl) \<and>
     (\<forall>name. slot_evictable sl \<and> sl_name sl = Some name \<longrightarrow> read name = Ok (encode_segment s) \<and> segment_ok s)"

lemma slot_verify_self:
  "sl_meta sl = None \<or> sl_meta sl = Some (meta_of s) \<Longrightarrow> rb_schema (sg_batch s) = sh_schema (sl_shared sl) \<Longrightarrow>
   slot_verify sl s = Ok s"
  by (auto simp: slot_verify_def meta_of_def)

lemma slot_segment_stands:
  assumes "slot_stands_for read sl s"
  shows "slot_segment read sl = Ok s"
  using assms slot_verify_self [of sl s] decode_encode_segment [of s]
  by (auto simp: slot_stands_for_def slot_segment_def slot_fault_def slot_evictable_def split: option.splits)

text \<open>Loading and evicting leave what the slot stands for.\<close>

lemma slot_loaded_stands:
  "slot_stands_for read sl s \<Longrightarrow>
   slot_loaded read sl = Ok (sl\<lparr>sl_state := Some s\<rparr>) \<and> slot_stands_for read (sl\<lparr>sl_state := Some s\<rparr>) s"
  by (auto simp: slot_loaded_def slot_segment_stands) (auto simp: slot_stands_for_def slot_evictable_def)

lemma slot_evicted_stands:
  "slot_stands_for read sl s \<Longrightarrow> slot_evictable sl \<Longrightarrow> slot_stands_for read (sl\<lparr>sl_state := None\<rparr>) s"
  by (auto simp: slot_stands_for_def slot_evictable_def)

text \<open>A manifest record describes a segment as its metadata does.\<close>

lemma record_meta_agree:
  assumes "record_of name s = Ok r" "batch_ok (sg_batch s)" "rb_num_rows (sg_batch s) < 2 ^ 64"
    "length (sg_zone_maps s) = length (s_fields (rb_schema (sg_batch s)))" "sg_zone_maps s \<noteq> []"
  shows "meta_from_record r = meta_of s"
proof -
  have "length (rb_columns (sg_batch s)) = length (sg_zone_maps s)"
    using assms(2,4) by (simp add: batch_ok_def)
  then show ?thesis
    using assms(1,3,5)
    by (cases "sg_sequence s")
      (auto simp: record_of_def record_diverged_def meta_from_record_def meta_of_def sequence_end_def
        zone_maps_present_def unat_of_nat split: if_splits)
qed

lemma handle_view_stands:
  "slot_stands_for read (sh_slot h) s \<Longrightarrow> handle_view read h = Ok \<lparr>sv_segment = s, sv_live = sh_live h\<rparr>"
  by (simp add: handle_view_def slot_segment_stands)

lemma handle_resident_stands: "slot_stands_for read (sh_slot (handle_resident s live)) s"
  by (simp add: handle_resident_def slot_stands_for_def slot_resident_def slot_evictable_def)

section \<open>Property\<close>

text \<open>
  C22: Reopening is lazy but not different.  A slot built from the manifest's record of a
  segment knows of it exactly what the slot that wrote it knew, and the first touch of its
  data yields that segment; over a file damaged in up to four consecutive payload bytes the
  touch yields a checksum mismatch instead.
\<close>
theorem lazy_slot_faithful:
  assumes "segment_ok s" "record_of name s = Ok r" "sh_schema shared = rb_schema (sg_batch s)" "sh_backend shared"
    and "segment_payload s = pre @ xs @ post" "length ys = length xs" "length xs \<le> 4" "ys \<noteq> xs"
  shows "sl_meta (slot_lazy r shared) = sl_meta (slot_resident s shared (Some name)) \<and>
    slot_segment (\<lambda>_. Ok (encode_segment s)) (slot_lazy r shared) = Ok s \<and>
    (\<exists>stored computed. slot_segment (\<lambda>_. Ok (take 16 (encode_segment s) @ pre @ ys @ post)) (slot_lazy r shared) =
      Err (FormatErr (ChecksumMismatch stored computed)))"
proof -
  note D = segment_okD [OF assms(1)]
  have "sg_zone_maps s \<noteq> []" using D(3,5) by auto
  then have meta: "meta_from_record r = meta_of s"
    using record_meta_agree [OF assms(2) D(1)] D(2,5) by simp
  have "decode_segment (take 16 (encode_segment s) @ pre @ ys @ post) =
      Err (ChecksumMismatch (crc32c (pre @ xs @ post)) (crc32c (pre @ ys @ post)))"
    unfolding decode_segment_def encode_segment_def assms(5)
    by (rule open_sealed_damaged) (use assms D in \<open>auto simp: MAGIC_def segment_version_def ascii_def\<close>)
  then show ?thesis
    using meta assms(3,4) decode_encode_segment [OF assms(1)]
    by (simp add: slot_lazy_def slot_resident_def slot_segment_def slot_fault_def slot_verify_self)
qed

theorem lazy_slot_faithful_witness:
  "\<exists>r. record_of (ascii ''seg'') sample_segment = (Ok r :: (unit, _) outcome) \<and>
     slot_segment (\<lambda>_. Ok (encode_segment sample_segment))
       (slot_lazy r \<lparr>sh_schema = rb_schema (sg_batch sample_segment), sh_ordering_key = 0, sh_backend = True\<rparr>) =
     Ok sample_segment"
proof -
  obtain r where r: "record_of (ascii ''seg'') sample_segment = (Ok r :: (unit, _) outcome)"
    by (simp add: record_of_def zone_maps_present_def sample_segment_def)
  obtain b bs where b: "segment_payload sample_segment = b # bs"
    by (cases "segment_payload sample_segment")
      (auto simp: segment_payload_def Let_def dest: arg_cong [of _ _ length])
  have "segment_payload sample_segment = [] @ [b] @ bs" "length [b + 1] = length [b]" "length [b] \<le> 4" "[b + 1] \<noteq> [b]"
    using b by simp_all
  from lazy_slot_faithful [OF sample_segment_ok r _ _ this,
      of "\<lparr>sh_schema = rb_schema (sg_batch sample_segment), sh_ordering_key = 0, sh_backend = True\<rparr>"] r
  show ?thesis by simp
qed

end
