(* ===== verification/Like.thy ===== *)
theory Like
  imports Prelude
begin

text \<open>
  The LIKE matcher of \<^verbatim>\<open>src/query_lite/predicate.rs\<close>: the greedy loop with one backtracking
  point, over characters.  A character is its UTF-8 byte sequence.  The loop is a
  \<open>partial_function\<close>, so that not returning would be \<open>None\<close>; it always returns, and on a text
  without the character \<open>%\<close> it decides the SQL relation \<open>likes\<close>.
\<close>

section \<open>The matcher\<close>

definition utf8_width :: "u8 \<Rightarrow> nat" where
  "utf8_width b = (if b < 0x80 then 1 else if b < 0xE0 then 2 else if b < 0xF0 then 3 else 4)"

text \<open>\<open>str::chars\<close>: the characters of a valid string, each as its bytes.\<close>

function utf8_chars :: "rstring \<Rightarrow> rstring list" where
  "utf8_chars [] = []"
| "utf8_chars (b # bs) = take (utf8_width b) (b # bs) # utf8_chars (drop (utf8_width b) (b # bs))"
  by pat_completeness auto
termination
  by (relation "measure length") (auto simp: utf8_width_def)

definition PERCENT :: rstring where "PERCENT = [0x25]"

definition UNDERSCORE :: rstring where "UNDERSCORE = [0x5F]"

partial_function (option) like_loop ::
  "rstring list \<Rightarrow> rstring list \<Rightarrow> nat \<Rightarrow> nat \<Rightarrow> (nat \<times> nat) option \<Rightarrow> bool option" where
  "like_loop pattern str p s star =
     (if s < length str then
        (if p < length pattern \<and> (pattern ! p = UNDERSCORE \<or> pattern ! p = str ! s)
         then like_loop pattern str (p + 1) (s + 1) star
         else if p < length pattern \<and> pattern ! p = PERCENT
         then like_loop pattern str (p + 1) s (Some (p + 1, s))
         else case star of
                Some (star_p, star_s) \<Rightarrow> like_loop pattern str star_p (star_s + 1) (Some (star_p, star_s + 1))
              | None \<Rightarrow> Some False)
      else Some (list_all (\<lambda>c. c = PERCENT) (drop p pattern)))"

definition like_match :: "rstring \<Rightarrow> rstring \<Rightarrow> bool option" where
  "like_match pattern str = like_loop (utf8_chars pattern) (utf8_chars str) 0 0 None"

section \<open>The SQL relation\<close>

text \<open>\<open>%\<close> matches any run, \<open>_\<close> any one character, any other character itself.\<close>

fun likes :: "rstring list \<Rightarrow> rstring list \<Rightarrow> bool" where
  "likes [] str \<longleftrightarrow> str = []"
| "likes (x # ps) str \<longleftrightarrow>
     (if x = PERCENT then \<exists>k\<in>set [0..<Suc (length str)]. likes ps (drop k str)
      else case str of [] \<Rightarrow> False | c # cs \<Rightarrow> (x = UNDERSCORE \<or> x = c) \<and> likes ps cs)"

lemma likes_percent: "likes (PERCENT # ps) str \<longleftrightarrow> (\<exists>k\<le>length str. likes ps (drop k str))"
  by (auto simp: less_Suc_eq_le simp del: upt_Suc)

lemma likes_single: "x \<noteq> PERCENT \<Longrightarrow>
    likes (x # ps) str \<longleftrightarrow> str \<noteq> [] \<and> (x = UNDERSCORE \<or> x = hd str) \<and> likes ps (tl str)"
  by (cases str) auto

declare likes.simps(2) [simp del]

lemma likes_empty_text: "likes ps [] \<longleftrightarrow> list_all (\<lambda>c. c = PERCENT) ps"
proof (induction ps)
  case (Cons x ps)
  then show ?case by (cases "x = PERCENT") (simp_all add: likes_percent likes_single)
qed simp

definition fits_char :: "rstring \<Rightarrow> rstring \<Rightarrow> bool" where
  "fits_char x c \<longleftrightarrow> x \<noteq> PERCENT \<and> (x = UNDERSCORE \<or> x = c)"

text \<open>A run without \<open>%\<close> takes exactly its own length of the text.\<close>

lemma likes_run:
  assumes "PERCENT \<notin> set run"
  shows "likes (run @ ps) str \<longleftrightarrow> length run \<le> length str \<and> list_all2 fits_char run (take (length run) str) \<and>
    likes ps (drop (length run) str)"
  using assms
proof (induction run arbitrary: str)
  case (Cons x run)
  then have x: "x \<noteq> PERCENT" by auto
  show ?case
  proof (cases str)
    case (Cons c cs)
    then show ?thesis using Cons.IH [of cs] Cons.prems x by (auto simp: likes_single fits_char_def)
  qed (use x in \<open>simp add: likes_single\<close>)
qed simp

section \<open>Termination\<close>

definition star_ok :: "rstring list \<Rightarrow> rstring list \<Rightarrow> nat \<Rightarrow> nat \<Rightarrow> (nat \<times> nat) option \<Rightarrow> bool" where
  "star_ok pattern str p s star \<longleftrightarrow> p \<le> length pattern \<and> s \<le> length str \<and>
     (case star of None \<Rightarrow> True | Some (sp, ss) \<Rightarrow> sp \<le> p \<and> ss \<le> s)"

definition like_measures :: "rstring list \<Rightarrow> rstring list \<Rightarrow> (nat \<times> nat \<times> (nat \<times> nat) option \<Rightarrow> nat) list" where
  "like_measures pattern str =
     [\<lambda>(p, s, star). case star of None \<Rightarrow> Suc (length pattern) | Some (sp, ss) \<Rightarrow> length pattern - sp,
      \<lambda>(p, s, star). case star of None \<Rightarrow> 0 | Some (sp, ss) \<Rightarrow> length str - ss,
      \<lambda>(p, s, star). (length pattern - p) + (length str - s)]"

text \<open>Induction along the loop: an invariant kept by its three continuing branches.\<close>

lemma like_loop_induct [consumes 1, case_names ok step]:
  assumes "J p s star"
    and ok: "\<And>p s star. J p s star \<Longrightarrow> star_ok pattern str p s star"
    and step: "\<And>p s star. J p s star \<Longrightarrow>
      (\<And>p' s' star'. J p' s' star' \<Longrightarrow>
        ((p', s', star'), (p, s, star)) \<in> measures (like_measures pattern str) \<Longrightarrow> P p' s' star') \<Longrightarrow> P p s star"
  shows "P p s star"
proof -
  have "\<forall>p s star. x = (p, s, star) \<longrightarrow> J p s star \<longrightarrow> P p s star" for x
  proof (induction x rule: wf_induct_rule [OF wf_measures, of "like_measures pattern str"])
    case (1 x)
    then show ?case using step by blast
  qed
  then show ?thesis using assms(1) by blast
qed

lemma like_loop_decreases:
  assumes "star_ok pattern str p s star" "s < length str"
  shows "p < length pattern \<Longrightarrow> ((p + 1, s + 1, star), (p, s, star)) \<in> measures (like_measures pattern str)"
    "p < length pattern \<Longrightarrow> ((p + 1, s, Some (p + 1, s)), (p, s, star)) \<in> measures (like_measures pattern str)"
    "star = Some (sp, ss) \<Longrightarrow> ((sp, ss + 1, Some (sp, ss + 1)), (p, s, star)) \<in> measures (like_measures pattern str)"
  using assms by (auto simp: like_measures_def star_ok_def split: option.splits)

lemma star_ok_step:
  assumes "star_ok pattern str p s star" "s < length str"
  shows "p < length pattern \<Longrightarrow> star_ok pattern str (p + 1) (s + 1) star"
    "p < length pattern \<Longrightarrow> star_ok pattern str (p + 1) s (Some (p + 1, s))"
    "star = Some (sp, ss) \<Longrightarrow> star_ok pattern str sp (ss + 1) (Some (sp, ss + 1))"
  using assms by (auto simp: star_ok_def split: option.splits)

lemma like_loop_returns:
  assumes "star_ok pattern str p s star"
  shows "\<exists>b. like_loop pattern str p s star = Some b"
  using assms
proof (induction rule: like_loop_induct [where J = "star_ok pattern str" and pattern = pattern and str = str])
  case (ok p s star)
  then show ?case .
next
  case (step p s star)
  note D = like_loop_decreases [OF step.hyps] and K = star_ok_step [OF step.hyps]
  show ?case
  proof (cases "s < length str")
    case True
    show ?thesis
      using step.IH [OF K(1) [OF True] D(1) [OF True]] step.IH [OF K(2) [OF True] D(2) [OF True]]
        step.IH [OF K(3) [OF True] D(3) [OF True]]
      by (subst like_loop.simps) (auto split: option.splits)
  qed (subst like_loop.simps, simp)
qed

section \<open>Correctness\<close>

text \<open>
  Before the first \<open>%\<close> the match of the whole is the match of what is left.  After one, it
  is a match of the pattern behind the last \<open>%\<close> from some place at or after the one being
  tried, and the current attempt has matched a run without \<open>%\<close>.
\<close>

definition like_inv :: "rstring list \<Rightarrow> rstring list \<Rightarrow> nat \<Rightarrow> nat \<Rightarrow> (nat \<times> nat) option \<Rightarrow> bool" where
  "like_inv P T p s star \<longleftrightarrow> star_ok P T p s star \<and>
     (case star of
        None \<Rightarrow> likes P T \<longleftrightarrow> likes (drop p P) (drop s T)
      | Some (sp, ss) \<Rightarrow> s = ss + (p - sp) \<and>
          list_all2 fits_char (take (p - sp) (drop sp P)) (take (p - sp) (drop ss T)) \<and>
          (likes P T \<longleftrightarrow> (\<exists>k\<ge>ss. k \<le> length T \<and> likes (drop sp P) (drop k T))))"

lemma percent_underscore: "(0x25 :: u8) \<noteq> 0x5F"
  by simp

lemma like_inv_star_ok: "like_inv P T p s star \<Longrightarrow> star_ok P T p s star"
  by (simp add: like_inv_def)

lemma fits_run_no_percent: "list_all2 fits_char run cs \<Longrightarrow> PERCENT \<notin> set run"
  by (induction rule: list_all2_induct) (auto simp: fits_char_def)

text \<open>A match behind the last \<open>%\<close>, in terms of the current attempt's run.\<close>

lemma attempt_split:
  assumes "like_inv P T p s (Some (sp, ss))"
  defines "run \<equiv> take (p - sp) (drop sp P)"
  shows "length run = p - sp" "list_all2 fits_char run (take (p - sp) (drop ss T))"
    "likes (drop sp P) cs \<longleftrightarrow> p - sp \<le> length cs \<and> list_all2 fits_char run (take (p - sp) cs) \<and>
       likes (drop p P) (drop (p - sp) cs)"
    "likes (drop sp P) (drop ss T) \<longleftrightarrow> likes (drop p P) (drop s T)"
proof -
  have ok: "sp \<le> p" "p \<le> length P" "s \<le> length T" "s = ss + (p - sp)"
    using assms(1) by (auto simp: like_inv_def star_ok_def)
  show len: "length run = p - sp" using ok by (simp add: run_def)
  show fits: "list_all2 fits_char run (take (p - sp) (drop ss T))"
    using assms(1) by (simp add: like_inv_def run_def)
  have split: "drop sp P = run @ drop p P"
    using ok by (simp add: run_def) (metis append_take_drop_id drop_drop le_add_diff_inverse2)
  show each: "likes (drop sp P) cs \<longleftrightarrow> p - sp \<le> length cs \<and> list_all2 fits_char run (take (p - sp) cs) \<and>
       likes (drop p P) (drop (p - sp) cs)" for cs
    using likes_run [OF fits_run_no_percent [OF fits], of "drop p P" cs] by (simp only: split len)
  show "likes (drop sp P) (drop ss T) \<longleftrightarrow> likes (drop p P) (drop s T)"
  proof -
    have "p - sp \<le> length (drop ss T)" "drop (p - sp) (drop ss T) = drop s T"
      using ok by (simp_all add: add.commute)
    then show ?thesis using each [of "drop ss T"] fits by simp
  qed
qed

lemma like_inv_advance:
  assumes inv: "like_inv P T p s star" and lt: "s < length T" "p < length P"
    and hit: "P ! p = UNDERSCORE \<or> P ! p = T ! s" "PERCENT \<notin> set T"
  shows "like_inv P T (p + 1) (s + 1) star"
proof -
  have P: "drop p P = P ! p # drop (p + 1) P" and T: "drop s T = T ! s # drop (s + 1) T"
    using lt by (simp_all add: Cons_nth_drop_Suc)
  have "P ! p \<noteq> PERCENT"
    using hit lt(1) nth_mem [of s T] by (metis PERCENT_def UNDERSCORE_def list.inject percent_underscore)
  then have fits: "fits_char (P ! p) (T ! s)" and next': "likes (drop p P) (drop s T) = likes (drop (p + 1) P) (drop (s + 1) T)"
    using hit(1) unfolding P T by (auto simp: fits_char_def likes_single)
  show ?thesis
  proof (cases star)
    case None
    then show ?thesis using inv star_ok_step(1) [OF like_inv_star_ok [OF inv] lt] next'
      by (simp add: like_inv_def)
  next
    case (Some q)
    obtain sp ss where q: "q = (sp, ss)" by fastforce
    have ok: "sp \<le> p" "s = ss + (p - sp)" using inv by (auto simp: like_inv_def star_ok_def Some q)
    have "take (p + 1 - sp) (drop sp P) = take (p - sp) (drop sp P) @ [P ! p]"
      "take (p + 1 - sp) (drop ss T) = take (p - sp) (drop ss T) @ [T ! s]"
      using ok lt by (simp_all add: Suc_diff_le take_Suc_conv_app_nth)
    moreover have "list_all2 fits_char (take (p - sp) (drop sp P)) (take (p - sp) (drop ss T))"
      using inv by (simp add: like_inv_def Some q)
    ultimately have "list_all2 fits_char (take (p + 1 - sp) (drop sp P)) (take (p + 1 - sp) (drop ss T))"
      using fits by (simp add: list_all2_appendI)
    then show ?thesis
      using inv ok star_ok_step(1) [OF like_inv_star_ok [OF inv] lt]
      by (simp add: like_inv_def Some q Suc_diff_le)
  qed
qed

lemma like_inv_percent:
  assumes inv: "like_inv P T p s star" and lt: "s < length T" "p < length P" and pc: "P ! p = PERCENT"
  shows "like_inv P T (p + 1) s (Some (p + 1, s))"
proof -
  have P: "drop p P = PERCENT # drop (p + 1) P" using lt pc by (metis Cons_nth_drop_Suc Suc_eq_plus1)
  have here: "likes (drop p P) (drop s T) \<longleftrightarrow> (\<exists>k\<ge>s. k \<le> length T \<and> likes (drop (p + 1) P) (drop k T))"
  proof -
    have "likes (drop p P) (drop s T) \<longleftrightarrow> (\<exists>k\<le>length T - s. likes (drop (p + 1) P) (drop (s + k) T))"
      unfolding P likes_percent by (simp add: add.commute)
    also have "\<dots> \<longleftrightarrow> (\<exists>k\<ge>s. k \<le> length T \<and> likes (drop (p + 1) P) (drop k T))"
      using lt by (metis (no_types, opaque_lifting) add_diff_inverse_nat add_le_cancel_left le_add1 less_imp_le_nat not_less)
    finally show ?thesis .
  qed
  have "likes P T \<longleftrightarrow> (\<exists>k\<ge>s. k \<le> length T \<and> likes (drop (p + 1) P) (drop k T))"
  proof (cases star)
    case None
    then show ?thesis using inv here by (simp add: like_inv_def)
  next
    case (Some q)
    obtain sp ss where q: "star = Some (sp, ss)" using Some by (cases q) simp
    note A = attempt_split [OF inv [unfolded q]]
    have ok: "s = ss + (p - sp)" "ss \<le> s" using inv by (auto simp: like_inv_def star_ok_def q)
    have whole: "likes P T \<longleftrightarrow> (\<exists>k\<ge>ss. k \<le> length T \<and> likes (drop sp P) (drop k T))"
      using inv by (simp add: like_inv_def q)
    show ?thesis
    proof
      assume "likes P T"
      then obtain k where k: "ss \<le> k" "k \<le> length T" "likes (drop sp P) (drop k T)" using whole by blast
      then have "p - sp \<le> length T - k" "likes (drop p P) (drop (k + (p - sp)) T)"
        using A(3) [of "drop k T"] by (simp_all add: add.commute)
      then obtain j where "j \<le> length T - (k + (p - sp))" "likes (drop (p + 1) P) (drop (k + (p - sp) + j) T)"
        unfolding P likes_percent by (auto simp: add.commute)
      then show "\<exists>k\<ge>s. k \<le> length T \<and> likes (drop (p + 1) P) (drop k T)"
        using k ok \<open>p - sp \<le> length T - k\<close> by (intro exI [of _ "k + (p - sp) + j"]) auto
    next
      assume "\<exists>k\<ge>s. k \<le> length T \<and> likes (drop (p + 1) P) (drop k T)"
      then have "likes (drop sp P) (drop ss T)" using here A(4) by blast
      then show "likes P T" using whole ok lt(1) by (intro iffD2 [OF whole] exI [of _ ss]) auto
    qed
  qed
  then show ?thesis
    using star_ok_step(2) [OF like_inv_star_ok [OF inv] lt] by (simp add: like_inv_def)
qed

lemma like_inv_backtrack:
  assumes inv: "like_inv P T p s (Some (sp, ss))" and lt: "s < length T"
    and miss: "\<not> (p < length P \<and> (P ! p = UNDERSCORE \<or> P ! p = T ! s))" "\<not> (p < length P \<and> P ! p = PERCENT)"
  shows "like_inv P T sp (ss + 1) (Some (sp, ss + 1))"
proof -
  have "\<not> likes (drop p P) (drop s T)"
  proof (cases "p < length P")
    case True
    then have "drop p P = P ! p # drop (p + 1) P" "drop s T = T ! s # drop (s + 1) T"
      using lt by (simp_all add: Cons_nth_drop_Suc)
    then show ?thesis using miss True by (simp add: likes_single)
  qed (use lt in simp)
  then have "\<not> likes (drop sp P) (drop ss T)" using attempt_split(4) [OF inv] by simp
  moreover have "likes P T \<longleftrightarrow> (\<exists>k\<ge>ss. k \<le> length T \<and> likes (drop sp P) (drop k T))"
    using inv by (simp add: like_inv_def)
  ultimately have "likes P T \<longleftrightarrow> (\<exists>k\<ge>ss + 1. k \<le> length T \<and> likes (drop sp P) (drop k T))"
    by (metis Suc_eq_plus1 Suc_leD le_antisym not_less_eq_eq)
  then show ?thesis
    using star_ok_step(3) [OF like_inv_star_ok [OF inv] lt] by (simp add: like_inv_def)
qed

lemma like_inv_end:
  assumes inv: "like_inv P T p s star" and end_: "\<not> s < length T"
  shows "likes P T \<longleftrightarrow> list_all (\<lambda>c. c = PERCENT) (drop p P)"
proof (cases star)
  case None
  then show ?thesis using inv end_ by (simp add: like_inv_def likes_empty_text)
next
  case (Some q)
  obtain sp ss where q: "star = Some (sp, ss)" using Some by (cases q) simp
  note A = attempt_split [OF inv [unfolded q]]
  have ok: "s = ss + (p - sp)" "ss \<le> s" "s = length T" using inv end_ by (auto simp: like_inv_def star_ok_def q)
  have "likes P T \<longleftrightarrow> likes (drop sp P) (drop ss T)"
  proof -
    have "k = ss" if "ss \<le> k" "k \<le> length T" "likes (drop sp P) (drop k T)" for k
      using A(3) [of "drop k T"] that ok by auto
    then show ?thesis using inv ok by (auto simp: like_inv_def q)
  qed
  then show ?thesis using A(4) ok by (simp add: likes_empty_text)
qed

lemma like_loop_likes:
  assumes "PERCENT \<notin> set T" "like_inv P T p s star"
  shows "like_loop P T p s star = Some (likes P T)"
  using assms(2)
proof (induction rule: like_loop_induct [where J = "like_inv P T" and pattern = P and str = T])
  case (ok p s star)
  then show ?case by (rule like_inv_star_ok)
next
  case (step p s star)
  note inv = step.hyps and D = like_loop_decreases [OF like_inv_star_ok [OF step.hyps]]
  show ?case
  proof (cases "s < length T")
    case True
    consider (hit) "p < length P" "P ! p = UNDERSCORE \<or> P ! p = T ! s"
      | (percent) "\<not> (p < length P \<and> (P ! p = UNDERSCORE \<or> P ! p = T ! s))" "p < length P" "P ! p = PERCENT"
      | (miss) "\<not> (p < length P \<and> (P ! p = UNDERSCORE \<or> P ! p = T ! s))" "\<not> (p < length P \<and> P ! p = PERCENT)"
      by blast
    then show ?thesis
    proof cases
      case hit
      then show ?thesis
        using step.IH [OF like_inv_advance [OF inv True hit assms(1)] D(1) [OF True hit(1)]] True
        by (subst like_loop.simps) simp
    next
      case percent
      then show ?thesis
        using step.IH [OF like_inv_percent [OF inv True percent(2,3)] D(2) [OF True percent(2)]] True
        by (subst like_loop.simps) (simp only: if_True if_False simp_thms)
    next
      case miss
      show ?thesis
      proof (cases star)
        case None
        have "\<not> likes (drop p P) (drop s T)"
        proof (cases "p < length P")
          case lt: True
          then have "drop p P = P ! p # drop (p + 1) P" "drop s T = T ! s # drop (s + 1) T"
            using True by (simp_all add: Cons_nth_drop_Suc)
          then show ?thesis using miss lt by (simp add: likes_single)
        qed (use True in simp)
        then have "\<not> likes P T" using inv None by (simp add: like_inv_def)
        then show ?thesis using True miss None by (subst like_loop.simps) (simp only: if_True if_False simp_thms option.case)
      next
        case (Some q)
        obtain sp ss where q: "star = Some (sp, ss)" using Some by (cases q) simp
        show ?thesis
          using step.IH [OF like_inv_backtrack [OF inv [unfolded q] True miss] D(3) [OF True q]] True miss q
          by (subst like_loop.simps) (simp only: if_True if_False simp_thms option.case prod.case)
      qed
    qed
  next
    case False
    then show ?thesis using like_inv_end [OF inv False] by (subst like_loop.simps) simp
  qed
qed

section \<open>Properties\<close>

text \<open>C19: The matcher always returns, whatever the pattern and the text.\<close>
theorem like_terminates:
  "\<exists>b. like_match pattern str = Some b"
  unfolding like_match_def by (rule like_loop_returns) (simp add: star_ok_def)

text \<open>
  C18: The greedy matcher with its one backtracking point decides SQL's LIKE for every
  pattern, on every text that has no percent character of its own.
\<close>
theorem like_correct:
  assumes "PERCENT \<notin> set (utf8_chars str)"
  shows "like_match pattern str = Some (likes (utf8_chars pattern) (utf8_chars str))"
  unfolding like_match_def
  by (rule like_loop_likes [OF assms]) (simp add: like_inv_def star_ok_def)

theorem like_correct_witness:
  "like_match (ascii ''a%b_'') (ascii ''axbbc'') = Some True"
proof -
  have text_chars: "utf8_chars (ascii ''axbbc'') = map (\<lambda>b. [b]) (ascii ''axbbc'')"
    and pattern_chars: "utf8_chars (ascii ''a%b_'') = map (\<lambda>b. [b]) (ascii ''a%b_'')" by code_simp+
  have no_percent: "PERCENT \<notin> set (utf8_chars (ascii ''axbbc''))" unfolding text_chars by code_simp
  have match: "likes (utf8_chars (ascii ''a%b_'')) (utf8_chars (ascii ''axbbc''))"
    unfolding text_chars pattern_chars by code_simp
  show ?thesis using like_correct [OF no_percent, of "ascii ''a%b_''"] match by simp
qed

text \<open>
  C20: On a text that has one, the matcher is wrong: the literal test comes before the
  wildcard test, so the pattern's percent sign is spent on the text's, and the key \<open>%a\<close>
  does not match the pattern \<open>%\<close> that matches everything.
\<close>
theorem like_percent_in_text:
  "like_match (ascii ''%'') (ascii ''%a'') = Some False \<and>
   likes (utf8_chars (ascii ''%'')) (utf8_chars (ascii ''%a''))"
proof
  have chars: "utf8_chars (ascii ''%'') = [PERCENT]" "utf8_chars (ascii ''%a'') = [PERCENT, [0x61]]" by code_simp+
  show "like_match (ascii ''%'') (ascii ''%a'') = Some False"
    unfolding like_match_def chars by (simp add: like_loop.simps)
  show "likes (utf8_chars (ascii ''%'')) (utf8_chars (ascii ''%a''))"
    unfolding chars likes_percent by (rule exI [of _ 2]) simp
qed

end
