(* ===== verification/Compare.thy ===== *)
theory Compare
  imports Float64
begin

text \<open>
  The comparison relation of \<^verbatim>\<open>src/query_lite/predicate.rs\<close>: number literals, operators, the
  ordering of \<open>f64\<close> with NaN on top, and the exact ordering of an \<open>i64\<close> against an \<open>f64\<close>.
  \<open>f64_scaled\<close> is the exact value of a finite float as an integer multiple of \<open>2^-1074\<close>;
  both relations are proved to be the ordering of exact values.
\<close>

datatype ordering = Less | Equal | Greater

datatype number = NumInt i64 | NumFloat f64

datatype cmp_op = CEq | CNe | CLt | CLe | CGt | CGe

fun number_as_f64 :: "number \<Rightarrow> f64" where
  "number_as_f64 (NumInt v) = f64_of_i64 v"
| "number_as_f64 (NumFloat v) = v"

text \<open>\<open>CmpOp::holds\<close> at \<open>i64\<close>, the one type it is used at.\<close>

fun op_holds :: "cmp_op \<Rightarrow> i64 \<Rightarrow> i64 \<Rightarrow> bool" where
  "op_holds CEq l r \<longleftrightarrow> l = r"
| "op_holds CNe l r \<longleftrightarrow> l \<noteq> r"
| "op_holds CLt l r \<longleftrightarrow> sint l < sint r"
| "op_holds CLe l r \<longleftrightarrow> sint l \<le> sint r"
| "op_holds CGt l r \<longleftrightarrow> sint r < sint l"
| "op_holds CGe l r \<longleftrightarrow> sint r \<le> sint l"

fun holds_ordering :: "cmp_op \<Rightarrow> ordering \<Rightarrow> bool" where
  "holds_ordering CEq q \<longleftrightarrow> q = Equal"
| "holds_ordering CNe q \<longleftrightarrow> q \<noteq> Equal"
| "holds_ordering CLt q \<longleftrightarrow> q = Less"
| "holds_ordering CLe q \<longleftrightarrow> q \<noteq> Greater"
| "holds_ordering CGt q \<longleftrightarrow> q = Greater"
| "holds_ordering CGe q \<longleftrightarrow> q \<noteq> Less"

text \<open>\<open>partial_cmp\<close> of two floats that are not NaN.\<close>

definition f64_partial_cmp :: "f64 \<Rightarrow> f64 \<Rightarrow> ordering" where
  "f64_partial_cmp l r = (if f64_lt l r then Less else if f64_lt r l then Greater else Equal)"

definition cmp_f64 :: "f64 \<Rightarrow> f64 \<Rightarrow> ordering" where
  "cmp_f64 l r =
     (case (f64_is_nan l, f64_is_nan r) of
        (True, True) \<Rightarrow> Equal
      | (True, False) \<Rightarrow> Greater
      | (False, True) \<Rightarrow> Less
      | (False, False) \<Rightarrow> f64_partial_cmp l r)"

definition holds_f64 :: "cmp_op \<Rightarrow> f64 \<Rightarrow> f64 \<Rightarrow> bool" where
  "holds_f64 op l r = holds_ordering op (cmp_f64 l r)"

text \<open>\<open>t.floor()\<close> of a finite float as an integer, and whether \<open>t > t.floor()\<close>.\<close>

definition f64_floor_int :: "f64 \<Rightarrow> int" where
  "f64_floor_int x =
     (let m = int (f64_mantissa x); e = f64_scale x; v = (if f64_sign x then - m else m)
      in if 0 \<le> e then v * 2 ^ nat e else v div 2 ^ nat (- e))"

definition f64_above_floor :: "f64 \<Rightarrow> bool" where
  "f64_above_floor x \<longleftrightarrow> f64_scale x < 0 \<and> int (f64_mantissa x) mod 2 ^ nat (- f64_scale x) \<noteq> 0"

definition TWO_63 :: f64 where "TWO_63 = 0x43E0000000000000"

definition MINUS_TWO_63 :: f64 where "MINUS_TWO_63 = 0xC3E0000000000000"

definition cmp_i64_f64 :: "i64 \<Rightarrow> f64 \<Rightarrow> ordering" where
  "cmp_i64_f64 v t =
     (if f64_is_nan t then Less
      else if f64_le TWO_63 t then Less
      else if f64_lt t MINUS_TWO_63 then Greater
      else
        (let floor_i = i64_saturate (f64_floor_int t)
         in if sint v < sint floor_i then Less
            else if sint floor_i < sint v then Greater
            else if f64_above_floor t then Less
            else Equal))"

section \<open>Exact values\<close>

definition f64_scaled :: "f64 \<Rightarrow> int" where
  "f64_scaled x = (let n = int (f64_mantissa x * 2 ^ (max (f64_exponent x) 1 - 1)) in if f64_sign x then - n else n)"

definition ordering_of :: "int \<Rightarrow> int \<Rightarrow> ordering" where
  "ordering_of a b = (if a < b then Less else if b < a then Greater else Equal)"

text \<open>The magnitude as a function of the bits below the sign.\<close>

definition magnitude_value :: "nat \<Rightarrow> nat" where
  "magnitude_value n = (let e = n div 2 ^ 52; f = n mod 2 ^ 52 in (if e = 0 then f else f + 2 ^ 52) * 2 ^ (max e 1 - 1))"

lemma magnitude_value_Suc: "magnitude_value n < magnitude_value (Suc n)"
proof -
  define e f where "e = n div 2 ^ 52" and "f = n mod 2 ^ 52"
  have n: "n = e * 2 ^ 52 + f" "f < 2 ^ 52" by (simp_all add: e_def f_def)
  show ?thesis
  proof (cases "Suc f < 2 ^ 52")
    case True
    then have "Suc n div 2 ^ 52 = e" "Suc n mod 2 ^ 52 = Suc f"
      using n by (simp_all add: div_nat_eqI mod_Suc)
    then show ?thesis unfolding magnitude_value_def Let_def e_def [symmetric] f_def [symmetric] by simp
  next
    case False
    then have f: "Suc f = 2 ^ 52" using n by simp
    then have "Suc n = Suc e * 2 ^ 52" using n by simp
    then have s: "Suc n div 2 ^ 52 = Suc e" "Suc n mod 2 ^ 52 = 0" by (simp_all only: div_mult_self_is_m mod_mult_self2_is_0) simp_all
    show ?thesis
    proof (cases e)
      case 0
      then show ?thesis unfolding magnitude_value_def Let_def e_def [symmetric] f_def [symmetric] s using f by simp
    next
      case (Suc k)
      have "(f + 2 ^ 52) * 2 ^ k < 2 ^ 52 * 2 ^ Suc k" using f by simp
      then show ?thesis unfolding magnitude_value_def Let_def e_def [symmetric] f_def [symmetric] s using Suc by simp
    qed
  qed
qed

lemma magnitude_value_less_iff: "magnitude_value a < magnitude_value b \<longleftrightarrow> a < b"
  by (rule strict_mono_less [OF strict_mono_Suc_iff [THEN iffD2]]) (simp add: magnitude_value_Suc)

definition f64_magnitude :: "f64 \<Rightarrow> nat" where
  "f64_magnitude x = unat (x AND 0x7FFFFFFFFFFFFFFF)"

lemma f64_fields:
  "f64_magnitude x < 2 ^ 63" "f64_exponent x = f64_magnitude x div 2 ^ 52" "f64_fraction x = f64_magnitude x mod 2 ^ 52"
proof -
  have masks: "(0x7FFFFFFFFFFFFFFF :: f64) = mask 63" "(0x7FF :: f64) = mask 11" "(0xFFFFFFFFFFFFF :: f64) = mask 52"
    by (simp_all add: mask_eq_exp_minus_1)
  have low: "unat (w AND mask k) = unat w mod 2 ^ k" for w :: f64 and k
  proof -
    have "unat (w AND mask k) = take_bit k (unat w)"
      by (simp only: take_bit_eq_mask [symmetric] unsigned_take_bit_eq)
    then show ?thesis by (simp only: take_bit_eq_mod)
  qed
  have m: "f64_magnitude x = unat x mod 2 ^ 63"
    unfolding f64_magnitude_def masks by (rule low)
  then show "f64_magnitude x < 2 ^ 63" by simp
  have "f64_exponent x = unat x div 2 ^ 52 mod 2 ^ 11"
    unfolding f64_exponent_def masks low by (simp only: unat_drop_bit_eq) (simp only: drop_bit_eq_div)
  then show "f64_exponent x = f64_magnitude x div 2 ^ 52"
    unfolding m using mod_mult2_eq [of "unat x" "2 ^ 52" "2 ^ 11"] by simp
  have "f64_fraction x = unat x mod 2 ^ 52"
    unfolding f64_fraction_def masks by (rule low)
  then show "f64_fraction x = f64_magnitude x mod 2 ^ 52"
    unfolding m by (simp add: mod_mod_cancel)
qed

lemma f64_scaled_magnitude:
  "f64_scaled x = (if f64_sign x then - int (magnitude_value (f64_magnitude x)) else int (magnitude_value (f64_magnitude x)))"
  unfolding f64_scaled_def magnitude_value_def Let_def f64_fields(2,3) [symmetric] f64_mantissa_def
  by (simp add: max_def)

lemma magnitude_value_0: "magnitude_value 0 = 0"
  by (simp add: magnitude_value_def)

lemma f64_key_less_iff: "f64_key x < f64_key y \<longleftrightarrow> f64_scaled x < f64_scaled y"
proof -
  have key: "f64_key x = (if f64_sign x then - int (f64_magnitude x) else int (f64_magnitude x))" for x
    by (simp add: f64_key_def f64_magnitude_def Let_def)
  have pos: "0 < magnitude_value n \<longleftrightarrow> 0 < n" for n
    using magnitude_value_less_iff [of 0 n] by (simp add: magnitude_value_0)
  show ?thesis
    unfolding key f64_scaled_magnitude
    using magnitude_value_less_iff [of "f64_magnitude x" "f64_magnitude y"]
      magnitude_value_less_iff [of "f64_magnitude y" "f64_magnitude x"]
      pos [of "f64_magnitude x"] pos [of "f64_magnitude y"]
    by (cases "f64_sign x"; cases "f64_sign y") (simp_all, linarith+)
qed

text \<open>NaN ranks above every number, infinity included.\<close>

definition f64_rank :: "f64 \<Rightarrow> int" where
  "f64_rank x = (if f64_is_nan x then 2 ^ 2100 else f64_scaled x)"

lemma f64_scaled_less: "f64_scaled x < 2 ^ 2100"
proof -
  have e: "f64_exponent x < 2 ^ 11" "f64_fraction x < 2 ^ 52"
    using f64_fields [of x] by (simp_all add: div_less_iff_less_mult)
  then have "f64_mantissa x < 2 ^ 53" by (simp add: f64_mantissa_def)
  moreover have "(2::nat) ^ (max (f64_exponent x) 1 - 1) \<le> 2 ^ 2047" using e(1) by (intro power_increasing) auto
  ultimately have "f64_mantissa x * 2 ^ (max (f64_exponent x) 1 - 1) < 2 ^ 53 * 2 ^ 2047"
    by (intro mult_less_le_imp_less) auto
  then have "f64_mantissa x * 2 ^ (max (f64_exponent x) 1 - 1) < 2 ^ 2100"
    by (simp only: power_add [symmetric]) simp
  then have "int (f64_mantissa x * 2 ^ (max (f64_exponent x) 1 - 1)) < 2 ^ 2100"
    by (metis of_nat_less_iff of_nat_numeral of_nat_power)
  then show ?thesis unfolding f64_scaled_def Let_def by (smt (verit) of_nat_0_le_iff)
qed

lemma cmp_f64_rank: "cmp_f64 l r = ordering_of (f64_rank l) (f64_rank r)"
  using f64_scaled_less [of l] f64_scaled_less [of r]
  by (auto simp: cmp_f64_def f64_partial_cmp_def ordering_of_def f64_rank_def f64_lt_def f64_key_less_iff
    split: bool.splits)

section \<open>Integers against floats\<close>

lemma f64_floor_scaled:
  "f64_floor_int x = f64_scaled x div 2 ^ 1074" "f64_above_floor x \<longleftrightarrow> f64_scaled x mod 2 ^ 1074 \<noteq> 0"
proof -
  let ?m = "int (f64_mantissa x)"
  define v where "v = (if f64_sign x then - ?m else ?m)"
  define d where "d = max (f64_exponent x) 1 - 1"
  have scaled: "f64_scaled x = v * 2 ^ d"
    by (simp add: f64_scaled_def v_def d_def Let_def)
  have scale: "f64_scale x = int d - 1074" by (simp add: f64_scale_def d_def)
  have fl: "f64_floor_int x = (if 0 \<le> f64_scale x then v * 2 ^ nat (f64_scale x) else v div 2 ^ nat (- f64_scale x))"
    by (simp add: f64_floor_int_def v_def Let_def)
  have sgn: "v mod 2 ^ k = 0 \<longleftrightarrow> ?m mod 2 ^ k = 0" for k
    by (simp add: v_def mod_eq_0_iff_dvd)
  have "f64_floor_int x = f64_scaled x div 2 ^ 1074 \<and> (f64_above_floor x \<longleftrightarrow> f64_scaled x mod 2 ^ 1074 \<noteq> 0)"
  proof (cases "1074 \<le> d")
    case True
    then have p: "(2::int) ^ d = 2 ^ (d - 1074) * 2 ^ 1074" by (simp only: power_add [symmetric] le_add_diff_inverse2)
    have n: "nat (f64_scale x) = d - 1074" "0 \<le> f64_scale x" using True by (simp_all add: scale)
    have s: "f64_scaled x = (v * 2 ^ (d - 1074)) * 2 ^ 1074" unfolding scaled p by (simp only: mult.assoc)
    show ?thesis unfolding fl f64_above_floor_def s using n
      by (simp only: nonzero_mult_div_cancel_right power_not_zero zero_neq_numeral not_False_eq_True if_True
          mod_mult_self2_is_0 not_less simp_thms) simp
  next
    case False
    then have n: "nat (- f64_scale x) = 1074 - d" "\<not> 0 \<le> f64_scale x" by (simp_all add: scale)
    have p: "(2::int) ^ 1074 = 2 ^ (1074 - d) * 2 ^ d" using False by (simp only: power_add [symmetric]) simp
    have "f64_scaled x div 2 ^ 1074 = v div 2 ^ (1074 - d)"
      unfolding scaled p by (simp only: div_mult_mult2 power_not_zero zero_neq_numeral not_False_eq_True)
    moreover have "f64_scaled x mod 2 ^ 1074 = (v mod 2 ^ (1074 - d)) * 2 ^ d"
      unfolding scaled p by (simp only: mod_mult_mult2)
    ultimately show ?thesis unfolding fl f64_above_floor_def n(1) using n(2) sgn by simp
  qed
  note both = this
  show "f64_floor_int x = f64_scaled x div 2 ^ 1074" by (rule conjunct1 [OF both])
  show "f64_above_floor x \<longleftrightarrow> f64_scaled x mod 2 ^ 1074 \<noteq> 0" by (rule conjunct2 [OF both])
qed

text \<open>One, in units of the least positive float.\<close>

definition f64_unit :: int where
  "f64_unit = 2 ^ 1074"

lemma f64_unit_pos: "0 < f64_unit"
  unfolding f64_unit_def by (rule zero_less_power) simp

lemma f64_floor_unit: "f64_floor_int x = f64_scaled x div f64_unit" "f64_above_floor x \<longleftrightarrow> f64_scaled x mod f64_unit \<noteq> 0"
  unfolding f64_unit_def by (rule f64_floor_scaled)+

lemma f64_unit_rank: "2 ^ 63 * f64_unit < 2 ^ 2100"
proof -
  have "(2::int) ^ (63 + 1074) < 2 ^ 2100" by (rule power_strict_increasing) simp_all
  then show ?thesis unfolding f64_unit_def power_add .
qed

lemma two_63_scaled: "f64_scaled TWO_63 = 2 ^ 63 * f64_unit" "f64_scaled MINUS_TWO_63 = - (2 ^ 63 * f64_unit)"
  and two_63_not_nan: "\<not> f64_is_nan TWO_63" "\<not> f64_is_nan MINUS_TWO_63"
proof -
  have sg: "f64_sign TWO_63 = False" "f64_sign MINUS_TWO_63 = True" by code_simp+
  have e: "f64_exponent TWO_63 = 1086" "f64_exponent MINUS_TWO_63 = 1086" by code_simp+
  have f: "f64_fraction TWO_63 = 0" "f64_fraction MINUS_TWO_63 = 0" by code_simp+
  have d: "max (1086::nat) 1 - 1 = 11 + 1074" by simp
  have m: "f64_mantissa TWO_63 = 2 ^ 52" "f64_mantissa MINUS_TWO_63 = 2 ^ 52"
    unfolding f64_mantissa_def e f by simp_all
  have p: "int (2 ^ 52 * 2 ^ (11 + 1074)) = 2 ^ 63 * f64_unit"
  proof -
    have "(2::int) ^ 52 * (2 ^ 11 * k) = 2 ^ 63 * k" for k by simp
    then show ?thesis unfolding of_nat_mult of_nat_power of_nat_numeral power_add f64_unit_def .
  qed
  show "\<not> f64_is_nan TWO_63" "\<not> f64_is_nan MINUS_TWO_63" by (simp_all add: f64_is_nan_def f)
  show "f64_scaled TWO_63 = 2 ^ 63 * f64_unit" "f64_scaled MINUS_TWO_63 = - (2 ^ 63 * f64_unit)"
    unfolding f64_scaled_def Let_def m e d sg if_True if_False p by (rule refl)+
qed

text \<open>Comparing an integer with a quotient and remainder.\<close>

lemma ordering_of_div:
  fixes a s K :: int
  assumes "0 < K"
  shows "ordering_of (a * K) s =
    (if a < s div K then Less else if s div K < a then Greater else if s mod K \<noteq> 0 then Less else Equal)"
proof -
  define q r where "q = s div K" and "r = s mod K"
  have s: "s = q * K + r" and r: "0 \<le> r" "r < K" using assms by (simp_all add: q_def r_def)
  have lt: "a * K < s \<longleftrightarrow> a < q \<or> (a = q \<and> r \<noteq> 0)"
  proof (cases "a < q")
    case True
    then have "(a + 1) * K \<le> q * K" using assms by (intro mult_right_mono) auto
    then show ?thesis using True r unfolding s by (simp add: algebra_simps)
  next
    case False
    then have "q * K \<le> a * K" using assms by (intro mult_right_mono) auto
    moreover have "(q + 1) * K \<le> a * K" if "a \<noteq> q" using assms False that by (intro mult_right_mono) auto
    ultimately show ?thesis using False r unfolding s by (cases "a = q") (auto simp: algebra_simps)
  qed
  have eq: "a * K = s \<longleftrightarrow> a = q \<and> r = 0"
  proof
    assume e: "a * K = s"
    then have "a = q" unfolding q_def e [symmetric] using assms by simp
    then show "a = q \<and> r = 0" using e s by simp
  qed (simp add: s)
  have gt: "s < a * K \<longleftrightarrow> q < a" using lt eq r by (metis less_irrefl linorder_neqE less_asym)
  show ?thesis unfolding ordering_of_def q_def [symmetric] r_def [symmetric] lt gt by auto
qed

lemma i64_saturate_id:
  "- (2 ^ 63) \<le> n \<Longrightarrow> n < 2 ^ 63 \<Longrightarrow> sint (i64_saturate n) = n"
  by (simp add: i64_saturate_def int_word_sint)

lemma floor_bounds:
  fixes s K b c :: int
  assumes "0 < K" "b * K \<le> s" "s < c * K"
  shows "b \<le> s div K" "s div K < c"
proof -
  show "b \<le> s div K" using zdiv_mono1 [OF assms(2,1)] assms(1) by simp
  show "s div K < c"
  proof (rule ccontr)
    assume "\<not> s div K < c"
    then have "c * K \<le> (s div K) * K" using assms(1) by (intro mult_right_mono) auto
    also have "\<dots> \<le> s" using assms(1) by (simp add: minus_mod_eq_div_mult [symmetric])
    finally show False using assms(3) by simp
  qed
qed

section \<open>Property\<close>

text \<open>
  C17: Comparisons are exact.  The engine's order on \<open>f64\<close> is the order of exact values with
  every NaN equal and above all numbers, and an \<open>i64\<close> is ordered against an \<open>f64\<close> by exact
  value, over the whole range of both types, NaN and the infinities included.
\<close>
theorem comparisons_exact:
  "cmp_f64 l r = ordering_of (f64_rank l) (f64_rank r) \<and>
   cmp_i64_f64 v t = ordering_of (sint v * f64_unit) (f64_rank t)"
proof
  show "cmp_f64 l r = ordering_of (f64_rank l) (f64_rank r)" by (rule cmp_f64_rank)
  let ?s = "f64_scaled t" and ?B = "2 ^ 63 * f64_unit"
  have v: "- (2 ^ 63) \<le> sint v" "sint v < 2 ^ 63" using sint_ge [of v] sint_lt [of v] by simp_all
  have hi: "sint v * f64_unit < ?B" using v(2) f64_unit_pos by (rule mult_strict_right_mono)
  have lo: "- ?B \<le> sint v * f64_unit" using mult_right_mono [OF v(1), of f64_unit] f64_unit_pos by simp
  show "cmp_i64_f64 v t = ordering_of (sint v * f64_unit) (f64_rank t)"
  proof (cases "f64_is_nan t")
    case True
    then show ?thesis using hi f64_unit_rank by (simp add: cmp_i64_f64_def f64_rank_def ordering_of_def)
  next
    case False
    have le: "f64_le TWO_63 t \<longleftrightarrow> ?B \<le> ?s"
      using False two_63_not_nan f64_key_less_iff [of t TWO_63]
      by (simp only: f64_le_def two_63_scaled not_less [symmetric]) simp
    have lt: "f64_lt t MINUS_TWO_63 \<longleftrightarrow> ?s < - ?B"
      using False two_63_not_nan f64_key_less_iff [of t MINUS_TWO_63] by (simp add: f64_lt_def two_63_scaled)
    consider "?B \<le> ?s" | "\<not> ?B \<le> ?s" "?s < - ?B" | "\<not> ?B \<le> ?s" "\<not> ?s < - ?B" by blast
    then show ?thesis
    proof cases
      case 1
      then show ?thesis using False hi by (simp only: cmp_i64_f64_def le f64_rank_def ordering_of_def) simp
    next
      case 2
      then show ?thesis using False lo by (simp only: cmp_i64_f64_def le lt f64_rank_def ordering_of_def) simp
    next
      case 3
      have "- (2 ^ 63) * f64_unit \<le> ?s" "?s < 2 ^ 63 * f64_unit" using 3 by simp_all
      then have "- (2 ^ 63) \<le> f64_floor_int t" "f64_floor_int t < 2 ^ 63"
        unfolding f64_floor_unit by (rule floor_bounds [OF f64_unit_pos])+
      then have "sint (i64_saturate (f64_floor_int t)) = f64_floor_int t" by (rule i64_saturate_id)
      then show ?thesis using False 3 f64_unit_pos
        by (simp only: cmp_i64_f64_def le lt if_False Let_def f64_floor_unit f64_rank_def ordering_of_div)
    qed
  qed
qed

end
