(* ===== verification/Where.thy ===== *)
theory Where
  imports Views Like Compare
begin

text \<open>
  \<^verbatim>\<open>src/query_lite/predicate.rs\<close>: the predicate tree of a WHERE clause, its three-valued
  evaluation over one segment, and the zone-map test that decides whether a segment is
  read at all.  A scalar expression and its evaluation are the caller's: the type \<open>'x\<close> and
  the function \<open>scalars\<close> (the trait \<open>ScalarEval\<close>) are parameters.  The reference semantics
  is Kleene's logic on the cells of one row; the two main results are that evaluation
  computes it, whatever the dictionary order, the tombstones and the bitmaps, and that the
  pruning test only skips segments none of whose rows it makes true.
\<close>

section \<open>Errors\<close>

datatype query_error =
    Parse string
  | Unsupported string
  | UnknownColumn rstring
  | UnknownFunction rstring
  | TypeError rstring
  | Unordered string
  | Compute string
  | Storage storage_error

definition SEQUENCE_COLUMN :: rstring where "SEQUENCE_COLUMN = ascii ''_seq''"

definition no_such_column :: "rstring \<Rightarrow> query_error" where
  "no_such_column name =
     (if name = SEQUENCE_COLUMN then Unsupported ''_seq can be selected, not filtered or grouped on''
      else UnknownColumn name)"

text \<open>\<open>iter().position(..)\<close> and a checked index.\<close>

fun position :: "('a \<Rightarrow> bool) \<Rightarrow> 'a list \<Rightarrow> nat option" where
  "position P [] = None"
| "position P (x # xs) = (if P x then Some 0 else map_option Suc (position P xs))"

definition element_at :: "'a list \<Rightarrow> nat \<Rightarrow> ('e, 'a) outcome" where
  "element_at xs i = (if i < length xs then Ok (xs ! i) else Panic)"

definition column_index :: "schema \<Rightarrow> rstring \<Rightarrow> (query_error, nat) outcome" where
  "column_index s name =
     (case position (\<lambda>f. f_name f = name) (s_fields s) of
        Some index \<Rightarrow> Ok index
      | None \<Rightarrow> Err (no_such_column name))"

section \<open>The predicate tree\<close>

datatype 'x predicate =
    Compare rstring cmp_op number
  | CompareExpr 'x cmp_op 'x
  | KeyEquals rstring rstring bool
  | KeyLike rstring rstring bool
  | IsNull rstring bool
  | KeyIn rstring "rstring list" bool
  | PAnd "'x predicate" "'x predicate"
  | POr "'x predicate" "'x predicate"
  | PNot "'x predicate"

type_synonym 'x scalar_eval = "'x \<Rightarrow> (query_error, f64 list \<times> bool list) outcome"

section \<open>Three-valued results\<close>

record three_valued =
  tv_truth :: bitmap
  tv_falsity :: bitmap

definition tv_and :: "three_valued \<Rightarrow> three_valued \<Rightarrow> ('e, three_valued) outcome" where
  "tv_and a b =
     bindR (bm_and (tv_truth a) (tv_truth b)) (\<lambda>t.
     bindR (bm_or (tv_falsity a) (tv_falsity b)) (\<lambda>f.
     Ok \<lparr>tv_truth = t, tv_falsity = f\<rparr>))"

definition tv_or :: "three_valued \<Rightarrow> three_valued \<Rightarrow> ('e, three_valued) outcome" where
  "tv_or a b =
     bindR (bm_or (tv_truth a) (tv_truth b)) (\<lambda>t.
     bindR (bm_and (tv_falsity a) (tv_falsity b)) (\<lambda>f.
     Ok \<lparr>tv_truth = t, tv_falsity = f\<rparr>))"

definition tv_not :: "three_valued \<Rightarrow> three_valued" where
  "tv_not a = \<lparr>tv_truth = tv_falsity a, tv_falsity = tv_truth a\<rparr>"

definition leaf_result :: "nat \<Rightarrow> (nat \<Rightarrow> ('e, bool \<times> bool) outcome) \<Rightarrow> ('e, three_valued) outcome" where
  "leaf_result rows verdict =
     mapR (\<lambda>vs. \<lparr>tv_truth = from_bools (map (\<lambda>(valid, holds). valid \<and> holds) vs),
                 tv_falsity = from_bools (map (\<lambda>(valid, holds). valid \<and> \<not> holds) vs)\<rparr>)
       (traverseR verdict [0..<rows])"

section \<open>Evaluation\<close>

text \<open>
  \<open>dictionary.len() as u32\<close> bounds the codes; the closure \<open>matches\<close> runs once for each.
\<close>

definition key_predicate ::
  "schema \<Rightarrow> segment_view \<Rightarrow> rstring \<Rightarrow> bool \<Rightarrow> (rstring \<Rightarrow> bool) \<Rightarrow> (query_error, three_valued) outcome" where
  "key_predicate s view name negated matches =
     bindR (column_index s name) (\<lambda>index.
     bindR (element_at (rb_columns (sg_batch (sv_segment view))) index) (\<lambda>column.
     case column of
       Numeric _ \<Rightarrow> Err (TypeError name)
     | KeyCol keys \<Rightarrow>
         (let d = kc_dictionary keys
          in bindR (traverseR (\<lambda>code. mapR (\<lambda>key. matches key \<noteq> negated) (dict_value d (word_of_nat code)))
               [0..<unat (word_of_nat (dict_len d) :: u32)]) (\<lambda>allowed.
             leaf_result (kc_len keys) (\<lambda>row.
               bindR (kc_is_valid keys row) (\<lambda>valid.
               bindR (element_at (kc_codes keys) row) (\<lambda>code.
               mapR (\<lambda>holds. (valid, holds)) (element_at allowed (unat code)))))))))"

definition key_membership ::
  "schema \<Rightarrow> segment_view \<Rightarrow> rstring \<Rightarrow> rstring list \<Rightarrow> bool \<Rightarrow> (query_error, three_valued) outcome" where
  "key_membership s view name vs negated = key_predicate s view name negated (\<lambda>key. list_ex (\<lambda>v. v = key) vs)"

text \<open>The loop of the expression comparison: stored rows outside, live positions inside.\<close>

definition compare_step ::
  "segment_view \<Rightarrow> cmp_op \<Rightarrow> f64 list \<times> bool list \<Rightarrow> f64 list \<times> bool list \<Rightarrow>
   (bool \<times> bool) list \<times> nat \<Rightarrow> nat \<Rightarrow> ('e, (bool \<times> bool) list \<times> nat) outcome" where
  "compare_step view op l r = (\<lambda>(verdict, live_position) row.
     bindR (sv_is_live view row) (\<lambda>live.
     if \<not> live then Ok (verdict @ [(False, False)], live_position)
     else
       bindR (element_at (snd l) live_position) (\<lambda>lv.
       bindR (if lv then element_at (snd r) live_position else Ok False) (\<lambda>valid.
       bindR (element_at (fst l) live_position) (\<lambda>x.
       bindR (element_at (fst r) live_position) (\<lambda>y.
       Ok (verdict @ [(valid, holds_ordering op (cmp_f64 x y))], live_position + 1)))))))"

fun evaluate_3vl ::
  "'x predicate \<Rightarrow> schema \<Rightarrow> segment_view \<Rightarrow> 'x scalar_eval \<Rightarrow> (query_error, three_valued) outcome" where
  "evaluate_3vl (CompareExpr l op r) s view scalars =
     bindR (scalars l) (\<lambda>lvs.
     bindR (scalars r) (\<lambda>rvs.
     (let rows = rb_num_rows (sg_batch (sv_segment view))
      in bindR (foldR (compare_step view op lvs rvs) ([], 0) [0..<rows]) (\<lambda>(verdict, _).
           leaf_result rows (element_at verdict)))))"
| "evaluate_3vl (Compare name op target) s view scalars =
     bindR (column_index s name) (\<lambda>index.
     bindR (element_at (rb_columns (sg_batch (sv_segment view))) index) (\<lambda>column.
     (let rows = rb_num_rows (sg_batch (sv_segment view))
      in case column of
           Numeric (NF64 c) \<Rightarrow>
             leaf_result rows (\<lambda>row.
               bindR (nc_is_valid c row) (\<lambda>valid.
               mapR (\<lambda>x. (valid, holds_f64 op x (number_as_f64 target))) (element_at (nc_values c) row)))
         | Numeric (NI64 c) \<Rightarrow>
             leaf_result rows (\<lambda>row.
               bindR (element_at (nc_values c) row) (\<lambda>x.
               mapR (\<lambda>valid. (valid, case target of
                   NumInt t \<Rightarrow> op_holds op x t
                 | NumFloat t \<Rightarrow> holds_ordering op (cmp_i64_f64 x t))) (nc_is_valid c row)))
         | KeyCol _ \<Rightarrow> Err (TypeError name))))"
| "evaluate_3vl (IsNull name negated) s view scalars =
     bindR (column_index s name) (\<lambda>index.
     bindR (element_at (rb_columns (sg_batch (sv_segment view))) index) (\<lambda>column.
     leaf_result (rb_num_rows (sg_batch (sv_segment view))) (\<lambda>row.
       mapR (\<lambda>valid. (True, valid = negated)) (col_is_valid column row))))"
| "evaluate_3vl (KeyEquals name key negated) s view scalars = key_membership s view name [key] negated"
| "evaluate_3vl (KeyIn name keys negated) s view scalars = key_membership s view name keys negated"
| "evaluate_3vl (KeyLike name pattern negated) s view scalars =
     key_predicate s view name negated (\<lambda>key. like_match pattern key = Some True)"
| "evaluate_3vl (PAnd p q) s view scalars =
     bindR (evaluate_3vl p s view scalars) (\<lambda>a. bindR (evaluate_3vl q s view scalars) (tv_and a))"
| "evaluate_3vl (POr p q) s view scalars =
     bindR (evaluate_3vl p s view scalars) (\<lambda>a. bindR (evaluate_3vl q s view scalars) (tv_or a))"
| "evaluate_3vl (PNot p) s view scalars = mapR tv_not (evaluate_3vl p s view scalars)"

definition evaluate ::
  "'x predicate \<Rightarrow> schema \<Rightarrow> segment_view \<Rightarrow> 'x scalar_eval \<Rightarrow> (query_error, bitmap) outcome" where
  "evaluate p s view scalars = mapR tv_truth (evaluate_3vl p s view scalars)"

section \<open>Pruning\<close>

definition interval_may_hold :: "cmp_op \<Rightarrow> i64 \<Rightarrow> i64 \<Rightarrow> i64 \<Rightarrow> bool" where
  "interval_may_hold op lo hi target =
     (case op of
        CEq \<Rightarrow> sint lo \<le> sint target \<and> sint target \<le> sint hi
      | CNe \<Rightarrow> \<not> (lo = target \<and> hi = target)
      | CLt \<Rightarrow> sint lo < sint target
      | CLe \<Rightarrow> sint lo \<le> sint target
      | CGt \<Rightarrow> sint target < sint hi
      | CGe \<Rightarrow> sint target \<le> sint hi)"

fun zone_may_hold :: "cmp_op \<Rightarrow> zone_map \<Rightarrow> number \<Rightarrow> bool" where
  "zone_may_hold op (ZF64 lo hi has_nan) v =
     (let target = number_as_f64 v
      in if f64_is_nan target then True
         else case op of
                CEq \<Rightarrow> cmp_f64 lo target \<noteq> Greater \<and> cmp_f64 target hi \<noteq> Greater
              | CNe \<Rightarrow> has_nan \<or> \<not> (cmp_f64 lo target = Equal \<and> cmp_f64 hi target = Equal)
              | CLt \<Rightarrow> cmp_f64 lo target = Less
              | CLe \<Rightarrow> cmp_f64 lo target \<noteq> Greater
              | CGt \<Rightarrow> has_nan \<or> cmp_f64 hi target = Greater
              | CGe \<Rightarrow> has_nan \<or> cmp_f64 hi target \<noteq> Less)"
| "zone_may_hold op (ZI64 lo hi) (NumInt target) = interval_may_hold op lo hi target"
| "zone_may_hold op (ZI64 lo hi) (NumFloat _) = True"

fun can_match :: "'x predicate \<Rightarrow> schema \<Rightarrow> segment_handle \<Rightarrow> ('e, bool) outcome" where
  "can_match p s h =
     bindR (handle_zone_maps_present h) (\<lambda>present.
       if \<not> present then Ok True
       else case p of
              CompareExpr _ _ _ \<Rightarrow> Ok True
            | Compare name op target \<Rightarrow>
                (case position (\<lambda>f. f_name f = name) (s_fields s) of
                   None \<Rightarrow> Ok True
                 | Some index \<Rightarrow>
                     if f_column_type (s_fields s ! index) = Key then Ok True
                     else mapR (\<lambda>zm. case zm of None \<Rightarrow> False | Some zone \<Rightarrow> zone_may_hold op zone target)
                            (handle_zone_map h index))
            | PAnd l r \<Rightarrow> bindR (can_match l s h) (\<lambda>b. if b then can_match r s h else Ok False)
            | POr l r \<Rightarrow> bindR (can_match l s h) (\<lambda>b. if b then Ok True else can_match r s h)
            | IsNull name negated \<Rightarrow>
                if negated then
                  (case position (\<lambda>f. f_name f = name) (s_fields s) of
                     None \<Rightarrow> Ok True
                   | Some index \<Rightarrow>
                       if f_column_type (s_fields s ! index) = Key then Ok True
                       else mapR (\<lambda>zm. zm \<noteq> None) (handle_zone_map h index))
                else Ok True
            | KeyEquals _ _ _ \<Rightarrow> Ok True
            | KeyIn _ _ _ \<Rightarrow> Ok True
            | KeyLike _ _ _ \<Rightarrow> Ok True
            | PNot _ \<Rightarrow> Ok True)"

declare can_match.simps [simp del]

section \<open>Kleene's logic\<close>

text \<open>
  The three truth values in their order: AND is the minimum, OR the maximum, and NOT turns
  the order round.
\<close>

datatype truth = FF | UU | TT

fun truth_rank :: "truth \<Rightarrow> nat" where
  "truth_rank FF = 0"
| "truth_rank UU = 1"
| "truth_rank TT = 2"

lemma truth_rank_inject [simp]: "truth_rank a = truth_rank b \<longleftrightarrow> a = b"
  by (cases a; cases b) simp_all

instantiation truth :: linorder
begin

definition less_eq_truth :: "truth \<Rightarrow> truth \<Rightarrow> bool" where
  "less_eq_truth a b \<longleftrightarrow> truth_rank a \<le> truth_rank b"

definition less_truth :: "truth \<Rightarrow> truth \<Rightarrow> bool" where
  "less_truth a b \<longleftrightarrow> truth_rank a < truth_rank b"

instance
  by standard (auto simp: less_eq_truth_def less_truth_def)

end

fun truth_not :: "truth \<Rightarrow> truth" where
  "truth_not FF = TT"
| "truth_not UU = UU"
| "truth_not TT = FF"

definition truth_of :: "bool \<Rightarrow> bool \<Rightarrow> truth" where
  "truth_of valid holds = (if valid then (if holds then TT else FF) else UU)"

lemma truth_min_max:
  "min a b = TT \<longleftrightarrow> a = TT \<and> b = TT" "min a b = FF \<longleftrightarrow> a = FF \<or> b = FF"
  "max a b = TT \<longleftrightarrow> a = TT \<or> b = TT" "max a b = FF \<longleftrightarrow> a = FF \<and> b = FF"
  by (cases a; cases b; simp add: min_def max_def less_eq_truth_def)+

lemma truth_not_eq: "truth_not a = TT \<longleftrightarrow> a = FF" "truth_not a = FF \<longleftrightarrow> a = TT"
  by (cases a; simp)+

lemma truth_of_eq: "truth_of v h = TT \<longleftrightarrow> v \<and> h" "truth_of v h = FF \<longleftrightarrow> v \<and> \<not> h"
  by (simp_all add: truth_of_def)

section \<open>The meaning of a predicate on one row\<close>

fun cell_compare :: "cmp_op \<Rightarrow> number \<Rightarrow> row_value \<Rightarrow> truth" where
  "cell_compare op target (RvF64 x) = truth_of True (holds_f64 op x (number_as_f64 target))"
| "cell_compare op (NumInt t) (RvI64 x) = truth_of True (op_holds op x t)"
| "cell_compare op (NumFloat t) (RvI64 x) = truth_of True (holds_ordering op (cmp_i64_f64 x t))"
| "cell_compare op target _ = UU"

fun cell_test :: "(rstring \<Rightarrow> bool) \<Rightarrow> bool \<Rightarrow> row_value \<Rightarrow> truth" where
  "cell_test matches negated (RvKey key) = truth_of True (matches key \<noteq> negated)"
| "cell_test matches negated _ = UU"

text \<open>The position of a stored row among the live ones.\<close>

definition live_index :: "segment_view \<Rightarrow> nat \<Rightarrow> nat" where
  "live_index view row = length (filter id (take row (liveness view)))"

definition cell_at :: "schema \<Rightarrow> segment_view \<Rightarrow> rstring \<Rightarrow> nat \<Rightarrow> row_value" where
  "cell_at s view name row =
     (case position (\<lambda>f. f_name f = name) (s_fields s) of
        Some index \<Rightarrow> column_cells (rb_columns (sg_batch (sv_segment view)) ! index) ! row
      | None \<Rightarrow> RvNull)"

definition expr_truth :: "segment_view \<Rightarrow> cmp_op \<Rightarrow> f64 list \<times> bool list \<Rightarrow> f64 list \<times> bool list \<Rightarrow> nat \<Rightarrow> truth" where
  "expr_truth view op l r row =
     (let k = live_index view row
      in truth_of (liveness view ! row \<and> snd l ! k \<and> snd r ! k) (holds_ordering op (cmp_f64 (fst l ! k) (fst r ! k))))"

fun row_truth :: "'x predicate \<Rightarrow> schema \<Rightarrow> segment_view \<Rightarrow> 'x scalar_eval \<Rightarrow> nat \<Rightarrow> truth" where
  "row_truth (Compare name op target) s view scalars row = cell_compare op target (cell_at s view name row)"
| "row_truth (CompareExpr l op r) s view scalars row =
     (case (scalars l, scalars r) of
        (Ok lvs, Ok rvs) \<Rightarrow> expr_truth view op lvs rvs row
      | _ \<Rightarrow> UU)"
| "row_truth (KeyEquals name key negated) s view scalars row =
     cell_test (\<lambda>v. v = key) negated (cell_at s view name row)"
| "row_truth (KeyLike name pattern negated) s view scalars row =
     cell_test (\<lambda>v. like_match pattern v = Some True) negated (cell_at s view name row)"
| "row_truth (IsNull name negated) s view scalars row =
     truth_of True ((cell_at s view name row = RvNull) \<noteq> negated)"
| "row_truth (KeyIn name keys negated) s view scalars row =
     cell_test (\<lambda>v. v \<in> set keys) negated (cell_at s view name row)"
| "row_truth (PAnd p q) s view scalars row = min (row_truth p s view scalars row) (row_truth q s view scalars row)"
| "row_truth (POr p q) s view scalars row = max (row_truth p s view scalars row) (row_truth q s view scalars row)"
| "row_truth (PNot p) s view scalars row = truth_not (row_truth p s view scalars row)"

text \<open>Name resolution and types, in evaluation order: the only errors there are.\<close>

definition check_column :: "schema \<Rightarrow> rstring \<Rightarrow> (column_type \<Rightarrow> bool) \<Rightarrow> (query_error, unit) outcome" where
  "check_column s name P =
     bindR (column_index s name) (\<lambda>index.
       if P (f_column_type (s_fields s ! index)) then Ok () else Err (TypeError name))"

fun predicate_check :: "'x predicate \<Rightarrow> schema \<Rightarrow> 'x scalar_eval \<Rightarrow> (query_error, unit) outcome" where
  "predicate_check (Compare name _ _) s scalars = check_column s name (\<lambda>ct. ct \<noteq> Key)"
| "predicate_check (CompareExpr l _ r) s scalars = bindR (scalars l) (\<lambda>_. mapR (\<lambda>_. ()) (scalars r))"
| "predicate_check (KeyEquals name _ _) s scalars = check_column s name (\<lambda>ct. ct = Key)"
| "predicate_check (KeyLike name _ _) s scalars = check_column s name (\<lambda>ct. ct = Key)"
| "predicate_check (KeyIn name _ _) s scalars = check_column s name (\<lambda>ct. ct = Key)"
| "predicate_check (IsNull name _) s scalars = check_column s name (\<lambda>_. True)"
| "predicate_check (PAnd p q) s scalars = bindR (predicate_check p s scalars) (\<lambda>_. predicate_check q s scalars)"
| "predicate_check (POr p q) s scalars = bindR (predicate_check p s scalars) (\<lambda>_. predicate_check q s scalars)"
| "predicate_check (PNot p) s scalars = predicate_check p s scalars"

text \<open>A view of the table's schema, and an expression evaluator that answers for its live rows.\<close>

definition sview_ok :: "schema \<Rightarrow> segment_view \<Rightarrow> bool" where
  "sview_ok s view \<longleftrightarrow>
     batch_ok (sg_batch (sv_segment view)) \<and> rb_schema (sg_batch (sv_segment view)) = s \<and>
     (case sv_live view of None \<Rightarrow> True
      | Some bm \<Rightarrow> bitmap_ok bm \<and> bm_len bm = rb_num_rows (sg_batch (sv_segment view)))"

definition scalars_ok :: "segment_view \<Rightarrow> 'x scalar_eval \<Rightarrow> bool" where
  "scalars_ok view scalars \<longleftrightarrow>
     (\<forall>x xs vs. scalars x = Ok (xs, vs) \<longrightarrow>
        length xs = length (filter id (liveness view)) \<and> length vs = length (filter id (liveness view)))"

section \<open>Evaluation computes the meaning\<close>

definition three_of :: "truth list \<Rightarrow> three_valued" where
  "three_of ts = \<lparr>tv_truth = from_bools (map (\<lambda>t. t = TT) ts),
     tv_falsity = from_bools (map (\<lambda>t. t = FF) ts)\<rparr>"

lemma three_of_ops:
  "length a = length b \<Longrightarrow> tv_and (three_of a) (three_of b) = Ok (three_of (map2 min a b))"
  "length a = length b \<Longrightarrow> tv_or (three_of a) (three_of b) = Ok (three_of (map2 max a b))"
  "tv_not (three_of a) = three_of (map truth_not a)"
  by (auto simp: tv_and_def tv_or_def tv_not_def three_of_def bm.conj_eq bm.disj_eq zip_map_map comp_def
      case_prod_unfold truth_min_max truth_not_eq intro!: arg_cong [of _ _ from_bools])

lemma leaf_resultI:
  assumes "\<And>row. row < rows \<Longrightarrow> verdict row = (Ok (valid row, holds row) :: ('e, _) outcome)"
    and "\<And>row. row < rows \<Longrightarrow> truth_of (valid row) (holds row) = t row"
  shows "leaf_result rows verdict = (Ok (three_of (map t [0..<rows])) :: ('e, _) outcome)"
proof -
  have "traverseR verdict [0..<rows] = (Ok (map (\<lambda>row. (valid row, holds row)) [0..<rows]) :: ('e, _) outcome)"
    using assms(1) by (intro traverseR_Ok) simp
  moreover have "three_of (map t [0..<rows]) = three_of (map (\<lambda>row. truth_of (valid row) (holds row)) [0..<rows])"
    using assms(2) by (intro arg_cong [of _ _ three_of]) simp
  ultimately show ?thesis by (simp add: leaf_result_def three_of_def comp_def truth_of_eq)
qed

lemma position_Some: "position P xs = Some i \<Longrightarrow> i < length xs \<and> P (xs ! i)"
  by (induction xs arbitrary: i) (auto split: if_splits)

lemma position_None: "position P xs = None \<longleftrightarrow> (\<forall>x\<in>set xs. \<not> P x)"
  by (induction xs) auto

lemma sview_column:
  assumes "sview_ok s view" "position (\<lambda>f. f_name f = name) (s_fields s) = Some index"
  defines "batch \<equiv> sg_batch (sv_segment view)"
  shows "index < length (rb_columns batch)" "col_type (rb_columns batch ! index) = f_column_type (s_fields s ! index)"
    "column_ok (rb_columns batch ! index)" "col_len (rb_columns batch ! index) = rb_num_rows batch"
    "cell_at s view name row = column_cells (rb_columns batch ! index) ! row"
proof -
  have "index < length (s_fields s)" using position_Some [OF assms(2)] by simp
  then have b: "index < length (rb_columns batch) \<and> binding_ok (rb_num_rows batch) (s_fields s ! index) (rb_columns batch ! index)
      \<and> column_ok (rb_columns batch ! index)"
    using assms(1) by (auto simp: sview_ok_def batch_ok_def batch_def list_all2_conv_all_nth)
  then show "index < length (rb_columns batch)" "col_type (rb_columns batch ! index) = f_column_type (s_fields s ! index)"
    "column_ok (rb_columns batch ! index)" "col_len (rb_columns batch ! index) = rb_num_rows batch"
    by (simp_all add: binding_ok_def)
  show "cell_at s view name row = column_cells (rb_columns batch ! index) ! row"
    using assms(2) by (simp add: cell_at_def batch_def)
qed

text \<open>A cell is null exactly where its column says so.\<close>

lemma column_cell:
  assumes "column_ok col" "row < col_len col"
  shows "col_is_valid col row = (Ok (column_cells col ! row \<noteq> RvNull) :: ('e, bool) outcome)"
proof -
  have "col_presence col ! row \<longleftrightarrow> column_cells col ! row \<noteq> RvNull"
    using assms by (cases col rule: column_cells.cases) (simp_all add: col_presence_def nc_len_def kc_len_def)
  then show ?thesis using col_is_valid_presence [OF assms] by simp
qed

lemma numeric_cell:
  assumes "column_ok (Numeric n)" "row < nc_len (nd_column n)"
  shows "column_cells (Numeric n) ! row \<noteq> RvNull \<Longrightarrow>
    column_cells (Numeric n) ! row = (case n of NF64 c \<Rightarrow> RvF64 (nc_values c ! row) | NI64 c \<Rightarrow> RvI64 (nc_values c ! row))"
  using assms by (cases n) (auto simp: nc_len_def split: if_splits)

lemma compare_leaf:
  assumes "sview_ok s view" "position (\<lambda>f. f_name f = name) (s_fields s) = Some index"
    "f_column_type (s_fields s ! index) \<noteq> Key"
  shows "evaluate_3vl (Compare name op target) s view scalars =
    Ok (three_of (map (\<lambda>row. cell_compare op target (cell_at s view name row))
      [0..<rb_num_rows (sg_batch (sv_segment view))]))"
proof -
  let ?batch = "sg_batch (sv_segment view)"
  note col = sview_column [OF assms(1,2)]
  let ?col = "rb_columns ?batch ! index" and ?rows = "rb_num_rows ?batch"
  have idx: "column_index s name = Ok index" "element_at (rb_columns ?batch) index = (Ok ?col :: (query_error, _) outcome)"
    using assms(2) col(1) by (simp_all add: column_index_def element_at_def)
  have "?col \<noteq> KeyCol k" for k using col(2) assms(3) by auto
  then obtain n where n: "?col = Numeric n" by (cases ?col) auto
  let ?c = "nd_column n"
  have len: "nc_len ?c = ?rows" using col(4) n by simp
  have valid: "nc_is_valid ?c row = (Ok (column_cells ?col ! row \<noteq> RvNull) :: (query_error, bool) outcome)"
    and val: "element_at (nc_values ?c) row = (Ok (nc_values ?c ! row) :: (query_error, _) outcome)" if "row < ?rows" for row
    using column_cell [where ?'e = query_error, OF col(3), of row] that len n by (simp_all add: element_at_def nc_len_def)
  have rows: "column_cells ?col ! row \<noteq> RvNull \<Longrightarrow> column_cells ?col ! row =
      (case n of NF64 c \<Rightarrow> RvF64 (nc_values c ! row) | NI64 c \<Rightarrow> RvI64 (nc_values c ! row))" if "row < ?rows" for row
    using numeric_cell [of n row] col(3) len that unfolding n by simp
  show ?thesis
  proof (cases n)
    case (NF64 c)
    show ?thesis
      unfolding evaluate_3vl.simps idx bindR.simps n NF64 column.case numeric_data.case Let_def
    proof (rule leaf_resultI)
      fix row assume r: "row < ?rows"
      show "bindR (nc_is_valid c row) (\<lambda>valid. mapR (\<lambda>x. (valid, holds_f64 op x (number_as_f64 target)))
          (element_at (nc_values c) row)) =
        (Ok (column_cells ?col ! row \<noteq> RvNull, holds_f64 op (nc_values c ! row) (number_as_f64 target)) :: (query_error, _) outcome)"
        using valid [OF r] val [OF r] NF64 by simp
      show "truth_of (column_cells ?col ! row \<noteq> RvNull) (holds_f64 op (nc_values c ! row) (number_as_f64 target)) =
          cell_compare op target (cell_at s view name row)"
        using rows [OF r] NF64 unfolding col(5)
        by (cases "column_cells ?col ! row = RvNull") (auto simp: truth_of_def)
    qed
  next
    case (NI64 c)
    let ?holds = "\<lambda>x. case target of NumInt t \<Rightarrow> op_holds op x t | NumFloat t \<Rightarrow> holds_ordering op (cmp_i64_f64 x t)"
    show ?thesis
      unfolding evaluate_3vl.simps idx bindR.simps n NI64 column.case numeric_data.case Let_def
    proof (rule leaf_resultI)
      fix row assume r: "row < ?rows"
      show "bindR (element_at (nc_values c) row) (\<lambda>x. mapR (\<lambda>valid. (valid, ?holds x)) (nc_is_valid c row)) =
        (Ok (column_cells ?col ! row \<noteq> RvNull, ?holds (nc_values c ! row)) :: (query_error, _) outcome)"
        using valid [OF r] val [OF r] NI64 by simp
      show "truth_of (column_cells ?col ! row \<noteq> RvNull) (?holds (nc_values c ! row)) =
          cell_compare op target (cell_at s view name row)"
        using rows [OF r] NI64 unfolding col(5)
        by (cases "column_cells ?col ! row = RvNull"; cases target) (auto simp: truth_of_def)
    qed
  qed
qed

lemma null_leaf:
  assumes "sview_ok s view" "position (\<lambda>f. f_name f = name) (s_fields s) = Some index"
  shows "evaluate_3vl (IsNull name negated) s view scalars =
    Ok (three_of (map (\<lambda>row. truth_of True ((cell_at s view name row = RvNull) \<noteq> negated))
      [0..<rb_num_rows (sg_batch (sv_segment view))]))"
proof -
  let ?batch = "sg_batch (sv_segment view)"
  note col = sview_column [OF assms]
  let ?col = "rb_columns ?batch ! index" and ?rows = "rb_num_rows ?batch"
  have idx: "column_index s name = Ok index" "element_at (rb_columns ?batch) index = (Ok ?col :: (query_error, _) outcome)"
    using assms(2) col(1) by (simp_all add: column_index_def element_at_def)
  show ?thesis
    unfolding evaluate_3vl.simps idx bindR.simps
  proof (rule leaf_resultI)
    fix row assume "row < ?rows"
    then show "mapR (\<lambda>valid. (True, valid = negated)) (col_is_valid ?col row) =
        (Ok (True, (column_cells ?col ! row \<noteq> RvNull) = negated) :: (query_error, _) outcome)"
      using col(4) by (simp add: column_cell [OF col(3), of row])
    show "truth_of True ((column_cells ?col ! row \<noteq> RvNull) = negated) =
        truth_of True ((cell_at s view name row = RvNull) \<noteq> negated)"
      unfolding col(5) by (auto simp: truth_of_def)
  qed
qed

text \<open>A dictionary has fewer entries than a code can name.\<close>

lemma distinct_length_concat: "distinct vs \<Longrightarrow> length vs \<le> Suc (length (concat vs))"
proof -
  assume d: "distinct vs"
  have "length (filter (\<lambda>v. v \<noteq> []) vs) \<le> length (concat vs)"
  proof (induction vs)
    case (Cons v vs)
    then show ?case by (cases v) auto
  qed simp
  moreover have "length (filter (\<lambda>v. v = []) vs) \<le> 1"
    using d by (metis (mono_tags, lifting) One_nat_def Suc_leI card_mono distinct_card distinct_filter finite.emptyI
        finite.insertI is_singletonI is_singleton_altdef less_Suc_eq_le mem_Collect_eq set_filter singletonI subsetI)
  moreover have "length vs = length (filter (\<lambda>v. v \<noteq> []) vs) + length (filter (\<lambda>v. v = []) vs)"
    using sum_length_filter_compl [of "\<lambda>v. v \<noteq> []" vs] by simp
  ultimately show ?thesis by linarith
qed

lemma dict_ok_len: "dict_ok d \<Longrightarrow> dict_len d < 2 ^ 32"
  using distinct_length_concat [of "dict_names d"] by (auto simp: dict_ok_def dict_fits_def)

lemma key_leaf:
  assumes "sview_ok s view" "position (\<lambda>f. f_name f = name) (s_fields s) = Some index"
    "f_column_type (s_fields s ! index) = Key"
  shows "key_predicate s view name negated matches =
    Ok (three_of (map (\<lambda>row. cell_test matches negated (cell_at s view name row))
      [0..<rb_num_rows (sg_batch (sv_segment view))]))"
proof -
  let ?batch = "sg_batch (sv_segment view)"
  note col = sview_column [OF assms(1,2)]
  let ?col = "rb_columns ?batch ! index" and ?rows = "rb_num_rows ?batch"
  have idx: "column_index s name = Ok index" "element_at (rb_columns ?batch) index = (Ok ?col :: (query_error, _) outcome)"
    using assms(2) col(1) by (simp_all add: column_index_def element_at_def)
  obtain keys where k: "?col = KeyCol keys"
    using col(2) assms(3) by (cases ?col rule: col_type.cases) auto
  let ?d = "kc_dictionary keys"
  let ?allowed = "map (\<lambda>key. matches key \<noteq> negated) (dict_names ?d)"
  have ok: "dict_ok ?d" "kc_len keys = ?rows" "\<forall>c\<in>set (kc_codes keys). unat c < dict_len ?d"
    using col(3,4) k by simp_all
  have n: "unat (word_of_nat (dict_len ?d) :: u32) = dict_len ?d"
    using dict_ok_len [OF ok(1)] by (simp add: unat_of_nat)
  have small: "unat (word_of_nat code :: u32) = code" if "code < dict_len ?d" for code
    using that dict_ok_len [OF ok(1)] by (simp add: unat_of_nat)
  have "traverseR (\<lambda>code. mapR (\<lambda>key. matches key \<noteq> negated) (dict_value ?d (word_of_nat code))) [0..<dict_len ?d] =
      (Ok (map (\<lambda>code. matches (dict_names ?d ! code) \<noteq> negated) [0..<dict_len ?d]) :: (query_error, _) outcome)"
    using small by (intro traverseR_Ok) (simp add: dict_ok_value [OF ok(1)])
  also have "map (\<lambda>code. matches (dict_names ?d ! code) \<noteq> negated) [0..<dict_len ?d] = ?allowed"
    by (intro nth_equalityI) simp_all
  finally have allowed: "traverseR (\<lambda>code. mapR (\<lambda>key. matches key \<noteq> negated) (dict_value ?d (word_of_nat code)))
      [0..<dict_len ?d] = (Ok ?allowed :: (query_error, _) outcome)" .
  show ?thesis
    unfolding key_predicate_def idx bindR.simps k column.case Let_def n allowed ok(2)
  proof (rule leaf_resultI)
    fix row assume r: "row < ?rows"
    then have code: "row < length (kc_codes keys)" "unat (kc_codes keys ! row) < dict_len ?d"
      using ok(2,3) by (simp_all add: kc_len_def)
    have "kc_is_valid keys row = (Ok (column_cells ?col ! row \<noteq> RvNull) :: (query_error, bool) outcome)"
      using column_cell [where ?'e = query_error, OF col(3), of row] col(4) r k by simp
    then show "bindR (kc_is_valid keys row) (\<lambda>valid. bindR (element_at (kc_codes keys) row) (\<lambda>code.
          mapR (\<lambda>holds. (valid, holds)) (element_at ?allowed (unat code)))) =
        (Ok (column_cells ?col ! row \<noteq> RvNull, matches (dict_names ?d ! unat (kc_codes keys ! row)) \<noteq> negated)
          :: (query_error, _) outcome)"
      using code by (simp add: element_at_def)
    show "truth_of (column_cells ?col ! row \<noteq> RvNull) (matches (dict_names ?d ! unat (kc_codes keys ! row)) \<noteq> negated) =
        cell_test matches negated (cell_at s view name row)"
      unfolding col(5) k using code col(3) k by (auto simp: truth_of_def kc_len_def)
  qed
qed

lemma live_index_Suc:
  "row < length (liveness view) \<Longrightarrow>
   live_index view (Suc row) = live_index view row + (if liveness view ! row then 1 else 0)"
  by (simp add: live_index_def take_Suc_conv_app_nth)

lemma live_index_less:
  assumes "row < length (liveness view)" "liveness view ! row"
  shows "live_index view row < length (filter id (liveness view))"
proof -
  have "liveness view = take row (liveness view) @ liveness view ! row # drop (Suc row) (liveness view)"
    using assms(1) by (rule id_take_nth_drop)
  from arg_cong [OF this, of "\<lambda>l. length (filter id l)"] show ?thesis using assms(2) by (simp add: live_index_def)
qed

lemma sview_live:
  assumes "sview_ok s view" "row < rb_num_rows (sg_batch (sv_segment view))"
  shows "sv_is_live view row = (Ok (liveness view ! row) :: ('e, bool) outcome)"
    "length (liveness view) = rb_num_rows (sg_batch (sv_segment view))"
  using assms by (auto simp: sview_ok_def sv_is_live_def liveness_def bm_get_bits split: option.splits)

lemma expr_loop:
  assumes "sview_ok s view" "n \<le> rb_num_rows (sg_batch (sv_segment view))"
    and l: "length (fst l) = length (filter id (liveness view))" "length (snd l) = length (filter id (liveness view))"
    and r: "length (fst r) = length (filter id (liveness view))" "length (snd r) = length (filter id (liveness view))"
  shows "foldR (compare_step view op l r) ([], 0) [0..<n] =
    (Ok (map (\<lambda>row. let k = live_index view row in
       if liveness view ! row then (snd l ! k \<and> snd r ! k, holds_ordering op (cmp_f64 (fst l ! k) (fst r ! k)))
       else (False, False)) [0..<n], live_index view n) :: ('e, _) outcome)"
  using assms(2)
proof (induction n)
  case 0
  then show ?case by (simp add: live_index_def)
next
  case (Suc n)
  then have n: "n < rb_num_rows (sg_batch (sv_segment view))" by simp
  note live = sview_live(1) [where ?'e = 'e, OF assms(1) n] sview_live(2) [OF assms(1) n]
  show ?case
    using Suc.IH n l r live live_index_less [of n view] live_index_Suc [of n view]
    by (cases "liveness view ! n") (simp_all add: foldR_append compare_step_def element_at_def Let_def)
qed

lemma expr_leaf:
  assumes "sview_ok s view" "scalars_ok view scalars" "scalars l = Ok lvs" "scalars r = Ok rvs"
  shows "evaluate_3vl (CompareExpr l op r) s view scalars =
    Ok (three_of (map (expr_truth view op lvs rvs) [0..<rb_num_rows (sg_batch (sv_segment view))]))"
proof -
  let ?rows = "rb_num_rows (sg_batch (sv_segment view))"
  have len: "length (fst lvs) = length (filter id (liveness view))" "length (snd lvs) = length (filter id (liveness view))"
    "length (fst rvs) = length (filter id (liveness view))" "length (snd rvs) = length (filter id (liveness view))"
    using assms(2-4) by (cases lvs; cases rvs; simp add: scalars_ok_def)+
  show ?thesis
    unfolding evaluate_3vl.simps assms(3,4) bindR.simps Let_def expr_loop [OF assms(1) order_refl len] prod.case
  proof (rule leaf_resultI)
    fix row assume "row < ?rows"
    then show "element_at (map (\<lambda>row.
         if liveness view ! row then (snd lvs ! live_index view row \<and> snd rvs ! live_index view row,
           holds_ordering op (cmp_f64 (fst lvs ! live_index view row) (fst rvs ! live_index view row)))
         else (False, False)) [0..<?rows]) row =
       (Ok (liveness view ! row \<and> snd lvs ! live_index view row \<and> snd rvs ! live_index view row,
            liveness view ! row \<and> holds_ordering op (cmp_f64 (fst lvs ! live_index view row) (fst rvs ! live_index view row)))
         :: (query_error, _) outcome)"
      by (simp add: element_at_def Let_def)
    show "truth_of (liveness view ! row \<and> snd lvs ! live_index view row \<and> snd rvs ! live_index view row)
        (liveness view ! row \<and> holds_ordering op (cmp_f64 (fst lvs ! live_index view row) (fst rvs ! live_index view row))) =
        expr_truth view op lvs rvs row"
      by (auto simp: expr_truth_def truth_of_def Let_def)
  qed
qed

text \<open>A failed check is the evaluation's error, a passed one its result.\<close>

lemma check_column_cases:
  assumes "sview_ok s view"
  obtains index where "column_index s name = Ok index" "position (\<lambda>f. f_name f = name) (s_fields s) = Some index"
    "element_at (rb_columns (sg_batch (sv_segment view))) index =
      (Ok (rb_columns (sg_batch (sv_segment view)) ! index) :: (query_error, _) outcome)"
    "col_type (rb_columns (sg_batch (sv_segment view)) ! index) = f_column_type (s_fields s ! index)"
  | "column_index s name = Err (no_such_column name)"
  using sview_column(1,2) [OF assms]
  by (cases "position (\<lambda>f. f_name f = name) (s_fields s)") (auto simp: column_index_def element_at_def)

lemma key_check:
  assumes "sview_ok s view"
  shows "key_predicate s view name negated matches =
    bindR (check_column s name (\<lambda>ct. ct = Key)) (\<lambda>_.
      Ok (three_of (map (\<lambda>row. cell_test matches negated (cell_at s view name row))
        [0..<rb_num_rows (sg_batch (sv_segment view))])))"
proof (cases rule: check_column_cases [OF assms, of name])
  case (1 index)
  show ?thesis
  proof (cases "f_column_type (s_fields s ! index) = Key")
    case True
    then show ?thesis using key_leaf [OF assms 1(2) True] 1(1) by (simp add: check_column_def)
  next
    case False
    then obtain n where "rb_columns (sg_batch (sv_segment view)) ! index = Numeric n"
      using 1(4) by (cases "rb_columns (sg_batch (sv_segment view)) ! index" rule: col_type.cases) auto
    then show ?thesis using 1 False by (simp add: check_column_def key_predicate_def)
  qed
qed (simp add: check_column_def key_predicate_def)

lemma compare_check:
  assumes "sview_ok s view"
  shows "evaluate_3vl (Compare name op target) s view scalars =
    bindR (check_column s name (\<lambda>ct. ct \<noteq> Key)) (\<lambda>_.
      Ok (three_of (map (\<lambda>row. cell_compare op target (cell_at s view name row))
        [0..<rb_num_rows (sg_batch (sv_segment view))])))"
proof (cases rule: check_column_cases [OF assms, of name])
  case (1 index)
  show ?thesis
  proof (cases "f_column_type (s_fields s ! index) = Key")
    case True
    then obtain k where "rb_columns (sg_batch (sv_segment view)) ! index = KeyCol k"
      using 1(4) by (cases "rb_columns (sg_batch (sv_segment view)) ! index" rule: col_type.cases) auto
    then show ?thesis using 1 True by (simp add: check_column_def)
  next
    case False
    then show ?thesis using compare_leaf [OF assms 1(2) False] 1(1) by (simp add: check_column_def del: evaluate_3vl.simps)
  qed
qed (simp add: check_column_def)

lemma null_check:
  assumes "sview_ok s view"
  shows "evaluate_3vl (IsNull name negated) s view scalars =
    bindR (check_column s name (\<lambda>_. True)) (\<lambda>_.
      Ok (three_of (map (\<lambda>row. truth_of True ((cell_at s view name row = RvNull) \<noteq> negated))
        [0..<rb_num_rows (sg_batch (sv_segment view))])))"
proof (cases rule: check_column_cases [OF assms, of name])
  case (1 index)
  then show ?thesis using null_leaf [OF assms 1(2)] by (simp add: check_column_def del: evaluate_3vl.simps)
qed (simp add: check_column_def)

lemma evaluate_3vl_eq:
  assumes "sview_ok s view" "scalars_ok view scalars"
  shows "evaluate_3vl p s view scalars =
    bindR (predicate_check p s scalars) (\<lambda>_.
      Ok (three_of (map (row_truth p s view scalars) [0..<rb_num_rows (sg_batch (sv_segment view))])))"
proof (induction p)
  case (Compare name op target)
  show ?case unfolding predicate_check.simps compare_check [OF assms(1)] row_truth.simps ..
next
  case (CompareExpr l op r)
  show ?case
  proof (cases "scalars l"; cases "scalars r")
    fix lvs rvs assume ok: "scalars l = Ok lvs" "scalars r = Ok rvs"
    show ?thesis using ok by (simp add: expr_leaf [OF assms ok] del: evaluate_3vl.simps)
  qed simp_all
next
  case (KeyEquals name key negated)
  show ?case unfolding evaluate_3vl.simps key_membership_def predicate_check.simps key_check [OF assms(1)] row_truth.simps
    by (simp add: eq_commute [of key])
next
  case (KeyLike name pattern negated)
  show ?case unfolding evaluate_3vl.simps predicate_check.simps key_check [OF assms(1)] row_truth.simps ..
next
  case (IsNull name negated)
  show ?case unfolding predicate_check.simps null_check [OF assms(1)] row_truth.simps ..
next
  case (KeyIn name keys negated)
  have "list_ex (\<lambda>v. v = key) keys \<longleftrightarrow> key \<in> set keys" for key by (auto simp: list_ex_iff)
  then show ?case unfolding evaluate_3vl.simps key_membership_def predicate_check.simps key_check [OF assms(1)] row_truth.simps
    by simp
next
  case (PAnd p q)
  show ?case
    by (cases "predicate_check p s scalars"; cases "predicate_check q s scalars")
      (simp_all add: PAnd three_of_ops map2_map_map del: map_map)
next
  case (POr p q)
  show ?case
    by (cases "predicate_check p s scalars"; cases "predicate_check q s scalars")
      (simp_all add: POr three_of_ops map2_map_map del: map_map)
next
  case (PNot p)
  show ?case
    by (cases "predicate_check p s scalars") (simp_all add: PNot three_of_ops comp_def)
qed

section \<open>Pruning is sound\<close>

lemma f64_le_rank: "f64_le x y \<Longrightarrow> f64_rank x \<le> f64_rank y"
  using f64_key_less_iff [of y x] by (simp add: f64_le_def f64_rank_def not_less [symmetric])

lemma f64_nan_rank: "f64_is_nan x \<Longrightarrow> \<not> f64_is_nan t \<Longrightarrow> f64_rank t < f64_rank x"
  using f64_scaled_less [of t] by (simp add: f64_rank_def)

lemma valid_value_cell:
  assumes "column_ok (Numeric n)" "row < nc_len (nd_column n)" "column_cells (Numeric n) ! row \<noteq> RvNull"
  shows "nc_values (nd_column n) ! row \<in> set (valid_values (nd_column n))"
proof -
  let ?c = "nd_column n"
  let ?p = "presence (nc_len ?c) (nc_validity ?c)"
  have "length ?p = nc_len ?c" "?p ! row"
    using assms by (cases n; auto simp: nc_len_def split: if_splits)+
  then have "(nc_values ?c ! row, True) \<in> set (zip (nc_values ?c) ?p)"
    using assms(2) by (auto simp: set_zip nc_len_def)
  then show ?thesis by (force simp: valid_values_def)
qed

lemma zone_f64_sound:
  assumes "zone_bounds (Some (ZF64 lo hi nan)) (Numeric (NF64 c))" "x \<in> set (valid_values c)"
    "holds_f64 op x (number_as_f64 target)"
  shows "zone_may_hold op (ZF64 lo hi nan) target"
proof (cases "f64_is_nan (number_as_f64 target)")
  case False
  let ?t = "number_as_f64 target"
  have x: "nan \<and> f64_rank ?t < f64_rank x \<or> f64_rank lo \<le> f64_rank x \<and> f64_rank x \<le> f64_rank hi"
    using assms(1,2) False f64_nan_rank [of x ?t] f64_le_rank [of lo x] f64_le_rank [of x hi] by auto
  show ?thesis
    using False x assms(3)
    by (cases op) (auto simp: holds_f64_def cmp_f64_rank ordering_of_def split: if_splits)
qed simp

lemma zone_i64_sound:
  assumes "zone_bounds (Some (ZI64 lo hi)) (Numeric (NI64 c))" "x \<in> set (valid_values c)"
    "case target of NumInt t \<Rightarrow> op_holds op x t | NumFloat t \<Rightarrow> holds_ordering op (cmp_i64_f64 x t)"
  shows "zone_may_hold op (ZI64 lo hi) target"
proof (cases target)
  case (NumInt t)
  have "sint lo \<le> sint x" "sint x \<le> sint hi" using assms(1,2) by auto
  moreover have "x = t" if "sint x = sint t" using that by (rule signed_word_eqI)
  ultimately show ?thesis
    using assms(3) NumInt by (cases op) (auto simp: interval_may_hold_def)
qed simp

text \<open>What a handle's metadata must say of the segment for pruning to be allowed.\<close>

definition handle_describes :: "segment_handle \<Rightarrow> segment \<Rightarrow> bool" where
  "handle_describes h seg \<longleftrightarrow> sl_meta (sh_slot h) = Some (meta_of seg) \<and>
     (zone_maps_present seg \<longrightarrow>
        (\<forall>j<length (rb_columns (sg_batch seg)). zone_bounds (sg_zone_map seg j) (rb_columns (sg_batch seg) ! j)))"

lemma handle_describes_zone:
  assumes "handle_describes h seg" "handle_zone_maps_present h = (Ok True :: ('e, bool) outcome)"
    "j < length (rb_columns (sg_batch seg))"
  shows "handle_zone_map h j = (Ok (sg_zone_map seg j) :: ('f, _) outcome)"
    "zone_bounds (sg_zone_map seg j) (rb_columns (sg_batch seg) ! j)"
proof -
  have m: "sl_meta (sh_slot h) = Some (meta_of seg)" using assms(1) by (simp add: handle_describes_def)
  have "zone_maps_present seg"
    using assms(2,3) m by (auto simp: handle_zone_maps_present_def slot_meta_def meta_of_def split: if_splits)
  then show "handle_zone_map h j = (Ok (sg_zone_map seg j) :: ('f, _) outcome)"
    "zone_bounds (sg_zone_map seg j) (rb_columns (sg_batch seg) ! j)"
    using assms(1,3) m by (simp_all add: handle_describes_def handle_zone_map_def slot_meta_def meta_of_def)
qed

lemma compare_prune:
  assumes ok: "sview_ok s view" "handle_describes h (sv_segment view)"
    and pos: "position (\<lambda>f. f_name f = name) (s_fields s) = Some index"
    and row: "row < rb_num_rows (sg_batch (sv_segment view))"
    and present: "handle_zone_maps_present h = (Ok True :: ('e, bool) outcome)"
    and type: "f_column_type (s_fields s ! index) \<noteq> Key"
    and holds: "cell_at s view name row \<noteq> RvNull"
  obtains n zone x where "handle_zone_map h index = (Ok (Some zone) :: ('e, _) outcome)"
    "zone_bounds (Some zone) (Numeric n)" "x \<in> set (valid_values (nd_column n))"
    "cell_at s view name row = (case n of NF64 c \<Rightarrow> RvF64 x | NI64 c \<Rightarrow> RvI64 x)"
proof -
  let ?seg = "sv_segment view"
  note col = sview_column [OF ok(1) pos]
  let ?col = "rb_columns (sg_batch ?seg) ! index"
  obtain n where n: "?col = Numeric n" using col(2) type by (cases ?col rule: col_type.cases) auto
  have len: "row < nc_len (nd_column n)" using col(4) row n by simp
  have cell: "column_cells (Numeric n) ! row \<noteq> RvNull" using holds col(5) n by simp
  have ok_n: "column_ok (Numeric n)" using col(3) n by simp
  let ?x = "nc_values (nd_column n) ! row"
  have x: "?x \<in> set (valid_values (nd_column n))" by (rule valid_value_cell [OF ok_n len cell])
  have c: "cell_at s view name row = (case n of NF64 c \<Rightarrow> RvF64 ?x | NI64 c \<Rightarrow> RvI64 ?x)"
    using numeric_cell [OF ok_n len cell] col(5) [of row] n by (cases n) simp_all
  note zm = handle_describes_zone(2) [OF ok(2) present col(1)]
  have "sg_zone_map ?seg index \<noteq> None"
  proof
    assume "sg_zone_map ?seg index = None"
    then show False using zm x unfolding n by simp
  qed
  then obtain zone where z: "sg_zone_map ?seg index = Some zone" by blast
  have "handle_zone_map h index = (Ok (Some zone) :: ('e, _) outcome)"
    using handle_describes_zone(1) [OF ok(2) present col(1)] z by simp
  then show ?thesis using that zm z n x c by metis
qed

lemma can_match_total:
  "sl_meta (sh_slot h) = Some m \<Longrightarrow> \<exists>b. can_match p s h = (Ok b :: ('e, bool) outcome)"
proof (induction p)
  case (PAnd p q)
  then obtain a b where "can_match p s h = (Ok a :: ('e, bool) outcome)" "can_match q s h = (Ok b :: ('e, bool) outcome)"
    by blast
  then show ?case
    using PAnd.prems by (subst can_match.simps) (cases a; auto simp: handle_zone_maps_present_def slot_meta_def)
next
  case (POr p q)
  then obtain a b where "can_match p s h = (Ok a :: ('e, bool) outcome)" "can_match q s h = (Ok b :: ('e, bool) outcome)"
    by blast
  then show ?case
    using POr.prems by (subst can_match.simps) (cases a; auto simp: handle_zone_maps_present_def slot_meta_def)
qed (subst can_match.simps, auto simp: handle_zone_maps_present_def handle_zone_map_def slot_meta_def split: option.split)+

lemma can_match_sound:
  assumes ok: "sview_ok s view" "handle_describes h (sv_segment view)"
    and row: "row < rb_num_rows (sg_batch (sv_segment view))"
    and truth: "row_truth p s view scalars row = TT"
  shows "can_match p s h = (Ok True :: ('e, bool) outcome)"
proof -
  have meta: "sl_meta (sh_slot h) = Some (meta_of (sv_segment view))" using ok(2) by (simp add: handle_describes_def)
  show ?thesis
  proof (cases "handle_zone_maps_present h = (Ok True :: ('e, bool) outcome)")
    case False
    then have "handle_zone_maps_present h = (Ok False :: ('e, bool) outcome)"
      using meta by (auto simp: handle_zone_maps_present_def slot_meta_def)
    then show ?thesis by (subst can_match.simps) simp
  next
    case present: True
    show ?thesis
      using truth
    proof (induction p)
      case (Compare name op target)
      show ?case
      proof (cases "position (\<lambda>f. f_name f = name) (s_fields s)")
        case (Some index)
        show ?thesis
        proof (cases "f_column_type (s_fields s ! index) = Key")
          case False
          have "cell_at s view name row \<noteq> RvNull" using Compare by auto
          from compare_prune [OF ok Some row present False this] obtain n zone x
            where z: "handle_zone_map h index = (Ok (Some zone) :: ('e, _) outcome)"
              "zone_bounds (Some zone) (Numeric n)" "x \<in> set (valid_values (nd_column n))"
              "cell_at s view name row = (case n of NF64 c \<Rightarrow> RvF64 x | NI64 c \<Rightarrow> RvI64 x)" by metis
          have "zone_may_hold op zone target"
          proof (cases n)
            case (NF64 c)
            then obtain lo hi nan where "zone = ZF64 lo hi nan" using z(2) by (cases zone) auto
            then show ?thesis
              using zone_f64_sound [of lo hi nan c x op target] z NF64 Compare by (simp add: truth_of_eq)
          next
            case (NI64 c)
            then obtain lo hi where "zone = ZI64 lo hi" using z(2) by (cases zone) auto
            then show ?thesis
              using zone_i64_sound [of lo hi c x op target] z NI64 Compare by (cases target) (simp_all add: truth_of_eq)
          qed
          then show ?thesis using present Some False z(1) by (subst can_match.simps) simp
        qed (use present Some in \<open>subst can_match.simps, simp\<close>)
      qed (use present in \<open>subst can_match.simps, simp\<close>)
    next
      case (IsNull name negated)
      show ?case
      proof (cases "position (\<lambda>f. f_name f = name) (s_fields s)")
        case (Some index)
        show ?thesis
        proof (cases "f_column_type (s_fields s ! index) = Key \<or> \<not> negated")
          case False
          then have "cell_at s view name row \<noteq> RvNull" using IsNull by (auto simp: truth_of_eq)
          from compare_prune [OF ok Some row present _ this] False
          obtain zone where "handle_zone_map h index = (Ok (Some zone) :: ('e, _) outcome)" by metis
          then show ?thesis using present Some by (subst can_match.simps) simp
        qed (use present Some in \<open>subst can_match.simps, auto\<close>)
      qed (use present in \<open>subst can_match.simps, simp\<close>)
    next
      case (PAnd p q)
      then show ?case using present by (subst can_match.simps) (simp add: truth_min_max)
    next
      case (POr p q)
      obtain b where "can_match p s h = (Ok b :: ('e, bool) outcome)" using can_match_total [OF meta] by blast
      then show ?case using POr present by (subst can_match.simps) (cases b; auto simp: truth_min_max)
    qed (use present in \<open>subst can_match.simps, simp\<close>)+
  qed
qed

section \<open>Properties\<close>

text \<open>
  C4: WHERE is Kleene's logic on the rows.  On a segment of the table's schema, and whatever
  its tombstones, \<open>evaluate\<close> reports exactly the first name or type error of the predicate
  tree; without one it returns the bitmap of the rows that the predicate makes true, judged
  cell by cell: the dictionary-coded key tests, the expression results indexed by live
  position, and the two bitmaps of every connective agree with the three-valued meaning.
\<close>
theorem evaluate_kleene:
  assumes "sview_ok s view" "scalars_ok view scalars"
  shows "evaluate p s view scalars =
    mapR (\<lambda>_. from_bools (map (\<lambda>row. row_truth p s view scalars row = TT)
      [0..<rb_num_rows (sg_batch (sv_segment view))])) (predicate_check p s scalars)"
  by (cases "predicate_check p s scalars")
    (simp_all add: evaluate_def evaluate_3vl_eq [OF assms] three_of_def comp_def)

definition sample_view :: segment_view where
  "sample_view = \<lparr>sv_segment = sample_segment, sv_live = Some (from_bools [True, False])\<rparr>"

lemma sample_view_ok:
  "sview_ok \<lparr>s_fields = [field_new (ascii ''t'') I64 False]\<rparr> sample_view"
  using segment_okD(1) [OF sample_segment_ok]
  by (simp add: sview_ok_def sample_view_def) (simp add: sample_segment_def)

theorem evaluate_kleene_witness:
  "evaluate (PAnd (Compare (ascii ''t'') CGt (NumInt 5)) (IsNull (ascii ''t'') True))
     \<lparr>s_fields = [field_new (ascii ''t'') I64 False]\<rparr> sample_view (\<lambda>_ :: unit. Err (Unsupported ''none'')) =
   Ok (from_bools [False, True])"
proof -
  have "scalars_ok sample_view (\<lambda>_ :: unit. Err (Unsupported ''none''))" by (simp add: scalars_ok_def)
  from evaluate_kleene [OF sample_view_ok this, of "PAnd (Compare (ascii ''t'') CGt (NumInt 5)) (IsNull (ascii ''t'') True)"]
  show ?thesis
    by (simp add: check_column_def column_index_def field_new_def cell_at_def sample_view_def sample_segment_def
        truth_of_def truth_min_max presence_def nc_len_def upt_rec)
qed

text \<open>
  C5: A skipped segment holds no match.  When the zone maps of a handle describe its segment
  and the pruning test rejects the segment, evaluation on any view of it, if the predicate
  is well typed, selects no row.
\<close>
theorem pruning_sound:
  assumes "sview_ok s view" "scalars_ok view scalars" "handle_describes h (sv_segment view)"
    and "can_match p s h = (Ok False :: (query_error, bool) outcome)" "evaluate p s view scalars = Ok bm"
  shows "iter_set bm = []"
proof -
  let ?rows = "rb_num_rows (sg_batch (sv_segment view))"
  have "row_truth p s view scalars row \<noteq> TT" if "row < ?rows" for row
    using can_match_sound [where ?'e = query_error, OF assms(1,3) that, of p scalars] assms(4) by auto
  moreover have "bm = from_bools (map (\<lambda>row. row_truth p s view scalars row = TT) [0..<?rows])"
    using assms(5) by (simp add: evaluate_def evaluate_3vl_eq [OF assms(1,2)] three_of_def comp_def)
  ultimately show ?thesis by (simp add: iter_set_bits)
qed

theorem pruning_sound_witness:
  "\<exists>bm. can_match (Compare (ascii ''t'') CGt (NumInt 9)) \<lparr>s_fields = [field_new (ascii ''t'') I64 False]\<rparr>
       (handle_resident sample_segment None) = (Ok False :: (query_error, bool) outcome) \<and>
     evaluate (Compare (ascii ''t'') CGt (NumInt 9)) \<lparr>s_fields = [field_new (ascii ''t'') I64 False]\<rparr>
       sample_view (\<lambda>_ :: unit. Err (Unsupported ''none'')) = Ok bm \<and> iter_set bm = []"
proof -
  let ?s = "\<lparr>s_fields = [field_new (ascii ''t'') I64 False]\<rparr>" and ?p = "Compare (ascii ''t'') CGt (NumInt 9)"
  let ?scalars = "\<lambda>_ :: unit. Err (Unsupported ''none'') :: (query_error, f64 list \<times> bool list) outcome"
  have sc: "scalars_ok sample_view ?scalars" by (simp add: scalars_ok_def)
  have describes: "handle_describes (handle_resident sample_segment None) (sv_segment sample_view)"
    by (simp add: handle_describes_def handle_resident_def slot_resident_def sample_view_def)
      (simp add: sample_segment_def sg_zone_map_def valid_values_def presence_def nc_len_def)
  have prune: "can_match ?p ?s (handle_resident sample_segment None) = (Ok False :: (query_error, bool) outcome)"
    by (subst can_match.simps)
      (simp add: handle_zone_maps_present_def handle_zone_map_def slot_meta_def handle_resident_def slot_resident_def
        meta_of_def zone_maps_present_def field_new_def sample_segment_def sg_zone_map_def interval_may_hold_def)
  have checked: "predicate_check ?p ?s ?scalars = Ok ()"
    by (simp add: check_column_def column_index_def field_new_def)
  obtain bm where "evaluate ?p ?s sample_view ?scalars = Ok bm"
    by (simp add: evaluate_def evaluate_3vl_eq [OF sample_view_ok sc] checked del: evaluate_3vl.simps predicate_check.simps)
  with pruning_sound [OF sample_view_ok sc describes prune this] prune show ?thesis by blast
qed

end
