(* ===== verification/Cache.thy ===== *)
theory Cache
  imports Views
begin

text \<open>
  The residency cache of \<^verbatim>\<open>src/storage_lite/store.rs\<close>: \<open>SegmentCache\<close> and the parts of
  \<open>SegmentSlot\<close> that account for it.  The slots alive are a map from identities to slots;
  the registry holds weak references, so an identity in it may be dead.  A slot's \<open>pins\<close>
  are the references to its decoded segment held outside the slot (\<open>Arc::strong_count\<close>
  beyond the slot's own).  What the code does under one lock is one step of a transition
  relation whose other steps are the readers': dropping a pin and dropping a slot.
\<close>

section \<open>State\<close>

record cached_slot =
  cd_slot :: segment_slot
  cd_bytes :: u64
  cd_last_touch :: u64
  cd_pins :: nat

record segment_cache =
  ca_budget :: "u64 option"
  ca_resident :: u64
  ca_clock :: u64
  ca_registry :: "nat list"
  ca_slots :: "nat \<rightharpoonup> cached_slot"

definition cache_new :: "u64 option \<Rightarrow> segment_cache" where
  "cache_new budget =
     \<lparr>ca_budget = budget, ca_resident = 0, ca_clock = 0, ca_registry = [], ca_slots = Map.empty\<rparr>"

definition cache_tick :: "segment_cache \<Rightarrow> u64 \<times> segment_cache" where
  "cache_tick c = (ca_clock c, c\<lparr>ca_clock := ca_clock c + 1\<rparr>)"

definition cache_register :: "nat \<Rightarrow> segment_cache \<Rightarrow> segment_cache" where
  "cache_register i c = c\<lparr>ca_registry := ca_registry c @ [i]\<rparr>"

definition cache_put :: "nat \<Rightarrow> cached_slot \<Rightarrow> segment_cache \<Rightarrow> segment_cache" where
  "cache_put i d c = c\<lparr>ca_slots := (ca_slots c)(i \<mapsto> d)\<rparr>"

section \<open>Eviction\<close>

definition slot_evict :: "cached_slot \<Rightarrow> (u64 \<times> cached_slot) option" where
  "slot_evict d =
     (case sl_state (cd_slot d) of
        None \<Rightarrow> None
      | Some _ \<Rightarrow>
          if 0 < cd_pins d then None
          else Some (cd_bytes d, d\<lparr>cd_slot := (cd_slot d)\<lparr>sl_state := None\<rparr>\<rparr>))"

definition saturating_sub :: "u64 \<Rightarrow> u64 \<Rightarrow> u64" where
  "saturating_sub a b = (if b \<le> a then a - b else 0)"

fun evict_loop :: "u64 \<Rightarrow> nat list \<Rightarrow> segment_cache \<Rightarrow> segment_cache" where
  "evict_loop budget [] c = c"
| "evict_loop budget (i # is) c =
     (if ca_resident c \<le> budget then c
      else case ca_slots c i of
             None \<Rightarrow> evict_loop budget is c
           | Some d \<Rightarrow>
               (case slot_evict d of
                  None \<Rightarrow> evict_loop budget is c
                | Some (freed, d') \<Rightarrow>
                    evict_loop budget is
                      (cache_put i d' c\<lparr>ca_resident := saturating_sub (ca_resident c) freed\<rparr>)))"

definition touch_of :: "segment_cache \<Rightarrow> nat \<Rightarrow> u64" where
  "touch_of c i = (case ca_slots c i of Some d \<Rightarrow> cd_last_touch d | None \<Rightarrow> 0)"

definition cache_admit :: "u64 \<Rightarrow> segment_cache \<Rightarrow> segment_cache" where
  "cache_admit freshly c =
     (let c = c\<lparr>ca_resident := ca_resident c + freshly\<rparr>
      in case ca_budget c of
           None \<Rightarrow> c
         | Some budget \<Rightarrow>
             if ca_resident c \<le> budget then c
             else
               (let alive = filter (\<lambda>i. ca_slots c i \<noteq> None) (ca_registry c);
                    c = c\<lparr>ca_registry := alive\<rparr>
                in evict_loop budget (sort_key (touch_of c) alive) c))"

section \<open>Slots under the cache\<close>

definition cache_resident :: "nat \<Rightarrow> segment \<Rightarrow> slot_shared \<Rightarrow> rstring option \<Rightarrow> segment_cache \<Rightarrow> segment_cache" where
  "cache_resident i s shared name c =
     (let freshly = word_of_nat (resident_bytes s);
          (touch, c) = cache_tick c;
          slot = slot_resident s shared name;
          c = cache_put i \<lparr>cd_slot = slot, cd_bytes = freshly, cd_last_touch = touch, cd_pins = 0\<rparr> c
      in if slot_evictable slot then cache_admit freshly (cache_register i c) else c)"

definition cache_lazy :: "nat \<Rightarrow> segment_slot \<Rightarrow> segment_cache \<Rightarrow> segment_cache" where
  "cache_lazy i slot c =
     (let (touch, c) = cache_tick c
      in cache_register i
           (cache_put i \<lparr>cd_slot = slot, cd_bytes = 0, cd_last_touch = touch, cd_pins = 0\<rparr> c))"

text \<open>
  A read of the slot's segment: the caller leaves with a pin.  While the fresh segment is
  admitted, the reference that is about to be returned pins it.
\<close>

definition cache_segment ::
  "read_object \<Rightarrow> nat \<Rightarrow> cached_slot \<Rightarrow> segment_cache \<Rightarrow> (storage_error, segment) outcome \<times> segment_cache" where
  "cache_segment read i d c =
     (let (touch, c) = cache_tick c;
          d = d\<lparr>cd_last_touch := touch\<rparr>
      in case sl_state (cd_slot d) of
           Some s \<Rightarrow> (Ok s, cache_put i (d\<lparr>cd_pins := cd_pins d + 1\<rparr>) c)
         | None \<Rightarrow>
             (case slot_fault read (cd_slot d) of
                Ok s \<Rightarrow>
                  (let freshly = word_of_nat (resident_bytes s)
                   in (Ok s, cache_admit freshly
                        (cache_put i \<lparr>cd_slot = (cd_slot d)\<lparr>sl_state := Some s\<rparr>, cd_bytes = freshly,
                           cd_last_touch = touch, cd_pins = cd_pins d + 1\<rparr> c)))
              | Err e \<Rightarrow> (Err e, cache_put i d c)
              | Panic \<Rightarrow> (Panic, cache_put i d c)))"

section \<open>Steps\<close>

text \<open>
  Everything that moves the cache.  The additions of a store's life are assumed not to
  exceed 64 bits; identities are never reused.
\<close>

inductive cache_step :: "read_object \<Rightarrow> segment_cache \<Rightarrow> segment_cache \<Rightarrow> bool" for read where
  step_resident:
    "\<lbrakk> ca_slots c i = None; i \<notin> set (ca_registry c);
       unat (ca_resident c) + resident_bytes s < 2 ^ 64 \<rbrakk>
     \<Longrightarrow> cache_step read c (cache_resident i s shared name c)"
| step_lazy:
    "\<lbrakk> ca_slots c i = None; i \<notin> set (ca_registry c); sl_state slot = None; slot_evictable slot \<rbrakk>
     \<Longrightarrow> cache_step read c (cache_lazy i slot c)"
| step_read:
    "\<lbrakk> ca_slots c i = Some d;
       \<And>s. slot_fault read (cd_slot d) = Ok s \<Longrightarrow> unat (ca_resident c) + resident_bytes s < 2 ^ 64;
       cache_segment read i d c = (result, c') \<rbrakk>
     \<Longrightarrow> cache_step read c c'"
| step_unpin:
    "\<lbrakk> ca_slots c i = Some d; 0 < cd_pins d \<rbrakk>
     \<Longrightarrow> cache_step read c (cache_put i (d\<lparr>cd_pins := cd_pins d - 1\<rparr>) c)"
| step_drop:
    "ca_slots c i = Some d \<Longrightarrow> cache_step read c (c\<lparr>ca_slots := (ca_slots c)(i := None)\<rparr>)"

inductive_cases cache_stepE: "cache_step read c c'"

section \<open>What the counter says\<close>

definition held :: "segment_cache \<Rightarrow> nat \<Rightarrow> nat" where
  "held c i = (case ca_slots c i of
     Some d \<Rightarrow> if sl_state (cd_slot d) = None then 0 else unat (cd_bytes d)
   | None \<Rightarrow> 0)"

definition total_held :: "segment_cache \<Rightarrow> nat" where
  "total_held c = sum_list (map (held c) (ca_registry c))"

text \<open>A slot that can be evicted is registered, and the counter covers what is held.\<close>

definition cache_ok :: "segment_cache \<Rightarrow> bool" where
  "cache_ok c \<longleftrightarrow>
     distinct (ca_registry c) \<and> total_held c \<le> unat (ca_resident c) \<and>
     (\<forall>i d. ca_slots c i = Some d \<longrightarrow> slot_evictable (cd_slot d) = (i \<in> set (ca_registry c))) \<and>
     (\<forall>i d. ca_slots c i = Some d \<longrightarrow> sl_state (cd_slot d) = None \<longrightarrow> slot_evictable (cd_slot d))"

definition all_pinned :: "segment_cache \<Rightarrow> nat list \<Rightarrow> bool" where
  "all_pinned c is \<longleftrightarrow> (\<forall>i\<in>set is. \<forall>d. ca_slots c i = Some d \<longrightarrow> sl_state (cd_slot d) \<noteq> None \<longrightarrow> 0 < cd_pins d)"

lemma unat_saturating_sub: "unat (saturating_sub a b) = unat a - unat b"
  by (auto simp: saturating_sub_def unat_sub word_le_nat_alt)

lemma sum_list_update:
  fixes f g :: "nat \<Rightarrow> nat"
  assumes "distinct xs" "\<And>j. j \<noteq> i \<Longrightarrow> g j = f j"
  shows "sum_list (map g xs) + (if i \<in> set xs then f i else 0) =
    sum_list (map f xs) + (if i \<in> set xs then g i else 0)"
  using assms(1)
proof (induction xs)
  case (Cons a xs)
  then show ?case using assms(2) [of a] by (cases "a = i") auto
qed simp

lemma held_le_total: "distinct (ca_registry c) \<Longrightarrow> i \<in> set (ca_registry c) \<Longrightarrow> held c i \<le> total_held c"
  by (auto simp: total_held_def intro: member_le_sum_list)

text \<open>Replacing one slot changes the total by what that slot holds.\<close>

lemma total_held_put:
  assumes "distinct (ca_registry c)"
  shows "total_held (cache_put i d c) + (if i \<in> set (ca_registry c) then held c i else 0) =
    total_held c + (if i \<in> set (ca_registry c) then held (cache_put i d c) i else 0)"
  using sum_list_update [OF assms, of i "held (cache_put i d c)" "held c"]
  by (simp add: total_held_def held_def cache_put_def)

lemma slot_evict_Some:
  "slot_evict d = Some (freed, d') \<longleftrightarrow> sl_state (cd_slot d) \<noteq> None \<and> cd_pins d = 0 \<and> freed = cd_bytes d \<and>
     d' = d\<lparr>cd_slot := (cd_slot d)\<lparr>sl_state := None\<rparr>\<rparr>"
  by (auto simp: slot_evict_def split: option.splits if_splits)

lemma cache_okD:
  assumes "cache_ok c"
  shows "distinct (ca_registry c)" "total_held c \<le> unat (ca_resident c)"
    "ca_slots c i = Some d \<Longrightarrow> slot_evictable (cd_slot d) \<longleftrightarrow> i \<in> set (ca_registry c)"
    "ca_slots c i = Some d \<Longrightarrow> sl_state (cd_slot d) = None \<Longrightarrow> slot_evictable (cd_slot d)"
  using assms by (auto simp: cache_ok_def)

lemma cache_put_fields [simp]:
  "ca_registry (cache_put i d c) = ca_registry c" "ca_resident (cache_put i d c) = ca_resident c"
  "ca_budget (cache_put i d c) = ca_budget c" "ca_slots (cache_put i d c) = (ca_slots c)(i \<mapsto> d)"
  by (simp_all add: cache_put_def)

lemma total_held_update [simp]:
  "total_held (c\<lparr>ca_resident := r\<rparr>) = total_held c" "total_held (c\<lparr>ca_clock := k\<rparr>) = total_held c"
  by (simp_all add: total_held_def held_def [abs_def])

text \<open>Evicting one slot.\<close>

lemma evict_one_ok:
  assumes "cache_ok c" "ca_slots c i = Some d" "slot_evict d = Some (freed, d')" "i \<in> set (ca_registry c)"
  shows "cache_ok (cache_put i d' c\<lparr>ca_resident := saturating_sub (ca_resident c) freed\<rparr>)"
proof -
  note D = cache_okD [OF assms(1)]
  have e: "sl_state (cd_slot d) \<noteq> None" "freed = cd_bytes d"
    "d' = d\<lparr>cd_slot := (cd_slot d)\<lparr>sl_state := None\<rparr>\<rparr>"
    using assms(3) by (simp_all add: slot_evict_Some)
  have ev: "slot_evictable (cd_slot d') \<longleftrightarrow> slot_evictable (cd_slot d)"
    unfolding e(3) by (simp add: slot_evictable_def)
  have "held (cache_put i d' c) i = 0" "held c i = unat freed"
    using e assms(2) by (auto simp: held_def)
  then have "total_held (cache_put i d' c) + unat freed = total_held c"
    using total_held_put [OF D(1), of i d'] assms(4) by simp
  then have "total_held (cache_put i d' c) \<le> unat (saturating_sub (ca_resident c) freed)"
    using D(2) by (simp add: unat_saturating_sub)
  then show ?thesis
    using assms(2,4) D ev by (auto simp: cache_ok_def)
qed

text \<open>What eviction may do to the slots: empty unpinned ones.\<close>

definition evicted_from :: "segment_cache \<Rightarrow> segment_cache \<Rightarrow> bool" where
  "evicted_from c c' \<longleftrightarrow> (\<forall>i. ca_slots c' i = ca_slots c i \<or>
     (\<exists>d freed d'. ca_slots c i = Some d \<and> slot_evict d = Some (freed, d') \<and> ca_slots c' i = Some d'))"

lemma slot_evict_twice: "slot_evict d = Some (freed, d') \<Longrightarrow> slot_evict d' = None"
  by (auto simp: slot_evict_Some) (simp add: slot_evict_def)

lemma evicted_from_trans: "evicted_from a b \<Longrightarrow> evicted_from b c \<Longrightarrow> evicted_from a c"
  unfolding evicted_from_def by (metis option.distinct(1) option.inject slot_evict_twice)

lemma evicted_from_refl [simp]: "evicted_from c c"
  by (simp add: evicted_from_def)

lemma evicted_from_one:
  "ca_slots c i = Some d \<Longrightarrow> slot_evict d = Some (freed, d') \<Longrightarrow>
   evicted_from c (cache_put i d' c\<lparr>ca_resident := r\<rparr>)"
  by (auto simp: evicted_from_def)

lemma evicted_from_cases:
  assumes "evicted_from c c'" "ca_slots c' i = Some d'"
  obtains (kept) "ca_slots c i = Some d'"
  | (evicted) d freed where "ca_slots c i = Some d" "slot_evict d = Some (freed, d')"
  using assms unfolding evicted_from_def by (metis option.inject)

lemma evicted_from_pinned:
  assumes "evicted_from c c'" "all_pinned c is"
  shows "all_pinned c' is"
  unfolding all_pinned_def
proof (intro ballI allI impI)
  fix i d assume "i \<in> set is" and d: "ca_slots c' i = Some d" and state: "sl_state (cd_slot d) \<noteq> None"
  from assms(1) d show "0 < cd_pins d"
  proof (cases rule: evicted_from_cases)
    case kept
    then show ?thesis using assms(2) \<open>i \<in> set is\<close> state by (auto simp: all_pinned_def)
  next
    case (evicted d0 freed)
    then show ?thesis using state by (auto simp: slot_evict_Some)
  qed
qed

lemma all_pinned_sort [simp]: "all_pinned c (sort_key f is) = all_pinned c is"
  by (simp add: all_pinned_def)

lemma evict_loop_evicted: "evicted_from c (evict_loop budget is c)"
proof (induction "is" arbitrary: c)
  case (Cons i "is")
  show ?case
  proof (cases "\<exists>d freed d'. ca_slots c i = Some d \<and> slot_evict d = Some (freed, d')")
    case True
    then obtain d freed d' where d: "ca_slots c i = Some d" "slot_evict d = Some (freed, d')" by blast
    then have "evict_loop budget (i # is) c = (if ca_resident c \<le> budget then c else
        evict_loop budget is (cache_put i d' c\<lparr>ca_resident := saturating_sub (ca_resident c) freed\<rparr>))"
      by simp
    then show ?thesis using evicted_from_trans [OF evicted_from_one [OF d] Cons.IH] by simp
  next
    case False
    then have "evict_loop budget (i # is) c = (if ca_resident c \<le> budget then c else evict_loop budget is c)"
      by (auto split: option.splits)
    then show ?thesis using Cons.IH by simp
  qed
qed simp

lemma evicted_from_slots: "ca_slots d = ca_slots c \<Longrightarrow> evicted_from d x \<Longrightarrow> evicted_from c x"
  by (simp add: evicted_from_def)

lemma cache_admit_evicted: "evicted_from c (cache_admit freshly c)"
proof (cases "ca_budget c = None \<or> ca_resident c + freshly \<le> the (ca_budget c)")
  case True
  then show ?thesis by (auto simp: cache_admit_def evicted_from_def Let_def split: option.splits)
next
  case False
  then obtain budget where b: "ca_budget c = Some budget" "\<not> ca_resident c + freshly \<le> budget" by auto
  let ?alive = "filter (\<lambda>i. ca_slots c i \<noteq> None) (ca_registry c)"
  let ?d = "c\<lparr>ca_resident := ca_resident c + freshly, ca_registry := ?alive\<rparr>"
  have "cache_admit freshly c = evict_loop budget (sort_key (touch_of ?d) ?alive) ?d"
    using b by (simp add: cache_admit_def Let_def)
  then show ?thesis using evicted_from_slots [OF _ evict_loop_evicted, of ?d c] by simp
qed

lemma evict_loop_ok:
  assumes "cache_ok c" "set is \<subseteq> set (ca_registry c)"
  shows "cache_ok (evict_loop budget is c) \<and> ca_registry (evict_loop budget is c) = ca_registry c \<and>
    ca_budget (evict_loop budget is c) = ca_budget c \<and> evicted_from c (evict_loop budget is c) \<and>
    (ca_resident (evict_loop budget is c) \<le> budget \<or> all_pinned (evict_loop budget is c) is)"
  using assms
proof (induction "is" arbitrary: c)
  case Nil
  then show ?case by (simp add: all_pinned_def)
next
  case (Cons i "is")
  have cons: "all_pinned c (i # is) \<longleftrightarrow> all_pinned c [i] \<and> all_pinned c is" for c
    by (auto simp: all_pinned_def)
  show ?case
  proof (cases "ca_resident c \<le> budget")
    case True
    then show ?thesis using Cons.prems by simp
  next
    case over: False
    show ?thesis
    proof (cases "\<exists>d freed d'. ca_slots c i = Some d \<and> slot_evict d = Some (freed, d')")
      case True
      then obtain d freed d' where d: "ca_slots c i = Some d" "slot_evict d = Some (freed, d')" by blast
      let ?c1 = "cache_put i d' c\<lparr>ca_resident := saturating_sub (ca_resident c) freed\<rparr>"
      have run: "evict_loop budget (i # is) c = evict_loop budget is ?c1" using over d by simp
      have ok1: "cache_ok ?c1" using evict_one_ok [OF Cons.prems(1) d] Cons.prems(2) by simp
      have "set is \<subseteq> set (ca_registry ?c1)" using Cons.prems(2) by simp
      note ih = Cons.IH [OF ok1 this]
      have "all_pinned ?c1 [i]" using d(2) by (auto simp: all_pinned_def slot_evict_Some)
      then show ?thesis
        unfolding run cons using ih evicted_from_pinned [of ?c1] evicted_from_trans [OF evicted_from_one [OF d]] by auto
    next
      case False
      have run: "evict_loop budget (i # is) c = evict_loop budget is c"
        using over False by (auto split: option.splits)
      have "set is \<subseteq> set (ca_registry c)" using Cons.prems(2) by simp
      note ih = Cons.IH [OF Cons.prems(1) this]
      have "all_pinned c [i]"
        using False by (auto simp: all_pinned_def slot_evict_def split: option.splits if_splits)
      then show ?thesis unfolding run cons using ih evicted_from_pinned [of c] by auto
    qed
  qed
qed

lemma filter_registry_ok:
  assumes "cache_ok c"
  shows "cache_ok (c\<lparr>ca_registry := filter (\<lambda>i. ca_slots c i \<noteq> None) (ca_registry c)\<rparr>)"
proof -
  have "sum_list (map (held c) (filter (\<lambda>i. ca_slots c i \<noteq> None) xs)) = sum_list (map (held c) xs)" for xs
    by (induction xs) (auto simp: held_def)
  then have "total_held (c\<lparr>ca_registry := filter (\<lambda>i. ca_slots c i \<noteq> None) (ca_registry c)\<rparr>) = total_held c"
    by (simp add: total_held_def held_def [abs_def])
  then show ?thesis using assms by (auto simp: cache_ok_def)
qed

text \<open>
  Admitting: the counter covers what is held once the fresh bytes are added, and afterwards
  the budget is met or every segment still held is pinned.
\<close>

lemma cache_admit_ok:
  assumes "cache_ok (c\<lparr>ca_resident := ca_resident c + freshly\<rparr>)"
  shows "cache_ok (cache_admit freshly c) \<and> ca_budget (cache_admit freshly c) = ca_budget c \<and>
    evicted_from c (cache_admit freshly c) \<and>
    (\<forall>budget. ca_budget c = Some budget \<longrightarrow>
       ca_resident (cache_admit freshly c) \<le> budget \<or>
       all_pinned (cache_admit freshly c) (ca_registry (cache_admit freshly c)))"
proof (cases "ca_budget c")
  case None
  then show ?thesis using assms by (simp add: cache_admit_def evicted_from_def)
next
  case (Some budget)
  let ?c = "c\<lparr>ca_resident := ca_resident c + freshly\<rparr>"
  show ?thesis
  proof (cases "ca_resident ?c \<le> budget")
    case True
    then show ?thesis using assms Some by (simp add: cache_admit_def evicted_from_def)
  next
    case False
    let ?alive = "filter (\<lambda>i. ca_slots c i \<noteq> None) (ca_registry c)"
    let ?d = "?c\<lparr>ca_registry := ?alive\<rparr>"
    have ok: "cache_ok ?d" using filter_registry_ok [OF assms] by simp
    have run: "cache_admit freshly c = evict_loop budget (sort_key (touch_of ?d) ?alive) ?d"
      using Some False by (simp add: cache_admit_def Let_def)
    have "set (sort_key (touch_of ?d) ?alive) \<subseteq> set (ca_registry ?d)" by simp
    note loop = evict_loop_ok [OF ok this, of budget]
    have "evicted_from c x = evicted_from ?d x" for x by (simp add: evicted_from_def)
    moreover have "ca_registry (cache_admit freshly c) = ?alive" unfolding run using loop by simp
    ultimately show ?thesis using loop Some unfolding run all_pinned_sort by simp
  qed
qed

section \<open>Every step keeps the accounts\<close>

lemma slot_evictable_state [simp]: "slot_evictable (sl\<lparr>sl_state := x\<rparr>) = slot_evictable sl"
  by (simp add: slot_evictable_def)

lemma unat_resident_add:
  "unat (r :: u64) + n < 2 ^ 64 \<Longrightarrow> unat (r + word_of_nat n) = unat r + n"
  by (simp add: unat_word_ariths unat_of_nat)

text \<open>Adding a slot under a fresh identity, or replacing one that keeps what it holds.\<close>

lemma put_fresh_ok:
  assumes "cache_ok c" "ca_slots c i = None" "i \<notin> set (ca_registry c)" "slot_evictable (cd_slot d)"
    "unat r = unat (ca_resident c) + (if sl_state (cd_slot d) = None then 0 else unat (cd_bytes d))"
  shows "cache_ok (cache_register i (cache_put i d c)\<lparr>ca_resident := r\<rparr>)"
proof -
  note D = cache_okD [OF assms(1)]
  have same: "held (cache_register i (cache_put i d c)) j = (if j = i
      then (if sl_state (cd_slot d) = None then 0 else unat (cd_bytes d)) else held c j)" for j
    by (simp add: held_def cache_register_def)
  have "map (held (cache_register i (cache_put i d c))) (ca_registry c) = map (held c) (ca_registry c)"
    using assms(3) by (auto simp: same)
  from arg_cong [OF this, of sum_list]
  have reg: "ca_registry (cache_register i (cache_put i d c)) = ca_registry c @ [i]"
    by (simp add: cache_register_def)
  have "total_held (cache_register i (cache_put i d c)) =
      total_held c + (if sl_state (cd_slot d) = None then 0 else unat (cd_bytes d))"
    unfolding total_held_def reg map_append sum_list_append
      \<open>sum_list (map (held (cache_register i (cache_put i d c))) (ca_registry c)) = _\<close> by (simp add: same)
  then show ?thesis
    using D assms by (auto simp: cache_ok_def cache_register_def)
qed

lemma put_same_ok:
  assumes "cache_ok c" "ca_slots c i = Some d0" "slot_evictable (cd_slot d) = slot_evictable (cd_slot d0)"
    "sl_state (cd_slot d) = None \<longrightarrow> slot_evictable (cd_slot d)"
    "i \<in> set (ca_registry c) \<Longrightarrow>
      unat r + held c i = unat (ca_resident c) + (if sl_state (cd_slot d) = None then 0 else unat (cd_bytes d))"
    "i \<notin> set (ca_registry c) \<Longrightarrow> r = ca_resident c"
  shows "cache_ok (cache_put i d c\<lparr>ca_resident := r\<rparr>)"
proof -
  note D = cache_okD [OF assms(1)]
  have "total_held (cache_put i d c) \<le> unat r"
  proof (cases "i \<in> set (ca_registry c)")
    case True
    then show ?thesis
      using total_held_put [OF D(1), of i d] held_le_total [OF D(1) True] D(2) assms(5) by (simp add: held_def)
  next
    case False
    then show ?thesis using total_held_put [OF D(1), of i d] D(2) assms(6) by simp
  qed
  then show ?thesis using D assms(2-4) by (auto simp: cache_ok_def)
qed

lemma put_same_resident [simp]: "cache_put i d c\<lparr>ca_resident := ca_resident c\<rparr> = cache_put i d c"
  by (cases c) (simp add: cache_put_def)

lemma cache_clock_ok [simp]: "cache_ok (c\<lparr>ca_clock := k\<rparr>) = cache_ok c"
  by (simp add: cache_ok_def)

lemma cache_tick_ok: "cache_ok c \<Longrightarrow> cache_ok (snd (cache_tick c))"
  by (simp add: cache_tick_def)

lemma cache_lazy_ok:
  assumes "cache_ok c" "ca_slots c i = None" "i \<notin> set (ca_registry c)" "sl_state slot = None" "slot_evictable slot"
  shows "cache_ok (cache_lazy i slot c) \<and> ca_budget (cache_lazy i slot c) = ca_budget c"
proof -
  let ?c = "snd (cache_tick c)"
  let ?d = "\<lparr>cd_slot = slot, cd_bytes = 0, cd_last_touch = fst (cache_tick c), cd_pins = 0\<rparr>"
  have "cache_ok (cache_register i (cache_put i ?d ?c)\<lparr>ca_resident := ca_resident ?c\<rparr>)"
    using assms by (intro put_fresh_ok cache_tick_ok) (simp_all add: cache_tick_def)
  then show ?thesis by (simp add: cache_lazy_def cache_tick_def cache_register_def cache_put_def)
qed

lemma cache_resident_ok:
  assumes "cache_ok c" "ca_slots c i = None" "i \<notin> set (ca_registry c)"
    "unat (ca_resident c) + resident_bytes s < 2 ^ 64"
  shows "cache_ok (cache_resident i s shared name c) \<and> ca_budget (cache_resident i s shared name c) = ca_budget c"
proof -
  let ?c = "snd (cache_tick c)" and ?slot = "slot_resident s shared name" and ?n = "word_of_nat (resident_bytes s) :: u64"
  let ?d = "\<lparr>cd_slot = ?slot, cd_bytes = ?n, cd_last_touch = fst (cache_tick c), cd_pins = 0\<rparr>"
  have state: "sl_state ?slot = Some s" by (simp add: slot_resident_def)
  have tick: "ca_slots ?c = ca_slots c" "ca_registry ?c = ca_registry c" "ca_resident ?c = ca_resident c"
    "ca_budget ?c = ca_budget c"
    by (simp_all add: cache_tick_def)
  show ?thesis
  proof (cases "slot_evictable ?slot")
    case True
    have "cache_ok (cache_register i (cache_put i ?d ?c)\<lparr>ca_resident := ca_resident ?c + ?n\<rparr>)"
      using assms True state unat_resident_add [OF assms(4)]
      by (intro put_fresh_ok cache_tick_ok) (simp_all add: tick unat_of_nat)
    then have "cache_ok (cache_register i (cache_put i ?d ?c)\<lparr>ca_resident :=
        ca_resident (cache_register i (cache_put i ?d ?c)) + ?n\<rparr>)"
      by (simp add: cache_register_def)
    from cache_admit_ok [OF this] show ?thesis
      using True by (simp add: cache_resident_def cache_tick_def cache_register_def Let_def)
  next
    case False
    have "total_held (cache_put i ?d ?c) = total_held c"
      using total_held_put [of ?c i ?d] cache_okD(1) [OF assms(1)] assms(3)
      by (simp add: tick) (simp add: cache_tick_def)
    then have "cache_ok (cache_put i ?d ?c)"
      using assms(1,3) False state by (auto simp: cache_ok_def tick)
    then show ?thesis using False by (simp add: cache_resident_def cache_tick_def Let_def)
  qed
qed

lemma cache_segment_ok:
  assumes "cache_ok c" "ca_slots c i = Some d" "cache_segment read i d c = (result, c')"
    and "\<And>s. slot_fault read (cd_slot d) = Ok s \<Longrightarrow> unat (ca_resident c) + resident_bytes s < 2 ^ 64"
  shows "cache_ok c' \<and> ca_budget c' = ca_budget c \<and>
    (\<forall>budget s. ca_budget c = Some budget \<longrightarrow> sl_state (cd_slot d) = None \<longrightarrow> result = Ok s \<longrightarrow>
       ca_resident c' \<le> budget \<or> all_pinned c' (ca_registry c'))"
proof -
  let ?c = "snd (cache_tick c)" and ?d = "d\<lparr>cd_last_touch := fst (cache_tick c)\<rparr>"
  note D = cache_okD [OF assms(1)]
  have tick: "ca_slots ?c = ca_slots c" "ca_registry ?c = ca_registry c" "ca_resident ?c = ca_resident c"
    "ca_budget ?c = ca_budget c" "held ?c = held c"
    by (simp_all add: cache_tick_def held_def [abs_def])
  have touch: "cache_ok (cache_put i e ?c)" if "cd_slot e = cd_slot d" "cd_bytes e = cd_bytes d" for e
  proof -
    have "cache_ok (cache_put i e ?c\<lparr>ca_resident := ca_resident ?c\<rparr>)"
      using assms(2) that D(4) [OF assms(2)]
      by (intro put_same_ok [OF cache_tick_ok [OF assms(1)], of i d]) (simp_all add: tick held_def)
    then show ?thesis unfolding put_same_resident .
  qed
  show ?thesis
  proof (cases "sl_state (cd_slot d)")
    case (Some s)
    then have "c' = cache_put i (?d\<lparr>cd_pins := cd_pins d + 1\<rparr>) ?c"
      using assms(3) by (simp add: cache_segment_def cache_tick_def Let_def)
    then show ?thesis using touch [of "?d\<lparr>cd_pins := cd_pins d + 1\<rparr>"] Some tick by simp
  next
    case empty: None
    show ?thesis
    proof (cases "slot_fault read (cd_slot d)")
      case (Ok s)
      let ?n = "word_of_nat (resident_bytes s) :: u64"
      let ?e = "\<lparr>cd_slot = (cd_slot d)\<lparr>sl_state := Some s\<rparr>, cd_bytes = ?n,
        cd_last_touch = fst (cache_tick c), cd_pins = cd_pins d + 1\<rparr>"
      have c': "c' = cache_admit ?n (cache_put i ?e ?c)"
        using assms(3) empty Ok by (simp add: cache_segment_def cache_tick_def Let_def)
      have "i \<in> set (ca_registry c)" using D(3,4) assms(2) empty by blast
      then have "cache_ok (cache_put i ?e ?c\<lparr>ca_resident := ca_resident ?c + ?n\<rparr>)"
        using assms(2) empty unat_resident_add [OF assms(4) [OF Ok]] assms(4) [OF Ok]
        by (intro put_same_ok [OF cache_tick_ok [OF assms(1)], of i d]) (simp_all add: tick held_def unat_of_nat)
      then have "cache_ok (cache_put i ?e ?c\<lparr>ca_resident := ca_resident (cache_put i ?e ?c) + ?n\<rparr>)" by simp
      from cache_admit_ok [OF this] show ?thesis unfolding c' using tick by simp
    next
      case (Err e)
      then have "c' = cache_put i ?d ?c" "result = Err e"
        using assms(3) empty by (simp_all add: cache_segment_def cache_tick_def Let_def)
      then show ?thesis using touch [of ?d] tick by simp
    next
      case Panic
      then have "c' = cache_put i ?d ?c" "result = Panic"
        using assms(3) empty by (simp_all add: cache_segment_def cache_tick_def Let_def)
      then show ?thesis using touch [of ?d] tick by simp
    qed
  qed
qed

lemma cache_step_ok:
  assumes "cache_step read c c'" "cache_ok c"
  shows "cache_ok c' \<and> ca_budget c' = ca_budget c"
  using assms(1)
proof cases
  case (step_resident i s shared name)
  then show ?thesis using cache_resident_ok [OF assms(2)] by simp
next
  case (step_lazy i slot)
  then show ?thesis using cache_lazy_ok [OF assms(2)] by simp
next
  case (step_read i d result)
  then show ?thesis using cache_segment_ok [OF assms(2)] by metis
next
  case (step_unpin i d)
  have "cache_ok (cache_put i (d\<lparr>cd_pins := cd_pins d - 1\<rparr>) c\<lparr>ca_resident := ca_resident c\<rparr>)"
    using step_unpin(2) cache_okD(4) [OF assms(2) step_unpin(2)]
    by (intro put_same_ok [OF assms(2), of i d]) (simp_all add: held_def)
  then show ?thesis unfolding step_unpin(1) put_same_resident by simp
next
  case (step_drop i d)
  let ?c = "c\<lparr>ca_slots := (ca_slots c)(i := None)\<rparr>"
  have "total_held ?c \<le> total_held c"
    unfolding total_held_def by (auto simp: held_def intro!: sum_list_mono)
  then show ?thesis using assms(2) step_drop(1) by (auto simp: cache_ok_def)
qed

lemma cache_reachable_ok:
  assumes "(cache_step read)\<^sup>*\<^sup>* (cache_new budget) c"
  shows "cache_ok c \<and> ca_budget c = budget"
  using assms
proof (induction rule: rtranclp_induct)
  case base
  show ?case by (simp add: cache_ok_def cache_new_def total_held_def)
next
  case (step c c')
  then show ?case using cache_step_ok by metis
qed

section \<open>Properties\<close>

text \<open>
  C23: The cache is bounded.  In every reachable state the counter covers the bytes of all
  segments the slots hold; and when a read has decoded a segment under a budget, either the
  counter, and so what is held, is within the budget again, or every segment still held is
  one that some reader is using.
\<close>
theorem cache_bounded:
  assumes "(cache_step read)\<^sup>*\<^sup>* (cache_new (Some budget)) c"
    and "ca_slots c i = Some d" "sl_state (cd_slot d) = None" "cache_segment read i d c = (Ok s, c')"
    and "unat (ca_resident c) + resident_bytes s < 2 ^ 64"
  shows "total_held c \<le> unat (ca_resident c) \<and> total_held c' \<le> unat (ca_resident c') \<and>
    (total_held c' \<le> unat budget \<or> all_pinned c' (ca_registry c'))"
proof -
  have ok: "cache_ok c" "ca_budget c = Some budget" using cache_reachable_ok [OF assms(1)] by simp_all
  have "slot_fault read (cd_slot d) = Ok s' \<Longrightarrow> s' = s" for s'
    using assms(3,4) by (auto simp: cache_segment_def cache_tick_def Let_def)
  then have after: "cache_ok c'" "ca_resident c' \<le> budget \<or> all_pinned c' (ca_registry c')"
    using cache_segment_ok [OF ok(1) assms(2,4)] assms(3,5) ok(2) by auto
  then show ?thesis
    using cache_okD(2) [OF ok(1)] cache_okD(2) [OF after(1)] by (auto simp: word_le_nat_alt)
qed

definition sample_cache :: segment_cache where
  "sample_cache = cache_lazy 0 \<lparr>sl_meta = None, sl_name = Some (ascii ''s''),
     sl_shared = \<lparr>sh_schema = rb_schema (sg_batch sample_segment), sh_ordering_key = 0, sh_backend = True\<rparr>,
     sl_state = None\<rparr> (cache_new (Some 40))"

lemma sample_cache_reachable: "(cache_step read)\<^sup>*\<^sup>* (cache_new (Some 40)) sample_cache"
  unfolding sample_cache_def
  by (intro r_into_rtranclp cache_step.step_lazy) (simp_all add: cache_new_def slot_evictable_def)

lemma sample_resident_bytes: "resident_bytes sample_segment = 32"
  by (simp add: resident_bytes_def sample_segment_def nc_len_def)

theorem cache_bounded_witness:
  "\<exists>d c'. ca_slots sample_cache 0 = Some d \<and>
     cache_segment (\<lambda>_. Ok (encode_segment sample_segment)) 0 d sample_cache = (Ok sample_segment, c') \<and>
     total_held c' \<le> unat (ca_resident c')"
proof -
  let ?read = "\<lambda>_. Ok (encode_segment sample_segment) :: (io_error, bytes) outcome"
  obtain d where d: "ca_slots sample_cache 0 = Some d" "sl_state (cd_slot d) = None" "sl_meta (cd_slot d) = None"
    "sl_name (cd_slot d) = Some (ascii ''s'')" "sh_backend (sl_shared (cd_slot d))"
    "sh_schema (sl_shared (cd_slot d)) = rb_schema (sg_batch sample_segment)"
    by (simp add: sample_cache_def cache_lazy_def cache_tick_def cache_register_def)
  have "slot_fault ?read (cd_slot d) = Ok sample_segment"
    using d decode_encode_segment [OF sample_segment_ok] by (simp add: slot_fault_def slot_verify_def)
  then obtain c' where c': "cache_segment ?read 0 d sample_cache = (Ok sample_segment, c')"
    using d(2) by (simp add: cache_segment_def cache_tick_def Let_def)
  have "unat (ca_resident sample_cache) + resident_bytes sample_segment < 2 ^ 64"
    by (simp add: sample_resident_bytes sample_cache_def cache_lazy_def cache_tick_def cache_register_def cache_new_def)
  from cache_bounded [OF sample_cache_reachable d(1,2) c' this] show ?thesis using d(1) c' by blast
qed

text \<open>
  C24: Eviction never changes an answer.  When every slot stands for its segment, reading a
  slot yields that segment whether it was resident or had been evicted, and after the read,
  with whatever it evicted, every slot still stands for its segment.
\<close>
theorem eviction_transparent:
  assumes "\<And>j e. ca_slots c j = Some e \<Longrightarrow> slot_stands_for read (cd_slot e) (content j) \<and> slot_evictable (cd_slot e)"
    and "ca_slots c i = Some d" "cache_segment read i d c = (result, c')"
  shows "result = Ok (content i) \<and>
    (\<forall>j e. ca_slots c' j = Some e \<longrightarrow> slot_stands_for read (cd_slot e) (content j) \<and> slot_evictable (cd_slot e))"
proof (cases "sl_state (cd_slot d)")
  case (Some s)
  then have "s = content i" using assms(1) [OF assms(2)] by (simp add: slot_stands_for_def)
  then show ?thesis
    using assms Some by (auto simp: cache_segment_def cache_tick_def Let_def split: if_splits)
next
  case None
  have i: "slot_stands_for read (cd_slot d) (content i)" "slot_evictable (cd_slot d)" using assms(1,2) by simp_all
  have fault: "slot_fault read (cd_slot d) = Ok (content i)"
    using slot_segment_stands [OF i(1)] None by (simp add: slot_segment_def)
  define e where "e = \<lparr>cd_slot = (cd_slot d)\<lparr>sl_state := Some (content i)\<rparr>,
    cd_bytes = word_of_nat (resident_bytes (content i)), cd_last_touch = ca_clock c, cd_pins = cd_pins d + 1\<rparr>"
  define n where "n = (word_of_nat (resident_bytes (content i)) :: u64)"
  have e: "cd_slot e = (cd_slot d)\<lparr>sl_state := Some (content i)\<rparr>" by (simp add: e_def)
  have c': "c' = cache_admit n (cache_put i e (snd (cache_tick c)))" "result = Ok (content i)"
    using assms(3) None fault by (simp_all add: cache_segment_def cache_tick_def Let_def e_def n_def)
  let ?c = "cache_put i e (snd (cache_tick c))"
  have before: "slot_stands_for read (cd_slot x) (content j) \<and> slot_evictable (cd_slot x)" if "ca_slots ?c j = Some x" for j x
  proof (cases "j = i")
    case True
    then have "cd_slot x = (cd_slot d)\<lparr>sl_state := Some (content i)\<rparr>" using that e by simp
    then show ?thesis using slot_loaded_stands [OF i(1)] i(2) True by simp
  next
    case False
    then show ?thesis using that assms(1) by (simp add: cache_tick_def)
  qed
  have "slot_stands_for read (cd_slot x) (content j) \<and> slot_evictable (cd_slot x)" if x: "ca_slots c' j = Some x" for j x
    using cache_admit_evicted [of ?c n] x [unfolded c'(1)]
  proof (cases rule: evicted_from_cases)
    case (evicted y freed)
    then show ?thesis using before [of j y] slot_evicted_stands by (auto simp: slot_evict_Some)
  qed (rule before)
  then show ?thesis using c'(2) by blast
qed

theorem eviction_transparent_witness:
  "\<exists>d c'. ca_slots sample_cache 0 = Some d \<and>
     cache_segment (\<lambda>_. Ok (encode_segment sample_segment)) 0 d sample_cache = (Ok sample_segment, c')"
proof -
  let ?read = "\<lambda>_. Ok (encode_segment sample_segment) :: (io_error, bytes) outcome"
  have all: "slot_stands_for ?read (cd_slot e) sample_segment \<and> slot_evictable (cd_slot e)"
    if "ca_slots sample_cache j = Some e" for j e
    using that sample_segment_ok
    by (auto simp: sample_cache_def cache_lazy_def cache_tick_def cache_register_def cache_new_def slot_stands_for_def
        slot_evictable_def split: if_splits)
  obtain d where d: "ca_slots sample_cache 0 = Some d"
    by (simp add: sample_cache_def cache_lazy_def cache_tick_def cache_register_def)
  obtain result c' where c': "cache_segment ?read 0 d sample_cache = (result, c')" by fastforce
  have "result = Ok sample_segment"
    by (rule eviction_transparent [of sample_cache ?read "\<lambda>_. sample_segment", OF all d c', THEN conjunct1])
  then show ?thesis using d c' by auto
qed

text \<open>
  C26: A dropped slot is never given back.  When the last reference to a slot goes while it
  holds its segment, as compaction lets the replaced slots go, nothing takes its bytes off
  the counter.  In a cache with room for 40 bytes that holds nothing at all, a segment of 32
  bytes is then evicted at the moment it is admitted.
\<close>
theorem dropped_slots_leak:
  "\<exists>c c'. (cache_step read)\<^sup>*\<^sup>* (cache_new (Some 40)) c \<and> (\<forall>i. ca_slots c i = None) \<and> ca_resident c = 32 \<and>
     cache_step read c c' \<and> resident_bytes sample_segment = 32 \<and> ca_budget c' = Some 40 \<and>
     (\<exists>d. ca_slots c' 1 = Some d \<and> sl_state (cd_slot d) = None)"
proof -
  let ?shared = "\<lparr>sh_schema = rb_schema (sg_batch sample_segment), sh_ordering_key = 0, sh_backend = True\<rparr>"
  let ?slot = "slot_resident sample_segment ?shared (Some (ascii ''s''))"
  let ?new = "\<lambda>i c. cache_resident i sample_segment ?shared (Some (ascii ''s'')) c"
  let ?d = "\<lambda>touch slot. \<lparr>cd_slot = slot, cd_bytes = 32, cd_last_touch = touch, cd_pins = 0\<rparr>"
  let ?cache = "\<lambda>clock registry slots. \<lparr>ca_budget = Some 40, ca_resident = 32, ca_clock = clock,
    ca_registry = registry, ca_slots = slots\<rparr>"
  have ev: "slot_evictable ?slot" and state: "sl_state ?slot = Some sample_segment"
    by (simp_all add: slot_evictable_def slot_resident_def)
  have c1: "?new 0 (cache_new (Some 40)) = ?cache 1 [0] [0 \<mapsto> ?d 0 ?slot]"
    using ev by (simp add: cache_resident_def cache_admit_def cache_register_def cache_tick_def cache_new_def
        cache_put_def sample_resident_bytes)
  have c2: "?new 1 (?cache 1 [0] Map.empty) = ?cache 2 [1] [1 \<mapsto> ?d 1 (?slot\<lparr>sl_state := None\<rparr>)]"
    using ev state by (simp add: cache_resident_def cache_admit_def cache_register_def cache_tick_def cache_put_def
        sample_resident_bytes slot_evict_def saturating_sub_def)
  have s1: "cache_step read (cache_new (Some 40)) (?cache 1 [0] [0 \<mapsto> ?d 0 ?slot])"
    unfolding c1 [symmetric] by (rule cache_step.step_resident) (simp_all add: cache_new_def sample_resident_bytes)
  have s2: "cache_step read (?cache 1 [0] [0 \<mapsto> ?d 0 ?slot]) (?cache 1 [0] Map.empty)"
    using cache_step.step_drop [of "?cache 1 [0] [0 \<mapsto> ?d 0 ?slot]" 0] by simp
  have s3: "cache_step read (?cache 1 [0] Map.empty) (?cache 2 [1] [1 \<mapsto> ?d 1 (?slot\<lparr>sl_state := None\<rparr>)])"
    unfolding c2 [symmetric] by (rule cache_step.step_resident) (simp_all add: sample_resident_bytes)
  have "(cache_step read)\<^sup>*\<^sup>* (cache_new (Some 40)) (?cache 1 [0] Map.empty)"
    using s1 s2 by (meson rtranclp.rtrancl_into_rtrancl rtranclp.rtrancl_refl)
  then show ?thesis
    using s3 sample_resident_bytes
    by (intro exI [of _ "?cache 1 [0] Map.empty"] exI [of _ "?cache 2 [1] [1 \<mapsto> ?d 1 (?slot\<lparr>sl_state := None\<rparr>)]"])
      simp
qed

end
