(* ===== verification/Effect.thy ===== *)
theory Effect
  imports Prelude
begin

text \<open>
  Operations with effects: a Rust method on \<open>&mut self\<close> that returns a \<open>Result\<close> is a
  function from the state to the outcome and the state afterwards.  The state is returned on
  every path, so that what an operation leaves behind when it fails is part of the model.
\<close>

type_synonym ('s, 'e, 'a) op = "'s \<Rightarrow> ('e, 'a) outcome \<times> 's"

definition returnS :: "'a \<Rightarrow> ('s, 'e, 'a) op" where
  "returnS a s = (Ok a, s)"

definition raiseS :: "'e \<Rightarrow> ('s, 'e, 'a) op" where
  "raiseS e s = (Err e, s)"

definition liftS :: "('e, 'a) outcome \<Rightarrow> ('s, 'e, 'a) op" where
  "liftS r s = (r, s)"

definition getS :: "('s \<Rightarrow> 'a) \<Rightarrow> ('s, 'e, 'a) op" where
  "getS f s = (Ok (f s), s)"

definition modifyS :: "('s \<Rightarrow> 's) \<Rightarrow> ('s, 'e, unit) op" where
  "modifyS f s = (Ok (), f s)"

text \<open>The \<open>?\<close> operator.\<close>

definition bindS :: "('s, 'e, 'a) op \<Rightarrow> ('a \<Rightarrow> ('s, 'e, 'b) op) \<Rightarrow> ('s, 'e, 'b) op" where
  "bindS m f s =
     (case m s of
        (Ok a, s') \<Rightarrow> f a s'
      | (Err e, s') \<Rightarrow> (Err e, s')
      | (Panic, s') \<Rightarrow> (Panic, s'))"

definition thenS :: "('s, 'e, 'a) op \<Rightarrow> ('s, 'e, 'b) op \<Rightarrow> ('s, 'e, 'b) op" where
  "thenS m n = bindS m (\<lambda>_. n)"

definition whenS :: "bool \<Rightarrow> ('s, 'e, unit) op \<Rightarrow> ('s, 'e, unit) op" where
  "whenS b m = (if b then m else returnS ())"

fun forS :: "('a \<Rightarrow> ('s, 'e, unit) op) \<Rightarrow> 'a list \<Rightarrow> ('s, 'e, unit) op" where
  "forS f [] = returnS ()"
| "forS f (x # xs) = thenS (f x) (forS f xs)"

text \<open>\<open>let _ = \<dots>\<close>: the error is dropped, a panic is not.\<close>

definition ignoreS :: "('s, 'e, unit) op \<Rightarrow> ('s, 'e, unit) op" where
  "ignoreS m s = (case m s of (Err e, s') \<Rightarrow> (Ok (), s') | r \<Rightarrow> r)"

lemma op_simps [simp]:
  "returnS a s = (Ok a, s)" "raiseS e s = (Err e, s)" "liftS r s = (r, s)"
  "getS f s = (Ok (f s), s)" "modifyS g s = (Ok (), g s)"
  by (simp_all add: returnS_def raiseS_def liftS_def getS_def modifyS_def)

lemma bindS_cases [simp]:
  "m s = (Ok a, s') \<Longrightarrow> bindS m f s = f a s'"
  "m s = (Err e, s') \<Longrightarrow> bindS m f s = (Err e, s')"
  "m s = (Panic, s') \<Longrightarrow> bindS m f s = (Panic, s')"
  by (simp_all add: bindS_def)

section \<open>What an operation does to its state\<close>

text \<open>
  \<open>leads R m s\<close>: however \<open>m\<close> ends from \<open>s\<close>, the state it leaves is related by \<open>R\<close> to \<open>s\<close>.
  For a reflexive and transitive relation this composes along every operation.
\<close>

definition leads :: "('s \<Rightarrow> 's \<Rightarrow> bool) \<Rightarrow> ('s, 'e, 'a) op \<Rightarrow> 's \<Rightarrow> bool" where
  "leads R m s \<longleftrightarrow> R s (snd (m s))"

locale preorder_relation =
  fixes R :: "'s \<Rightarrow> 's \<Rightarrow> bool"
  assumes refl: "R s s"
    and trans: "R s t \<Longrightarrow> R t u \<Longrightarrow> R s u"
begin

lemma leads_pure [simp, intro]:
  "leads R (returnS a) s" "leads R (raiseS e) s" "leads R (liftS r) s" "leads R (getS f) s"
  by (simp_all add: leads_def refl)

lemma leads_bind [intro]:
  assumes "leads R m s" "\<And>a s'. m s = (Ok a, s') \<Longrightarrow> R s s' \<Longrightarrow> leads R (f a) s'"
  shows "leads R (bindS m f) s"
proof -
  obtain r s' where m: "m s = (r, s')" by fastforce
  show ?thesis
    using assms(1) assms(2) [of _ s'] m trans by (cases r) (auto simp: leads_def)
qed

lemma leads_then [intro]: "leads R m s \<Longrightarrow> (\<And>a s'. m s = (Ok a, s') \<Longrightarrow> R s s' \<Longrightarrow> leads R n s') \<Longrightarrow> leads R (thenS m n) s"
  unfolding thenS_def by (rule leads_bind)

lemma leads_when [intro]: "(b \<Longrightarrow> leads R m s) \<Longrightarrow> leads R (whenS b m) s"
  by (simp add: whenS_def)

lemma leads_for [intro]: "(\<And>x s. x \<in> set xs \<Longrightarrow> leads R (f x) s) \<Longrightarrow> leads R (forS f xs) s"
  by (induction xs arbitrary: s) auto

lemma leads_ignore [intro]: "leads R m s \<Longrightarrow> leads R (ignoreS m) s"
  unfolding leads_def ignoreS_def by (auto split: prod.split outcome.split)

end

end
