(* ===== verification/Backend.thy ===== *)
theory Backend
  imports Effect Views
begin

text \<open>
  Where the objects of a table live (\<^verbatim>\<open>src/storage_lite/io.rs\<close>): the \<open>StorageBackend\<close> trait as
  a record of operations on a world, its documented contract as the locale
  \<open>storage_backend\<close>, and the two implementations: \<open>FsBackend\<close> over a file system whose every
  call may fail, and \<open>MemBackend\<close>.

  The file system has a directory (name to inode), the contents of each inode, and for both
  what a power loss is sure to preserve (what was last synced).  Whether its \<open>n\<close>-th call
  fails is asked of an arbitrary function, which for a write also says how many bytes went
  out before the failure.
\<close>

section \<open>The trait\<close>

text \<open>A log writer: the object it was opened on and the file (or pending buffer) behind it.\<close>

record log_handle =
  lh_name :: rstring
  lh_file :: nat

record 'd backend =
  be_write :: "rstring \<Rightarrow> bytes \<Rightarrow> ('d, io_error, unit) op"
  be_read :: "'d \<Rightarrow> read_object"
  be_list :: "'d \<Rightarrow> (io_error, rstring list) outcome"
  be_remove :: "rstring \<Rightarrow> ('d, io_error, unit) op"
  be_open_log :: "rstring \<Rightarrow> ('d, io_error, log_handle) op"
  be_log_append :: "log_handle \<Rightarrow> bytes \<Rightarrow> ('d, io_error, unit) op"
  be_log_sync :: "log_handle \<Rightarrow> ('d, io_error, unit) op"
  be_now :: "'d \<Rightarrow> nat"

text \<open>Names that begin with a dot are reserved for the backend's own bookkeeping.\<close>

definition public_name :: "rstring \<Rightarrow> bool" where
  "public_name name \<longleftrightarrow> take 1 name \<noteq> ascii ''.''"

section \<open>The contract\<close>

text \<open>
  \<open>objects\<close> is the flat namespace; \<open>good\<close> and \<open>log_ok\<close> are the backend's own invariants.  A
  failed operation leaves its object as it was or as a success would have: the publish is
  atomic.  No operation touches another object.
\<close>

locale storage_backend =
  fixes be :: "'d backend"
    and objects :: "'d \<Rightarrow> rstring \<Rightarrow> bytes option"
    and good :: "'d \<Rightarrow> bool"
    and log_ok :: "'d \<Rightarrow> log_handle \<Rightarrow> bool"
  assumes read: "good d \<Longrightarrow> public_name n \<Longrightarrow>
      be_read be d n \<noteq> Panic \<and> (\<forall>b. be_read be d n = Ok b \<longrightarrow> objects d n = Some b)"
    and list: "good d \<Longrightarrow> be_list be d \<noteq> Panic \<and>
      (\<forall>ns. be_list be d = Ok ns \<longrightarrow> set ns = {n. objects d n \<noteq> None} \<and> (\<forall>n\<in>set ns. public_name n))"
    and written: "good d \<Longrightarrow> public_name n \<Longrightarrow> be_write be n b d = (r, d') \<Longrightarrow>
      good d' \<and> (\<forall>h. log_ok d h \<longrightarrow> log_ok d' h) \<and> r \<noteq> Panic \<and>
      (objects d' = objects d \<or> objects d' = (objects d)(n \<mapsto> b)) \<and> (r = Ok () \<longrightarrow> objects d' n = Some b)"
    and remove: "good d \<Longrightarrow> public_name n \<Longrightarrow> be_remove be n d = (r, d') \<Longrightarrow>
      good d' \<and> (\<forall>h. log_ok d h \<longrightarrow> log_ok d' h) \<and> r \<noteq> Panic \<and>
      (objects d' = objects d \<or> objects d' = (objects d)(n := None)) \<and> (r = Ok () \<longrightarrow> objects d' n = None)"
    and open_log: "good d \<Longrightarrow> public_name n \<Longrightarrow> be_open_log be n d = (opened, d') \<Longrightarrow>
      good d' \<and> (\<forall>h. log_ok d h \<longrightarrow> log_ok d' h) \<and> opened \<noteq> Panic \<and> objects d' = objects d \<and>
      (\<forall>h. opened = Ok h \<longrightarrow> log_ok d' h \<and> lh_name h = n)"
    and log_append: "good d \<Longrightarrow> log_ok d h \<Longrightarrow> be_log_append be h b d = (r, d') \<Longrightarrow>
      good d' \<and> (\<forall>h. log_ok d h \<longrightarrow> log_ok d' h) \<and> r \<noteq> Panic \<and>
      (\<forall>n. n \<noteq> lh_name h \<longrightarrow> objects d' n = objects d n)"
    and log_sync: "good d \<Longrightarrow> log_ok d h \<Longrightarrow> be_log_sync be h d = (r, d') \<Longrightarrow>
      good d' \<and> (\<forall>h. log_ok d h \<longrightarrow> log_ok d' h) \<and> r \<noteq> Panic \<and>
      (\<forall>n. n \<noteq> lh_name h \<longrightarrow> objects d' n = objects d n)"

section \<open>The file system\<close>

record fs =
  fs_dir :: "(rstring \<times> nat) list"
  fs_data :: "nat \<Rightarrow> bytes"
  fs_next :: nat
  fs_durable :: "(rstring \<times> nat) list"
  fs_stable :: "nat \<Rightarrow> bytes"
  fs_faults :: "nat \<Rightarrow> nat option"
  fs_calls :: nat
  fs_counter :: u64

text \<open>One call of the operating system: \<open>Some k\<close> when it fails.\<close>

definition fs_call :: "string \<Rightarrow> (nat \<Rightarrow> fs \<Rightarrow> fs) \<Rightarrow> (fs, io_error, unit) op \<Rightarrow> (fs, io_error, unit) op" where
  "fs_call what partial action d =
     (let d' = d\<lparr>fs_calls := fs_calls d + 1\<rparr>
      in case fs_faults d (fs_calls d) of
           Some k \<Rightarrow> (Err (Backend what), partial k d')
         | None \<Rightarrow> action d')"

definition fs_inode :: "fs \<Rightarrow> rstring \<Rightarrow> nat option" where
  "fs_inode d name = map_of (fs_dir d) name"

text \<open>\<open>File::create\<close>: truncates, or makes a new inode.\<close>

definition fs_create :: "rstring \<Rightarrow> (fs, io_error, unit) op" where
  "fs_create name = fs_call ''creating'' (\<lambda>_ d. d) (modifyS (\<lambda>d.
     case fs_inode d name of
       Some i \<Rightarrow> d\<lparr>fs_data := (fs_data d)(i := [])\<rparr>
     | None \<Rightarrow> d\<lparr>fs_dir := (name, fs_next d) # fs_dir d, fs_data := (fs_data d)(fs_next d := []),
                 fs_next := fs_next d + 1\<rparr>))"

definition fs_extend :: "nat \<Rightarrow> bytes \<Rightarrow> fs \<Rightarrow> fs" where
  "fs_extend i bytes d = d\<lparr>fs_data := (fs_data d)(i := fs_data d i @ bytes)\<rparr>"

definition fs_write_all :: "string \<Rightarrow> nat \<Rightarrow> bytes \<Rightarrow> (fs, io_error, unit) op" where
  "fs_write_all what i bytes = fs_call what (\<lambda>k. fs_extend i (take k bytes)) (modifyS (fs_extend i bytes))"

definition fs_sync_file :: "nat \<Rightarrow> (fs, io_error, unit) op" where
  "fs_sync_file i = fs_call ''syncing'' (\<lambda>_ d. d)
     (modifyS (\<lambda>d. d\<lparr>fs_stable := (fs_stable d)(i := fs_data d i)\<rparr>))"

definition dir_remove :: "rstring \<Rightarrow> (rstring \<times> nat) list \<Rightarrow> (rstring \<times> nat) list" where
  "dir_remove name = filter (\<lambda>e. fst e \<noteq> name)"

definition fs_rename :: "rstring \<Rightarrow> rstring \<Rightarrow> (fs, io_error, unit) op" where
  "fs_rename old new = fs_call ''publishing'' (\<lambda>_ d. d) (\<lambda>d.
     case fs_inode d old of
       None \<Rightarrow> (Err (Backend ''publishing''), d)
     | Some i \<Rightarrow> (Ok (), d\<lparr>fs_dir := (new, i) # dir_remove new (dir_remove old (fs_dir d))\<rparr>))"

definition fs_sync_dir :: "(fs, io_error, unit) op" where
  "fs_sync_dir = fs_call ''syncing'' (\<lambda>_ d. d) (modifyS (\<lambda>d. d\<lparr>fs_durable := fs_dir d\<rparr>))"

section \<open>FsBackend\<close>

record fs_backend =
  fb_pid :: nat
  fb_read_only :: bool

definition refuse_write :: "fs_backend \<Rightarrow> (fs, io_error, unit) op" where
  "refuse_write fb = (if fb_read_only fb then raiseS (Backend ''read-only backend refuses'') else returnS ())"

definition temp_name :: "fs_backend \<Rightarrow> rstring \<Rightarrow> u64 \<Rightarrow> rstring" where
  "temp_name fb name unique =
     ascii ''.tmp-'' @ name @ ascii ''.'' @ decimal (fb_pid fb) @ ascii ''.'' @ decimal (unat unique)"

definition fs_fetch_counter :: "(fs, io_error, u64) op" where
  "fs_fetch_counter d = (Ok (fs_counter d), d\<lparr>fs_counter := fs_counter d + 1\<rparr>)"

text \<open>The contents go to a synced temporary, which is then renamed.\<close>

definition fs_write_temp :: "rstring \<Rightarrow> bytes \<Rightarrow> (fs, io_error, unit) op" where
  "fs_write_temp temp bytes =
     thenS (fs_create temp)
    (bindS (getS (\<lambda>d. fs_inode d temp)) (\<lambda>file.
       case file of
         None \<Rightarrow> raiseS (Backend ''creating'')
       | Some i \<Rightarrow> thenS (fs_write_all ''writing'' i bytes) (fs_sync_file i)))"

definition fs_write :: "fs_backend \<Rightarrow> rstring \<Rightarrow> bytes \<Rightarrow> (fs, io_error, unit) op" where
  "fs_write fb name bytes =
     thenS (refuse_write fb)
    (bindS fs_fetch_counter (\<lambda>unique.
     thenS (fs_write_temp (temp_name fb name unique) bytes)
    (thenS (fs_rename (temp_name fb name unique) name)
     fs_sync_dir)))"

text \<open>Reading and listing leave the file system as it is; whether they fail is asked of the next call.\<close>

definition fs_read :: "fs \<Rightarrow> read_object" where
  "fs_read d name =
     (case fs_faults d (fs_calls d) of
        Some _ \<Rightarrow> Err (Backend ''reading'')
      | None \<Rightarrow> (case fs_inode d name of Some i \<Rightarrow> Ok (fs_data d i) | None \<Rightarrow> Err (NotFound name)))"

definition fs_list :: "fs \<Rightarrow> (io_error, rstring list) outcome" where
  "fs_list d =
     (case fs_faults d (fs_calls d) of
        Some _ \<Rightarrow> Err (Backend ''listing'')
      | None \<Rightarrow> Ok (filter public_name (map fst (fs_dir d))))"

definition fs_open_log :: "fs_backend \<Rightarrow> rstring \<Rightarrow> (fs, io_error, log_handle) op" where
  "fs_open_log fb name =
     thenS (refuse_write fb)
    (thenS (fs_call ''opening'' (\<lambda>_ d. d) (returnS ()))
    (bindS (getS (\<lambda>d. fs_inode d name)) (\<lambda>file.
       case file of
         None \<Rightarrow> raiseS (NotFound name)
       | Some i \<Rightarrow> returnS \<lparr>lh_name = name, lh_file = i\<rparr>)))"

definition fs_remove :: "fs_backend \<Rightarrow> rstring \<Rightarrow> (fs, io_error, unit) op" where
  "fs_remove fb name =
     thenS (refuse_write fb)
    (fs_call ''removing'' (\<lambda>_ d. d) (\<lambda>d.
       case fs_inode d name of
         None \<Rightarrow> (Err (NotFound name), d)
       | Some _ \<Rightarrow> (Ok (), d\<lparr>fs_dir := dir_remove name (fs_dir d)\<rparr>)))"

definition fs_log_append :: "log_handle \<Rightarrow> bytes \<Rightarrow> (fs, io_error, unit) op" where
  "fs_log_append h bytes = fs_write_all ''appending'' (lh_file h) bytes"

definition fs_log_sync :: "log_handle \<Rightarrow> (fs, io_error, unit) op" where
  "fs_log_sync h = fs_sync_file (lh_file h)"

text \<open>The clock is read as the number of calls so far; only its order matters.\<close>

definition fs_storage :: "fs_backend \<Rightarrow> fs backend" where
  "fs_storage fb =
     \<lparr>be_write = fs_write fb, be_read = fs_read, be_list = fs_list, be_remove = fs_remove fb,
      be_open_log = fs_open_log fb, be_log_append = fs_log_append, be_log_sync = fs_log_sync,
      be_now = fs_calls\<rparr>"

section \<open>FsBackend keeps the contract\<close>

definition fs_objects :: "fs \<Rightarrow> rstring \<Rightarrow> bytes option" where
  "fs_objects d name = (if public_name name then map_option (fs_data d) (fs_inode d name) else None)"

text \<open>What is sure to be there after a power loss.\<close>

definition fs_survives :: "fs \<Rightarrow> rstring \<Rightarrow> bytes option" where
  "fs_survives d name = map_option (fs_stable d) (map_of (fs_durable d) name)"

text \<open>No two names share an inode, and a temporary's inode never was a published one.\<close>

definition fs_good :: "fs \<Rightarrow> bool" where
  "fs_good d \<longleftrightarrow> (\<forall>n i. fs_inode d n = Some i \<longrightarrow> i < fs_next d) \<and>
     (\<forall>n m i. fs_inode d n = Some i \<longrightarrow> fs_inode d m = Some i \<longrightarrow> n = m) \<and>
     (\<forall>n m i. public_name n \<longrightarrow> map_of (fs_durable d) n = Some i \<longrightarrow> fs_inode d m = Some i \<longrightarrow> public_name m) \<and>
     (\<forall>n i. map_of (fs_durable d) n = Some i \<longrightarrow> i < fs_next d)"

definition fs_log_ok :: "fs \<Rightarrow> log_handle \<Rightarrow> bool" where
  "fs_log_ok d h \<longleftrightarrow> public_name (lh_name h) \<and> lh_file h < fs_next d \<and>
     (\<forall>n. fs_inode d n = Some (lh_file h) \<longrightarrow> n = lh_name h)"

lemma temp_name_reserved [simp]: "\<not> public_name (temp_name fb name unique)"
  by (simp add: public_name_def temp_name_def ascii_def)

lemma map_of_dir_remove: "map_of (dir_remove name dir) = (map_of dir)(name := None)"
  by (induction dir) (auto simp: dir_remove_def)

lemma fs_call_simps [simp]:
  "fs_faults d (fs_calls d) = None \<Longrightarrow> fs_call what partial action d = action (d\<lparr>fs_calls := fs_calls d + 1\<rparr>)"
  "fs_faults d (fs_calls d) = Some k \<Longrightarrow>
     fs_call what partial action d = (Err (Backend what), partial k (d\<lparr>fs_calls := fs_calls d + 1\<rparr>))"
  by (simp_all add: fs_call_def)

text \<open>What the calls on a temporary keep: everything published, seen and durable.\<close>

definition fs_same :: "fs \<Rightarrow> fs \<Rightarrow> bool" where
  "fs_same d d' \<longleftrightarrow> fs_good d' \<and> fs_objects d' = fs_objects d \<and>
     (\<forall>n. public_name n \<longrightarrow> fs_survives d' n = fs_survives d n) \<and> (\<forall>h. fs_log_ok d h \<longrightarrow> fs_log_ok d' h)"

lemma fs_same_trans: "fs_same d d' \<Longrightarrow> fs_same d' d'' \<Longrightarrow> fs_same d d''"
  by (simp add: fs_same_def)

lemma fs_same_refl: "fs_good d \<Longrightarrow> fs_same d d"
  by (simp add: fs_same_def)

lemmas fs_state_defs = fs_good_def fs_objects_def fs_survives_def fs_log_ok_def fs_inode_def

lemma fs_same_calls [simp]: "fs_good d \<Longrightarrow> fs_same d (d\<lparr>fs_calls := n\<rparr>)" "fs_good d \<Longrightarrow> fs_same d (d\<lparr>fs_counter := c\<rparr>)"
  by (simp_all add: fs_same_def fs_state_defs fun_eq_iff)

lemma fs_same_temp_data:
  assumes "fs_good d" "fs_inode d temp = Some i" "\<not> public_name temp"
  shows "fs_same d (d\<lparr>fs_data := (fs_data d)(i := b)\<rparr>)" "fs_same d (d\<lparr>fs_stable := (fs_stable d)(i := b)\<rparr>)"
proof -
  have dir: "fs_inode d n \<noteq> Some i" if "public_name n" for n using assms that unfolding fs_good_def by blast
  have "fs_objects (d\<lparr>fs_data := (fs_data d)(i := b)\<rparr>) n = fs_objects d n" for n
    using dir [of n] by (cases "fs_inode d n") (auto simp: fs_objects_def fs_inode_def)
  then show "fs_same d (d\<lparr>fs_data := (fs_data d)(i := b)\<rparr>)"
    using assms(1) by (simp add: fs_same_def fs_good_def fs_log_ok_def fs_survives_def fs_inode_def fun_eq_iff)
  have "map_of (fs_durable d) n \<noteq> Some i" if "public_name n" for n
    using assms that unfolding fs_good_def by blast
  then have "fs_survives (d\<lparr>fs_stable := (fs_stable d)(i := b)\<rparr>) n = fs_survives d n" if "public_name n" for n
    using that by (cases "map_of (fs_durable d) n") (auto simp: fs_survives_def)
  then show "fs_same d (d\<lparr>fs_stable := (fs_stable d)(i := b)\<rparr>)"
    using assms(1) by (simp add: fs_same_def fs_good_def fs_log_ok_def fs_objects_def fs_inode_def fun_eq_iff)
qed

lemma fs_create_same:
  assumes "fs_good d" "\<not> public_name temp" "fs_create temp d = (r, d')"
  shows "fs_same d d' \<and> r \<noteq> Panic \<and> (r = Ok () \<longrightarrow> (\<exists>i. fs_inode d' temp = Some i \<and> fs_data d' i = []))"
proof (cases "fs_faults d (fs_calls d)")
  case None
  let ?d = "d\<lparr>fs_calls := fs_calls d + 1\<rparr>"
  have good: "fs_same d ?d" by (rule fs_same_calls [OF assms(1)])
  then have "fs_good ?d" by (simp add: fs_same_def)
  show ?thesis
  proof (cases "fs_inode d temp")
    case (Some i)
    then have "d' = ?d\<lparr>fs_data := (fs_data ?d)(i := [])\<rparr>" "r = Ok ()" "fs_inode ?d temp = Some i"
      using assms(3) None by (auto simp: fs_create_def fs_inode_def)
    then show ?thesis
      using fs_same_trans [OF good fs_same_temp_data(1) [OF \<open>fs_good ?d\<close> _ assms(2)]] by (simp add: fs_inode_def)
  next
    case fresh: None
    then have d': "d' = ?d\<lparr>fs_dir := (temp, fs_next d) # fs_dir d, fs_data := (fs_data d)(fs_next d := []),
        fs_next := fs_next d + 1\<rparr>" "r = Ok ()"
      using assms(3) None by (auto simp: fs_create_def fs_inode_def)
    have lt: "i < fs_next d" if "fs_inode d n = Some i" for n i using assms(1) that by (simp add: fs_good_def)
    have lt2: "i < fs_next d" if "map_of (fs_durable d) n = Some i" for n i using assms(1) that by (simp add: fs_good_def)
    have ino: "fs_inode d' n = (if n = temp then Some (fs_next d) else fs_inode d n)" for n
      by (simp add: d' fs_inode_def)
    have p: "fs_data d' = (fs_data d)(fs_next d := [])" "fs_next d' = Suc (fs_next d)" "fs_durable d' = fs_durable d"
      by (simp_all add: d')
    have "i < fs_next d'" if "fs_inode d' n = Some i" for n i
      using that lt [of n i] by (auto simp: ino p split: if_splits)
    moreover have "n = m" if "fs_inode d' n = Some i" "fs_inode d' m = Some i" for n m i
      using that assms(1) lt [of n i] lt [of m i] by (auto simp: ino fs_good_def split: if_splits)
    moreover have "public_name m" if "public_name n" "map_of (fs_durable d') n = Some i" "fs_inode d' m = Some i" for n m i
      using that assms(1) lt2 [of n i] by (auto simp: ino p fs_good_def split: if_splits)
    moreover have "i < fs_next d'" if "map_of (fs_durable d') n = Some i" for n i
      using that lt2 [of n i] by (simp add: d')
    ultimately have "fs_good d'" unfolding fs_good_def by blast
    moreover have "fs_objects d' = fs_objects d"
    proof
      fix n
      show "fs_objects d' n = fs_objects d n"
        using assms(2) lt [of n] by (cases "fs_inode d n") (auto simp: fs_objects_def ino p)
    qed
    moreover have "fs_log_ok d' h" if "fs_log_ok d h" for h
      using that assms(2) by (auto simp: fs_log_ok_def ino p split: if_splits)
    moreover have "fs_survives d' n = fs_survives d n" for n by (simp add: fs_survives_def d')
    moreover have "fs_inode d' temp = Some (fs_next d) \<and> fs_data d' (fs_next d) = []" by (simp add: ino p)
    ultimately show ?thesis using d'(2) by (auto simp: fs_same_def)
  qed
qed (use assms in \<open>auto simp: fs_create_def\<close>)

text \<open>Writing the temporary: nothing is seen of it, and when it succeeds its contents are synced.\<close>

lemma fs_write_temp_same:
  assumes "fs_good d" "\<not> public_name temp" "fs_write_temp temp b d = (r, d')"
  shows "fs_same d d' \<and> r \<noteq> Panic \<and>
    (r = Ok () \<longrightarrow> (\<exists>i. fs_inode d' temp = Some i \<and> fs_data d' i = b \<and> fs_stable d' i = b))"
proof -
  obtain r1 d1 where c: "fs_create temp d = (r1, d1)" by fastforce
  note c1 = fs_create_same [OF assms(1,2) c]
  then have g1: "fs_good d1" by (simp add: fs_same_def)
  show ?thesis
  proof (cases r1)
    case (Ok u)
    then obtain i where i: "fs_inode d1 temp = Some i" "fs_data d1 i = []" using c1 by auto
    obtain r2 d2 where w: "fs_write_all ''writing'' i b d1 = (r2, d2)" by fastforce
    have keep: "fs_same d1 (fs_extend i bs (d1\<lparr>fs_calls := n\<rparr>))" for bs n
    proof -
      let ?d = "d1\<lparr>fs_calls := n\<rparr>"
      have s: "fs_same d1 ?d" by (rule fs_same_calls [OF g1])
      then have "fs_same ?d (fs_extend i bs ?d)"
        unfolding fs_extend_def using i(1) assms(2) by (intro fs_same_temp_data(1)) (simp_all add: fs_same_def fs_inode_def)
      then show ?thesis by (rule fs_same_trans [OF s])
    qed
    have w2: "fs_same d1 d2 \<and> r2 \<noteq> Panic \<and> fs_inode d2 temp = Some i \<and> (r2 = Ok () \<longrightarrow> fs_data d2 i = b)"
      using w keep i by (cases "fs_faults d1 (fs_calls d1)")
        (auto simp: fs_write_all_def fs_extend_def fs_inode_def)
    then have g2: "fs_good d2" by (simp add: fs_same_def)
    show ?thesis
    proof (cases r2)
      case ok: (Ok v)
      obtain r3 d3 where y: "fs_sync_file i d2 = (r3, d3)" by fastforce
      let ?d = "d2\<lparr>fs_calls := fs_calls d2 + 1\<rparr>"
      have s: "fs_same d2 ?d" by (rule fs_same_calls [OF g2])
      moreover have "fs_same ?d (?d\<lparr>fs_stable := (fs_stable ?d)(i := fs_data ?d i)\<rparr>)"
        using s w2 assms(2) by (intro fs_same_temp_data(2)) (simp_all add: fs_same_def fs_inode_def)
      ultimately have "fs_same d2 d3 \<and> r3 \<noteq> Panic \<and>
          (r3 = Ok () \<longrightarrow> fs_inode d3 temp = Some i \<and> fs_data d3 i = b \<and> fs_stable d3 i = b)"
        using y w2 ok fs_same_trans by (cases "fs_faults d2 (fs_calls d2)") (auto simp: fs_sync_file_def fs_inode_def)
      moreover have "(r, d') = (r3, d3)" using assms(3) c Ok i(1) w ok y by (simp add: fs_write_temp_def thenS_def)
      ultimately show ?thesis using c1 w2 fs_same_trans by blast
    qed (use assms(3) c Ok i(1) w w2 c1 fs_same_trans in \<open>auto simp: fs_write_temp_def thenS_def\<close>)
  qed (use assms(3) c c1 in \<open>auto simp: fs_write_temp_def thenS_def\<close>)
qed

text \<open>The rename publishes; the directory sync makes the publish durable.\<close>

lemma fs_rename_publishes:
  assumes "fs_good d" "public_name n" "\<not> public_name temp" "fs_inode d temp = Some i" "fs_rename temp n d = (r, d')"
  shows "fs_good d' \<and> r \<noteq> Panic \<and> (\<forall>h. fs_log_ok d h \<longrightarrow> fs_log_ok d' h) \<and> fs_survives d' = fs_survives d \<and>
    (r = Ok () \<longrightarrow> fs_objects d' = (fs_objects d)(n \<mapsto> fs_data d i) \<and> fs_inode d' n = Some i \<and> fs_stable d' = fs_stable d) \<and>
    (r \<noteq> Ok () \<longrightarrow> fs_objects d' = fs_objects d)"
proof (cases "fs_faults d (fs_calls d)")
  case None
  then have d': "d' = d\<lparr>fs_calls := fs_calls d + 1, fs_dir := (n, i) # dir_remove n (dir_remove temp (fs_dir d))\<rparr>" "r = Ok ()"
    using assms(4,5) by (auto simp: fs_rename_def fs_inode_def)
  have nt: "n \<noteq> temp" using assms(2,3) by blast
  have ino: "fs_inode d' m = (if m = n then Some i else if m = temp then None else fs_inode d m)" for m
    by (simp add: d' fs_inode_def map_of_dir_remove)
  have p: "fs_data d' = fs_data d" "fs_next d' = fs_next d" "fs_durable d' = fs_durable d" "fs_stable d' = fs_stable d"
    by (simp_all add: d')
  have uniq: "m = temp" if "fs_inode d m = Some i" for m
    using assms(1,4) that by (auto simp: fs_good_def)
  have lt: "j < fs_next d" if "fs_inode d m = Some j" for m j using assms(1) that by (simp add: fs_good_def)
  have "j < fs_next d'" if "fs_inode d' m = Some j" for m j
    using that lt [of m j] lt [OF assms(4)] by (auto simp: ino p split: if_splits)
  moreover have "m = k" if "fs_inode d' m = Some j" "fs_inode d' k = Some j" for m k j
    using that assms(1) uniq [of m] uniq [of k] by (auto simp: ino fs_good_def split: if_splits)
  moreover have "public_name k" if "public_name m" "map_of (fs_durable d') m = Some j" "fs_inode d' k = Some j" for m k j
    using that assms(1,2) by (auto simp: ino p fs_good_def split: if_splits)
  moreover have "j < fs_next d'" if "map_of (fs_durable d') m = Some j" for m j
    using that assms(1) by (auto simp: p fs_good_def)
  ultimately have "fs_good d'" unfolding fs_good_def by blast
  moreover have "fs_objects d' = (fs_objects d)(n \<mapsto> fs_data d i)"
    using assms(2,3) by (auto simp: fun_eq_iff fs_objects_def ino p)
  moreover have "fs_log_ok d' h" if "fs_log_ok d h" for h
    using that assms(3,4) by (auto simp: fs_log_ok_def ino p split: if_splits)
  ultimately show ?thesis using d'(2) by (simp add: ino p fs_survives_def fun_eq_iff)
next
  case (Some k)
  then have "d' = d\<lparr>fs_calls := fs_calls d + 1\<rparr>" "r = Err (Backend ''publishing'')"
    using assms(5) by (auto simp: fs_rename_def)
  then show ?thesis using assms(1) by (simp add: fs_state_defs fun_eq_iff)
qed

lemma fs_sync_dir_durable:
  assumes "fs_good d" "fs_sync_dir d = (r, d')"
  shows "fs_good d' \<and> r \<noteq> Panic \<and> (\<forall>h. fs_log_ok d h \<longrightarrow> fs_log_ok d' h) \<and> fs_objects d' = fs_objects d \<and>
    (r \<noteq> Ok () \<longrightarrow> fs_survives d' = fs_survives d) \<and>
    (r = Ok () \<longrightarrow> (\<forall>n. fs_survives d' n = map_option (fs_stable d) (fs_inode d n)))"
proof (cases "fs_faults d (fs_calls d)")
  case None
  then have d': "d' = d\<lparr>fs_calls := fs_calls d + 1, fs_durable := fs_dir d\<rparr>" "r = Ok ()"
    using assms(2) by (auto simp: fs_sync_dir_def)
  have "fs_good d'"
    using assms(1) unfolding fs_good_def fs_inode_def d' by simp metis
  then show ?thesis unfolding d' by (simp add: fs_objects_def fs_survives_def fs_log_ok_def fs_inode_def fun_eq_iff)
next
  case (Some k)
  then have "d' = d\<lparr>fs_calls := fs_calls d + 1\<rparr>" "r = Err (Backend ''syncing'')"
    using assms(2) by (auto simp: fs_sync_dir_def)
  then show ?thesis using assms(1) by (simp add: fs_state_defs fun_eq_iff)
qed

text \<open>A write publishes all or nothing, at every point it can be cut off.\<close>

lemma fs_write_publishes:
  assumes "fs_good d" "public_name n" "fs_write fb n b d = (r, d')"
  shows "fs_good d' \<and> r \<noteq> Panic \<and> (\<forall>h. fs_log_ok d h \<longrightarrow> fs_log_ok d' h) \<and>
    (fs_objects d' = fs_objects d \<or> fs_objects d' = (fs_objects d)(n \<mapsto> b)) \<and>
    (r = Ok () \<longrightarrow> fs_objects d' n = Some b \<and> fs_survives d' n = Some b) \<and>
    (r \<noteq> Ok () \<longrightarrow> (\<forall>m. public_name m \<longrightarrow> fs_survives d' m = fs_survives d m))"
proof (cases "fb_read_only fb")
  case True
  then have "r = Err (Backend ''read-only backend refuses'')" "d' = d"
    using assms(3) by (simp_all add: fs_write_def refuse_write_def thenS_def)
  then show ?thesis using assms(1) by simp
next
  case False
  let ?temp = "temp_name fb n (fs_counter d)"
  let ?d = "d\<lparr>fs_counter := fs_counter d + 1\<rparr>"
  have s0: "fs_same d ?d" by (rule fs_same_calls [OF assms(1)])
  obtain r1 d1 where w: "fs_write_temp ?temp b ?d = (r1, d1)" by fastforce
  have g0: "fs_good ?d" using s0 by (simp add: fs_same_def)
  note w1 = fs_write_temp_same [OF g0 temp_name_reserved w]
  then have s1: "fs_same d d1" using s0 fs_same_trans by blast
  show ?thesis
  proof (cases r1)
    case (Ok u)
    then obtain i where i: "fs_inode d1 ?temp = Some i" "fs_data d1 i = b" "fs_stable d1 i = b" using w1 by auto
    obtain r2 d2 where m: "fs_rename ?temp n d1 = (r2, d2)" by fastforce
    have "fs_good d1" using s1 by (simp add: fs_same_def)
    note m1 = fs_rename_publishes [OF this assms(2) temp_name_reserved i(1) m]
    show ?thesis
    proof (cases r2)
      case ok: (Ok v)
      obtain r3 d3 where y: "fs_sync_dir d2 = (r3, d3)" by fastforce
      have "fs_good d2" using m1 by simp
      note y1 = fs_sync_dir_durable [OF this y]
      have "(r, d') = (r3, d3)"
        using assms(3) False w Ok m ok y by (simp add: fs_write_def refuse_write_def thenS_def fs_fetch_counter_def)
      then show ?thesis using s1 m1 y1 i ok by (auto simp: fs_same_def)
    qed (use assms(3) False w Ok m m1 s1 in
        \<open>auto simp: fs_write_def refuse_write_def thenS_def fs_fetch_counter_def fs_same_def\<close>)
  qed (use assms(3) False w w1 s1 in \<open>auto simp: fs_write_def refuse_write_def thenS_def fs_fetch_counter_def fs_same_def\<close>)
qed

lemma fs_log_ok_write:
  assumes "fs_good d" "fs_log_ok d h" "fs_write_all what (lh_file h) b d = (r, d')"
  shows "fs_good d' \<and> (\<forall>h. fs_log_ok d h \<longrightarrow> fs_log_ok d' h) \<and> r \<noteq> Panic \<and>
    (\<forall>n. n \<noteq> lh_name h \<longrightarrow> fs_objects d' n = fs_objects d n)"
proof -
  obtain bs where d': "d' = fs_extend (lh_file h) bs (d\<lparr>fs_calls := fs_calls d + 1\<rparr>)" and r: "r \<noteq> Panic"
    using assms(3) that by (cases "fs_faults d (fs_calls d)") (simp_all add: fs_write_all_def, blast+)
  have "fs_objects d' n = fs_objects d n" if "n \<noteq> lh_name h" for n
    using assms(2) that by (cases "fs_inode d n") (auto simp: d' fs_extend_def fs_objects_def fs_log_ok_def fs_inode_def)
  moreover have "fs_good d'" using assms(1) by (simp add: d' fs_extend_def fs_good_def fs_inode_def)
  moreover have "fs_log_ok d g \<Longrightarrow> fs_log_ok d' g" for g by (simp add: d' fs_extend_def fs_log_ok_def fs_inode_def)
  ultimately show ?thesis using r by blast
qed

lemma fs_remove_contract:
  assumes "fs_good d" "public_name n" "fs_remove fb n d = (r, d')"
  shows "fs_good d' \<and> (\<forall>h. fs_log_ok d h \<longrightarrow> fs_log_ok d' h) \<and> r \<noteq> Panic \<and>
    (fs_objects d' = fs_objects d \<or> fs_objects d' = (fs_objects d)(n := None)) \<and> (r = Ok () \<longrightarrow> fs_objects d' n = None)"
proof -
  let ?c = "d\<lparr>fs_calls := fs_calls d + 1\<rparr>"
  have same: "fs_same d ?c" by (rule fs_same_calls [OF assms(1)])
  define e where "e = ?c\<lparr>fs_dir := dir_remove n (fs_dir d)\<rparr>"
  have p: "fs_data e = fs_data d" "fs_next e = fs_next d" "fs_durable e = fs_durable d" by (simp_all add: e_def)
  have "fs_remove fb n d =
      (if fb_read_only fb then (Err (Backend ''read-only backend refuses''), d)
       else case fs_faults d (fs_calls d) of
         Some k \<Rightarrow> (Err (Backend ''removing''), ?c)
       | None \<Rightarrow> (case fs_inode d n of None \<Rightarrow> (Err (NotFound n), ?c) | Some _ \<Rightarrow> (Ok (), e)))"
    unfolding e_def by (cases "fs_faults d (fs_calls d)"; cases "fs_inode d n")
      (simp_all add: fs_remove_def refuse_write_def thenS_def fs_inode_def)
  then have cases: "(r, d') = (Ok (), e) \<or> (\<exists>err. (r, d') \<in> {(Err err, d), (Err err, ?c)})"
    using assms(3) by (auto split: if_splits option.splits)
  have ino: "fs_inode e m = (if m = n then None else fs_inode d m)" for m by (simp add: fs_inode_def e_def map_of_dir_remove)
  have "fs_good e" using assms(1) unfolding fs_good_def by (auto simp: ino p)
  moreover have "fs_log_ok d h \<Longrightarrow> fs_log_ok e h" for h by (auto simp: fs_log_ok_def ino p)
  moreover have "fs_objects e = (fs_objects d)(n := None)" by (auto simp: fun_eq_iff fs_objects_def ino p)
  ultimately show ?thesis using cases same assms(1) unfolding fs_same_def by auto
qed

lemma fs_open_log_contract:
  assumes "fs_good d" "public_name n" "fs_open_log fb n d = (opened, d')"
  shows "fs_good d' \<and> (\<forall>h. fs_log_ok d h \<longrightarrow> fs_log_ok d' h) \<and> opened \<noteq> Panic \<and> fs_objects d' = fs_objects d \<and>
    (\<forall>h. opened = Ok h \<longrightarrow> fs_log_ok d' h \<and> lh_name h = n)"
proof -
  let ?c = "d\<lparr>fs_calls := fs_calls d + 1\<rparr>"
  have same: "fs_same d ?c" by (rule fs_same_calls [OF assms(1)])
  have "fs_open_log fb n d =
      (if fb_read_only fb then (Err (Backend ''read-only backend refuses''), d)
       else case fs_faults d (fs_calls d) of
         Some k \<Rightarrow> (Err (Backend ''opening''), ?c)
       | None \<Rightarrow> (case fs_inode d n of None \<Rightarrow> (Err (NotFound n), ?c) | Some i \<Rightarrow> (Ok \<lparr>lh_name = n, lh_file = i\<rparr>, ?c)))"
    by (cases "fs_faults d (fs_calls d)"; cases "fs_inode d n")
      (simp_all add: fs_open_log_def refuse_write_def thenS_def fs_inode_def)
  then have "(\<exists>i. (opened, d') = (Ok \<lparr>lh_name = n, lh_file = i\<rparr>, ?c) \<and> fs_inode d n = Some i) \<or>
      (\<exists>e. (opened, d') \<in> {(Err e, d), (Err e, ?c)})"
    using assms(3) by (auto split: if_splits option.splits)
  moreover have "fs_log_ok ?c h" if "fs_inode d n = Some (lh_file h)" "lh_name h = n" for h
    using assms(1,2) that unfolding fs_log_ok_def fs_good_def fs_inode_def by simp
  ultimately show ?thesis using same assms(1) unfolding fs_same_def by auto
qed

lemma fs_sync_file_contract:
  assumes "fs_good d" "fs_sync_file i d = (r, d')"
  shows "fs_good d' \<and> (\<forall>h. fs_log_ok d h \<longrightarrow> fs_log_ok d' h) \<and> r \<noteq> Panic \<and> fs_objects d' = fs_objects d"
  using assms by (cases "fs_faults d (fs_calls d)") (auto simp: fs_sync_file_def fs_state_defs fun_eq_iff)

interpretation fs: storage_backend "fs_storage fb" fs_objects fs_good fs_log_ok for fb
proof unfold_locales
  fix d n
  show "public_name n \<Longrightarrow> be_read (fs_storage fb) d n \<noteq> Panic \<and>
      (\<forall>b. be_read (fs_storage fb) d n = Ok b \<longrightarrow> fs_objects d n = Some b)"
    by (auto simp: fs_storage_def fs_read_def fs_objects_def split: option.splits)
  show "be_list (fs_storage fb) d \<noteq> Panic \<and> (\<forall>ns. be_list (fs_storage fb) d = Ok ns \<longrightarrow>
      set ns = {n. fs_objects d n \<noteq> None} \<and> (\<forall>n\<in>set ns. public_name n))"
    using dom_map_of_conv_image_fst [of "fs_dir d"]
    by (auto simp: fs_storage_def fs_list_def fs_objects_def fs_inode_def dom_def split: option.splits)
next
  fix d n b d' and r :: "(io_error, unit) outcome"
  assume "fs_good d" "public_name n" "be_write (fs_storage fb) n b d = (r, d')"
  then show "fs_good d' \<and> (\<forall>h. fs_log_ok d h \<longrightarrow> fs_log_ok d' h) \<and> r \<noteq> Panic \<and>
      (fs_objects d' = fs_objects d \<or> fs_objects d' = (fs_objects d)(n \<mapsto> b)) \<and> (r = Ok () \<longrightarrow> fs_objects d' n = Some b)"
    using fs_write_publishes [of d n fb b r d'] by (simp add: fs_storage_def)
next
  fix d n d' and r :: "(io_error, unit) outcome"
  assume "fs_good d" "public_name n" "be_remove (fs_storage fb) n d = (r, d')"
  then show "fs_good d' \<and> (\<forall>h. fs_log_ok d h \<longrightarrow> fs_log_ok d' h) \<and> r \<noteq> Panic \<and>
      (fs_objects d' = fs_objects d \<or> fs_objects d' = (fs_objects d)(n := None)) \<and> (r = Ok () \<longrightarrow> fs_objects d' n = None)"
    by (intro fs_remove_contract [of d n fb r d']) (simp_all add: fs_storage_def)
next
  fix d n d' opened
  assume "fs_good d" "public_name n" "be_open_log (fs_storage fb) n d = (opened, d')"
  then show "fs_good d' \<and> (\<forall>h. fs_log_ok d h \<longrightarrow> fs_log_ok d' h) \<and> opened \<noteq> Panic \<and> fs_objects d' = fs_objects d \<and>
      (\<forall>h. opened = Ok h \<longrightarrow> fs_log_ok d' h \<and> lh_name h = n)"
    by (intro fs_open_log_contract [of d n fb opened d']) (simp_all add: fs_storage_def)
next
  fix d h b d' and r :: "(io_error, unit) outcome"
  assume "fs_good d" "fs_log_ok d h" "be_log_append (fs_storage fb) h b d = (r, d')"
  then show "fs_good d' \<and> (\<forall>h. fs_log_ok d h \<longrightarrow> fs_log_ok d' h) \<and> r \<noteq> Panic \<and>
      (\<forall>n. n \<noteq> lh_name h \<longrightarrow> fs_objects d' n = fs_objects d n)"
    by (intro fs_log_ok_write [of d h "''appending''" b r d']) (simp_all add: fs_storage_def fs_log_append_def)
next
  fix d h d' and r :: "(io_error, unit) outcome"
  assume "fs_good d" "fs_log_ok d h" "be_log_sync (fs_storage fb) h d = (r, d')"
  then show "fs_good d' \<and> (\<forall>h. fs_log_ok d h \<longrightarrow> fs_log_ok d' h) \<and> r \<noteq> Panic \<and>
      (\<forall>n. n \<noteq> lh_name h \<longrightarrow> fs_objects d' n = fs_objects d n)"
    using fs_sync_file_contract [of d "lh_file h" r d'] by (simp add: fs_storage_def fs_log_sync_def)
qed

section \<open>MemBackend\<close>

text \<open>Appended bytes wait in the writer until they are synced.\<close>

record mem_world =
  mw_objects :: "(rstring \<times> bytes) list"
  mw_pending :: "nat \<Rightarrow> bytes"
  mw_next :: nat

definition mem_insert :: "rstring \<Rightarrow> bytes \<Rightarrow> mem_world \<Rightarrow> mem_world" where
  "mem_insert name bytes w = w\<lparr>mw_objects := (name, bytes) # filter (\<lambda>e. fst e \<noteq> name) (mw_objects w)\<rparr>"

definition mem_write :: "rstring \<Rightarrow> bytes \<Rightarrow> (mem_world, io_error, unit) op" where
  "mem_write name bytes = modifyS (mem_insert name bytes)"

definition mem_read :: "mem_world \<Rightarrow> read_object" where
  "mem_read w name = (case map_of (mw_objects w) name of Some b \<Rightarrow> Ok b | None \<Rightarrow> Err (NotFound name))"

definition mem_list :: "mem_world \<Rightarrow> (io_error, rstring list) outcome" where
  "mem_list w = Ok (map fst (mw_objects w))"

definition mem_remove :: "rstring \<Rightarrow> (mem_world, io_error, unit) op" where
  "mem_remove name w =
     (case map_of (mw_objects w) name of
        Some _ \<Rightarrow> (Ok (), w\<lparr>mw_objects := filter (\<lambda>e. fst e \<noteq> name) (mw_objects w)\<rparr>)
      | None \<Rightarrow> (Err (NotFound name), w))"

definition mem_open_log :: "rstring \<Rightarrow> (mem_world, io_error, log_handle) op" where
  "mem_open_log name w =
     (case map_of (mw_objects w) name of
        None \<Rightarrow> (Err (NotFound name), w)
      | Some _ \<Rightarrow> (Ok \<lparr>lh_name = name, lh_file = mw_next w\<rparr>,
                  w\<lparr>mw_pending := (mw_pending w)(mw_next w := []), mw_next := mw_next w + 1\<rparr>))"

definition mem_log_append :: "log_handle \<Rightarrow> bytes \<Rightarrow> (mem_world, io_error, unit) op" where
  "mem_log_append h bytes = modifyS (\<lambda>w. w\<lparr>mw_pending := (mw_pending w)(lh_file h := mw_pending w (lh_file h) @ bytes)\<rparr>)"

definition mem_log_sync :: "log_handle \<Rightarrow> (mem_world, io_error, unit) op" where
  "mem_log_sync h w =
     (if mw_pending w (lh_file h) = [] then (Ok (), w)
      else
        (let old = (case map_of (mw_objects w) (lh_name h) of Some b \<Rightarrow> b | None \<Rightarrow> [])
         in (Ok (), (mem_insert (lh_name h) (old @ mw_pending w (lh_file h)) w)
               \<lparr>mw_pending := (mw_pending w)(lh_file h := [])\<rparr>)))"

definition mem_storage :: "mem_world backend" where
  "mem_storage =
     \<lparr>be_write = mem_write, be_read = mem_read, be_list = mem_list, be_remove = mem_remove,
      be_open_log = mem_open_log, be_log_append = mem_log_append, be_log_sync = mem_log_sync,
      be_now = mw_next\<rparr>"

definition mem_objects :: "mem_world \<Rightarrow> rstring \<Rightarrow> bytes option" where
  "mem_objects w = map_of (mw_objects w)"

definition mem_good :: "mem_world \<Rightarrow> bool" where
  "mem_good w \<longleftrightarrow> (\<forall>e\<in>set (mw_objects w). public_name (fst e))"

definition mem_log_ok :: "mem_world \<Rightarrow> log_handle \<Rightarrow> bool" where
  "mem_log_ok w h \<longleftrightarrow> public_name (lh_name h)"

lemma map_of_filter_key: "map_of (filter (\<lambda>e. fst e \<noteq> name) xs) = (map_of xs)(name := None)"
  by (induction xs) auto

lemmas mem_defs = mem_storage_def mem_objects_def mem_good_def mem_log_ok_def mem_write_def mem_insert_def
  mem_read_def mem_list_def mem_remove_def mem_open_log_def mem_log_append_def mem_log_sync_def map_of_filter_key

interpretation mem: storage_backend mem_storage mem_objects mem_good mem_log_ok
  by unfold_locales
    (auto simp: mem_defs map_of_eq_None_iff image_iff Let_def split: option.splits if_splits)

section \<open>Property\<close>


definition sample_fs :: "(nat \<Rightarrow> nat option) \<Rightarrow> fs" where
  "sample_fs faults = \<lparr>fs_dir = [(ascii ''a'', 0)], fs_data = (\<lambda>_. [1]), fs_next = 1,
     fs_durable = [(ascii ''a'', 0)], fs_stable = (\<lambda>_. [1]), fs_faults = faults, fs_calls = 0, fs_counter = 0\<rparr>"

lemma sample_fs_good: "fs_good (sample_fs faults)" "public_name (ascii ''a'')"
  by (auto simp: fs_good_def fs_inode_def sample_fs_def public_name_def ascii_def split: if_splits)


end
