(* ===== verification/Knowledge.thy ===== *)
theory Knowledge
  imports Views
begin

text \<open>
  The knowledge axis of \<^verbatim>\<open>src/storage_lite/store.rs\<close>: the state readers and the writer share
  (\<open>Shared\<close>, \<open>Knowledge\<close>) with the operations that advance it, the snapshots taken of it
  (\<open>snapshot_of\<close>, \<open>KnowledgeSnapshot\<close>), the reads at a past coordinate (\<open>as_of\<close>) and the
  walk over what changed since one (\<open>touched_walk\<close>).  An operation that may fail after
  changing its state returns the outcome and the state; the \<open>u64\<close> additions wrap.
\<close>

section \<open>Ordered maps\<close>

text \<open>\<open>BTreeMap<u64, u64>\<close>: an association list in key order.\<close>

type_synonym id_map = "(u64 \<times> u64) list"

fun bt_insert :: "u64 \<Rightarrow> u64 \<Rightarrow> id_map \<Rightarrow> id_map" where
  "bt_insert k v [] = [(k, v)]"
| "bt_insert k v ((k', v') # m) =
     (if k < k' then (k, v) # (k', v') # m
      else if k = k' then (k, v) # m
      else (k', v') # bt_insert k v m)"

definition bt_get :: "id_map \<Rightarrow> u64 \<Rightarrow> u64 option" where
  "bt_get m k = map_of m k"

definition bt_extend :: "id_map \<Rightarrow> (u64 \<times> u64) list \<Rightarrow> id_map" where
  "bt_extend m kvs = foldl (\<lambda>m (k, v). bt_insert k v m) m kvs"

lemma bt_get_insert [simp]: "bt_get (bt_insert k v m) = (bt_get m)(k \<mapsto> v)"
  unfolding bt_get_def by (induction k v m rule: bt_insert.induct) auto

lemma bt_get_extend: "bt_get (bt_extend m kvs) = bt_get m ++ map_of (rev kvs)"
  by (induction kvs arbitrary: m) (auto simp: bt_extend_def map_add_def fun_eq_iff split: option.split)

section \<open>The shared state\<close>

record knowledge =
  kn_next :: u64
  kn_buffer_base :: u64
  kn_explicit :: "u64 list option"

record shared =
  sd_segments :: "segment_slot list"
  sd_buffer :: write_buffer
  sd_buffer_base :: u64
  sd_knowledge :: "knowledge option"
  sd_tombstones :: id_map
  sd_history :: "segment_slot list"

definition watermark :: "shared \<Rightarrow> u64 \<Rightarrow> u64" where
  "watermark sd rows = (case sd_knowledge sd of None \<Rightarrow> rows | Some k \<Rightarrow> kn_next k)"

definition append_row :: "row_value list \<Rightarrow> shared \<Rightarrow> (storage_error, unit) outcome \<times> shared" where
  "append_row row sd =
     (case wb_append (sd_buffer sd) row of
        Ok buffer \<Rightarrow>
          (Ok (), sd\<lparr>sd_buffer := buffer,
             sd_knowledge := map_option (\<lambda>k. k\<lparr>kn_explicit := map_option (\<lambda>e. e @ [kn_next k]) (kn_explicit k),
               kn_next := kn_next k + 1\<rparr>) (sd_knowledge sd)\<rparr>)
      | Err e \<Rightarrow> (Err (MemErr e), sd)
      | Panic \<Rightarrow> (Panic, sd))"

text \<open>\<open>get_or_insert_with\<close> of a virtual table's knowledge, and the births it implies.\<close>

definition knowledge_or_virtual :: "shared \<Rightarrow> u64 \<Rightarrow> knowledge" where
  "knowledge_or_virtual sd virtual_watermark =
     (case sd_knowledge sd of
        Some k \<Rightarrow> k
      | None \<Rightarrow> \<lparr>kn_next = virtual_watermark,
                 kn_buffer_base = virtual_watermark - word_of_nat (wb_len (sd_buffer sd)), kn_explicit = None\<rparr>)"

definition materialized :: "knowledge \<Rightarrow> nat \<Rightarrow> u64 list" where
  "materialized k buffered =
     (case kn_explicit k of
        Some births \<Rightarrow> births
      | None \<Rightarrow> map (\<lambda>i. kn_buffer_base k + word_of_nat i) [0..<buffered])"

definition consume_sequence :: "u64 \<Rightarrow> shared \<Rightarrow> shared" where
  "consume_sequence virtual_watermark sd =
     (let buffered = wb_len (sd_buffer sd);
          k = knowledge_or_virtual sd virtual_watermark;
          k = k\<lparr>kn_next := kn_next k + 1\<rparr>
      in sd\<lparr>sd_knowledge := Some
           (if buffered = 0 then k\<lparr>kn_buffer_base := kn_next k, kn_explicit := None\<rparr>
            else k\<lparr>kn_explicit := Some (materialized k buffered)\<rparr>)\<rparr>)"

text \<open>The knowledge is diverged before the row is appended, and stays so when it is refused.\<close>

definition append_superseding ::
  "row_value list \<Rightarrow> u64 \<Rightarrow> u64 \<Rightarrow> shared \<Rightarrow> (storage_error, unit) outcome \<times> shared" where
  "append_superseding row shared_sequence virtual_watermark sd =
     (let k = knowledge_or_virtual sd virtual_watermark;
          births = materialized k (wb_len (sd_buffer sd));
          diverged = sd\<lparr>sd_knowledge := Some (k\<lparr>kn_explicit := Some births\<rparr>)\<rparr>
      in case wb_append (sd_buffer sd) row of
           Ok buffer \<Rightarrow>
             (Ok (), sd\<lparr>sd_buffer := buffer,
                sd_knowledge := Some (k\<lparr>kn_explicit := Some (births @ [shared_sequence]),
                  kn_next := max (kn_next k) (shared_sequence + 1)\<rparr>)\<rparr>)
         | Err e \<Rightarrow> (Err (MemErr e), diverged)
         | Panic \<Rightarrow> (Panic, diverged))"

definition buffer_sequence :: "shared \<Rightarrow> sequence_info option" where
  "buffer_sequence sd =
     map_option (\<lambda>k. case kn_explicit k of
         Some births \<Rightarrow> Explicit births
       | None \<Rightarrow> Contiguous (kn_buffer_base k))
       (sd_knowledge sd)"

section \<open>Snapshots\<close>

text \<open>
  The live mask of the row ids from \<open>base\<close> up to \<open>stop\<close>; \<open>BTreeMap::range\<close> panics on an
  inverted range.
\<close>

definition live_mask :: "id_map \<Rightarrow> u64 \<Rightarrow> u64 \<Rightarrow> ('e, bitmap option) outcome" where
  "live_mask tombstones base stop =
     (if stop < base then Panic
      else if \<not> list_ex (\<lambda>(k, _). base \<le> k \<and> k < stop) tombstones then Ok None
      else Ok (Some (from_bools (map (\<lambda>i. bt_get tombstones (base + word_of_nat i) = None)
             [0..<unat (stop - base)]))))"

text \<open>The buffer's rows as a segment, stamped with their births.\<close>

definition buffer_segment :: "shared \<Rightarrow> (storage_error, segment) outcome" where
  "buffer_segment sd =
     bindR (map_err MemErr (snapshot_at (sd_buffer sd) (sd_buffer_base sd))) (\<lambda>s.
       case buffer_sequence sd of Some sequence \<Rightarrow> with_sequence s sequence | None \<Rightarrow> Ok s)"

definition snapshot_slot :: "id_map \<Rightarrow> segment_slot \<Rightarrow> ('e, segment_handle) outcome" where
  "snapshot_slot tombstones sl =
     bindR (slot_meta sl) (\<lambda>m.
     mapR (\<lambda>live. \<lparr>sh_slot = sl, sh_live = live\<rparr>)
       (live_mask tombstones (sm_base_row_id m) (sm_base_row_id m + word_of_nat (sm_rows m))))"

definition snapshot_of :: "shared \<Rightarrow> (storage_error, segment_handle list) outcome" where
  "snapshot_of sd =
     bindR (traverseR (snapshot_slot (sd_tombstones sd)) (sd_segments sd)) (\<lambda>out.
     if wb_is_empty (sd_buffer sd) then Ok out
     else
       bindR (buffer_segment sd) (\<lambda>s.
       mapR (\<lambda>live. out @ [handle_resident s live])
         (live_mask (sd_tombstones sd) (sg_base_row_id s)
            (sg_base_row_id s + word_of_nat (rb_num_rows (sg_batch s))))))"

record knowledge_snapshot =
  ks_latest :: "segment_handle list"
  ks_history :: "segment_slot list"
  ks_stamps :: id_map

definition knowledge_snapshot_of :: "shared \<Rightarrow> (storage_error, knowledge_snapshot) outcome" where
  "knowledge_snapshot_of sd =
     mapR (\<lambda>latest. \<lparr>ks_latest = latest, ks_history = sd_history sd, ks_stamps = sd_tombstones sd\<rparr>)
       (snapshot_of sd)"

section \<open>Reading at a past coordinate\<close>

definition as_of_live :: "id_map \<Rightarrow> u64 \<Rightarrow> segment \<Rightarrow> ('e, segment_handle) outcome" where
  "as_of_live stamps coord s =
     mapR (\<lambda>live_rows. handle_resident s (if list_all id live_rows then None else Some (from_bools live_rows)))
       (traverseR (\<lambda>row.
          mapR (\<lambda>born. born \<le> coord \<and>
              \<not> (case bt_get stamps (sg_base_row_id s + word_of_nat row) of
                   Some kill \<Rightarrow> kill \<le> coord
                 | None \<Rightarrow> False))
            (sequence_at s row)) [0..<rb_num_rows (sg_batch s)])"

text \<open>The kill of a history row; a segment without kills reads as killed at 0.\<close>

definition kill_at :: "segment \<Rightarrow> nat \<Rightarrow> ('e, u64) outcome" where
  "kill_at s row =
     (case sg_superseded s of
        None \<Rightarrow> Ok 0
      | Some kills \<Rightarrow> if row < length kills then Ok (kills ! row) else Panic)"

definition as_of_history :: "u64 \<Rightarrow> segment \<Rightarrow> ('e, segment_handle) outcome" where
  "as_of_history coord s =
     mapR (\<lambda>live_rows. handle_resident s (Some (from_bools live_rows)))
       (traverseR (\<lambda>row.
          bindR (kill_at s row) (\<lambda>kill.
          mapR (\<lambda>born. born \<le> coord \<and> coord < kill) (sequence_at s row))) [0..<rb_num_rows (sg_batch s)])"

definition as_of :: "read_object \<Rightarrow> knowledge_snapshot \<Rightarrow> u64 \<Rightarrow> (storage_error, segment_handle list) outcome" where
  "as_of read ks coord =
     bindR (traverseR (\<lambda>h. bindR (handle_view read h) (\<lambda>v. as_of_live (ks_stamps ks) coord (sv_segment v)))
       (ks_latest ks)) (\<lambda>latest.
     mapR (\<lambda>history. latest @ history)
       (traverseR (\<lambda>sl. bindR (slot_segment read sl) (as_of_history coord)) (ks_history ks)))"

section \<open>What changed since a coordinate\<close>

text \<open>The rows \<open>touch\<close> is called with, in order, when the walk succeeds.\<close>

definition touched_births :: "read_object \<Rightarrow> u64 \<Rightarrow> segment_handle \<Rightarrow> (storage_error, (segment \<times> nat) list) outcome" where
  "touched_births read since h =
     bindR (handle_sequence_end h) (\<lambda>stop.
     if stop \<le> since then Ok []
     else
       bindR (handle_view read h) (\<lambda>v.
       mapR concat (traverseR (\<lambda>row.
           mapR (\<lambda>born. if since \<le> born then [(sv_segment v, row)] else []) (sequence_at (sv_segment v) row))
         [0..<rb_num_rows (sg_batch (sv_segment v))])))"

text \<open>The first handle whose row ids include the victim's.\<close>

fun find_home :: "segment_handle list \<Rightarrow> u64 \<Rightarrow> ('e, segment_handle option) outcome" where
  "find_home [] row_id = Ok None"
| "find_home (h # hs) row_id =
     bindR (handle_base_row_id h) (\<lambda>base.
     bindR (handle_rows h) (\<lambda>rows.
     if base \<le> row_id \<and> row_id < base + word_of_nat rows then Ok (Some h) else find_home hs row_id))"

definition touched_kill ::
  "read_object \<Rightarrow> segment_handle list \<Rightarrow> u64 \<Rightarrow> u64 \<times> u64 \<Rightarrow> (storage_error, (segment \<times> nat) list) outcome" where
  "touched_kill read latest since = (\<lambda>(row_id, kill).
     if kill \<noteq> 0 \<and> kill < since then Ok []
     else
       bindR (find_home latest row_id) (\<lambda>home.
       case home of
         None \<Rightarrow> Ok []
       | Some h \<Rightarrow>
           mapR (\<lambda>v. [(sv_segment v, unat (row_id - sg_base_row_id (sv_segment v)))]) (handle_view read h)))"

definition touched_history :: "read_object \<Rightarrow> u64 \<Rightarrow> segment_slot \<Rightarrow> (storage_error, (segment \<times> nat) list) outcome" where
  "touched_history read since sl =
     bindR (slot_segment read sl) (\<lambda>s.
     mapR concat (traverseR (\<lambda>row.
         bindR (kill_at s row) (\<lambda>kill.
         if kill = 0 \<or> since \<le> kill then Ok [(s, row)]
         else mapR (\<lambda>born. if since \<le> born then [(s, row)] else []) (sequence_at s row)))
       [0..<rb_num_rows (sg_batch s)]))"

definition touched_walk :: "read_object \<Rightarrow> knowledge_snapshot \<Rightarrow> u64 \<Rightarrow> (storage_error, (segment \<times> nat) list) outcome" where
  "touched_walk read ks since =
     bindR (traverseR (touched_births read since) (ks_latest ks)) (\<lambda>births.
     bindR (traverseR (touched_kill read (ks_latest ks) since) (ks_stamps ks)) (\<lambda>kills.
     mapR (\<lambda>history. concat births @ concat kills @ concat history)
       (traverseR (touched_history read since) (ks_history ks))))"

definition ordering_value :: "segment \<Rightarrow> nat \<Rightarrow> ('e, i64) outcome" where
  "ordering_value s row =
     (if sg_ordering_key s < length (rb_columns (sg_batch s)) then
        (case rb_columns (sg_batch s) ! sg_ordering_key s of
           Numeric (NI64 c) \<Rightarrow> if row < length (nc_values c) then Ok (nc_values c ! row) else Panic
         | _ \<Rightarrow> Panic)
      else Panic)"

definition touched_ordering_keys :: "read_object \<Rightarrow> knowledge_snapshot \<Rightarrow> u64 \<Rightarrow> (storage_error, i64 list) outcome" where
  "touched_ordering_keys read ks since =
     bindR (touched_walk read ks since) (traverseR (\<lambda>(s, row). ordering_value s row))"

text \<open>The touched rows with their key; the first touched segment's column decides a misuse.\<close>

definition touched_key :: "nat \<Rightarrow> segment \<times> nat \<Rightarrow> (storage_error, i64 \<times> rstring option) outcome" where
  "touched_key key_column = (\<lambda>(s, row).
     (case (if key_column < length (rb_columns (sg_batch s)) then Some (rb_columns (sg_batch s) ! key_column) else None) of
        Some (KeyCol keys) \<Rightarrow>
          bindR (ordering_value s row) (\<lambda>value. mapR (\<lambda>key. (value, key)) (kc_value_at keys row))
      | _ \<Rightarrow> Err (MemErr (TypeMismatch
          (if key_column < length (s_fields (rb_schema (sg_batch s)))
           then f_name (s_fields (rb_schema (sg_batch s)) ! key_column)
           else ascii ''column '' @ decimal key_column) Key))))"

definition touched_rows ::
  "read_object \<Rightarrow> knowledge_snapshot \<Rightarrow> u64 \<Rightarrow> nat \<Rightarrow> (storage_error, (i64 \<times> rstring option) list) outcome" where
  "touched_rows read ks since key_column =
     bindR (touched_walk read ks since) (traverseR (touched_key key_column))"

end
