(* ===== verification/Timeline.thy ===== *)
theory Timeline
  imports Knowledge
begin

text \<open>
  What the knowledge axis promises.  A table is abstractly a list of row versions, each with
  its cells, the ingest sequence it was born at and the one, if any, it was killed at; the
  table as known at a coordinate is the versions born at or before it and not killed by it.
  Here the reads of theory \<open>Knowledge\<close> are shown to refine this view: \<open>as_of\<close> returns exactly
  the visible versions, and the touched walk misses no version whose visibility changed.
\<close>

section \<open>Versions\<close>

record version =
  vn_cells :: "row_value list"
  vn_born :: u64
  vn_kill :: "u64 option"

definition visible :: "u64 \<Rightarrow> version \<Rightarrow> bool" where
  "visible coord v \<longleftrightarrow> vn_born v \<le> coord \<and> (case vn_kill v of None \<Rightarrow> True | Some kill \<Rightarrow> coord < kill)"

definition cells_of :: "segment \<Rightarrow> row_value list list" where
  "cells_of s = map (\<lambda>row. map (\<lambda>c. column_cells c ! row) (rb_columns (sg_batch s))) [0..<rb_num_rows (sg_batch s)]"

definition birth :: "segment \<Rightarrow> nat \<Rightarrow> u64" where
  "birth s row =
     (case sg_sequence s of
        RowIds \<Rightarrow> sg_base_row_id s + word_of_nat row
      | Contiguous base \<Rightarrow> base + word_of_nat row
      | Explicit births \<Rightarrow> births ! row)"

definition row_id :: "segment \<Rightarrow> nat \<Rightarrow> u64" where
  "row_id s row = sg_base_row_id s + word_of_nat row"

definition history_kill :: "segment \<Rightarrow> nat \<Rightarrow> u64" where
  "history_kill s row = (case sg_superseded s of None \<Rightarrow> 0 | Some kills \<Rightarrow> kills ! row)"

definition live_versions :: "id_map \<Rightarrow> segment \<Rightarrow> version list" where
  "live_versions stamps s =
     map (\<lambda>row. \<lparr>vn_cells = cells_of s ! row, vn_born = birth s row, vn_kill = bt_get stamps (row_id s row)\<rparr>)
       [0..<rb_num_rows (sg_batch s)]"

definition history_versions :: "segment \<Rightarrow> version list" where
  "history_versions s =
     map (\<lambda>row. \<lparr>vn_cells = cells_of s ! row, vn_born = birth s row, vn_kill = Some (history_kill s row)\<rparr>)
       [0..<rb_num_rows (sg_batch s)]"

definition versions :: "id_map \<Rightarrow> segment list \<Rightarrow> segment list \<Rightarrow> version list" where
  "versions stamps segs hists = concat (map (live_versions stamps) segs) @ concat (map history_versions hists)"

section \<open>Well-formed segments\<close>

definition sequenced :: "segment \<Rightarrow> bool" where
  "sequenced s \<longleftrightarrow> batch_ok (sg_batch s) \<and>
     (case sg_sequence s of Explicit births \<Rightarrow> length births = rb_num_rows (sg_batch s) | _ \<Rightarrow> True)"

definition superseded_ok :: "segment \<Rightarrow> bool" where
  "superseded_ok s \<longleftrightarrow> sequenced s \<and>
     (case sg_superseded s of None \<Rightarrow> True | Some kills \<Rightarrow> length kills = rb_num_rows (sg_batch s))"

lemma sequence_at_birth: "sequenced s \<Longrightarrow> row < rb_num_rows (sg_batch s) \<Longrightarrow> sequence_at s row = Ok (birth s row)"
  by (cases "sg_sequence s") (simp_all add: sequenced_def sequence_at_def birth_def)

lemma kill_at_kill: "superseded_ok s \<Longrightarrow> row < rb_num_rows (sg_batch s) \<Longrightarrow> kill_at s row = Ok (history_kill s row)"
  by (cases "sg_superseded s") (simp_all add: superseded_ok_def kill_at_def history_kill_def)

lemma length_cells_of [simp]: "length (cells_of s) = rb_num_rows (sg_batch s)"
  by (simp add: cells_of_def)

section \<open>Reading\<close>

text \<open>The rows a reader of a handle gets.\<close>

definition view_rows :: "segment_view \<Rightarrow> row_value list list" where
  "view_rows v = map fst (filter snd (zip (cells_of (sv_segment v)) (liveness v)))"

definition seen_rows :: "read_object \<Rightarrow> segment_handle \<Rightarrow> row_value list list" where
  "seen_rows read h = (case handle_view read h of Ok v \<Rightarrow> view_rows v | _ \<Rightarrow> [])"

lemma seen_resident:
  "seen_rows read (handle_resident s live) = view_rows \<lparr>sv_segment = s, sv_live = live\<rparr>"
  unfolding seen_rows_def handle_view_stands [OF handle_resident_stands] by (simp add: handle_resident_def)

lemma view_rows_mask:
  assumes "liveness \<lparr>sv_segment = s, sv_live = live\<rparr> = map P [0..<rb_num_rows (sg_batch s)]"
  shows "view_rows \<lparr>sv_segment = s, sv_live = live\<rparr> =
    map (\<lambda>row. cells_of s ! row) (filter P [0..<rb_num_rows (sg_batch s)])"
proof -
  let ?rows = "[0..<rb_num_rows (sg_batch s)]"
  have rows: "cells_of s = map (\<lambda>row. cells_of s ! row) ?rows"
    by (rule nth_equalityI) simp_all
  have "zip (cells_of s) (map P ?rows) = map (\<lambda>row. (cells_of s ! row, P row)) ?rows"
    by (subst rows) (simp only: zip_map_map zip_same_conv_map map_map comp_def prod.case)
  then show ?thesis using assms by (simp add: view_rows_def filter_map comp_def)
qed

lemma filter_versions:
  "map vn_cells (filter Q (map (\<lambda>row. \<lparr>vn_cells = cells row, vn_born = born row, vn_kill = kill row\<rparr>) rows)) =
   map cells (filter (\<lambda>row. Q \<lparr>vn_cells = cells row, vn_born = born row, vn_kill = kill row\<rparr>) rows)"
  by (simp add: filter_map comp_def)

lemma as_of_live_refines:
  assumes "sequenced s"
  shows "\<exists>h. as_of_live stamps coord s = (Ok h :: ('e, _) outcome) \<and>
    seen_rows read h = map vn_cells (filter (visible coord) (live_versions stamps s))"
proof -
  let ?rows = "[0..<rb_num_rows (sg_batch s)]"
  let ?P = "\<lambda>row. visible coord \<lparr>vn_cells = cells_of s ! row, vn_born = birth s row,
    vn_kill = bt_get stamps (row_id s row)\<rparr>"
  let ?live = "if list_all id (map ?P ?rows) then None else Some (from_bools (map ?P ?rows))"
  have "traverseR (\<lambda>row. mapR (\<lambda>born. born \<le> coord \<and> \<not> (case bt_get stamps (sg_base_row_id s + word_of_nat row) of
        Some kill \<Rightarrow> kill \<le> coord | None \<Rightarrow> False)) (sequence_at s row)) ?rows = (Ok (map ?P ?rows) :: ('e, _) outcome)"
    using sequence_at_birth [OF assms]
    by (intro traverseR_Ok) (auto simp: visible_def row_id_def split: option.split)
  then have run: "as_of_live stamps coord s = (Ok (handle_resident s ?live) :: ('e, _) outcome)"
    by (simp add: as_of_live_def)
  have "liveness \<lparr>sv_segment = s, sv_live = ?live\<rparr> = map ?P ?rows"
    by (auto simp: liveness_def list_all_iff intro!: nth_equalityI)
  then have "seen_rows read (handle_resident s ?live) = map (\<lambda>row. cells_of s ! row) (filter ?P ?rows)"
    unfolding seen_resident by (rule view_rows_mask)
  then show ?thesis using run by (simp add: live_versions_def filter_versions)
qed

lemma as_of_history_refines:
  assumes "superseded_ok s"
  shows "\<exists>h. as_of_history coord s = (Ok h :: ('e, _) outcome) \<and>
    seen_rows read h = map vn_cells (filter (visible coord) (history_versions s))"
proof -
  let ?rows = "[0..<rb_num_rows (sg_batch s)]"
  let ?P = "\<lambda>row. visible coord \<lparr>vn_cells = cells_of s ! row, vn_born = birth s row,
    vn_kill = Some (history_kill s row)\<rparr>"
  have "sequenced s" using assms by (simp add: superseded_ok_def)
  then have "traverseR (\<lambda>row. bindR (kill_at s row) (\<lambda>kill. mapR (\<lambda>born. born \<le> coord \<and> coord < kill) (sequence_at s row)))
      ?rows = (Ok (map ?P ?rows) :: ('e, _) outcome)"
    by (intro traverseR_Ok) (simp add: visible_def kill_at_kill [OF assms] sequence_at_birth)
  then have run: "as_of_history coord s = (Ok (handle_resident s (Some (from_bools (map ?P ?rows)))) :: ('e, _) outcome)"
    by (simp add: as_of_history_def)
  have "seen_rows read (handle_resident s (Some (from_bools (map ?P ?rows)))) =
      map (\<lambda>row. cells_of s ! row) (filter ?P ?rows)"
    unfolding seen_resident by (rule view_rows_mask) (simp add: liveness_def)
  then show ?thesis using run by (simp add: history_versions_def filter_versions)
qed

text \<open>A snapshot of given segments.\<close>

definition snapshot_reads :: "read_object \<Rightarrow> knowledge_snapshot \<Rightarrow> segment list \<Rightarrow> segment list \<Rightarrow> bool" where
  "snapshot_reads read ks segs hists \<longleftrightarrow>
     list_all2 (\<lambda>h s. slot_stands_for read (sh_slot h) s \<and> sl_meta (sh_slot h) = Some (meta_of s) \<and> sequenced s)
       (ks_latest ks) segs \<and>
     list_all2 (\<lambda>sl s. slot_stands_for read sl s \<and> superseded_ok s) (ks_history ks) hists"

lemma traverseR_all2:
  assumes "list_all2 P xs ys" "\<And>x y. P x y \<Longrightarrow> \<exists>z. f x = (Ok z :: ('e, 'z) outcome) \<and> g z = h y"
  shows "\<exists>zs. traverseR f xs = (Ok zs :: ('e, 'z list) outcome) \<and> map g zs = map h ys"
  using assms(1)
proof (induction rule: list_all2_induct)
  case (Cons x xs y ys)
  then show ?case using assms(2) by fastforce
qed simp

lemma as_of_refines_versions:
  assumes "snapshot_reads read ks segs hists"
  shows "\<exists>hs. as_of read ks coord = Ok hs \<and>
    concat (map (seen_rows read) hs) = map vn_cells (filter (visible coord) (versions (ks_stamps ks) segs hists))"
proof -
  have live: "\<exists>z. bindR (handle_view read h) (\<lambda>v. as_of_live (ks_stamps ks) coord (sv_segment v)) = Ok z \<and>
      seen_rows read z = map vn_cells (filter (visible coord) (live_versions (ks_stamps ks) s))"
    if "slot_stands_for read (sh_slot h) s \<and> sl_meta (sh_slot h) = Some (meta_of s) \<and> sequenced s" for h s
    using that as_of_live_refines [of s "ks_stamps ks" coord read] handle_view_stands [of read h s] by auto
  have hist: "\<exists>z. bindR (slot_segment read sl) (as_of_history coord) = Ok z \<and>
      seen_rows read z = map vn_cells (filter (visible coord) (history_versions s))"
    if "slot_stands_for read sl s \<and> superseded_ok s" for sl s
    using that as_of_history_refines [of s coord read] slot_segment_stands [of read sl s] by auto
  have "\<exists>ls. traverseR (\<lambda>h. bindR (handle_view read h) (\<lambda>v. as_of_live (ks_stamps ks) coord (sv_segment v)))
        (ks_latest ks) = Ok ls \<and>
      map (seen_rows read) ls = map (\<lambda>s. map vn_cells (filter (visible coord) (live_versions (ks_stamps ks) s))) segs"
    by (rule traverseR_all2 [OF conjunct1 [OF assms [unfolded snapshot_reads_def]]]) (rule live)
  then obtain ls where
    ls: "traverseR (\<lambda>h. bindR (handle_view read h) (\<lambda>v. as_of_live (ks_stamps ks) coord (sv_segment v))) (ks_latest ks) = Ok ls"
      "map (seen_rows read) ls = map (\<lambda>s. map vn_cells (filter (visible coord) (live_versions (ks_stamps ks) s))) segs"
    by blast
  have "\<exists>hs. traverseR (\<lambda>sl. bindR (slot_segment read sl) (as_of_history coord)) (ks_history ks) = Ok hs \<and>
      map (seen_rows read) hs = map (\<lambda>s. map vn_cells (filter (visible coord) (history_versions s))) hists"
    by (rule traverseR_all2 [OF conjunct2 [OF assms [unfolded snapshot_reads_def]]]) (rule hist)
  then obtain hs where
    hs: "traverseR (\<lambda>sl. bindR (slot_segment read sl) (as_of_history coord)) (ks_history ks) = Ok hs"
      "map (seen_rows read) hs = map (\<lambda>s. map vn_cells (filter (visible coord) (history_versions s))) hists"
    by blast
  have "concat (map (\<lambda>s. map vn_cells (filter (visible coord) (f s))) xs) =
      map vn_cells (filter (visible coord) (concat (map f xs)))" for f :: "segment \<Rightarrow> version list" and xs
    by (induction xs) simp_all
  then have "concat (map (seen_rows read) (ls @ hs)) =
      map vn_cells (filter (visible coord) (versions (ks_stamps ks) segs hists))"
    unfolding map_append ls(2) hs(2) concat_append versions_def filter_append by simp
  then show ?thesis using ls(1) hs(1) by (simp add: as_of_def)
qed

section \<open>The layout of a table's segments\<close>

text \<open>Row ids run on from segment to segment, and births fit below the end of the sequence space.\<close>

fun laid_out :: "nat \<Rightarrow> segment list \<Rightarrow> bool" where
  "laid_out n [] \<longleftrightarrow> n < 2 ^ 64"
| "laid_out n (s # ss) \<longleftrightarrow> sg_base_row_id s = word_of_nat n \<and> laid_out (n + rb_num_rows (sg_batch s)) ss"

definition births_fit :: "segment \<Rightarrow> bool" where
  "births_fit s \<longleftrightarrow>
     (case sg_sequence s of
        RowIds \<Rightarrow> unat (sg_base_row_id s) + rb_num_rows (sg_batch s) < 2 ^ 64
      | Contiguous base \<Rightarrow> unat base + rb_num_rows (sg_batch s) < 2 ^ 64
      | Explicit births \<Rightarrow> \<forall>b\<in>set births. unat b + 1 < 2 ^ 64)"

lemma laid_out_bound: "laid_out n ss \<Longrightarrow> n + sum_list (map (\<lambda>s. rb_num_rows (sg_batch s)) ss) < 2 ^ 64"
  by (induction n ss rule: laid_out.induct) (auto simp: add.assoc)

lemma laid_out_append:
  "laid_out n (ss @ ts) \<longleftrightarrow> laid_out n ss \<and> laid_out (n + sum_list (map (\<lambda>s. rb_num_rows (sg_batch s)) ss)) ts"
proof (induction ss arbitrary: n)
  case Nil
  have "laid_out n ts \<Longrightarrow> n < 2 ^ 64" using laid_out_bound [of n ts] by simp
  then show ?case by auto
qed (auto simp: add.assoc)

lemma unat_add_nat: "unat (b :: u64) + n < 2 ^ 64 \<Longrightarrow> unat (b + word_of_nat n) = unat b + n"
  by (simp add: unat_word_ariths unat_of_nat)

lemma laid_out_base:
  assumes "laid_out n ss" "s \<in> set ss"
  shows "n \<le> unat (sg_base_row_id s) \<and>
    unat (sg_base_row_id s) + rb_num_rows (sg_batch s) \<le> n + sum_list (map (\<lambda>s. rb_num_rows (sg_batch s)) ss)"
  using assms
proof (induction ss arbitrary: n)
  case (Cons t ss)
  have "n < 2 ^ 64" using laid_out_bound [OF Cons.prems(1)] by simp
  then have n: "unat (sg_base_row_id t) = n" using Cons.prems(1) by (simp add: unat_of_nat)
  show ?case
  proof (cases "s = t")
    case False
    then show ?thesis using Cons.IH [of "n + rb_num_rows (sg_batch t)"] Cons.prems by (simp add: add.assoc)
  qed (use n in simp)
qed simp

lemma laid_out_fits: "laid_out n ss \<Longrightarrow> s \<in> set ss \<Longrightarrow> unat (sg_base_row_id s) + rb_num_rows (sg_batch s) < 2 ^ 64"
  using laid_out_base [of n ss s] laid_out_bound [of n ss] by linarith

lemma foldl_max_u64:
  "(a :: u64) \<le> foldl max a xs" "v \<in> set xs \<Longrightarrow> v \<le> foldl max a xs" "foldl max a xs \<in> insert a (set xs)"
proof -
  have "a \<le> foldl max a xs \<and> (\<forall>v\<in>set xs. v \<le> foldl max a xs) \<and> foldl max a xs \<in> insert a (set xs)"
  proof (induction xs arbitrary: a)
    case (Cons x xs)
    have "a \<le> max a x" "x \<le> max a x" "max a x \<in> {a, x}" by (auto simp: max_def)
    then show ?case using Cons.IH [of "max a x"] by (auto intro: order_trans)
  qed simp
  then show "(a :: u64) \<le> foldl max a xs" "v \<in> set xs \<Longrightarrow> v \<le> foldl max a xs" "foldl max a xs \<in> insert a (set xs)"
    by blast+
qed

lemma max_u64_ge: "v \<in> set vs \<Longrightarrow> \<exists>m. max_u64 vs = Some m \<and> v \<le> m \<and> m \<in> set vs"
  using foldl_max_u64 by (cases vs) (auto simp: max_u64_def)

lemma birth_before_end:
  assumes "sequenced s" "births_fit s" "row < rb_num_rows (sg_batch s)"
  shows "birth s row < sequence_end s"
proof (cases "sg_sequence s")
  case (Explicit births)
  then have mem: "births ! row \<in> set births" using assms by (simp add: sequenced_def)
  from max_u64_ge [OF this] obtain m where m: "max_u64 births = Some m" "births ! row \<le> m" "m \<in> set births" by blast
  then have "unat (m + 1) = unat m + 1" using assms(2) Explicit unat_add_nat [of m 1] by (simp add: births_fit_def)
  then show ?thesis using m Explicit by (simp add: birth_def sequence_end_def word_less_nat_alt word_le_nat_alt)
qed (use assms(2,3) unat_add_nat in \<open>auto simp: births_fit_def birth_def sequence_end_def word_less_nat_alt Let_def\<close>)

section \<open>What a refresh must look at\<close>

lemma traverseR_total:
  assumes "\<And>x. x \<in> set xs \<Longrightarrow> \<exists>y. f x = (Ok y :: ('e, 'b) outcome) \<and> Q x y"
  shows "\<exists>ys. traverseR f xs = (Ok ys :: ('e, 'b list) outcome) \<and> list_all2 Q xs ys"
  using assms
proof (induction xs)
  case (Cons x xs)
  then obtain y ys where "f x = (Ok y :: ('e, 'b) outcome)" "Q x y"
    "traverseR f xs = (Ok ys :: ('e, 'b list) outcome)" "list_all2 Q xs ys" by fastforce
  then show ?case by simp
qed simp

lemma list_all2_member: "list_all2 Q xs ys \<Longrightarrow> x \<in> set xs \<Longrightarrow> \<exists>y\<in>set ys. Q x y"
  by (induction rule: list_all2_induct) auto

lemma traverseR_touches:
  assumes "\<And>row. row < n \<Longrightarrow> \<exists>t. f row = (Ok t :: ('e, 'b list) outcome) \<and> (R row \<longrightarrow> g row \<in> set t)"
  shows "\<exists>ts. mapR concat (traverseR f [0..<n]) = (Ok ts :: ('e, 'b list) outcome) \<and>
    (\<forall>row<n. R row \<longrightarrow> g row \<in> set ts)"
proof -
  obtain tss where t: "traverseR f [0..<n] = (Ok tss :: ('e, 'b list list) outcome)"
    "list_all2 (\<lambda>row t. R row \<longrightarrow> g row \<in> set t) [0..<n] tss"
    using traverseR_total [of "[0..<n]" f "\<lambda>row t. R row \<longrightarrow> g row \<in> set t"] assms by auto
  have "g row \<in> set (concat tss)" if "row < n" "R row" for row
    using list_all2_member [OF t(2), of row] that by auto
  then show ?thesis using t(1) by (intro exI [of _ "concat tss"]) simp
qed

lemma touched_births_total:
  assumes "slot_stands_for read (sh_slot h) s" "sl_meta (sh_slot h) = Some (meta_of s)" "sequenced s" "births_fit s"
  shows "\<exists>ts. touched_births read since h = Ok ts \<and>
    (\<forall>row<rb_num_rows (sg_batch s). since \<le> birth s row \<longrightarrow> (s, row) \<in> set ts)"
proof (cases "sequence_end s \<le> since")
  case True
  have "\<not> since \<le> birth s row" if "row < rb_num_rows (sg_batch s)" for row
    using birth_before_end [OF assms(3,4) that] True by (meson leD order_less_le_trans)
  then show ?thesis
    using True assms(2) by (simp add: touched_births_def handle_sequence_end_def slot_meta_def meta_of_def)
next
  case False
  have "\<exists>ts. mapR concat (traverseR (\<lambda>row. mapR (\<lambda>born. if since \<le> born then [(s, row)] else []) (sequence_at s row))
        [0..<rb_num_rows (sg_batch s)]) = (Ok ts :: (storage_error, _) outcome) \<and>
      (\<forall>row<rb_num_rows (sg_batch s). since \<le> birth s row \<longrightarrow> (s, row) \<in> set ts)"
    by (rule traverseR_touches) (simp add: sequence_at_birth [OF assms(3)])
  moreover have "touched_births read since h = mapR concat (traverseR (\<lambda>row.
      mapR (\<lambda>born. if since \<le> born then [(s, row)] else []) (sequence_at s row)) [0..<rb_num_rows (sg_batch s)])"
    using False assms(2) handle_view_stands [OF assms(1)]
    by (simp add: touched_births_def handle_sequence_end_def slot_meta_def meta_of_def cong: if_cong)
  ultimately show ?thesis by simp
qed

lemma touched_history_total:
  assumes "slot_stands_for read sl s" "superseded_ok s"
  shows "\<exists>ts. touched_history read since sl = Ok ts \<and>
    (\<forall>row<rb_num_rows (sg_batch s). history_kill s row = 0 \<or> since \<le> history_kill s row \<or> since \<le> birth s row \<longrightarrow>
      (s, row) \<in> set ts)"
proof -
  have "sequenced s" using assms(2) by (simp add: superseded_ok_def)
  then have "\<exists>ts. mapR concat (traverseR (\<lambda>row. bindR (kill_at s row) (\<lambda>kill.
         if kill = 0 \<or> since \<le> kill then Ok [(s, row)]
         else mapR (\<lambda>born. if since \<le> born then [(s, row)] else []) (sequence_at s row)))
        [0..<rb_num_rows (sg_batch s)]) = (Ok ts :: (storage_error, _) outcome) \<and>
      (\<forall>row<rb_num_rows (sg_batch s).
        history_kill s row = 0 \<or> since \<le> history_kill s row \<or> since \<le> birth s row \<longrightarrow> (s, row) \<in> set ts)"
    by (intro traverseR_touches) (auto simp: kill_at_kill [OF assms(2)] sequence_at_birth)
  then show ?thesis unfolding touched_history_def slot_segment_stands [OF assms(1)] bindR.simps .
qed

text \<open>The home of a row id is the segment whose row it is.\<close>

lemma find_home_total:
  assumes "list_all2 (\<lambda>h s. slot_stands_for read (sh_slot h) s \<and> sl_meta (sh_slot h) = Some (meta_of s) \<and> sequenced s) hs ss"
    and "laid_out n ss"
  shows "\<exists>home. find_home hs k = (Ok home :: ('e, _) outcome) \<and>
    (\<forall>h. home = Some h \<longrightarrow> (\<exists>s. slot_stands_for read (sh_slot h) s)) \<and>
    (\<forall>s\<in>set ss. \<forall>row<rb_num_rows (sg_batch s). k = row_id s row \<longrightarrow>
       (\<exists>h. home = Some h \<and> slot_stands_for read (sh_slot h) s))"
  using assms
proof (induction arbitrary: n rule: list_all2_induct)
  case (Cons h hs s ss)
  have meta: "handle_base_row_id h = (Ok (sg_base_row_id s) :: ('e, _) outcome)"
    "handle_rows h = (Ok (rb_num_rows (sg_batch s)) :: ('e, _) outcome)"
    using Cons.hyps by (simp_all add: handle_base_row_id_def handle_rows_def slot_meta_def meta_of_def)
  have own: "unat (sg_base_row_id s) + rb_num_rows (sg_batch s) < 2 ^ 64"
    using laid_out_fits [OF Cons.prems] by simp
  let ?in = "sg_base_row_id s \<le> k \<and> k < sg_base_row_id s + word_of_nat (rb_num_rows (sg_batch s))"
  have mine: "?in" if "row < rb_num_rows (sg_batch s)" "k = row_id s row" for row
    using that own unat_add_nat [of "sg_base_row_id s" row] unat_add_nat [of "sg_base_row_id s" "rb_num_rows (sg_batch s)"]
    by (simp add: row_id_def word_le_nat_alt word_less_nat_alt)
  have not_mine: "\<not> ?in" if t: "t \<in> set ss" "row < rb_num_rows (sg_batch t)" "k = row_id t row" for t row
  proof -
    let ?m = "n + rb_num_rows (sg_batch s)"
    have lo: "laid_out ?m ss" "sg_base_row_id s = word_of_nat n" using Cons.prems by simp_all
    have "n < 2 ^ 64" using laid_out_bound [OF Cons.prems] by simp
    then have "unat (sg_base_row_id s) = n" using lo(2) by (simp add: unat_of_nat)
    moreover have "?m \<le> unat (sg_base_row_id t)" using laid_out_base [OF lo(1) t(1)] by simp
    moreover have "unat k = unat (sg_base_row_id t) + row"
      using t(2,3) laid_out_fits [OF lo(1) t(1)] unat_add_nat [of "sg_base_row_id t" row] by (simp add: row_id_def)
    ultimately show ?thesis
      using own unat_add_nat [of "sg_base_row_id s" "rb_num_rows (sg_batch s)"] by (simp add: word_less_nat_alt)
  qed
  show ?case
  proof (cases ?in)
    case True
    then have run: "find_home (h # hs) k = (Ok (Some h) :: ('e, _) outcome)" by (simp add: meta)
    show ?thesis
      unfolding run using True not_mine Cons.hyps by (intro exI [of _ "Some h"]) auto
  next
    case False
    then have "find_home (h # hs) k = (find_home hs k :: ('e, _) outcome)"
      by (simp only: find_home.simps meta bindR.simps if_False)
    moreover have "laid_out (n + rb_num_rows (sg_batch s)) ss" using Cons.prems by simp
    from Cons.IH [OF this] obtain home where home: "find_home hs k = (Ok home :: ('e, _) outcome)"
      "\<forall>h. home = Some h \<longrightarrow> (\<exists>s. slot_stands_for read (sh_slot h) s)"
      "\<forall>s\<in>set ss. \<forall>row<rb_num_rows (sg_batch s). k = row_id s row \<longrightarrow>
         (\<exists>h. home = Some h \<and> slot_stands_for read (sh_slot h) s)"
      by (elim exE conjE) (rule that)
    moreover have "\<forall>row<rb_num_rows (sg_batch s). k \<noteq> row_id s row" using False mine by blast
    ultimately show ?thesis by (intro exI [of _ home]) auto
  qed
qed simp

lemma bt_get_mem: "bt_get m k = Some v \<Longrightarrow> (k, v) \<in> set m"
  by (simp add: bt_get_def map_of_SomeD)

lemma touched_kill_total:
  assumes "snapshot_reads read ks segs hists" "laid_out n segs"
  shows "\<exists>ts. touched_kill read (ks_latest ks) since (k, kill) = Ok ts \<and>
    (kill = 0 \<or> since \<le> kill \<longrightarrow>
      (\<forall>s\<in>set segs. \<forall>row<rb_num_rows (sg_batch s). k = row_id s row \<longrightarrow> (s, row) \<in> set ts))"
proof (cases "kill \<noteq> 0 \<and> kill < since")
  case True
  then show ?thesis by (auto simp: touched_kill_def)
next
  case False
  have "\<exists>home. find_home (ks_latest ks) k = (Ok home :: (storage_error, _) outcome) \<and>
      (\<forall>h. home = Some h \<longrightarrow> (\<exists>s. slot_stands_for read (sh_slot h) s)) \<and>
      (\<forall>s\<in>set segs. \<forall>row<rb_num_rows (sg_batch s). k = row_id s row \<longrightarrow>
         (\<exists>h. home = Some h \<and> slot_stands_for read (sh_slot h) s))"
    by (rule find_home_total [OF conjunct1 [OF assms(1) [unfolded snapshot_reads_def]] assms(2)])
  then obtain home where home: "find_home (ks_latest ks) k = (Ok home :: (storage_error, _) outcome)"
    "\<forall>h. home = Some h \<longrightarrow> (\<exists>s. slot_stands_for read (sh_slot h) s)"
    "\<forall>s\<in>set segs. \<forall>row<rb_num_rows (sg_batch s). k = row_id s row \<longrightarrow>
       (\<exists>h. home = Some h \<and> slot_stands_for read (sh_slot h) s)"
    by (elim exE conjE) (rule that)
  show ?thesis
  proof (cases home)
    case None
    then show ?thesis using home False by (auto simp: touched_kill_def)
  next
    case (Some h)
    then obtain t where t: "slot_stands_for read (sh_slot h) t" using home(2) by blast
    have run: "touched_kill read (ks_latest ks) since (k, kill) = Ok [(t, unat (k - sg_base_row_id t))]"
      using False home(1) Some handle_view_stands [OF t] by (simp add: touched_kill_def)
    have "(s, row) = (t, unat (k - sg_base_row_id t))"
      if "s \<in> set segs" "row < rb_num_rows (sg_batch s)" "k = row_id s row" for s row
    proof -
      have "slot_stands_for read (sh_slot h) s" using home(3) Some that by blast
      then have "s = t" using slot_segment_stands t by (metis outcome.inject(1))
      moreover have "row < 2 ^ 64" using laid_out_fits [OF assms(2) that(1)] that(2) by simp
      ultimately show ?thesis using that(3) by (simp add: row_id_def unat_of_nat)
    qed
    then show ?thesis using run by auto
  qed
qed

lemma touched_walk_total:
  assumes "snapshot_reads read ks segs hists" "laid_out n segs" "\<forall>s\<in>set segs. births_fit s"
  obtains ts where "touched_walk read ks since = Ok ts"
    "\<And>s row kill. s \<in> set segs \<Longrightarrow> row < rb_num_rows (sg_batch s) \<Longrightarrow>
       since \<le> birth s row \<or> (bt_get (ks_stamps ks) (row_id s row) = Some kill \<and> (kill = 0 \<or> since \<le> kill)) \<Longrightarrow>
       (s, row) \<in> set ts"
    "\<And>s row. s \<in> set hists \<Longrightarrow> row < rb_num_rows (sg_batch s) \<Longrightarrow>
       history_kill s row = 0 \<or> since \<le> history_kill s row \<or> since \<le> birth s row \<Longrightarrow> (s, row) \<in> set ts"
proof -
  have reads: "list_all2 (\<lambda>h s. slot_stands_for read (sh_slot h) s \<and> sl_meta (sh_slot h) = Some (meta_of s) \<and> sequenced s)
      (ks_latest ks) segs"
    "list_all2 (\<lambda>sl s. slot_stands_for read sl s \<and> superseded_ok s) (ks_history ks) hists"
    using assms(1) by (simp_all add: snapshot_reads_def)
  have hs: "\<exists>s\<in>set segs. slot_stands_for read (sh_slot h) s \<and> sl_meta (sh_slot h) = Some (meta_of s) \<and> sequenced s"
    if "h \<in> set (ks_latest ks)" for h
    using list_all2_member [OF reads(1) that] .
  have unique: "s = t" if "slot_stands_for read sl s" "slot_stands_for read sl t" for sl s t
    using slot_segment_stands [OF that(1)] slot_segment_stands [OF that(2)] by simp
  let ?birth = "\<lambda>h ts. \<forall>s. slot_stands_for read (sh_slot h) s \<longrightarrow>
      (\<forall>row<rb_num_rows (sg_batch s). since \<le> birth s row \<longrightarrow> (s, row) \<in> set ts)"
  have "\<exists>births. traverseR (touched_births read since) (ks_latest ks) = Ok births \<and> list_all2 ?birth (ks_latest ks) births"
  proof (rule traverseR_total)
    fix h assume "h \<in> set (ks_latest ks)"
    then show "\<exists>ts. touched_births read since h = Ok ts \<and> ?birth h ts"
      using hs [of h] touched_births_total [of read h _ since] assms(3) unique by metis
  qed
  then obtain births where b: "traverseR (touched_births read since) (ks_latest ks) = Ok births"
    "list_all2 ?birth (ks_latest ks) births" by blast
  let ?kill = "\<lambda>kk ts. snd kk = 0 \<or> since \<le> snd kk \<longrightarrow>
      (\<forall>s\<in>set segs. \<forall>row<rb_num_rows (sg_batch s). fst kk = row_id s row \<longrightarrow> (s, row) \<in> set ts)"
  have "\<exists>kills. traverseR (touched_kill read (ks_latest ks) since) (ks_stamps ks) = Ok kills \<and>
      list_all2 ?kill (ks_stamps ks) kills"
  proof (rule traverseR_total)
    fix kk
    show "\<exists>ts. touched_kill read (ks_latest ks) since kk = Ok ts \<and> ?kill kk ts"
      using touched_kill_total [OF assms(1,2), of since "fst kk" "snd kk"] by simp
  qed
  then obtain kills where k: "traverseR (touched_kill read (ks_latest ks) since) (ks_stamps ks) = Ok kills"
    "list_all2 ?kill (ks_stamps ks) kills" by blast
  let ?hist = "\<lambda>sl ts. \<forall>s. slot_stands_for read sl s \<longrightarrow> (\<forall>row<rb_num_rows (sg_batch s).
      history_kill s row = 0 \<or> since \<le> history_kill s row \<or> since \<le> birth s row \<longrightarrow> (s, row) \<in> set ts)"
  have "\<exists>history. traverseR (touched_history read since) (ks_history ks) = Ok history \<and>
      list_all2 ?hist (ks_history ks) history"
  proof (rule traverseR_total)
    fix sl assume "sl \<in> set (ks_history ks)"
    then obtain s where s: "slot_stands_for read sl s" "superseded_ok s" using list_all2_member [OF reads(2)] by blast
    show "\<exists>ts. touched_history read since sl = Ok ts \<and> ?hist sl ts"
      using touched_history_total [OF s, of since] unique [OF _ s(1)] by metis
  qed
  then obtain history where h: "traverseR (touched_history read since) (ks_history ks) = Ok history"
    "list_all2 ?hist (ks_history ks) history" by blast
  let ?ts = "concat births @ concat kills @ concat history"
  have "touched_walk read ks since = Ok ?ts" using b(1) k(1) h(1) by (simp add: touched_walk_def)
  then show ?thesis
  proof (rule that)
    fix s row kill assume s: "s \<in> set segs" "row < rb_num_rows (sg_batch s)"
      and why: "since \<le> birth s row \<or> (bt_get (ks_stamps ks) (row_id s row) = Some kill \<and> (kill = 0 \<or> since \<le> kill))"
    obtain hd where hd: "hd \<in> set (ks_latest ks)" "slot_stands_for read (sh_slot hd) s"
      using s(1) reads(1) by (auto simp: list_all2_conv_all_nth in_set_conv_nth) metis
    from why show "(s, row) \<in> set ?ts"
    proof
      assume "since \<le> birth s row"
      then show ?thesis using list_all2_member [OF b(2) hd(1)] hd(2) s(2) by auto
    next
      assume "bt_get (ks_stamps ks) (row_id s row) = Some kill \<and> (kill = 0 \<or> since \<le> kill)"
      then show ?thesis using list_all2_member [OF k(2) bt_get_mem, of "row_id s row" kill] s by auto
    qed
  next
    fix s row assume s: "s \<in> set hists" "row < rb_num_rows (sg_batch s)"
      and why: "history_kill s row = 0 \<or> since \<le> history_kill s row \<or> since \<le> birth s row"
    obtain sl where sl: "sl \<in> set (ks_history ks)" "slot_stands_for read sl s"
      using s(1) reads(2) by (auto simp: list_all2_conv_all_nth in_set_conv_nth) metis
    obtain y where "y \<in> set history" "?hist sl y" using list_all2_member [OF h(2) sl(1)] by blast
    moreover from this sl(2) s(2) why have "(s, row) \<in> set y" by blast
    ultimately show "(s, row) \<in> set ?ts" by auto
  qed
qed

end
