(* ===== verification/Store.thy ===== *)
theory Store
  imports Backend Timeline Tombstone Wal
begin

text \<open>
  The single writer of a table (\<^verbatim>\<open>src/storage_lite/store.rs\<close>, \<open>Store\<close>): append, flush,
  tombstone and supersede with their write-ahead log, manifest and delete-log writes, in the
  order the code has them and with every early return.  An operation that fails leaves the
  state it had reached.  The store's residency slots are as theory \<open>Views\<close> has them; the
  residency accounting is theory \<open>Cache\<close>.
\<close>

section \<open>Object names\<close>

definition MANIFEST :: rstring where "MANIFEST = ascii ''table.tlym''"

definition WAL :: rstring where "WAL = ascii ''wal.tlyw''"

text \<open>\<open>{n:0width}\<close>.\<close>

definition padded :: "nat \<Rightarrow> nat \<Rightarrow> rstring" where
  "padded width n = replicate (width - length (decimal n)) 48 @ decimal n"

definition segment_prefix :: "u64 \<Rightarrow> rstring" where
  "segment_prefix generation = ascii ''seg-g'' @ padded 10 (unat generation) @ ascii ''-''"

definition segment_name :: "u64 \<Rightarrow> u64 \<Rightarrow> rstring" where
  "segment_name generation base_row_id =
     ascii ''seg-g'' @ padded 10 (unat generation) @ ascii ''-'' @ padded 20 (unat base_row_id) @ ascii ''.tlyseg''"

definition delete_log_prefix :: "u64 \<Rightarrow> rstring" where
  "delete_log_prefix generation = ascii ''del-g'' @ padded 10 (unat generation) @ ascii ''-''"

definition delete_log_name :: "u64 \<Rightarrow> u64 \<Rightarrow> rstring" where
  "delete_log_name generation sequence =
     ascii ''del-g'' @ padded 10 (unat generation) @ ascii ''-'' @ padded 20 (unat sequence) @ ascii ''.tlyd''"

definition history_name :: "nat \<Rightarrow> rstring" where
  "history_name index = ascii ''hist-'' @ padded 10 index @ ascii ''.tlyseg''"

section \<open>The state\<close>

datatype wal_sync = SyncOff | SyncGroup nat | SyncFull

record 'd store =
  st_read_only :: bool
  st_slot_shared :: slot_shared
  st_schema :: schema
  st_ordering_key :: nat
  st_segment_rows :: nat
  st_rows :: u64
  st_delete_log_sequence :: u64
  st_generation :: u64
  st_sections :: manifest_sections
  st_backend :: "'d backend option"
  st_wal :: "log_handle option"
  st_wal_sync :: wal_sync
  st_last_wal_sync :: nat
  st_shared :: shared
  st_world :: 'd

type_synonym ('d, 'a) store_op = "('d store, storage_error, 'a) op"

definition with_segment_rows :: "schema \<Rightarrow> nat \<Rightarrow> nat \<Rightarrow> 'd \<Rightarrow> (storage_error, 'd store) outcome" where
  "with_segment_rows schema ordering_key segment_rows world =
     (if segment_rows < 1 then Panic
      else
        mapR (\<lambda>buffer.
          \<lparr>st_read_only = False,
           st_slot_shared = \<lparr>sh_schema = schema, sh_ordering_key = ordering_key, sh_backend = False\<rparr>,
           st_schema = schema, st_ordering_key = ordering_key, st_segment_rows = segment_rows, st_rows = 0,
           st_delete_log_sequence = 0, st_generation = 0, st_sections = no_sections, st_backend = None,
           st_wal = None, st_wal_sync = SyncOff, st_last_wal_sync = 0,
           st_shared = \<lparr>sd_segments = [], sd_buffer = buffer, sd_buffer_base = 0, sd_knowledge = None,
             sd_tombstones = [], sd_history = []\<rparr>,
           st_world = world\<rparr>)
        (map_err MemErr (wb_new schema ordering_key)))"

section \<open>Reaching the backend and the shared state\<close>

definition in_world :: "('d, io_error, 'a) op \<Rightarrow> ('d, 'a) store_op" where
  "in_world m st = (let (r, d) = m (st_world st) in (map_err Io r, st\<lparr>st_world := d\<rparr>))"

definition in_shared :: "(shared, storage_error, 'a) op \<Rightarrow> ('d, 'a) store_op" where
  "in_shared m st = (let (r, sd) = m (st_shared st) in (r, st\<lparr>st_shared := sd\<rparr>))"

text \<open>\<open>if let Some(backend) = &self.backend\<close>.\<close>

definition with_backend :: "('d backend \<Rightarrow> ('d, unit) store_op) \<Rightarrow> ('d, unit) store_op" where
  "with_backend m st = (case st_backend st of None \<Rightarrow> (Ok (), st) | Some be \<Rightarrow> m be st)"

definition write_object :: "'d backend \<Rightarrow> rstring \<Rightarrow> bytes \<Rightarrow> ('d, unit) store_op" where
  "write_object be name bytes = in_world (be_write be name bytes)"

definition st_read :: "'d store \<Rightarrow> read_object" where
  "st_read st = (case st_backend st of Some be \<Rightarrow> be_read be (st_world st) | None \<Rightarrow> (\<lambda>name. Err (NotFound name)))"

definition refuse_read_only :: "('d, unit) store_op" where
  "refuse_read_only st =
     (if st_read_only st then (Err (Misuse ''this handle opened the store read-only''), st) else (Ok (), st))"

definition next_sequence :: "'d store \<Rightarrow> u64" where
  "next_sequence st = watermark (st_shared st) (st_rows st)"

definition wal_synced_now :: "'d backend \<Rightarrow> ('d, unit) store_op" where
  "wal_synced_now be = modifyS (\<lambda>st. st\<lparr>st_last_wal_sync := be_now be (st_world st)\<rparr>)"

section \<open>The write-ahead log\<close>

definition reset_wal :: "('d, unit) store_op" where
  "reset_wal st =
     (case (st_wal st, st_backend st) of
        (None, _) \<Rightarrow> (Ok (), st)
      | (Some _, None) \<Rightarrow> (Panic, st)
      | (Some _, Some be) \<Rightarrow>
          (thenS (write_object be WAL (encode_wal_header (st_generation st) (st_rows st)))
          (bindS (in_world (be_open_log be WAL)) (\<lambda>h.
           thenS (modifyS (\<lambda>st. st\<lparr>st_wal := Some h\<rparr>)) (wal_synced_now be)))) st)"

text \<open>\<open>Off\<close> never opens a log, so a log under \<open>Off\<close> is unreachable.\<close>

definition wal_append :: "row_value list \<Rightarrow> ('d, unit) store_op" where
  "wal_append row st =
     (case (st_wal st, st_backend st) of
        (Some h, Some be) \<Rightarrow>
          (thenS (in_world (be_log_append be h (encode_wal_record row)))
          (bindS (getS (\<lambda>st. (st_wal_sync st, be_now be (st_world st) - st_last_wal_sync st))) (\<lambda>(sync, elapsed).
             case sync of
               SyncFull \<Rightarrow> thenS (in_world (be_log_sync be h)) (wal_synced_now be)
             | SyncGroup interval \<Rightarrow>
                 whenS (interval \<le> elapsed) (thenS (in_world (be_log_sync be h)) (wal_synced_now be))
             | SyncOff \<Rightarrow> liftS Panic))) st
      | _ \<Rightarrow> (Ok (), st))"

section \<open>Flush\<close>

text \<open>The segment's bytes, then the manifest that names it; memory adopts the sections last.\<close>

definition publish_segment :: "'d backend \<Rightarrow> rstring \<Rightarrow> segment \<Rightarrow> ('d, unit) store_op" where
  "publish_segment be name s =
     thenS (write_object be name (encode_segment s))
    (bindS (liftS (record_of name s)) (\<lambda>r.
     bindS (getS (\<lambda>st. (st_sections st)\<lparr>ms_segments := ms_segments (st_sections st) @ [r]\<rparr>)) (\<lambda>sections.
     thenS (\<lambda>st. write_object be MANIFEST
              (encode_manifest (st_schema st) (st_ordering_key st) (st_generation st) sections) st)
       (modifyS (\<lambda>st. st\<lparr>st_sections := sections\<rparr>)))))"

definition adopt_flushed :: "segment \<Rightarrow> rstring option \<Rightarrow> write_buffer \<Rightarrow> 'd store \<Rightarrow> 'd store" where
  "adopt_flushed s name fresh st =
     st\<lparr>st_shared := (st_shared st)
       \<lparr>sd_segments := sd_segments (st_shared st) @ [slot_resident s (st_slot_shared st) name],
        sd_buffer := fresh, sd_buffer_base := st_rows st,
        sd_knowledge := map_option (\<lambda>k. k\<lparr>kn_buffer_base := kn_next k, kn_explicit := None\<rparr>)
          (sd_knowledge (st_shared st))\<rparr>\<rparr>"

definition flush_segment :: "segment \<Rightarrow> ('d, unit) store_op" where
  "flush_segment s st =
     (let name = (case st_backend st of None \<Rightarrow> None
                  | Some _ \<Rightarrow> Some (segment_name (st_generation st) (sg_base_row_id s)))
      in thenS (with_backend (\<lambda>be. publish_segment be (segment_name (st_generation st) (sg_base_row_id s)) s))
         (bindS (liftS (map_err MemErr (wb_new (st_schema st) (st_ordering_key st)))) (\<lambda>fresh.
          thenS (modifyS (adopt_flushed s name fresh)) reset_wal)) st)"

definition flush :: "('d, unit) store_op" where
  "flush =
     thenS refuse_read_only (\<lambda>st.
       if wb_is_empty (sd_buffer (st_shared st)) then (Ok (), st)
       else bindS (liftS (buffer_segment (st_shared st))) flush_segment st)"

section \<open>Append\<close>

definition bump_rows :: "('d, unit) store_op" where
  "bump_rows = modifyS (\<lambda>st. st\<lparr>st_rows := st_rows st + 1\<rparr>)"

definition validate_row :: "row_value list \<Rightarrow> ('d, unit) store_op" where
  "validate_row row st = (map_err MemErr (wb_validate (sd_buffer (st_shared st)) row), st)"

definition must_flush :: "'d store \<Rightarrow> bool" where
  "must_flush st \<longleftrightarrow> st_segment_rows st \<le> wb_len (sd_buffer (st_shared st))"

definition store_append :: "row_value list \<Rightarrow> ('d, u64) store_op" where
  "store_append row =
     thenS refuse_read_only
    (thenS (validate_row row)
    (thenS (wal_append row)
    (thenS (in_shared (append_row row))
    (bindS (getS must_flush) (\<lambda>full.
     bindS (getS st_rows) (\<lambda>id.
     thenS bump_rows
    (thenS (whenS full flush) (returnS id))))))))"

section \<open>Tombstone\<close>

definition first_out_of_range :: "u64 list \<Rightarrow> 'd store \<Rightarrow> u64 option" where
  "first_out_of_range ids st = List.find (\<lambda>id. st_rows st \<le> id) ids"

definition refuse_out_of_range :: "u64 list \<Rightarrow> ('d, unit) store_op" where
  "refuse_out_of_range ids st =
     (case first_out_of_range ids st of Some bad \<Rightarrow> (Err (TombstoneOutOfRange bad), st) | None \<Rightarrow> (Ok (), st))"

definition newly_dead :: "u64 list \<Rightarrow> 'd store \<Rightarrow> u64 list" where
  "newly_dead ids st =
     sorted_list_of_set (set (filter (\<lambda>id. bt_get (sd_tombstones (st_shared st)) id = None) ids))"

definition write_delete_log :: "u64 list \<Rightarrow> u64 \<Rightarrow> u64 \<Rightarrow> ('d, unit) store_op" where
  "write_delete_log newly stamped_at superseding = with_backend (\<lambda>be.
     thenS (\<lambda>st. write_object be (delete_log_name (st_generation st) (st_delete_log_sequence st))
              (encode_tombstones (set newly) stamped_at superseding) st)
       (modifyS (\<lambda>st. st\<lparr>st_delete_log_sequence := st_delete_log_sequence st + 1\<rparr>)))"

definition bury :: "u64 list \<Rightarrow> u64 \<Rightarrow> shared \<Rightarrow> shared" where
  "bury newly stamp sd = sd\<lparr>sd_tombstones := bt_extend (sd_tombstones sd) (map (\<lambda>id. (id, stamp)) newly)\<rparr>"

definition tombstone_newly :: "u64 list \<Rightarrow> ('d, u64) store_op" where
  "tombstone_newly newly =
     (if newly = [] then returnS 0
      else
        thenS (with_backend (\<lambda>_. flush))
       (bindS (getS next_sequence) (\<lambda>stamp.
        thenS (write_delete_log newly stamp 0)
       (thenS (modifyS (\<lambda>st. st\<lparr>st_shared := consume_sequence (st_rows st) (bury newly stamp (st_shared st))\<rparr>))
          (returnS (word_of_nat (length newly)))))))"

definition tombstone :: "u64 list \<Rightarrow> ('d, u64) store_op" where
  "tombstone ids =
     thenS refuse_read_only
    (thenS (refuse_out_of_range ids)
    (bindS (getS (newly_dead ids)) tombstone_newly))"

section \<open>Supersede\<close>

definition supersede_row :: "u64 \<Rightarrow> row_value list \<Rightarrow> ('d, unit) store_op" where
  "supersede_row sequence row =
     thenS (wal_append row)
    (bindS (getS st_rows) (\<lambda>virtual_watermark.
     thenS (in_shared (append_superseding row sequence virtual_watermark)) bump_rows))"

definition open_bracket :: "u64 \<Rightarrow> nat \<Rightarrow> ('d, unit) store_op" where
  "open_bracket sequence replacements st =
     (case (st_wal st, st_backend st) of
        (Some h, Some be) \<Rightarrow>
          in_world (be_log_append be h (encode_wal_supersession sequence (word_of_nat replacements))) st
      | _ \<Rightarrow> (Ok (), st))"

text \<open>Superseding rows are durable before the delete log commits: sync the log, or flush.\<close>

definition settle_rows :: "('d, unit) store_op" where
  "settle_rows = with_backend (\<lambda>be st.
     case st_wal st of
       Some h \<Rightarrow> thenS (in_world (be_log_sync be h)) (wal_synced_now be) st
     | None \<Rightarrow> whenS (\<not> wb_is_empty (sd_buffer (st_shared st))) flush st)"

definition supersede_newly :: "row_value list list \<Rightarrow> u64 list \<Rightarrow> u64 \<Rightarrow> ('d, u64) store_op" where
  "supersede_newly replacements newly buffer_base =
     (if newly = [] \<and> replacements = [] then returnS 0
      else
        thenS (with_backend (\<lambda>_. whenS (\<exists>id\<in>set newly. buffer_base \<le> id) flush))
       (bindS (getS next_sequence) (\<lambda>sequence.
        thenS (open_bracket sequence (length replacements))
       (thenS (forS (supersede_row sequence) replacements)
       (thenS settle_rows
       (thenS (write_delete_log newly sequence sequence)
       (thenS (in_shared (modifyS (bury newly sequence)))
       (bindS (getS must_flush) (\<lambda>full.
        thenS (whenS full flush) (returnS (word_of_nat (length newly))))))))))))"

definition supersede :: "row_value list list \<Rightarrow> u64 list \<Rightarrow> ('d, u64) store_op" where
  "supersede replacements victims =
     thenS refuse_read_only
    (if victims = [] then raiseS (Misuse ''supersede needs at least one victim row'')
     else
       thenS (forS validate_row replacements)
      (thenS (refuse_out_of_range victims)
      (bindS (getS (\<lambda>st. (newly_dead victims st, sd_buffer_base (st_shared st)))) (\<lambda>(newly, buffer_base).
       supersede_newly replacements newly buffer_base))))"

section \<open>Readers\<close>

definition store_knowledge_snapshot :: "'d store \<Rightarrow> (storage_error, knowledge_snapshot) outcome" where
  "store_knowledge_snapshot st = knowledge_snapshot_of (st_shared st)"

definition store_snapshot :: "'d store \<Rightarrow> (storage_error, segment_handle list) outcome" where
  "store_snapshot st = snapshot_of (st_shared st)"

end
