(* ===== verification/Compaction.thy ===== *)
theory Compaction
  imports Store "HOL-Library.Product_Lexorder"
begin

text \<open>
  Compaction (\<^verbatim>\<open>src/storage_lite/store.rs\<close>, \<open>Store::compact\<close>): every row is read back and
  sorted by the ordering key, ties by row id; live rows are replayed through the ordinary
  append path into fresh segments, dead ones into history segments that keep their births
  and kills.  The new generation is written beside the old one, one manifest write commits
  it, and memory adopts it after.
\<close>

section \<open>Reading the rows back\<close>

definition index_at :: "'a list \<Rightarrow> nat \<Rightarrow> ('e, 'a) outcome" where
  "index_at xs i = (if i < length xs then Ok (xs ! i) else Panic)"

definition cell_value :: "column \<Rightarrow> nat \<Rightarrow> ('e, row_value) outcome" where
  "cell_value c row =
     (case c of
        Numeric (NF64 numeric) \<Rightarrow>
          bindR (nc_is_valid numeric row) (\<lambda>valid.
          if valid then mapR RvF64 (index_at (nc_values numeric) row) else Ok RvNull)
      | Numeric (NI64 numeric) \<Rightarrow>
          bindR (nc_is_valid numeric row) (\<lambda>valid.
          if valid then mapR RvI64 (index_at (nc_values numeric) row) else Ok RvNull)
      | KeyCol keys \<Rightarrow>
          mapR (\<lambda>v. case v of Some s \<Rightarrow> RvKey s | None \<Rightarrow> RvNull) (kc_value_at keys row))"

text \<open>Ordering value, row id, view and row of a row.\<close>

type_synonym merge_entry = "i64 \<times> u64 \<times> nat \<times> nat"

definition view_entries :: "nat \<Rightarrow> nat \<Rightarrow> segment_view \<Rightarrow> ('e, (merge_entry \<times> bool) list) outcome" where
  "view_entries key view_index view =
     bindR (index_at (rb_columns (sg_batch (sv_segment view))) key) (\<lambda>c.
     case c of
       Numeric (NI64 keys) \<Rightarrow>
         traverseR (\<lambda>row.
             mapR (\<lambda>live. ((nc_values keys ! row, sg_base_row_id (sv_segment view) + word_of_nat row, view_index, row), live))
               (sv_is_live view row))
           [0..<length (nc_values keys)]
     | _ \<Rightarrow> Panic)"

definition collect_rows :: "nat \<Rightarrow> segment_view list \<Rightarrow> ('e, merge_entry list \<times> merge_entry list) outcome" where
  "collect_rows key views =
     mapR (\<lambda>found. (map fst (filter snd (concat found)), map fst (filter (\<lambda>e. \<not> snd e) (concat found))))
       (traverseR (\<lambda>(view_index, view). view_entries key view_index view) (zip [0..<length views] views))"

definition merge_key :: "merge_entry \<Rightarrow> int \<times> u64" where
  "merge_key = (\<lambda>(value, rid, _, _). (sint value, rid))"

definition merge_order :: "merge_entry list \<Rightarrow> merge_entry list" where
  "merge_order = sort_key merge_key"

definition renumbers :: "merge_entry list \<Rightarrow> bool" where
  "renumbers order = list_ex (\<lambda>(new_id, (_, rid, _, _)). rid \<noteq> word_of_nat new_id) (zip [0..<length order] order)"

definition row_cells :: "segment_view list \<Rightarrow> nat \<Rightarrow> nat \<Rightarrow> ('e, row_value list) outcome" where
  "row_cells views view_index row =
     bindR (index_at views view_index) (\<lambda>view.
     traverseR (\<lambda>c. cell_value c row) (rb_columns (sg_batch (sv_segment view))))"

section \<open>Rebuilding\<close>

record rebuild =
  rb_segments :: "segment list"
  rb_buffer :: write_buffer
  rb_births :: "u64 list"
  rb_kills :: "u64 list"
  rb_base :: u64

definition rebuild_new :: "schema \<Rightarrow> nat \<Rightarrow> (mem_error, rebuild) outcome" where
  "rebuild_new schema key =
     mapR (\<lambda>buffer. \<lparr>rb_segments = [], rb_buffer = buffer, rb_births = [], rb_kills = [], rb_base = 0\<rparr>) (wb_new schema key)"

definition close_live :: "bool \<Rightarrow> rebuild \<Rightarrow> (storage_error, rebuild) outcome" where
  "close_live diverging m =
     bindR (map_err MemErr (freeze_at (rb_buffer m) (rb_base m))) (\<lambda>s.
     mapR (\<lambda>s. m\<lparr>rb_segments := rb_segments m @ [s], rb_births := [],
                 rb_base := rb_base m + word_of_nat (wb_len (rb_buffer m))\<rparr>)
       (if diverging then with_sequence s (Explicit (rb_births m)) else Ok s))"

definition merge_live ::
  "schema \<Rightarrow> nat \<Rightarrow> nat \<Rightarrow> bool \<Rightarrow> segment_view list \<Rightarrow> rebuild \<Rightarrow> merge_entry \<Rightarrow> (storage_error, rebuild) outcome" where
  "merge_live schema key segment_rows diverging views m = (\<lambda>(_, _, view_index, row).
     bindR (row_cells views view_index row) (\<lambda>cells.
     bindR (map_err MemErr (wb_append (rb_buffer m) cells)) (\<lambda>buffer.
     bindR (if diverging then mapR (\<lambda>born. rb_births m @ [born]) (sequence_at (sv_segment (views ! view_index)) row)
            else Ok (rb_births m)) (\<lambda>births.
       let m = m\<lparr>rb_buffer := buffer, rb_births := births\<rparr>
       in if segment_rows \<le> wb_len buffer then
            bindR (map_err MemErr (wb_new schema key)) (\<lambda>fresh.
            mapR (\<lambda>m. m\<lparr>rb_buffer := fresh\<rparr>) (close_live diverging m))
          else Ok m))))"

definition rebuild_live ::
  "schema \<Rightarrow> nat \<Rightarrow> nat \<Rightarrow> bool \<Rightarrow> segment_view list \<Rightarrow> merge_entry list \<Rightarrow> (storage_error, rebuild) outcome" where
  "rebuild_live schema key segment_rows diverging views order =
     bindR (map_err MemErr (rebuild_new schema key)) (\<lambda>m.
     bindR (foldR (merge_live schema key segment_rows diverging views) m order) (\<lambda>m.
     if wb_is_empty (rb_buffer m) then Ok m else close_live diverging m))"

text \<open>Dead rows: based at 0, with births and kills.\<close>

definition close_dead :: "rebuild \<Rightarrow> (storage_error, rebuild) outcome" where
  "close_dead m =
     bindR (map_err MemErr (freeze (rb_buffer m))) (\<lambda>s.
     bindR (with_sequence s (Explicit (rb_births m))) (\<lambda>s.
     mapR (\<lambda>s. m\<lparr>rb_segments := rb_segments m @ [s], rb_births := [], rb_kills := []\<rparr>)
       (with_superseded s (rb_kills m))))"

definition merge_dead ::
  "schema \<Rightarrow> nat \<Rightarrow> nat \<Rightarrow> id_map \<Rightarrow> segment_view list \<Rightarrow> rebuild \<Rightarrow> merge_entry \<Rightarrow> (storage_error, rebuild) outcome" where
  "merge_dead schema key segment_rows stamps views m = (\<lambda>(_, rid, view_index, row).
     bindR (row_cells views view_index row) (\<lambda>cells.
     bindR (map_err MemErr (wb_append (rb_buffer m) cells)) (\<lambda>buffer.
     bindR (sequence_at (sv_segment (views ! view_index)) row) (\<lambda>born.
     bindR (case bt_get stamps rid of Some kill \<Rightarrow> Ok kill | None \<Rightarrow> Panic) (\<lambda>kill.
       let m = m\<lparr>rb_buffer := buffer, rb_births := rb_births m @ [born], rb_kills := rb_kills m @ [kill]\<rparr>
       in if segment_rows \<le> wb_len buffer then
            bindR (map_err MemErr (wb_new schema key)) (\<lambda>fresh.
            mapR (\<lambda>m. m\<lparr>rb_buffer := fresh\<rparr>) (close_dead m))
          else Ok m)))))"

definition rebuild_dead ::
  "schema \<Rightarrow> nat \<Rightarrow> nat \<Rightarrow> id_map \<Rightarrow> segment_view list \<Rightarrow> merge_entry list \<Rightarrow> (storage_error, segment list) outcome" where
  "rebuild_dead schema key segment_rows stamps views order =
     (if order = [] then Ok []
      else
        bindR (map_err MemErr (rebuild_new schema key)) (\<lambda>m.
        bindR (foldR (merge_dead schema key segment_rows stamps views) m order) (\<lambda>m.
        mapR rb_segments (if wb_is_empty (rb_buffer m) then Ok m else close_dead m))))"

section \<open>The new generation\<close>

record new_generation =
  ng_segments :: "segment list"
  ng_base :: u64
  ng_history :: "segment list"
  ng_watermark :: "u64 option"
  ng_fresh :: write_buffer

definition plan_generation :: "'d store \<Rightarrow> (storage_error, new_generation) outcome" where
  "plan_generation st =
     (let recorded = map_option kn_next (sd_knowledge (st_shared st)); stamps = sd_tombstones (st_shared st)
      in bindR (store_snapshot st) (\<lambda>hs.
         bindR (traverseR (handle_view (st_read st)) hs) (\<lambda>views.
         bindR (collect_rows (st_ordering_key st) views) (\<lambda>(live, dead).
           let order = merge_order live; dead_order = merge_order dead;
               diverging = (recorded \<noteq> None \<or> dead_order \<noteq> [] \<or> renumbers order)
           in bindR (rebuild_live (st_schema st) (st_ordering_key st) (st_segment_rows st) diverging views order) (\<lambda>m.
              bindR (rebuild_dead (st_schema st) (st_ordering_key st) (st_segment_rows st) stamps views dead_order) (\<lambda>history.
              mapR (\<lambda>fresh. \<lparr>ng_segments = rb_segments m, ng_base = rb_base m, ng_history = history,
                  ng_watermark = (if diverging then Some (case recorded of Some w \<Rightarrow> w | None \<Rightarrow> st_rows st) else None),
                  ng_fresh = fresh\<rparr>)
                (map_err MemErr (wb_new (st_schema st) (st_ordering_key st)))))))))"

definition history_names :: "manifest_sections \<Rightarrow> segment list \<Rightarrow> rstring list" where
  "history_names sections history = map (\<lambda>index. history_name (length (ms_history sections) + index)) [0..<length history]"

definition next_sections :: "manifest_sections \<Rightarrow> new_generation \<Rightarrow> manifest_sections" where
  "next_sections sections g = sections\<lparr>
     ms_next_sequence := (if ng_watermark g = None then ms_next_sequence sections else ng_watermark g),
     ms_history := ms_history sections @ history_names sections (ng_history g)\<rparr>"

section \<open>Writing it\<close>

definition starts_with :: "rstring \<Rightarrow> rstring \<Rightarrow> bool" where
  "starts_with prefix name \<longleftrightarrow> take (length prefix) name = prefix"

definition list_objects :: "'d backend \<Rightarrow> ('d, rstring list) store_op" where
  "list_objects be st = (map_err Io (be_list be (st_world st)), st)"

definition remove_object :: "'d backend \<Rightarrow> rstring \<Rightarrow> ('d, unit) store_op" where
  "remove_object be name = in_world (be_remove be name)"

text \<open>What a crashed compaction may have left under the next generation's names.\<close>

definition is_stray :: "u64 \<Rightarrow> manifest_sections \<Rightarrow> rstring \<Rightarrow> bool" where
  "is_stray generation sections name \<longleftrightarrow>
     starts_with (segment_prefix generation) name \<or> starts_with (delete_log_prefix generation) name \<or>
     (starts_with (ascii ''hist-'') name \<and> name \<notin> set (ms_history sections))"

definition pre_clean :: "'d backend \<Rightarrow> u64 \<Rightarrow> manifest_sections \<Rightarrow> ('d, unit) store_op" where
  "pre_clean be generation sections =
     bindS (list_objects be) (forS (\<lambda>name. whenS (is_stray generation sections name) (remove_object be name)))"

definition write_segments :: "'d backend \<Rightarrow> (rstring \<times> segment) list \<Rightarrow> ('d, unit) store_op" where
  "write_segments be = forS (\<lambda>(name, s). write_object be name (encode_segment s))"

definition named_segments :: "u64 \<Rightarrow> segment list \<Rightarrow> (rstring \<times> segment) list" where
  "named_segments generation = map (\<lambda>s. (segment_name generation (sg_base_row_id s), s))"

definition commit_generation ::
  "'d backend \<Rightarrow> new_generation \<Rightarrow> manifest_sections \<Rightarrow> ('d, manifest_sections) store_op" where
  "commit_generation be g sections st =
     (let generation = st_generation st + 1
      in bindS (liftS (traverseR (\<lambda>(name, s). record_of name s) (named_segments generation (ng_segments g)))) (\<lambda>records.
           let next = sections\<lparr>ms_segments := records\<rparr>
           in thenS (pre_clean be generation (st_sections st))
             (thenS (write_segments be (zip (history_names (st_sections st) (ng_history g)) (ng_history g)))
             (thenS (write_segments be (named_segments generation (ng_segments g)))
             (thenS (write_object be MANIFEST (encode_manifest (st_schema st) (st_ordering_key st) generation next))
             (thenS (modifyS (\<lambda>st. st\<lparr>st_generation := generation\<rparr>))
               (returnS next)))))) st)"

definition adopt_generation :: "new_generation \<Rightarrow> rstring list \<Rightarrow> 'd store \<Rightarrow> 'd store" where
  "adopt_generation g names st =
     (let named = (\<lambda>name. if st_backend st = None then None else Some name);
          slots = map (\<lambda>s. slot_resident s (st_slot_shared st) (named (segment_name (st_generation st) (sg_base_row_id s))))
            (ng_segments g);
          retired = map (\<lambda>(s, name). slot_resident s (st_slot_shared st) (named name)) (zip (ng_history g) names);
          sd = st_shared st
      in st\<lparr>st_shared := \<lparr>sd_segments = slots, sd_buffer = ng_fresh g, sd_buffer_base = ng_base g,
              sd_knowledge = map_option (\<lambda>next. \<lparr>kn_next = next, kn_buffer_base = next, kn_explicit = None\<rparr>) (ng_watermark g),
              sd_tombstones = [], sd_history = sd_history sd @ retired\<rparr>,
            st_rows := ng_base g, st_delete_log_sequence := 0\<rparr>)"

definition is_stale :: "u64 \<Rightarrow> rstring \<Rightarrow> bool" where
  "is_stale current name \<longleftrightarrow>
     (starts_with (ascii ''seg-'') name \<or> starts_with (ascii ''del-'') name) \<and>
     \<not> (starts_with (segment_prefix current) name \<or> starts_with (delete_log_prefix current) name)"

text \<open>Best effort: nothing that fails here is reported.\<close>

definition clean_up :: "'d backend \<Rightarrow> ('d, unit) store_op" where
  "clean_up be st = ignoreS (bindS (list_objects be)
     (forS (\<lambda>name. whenS (is_stale (st_generation st) name) (ignoreS (remove_object be name))))) st"

definition install_generation :: "new_generation \<Rightarrow> manifest_sections \<Rightarrow> ('d, unit) store_op" where
  "install_generation g sections st =
     (let old = st_sections st
      in thenS (modifyS (\<lambda>st. st\<lparr>st_sections := sections\<rparr>))
        (thenS (modifyS (adopt_generation g (history_names old (ng_history g))))
        (thenS reset_wal (with_backend clean_up))) st)"

definition commit_sections :: "new_generation \<Rightarrow> ('d, manifest_sections) store_op" where
  "commit_sections g st =
     (let sections = next_sections (st_sections st) g
      in case st_backend st of
           None \<Rightarrow> (Ok sections, st)
         | Some be \<Rightarrow> commit_generation be g sections st)"

definition compact :: "('d, unit) store_op" where
  "compact =
     thenS refuse_read_only
    (bindS (\<lambda>st. (plan_generation st, st)) (\<lambda>g.
     bindS (commit_sections g) (install_generation g)))"

end
