(* ===== verification/Table.thy ===== *)
theory Table
  imports Store "HOL-Library.Multiset"
begin

text \<open>
  The table a store holds, abstractly: its row versions and its watermark.  The store's
  invariant says that the segments, the buffer, the tombstones and the history on the disk
  and in memory are a faithful layout of such a table; each operation is then shown to be
  the operation on versions it is meant to be, whatever fails underneath.
\<close>

section \<open>The versions of a store\<close>

definition stored :: "(rstring \<Rightarrow> bytes option) \<Rightarrow> read_object" where
  "stored objs name = (case objs name of Some b \<Rightarrow> Ok b | None \<Rightarrow> Err (NotFound name))"

definition contents :: "(rstring \<Rightarrow> bytes option) \<Rightarrow> segment_slot list \<Rightarrow> segment list" where
  "contents objs slots = concat (map (\<lambda>sl. case slot_segment (stored objs) sl of Ok s \<Rightarrow> [s] | _ \<Rightarrow> []) slots)"

definition buffer_rows :: "write_buffer \<Rightarrow> row_value list list" where
  "buffer_rows wb = map (\<lambda>row. map (\<lambda>b. builder_cells b ! row) (wb_builders wb)) [0..<wb_rows wb]"

definition buffer_birth :: "shared \<Rightarrow> nat \<Rightarrow> u64" where
  "buffer_birth sd row =
     (case sd_knowledge sd of
        None \<Rightarrow> sd_buffer_base sd + word_of_nat row
      | Some k \<Rightarrow> (case kn_explicit k of
                     Some births \<Rightarrow> births ! row
                   | None \<Rightarrow> kn_buffer_base k + word_of_nat row))"

definition buffer_versions :: "shared \<Rightarrow> version list" where
  "buffer_versions sd =
     map (\<lambda>row. \<lparr>vn_cells = buffer_rows (sd_buffer sd) ! row, vn_born = buffer_birth sd row,
                 vn_kill = bt_get (sd_tombstones sd) (sd_buffer_base sd + word_of_nat row)\<rparr>)
       [0..<wb_rows (sd_buffer sd)]"

definition table_versions :: "(rstring \<Rightarrow> bytes option) \<Rightarrow> shared \<Rightarrow> version list" where
  "table_versions objs sd =
     concat (map (live_versions (sd_tombstones sd)) (contents objs (sd_segments sd))) @ buffer_versions sd @
     concat (map history_versions (contents objs (sd_history sd)))"

record table =
  tb_latest :: "version list"
  tb_retired :: "version list"
  tb_mark :: u64

definition latest_versions :: "(rstring \<Rightarrow> bytes option) \<Rightarrow> shared \<Rightarrow> version list" where
  "latest_versions objs sd =
     concat (map (live_versions (sd_tombstones sd)) (contents objs (sd_segments sd))) @ buffer_versions sd"

definition table_of :: "('d \<Rightarrow> rstring \<Rightarrow> bytes option) \<Rightarrow> 'd store \<Rightarrow> table" where
  "table_of objects st =
     \<lparr>tb_latest = latest_versions (objects (st_world st)) (st_shared st),
      tb_retired = concat (map history_versions (contents (objects (st_world st)) (sd_history (st_shared st)))),
      tb_mark = next_sequence st\<rparr>"

lemma table_versions_split:
  "table_versions objs sd = latest_versions objs sd @ concat (map history_versions (contents objs (sd_history sd)))"
  by (simp add: table_versions_def latest_versions_def)

text \<open>The table as known at a coordinate: the rows a reader gets, in no particular order.\<close>

definition known_at :: "u64 \<Rightarrow> version list \<Rightarrow> row_value list multiset" where
  "known_at coord vs = mset (map vn_cells (filter (visible coord) vs))"

section \<open>The invariant\<close>

definition segment_layout :: "(rstring \<Rightarrow> bytes option) \<Rightarrow> bool \<Rightarrow> u64 \<Rightarrow> segment_slot \<Rightarrow> segment \<Rightarrow> bool" where
  "segment_layout objs persistent generation sl s \<longleftrightarrow>
     slot_stands_for (stored objs) sl s \<and> sl_meta sl = Some (meta_of s) \<and> sequenced s \<and> 0 < rb_num_rows (sg_batch s) \<and>
     sl_name sl = (if persistent then Some (segment_name generation (sg_base_row_id s)) else None)"

definition history_layout :: "(rstring \<Rightarrow> bytes option) \<Rightarrow> bool \<Rightarrow> nat \<Rightarrow> segment_slot \<Rightarrow> segment \<Rightarrow> bool" where
  "history_layout objs persistent index sl s \<longleftrightarrow>
     slot_stands_for (stored objs) sl s \<and> superseded_ok s \<and>
     sl_name sl = (if persistent then Some (history_name index) else None)"

definition total_rows :: "segment list \<Rightarrow> nat" where
  "total_rows ss = sum_list (map (\<lambda>s. rb_num_rows (sg_batch s)) ss)"

definition knowledge_ok :: "nat \<Rightarrow> knowledge option \<Rightarrow> bool" where
  "knowledge_ok buffered k \<longleftrightarrow>
     (case k of
        None \<Rightarrow> True
      | Some k \<Rightarrow> (case kn_explicit k of
                     Some births \<Rightarrow> length births = buffered
                   | None \<Rightarrow> unat (kn_next k) = unat (kn_buffer_base k) + buffered))"

definition wb_ok :: "schema \<Rightarrow> nat \<Rightarrow> write_buffer \<Rightarrow> bool" where
  "wb_ok schema key wb \<longleftrightarrow> wb_holds wb (buffer_rows wb) \<and> wb_schema wb = schema \<and> wb_ordering_key wb = key"

text \<open>Births are below the watermark and kills at most at it; row ids run from 0.\<close>

definition timely :: "u64 \<Rightarrow> version \<Rightarrow> bool" where
  "timely mark v \<longleftrightarrow> vn_born v < mark \<and> (case vn_kill v of None \<Rightarrow> True | Some kill \<Rightarrow> kill \<le> mark)"

text \<open>Every segment has the table's schema; a table that never diverged stores no births.\<close>

definition segment_fits :: "schema \<Rightarrow> knowledge option \<Rightarrow> segment \<Rightarrow> bool" where
  "segment_fits schema k s \<longleftrightarrow> rb_schema (sg_batch s) = schema \<and> (k = None \<longrightarrow> sg_sequence s = RowIds)"

definition shared_ok ::
  "(rstring \<Rightarrow> bytes option) \<Rightarrow> bool \<Rightarrow> u64 \<Rightarrow> schema \<Rightarrow> nat \<Rightarrow> u64 \<Rightarrow> shared \<Rightarrow> bool" where
  "shared_ok objs persistent generation schema key rows sd \<longleftrightarrow>
     (let segs = contents objs (sd_segments sd); hists = contents objs (sd_history sd);
          n = total_rows segs; m = wb_rows (sd_buffer sd)
      in list_all2 (segment_layout objs persistent generation) (sd_segments sd) segs \<and>
         length hists = length (sd_history sd) \<and>
         (\<forall>index<length hists. history_layout objs persistent index (sd_history sd ! index) (hists ! index)) \<and>
         laid_out 0 segs \<and> unat (sd_buffer_base sd) = n \<and> unat rows = n + m \<and>
         wb_ok schema key (sd_buffer sd) \<and> knowledge_ok m (sd_knowledge sd) \<and>
         (\<forall>s\<in>set segs. segment_fits schema (sd_knowledge sd) s) \<and>
         (\<forall>v\<in>set (table_versions objs sd). timely (watermark sd rows) v) \<and>
         (\<forall>(id, kill)\<in>set (sd_tombstones sd). id < rows))"

definition store_ok ::
  "'d backend \<Rightarrow> ('d \<Rightarrow> rstring \<Rightarrow> bytes option) \<Rightarrow> ('d \<Rightarrow> bool) \<Rightarrow> ('d \<Rightarrow> log_handle \<Rightarrow> bool) \<Rightarrow> 'd store \<Rightarrow> bool" where
  "store_ok be objects good log_ok st \<longleftrightarrow>
     st_backend st \<in> {None, Some be} \<and> good (st_world st) \<and>
     (case st_wal st of None \<Rightarrow> True | Some h \<Rightarrow> log_ok (st_world st) h \<and> lh_name h = WAL) \<and>
     sh_schema (st_slot_shared st) = st_schema st \<and> sh_backend (st_slot_shared st) = (st_backend st \<noteq> None) \<and>
     ms_history (st_sections st) = map history_name [0..<length (sd_history (st_shared st))] \<and>
     shared_ok (objects (st_world st)) (st_backend st \<noteq> None) (st_generation st) (st_schema st) (st_ordering_key st)
       (st_rows st) (st_shared st)"

text \<open>What a store with a backend holds in memory is within the bounds of the file format.\<close>

definition sizes_ok :: "'d store \<Rightarrow> bool" where
  "sizes_ok st \<longleftrightarrow> st_backend st \<noteq> None \<longrightarrow>
     (\<forall>sl\<in>set (sd_segments (st_shared st)) \<union> set (sd_history (st_shared st)).
        \<forall>s. sl_state sl = Some s \<longrightarrow> segment_ok s)"

section \<open>Names are distinct\<close>

lemma decimal_digits: "b \<in> set (decimal n) \<Longrightarrow> 48 \<le> b \<and> b \<le> 57"
proof (induction n rule: decimal.induct)
  case (1 n)
  have digit: "48 \<le> (48 + word_of_nat k :: u8) \<and> (48 + word_of_nat k :: u8) \<le> 57" if "k < 10" for k
  proof -
    have "k \<in> {0, 1, 2, 3, 4, 5, 6, 7, 8, 9}" using that by auto
    then show ?thesis by auto
  qed
  show ?case using 1 digit [of n] digit [of "n mod 10"] by (subst (asm) decimal.simps) (auto split: if_splits)
qed

text \<open>The digits read back.\<close>

definition digits_value :: "bytes \<Rightarrow> nat" where
  "digits_value = foldl (\<lambda>acc b. acc * 10 + unat (b - 48)) 0"

lemma digits_value_decimal: "digits_value (decimal n) = n"
proof (induction n rule: decimal.induct)
  case (1 n)
  have "unat (48 + word_of_nat k - 48 :: u8) = k" if "k < 10" for k using that by (simp add: unat_of_nat)
  then show ?case using 1 by (subst decimal.simps) (simp add: digits_value_def)
qed

lemma digits_value_zeros: "digits_value (replicate k 48 @ ds) = digits_value ds"
  by (induction k) (simp_all add: digits_value_def)

lemma digits_value_padded: "digits_value (padded w n) = n"
  by (simp add: padded_def digits_value_zeros digits_value_decimal)

lemma padded_inject: "padded w m = padded w n \<longleftrightarrow> m = n"
  by (metis digits_value_padded)

lemma padded_digits: "b \<in> set (padded w n) \<Longrightarrow> 48 \<le> b \<and> b \<le> 57"
  using decimal_digits [of b n] by (auto simp: padded_def)

lemma dash_not_padded: "(45 :: u8) \<notin> set (padded w n)" "(46 :: u8) \<notin> set (padded w n)"
  using padded_digits [of 45 w n] padded_digits [of 46 w n] by auto

lemma split_at_mark: "xs @ c # ys = xs' @ c # ys' \<Longrightarrow> c \<notin> set xs \<Longrightarrow> c \<notin> set xs' \<Longrightarrow> xs = xs' \<and> ys = ys'"
proof (induction xs arbitrary: xs')
  case Nil
  then show ?case by (cases xs') auto
next
  case (Cons x xs)
  then show ?case by (cases xs') auto
qed

lemma segment_name_inject: "segment_name g b = segment_name g' b' \<longleftrightarrow> g = g' \<and> b = b'"
proof
  assume "segment_name g b = segment_name g' b'"
  then have "padded 10 (unat g) @ 45 # (padded 20 (unat b) @ ascii ''.tlyseg'') =
      padded 10 (unat g') @ 45 # (padded 20 (unat b') @ ascii ''.tlyseg'')"
    by (simp add: segment_name_def ascii_def)
  from split_at_mark [OF this dash_not_padded(1) dash_not_padded(1)]
  show "g = g' \<and> b = b'" by (simp add: padded_inject word_unat_eq_iff)
qed simp

lemma history_name_inject: "history_name i = history_name j \<longleftrightarrow> i = j"
  by (simp add: history_name_def padded_inject)

lemma names_differ [simp]:
  "segment_name g b \<noteq> MANIFEST" "segment_name g b \<noteq> WAL" "segment_name g b \<noteq> delete_log_name h k"
  "segment_name g b \<noteq> history_name i" "history_name i \<noteq> MANIFEST" "history_name i \<noteq> WAL"
  "history_name i \<noteq> delete_log_name h k" "history_name i \<noteq> segment_name g b" "MANIFEST \<noteq> WAL" "WAL \<noteq> MANIFEST"
  by (simp_all add: segment_name_def history_name_def delete_log_name_def MANIFEST_def WAL_def ascii_def)

lemma names_public [simp]:
  "public_name (segment_name g b)" "public_name (history_name i)" "public_name MANIFEST" "public_name WAL"
  "public_name (delete_log_name g k)"
  by (simp_all add: public_name_def segment_name_def history_name_def delete_log_name_def MANIFEST_def WAL_def ascii_def)

section \<open>What a slot stands for does not change\<close>

lemma contents_all2:
  "list_all2 (\<lambda>sl s. slot_stands_for (stored objs) sl s) slots ss \<Longrightarrow> contents objs slots = ss"
  by (induction rule: list_all2_induct) (simp_all add: contents_def slot_segment_stands)

lemma contents_append: "contents objs (xs @ ys) = contents objs xs @ contents objs ys"
  by (simp add: contents_def)

lemma stands_frame:
  "slot_stands_for (stored objs) sl s \<Longrightarrow> (\<And>name. sl_name sl = Some name \<Longrightarrow> objs' name = objs name) \<Longrightarrow>
   slot_stands_for (stored objs') sl s"
  by (auto simp: slot_stands_for_def stored_def)

definition slot_names :: "shared \<Rightarrow> rstring set" where
  "slot_names sd = {name. \<exists>sl\<in>set (sd_segments sd) \<union> set (sd_history sd). sl_name sl = Some name}"

lemma slot_names_member:
  "sl \<in> set (sd_segments sd) \<or> sl \<in> set (sd_history sd) \<Longrightarrow> sl_name sl = Some name \<Longrightarrow> name \<in> slot_names sd"
  by (auto simp: slot_names_def)

lemma shared_ok_contents:
  assumes "shared_ok objs p g schema key rows sd"
  shows "list_all2 (segment_layout objs p g) (sd_segments sd) (contents objs (sd_segments sd))"
    "length (contents objs (sd_history sd)) = length (sd_history sd)"
    "index < length (sd_history sd) \<Longrightarrow> history_layout objs p index (sd_history sd ! index) (contents objs (sd_history sd) ! index)"
  using assms by (simp_all add: shared_ok_def Let_def)

lemma contents_frame:
  assumes "shared_ok objs p g schema key rows sd" "\<And>name. name \<in> slot_names sd \<Longrightarrow> objs' name = objs name"
  shows "contents objs' (sd_segments sd) = contents objs (sd_segments sd)"
    "contents objs' (sd_history sd) = contents objs (sd_history sd)"
proof -
  note C = shared_ok_contents [OF assms(1)]
  have "list_all2 (\<lambda>sl s. slot_stands_for (stored objs') sl s) (sd_segments sd) (contents objs (sd_segments sd))"
    unfolding list_all2_conv_all_nth
  proof (intro conjI allI impI)
    fix i assume i: "i < length (sd_segments sd)"
    then have "slot_stands_for (stored objs) (sd_segments sd ! i) (contents objs (sd_segments sd) ! i)"
      using C(1) by (simp add: list_all2_conv_all_nth segment_layout_def)
    then show "slot_stands_for (stored objs') (sd_segments sd ! i) (contents objs (sd_segments sd) ! i)"
      by (rule stands_frame) (rule assms(2), rule slot_names_member, use i in simp_all)
  qed (use C(1) in \<open>simp add: list_all2_lengthD\<close>)
  then show "contents objs' (sd_segments sd) = contents objs (sd_segments sd)" by (rule contents_all2)
  have "list_all2 (\<lambda>sl s. slot_stands_for (stored objs') sl s) (sd_history sd) (contents objs (sd_history sd))"
    unfolding list_all2_conv_all_nth
  proof (intro conjI allI impI)
    fix i assume i: "i < length (sd_history sd)"
    then have "slot_stands_for (stored objs) (sd_history sd ! i) (contents objs (sd_history sd) ! i)"
      using C(3) by (simp add: history_layout_def)
    then show "slot_stands_for (stored objs') (sd_history sd ! i) (contents objs (sd_history sd) ! i)"
      by (rule stands_frame) (rule assms(2), rule slot_names_member, use i in simp_all)
  qed (use C(2) in simp)
  then show "contents objs' (sd_history sd) = contents objs (sd_history sd)" by (rule contents_all2)
qed

text \<open>Objects other than the slots' own may change freely.\<close>

lemma shared_ok_frame:
  assumes "shared_ok objs p g schema key rows sd" "\<And>name. name \<in> slot_names sd \<Longrightarrow> objs' name = objs name"
  shows "shared_ok objs' p g schema key rows sd" "latest_versions objs' sd = latest_versions objs sd"
proof -
  note F = contents_frame [OF assms]
  show "latest_versions objs' sd = latest_versions objs sd" by (simp add: latest_versions_def F)
  have v: "table_versions objs' sd = table_versions objs sd" by (simp add: table_versions_def F)
  have st: "slot_stands_for (stored objs') sl s"
    if "slot_stands_for (stored objs) sl s" "sl \<in> set (sd_segments sd) \<union> set (sd_history sd)" for sl s
    using that(1) by (rule stands_frame) (rule assms(2), rule slot_names_member, use that(2) in auto)
  have seg: "segment_layout objs' p g sl s" if "segment_layout objs p g sl s" "sl \<in> set (sd_segments sd)" for sl s
    using that st [of sl s] by (simp add: segment_layout_def)
  have hist: "history_layout objs' p i sl s" if "history_layout objs p i sl s" "sl \<in> set (sd_history sd)" for i sl s
    using that st [of sl s] by (simp add: history_layout_def)
  have "list_all2 (segment_layout objs' p g) (sd_segments sd) (contents objs (sd_segments sd))"
    using shared_ok_contents(1) [OF assms(1)] seg by (simp add: list_all2_conv_all_nth)
  then show "shared_ok objs' p g schema key rows sd"
    using assms(1) hist by (simp add: shared_ok_def Let_def F v)
qed

lemma slot_names_kinds:
  assumes "shared_ok objs p g schema key rows sd" "name \<in> slot_names sd"
  shows "p \<and> ((\<exists>s\<in>set (contents objs (sd_segments sd)). name = segment_name g (sg_base_row_id s)) \<or>
    (\<exists>i<length (sd_history sd). name = history_name i))"
proof -
  note C = shared_ok_contents [OF assms(1)]
  obtain sl where sl: "sl \<in> set (sd_segments sd) \<union> set (sd_history sd)" "sl_name sl = Some name"
    using assms(2) by (auto simp: slot_names_def)
  show ?thesis
  proof (cases "sl \<in> set (sd_segments sd)")
    case True
    then obtain i where i: "i < length (sd_segments sd)" "sl = sd_segments sd ! i" by (auto simp: in_set_conv_nth)
    then have "segment_layout objs p g sl (contents objs (sd_segments sd) ! i)" "i < length (contents objs (sd_segments sd))"
      using C(1) by (simp_all add: list_all2_conv_all_nth)
    then show ?thesis using sl(2) by (auto simp: segment_layout_def split: if_splits)
  next
    case False
    then obtain i where i: "i < length (sd_history sd)" "sl = sd_history sd ! i" using sl(1) by (auto simp: in_set_conv_nth)
    then show ?thesis using C(3) [OF i(1)] sl(2) by (auto simp: history_layout_def split: if_splits)
  qed
qed

lemma slot_names_not:
  assumes "shared_ok objs p g schema key rows sd"
  shows "MANIFEST \<notin> slot_names sd" "WAL \<notin> slot_names sd" "delete_log_name h k \<notin> slot_names sd"
  using slot_names_kinds [OF assms, of MANIFEST] slot_names_kinds [OF assms, of WAL]
    slot_names_kinds [OF assms, of "delete_log_name h k"] names_differ by metis+

section \<open>Operations that leave the table alone\<close>

text \<open>
  \<open>still\<close>: nothing but the disk, the log, the clock, the manifest sections and the delete-log
  counter changed, and the disk only beside the slots.  \<open>quiet\<close>: the layout may have changed
  but the table has not.
\<close>

definition unchanged :: "'d store \<Rightarrow> 'd store \<Rightarrow> bool" where
  "unchanged st st' \<longleftrightarrow>
     st_shared st' = st_shared st \<and> st_rows st' = st_rows st \<and> st_read_only st' = st_read_only st \<and>
     st_slot_shared st' = st_slot_shared st \<and> st_schema st' = st_schema st \<and>
     st_ordering_key st' = st_ordering_key st \<and> st_segment_rows st' = st_segment_rows st \<and>
     st_generation st' = st_generation st \<and> st_backend st' = st_backend st"

definition still ::
  "'d backend \<Rightarrow> ('d \<Rightarrow> rstring \<Rightarrow> bytes option) \<Rightarrow> ('d \<Rightarrow> bool) \<Rightarrow> ('d \<Rightarrow> log_handle \<Rightarrow> bool) \<Rightarrow>
   'd store \<Rightarrow> 'd store \<Rightarrow> bool" where
  "still be objects good log_ok st st' \<longleftrightarrow> unchanged st st' \<and>
     (store_ok be objects good log_ok st \<longrightarrow>
        store_ok be objects good log_ok st' \<and>
        table_of objects st' = table_of objects st)"

definition slots_of :: "'d store \<Rightarrow> segment_slot set" where
  "slots_of st = set (sd_segments (st_shared st)) \<union> set (sd_history (st_shared st))"

definition grows :: "'d store \<Rightarrow> 'd store \<Rightarrow> bool" where
  "grows st st' \<longleftrightarrow> slots_of st \<subseteq> slots_of st' \<and> st_rows st' = st_rows st \<and>
     sd_tombstones (st_shared st') = sd_tombstones (st_shared st) \<and> st_backend st' = st_backend st \<and>
     st_read_only st' = st_read_only st \<and> next_sequence st' = next_sequence st"

definition quiet ::
  "'d backend \<Rightarrow> ('d \<Rightarrow> rstring \<Rightarrow> bytes option) \<Rightarrow> ('d \<Rightarrow> bool) \<Rightarrow> ('d \<Rightarrow> log_handle \<Rightarrow> bool) \<Rightarrow>
   'd store \<Rightarrow> 'd store \<Rightarrow> bool" where
  "quiet be objects good log_ok st st' \<longleftrightarrow> grows st st' \<and>
     (store_ok be objects good log_ok st \<and> sizes_ok st' \<longrightarrow>
        store_ok be objects good log_ok st' \<and>
        table_of objects st' = table_of objects st)"

lemma table_of_update [simp]:
  "table_of objects (st\<lparr>st_last_wal_sync := t\<rparr>) = table_of objects st"
  "table_of objects (st\<lparr>st_wal := w\<rparr>) = table_of objects st"
  "table_of objects (st\<lparr>st_sections := m\<rparr>) = table_of objects st"
  "table_of objects (st\<lparr>st_delete_log_sequence := k\<rparr>) = table_of objects st"
  by (simp_all add: table_of_def next_sequence_def)

lemma sizes_ok_slots:
  "slots_of st \<subseteq> slots_of st' \<Longrightarrow> st_backend st' = st_backend st \<Longrightarrow> sizes_ok st' \<Longrightarrow> sizes_ok st"
  by (auto simp: sizes_ok_def slots_of_def)

interpretation still: preorder_relation "still be objects good log_ok" for be objects good log_ok
  by unfold_locales (auto simp: still_def unchanged_def)

interpretation quiet: preorder_relation "quiet be objects good log_ok" for be objects good log_ok
proof unfold_locales
  fix s t u assume "quiet be objects good log_ok s t" "quiet be objects good log_ok t u"
  then show "quiet be objects good log_ok s u" using sizes_ok_slots [of t u] by (auto simp: quiet_def grows_def)
qed (simp add: quiet_def grows_def)

interpretation grows: preorder_relation grows
  by unfold_locales (auto simp: grows_def)

lemma unchanged_grows: "unchanged st st' \<Longrightarrow> grows st st'"
  by (simp add: unchanged_def grows_def slots_of_def next_sequence_def)

lemma leads_grows: "leads unchanged m st \<Longrightarrow> leads grows m st"
  by (simp add: leads_def unchanged_grows)

lemma still_quiet: "still be objects good log_ok st st' \<Longrightarrow> quiet be objects good log_ok st st'"
  by (simp add: still_def quiet_def unchanged_grows)

lemma leads_quiet: "leads (still be objects good log_ok) m st \<Longrightarrow> leads (quiet be objects good log_ok) m st"
  by (simp add: leads_def still_quiet)

lemma in_world_eq: "in_world m st = (map_err Io (fst (m (st_world st))), st\<lparr>st_world := snd (m (st_world st))\<rparr>)"
  by (simp add: in_world_def case_prod_unfold Let_def)

context storage_backend
begin

text \<open>An input or output call beside the slots.\<close>

lemma in_world_still:
  assumes "\<And>r d'. store_ok be objects good log_ok st \<Longrightarrow> m (st_world st) = (r, d') \<Longrightarrow>
      good d' \<and> (\<forall>h. log_ok (st_world st) h \<longrightarrow> log_ok d' h) \<and>
      (\<forall>name. name \<in> slot_names (st_shared st) \<longrightarrow> objects d' name = objects (st_world st) name)"
  shows "leads (still be objects good log_ok) (in_world m) st"
proof -
  obtain r d' where m: "m (st_world st) = (r, d')" by fastforce
  have "store_ok be objects good log_ok (st\<lparr>st_world := d'\<rparr>) \<and>
      table_of objects (st\<lparr>st_world := d'\<rparr>) = table_of objects st"
    if ok: "store_ok be objects good log_ok st"
  proof -
    note A = assms [OF ok m]
    have sh: "shared_ok (objects (st_world st)) (st_backend st \<noteq> None) (st_generation st) (st_schema st)
        (st_ordering_key st) (st_rows st) (st_shared st)" using ok by (simp add: store_ok_def)
    note F = shared_ok_frame [OF sh, of "objects d'"]
    have "table_of objects (st\<lparr>st_world := d'\<rparr>) = table_of objects st"
      using A F(2) contents_frame [OF sh, of "objects d'"] by (simp add: table_of_def next_sequence_def)
    then show ?thesis using ok A F(1) by (auto simp: store_ok_def split: option.splits)
  qed
  then show ?thesis by (simp add: leads_def in_world_eq m still_def unchanged_def)
qed

lemma write_object_still:
  assumes "public_name name" "store_ok be objects good log_ok st \<Longrightarrow> name \<notin> slot_names (st_shared st)"
  shows "leads (still be objects good log_ok) (write_object be name b) st"
  unfolding write_object_def
proof (rule in_world_still)
  fix r d' assume ok: "store_ok be objects good log_ok st" and w: "be_write be name b (st_world st) = (r, d')"
  have "good (st_world st)" using ok by (simp add: store_ok_def)
  from written [OF this assms(1) w] assms(2) [OF ok]
  show "good d' \<and> (\<forall>h. log_ok (st_world st) h \<longrightarrow> log_ok d' h) \<and>
      (\<forall>name. name \<in> slot_names (st_shared st) \<longrightarrow> objects d' name = objects (st_world st) name)"
    by auto
qed

lemma store_ok_names:
  assumes "store_ok be objects good log_ok st"
  shows "MANIFEST \<notin> slot_names (st_shared st)" "WAL \<notin> slot_names (st_shared st)"
    "delete_log_name h k \<notin> slot_names (st_shared st)"
  using assms slot_names_not by (auto simp: store_ok_def)

lemma modify_still:
  "(\<And>f. still be objects good log_ok st (g st)) \<Longrightarrow> leads (still be objects good log_ok) (modifyS g) st"
  by (simp add: leads_def)

lemma wal_synced_now_still [intro]: "leads (still be objects good log_ok) (wal_synced_now be') st"
  by (simp add: leads_def wal_synced_now_def still_def unchanged_def store_ok_def split: option.split)

text \<open>A log handle the store holds.\<close>

lemma log_append_still:
  "st_wal st = Some h \<Longrightarrow> leads (still be objects good log_ok) (in_world (be_log_append be h b)) st"
proof (rule in_world_still)
  fix r d' assume ok: "store_ok be objects good log_ok st" and h: "st_wal st = Some h"
    and m: "be_log_append be h b (st_world st) = (r, d')"
  have "good (st_world st)" "log_ok (st_world st) h" "lh_name h = WAL" using ok h by (simp_all add: store_ok_def)
  from log_append [OF this(1,2) m] this(3) store_ok_names(2) [OF ok]
  show "good d' \<and> (\<forall>h. log_ok (st_world st) h \<longrightarrow> log_ok d' h) \<and>
      (\<forall>name. name \<in> slot_names (st_shared st) \<longrightarrow> objects d' name = objects (st_world st) name)" by metis
qed

lemma log_sync_still:
  "st_wal st = Some h \<Longrightarrow> leads (still be objects good log_ok) (in_world (be_log_sync be h)) st"
proof (rule in_world_still)
  fix r d' assume ok: "store_ok be objects good log_ok st" and h: "st_wal st = Some h"
    and m: "be_log_sync be h (st_world st) = (r, d')"
  have "good (st_world st)" "log_ok (st_world st) h" "lh_name h = WAL" using ok h by (simp_all add: store_ok_def)
  from log_sync [OF this(1,2) m] this(3) store_ok_names(2) [OF ok]
  show "good d' \<and> (\<forall>h. log_ok (st_world st) h \<longrightarrow> log_ok d' h) \<and>
      (\<forall>name. name \<in> slot_names (st_shared st) \<longrightarrow> objects d' name = objects (st_world st) name)" by metis
qed

lemma open_log_still: "leads (still be objects good log_ok) (in_world (be_open_log be WAL)) st"
proof (rule in_world_still)
  fix r d' assume ok: "store_ok be objects good log_ok st" and m: "be_open_log be WAL (st_world st) = (r, d')"
  have "good (st_world st)" using ok by (simp add: store_ok_def)
  from open_log [OF this names_public(4) m]
  show "good d' \<and> (\<forall>h. log_ok (st_world st) h \<longrightarrow> log_ok d' h) \<and>
      (\<forall>name. name \<in> slot_names (st_shared st) \<longrightarrow> objects d' name = objects (st_world st) name)" by auto
qed

end

end
