(* ===== verification/Upkeep.thy ===== *)
theory Upkeep
  imports Table
begin

text \<open>
  The store's own housekeeping leaves the table as it is: logging, resetting the log, writing
  a delete log, and the flush, which turns the buffer into a segment without changing a
  single version, whatever fails on the way.
\<close>

lemma in_world_Ok: "in_world m st = (r, st') \<Longrightarrow> st' = st\<lparr>st_world := st_world st'\<rparr>"
  by (auto simp: in_world_eq)

lemma wal_synced_now_Ok: "wal_synced_now be st = (r, st') \<Longrightarrow> st_wal st' = st_wal st"
  by (auto simp: wal_synced_now_def)

lemma store_ok_backend: "store_ok be objects good log_ok st \<Longrightarrow> st_backend st = Some be' \<Longrightarrow> be' = be"
  by (auto simp: store_ok_def)

lemma still_backend: "still be objects good log_ok st st' \<Longrightarrow> st_backend st' = st_backend st"
  by (simp add: still_def unchanged_def)

interpretation same: preorder_relation unchanged
  by unfold_locales (auto simp: unchanged_def)

text \<open>Every step of the housekeeping leaves the rest of the store unchanged, in any state.\<close>

lemma in_world_unchanged [intro, simp]: "leads unchanged (in_world m) st"
  by (simp add: leads_def in_world_eq unchanged_def)

lemma write_object_unchanged [intro, simp]: "leads unchanged (write_object be name b) st"
  by (simp add: write_object_def)

lemma wal_synced_now_unchanged [intro, simp]: "leads unchanged (wal_synced_now be) st"
  by (simp add: leads_def wal_synced_now_def unchanged_def)

lemma set_wal_unchanged [intro, simp]: "leads unchanged (modifyS (\<lambda>st. st\<lparr>st_wal := w\<rparr>)) st"
  by (simp add: leads_def unchanged_def)

lemma reset_wal_unchanged: "leads unchanged reset_wal st"
proof -
  have "leads unchanged (thenS (write_object be WAL b) (bindS (in_world (be_open_log be WAL)) (\<lambda>h.
      thenS (modifyS (\<lambda>st. st\<lparr>st_wal := Some h\<rparr>)) (wal_synced_now be)))) st" for be b
    by (intro same.leads_then same.leads_bind write_object_unchanged in_world_unchanged set_wal_unchanged wal_synced_now_unchanged)
  then show ?thesis
    by (cases "st_wal st"; cases "st_backend st") (auto simp: leads_def reset_wal_def same.refl)
qed

lemma stillI:
  "leads unchanged m st \<Longrightarrow> (store_ok be objects good log_ok st \<Longrightarrow> leads (still be objects good log_ok) m st) \<Longrightarrow>
   leads (still be objects good log_ok) m st"
  by (auto simp: leads_def still_def)

context storage_backend
begin

lemma wal_append_still:
  assumes "st_backend st \<in> {None, Some be}"
  shows "leads (still be objects good log_ok) (wal_append row) st"
proof (cases "st_wal st")
  case (Some h)
  show ?thesis
  proof (cases "st_backend st")
    case b: (Some be')
    have sync: "leads (still be objects good log_ok) (thenS (in_world (be_log_sync be h)) (wal_synced_now be)) s"
      if "st_wal s = Some h" for s
      by (rule still.leads_then [OF log_sync_still [OF that] wal_synced_now_still])
    have "leads (still be objects good log_ok)
        (thenS (in_world (be_log_append be h (encode_wal_record row)))
          (bindS (getS (\<lambda>st. (st_wal_sync st, be_now be (st_world st) - st_last_wal_sync st))) (\<lambda>(sync, elapsed).
             case sync of
               SyncFull \<Rightarrow> thenS (in_world (be_log_sync be h)) (wal_synced_now be)
             | SyncGroup interval \<Rightarrow>
                 whenS (interval \<le> elapsed) (thenS (in_world (be_log_sync be h)) (wal_synced_now be))
             | SyncOff \<Rightarrow> liftS Panic))) st"
    proof (rule still.leads_then [OF log_append_still [OF Some]])
      fix a s' assume "in_world (be_log_append be h (encode_wal_record row)) st = (Ok a, s')"
      then have w: "st_wal s' = Some h" using in_world_Ok Some by (metis store.select_convs(11) store.surjective store.update_convs(15))
      show "leads (still be objects good log_ok)
        (bindS (getS (\<lambda>st. (st_wal_sync st, be_now be (st_world st) - st_last_wal_sync st))) (\<lambda>(sync, elapsed).
             case sync of
               SyncFull \<Rightarrow> thenS (in_world (be_log_sync be h)) (wal_synced_now be)
             | SyncGroup interval \<Rightarrow>
                 whenS (interval \<le> elapsed) (thenS (in_world (be_log_sync be h)) (wal_synced_now be))
             | SyncOff \<Rightarrow> liftS Panic)) s'"
        using sync [OF w] w by (intro still.leads_bind) (auto split: wal_sync.split)
    qed
    then show ?thesis using assms Some b by (simp add: leads_def wal_append_def)
  qed (simp add: leads_def wal_append_def Some still.refl)
qed (simp add: leads_def wal_append_def still.refl)

lemma open_bracket_still:
  assumes "st_backend st \<in> {None, Some be}"
  shows "leads (still be objects good log_ok) (open_bracket sequence n) st"
proof (cases "st_wal st")
  case (Some h)
  then show ?thesis
    using assms log_append_still [OF Some] by (auto simp: leads_def open_bracket_def still.refl)
qed (simp add: leads_def open_bracket_def still.refl)

lemma reset_wal_still: "leads (still be objects good log_ok) reset_wal st"
proof (rule stillI [OF reset_wal_unchanged])
  assume ok: "store_ok be objects good log_ok st"
  show "leads (still be objects good log_ok) reset_wal st"
  proof (cases "st_wal st = None \<or> st_backend st = None")
    case False
    then have be: "st_wal st \<noteq> None" "st_backend st = Some be" using ok by (auto simp: store_ok_def)
    have keep: "leads (still be objects good log_ok) (thenS (modifyS (\<lambda>st. st\<lparr>st_wal := Some g\<rparr>)) (wal_synced_now be)) s"
      if "log_ok (st_world s) g \<and> lh_name g = WAL" for s g
      by (rule still.leads_then [OF _ wal_synced_now_still])
        (use that in \<open>auto simp: leads_def still_def unchanged_def store_ok_def\<close>)
    have "leads (still be objects good log_ok)
        (thenS (write_object be WAL (encode_wal_header (st_generation st) (st_rows st)))
          (bindS (in_world (be_open_log be WAL)) (\<lambda>h.
           thenS (modifyS (\<lambda>st. st\<lparr>st_wal := Some h\<rparr>)) (wal_synced_now be)))) st"
    proof (rule still.leads_then [OF write_object_still [OF names_public(4) store_ok_names(2)]], assumption)
      fix a s assume "still be objects good log_ok st s"
      then have good: "good (st_world s)" using ok by (simp add: still_def store_ok_def)
      show "leads (still be objects good log_ok) (bindS (in_world (be_open_log be WAL)) (\<lambda>h.
           thenS (modifyS (\<lambda>st. st\<lparr>st_wal := Some h\<rparr>)) (wal_synced_now be))) s"
      proof (rule still.leads_bind [OF open_log_still])
        fix g s' assume m: "in_world (be_open_log be WAL) s = (Ok g, s')"
        obtain opened d' where o: "be_open_log be WAL (st_world s) = (opened, d')" by fastforce
        then have "opened = Ok g" "st_world s' = d'" using m by (auto simp: in_world_eq)
        then show "leads (still be objects good log_ok) (thenS (modifyS (\<lambda>st. st\<lparr>st_wal := Some g\<rparr>)) (wal_synced_now be)) s'"
          using open_log [OF good names_public(4) o] by (intro keep) simp
      qed
    qed
    then show ?thesis using be by (auto simp: leads_def reset_wal_def)
  qed (auto simp: leads_def reset_wal_def still.refl split: option.split)
qed

lemma write_delete_log_still:
  assumes "st_backend st \<in> {None, Some be}"
  shows "leads (still be objects good log_ok) (write_delete_log newly stamp superseding) st"
proof (cases "st_backend st")
  case (Some be')
  have "leads (still be objects good log_ok) (thenS
      (\<lambda>st. write_object be (delete_log_name (st_generation st) (st_delete_log_sequence st))
              (encode_tombstones (set newly) stamp superseding) st)
       (modifyS (\<lambda>st. st\<lparr>st_delete_log_sequence := st_delete_log_sequence st + 1\<rparr>))) st"
  proof (rule still.leads_then)
    have "leads (still be objects good log_ok) (write_object be (delete_log_name (st_generation st) (st_delete_log_sequence st))
        (encode_tombstones (set newly) stamp superseding)) st"
      by (rule write_object_still [OF names_public(5) store_ok_names(3)])
    then show "leads (still be objects good log_ok) (\<lambda>st. write_object be (delete_log_name (st_generation st) (st_delete_log_sequence st))
        (encode_tombstones (set newly) stamp superseding) st) st" by (simp add: leads_def)
  qed (auto simp: leads_def still_def unchanged_def store_ok_def split: option.split)
  then show ?thesis using assms Some by (simp add: leads_def write_delete_log_def with_backend_def)
qed (simp add: leads_def write_delete_log_def with_backend_def still.refl)

end

section \<open>The flush\<close>

text \<open>The buffer frozen has the buffer's versions.\<close>

lemma cells_of_freeze:
  assumes "wb_ok schema key wb" "freeze_at wb base = Ok s"
  shows "cells_of s = buffer_rows wb" "rb_num_rows (sg_batch s) = wb_rows wb" "batch_ok (sg_batch s)"
    "sg_base_row_id s = base" "rb_schema (sg_batch s) = schema" "sg_sequence s = RowIds" "sg_superseded s = None"
proof -
  have holds: "wb_holds wb (buffer_rows wb)" "wb_schema wb = schema" using assms(1) by (simp_all add: wb_ok_def)
  note F = freeze_at_holds [OF holds(1) assms(2)]
  show rows: "rb_num_rows (sg_batch s) = wb_rows wb" using F(7) by (simp add: buffer_rows_def)
  show "batch_ok (sg_batch s)" "sg_base_row_id s = base" "rb_schema (sg_batch s) = schema" "sg_sequence s = RowIds"
    using F holds(2) by simp_all
  show "sg_superseded s = None" using assms(2) by (auto simp: freeze_at_def)
  have cols: "length (rb_columns (sg_batch s)) = length (s_fields schema)"
    using F(1,3) holds(2) by (simp add: batch_ok_def)
  have bs: "length (wb_builders wb) = length (s_fields schema)"
    using holds by (auto simp: wb_holds_def dest: list_all2_lengthD)
  show "cells_of s = buffer_rows wb"
  proof (rule nth_equalityI)
    fix i assume "i < length (cells_of s)"
    then have i: "i < wb_rows wb" using rows by simp
    have "column_cells (rb_columns (sg_batch s) ! j) ! i = builder_cells (wb_builders wb ! j) ! i"
      if "j < length (s_fields schema)" for j
    proof -
      have "column_cells (rb_columns (sg_batch s) ! j) = map (\<lambda>r. r ! j) (buffer_rows wb)"
        using F(6) that holds(2) by simp
      then show ?thesis using i that bs by (simp add: buffer_rows_def)
    qed
    then show "cells_of s ! i = buffer_rows wb ! i"
      using i rows cols bs by (simp add: cells_of_def buffer_rows_def list_eq_iff_nth_eq)
  qed (simp add: rows buffer_rows_def)
qed

lemma buffer_segment_versions:
  assumes "shared_ok objs p g schema key rows sd" "buffer_segment sd = Ok s"
  shows "live_versions (sd_tombstones sd) s = buffer_versions sd" "sequenced s"
    "rb_num_rows (sg_batch s) = wb_rows (sd_buffer sd)" "sg_base_row_id s = sd_buffer_base sd"
    "rb_schema (sg_batch s) = schema" "superseded_ok s" "sd_knowledge sd = None \<Longrightarrow> sg_sequence s = RowIds"
proof -
  have wb: "wb_ok schema key (sd_buffer sd)" and kn: "knowledge_ok (wb_rows (sd_buffer sd)) (sd_knowledge sd)"
    using assms(1) by (simp_all add: shared_ok_def Let_def)
  obtain f where f: "freeze_at (sd_buffer sd) (sd_buffer_base sd) = Ok f"
    and s: "(case buffer_sequence sd of Some sequence \<Rightarrow> with_sequence f sequence | None \<Rightarrow> Ok f) = (Ok s :: (storage_error, _) outcome)"
    using assms(2) by (auto simp: buffer_segment_def snapshot_at_def)
  note F = cells_of_freeze [OF wb f]
  have cases: "buffer_sequence sd = None \<and> s = f \<or> (\<exists>info. buffer_sequence sd = Some info \<and>
      s = f\<lparr>sg_sequence := info\<rparr> \<and> (\<forall>vs. info = Explicit vs \<longrightarrow> length vs = rb_num_rows (sg_batch f)))"
  proof (cases "buffer_sequence sd")
    case (Some info)
    then show ?thesis using s by (cases info) (auto simp: with_sequence_def split: if_splits)
  qed (use s in simp)
  then have same: "sg_batch s = sg_batch f" "sg_base_row_id s = sg_base_row_id f" "sg_superseded s = sg_superseded f"
    by auto
  show "sg_sequence s = RowIds" if "sd_knowledge sd = None"
    using that cases F(6) by (auto simp: buffer_sequence_def)
  show rows: "rb_num_rows (sg_batch s) = wb_rows (sd_buffer sd)" and base: "sg_base_row_id s = sd_buffer_base sd"
    and "rb_schema (sg_batch s) = schema"
    using F same by simp_all
  show seq: "sequenced s"
    using cases F(3,6) by (auto simp: sequenced_def split: sequence_info.split)
  then show "superseded_ok s" using F(7) same by (simp add: superseded_ok_def)
  have "birth s row = buffer_birth sd row" if "row < wb_rows (sd_buffer sd)" for row
    using cases F(4,6) unfolding birth_def buffer_birth_def buffer_sequence_def
    by (auto split: option.splits)
  moreover have "cells_of s = buffer_rows (sd_buffer sd)" using F(1) same by (simp add: cells_of_def)
  ultimately show "live_versions (sd_tombstones sd) s = buffer_versions sd"
    by (simp add: live_versions_def buffer_versions_def rows row_id_def base)
qed

lemma wb_new_ok: "wb_new schema key = Ok wb \<Longrightarrow> wb_ok schema key wb \<and> wb_rows wb = 0"
  using wb_new_holds [of schema key wb] by (auto simp: wb_ok_def wb_holds_def buffer_rows_def)

lemma buffer_versions_empty: "wb_rows (sd_buffer sd) = 0 \<Longrightarrow> buffer_versions sd = []"
  by (simp add: buffer_versions_def)

lemma total_rows_append: "total_rows (xs @ [s]) = total_rows xs + rb_num_rows (sg_batch s)"
  by (simp add: total_rows_def)

text \<open>A segment based at the buffer's base is none of those the store has.\<close>

lemma fresh_segment_name:
  assumes "shared_ok objs p g schema key rows sd"
  shows "segment_name g (sd_buffer_base sd) \<notin> slot_names sd"
proof
  assume "segment_name g (sd_buffer_base sd) \<in> slot_names sd"
  from slot_names_kinds [OF assms this] obtain s where
    s: "s \<in> set (contents objs (sd_segments sd))" "sd_buffer_base sd = sg_base_row_id s"
    by (auto simp: segment_name_inject)
  have lo: "laid_out 0 (contents objs (sd_segments sd))"
    "unat (sd_buffer_base sd) = total_rows (contents objs (sd_segments sd))"
    using assms by (simp_all add: shared_ok_def Let_def)
  have "0 < rb_num_rows (sg_batch s)"
    using s(1) shared_ok_contents(1) [OF assms] by (auto simp: list_all2_conv_all_nth in_set_conv_nth segment_layout_def)
  then show False using laid_out_base [OF lo(1) s(1)] lo(2) s(2) by (simp add: total_rows_def)
qed

lemma adopt_flushed_ok:
  fixes st :: "'d store"
  assumes ok: "shared_ok objs p g schema key rows (st_shared st)" and s: "buffer_segment (st_shared st) = Ok s"
    and fresh: "wb_new schema key = Ok fresh" and some: "\<not> wb_is_empty (sd_buffer (st_shared st))"
    and slot: "sh_schema (st_slot_shared st) = schema" "sh_backend (st_slot_shared st) = p" "st_rows st = rows"
    and name: "name = (if p then Some (segment_name g (sg_base_row_id s)) else None)"
    and disk: "p \<Longrightarrow> objs (segment_name g (sg_base_row_id s)) = Some (encode_segment s) \<and> segment_ok s"
  shows "shared_ok objs p g schema key rows (st_shared (adopt_flushed s name fresh st))"
    "latest_versions objs (st_shared (adopt_flushed s name fresh st)) = latest_versions objs (st_shared st)"
proof -
  let ?sd = "st_shared st" and ?st = "adopt_flushed s name fresh st"
  let ?sd' = "st_shared ?st" and ?segs = "contents objs (sd_segments (st_shared st))"
  let ?slot = "slot_resident s (st_slot_shared st) name"
  note V = buffer_segment_versions [OF ok s]
  note W = wb_new_ok [OF fresh]
  have stands: "slot_stands_for (stored objs) ?slot s"
    using slot name disk V(5)
    by (auto simp: slot_stands_for_def slot_resident_def slot_evictable_def stored_def split: if_splits)
  then have one: "contents objs [?slot] = [s]" by (simp add: contents_def slot_segment_stands)
  have sd': "sd_segments ?sd' = sd_segments ?sd @ [?slot]" "sd_history ?sd' = sd_history ?sd"
    "sd_tombstones ?sd' = sd_tombstones ?sd" "sd_buffer ?sd' = fresh" "sd_buffer_base ?sd' = rows"
    "sd_knowledge ?sd' = map_option (\<lambda>k. k\<lparr>kn_buffer_base := kn_next k, kn_explicit := None\<rparr>) (sd_knowledge ?sd)"
    using slot(3) by (simp_all add: adopt_flushed_def)
  have segs: "contents objs (sd_segments ?sd') = ?segs @ [s]" by (simp add: sd' contents_append one)
  show latest: "latest_versions objs ?sd' = latest_versions objs ?sd"
    using V(1) buffer_versions_empty [of ?sd'] W by (simp add: latest_versions_def segs sd'(2-6))
  have versions: "table_versions objs ?sd' = table_versions objs ?sd"
    by (simp add: table_versions_split latest sd'(2))
  have rows: "0 < wb_rows (sd_buffer ?sd)" using some by (simp add: wb_is_empty_def)
  have n: "unat (sd_buffer_base ?sd) = total_rows ?segs" "unat rows = total_rows ?segs + wb_rows (sd_buffer ?sd)"
    "laid_out 0 ?segs"
    using ok by (simp_all add: shared_ok_def Let_def)
  have "unat rows < 2 ^ LENGTH(64)" by (rule unsigned_less)
  then have lt: "unat rows < 2 ^ 64" by simp
  have mark: "watermark ?sd' rows = watermark ?sd rows" by (cases "sd_knowledge ?sd") (simp_all add: watermark_def sd')
  have "segment_layout objs p g ?slot s"
    using stands V rows name by (simp add: segment_layout_def slot_resident_def)
  then have "list_all2 (segment_layout objs p g) (sd_segments ?sd') (?segs @ [s])"
    unfolding sd'(1) using shared_ok_contents(1) [OF ok] by (intro list_all2_appendI) simp_all
  moreover have "laid_out 0 (?segs @ [s])"
    using n lt V(3,4) by (simp add: laid_out_append total_rows_def [symmetric] word_unat_eq_iff unat_of_nat)
  moreover have "knowledge_ok 0 (sd_knowledge ?sd')" by (auto simp: sd' knowledge_ok_def split: option.split)
  moreover have "\<forall>s\<in>set (?segs @ [s]). segment_fits schema (sd_knowledge ?sd') s"
    using ok V(5,7) by (auto simp: shared_ok_def Let_def segment_fits_def sd')
  ultimately show "shared_ok objs p g schema key rows ?sd'"
    using ok W n V(3) unfolding shared_ok_def Let_def segs versions mark by (simp add: sd' total_rows_append)
qed

text \<open>A flush grows the slots and moves nothing else, in any state.\<close>

lemma with_backend_leads:
  "R st st \<Longrightarrow> (\<And>be. st_backend st = Some be \<Longrightarrow> leads R (m be) st) \<Longrightarrow> leads R (with_backend m) st"
  by (auto simp: leads_def with_backend_def split: option.split)

lemma publish_unchanged: "leads unchanged (publish_segment be name s) st"
  unfolding publish_segment_def
proof (intro same.leads_then same.leads_bind)
  show "leads unchanged (\<lambda>st. write_object be MANIFEST (encode_manifest (st_schema st) (st_ordering_key st)
      (st_generation st) sections) st) s'" for sections s'
    using write_object_unchanged by (simp add: leads_def)
qed (rule write_object_unchanged same.leads_pure | simp add: leads_def unchanged_def)+

lemma refuse_read_only_unchanged: "leads unchanged refuse_read_only st"
  by (simp add: leads_def refuse_read_only_def unchanged_def)

lemma adopt_flushed_grows: "grows st (adopt_flushed s name fresh st)"
  by (cases "sd_knowledge (st_shared st)")
    (auto simp: grows_def slots_of_def adopt_flushed_def next_sequence_def watermark_def)

lemma flush_segment_grows: "leads grows (flush_segment s) st"
proof -
  let ?name = "segment_name (st_generation st) (sg_base_row_id s)"
  have "leads grows (thenS (with_backend (\<lambda>be. publish_segment be ?name s))
      (bindS (liftS (map_err MemErr (wb_new (st_schema st) (st_ordering_key st)))) (\<lambda>fresh.
        thenS (modifyS (adopt_flushed s name fresh)) reset_wal))) st" for name
    by (intro grows.leads_then grows.leads_bind grows.leads_pure with_backend_leads)
      (auto simp: leads_def adopt_flushed_grows grows.refl
        intro: leads_grows [OF publish_unchanged, unfolded leads_def] leads_grows [OF reset_wal_unchanged, unfolded leads_def])
  then show ?thesis by (simp add: leads_def flush_segment_def Let_def)
qed

lemma flush_grows: "leads grows flush st"
  unfolding flush_def
proof (rule grows.leads_then [OF leads_grows [OF refuse_read_only_unchanged]])
  fix s
  have "leads grows (bindS (liftS (buffer_segment (st_shared s))) flush_segment) s"
    by (intro grows.leads_bind grows.leads_pure flush_segment_grows)
  then show "leads grows (\<lambda>st. if wb_is_empty (sd_buffer (st_shared st)) then (Ok (), st)
       else bindS (liftS (buffer_segment (st_shared st))) flush_segment st) s"
    by (simp add: leads_def grows.refl)
qed

lemma quietI:
  "leads grows m st \<Longrightarrow> (store_ok be objects good log_ok st \<Longrightarrow> leads (quiet be objects good log_ok) m st) \<Longrightarrow>
   leads (quiet be objects good log_ok) m st"
  by (auto simp: leads_def quiet_def)

context storage_backend
begin

lemma write_object_published:
  assumes "good (st_world st)" "public_name name" "write_object be name b st = (Ok (), st')"
  shows "objects (st_world st') name = Some b"
proof -
  obtain r d' where w: "be_write be name b (st_world st) = (r, d')" by fastforce
  then have "r = Ok ()" "st_world st' = d'" using assms(3) by (auto simp: write_object_def in_world_eq)
  then show ?thesis using written [OF assms(1,2) w] by simp
qed

lemma write_object_beside:
  assumes "good (st_world st)" "public_name name" "write_object be name b st = (r, st')" "n \<noteq> name"
  shows "objects (st_world st') n = objects (st_world st) n"
proof -
  obtain r d' where w: "be_write be name b (st_world st) = (r, d')" by fastforce
  then have "st_world st' = d'" using assms(3) by (auto simp: write_object_def in_world_eq)
  then show ?thesis using written [OF assms(1,2) w] assms(4) by auto
qed

lemma set_sections_still:
  "ms_history sections = ms_history (st_sections st) \<Longrightarrow>
   leads (still be objects good log_ok) (modifyS (\<lambda>st. st\<lparr>st_sections := sections\<rparr>)) st"
  by (simp add: leads_def still_def unchanged_def store_ok_def split: option.split)

lemma publish_still:
  assumes "store_ok be objects good log_ok st" "name \<notin> slot_names (st_shared st)" "public_name name" "name \<noteq> MANIFEST"
    and "publish_segment be name s st = (r, st')"
  shows "still be objects good log_ok st st'" "r = Ok () \<Longrightarrow> objects (st_world st') name = Some (encode_segment s)"
proof -
  obtain r1 s1 where w1: "write_object be name (encode_segment s) st = (r1, s1)" by fastforce
  have "leads (still be objects good log_ok) (write_object be name (encode_segment s)) st"
    by (rule write_object_still [OF assms(3)]) (use assms(2) in simp)
  then have still1: "still be objects good log_ok st s1" using w1 by (simp add: leads_def)
  let ?publish = "\<lambda>sections st. write_object be MANIFEST (encode_manifest (st_schema st) (st_ordering_key st) (st_generation st) sections) st"
  have "still be objects good log_ok st st' \<and> (r = Ok () \<longrightarrow> objects (st_world st') name = Some (encode_segment s))"
  proof (cases r1)
    case (Ok u)
    note pub = write_object_published [OF _ assms(3)]
    show ?thesis
    proof (cases "record_of name s :: (storage_error, _) outcome")
      case rec: (Ok rc)
      let ?sections = "(st_sections s1)\<lparr>ms_segments := ms_segments (st_sections s1) @ [rc]\<rparr>"
      obtain r2 s2 where w2: "?publish ?sections s1 = (r2, s2)" by fastforce
      have "leads (still be objects good log_ok) (write_object be MANIFEST
          (encode_manifest (st_schema s1) (st_ordering_key s1) (st_generation s1) ?sections)) s1"
        by (rule write_object_still [OF names_public(3) store_ok_names(1)])
      then have still2: "still be objects good log_ok s1 s2" using w2 by (simp add: leads_def)
      have g: "good (st_world st)" "good (st_world s1)" using assms(1) still1 by (auto simp: still_def store_ok_def)
      have obj: "objects (st_world s2) name = Some (encode_segment s)"
        using pub [of st "encode_segment s" s1] g w1 Ok write_object_beside [OF g(2) names_public(3) w2 assms(4)] by simp
      have final: "(r, st') = (case r2 of Ok u \<Rightarrow> (Ok (), s2\<lparr>st_sections := ?sections\<rparr>) | Err e \<Rightarrow> (Err e, s2) | Panic \<Rightarrow> (Panic, s2))"
        using assms(5) w2 by (cases r2) (auto simp: publish_segment_def thenS_def bindS_def w1 Ok rec)
      have "ms_history ?sections = ms_history (st_sections s2)"
        using w2 by (auto simp: write_object_def in_world_eq)
      from set_sections_still [OF this] have "still be objects good log_ok s2 (s2\<lparr>st_sections := ?sections\<rparr>)"
        by (simp add: leads_def)
      then show ?thesis using final still.trans [OF still1 still2] still.trans obj by (cases r2) auto
    qed (use assms(5) w1 Ok still1 in \<open>auto simp: publish_segment_def thenS_def\<close>)
  qed (use assms(5) w1 still1 in \<open>auto simp: publish_segment_def thenS_def\<close>)
  then show "still be objects good log_ok st st'" "r = Ok () \<Longrightarrow> objects (st_world st') name = Some (encode_segment s)"
    by simp_all
qed

lemma flush_segment_quiet:
  assumes ok: "store_ok be objects good log_ok st" and s: "buffer_segment (st_shared st) = Ok s"
    and some: "\<not> wb_is_empty (sd_buffer (st_shared st))"
  shows "leads (quiet be objects good log_ok) (flush_segment s) st"
proof -
  let ?p = "st_backend st \<noteq> None" and ?n = "segment_name (st_generation st) (sg_base_row_id s)"
  let ?name = "case st_backend st of None \<Rightarrow> None | Some _ \<Rightarrow> Some ?n"
  have sh: "shared_ok (objects (st_world st)) ?p (st_generation st) (st_schema st) (st_ordering_key st) (st_rows st) (st_shared st)"
    using ok by (simp add: store_ok_def)
  have fresh_name: "?n \<notin> slot_names (st_shared st)"
    using fresh_segment_name [OF sh] buffer_segment_versions(4) [OF sh s] by simp
  obtain r1 s1 where p1: "with_backend (\<lambda>be. publish_segment be ?n s) st = (r1, s1)" by fastforce
  have "still be objects good log_ok st s1 \<and> (r1 = Ok () \<longrightarrow> ?p \<longrightarrow> objects (st_world s1) ?n = Some (encode_segment s))"
  proof (cases "st_backend st")
    case None
    then show ?thesis using p1 still.refl by (simp add: with_backend_def)
  next
    case (Some be')
    then have "publish_segment be ?n s st = (r1, s1)"
      using p1 store_ok_backend [OF ok Some] by (simp add: with_backend_def)
    from publish_still [OF ok fresh_name names_public(1) names_differ(1) this] show ?thesis by blast
  qed
  then have still1: "still be objects good log_ok st s1"
    and disk: "r1 = Ok () \<Longrightarrow> ?p \<Longrightarrow> objects (st_world s1) ?n = Some (encode_segment s)" by blast+
  note q1 = still_quiet [OF still1]
  have un: "unchanged st s1" using still1 by (simp add: still_def)
  show ?thesis
  proof (cases "r1 = Ok ()")
    case True
    show ?thesis
    proof (cases "wb_new (st_schema st) (st_ordering_key st)")
      case (Ok fresh)
      let ?s2 = "adopt_flushed s ?name fresh s1"
      have q2: "quiet be objects good log_ok s1 ?s2"
        unfolding quiet_def
      proof (intro conjI impI adopt_flushed_grows; elim conjE)
        assume ok1: "store_ok be objects good log_ok s1" and sz: "sizes_ok ?s2"
        have mem: "slot_resident s (st_slot_shared s1) ?name \<in> slots_of ?s2" by (simp add: slots_of_def adopt_flushed_def)
        have "st_backend ?s2 = st_backend st" using un by (simp add: adopt_flushed_def unchanged_def)
        then have all: "\<forall>sl\<in>slots_of ?s2. \<forall>s. sl_state sl = Some s \<longrightarrow> segment_ok s" if ?p
          using sz that unfolding sizes_ok_def slots_of_def by simp
        have fits: "segment_ok s" if ?p using bspec [OF all [OF that] mem] by (simp add: slot_resident_def)
        have sh1: "shared_ok (objects (st_world s1)) ?p (st_generation st) (st_schema st) (st_ordering_key st) (st_rows st) (st_shared s1)"
          using ok1 un by (simp add: store_ok_def unchanged_def)
        have slot: "sh_schema (st_slot_shared s1) = st_schema st" "sh_backend (st_slot_shared s1) = ?p" "st_rows s1 = st_rows st"
          using ok un by (simp_all add: unchanged_def store_ok_def)
        have buf: "buffer_segment (st_shared s1) = Ok s" "\<not> wb_is_empty (sd_buffer (st_shared s1))"
          using s some un by (simp_all add: unchanged_def)
        have name: "?name = (if ?p then Some ?n else None)" by (simp split: option.split)
        have on_disk: "?p \<Longrightarrow> objects (st_world s1) ?n = Some (encode_segment s) \<and> segment_ok s"
          using disk True fits by blast
        note A1 = adopt_flushed_ok(1) [OF sh1 buf(1) Ok buf(2) slot name on_disk]
        note A2 = adopt_flushed_ok(2) [OF sh1 buf(1) Ok buf(2) slot name on_disk]
        have same: "st_world ?s2 = st_world s1" "st_backend ?s2 = st_backend s1" "st_wal ?s2 = st_wal s1"
          "st_slot_shared ?s2 = st_slot_shared s1" "st_schema ?s2 = st_schema s1" "st_sections ?s2 = st_sections s1"
          "sd_history (st_shared ?s2) = sd_history (st_shared s1)" "st_generation ?s2 = st_generation s1"
          "st_ordering_key ?s2 = st_ordering_key s1" "st_rows ?s2 = st_rows s1"
          by (simp_all add: adopt_flushed_def)
        show "store_ok be objects good log_ok ?s2"
          using ok1 A1 un unfolding store_ok_def same by (simp add: unchanged_def)
        have "next_sequence ?s2 = next_sequence s1" using adopt_flushed_grows [of s1 s ?name fresh] by (simp add: grows_def)
        then show "table_of objects ?s2 = table_of objects s1" using A2 by (simp add: table_of_def same)
      qed
      have "leads (quiet be objects good log_ok) reset_wal ?s2" by (rule leads_quiet [OF reset_wal_still])
      then have "quiet be objects good log_ok ?s2 (snd (reset_wal ?s2))" by (simp add: leads_def)
      moreover have "flush_segment s st = reset_wal ?s2"
        using p1 True Ok by (simp add: flush_segment_def thenS_def Let_def)
      ultimately show ?thesis using quiet.trans [OF quiet.trans [OF q1 q2]] by (simp add: leads_def)
    qed (use p1 True q1 in \<open>simp_all add: leads_def flush_segment_def thenS_def Let_def\<close>)
  next
    case False
    then have "snd (flush_segment s st) = s1"
      using p1 by (cases r1) (simp_all add: flush_segment_def thenS_def Let_def)
    then show ?thesis using q1 by (simp add: leads_def)
  qed
qed

lemma refuse_read_only_still: "leads (still be objects good log_ok) refuse_read_only st"
  by (simp add: leads_def refuse_read_only_def still.refl)

lemma flush_quiet: "leads (quiet be objects good log_ok) flush st"
proof (rule quietI [OF flush_grows])
  assume ok: "store_ok be objects good log_ok st"
  show "leads (quiet be objects good log_ok) flush st"
  proof (cases "st_read_only st \<or> wb_is_empty (sd_buffer (st_shared st))")
    case True
    then show ?thesis by (auto simp: leads_def flush_def refuse_read_only_def thenS_def bindS_def quiet.refl)
  next
    case False
    then have "flush st = bindS (liftS (buffer_segment (st_shared st))) flush_segment st"
      by (simp add: flush_def refuse_read_only_def thenS_def bindS_def)
    moreover have "leads (quiet be objects good log_ok) (bindS (liftS (buffer_segment (st_shared st))) flush_segment) st"
      by (rule quiet.leads_bind [OF quiet.leads_pure(3)]) (use False ok flush_segment_quiet [of st] in simp)
    ultimately show ?thesis by (simp add: leads_def)
  qed
qed

end

end
