(* ===== verification/Writes.thy ===== *)
theory Writes
  imports Upkeep
begin

text \<open>
  The writer's operations refine an abstract table: the versions by row id, the versions
  compaction has retired, and the watermark.  An append adds a version born at the
  watermark; a delete kills at the watermark and spends it; a supersession adds its rows at
  one coordinate and kills its victims there.
\<close>

section \<open>The abstract table\<close>

definition add_version :: "u64 \<Rightarrow> row_value list \<Rightarrow> table \<Rightarrow> table" where
  "add_version born row t = t\<lparr>tb_latest := tb_latest t @ [\<lparr>vn_cells = row, vn_born = born, vn_kill = None\<rparr>]\<rparr>"

definition table_append :: "row_value list \<Rightarrow> table \<Rightarrow> table" where
  "table_append row t = (add_version (tb_mark t) row t)\<lparr>tb_mark := tb_mark t + 1\<rparr>"

definition kill_versions :: "u64 set \<Rightarrow> u64 \<Rightarrow> version list \<Rightarrow> version list" where
  "kill_versions ids stamp vs =
     map (\<lambda>(rid, v). if word_of_nat rid \<in> ids \<and> vn_kill v = None then v\<lparr>vn_kill := Some stamp\<rparr> else v)
       (zip [0..<length vs] vs)"

definition table_kill :: "u64 set \<Rightarrow> u64 \<Rightarrow> table \<Rightarrow> table" where
  "table_kill ids stamp t = t\<lparr>tb_latest := kill_versions ids stamp (tb_latest t)\<rparr>"

text \<open>The ids among the given ones whose version is still live.\<close>

definition live_among :: "u64 list \<Rightarrow> table \<Rightarrow> u64 set" where
  "live_among ids t = set (filter (\<lambda>rid. vn_kill (tb_latest t ! unat rid) = None) ids)"

definition table_delete :: "u64 list \<Rightarrow> table \<Rightarrow> table" where
  "table_delete ids t =
     (if live_among ids t = {} then t
      else (table_kill (live_among ids t) (tb_mark t) t)\<lparr>tb_mark := tb_mark t + 1\<rparr>)"

text \<open>A supersession spends its coordinate with its first row.\<close>

definition table_add_rows :: "row_value list list \<Rightarrow> table \<Rightarrow> table" where
  "table_add_rows rows t =
     (fold (add_version (tb_mark t)) rows t)\<lparr>tb_mark := (if rows = [] then tb_mark t else tb_mark t + 1)\<rparr>"

definition table_supersede :: "row_value list list \<Rightarrow> u64 list \<Rightarrow> table \<Rightarrow> table" where
  "table_supersede rows victims t = table_kill (live_among victims t) (tb_mark t) (table_add_rows rows t)"

section \<open>Versions by row id\<close>

definition mk_version :: "id_map \<Rightarrow> nat \<Rightarrow> row_value list \<times> u64 \<Rightarrow> version" where
  "mk_version stamps rid = (\<lambda>(cells, born). \<lparr>vn_cells = cells, vn_born = born, vn_kill = bt_get stamps (word_of_nat rid)\<rparr>)"

definition births_of :: "segment \<Rightarrow> (row_value list \<times> u64) list" where
  "births_of s = map (\<lambda>row. (cells_of s ! row, birth s row)) [0..<rb_num_rows (sg_batch s)]"

lemma live_versions_ids:
  "sg_base_row_id s = word_of_nat n \<Longrightarrow>
   live_versions stamps s = map2 (mk_version stamps) [n..<n + rb_num_rows (sg_batch s)] (births_of s)"
  by (rule nth_equalityI) (simp_all add: live_versions_def births_of_def mk_version_def row_id_def)

lemma length_births_of [simp]: "length (births_of s) = rb_num_rows (sg_batch s)"
  by (simp add: births_of_def)

lemma length_concat_births: "length (concat (map births_of ss)) = total_rows ss"
  by (induction ss) (simp_all add: total_rows_def)

lemma concat_live_versions_ids:
  "laid_out n ss \<Longrightarrow>
   concat (map (live_versions stamps) ss) = map2 (mk_version stamps) [n..<n + total_rows ss] (concat (map births_of ss))"
proof (induction n ss rule: laid_out.induct)
  case (2 n s ss)
  let ?k = "rb_num_rows (sg_batch s)"
  have total: "total_rows (s # ss) = ?k + total_rows ss" by (simp add: total_rows_def)
  have split: "[n..<n + (?k + total_rows ss)] = [n..<n + ?k] @ [n + ?k..<n + ?k + total_rows ss]"
    by (simp only: upt_add_eq_append [of n "n + ?k" "total_rows ss"] le_add1 add.assoc [symmetric])
  have s: "live_versions stamps s = map2 (mk_version stamps) [n..<n + ?k] (births_of s)"
    using 2 by (intro live_versions_ids) simp
  have "concat (map (live_versions stamps) ss) =
      map2 (mk_version stamps) [n + ?k..<n + ?k + total_rows ss] (concat (map births_of ss))"
    using 2 by simp
  then show ?case unfolding total split by (simp only: list.map concat.simps s) simp
qed (simp add: total_rows_def)

definition row_births :: "(rstring \<Rightarrow> bytes option) \<Rightarrow> shared \<Rightarrow> (row_value list \<times> u64) list" where
  "row_births objs sd = concat (map births_of (contents objs (sd_segments sd))) @
     map (\<lambda>row. (buffer_rows (sd_buffer sd) ! row, buffer_birth sd row)) [0..<wb_rows (sd_buffer sd)]"

definition layout_ok :: "(rstring \<Rightarrow> bytes option) \<Rightarrow> u64 \<Rightarrow> shared \<Rightarrow> bool" where
  "layout_ok objs rows sd \<longleftrightarrow>
     (let n = total_rows (contents objs (sd_segments sd))
      in laid_out 0 (contents objs (sd_segments sd)) \<and> unat (sd_buffer_base sd) = n \<and>
         unat rows = n + wb_rows (sd_buffer sd))"

lemma shared_ok_layout: "shared_ok objs p g schema key rows sd \<Longrightarrow> layout_ok objs rows sd"
  by (simp add: shared_ok_def layout_ok_def Let_def)

lemma latest_versions_ids:
  assumes "layout_ok objs rows sd"
  shows "latest_versions objs sd = map2 (mk_version (sd_tombstones sd)) [0..<unat rows] (row_births objs sd)"
    "length (row_births objs sd) = unat rows"
proof -
  let ?segs = "contents objs (sd_segments sd)" and ?m = "wb_rows (sd_buffer sd)"
  have n: "laid_out 0 ?segs" "unat (sd_buffer_base sd) = total_rows ?segs" "unat rows = total_rows ?segs + ?m"
    using assms by (simp_all add: layout_ok_def Let_def)
  have base: "sd_buffer_base sd = word_of_nat (total_rows ?segs)" using n(2) [symmetric] by simp
  have "buffer_versions sd = map2 (mk_version (sd_tombstones sd)) [total_rows ?segs..<total_rows ?segs + ?m]
      (map (\<lambda>row. (buffer_rows (sd_buffer sd) ! row, buffer_birth sd row)) [0..<?m])"
    by (rule nth_equalityI) (simp_all add: buffer_versions_def mk_version_def base)
  moreover have "[0..<unat rows] = [0..<total_rows ?segs] @ [total_rows ?segs..<total_rows ?segs + ?m]"
    using n(3) upt_add_eq_append [of 0 "total_rows ?segs" ?m] by simp
  ultimately show "latest_versions objs sd = map2 (mk_version (sd_tombstones sd)) [0..<unat rows] (row_births objs sd)"
    using concat_live_versions_ids [OF n(1), of "sd_tombstones sd"]
    by (simp add: latest_versions_def row_births_def length_concat_births)
  show "length (row_births objs sd) = unat rows" by (simp add: row_births_def length_concat_births n(3))
qed

lemma length_latest_versions: "layout_ok objs rows sd \<Longrightarrow> length (latest_versions objs sd) = unat rows"
  using latest_versions_ids [of objs rows sd] by simp

section \<open>Killing\<close>

lemma bt_get_bury:
  "bt_get (sd_tombstones (bury newly stamp sd)) rid = (if rid \<in> set newly then Some stamp else bt_get (sd_tombstones sd) rid)"
proof -
  have "map_of (map (\<lambda>rid. (rid, stamp)) xs) r = (if r \<in> set xs then Some stamp else None)" for xs and r :: u64
    by (induction xs) auto
  then show ?thesis by (simp add: bury_def bt_get_extend map_add_def rev_map)
qed

lemma bury_fields [simp]:
  "sd_segments (bury newly stamp sd) = sd_segments sd" "sd_history (bury newly stamp sd) = sd_history sd"
  "sd_buffer (bury newly stamp sd) = sd_buffer sd" "sd_buffer_base (bury newly stamp sd) = sd_buffer_base sd"
  "sd_knowledge (bury newly stamp sd) = sd_knowledge sd"
  by (simp_all add: bury_def)

lemma bt_insert_keys: "fst ` set (bt_insert k v m) = insert k (fst ` set m)"
  by (induction k v m rule: bt_insert.induct) auto

lemma bt_extend_keys: "fst ` set (bt_extend m kvs) = fst ` set m \<union> fst ` set kvs"
  by (induction kvs arbitrary: m) (simp_all add: bt_extend_def bt_insert_keys case_prod_unfold)

lemma buffer_birth_bury [simp]: "buffer_birth (bury newly stamp sd) row = buffer_birth sd row"
  by (cases "sd_knowledge sd") (auto simp: buffer_birth_def split: option.split)

lemma row_births_bury [simp]: "row_births objs (bury newly stamp sd) = row_births objs sd"
  by (simp add: row_births_def)

lemma timely_mono: "timely mark v \<Longrightarrow> mark \<le> mark' \<Longrightarrow> timely mark' v"
  by (auto simp: timely_def split: option.splits)

lemma shared_ok_timely:
  "shared_ok objs p g schema key rows sd \<Longrightarrow> v \<in> set (table_versions objs sd) \<Longrightarrow> timely (watermark sd rows) v"
  by (simp add: shared_ok_def Let_def)

lemma kill_versions_member:
  "v \<in> set (kill_versions ids stamp vs) \<Longrightarrow> \<exists>w\<in>set vs. v = w \<or> v = w\<lparr>vn_kill := Some stamp\<rparr>"
  by (fastforce simp: kill_versions_def dest: set_zip_rightD split: if_splits)

lemma bury_ok:
  assumes ok: "shared_ok objs p g schema key rows sd" and newly: "\<And>rid. rid \<in> set newly \<Longrightarrow> rid < rows \<and> bt_get (sd_tombstones sd) rid = None"
    and stamp: "stamp \<le> watermark sd rows"
  shows "shared_ok objs p g schema key rows (bury newly stamp sd)"
    "latest_versions objs (bury newly stamp sd) = kill_versions (set newly) stamp (latest_versions objs sd)"
proof -
  let ?sd = "bury newly stamp sd"
  have "layout_ok objs rows ?sd" using shared_ok_layout [OF ok] by (simp add: layout_ok_def)
  note ids = latest_versions_ids(1) [OF this, unfolded row_births_bury]
  note L = latest_versions_ids [OF shared_ok_layout [OF ok]]
  have mark: "watermark ?sd rows = watermark sd rows" by (simp add: watermark_def)
  show latest: "latest_versions objs ?sd = kill_versions (set newly) stamp (latest_versions objs sd)"
  proof (rule nth_equalityI)
    fix i assume "i < length (latest_versions objs ?sd)"
    then have i: "i < unat rows" using L(2) by (simp add: ids)
    obtain c b where cb: "row_births objs sd ! i = (c, b)" by fastforce
    show "latest_versions objs ?sd ! i = kill_versions (set newly) stamp (latest_versions objs sd) ! i"
      using i L newly [of "word_of_nat i"] by (auto simp: ids kill_versions_def mk_version_def cb bt_get_bury)
  qed (simp add: ids L kill_versions_def)
  have "timely (watermark sd rows) v" if v: "v \<in> set (latest_versions objs ?sd)" for v
  proof -
    obtain w where w: "w \<in> set (latest_versions objs sd)" "v = w \<or> v = w\<lparr>vn_kill := Some stamp\<rparr>"
      using kill_versions_member [OF v [unfolded latest]] by blast
    then have "timely (watermark sd rows) w" using shared_ok_timely [OF ok, of w] by (simp add: table_versions_split)
    then show ?thesis using w(2) stamp by (auto simp: timely_def)
  qed
  moreover have "timely (watermark sd rows) v" if "v \<in> set (concat (map history_versions (contents objs (sd_history sd))))" for v
    using that shared_ok_timely [OF ok, of v] by (simp add: table_versions_split)
  ultimately have "\<forall>v\<in>set (table_versions objs ?sd). timely (watermark ?sd rows) v"
    unfolding table_versions_split mark by auto
  moreover have "\<forall>(rid, kill)\<in>set (sd_tombstones ?sd). rid < rows"
  proof -
    have "fst ` set (sd_tombstones ?sd) = fst ` set (sd_tombstones sd) \<union> set newly"
      by (simp add: bury_def bt_extend_keys image_image)
    moreover have "\<forall>rid\<in>fst ` set (sd_tombstones sd) \<union> set newly. rid < rows"
      using ok newly by (auto simp: shared_ok_def Let_def)
    ultimately have "\<forall>rid\<in>fst ` set (sd_tombstones ?sd). rid < rows" by simp
    then show ?thesis by auto
  qed
  ultimately show "shared_ok objs p g schema key rows ?sd" using ok by (simp add: shared_ok_def Let_def)
qed

section \<open>Adding a row\<close>

lemma buffer_rows_holds:
  assumes "wb_holds wb rows" "\<forall>r\<in>set rows. length r = length (s_fields (wb_schema wb))"
  shows "buffer_rows wb = rows"
proof (rule nth_equalityI)
  show "length (buffer_rows wb) = length rows" using assms(1) by (simp add: buffer_rows_def wb_holds_def)
  fix i assume "i < length (buffer_rows wb)"
  then have i: "i < wb_rows wb" "i < length rows" using assms(1) by (simp_all add: buffer_rows_def wb_holds_def)
  have "length (wb_builders wb) = length (s_fields (wb_schema wb))"
    using assms(1) by (auto simp: wb_holds_def dest: list_all2_lengthD)
  moreover have "builder_cells (wb_builders wb ! j) ! i = rows ! i ! j" if "j < length (s_fields (wb_schema wb))" for j
    using assms(1) that i(2) by (simp add: wb_holds_def)
  moreover have "length (rows ! i) = length (s_fields (wb_schema wb))" using assms(2) i(2) by simp
  ultimately show "buffer_rows wb ! i = rows ! i"
    using i(1) by (intro nth_equalityI) (simp_all add: buffer_rows_def)
qed

lemma wb_append_ok:
  assumes "wb_ok schema key wb" "wb_append wb row = Ok wb'" "\<forall>cell\<in>set row. cell_utf8 cell"
  shows "wb_ok schema key wb'" "buffer_rows wb' = buffer_rows wb @ [row]" "wb_rows wb' = wb_rows wb + 1"
proof -
  have h: "wb_holds wb (buffer_rows wb)" "wb_schema wb = schema" using assms(1) by (simp_all add: wb_ok_def)
  note A = wb_append_holds [OF h(1) assms(2,3)]
  have "length (wb_builders wb) = length (s_fields (wb_schema wb))"
    using h(1) by (auto simp: wb_holds_def dest: list_all2_lengthD)
  then have "\<forall>r\<in>set (buffer_rows wb). length r = length (s_fields (wb_schema wb))" by (auto simp: buffer_rows_def)
  moreover have "wb_validate wb row = Ok ()" using assms(2) by (auto simp: wb_append_def)
  then have "length row = length (s_fields (wb_schema wb))" by (auto simp: wb_validate_def Let_def split: if_splits)
  ultimately show rows: "buffer_rows wb' = buffer_rows wb @ [row]"
    by (intro buffer_rows_holds A(1)) (simp add: A(2))
  show "wb_ok schema key wb'" using A assms(1) by (simp add: wb_ok_def rows)
  show "wb_rows wb' = wb_rows wb + 1" using A(1) h(1) by (simp add: wb_holds_def)
qed

lemma unat_Suc: "unat (w :: u64) + 1 < 2 ^ 64 \<Longrightarrow> unat (w + 1) = unat w + 1"
  by (simp add: unat_word_ariths)

text \<open>What an operation that adds one row to the buffer has to show.\<close>

lemma added_ok:
  assumes ok: "shared_ok objs p g schema key rows sd" and room: "unat rows + 1 < 2 ^ 64"
    and same: "sd_segments sd' = sd_segments sd" "sd_history sd' = sd_history sd"
      "sd_tombstones sd' = sd_tombstones sd" "sd_buffer_base sd' = sd_buffer_base sd"
    and buffer: "wb_ok schema key (sd_buffer sd')" "buffer_rows (sd_buffer sd') = buffer_rows (sd_buffer sd) @ [row]"
      "wb_rows (sd_buffer sd') = wb_rows (sd_buffer sd) + 1"
    and births: "\<And>i. i < wb_rows (sd_buffer sd) \<Longrightarrow> buffer_birth sd' i = buffer_birth sd i"
      "buffer_birth sd' (wb_rows (sd_buffer sd)) = born"
    and kn: "knowledge_ok (wb_rows (sd_buffer sd) + 1) (sd_knowledge sd')"
    and mark: "watermark sd rows \<le> watermark sd' (rows + 1)" "born < watermark sd' (rows + 1)"
    and virtual: "sd_knowledge sd' = None \<Longrightarrow> sd_knowledge sd = None"
  shows "shared_ok objs p g schema key (rows + 1) sd'"
    "latest_versions objs sd' = latest_versions objs sd @ [\<lparr>vn_cells = row, vn_born = born, vn_kill = None\<rparr>]"
proof -
  let ?m = "wb_rows (sd_buffer sd)" and ?segs = "contents objs (sd_segments sd)"
  have n: "unat (rows + 1) = unat rows + 1" using unat_Suc [OF room] .
  have lay: "layout_ok objs (rows + 1) sd'"
    using shared_ok_layout [OF ok] by (simp add: layout_ok_def Let_def same buffer(3) n)
  have len: "length (buffer_rows (sd_buffer sd)) = ?m" by (simp add: buffer_rows_def)
  have births': "row_births objs sd' = row_births objs sd @ [(row, born)]"
    using births by (simp add: row_births_def same buffer len nth_append)
  have old: "bt_get (sd_tombstones sd) rows = None"
  proof (rule ccontr)
    assume "bt_get (sd_tombstones sd) rows \<noteq> None"
    then obtain kill where "(rows, kill) \<in> set (sd_tombstones sd)" using bt_get_mem by fastforce
    then show False using ok by (auto simp: shared_ok_def Let_def)
  qed
  show latest: "latest_versions objs sd' = latest_versions objs sd @ [\<lparr>vn_cells = row, vn_born = born, vn_kill = None\<rparr>]"
    unfolding latest_versions_ids(1) [OF lay] latest_versions_ids(1) [OF shared_ok_layout [OF ok]] births' n same
    using latest_versions_ids(2) [OF shared_ok_layout [OF ok]] old by (simp add: mk_version_def)
  have "timely (watermark sd' (rows + 1)) v" if "v \<in> set (table_versions objs sd')" for v
  proof (cases "v \<in> set (table_versions objs sd)")
    case True
    then show ?thesis using shared_ok_timely [OF ok] mark(1) timely_mono by blast
  next
    case False
    then have "v = \<lparr>vn_cells = row, vn_born = born, vn_kill = None\<rparr>"
      using that by (auto simp: table_versions_split latest same)
    then show ?thesis using mark(2) by (simp add: timely_def)
  qed
  moreover have "\<forall>(rid, kill)\<in>set (sd_tombstones sd'). rid < rows + 1"
  proof -
    have "rid < rows + 1" if "rid < rows" for rid :: u64
      using that n by (simp add: word_less_nat_alt)
    then show ?thesis using ok by (auto simp: shared_ok_def Let_def same)
  qed
  moreover have "\<forall>s\<in>set ?segs. segment_fits schema (sd_knowledge sd') s"
    using ok virtual by (auto simp: shared_ok_def Let_def segment_fits_def)
  ultimately show "shared_ok objs p g schema key (rows + 1) sd'"
    using ok buffer kn lay by (simp add: shared_ok_def layout_ok_def Let_def same)
qed

lemma watermark_virtual: "sd_knowledge sd = None \<Longrightarrow> watermark sd rows = rows"
  by (simp add: watermark_def)

lemma word_eq_of_unat: "unat (a :: u64) = unat b + n \<Longrightarrow> a = b + word_of_nat n"
proof -
  assume "unat a = unat b + n"
  then have "(word_of_nat (unat a) :: u64) = word_of_nat (unat b + n)" by (rule arg_cong)
  then show "a = b + word_of_nat n" by simp
qed

text \<open>The row that comes next is born at the watermark.\<close>

lemma buffer_birth_next:
  assumes "shared_ok objs p g schema key rows sd"
  shows "\<And>k. sd_knowledge sd = Some k \<Longrightarrow> kn_explicit k = None \<Longrightarrow> kn_buffer_base k + word_of_nat (wb_rows (sd_buffer sd)) = kn_next k"
    "sd_buffer_base sd + word_of_nat (wb_rows (sd_buffer sd)) = rows"
    "\<And>k births. sd_knowledge sd = Some k \<Longrightarrow> kn_explicit k = Some births \<Longrightarrow> length births = wb_rows (sd_buffer sd)"
  using assms word_eq_of_unat [symmetric] by (auto simp: shared_ok_def Let_def knowledge_ok_def)

lemma append_row_ok:
  assumes ok: "shared_ok objs p g schema key rows sd" and run: "append_row row sd = (Ok (), sd')"
    and row: "\<forall>cell\<in>set row. cell_utf8 cell" and room: "unat rows + 1 < 2 ^ 64" "unat (watermark sd rows) + 1 < 2 ^ 64"
  shows "shared_ok objs p g schema key (rows + 1) sd'"
    "latest_versions objs sd' = latest_versions objs sd @ [\<lparr>vn_cells = row, vn_born = watermark sd rows, vn_kill = None\<rparr>]"
    "watermark sd' (rows + 1) = watermark sd rows + 1" "sd_history sd' = sd_history sd"
    "set (sd_segments sd') \<union> set (sd_history sd') = set (sd_segments sd) \<union> set (sd_history sd)"
    "sd_tombstones sd' = sd_tombstones sd"
proof -
  let ?m = "wb_rows (sd_buffer sd)"
  obtain buffer where b: "wb_append (sd_buffer sd) row = Ok buffer"
    and sd': "sd' = sd\<lparr>sd_buffer := buffer, sd_knowledge := map_option (\<lambda>k. k\<lparr>kn_explicit :=
        map_option (\<lambda>e. e @ [kn_next k]) (kn_explicit k), kn_next := kn_next k + 1\<rparr>) (sd_knowledge sd)\<rparr>"
    using run by (auto simp: append_row_def split: outcome.splits)
  have wb: "wb_ok schema key (sd_buffer sd)" using ok by (simp add: shared_ok_def Let_def)
  note W = wb_append_ok [OF wb b row]
  note B = buffer_birth_next [OF ok]
  have mark: "watermark sd' (rows + 1) = watermark sd rows + 1"
    by (cases "sd_knowledge sd") (simp_all add: watermark_def sd')
  have up: "unat (watermark sd rows + 1) = unat (watermark sd rows) + 1" by (rule unat_Suc [OF room(2)])
  have births: "buffer_birth sd' i = buffer_birth sd i" if "i < ?m" for i
    using that B(3) by (cases "sd_knowledge sd"; cases "kn_explicit (the (sd_knowledge sd))")
      (simp_all add: buffer_birth_def sd' nth_append)
  have born: "buffer_birth sd' ?m = watermark sd rows"
    using B by (cases "sd_knowledge sd"; cases "kn_explicit (the (sd_knowledge sd))")
      (simp_all add: buffer_birth_def sd' watermark_def nth_append)
  have kn: "knowledge_ok (?m + 1) (sd_knowledge sd')"
  proof (cases "sd_knowledge sd")
    case (Some k)
    then show ?thesis using ok up by (cases "kn_explicit k") (auto simp: knowledge_ok_def sd' watermark_def shared_ok_def Let_def)
  qed (simp add: knowledge_ok_def sd')
  note A = added_ok [OF ok room(1) _ _ _ _ _ _ _ births born kn]
  show "shared_ok objs p g schema key (rows + 1) sd'"
    "latest_versions objs sd' = latest_versions objs sd @ [\<lparr>vn_cells = row, vn_born = watermark sd rows, vn_kill = None\<rparr>]"
    by (rule A; use W mark up in \<open>simp add: sd' word_le_nat_alt word_less_nat_alt\<close>)+
  show "watermark sd' (rows + 1) = watermark sd rows + 1" by (rule mark)
qed (use run in \<open>auto simp: append_row_def split: outcome.splits\<close>)

section \<open>Spending a coordinate\<close>

lemma consume_sequence_ok:
  assumes ok: "shared_ok objs p g schema key rows sd" and room: "unat (watermark sd rows) + 1 < 2 ^ 64"
  shows "shared_ok objs p g schema key rows (consume_sequence rows sd)"
    "latest_versions objs (consume_sequence rows sd) = latest_versions objs sd"
    "watermark (consume_sequence rows sd) rows = watermark sd rows + 1"
    "sd_history (consume_sequence rows sd) = sd_history sd" "sd_segments (consume_sequence rows sd) = sd_segments sd"
    "sd_tombstones (consume_sequence rows sd) = sd_tombstones sd"
proof -
  let ?m = "wb_rows (sd_buffer sd)" and ?sd = "consume_sequence rows sd"
  note B = buffer_birth_next [OF ok]
  show same: "sd_history ?sd = sd_history sd" "sd_segments ?sd = sd_segments sd" "sd_tombstones ?sd = sd_tombstones sd"
    by (simp_all add: consume_sequence_def Let_def)
  have more: "sd_buffer ?sd = sd_buffer sd" "sd_buffer_base ?sd = sd_buffer_base sd"
    by (simp_all add: consume_sequence_def Let_def)
  have base: "rows - word_of_nat ?m = sd_buffer_base sd" using B(2) by (metis add_diff_cancel)
  show mark: "watermark ?sd rows = watermark sd rows + 1"
    by (cases "sd_knowledge sd") (simp_all add: watermark_def consume_sequence_def knowledge_or_virtual_def Let_def)
  have up: "unat (watermark sd rows + 1) = unat (watermark sd rows) + 1" by (rule unat_Suc [OF room])
  have births: "buffer_birth ?sd i = buffer_birth sd i" if "i < ?m" for i
    using that B base
    by (cases "sd_knowledge sd"; cases "kn_explicit (the (sd_knowledge sd))")
      (simp_all add: buffer_birth_def consume_sequence_def knowledge_or_virtual_def materialized_def wb_len_def Let_def)
  then have "buffer_versions ?sd = buffer_versions sd"
    unfolding buffer_versions_def more same by (intro map_cong) simp_all
  then show latest: "latest_versions objs ?sd = latest_versions objs sd" by (simp add: latest_versions_def same)
  have "knowledge_ok ?m (sd_knowledge ?sd)"
    using B(3) by (cases "sd_knowledge sd"; cases "kn_explicit (the (sd_knowledge sd))")
      (simp_all add: knowledge_ok_def consume_sequence_def knowledge_or_virtual_def materialized_def wb_len_def Let_def)
  moreover have "\<forall>v\<in>set (table_versions objs ?sd). timely (watermark ?sd rows) v"
    using shared_ok_timely [OF ok] timely_mono [of "watermark sd rows" _ "watermark ?sd rows"] up
    by (auto simp: table_versions_split latest same mark word_le_nat_alt)
  moreover have "\<forall>s\<in>set (contents objs (sd_segments sd)). segment_fits schema (sd_knowledge ?sd) s"
    using ok by (auto simp: shared_ok_def Let_def segment_fits_def consume_sequence_def)
  ultimately show "shared_ok objs p g schema key rows ?sd"
    using ok by (simp add: shared_ok_def Let_def same more)
qed

section \<open>Adding a superseding row\<close>

lemma append_superseding_ok:
  assumes ok: "shared_ok objs p g schema key rows sd" and run: "append_superseding row seq rows sd = (r, sd')"
    and row: "\<forall>cell\<in>set row. cell_utf8 cell" and room: "unat rows + 1 < 2 ^ 64" "unat seq + 1 < 2 ^ 64"
    and mark: "watermark sd rows = seq \<or> watermark sd rows = seq + 1"
  shows "r = Ok () \<Longrightarrow> shared_ok objs p g schema key (rows + 1) sd' \<and>
      latest_versions objs sd' = latest_versions objs sd @ [\<lparr>vn_cells = row, vn_born = seq, vn_kill = None\<rparr>] \<and>
      watermark sd' (rows + 1) = seq + 1"
    "r \<noteq> Ok () \<Longrightarrow> shared_ok objs p g schema key rows sd' \<and> latest_versions objs sd' = latest_versions objs sd \<and>
      watermark sd' rows = watermark sd rows"
    "sd_segments sd' = sd_segments sd" "sd_history sd' = sd_history sd" "sd_tombstones sd' = sd_tombstones sd"
proof -
  let ?m = "wb_rows (sd_buffer sd)"
  let ?k = "knowledge_or_virtual sd rows"
  let ?births = "materialized ?k ?m"
  let ?diverged = "sd\<lparr>sd_knowledge := Some (?k\<lparr>kn_explicit := Some ?births\<rparr>)\<rparr>"
  note B = buffer_birth_next [OF ok]
  have up: "unat (seq + 1) = unat seq + 1" by (rule unat_Suc [OF room(2)])
  have base: "rows - word_of_nat ?m = sd_buffer_base sd" using B(2) by (metis add_diff_cancel)
  have next_k: "kn_next ?k = watermark sd rows"
    by (cases "sd_knowledge sd") (simp_all add: knowledge_or_virtual_def watermark_def)
  have len: "length ?births = ?m"
    using B(3) by (cases "sd_knowledge sd"; cases "kn_explicit (the (sd_knowledge sd))")
      (simp_all add: knowledge_or_virtual_def materialized_def)
  have birth: "?births ! i = buffer_birth sd i" if "i < ?m" for i
    using that B base by (cases "sd_knowledge sd"; cases "kn_explicit (the (sd_knowledge sd))")
      (simp_all add: knowledge_or_virtual_def materialized_def buffer_birth_def wb_len_def)
  have cases: "(\<exists>buffer. wb_append (sd_buffer sd) row = Ok buffer \<and> r = Ok () \<and>
      sd' = sd\<lparr>sd_buffer := buffer, sd_knowledge := Some (?k\<lparr>kn_explicit := Some (?births @ [seq]),
        kn_next := max (kn_next ?k) (seq + 1)\<rparr>)\<rparr>) \<or> (r \<noteq> Ok () \<and> sd' = ?diverged)"
    using run by (auto simp: append_superseding_def Let_def wb_len_def split: outcome.splits)
  then show same: "sd_segments sd' = sd_segments sd" "sd_history sd' = sd_history sd" "sd_tombstones sd' = sd_tombstones sd"
    by auto
  show "shared_ok objs p g schema key (rows + 1) sd' \<and>
      latest_versions objs sd' = latest_versions objs sd @ [\<lparr>vn_cells = row, vn_born = seq, vn_kill = None\<rparr>] \<and>
      watermark sd' (rows + 1) = seq + 1" if Ok: "r = Ok ()"
  proof -
    obtain buffer where b: "wb_append (sd_buffer sd) row = Ok buffer"
      and sd': "sd' = sd\<lparr>sd_buffer := buffer, sd_knowledge := Some (?k\<lparr>kn_explicit := Some (?births @ [seq]),
        kn_next := max (kn_next ?k) (seq + 1)\<rparr>)\<rparr>"
      using cases Ok by auto
    have wb: "wb_ok schema key (sd_buffer sd)" using ok by (simp add: shared_ok_def Let_def)
    note W = wb_append_ok [OF wb b row]
    have seq1: "seq \<le> seq + 1" using up by (simp add: word_le_nat_alt)
    have kn': "sd_knowledge sd' = Some (?k\<lparr>kn_explicit := Some (?births @ [seq]), kn_next := max (kn_next ?k) (seq + 1)\<rparr>)"
      by (simp add: sd')
    then have "watermark sd' (rows + 1) = max (watermark sd rows) (seq + 1)"
      unfolding next_k by (simp add: watermark_def [of sd'])
    then have mark': "watermark sd' (rows + 1) = seq + 1" using mark seq1 by (auto simp: max_def)
    have births: "buffer_birth sd' i = buffer_birth sd i" if "i < ?m" for i
      using birth [OF that] that len by (simp add: buffer_birth_def [of sd'] kn' nth_append)
    have born: "buffer_birth sd' ?m = seq" using len by (simp add: buffer_birth_def [of sd'] kn' nth_append)
    have kn: "knowledge_ok (?m + 1) (sd_knowledge sd')" by (simp add: knowledge_ok_def sd' len)
    have le: "watermark sd rows \<le> seq + 1" "seq < seq + 1" using mark seq1 up by (auto simp: word_less_nat_alt)
    note A = added_ok [OF ok room(1) _ _ _ _ _ _ _ births born kn]
    have "shared_ok objs p g schema key (rows + 1) sd'"
      "latest_versions objs sd' = latest_versions objs sd @ [\<lparr>vn_cells = row, vn_born = seq, vn_kill = None\<rparr>]"
      by (rule A; use W le in \<open>simp add: mark'\<close>; simp add: sd')+
    then show ?thesis using mark' by simp
  qed
  show "shared_ok objs p g schema key rows sd' \<and> latest_versions objs sd' = latest_versions objs sd \<and>
      watermark sd' rows = watermark sd rows" if bad: "r \<noteq> Ok ()"
  proof -
    have sd': "sd' = ?diverged" using cases bad by auto
    have kn': "sd_knowledge sd' = Some (?k\<lparr>kn_explicit := Some ?births\<rparr>)" by (simp add: sd')
    then have mark': "watermark sd' rows = watermark sd rows" by (simp add: watermark_def [of sd'] next_k)
    have "buffer_birth sd' i = buffer_birth sd i" if "i < ?m" for i
      using birth [OF that] by (simp add: buffer_birth_def [of sd'] kn')
    then have "buffer_versions sd' = buffer_versions sd"
      unfolding buffer_versions_def by (intro map_cong) (simp_all add: sd')
    then have latest: "latest_versions objs sd' = latest_versions objs sd" by (simp add: latest_versions_def same)
    have "knowledge_ok ?m (sd_knowledge sd')" by (simp add: knowledge_ok_def sd' len)
    moreover have "\<forall>s\<in>set (contents objs (sd_segments sd)). segment_fits schema (sd_knowledge sd') s"
      using ok by (auto simp: shared_ok_def Let_def segment_fits_def kn')
    ultimately show ?thesis
      using ok latest mark' by (simp add: shared_ok_def Let_def table_versions_split same) (simp add: sd')
  qed
qed

end
