(* ===== verification/Writer.thy ===== *)
theory Writer
  imports Writes
begin

text \<open>
  Each operation of the writer, on any backend that keeps its contract, is the operation of
  the abstract table, whatever fails on the way: what it leaves behind when it returns an
  error is either the old table or one of the tables the operation passes through.
\<close>

section \<open>Postconditions of operations\<close>

fun is_ok :: "('e, 'a) outcome \<Rightarrow> bool" where
  "is_ok (Ok a) = True"
| "is_ok (Err e) = False"
| "is_ok Panic = False"

definition ends :: "('s, 'e, 'a) op \<Rightarrow> 's \<Rightarrow> (('e, 'a) outcome \<Rightarrow> 's \<Rightarrow> bool) \<Rightarrow> bool" where
  "ends m s Q \<longleftrightarrow> (case m s of (r, s') \<Rightarrow> Q r s')"

definition passes :: "('a \<Rightarrow> 's \<Rightarrow> bool) \<Rightarrow> (('e, 'b) outcome \<Rightarrow> 's \<Rightarrow> bool) \<Rightarrow> ('e, 'a) outcome \<Rightarrow> 's \<Rightarrow> bool" where
  "passes Q P r s = (case r of Ok a \<Rightarrow> Q a s | Err e \<Rightarrow> P (Err e) s | Panic \<Rightarrow> P Panic s)"

lemma ends_simps [simp]:
  "ends (returnS a) s Q = Q (Ok a) s" "ends (raiseS e) s Q = Q (Err e) s" "ends (liftS r) s Q = Q r s"
  "ends (getS f) s P = P (Ok (f s)) s" "ends (modifyS g) s O' = O' (Ok ()) (g s)"
  by (simp_all add: ends_def)

lemma passes_simps [simp]:
  "passes Q P (Ok a) s = Q a s" "passes Q P (Err e) s = P (Err e) s" "passes Q P Panic s = P Panic s"
  by (simp_all add: passes_def)

lemma ends_bind: "ends (bindS m f) s Q = ends m s (passes (\<lambda>a s'. ends (f a) s' Q) Q)"
  by (simp add: ends_def bindS_def passes_def split: prod.split outcome.split)

lemma ends_then: "ends (thenS m n) s Q = ends m s (passes (\<lambda>a s'. ends n s' Q) Q)"
  by (simp add: thenS_def ends_bind)

lemma ends_when: "ends (whenS b m) s Q = (if b then ends m s Q else Q (Ok ()) s)"
  by (simp add: whenS_def)

lemma ends_get: "ends (bindS (getS f) g) s Q = ends (g (f s)) s Q"
  by (simp add: ends_bind)

lemma ends_mono: "ends m s Q \<Longrightarrow> (\<And>r s'. Q r s' \<Longrightarrow> P r s') \<Longrightarrow> ends m s P"
  by (simp add: ends_def split: prod.splits)

lemma ends_leads: "leads R m s \<Longrightarrow> (\<And>r s'. R s s' \<Longrightarrow> Q r s') \<Longrightarrow> ends m s Q"
  by (simp add: ends_def leads_def split: prod.split) (metis snd_conv)

text \<open>A step that fails ends the operation; one that does not leads on.\<close>

lemma passesI:
  assumes "\<And>a. r = Ok a \<Longrightarrow> Q a s" "\<And>e. r = Err e \<Longrightarrow> P (Err e) s" "r = Panic \<Longrightarrow> P Panic s"
  shows "passes Q P r s"
  using assms by (cases r) simp_all

lemma ends_step:
  assumes "leads R m s" "\<And>r s'. R s s' \<Longrightarrow> \<not> is_ok r \<Longrightarrow> Q r s'" "\<And>a s'. R s s' \<Longrightarrow> ends n s' Q"
  shows "ends (thenS m n) s Q"
  unfolding ends_then by (rule ends_leads [OF assms(1)]) (auto intro!: passesI assms(2,3))

section \<open>A store that represents a table\<close>

definition represents ::
  "'d backend \<Rightarrow> ('d \<Rightarrow> rstring \<Rightarrow> bytes option) \<Rightarrow> ('d \<Rightarrow> bool) \<Rightarrow> ('d \<Rightarrow> log_handle \<Rightarrow> bool) \<Rightarrow>
   table \<Rightarrow> 'd store \<Rightarrow> bool" where
  "represents be objects good log_ok t st \<longleftrightarrow>
     st_backend st \<in> {None, Some be} \<and>
     (sizes_ok st \<longrightarrow> store_ok be objects good log_ok st \<and> table_of objects st = t)"

lemma represents_quiet:
  "represents be objects good log_ok t st \<Longrightarrow> quiet be objects good log_ok st st' \<Longrightarrow>
   represents be objects good log_ok t st'"
  using sizes_ok_slots [of st st'] by (auto simp: represents_def quiet_def grows_def)

lemma represents_still:
  "represents be objects good log_ok t st \<Longrightarrow> still be objects good log_ok st st' \<Longrightarrow>
   represents be objects good log_ok t st'"
  using represents_quiet still_quiet by metis

lemma represents_backend: "represents be objects good log_ok t st \<Longrightarrow> st_backend st \<in> {None, Some be}"
  by (simp add: represents_def)

lemma store_ok_shared:
  "store_ok be objects good log_ok st \<Longrightarrow>
   shared_ok (objects (st_world st)) (st_backend st \<noteq> None) (st_generation st) (st_schema st) (st_ordering_key st)
     (st_rows st) (st_shared st)"
  by (simp add: store_ok_def)

lemma still_rows: "still be objects good log_ok st st' \<Longrightarrow> st_rows st' = st_rows st \<and> next_sequence st' = next_sequence st \<and>
    st_shared st' = st_shared st"
  by (simp add: still_def unchanged_def next_sequence_def)

lemma quiet_rows: "quiet be objects good log_ok st st' \<Longrightarrow> st_rows st' = st_rows st \<and> next_sequence st' = next_sequence st \<and>
    sd_tombstones (st_shared st') = sd_tombstones (st_shared st)"
  by (simp add: quiet_def grows_def)

text \<open>The shared state and the row count replaced.\<close>

lemma represents_shared:
  assumes "store_ok be objects good log_ok st" "st_backend st' = st_backend st" "st_world st' = st_world st"
    "st_wal st' = st_wal st" "st_slot_shared st' = st_slot_shared st" "st_schema st' = st_schema st"
    "st_sections st' = st_sections st" "st_generation st' = st_generation st" "st_ordering_key st' = st_ordering_key st"
    and "sd_history (st_shared st') = sd_history (st_shared st)"
    and "shared_ok (objects (st_world st)) (st_backend st \<noteq> None) (st_generation st) (st_schema st) (st_ordering_key st)
     (st_rows st') (st_shared st')"
  shows "store_ok be objects good log_ok st'"
  using assms by (cases "st_wal st") (simp_all add: store_ok_def)

lemma table_of_eq:
  assumes "st_world st' = st_world st" "sd_history (st_shared st') = sd_history (st_shared st)"
    "latest_versions (objects (st_world st)) (st_shared st') = vs" "watermark (st_shared st') (st_rows st') = mark"
  shows "table_of objects st' = (table_of objects st)\<lparr>tb_latest := vs, tb_mark := mark\<rparr>"
  using assms by (simp add: table_of_def next_sequence_def)

lemma sizes_ok_same:
  "sd_segments (st_shared st') = sd_segments (st_shared st) \<Longrightarrow> sd_history (st_shared st') = sd_history (st_shared st) \<Longrightarrow>
   st_backend st' = st_backend st \<Longrightarrow> sizes_ok st' = sizes_ok st"
  by (simp add: sizes_ok_def)

section \<open>Append\<close>

lemma row_added:
  assumes ok: "represents be objects good log_ok t st" and run: "append_row row (st_shared st) = (r, sd')"
    and row: "\<forall>cell\<in>set row. cell_utf8 cell"
    and room: "unat (st_rows st) + 1 < 2 ^ 64" "unat (next_sequence st) + 1 < 2 ^ 64"
  shows "r = Ok () \<Longrightarrow> represents be objects good log_ok (table_append row t)
      (st\<lparr>st_shared := sd', st_rows := st_rows st + 1\<rparr>)"
    "r \<noteq> Ok () \<Longrightarrow> sd' = st_shared st"
proof -
  show "represents be objects good log_ok (table_append row t) (st\<lparr>st_shared := sd', st_rows := st_rows st + 1\<rparr>)"
    if Ok: "r = Ok ()"
  proof -
    let ?st = "st\<lparr>st_shared := sd', st_rows := st_rows st + 1\<rparr>"
    have run': "append_row row (st_shared st) = (Ok (), sd')" using run Ok by simp
    have same: "sd_segments sd' = sd_segments (st_shared st)" "sd_history sd' = sd_history (st_shared st)"
      using run' by (auto simp: append_row_def split: outcome.splits)
    have "store_ok be objects good log_ok ?st \<and> table_of objects ?st = table_append row t" if "sizes_ok ?st"
    proof -
      have "sizes_ok st" using that same sizes_ok_same [of ?st st] by simp
      then have s: "store_ok be objects good log_ok st" and t: "table_of objects st = t"
        using ok by (simp_all add: represents_def)
      note A = append_row_ok [OF store_ok_shared [OF s] run' row room(1) room(2) [unfolded next_sequence_def]]
      have "table_of objects ?st = (table_of objects st)
          \<lparr>tb_latest := latest_versions (objects (st_world st)) (st_shared st) @
             [\<lparr>vn_cells = row, vn_born = watermark (st_shared st) (st_rows st), vn_kill = None\<rparr>],
           tb_mark := watermark (st_shared st) (st_rows st) + 1\<rparr>"
        by (rule table_of_eq) (use A same in simp_all)
      also have "\<dots> = table_append row (table_of objects st)"
        by (simp add: table_append_def add_version_def table_of_def next_sequence_def)
      finally have "table_of objects ?st = table_append row t" by (simp add: t)
      moreover have "store_ok be objects good log_ok ?st"
        by (rule represents_shared [OF s]) (use A same in simp_all)
      ultimately show ?thesis by simp
    qed
    then show ?thesis using represents_backend [OF ok] by (simp add: represents_def)
  qed
qed (use run in \<open>auto simp: append_row_def split: outcome.splits\<close>)

text \<open>A step that leaves the table alone, from where the table has been left alone so far.\<close>

lemma still_step:
  assumes "still be objects good log_ok st s" "leads (still be objects good log_ok) m s"
    and "\<And>r s'. still be objects good log_ok st s' \<Longrightarrow> \<not> is_ok r \<Longrightarrow> Q r s'"
    and "\<And>a s'. still be objects good log_ok st s' \<Longrightarrow> ends n s' Q"
  shows "ends (thenS m n) s Q"
  by (rule ends_step [OF assms(2)]) (use still.trans [OF assms(1)] assms(3,4) in blast)+

definition append_ends ::
  "'d backend \<Rightarrow> ('d \<Rightarrow> rstring \<Rightarrow> bytes option) \<Rightarrow> ('d \<Rightarrow> bool) \<Rightarrow> ('d \<Rightarrow> log_handle \<Rightarrow> bool) \<Rightarrow>
   row_value list \<Rightarrow> table \<Rightarrow> u64 \<Rightarrow> (storage_error, u64) outcome \<Rightarrow> 'd store \<Rightarrow> bool" where
  "append_ends be objects good log_ok row t rows r st' \<longleftrightarrow>
     (\<not> is_ok r \<and> represents be objects good log_ok t st') \<or>
     ((\<forall>rid. r = Ok rid \<longrightarrow> rid = rows) \<and> represents be objects good log_ok (table_append row t) st')"

context storage_backend
begin

lemma append_table:
  assumes ok: "represents be objects good log_ok t st" and row: "\<forall>cell\<in>set row. cell_utf8 cell"
    and room: "unat (st_rows st) + 1 < 2 ^ 64" "unat (next_sequence st) + 1 < 2 ^ 64"
  shows "ends (store_append row) st (append_ends be objects good log_ok row t (st_rows st))"
proof -
  let ?Q = "append_ends be objects good log_ok row t (st_rows st)"
  have fail: "?Q r s" if "still be objects good log_ok st s" "\<not> is_ok r" for r s
    using that represents_still [OF ok] by (simp add: append_ends_def)
  have tail: "ends (thenS (whenS full flush) (returnS (st_rows st))) s ?Q"
    if "represents be objects good log_ok (table_append row t) s" for full s
  proof -
    have "leads (quiet be objects good log_ok) (whenS full flush) s" by (rule quiet.leads_when) (rule flush_quiet)
    then show ?thesis by (rule ends_step) (use represents_quiet [OF that] in \<open>auto simp: append_ends_def\<close>)
  qed
  have body: "ends (thenS (in_shared (append_row row)) (bindS (getS must_flush) (\<lambda>full. bindS (getS st_rows) (\<lambda>rid.
      thenS bump_rows (thenS (whenS full flush) (returnS rid)))))) s ?Q"
    if s: "still be objects good log_ok st s" for s
  proof -
    obtain r sd' where run: "append_row row (st_shared s) = (r, sd')" by fastforce
    have rows: "st_rows s = st_rows st" "next_sequence s = next_sequence st" using still_rows [OF s] by simp_all
    note A = row_added [OF represents_still [OF ok s] run row, unfolded rows, OF room]
    have "in_shared (append_row row) s = (r, s\<lparr>st_shared := sd'\<rparr>)" by (simp add: in_shared_def run)
    moreover have "r \<noteq> Ok () \<Longrightarrow> sd' = st_shared s \<and> \<not> is_ok r" using A(2) by (cases r) (auto)
    ultimately show ?thesis
      using A(1) tail fail [OF s] rows
      by (cases r) (auto simp: ends_then ends_get ends_def [of "in_shared _"] bump_rows_def)
  qed
  have validate: "leads (still be objects good log_ok) (validate_row row) s" for s
    by (simp add: leads_def validate_row_def still.refl)
  have log: "leads (still be objects good log_ok) (wal_append row) s" if "still be objects good log_ok st s" for s
    using represents_backend [OF represents_still [OF ok that]] by (rule wal_append_still)
  show ?thesis
    unfolding store_append_def
    by (intro still_step [OF still.refl refuse_read_only_still] still_step [OF _ validate] still_step [OF _ log] fail body)
qed

end

section \<open>Tombstone\<close>

lemma store_ok_represents: "store_ok be objects good log_ok st \<Longrightarrow> represents be objects good log_ok (table_of objects st) st"
  by (simp add: represents_def store_ok_def)

lemma newly_dead_distinct [simp]: "distinct (newly_dead ids st)" "finite (set (newly_dead ids st))"
  by (simp_all add: newly_dead_def)

lemma newly_dead_live:
  assumes "store_ok be objects good log_ok st" "\<forall>rid\<in>set ids. rid < st_rows st"
  shows "set (newly_dead ids st) = live_among ids (table_of objects st)"
    "rid \<in> set (newly_dead ids st) \<Longrightarrow> rid < st_rows st \<and> bt_get (sd_tombstones (st_shared st)) rid = None"
proof -
  note L = latest_versions_ids [OF shared_ok_layout [OF store_ok_shared [OF assms(1)]]]
  have "vn_kill (tb_latest (table_of objects st) ! unat rid) = bt_get (sd_tombstones (st_shared st)) rid"
    if "rid \<in> set ids" for rid
    using assms(2) that L(2) by (simp add: table_of_def L(1) mk_version_def case_prod_unfold word_less_nat_alt)
  then show "set (newly_dead ids st) = live_among ids (table_of objects st)"
    by (auto simp: newly_dead_def live_among_def)
  show "rid < st_rows st \<and> bt_get (sd_tombstones (st_shared st)) rid = None" if "rid \<in> set (newly_dead ids st)"
    using that assms(2) by (auto simp: newly_dead_def)
qed

lemma refuse_out_of_range_ends:
  assumes "\<And>bad. bad \<in> set ids \<Longrightarrow> st_rows st \<le> bad \<Longrightarrow> Q (Err (TombstoneOutOfRange bad)) st"
    and "\<forall>rid\<in>set ids. rid < st_rows st \<Longrightarrow> ends n st Q"
  shows "ends (thenS (refuse_out_of_range ids) n) st Q"
proof (cases "first_out_of_range ids st")
  case None
  then have "\<forall>rid\<in>set ids. rid < st_rows st" by (auto simp: first_out_of_range_def find_None_iff)
  then show ?thesis using assms(2) None by (simp add: ends_then ends_def [of "refuse_out_of_range _"] refuse_out_of_range_def)
next
  case (Some bad)
  then have "bad \<in> set ids" "st_rows st \<le> bad" by (auto simp: first_out_of_range_def find_Some_iff)
  then show ?thesis
    using assms(1) Some by (simp add: ends_then ends_def [of "refuse_out_of_range _"] refuse_out_of_range_def)
qed

text \<open>The rows killed and the coordinate spent.\<close>

lemma killed_spent:
  assumes ok: "represents be objects good log_ok t st"
    and newly: "\<And>rid. rid \<in> set newly \<Longrightarrow> rid < st_rows st \<and> bt_get (sd_tombstones (st_shared st)) rid = None"
    and room: "unat (next_sequence st) + 1 < 2 ^ 64" and mark: "tb_mark t = next_sequence st"
  shows "represents be objects good log_ok ((table_kill (set newly) (tb_mark t) t)\<lparr>tb_mark := tb_mark t + 1\<rparr>)
      (st\<lparr>st_shared := consume_sequence (st_rows st) (bury newly (next_sequence st) (st_shared st))\<rparr>)"
proof -
  let ?bury = "bury newly (next_sequence st) (st_shared st)"
  let ?st = "st\<lparr>st_shared := consume_sequence (st_rows st) ?bury\<rparr>"
  have same: "sd_segments (st_shared ?st) = sd_segments (st_shared st)" "sd_history (st_shared ?st) = sd_history (st_shared st)"
    by (simp_all add: consume_sequence_def Let_def)
  have "store_ok be objects good log_ok ?st \<and>
      table_of objects ?st = (table_kill (set newly) (tb_mark t) t)\<lparr>tb_mark := tb_mark t + 1\<rparr>" if "sizes_ok ?st"
  proof -
    have "sizes_ok st" using that sizes_ok_same [OF same] by simp
    then have s: "store_ok be objects good log_ok st" and t: "t = table_of objects st"
      using ok by (simp_all add: represents_def)
    have mark': "watermark ?bury (st_rows st) = next_sequence st" by (simp add: watermark_def next_sequence_def)
    note B = bury_ok [OF store_ok_shared [OF s] newly, of newly "next_sequence st"]
    note C = consume_sequence_ok [OF B(1)]
    have "table_of objects ?st = (table_of objects st)
        \<lparr>tb_latest := kill_versions (set newly) (next_sequence st) (latest_versions (objects (st_world st)) (st_shared st)),
         tb_mark := next_sequence st + 1\<rparr>"
      by (rule table_of_eq) (use B C room same mark' in \<open>simp_all add: next_sequence_def\<close>)
    then have "table_of objects ?st = (table_kill (set newly) (tb_mark t) t)\<lparr>tb_mark := tb_mark t + 1\<rparr>"
      using mark by (simp add: t table_kill_def) (simp add: table_of_def)
    moreover have "store_ok be objects good log_ok ?st"
      by (rule represents_shared [OF s]) (use B C room same mark' in \<open>simp_all add: next_sequence_def\<close>)
    ultimately show ?thesis by simp
  qed
  then show ?thesis using represents_backend [OF ok] by (simp add: represents_def)
qed

definition delete_ends ::
  "'d backend \<Rightarrow> ('d \<Rightarrow> rstring \<Rightarrow> bytes option) \<Rightarrow> ('d \<Rightarrow> bool) \<Rightarrow> ('d \<Rightarrow> log_handle \<Rightarrow> bool) \<Rightarrow>
   u64 list \<Rightarrow> table \<Rightarrow> (storage_error, u64) outcome \<Rightarrow> 'd store \<Rightarrow> bool" where
  "delete_ends be objects good log_ok ids t r st' \<longleftrightarrow>
     (\<not> is_ok r \<and> represents be objects good log_ok t st') \<or>
     (r = Ok (word_of_nat (card (live_among ids t))) \<and> represents be objects good log_ok (table_delete ids t) st')"

context storage_backend
begin

lemma with_backend_quiet: "leads (quiet be objects good log_ok) m st \<Longrightarrow> leads (quiet be objects good log_ok) (with_backend (\<lambda>_. m)) st"
  by (simp add: leads_def with_backend_def quiet.refl split: option.split)

lemma tombstone_newly_table:
  assumes ok: "represents be objects good log_ok t st" and newly: "set newly = live_among ids t" "distinct newly"
    and rows: "\<And>rid. rid \<in> set newly \<Longrightarrow> rid < st_rows st \<and> bt_get (sd_tombstones (st_shared st)) rid = None"
    and room: "unat (next_sequence st) + 1 < 2 ^ 64" and mark: "tb_mark t = next_sequence st"
  shows "ends (tombstone_newly newly) st (delete_ends be objects good log_ok ids t)"
proof (cases "newly = []")
  case True
  then have "live_among ids t = {}" using newly(1) by simp
  then show ?thesis using ok True by (simp add: tombstone_newly_def delete_ends_def table_delete_def)
next
  case False
  let ?Q = "delete_ends be objects good log_ok ids t"
  have some: "live_among ids t \<noteq> {}" using False newly(1) by auto
  have count: "card (live_among ids t) = length newly" using newly by (metis distinct_card)
  have kill: "ends (thenS (modifyS (\<lambda>st. st\<lparr>st_shared := consume_sequence (st_rows st) (bury newly (next_sequence st1) (st_shared st))\<rparr>))
      (returnS (word_of_nat (length newly)))) s ?Q"
    if q: "quiet be objects good log_ok st st1" and s: "still be objects good log_ok st1 s" for st1 s
  proof -
    have eq: "st_rows s = st_rows st" "next_sequence s = next_sequence st" "next_sequence st1 = next_sequence st"
      "sd_tombstones (st_shared s) = sd_tombstones (st_shared st)"
      using quiet_rows [OF q] still_rows [OF s] by simp_all
    have "represents be objects good log_ok t s" by (rule represents_still [OF represents_quiet [OF ok q] s])
    from killed_spent [OF this, of newly] rows room mark
    have "represents be objects good log_ok (table_delete ids t)
        (s\<lparr>st_shared := consume_sequence (st_rows s) (bury newly (next_sequence st1) (st_shared s))\<rparr>)"
      using some by (simp add: eq table_delete_def newly(1))
    then show ?thesis by (simp add: ends_then delete_ends_def count)
  qed
  have via: "st_backend st1 \<in> {None, Some be}" if "quiet be objects good log_ok st st1" for st1
    using represents_backend [OF represents_quiet [OF ok that]] .
  have body: "ends (bindS (getS next_sequence) (\<lambda>stamp. thenS (write_delete_log newly stamp 0)
       (thenS (modifyS (\<lambda>st. st\<lparr>st_shared := consume_sequence (st_rows st) (bury newly stamp (st_shared st))\<rparr>))
          (returnS (word_of_nat (length newly)))))) st1 ?Q" if q: "quiet be objects good log_ok st st1" for st1
    unfolding ends_get
    by (rule still_step [OF still.refl write_delete_log_still [OF via [OF q]]])
      (use represents_still [OF represents_quiet [OF ok q]] kill [OF q] in \<open>auto simp: delete_ends_def\<close>)
  have "ends (thenS (with_backend (\<lambda>_. flush)) (bindS (getS next_sequence) (\<lambda>stamp. thenS (write_delete_log newly stamp 0)
       (thenS (modifyS (\<lambda>st. st\<lparr>st_shared := consume_sequence (st_rows st) (bury newly stamp (st_shared st))\<rparr>))
          (returnS (word_of_nat (length newly))))))) st ?Q"
    by (rule ends_step [OF with_backend_quiet [OF flush_quiet] _ body])
      (use represents_quiet [OF ok] in \<open>auto simp: delete_ends_def\<close>)
  then show ?thesis using False by (simp add: tombstone_newly_def)
qed

lemma tombstone_table:
  assumes ok: "store_ok be objects good log_ok st" and room: "unat (next_sequence st) + 1 < 2 ^ 64"
  shows "ends (tombstone ids) st (delete_ends be objects good log_ok ids (table_of objects st))"
proof -
  let ?Q = "delete_ends be objects good log_ok ids (table_of objects st)"
  note R = store_ok_represents [OF ok]
  have body: "ends (bindS (getS (newly_dead ids)) tombstone_newly) st ?Q" if "\<forall>rid\<in>set ids. rid < st_rows st"
    unfolding ends_get
    by (rule tombstone_newly_table [OF R newly_dead_live(1) [OF ok that] newly_dead_distinct(1) newly_dead_live(2) [OF ok that] room])
      (simp_all add: table_of_def)
  have "ends (thenS (refuse_out_of_range ids) (bindS (getS (newly_dead ids)) tombstone_newly)) st ?Q"
    by (rule refuse_out_of_range_ends) (use R body in \<open>auto simp: delete_ends_def\<close>)
  then show ?thesis
    using R by (simp add: tombstone_def ends_then ends_def [of refuse_read_only] refuse_read_only_def delete_ends_def)
qed

end

section \<open>Supersede\<close>

lemma kill_versions_none [simp]: "kill_versions {} stamp vs = vs"
  by (rule nth_equalityI) (simp_all add: kill_versions_def)

lemma table_kill_none [simp]: "table_kill {} stamp t = t"
  by (simp add: table_kill_def)

lemma table_add_rows_none [simp]: "table_add_rows [] t = t"
  by (simp add: table_add_rows_def)

lemma table_add_rows_snoc:
  "table_add_rows (rows @ [row]) t = (add_version (tb_mark t) row (table_add_rows rows t))\<lparr>tb_mark := tb_mark t + 1\<rparr>"
  by (simp add: table_add_rows_def add_version_def)

lemma fold_add_version_mark: "tb_mark (fold (add_version born) rows t) = tb_mark t"
  by (induction rows arbitrary: t) (simp_all add: add_version_def)

lemma table_add_rows_mark: "tb_mark (table_add_rows rows t) = (if rows = [] then tb_mark t else tb_mark t + 1)"
  by (simp add: table_add_rows_def)

text \<open>One superseding row.\<close>

lemma superseding_row_added:
  assumes ok: "represents be objects good log_ok (table_add_rows before t) st"
    and run: "append_superseding row (tb_mark t) (st_rows st) (st_shared st) = (r, sd')"
    and row: "\<forall>cell\<in>set row. cell_utf8 cell"
    and room: "unat (st_rows st) + 1 < 2 ^ 64" "unat (tb_mark t) + 1 < 2 ^ 64"
  shows "r = Ok () \<Longrightarrow> represents be objects good log_ok (table_add_rows (before @ [row]) t)
      (st\<lparr>st_shared := sd', st_rows := st_rows st + 1\<rparr>)"
    "r \<noteq> Ok () \<Longrightarrow> represents be objects good log_ok (table_add_rows before t) (st\<lparr>st_shared := sd'\<rparr>)"
    "sd_tombstones sd' = sd_tombstones (st_shared st)"
proof -
  have same: "sd_segments sd' = sd_segments (st_shared st)" "sd_history sd' = sd_history (st_shared st)"
    "sd_tombstones sd' = sd_tombstones (st_shared st)"
    using run by (auto simp: append_superseding_def Let_def split: outcome.splits)
  show "sd_tombstones sd' = sd_tombstones (st_shared st)" by (rule same)
  let ?ok = "st\<lparr>st_shared := sd', st_rows := st_rows st + 1\<rparr>" and ?bad = "st\<lparr>st_shared := sd'\<rparr>"
  have facts: "store_ok be objects good log_ok st" "table_of objects st = table_add_rows before t"
    "watermark (st_shared st) (st_rows st) = tb_mark t \<or> watermark (st_shared st) (st_rows st) = tb_mark t + 1"
    if "sizes_ok st"
  proof -
    show s: "store_ok be objects good log_ok st" and t: "table_of objects st = table_add_rows before t"
      using ok that by (simp_all add: represents_def)
    have "tb_mark (table_of objects st) = watermark (st_shared st) (st_rows st)"
      by (simp add: table_of_def next_sequence_def)
    then show "watermark (st_shared st) (st_rows st) = tb_mark t \<or> watermark (st_shared st) (st_rows st) = tb_mark t + 1"
      unfolding t by (metis table_add_rows_mark)
  qed
  show "represents be objects good log_ok (table_add_rows (before @ [row]) t) ?ok" if Ok: "r = Ok ()"
  proof -
    have "store_ok be objects good log_ok ?ok \<and> table_of objects ?ok = table_add_rows (before @ [row]) t" if "sizes_ok ?ok"
    proof -
      have "sizes_ok st" using that same sizes_ok_same [of ?ok st] by simp
      note F = facts [OF this]
      note A = append_superseding_ok [OF store_ok_shared [OF F(1)] run row room F(3)]
      have "table_of objects ?ok = (table_of objects st)
          \<lparr>tb_latest := latest_versions (objects (st_world st)) (st_shared st) @
             [\<lparr>vn_cells = row, vn_born = tb_mark t, vn_kill = None\<rparr>], tb_mark := tb_mark t + 1\<rparr>"
        by (rule table_of_eq) (use A Ok same in simp_all)
      also have "\<dots> = (add_version (tb_mark t) row (table_of objects st))\<lparr>tb_mark := tb_mark t + 1\<rparr>"
        by (simp add: add_version_def table_of_def)
      finally have "table_of objects ?ok = table_add_rows (before @ [row]) t" by (simp add: F(2) table_add_rows_snoc)
      moreover have "store_ok be objects good log_ok ?ok"
        by (rule represents_shared [OF F(1)]) (use A Ok same in simp_all)
      ultimately show ?thesis by simp
    qed
    then show ?thesis using represents_backend [OF ok] by (simp add: represents_def)
  qed
  show "represents be objects good log_ok (table_add_rows before t) ?bad" if bad: "r \<noteq> Ok ()"
  proof -
    have "store_ok be objects good log_ok ?bad \<and> table_of objects ?bad = table_add_rows before t" if "sizes_ok ?bad"
    proof -
      have "sizes_ok st" using that same sizes_ok_same [of ?bad st] by simp
      note F = facts [OF this]
      note A = append_superseding_ok [OF store_ok_shared [OF F(1)] run row room F(3)]
      have "table_of objects ?bad = table_of objects st"
        using A bad same by (simp add: table_of_def next_sequence_def)
      moreover have "store_ok be objects good log_ok ?bad"
        by (rule represents_shared [OF F(1)]) (use A bad same in simp_all)
      ultimately show ?thesis using F(2) by simp
    qed
    then show ?thesis using represents_backend [OF ok] by (simp add: represents_def)
  qed
qed

text \<open>The rows buried at a coordinate that is already spent, or about to be.\<close>

lemma rows_buried:
  assumes ok: "represents be objects good log_ok t st"
    and newly: "\<And>rid. rid \<in> set newly \<Longrightarrow> rid < st_rows st \<and> bt_get (sd_tombstones (st_shared st)) rid = None"
    and stamp: "stamp \<le> tb_mark t"
  shows "represents be objects good log_ok (table_kill (set newly) stamp t)
      (st\<lparr>st_shared := bury newly stamp (st_shared st)\<rparr>)"
proof -
  let ?st = "st\<lparr>st_shared := bury newly stamp (st_shared st)\<rparr>"
  have "store_ok be objects good log_ok ?st \<and> table_of objects ?st = table_kill (set newly) stamp t" if "sizes_ok ?st"
  proof -
    have "sizes_ok st" using that sizes_ok_same [of ?st st] by simp
    then have s: "store_ok be objects good log_ok st" and t: "t = table_of objects st"
      using ok by (simp_all add: represents_def)
    have stamp': "stamp \<le> watermark (st_shared st) (st_rows st)" using stamp by (simp add: t table_of_def next_sequence_def)
    note B = bury_ok [OF store_ok_shared [OF s] newly stamp', of newly]
    have mark: "watermark (bury newly stamp (st_shared st)) (st_rows st) = next_sequence st"
      by (simp add: watermark_def next_sequence_def)
    have "table_of objects ?st = (table_of objects st)
        \<lparr>tb_latest := kill_versions (set newly) stamp (latest_versions (objects (st_world st)) (st_shared st)),
         tb_mark := next_sequence st\<rparr>"
      by (rule table_of_eq) (use B mark in simp_all)
    then have "table_of objects ?st = table_kill (set newly) stamp t"
      by (simp add: t table_kill_def) (simp add: table_of_def)
    moreover have "store_ok be objects good log_ok ?st"
      by (rule represents_shared [OF s]) (use B in simp_all)
    ultimately show ?thesis by simp
  qed
  then show ?thesis using represents_backend [OF ok] by (simp add: represents_def)
qed

definition supersede_ends ::
  "'d backend \<Rightarrow> ('d \<Rightarrow> rstring \<Rightarrow> bytes option) \<Rightarrow> ('d \<Rightarrow> bool) \<Rightarrow> ('d \<Rightarrow> log_handle \<Rightarrow> bool) \<Rightarrow>
   row_value list list \<Rightarrow> u64 list \<Rightarrow> table \<Rightarrow> (storage_error, u64) outcome \<Rightarrow> 'd store \<Rightarrow> bool" where
  "supersede_ends be objects good log_ok rows victims t r st' \<longleftrightarrow>
     (\<not> is_ok r \<and> (\<exists>k\<le>length rows. represents be objects good log_ok (table_add_rows (take k rows) t) st')) \<or>
     ((\<forall>n. r = Ok n \<longrightarrow> n = word_of_nat (card (live_among victims t))) \<and>
      represents be objects good log_ok (table_supersede rows victims t) st')"

text \<open>Where the loop over the replacements is: \<open>k\<close> of them are in.\<close>

definition rows_in ::
  "'d backend \<Rightarrow> ('d \<Rightarrow> rstring \<Rightarrow> bytes option) \<Rightarrow> ('d \<Rightarrow> bool) \<Rightarrow> ('d \<Rightarrow> log_handle \<Rightarrow> bool) \<Rightarrow>
   row_value list list \<Rightarrow> table \<Rightarrow> 'd store \<Rightarrow> nat \<Rightarrow> 'd store \<Rightarrow> bool" where
  "rows_in be objects good log_ok rows t st0 k st \<longleftrightarrow>
     represents be objects good log_ok (table_add_rows (take k rows) t) st \<and> k \<le> length rows \<and>
     unat (st_rows st) = unat (st_rows st0) + k \<and>
     sd_tombstones (st_shared st) = sd_tombstones (st_shared st0)"

lemma rows_in_still:
  "rows_in be objects good log_ok rows t st0 k st \<Longrightarrow> still be objects good log_ok st st' \<Longrightarrow>
   rows_in be objects good log_ok rows t st0 k st'"
  using represents_still still_rows by (fastforce simp: rows_in_def)

lemma rows_in_quiet:
  "rows_in be objects good log_ok rows t st0 k st \<Longrightarrow> quiet be objects good log_ok st st' \<Longrightarrow>
   rows_in be objects good log_ok rows t st0 k st'"
  using represents_quiet quiet_rows by (fastforce simp: rows_in_def)

context storage_backend
begin

lemma supersede_row_in:
  assumes inn: "rows_in be objects good log_ok rows t st0 k st" and k: "k < length rows"
    and row: "\<forall>cell\<in>set (rows ! k). cell_utf8 cell"
    and room: "unat (st_rows st0) + length rows < 2 ^ 64" "unat (tb_mark t) + 1 < 2 ^ 64"
  shows "ends (supersede_row (tb_mark t) (rows ! k)) st
    (\<lambda>r st'. rows_in be objects good log_ok rows t st0 (if is_ok r then k + 1 else k) st')"
proof -
  let ?Q = "\<lambda>r st'. rows_in be objects good log_ok rows t st0 (if is_ok r then k + 1 else k) st'"
  have "represents be objects good log_ok (table_add_rows (take k rows) t) st" using inn by (simp add: rows_in_def)
  from wal_append_still [OF represents_backend [OF this]]
  have log: "leads (still be objects good log_ok) (wal_append (rows ! k)) st" .
  have body: "ends (thenS (in_shared (append_superseding (rows ! k) (tb_mark t) (st_rows s))) bump_rows) s ?Q"
    if s: "still be objects good log_ok st s" for s
  proof -
    have inn': "rows_in be objects good log_ok rows t st0 k s" by (rule rows_in_still [OF inn s])
    then have R: "represents be objects good log_ok (table_add_rows (take k rows) t) s"
      and n: "unat (st_rows s) = unat (st_rows st0) + k" "sd_tombstones (st_shared s) = sd_tombstones (st_shared st0)"
      by (simp_all add: rows_in_def)
    obtain r sd' where run: "append_superseding (rows ! k) (tb_mark t) (st_rows s) (st_shared s) = (r, sd')" by fastforce
    have one: "unat (st_rows s) + 1 < 2 ^ 64" using n(1) room(1) k by simp
    note A = superseding_row_added [OF R run row one room(2)]
    have "take k rows @ [rows ! k] = take (k + 1) rows" using k by (simp add: take_Suc_conv_app_nth)
    moreover have "unat (st_rows s + 1) = unat (st_rows st0) + (k + 1)" using unat_Suc [OF one] n(1) by simp
    ultimately show ?thesis
      using A n k
      by (cases r) (simp_all add: ends_then ends_def [of "in_shared _"] in_shared_def run bump_rows_def rows_in_def)
  qed
  show ?thesis
    unfolding supersede_row_def
  proof (rule still_step [OF still.refl log])
    show "?Q r s" if "still be objects good log_ok st s" "\<not> is_ok r" for r s
      using rows_in_still [OF inn that(1)] that(2) by simp
  qed (unfold ends_get, rule body)
qed

lemma supersede_rows_in:
  assumes inn: "rows_in be objects good log_ok rows t st0 k st"
    and row: "\<forall>row\<in>set rows. \<forall>cell\<in>set row. cell_utf8 cell"
    and room: "unat (st_rows st0) + length rows < 2 ^ 64" "unat (tb_mark t) + 1 < 2 ^ 64"
  shows "ends (forS (supersede_row (tb_mark t)) (drop k rows)) st
    (\<lambda>r st'. \<exists>j. (is_ok r \<longrightarrow> j = length rows) \<and> rows_in be objects good log_ok rows t st0 j st')"
  using inn
proof (induction "length rows - k" arbitrary: k st)
  case 0
  then have "k = length rows" by (simp add: rows_in_def)
  then show ?case using 0 by (auto simp: ends_def)
next
  case (Suc n)
  then have k: "k < length rows" by simp
  have ok: "\<forall>cell\<in>set (rows ! k). cell_utf8 cell" using row k nth_mem by blast
  have rest: "ends (forS (supersede_row (tb_mark t)) (drop (k + 1) rows)) s
      (\<lambda>r st'. \<exists>j. (is_ok r \<longrightarrow> j = length rows) \<and> rows_in be objects good log_ok rows t st0 j st')"
    if "rows_in be objects good log_ok rows t st0 (k + 1) s" for s
    using Suc.hyps(1) [OF _ that] Suc.hyps(2) by simp
  have "drop k rows = rows ! k # drop (k + 1) rows" using k by (simp add: Cons_nth_drop_Suc)
  then show ?case
    by (simp only: forS.simps ends_then) (rule ends_mono [OF supersede_row_in [OF Suc.prems k ok room]],
        rule passesI, auto intro: rest [simplified])
qed

lemma settle_rows_quiet:
  assumes "st_backend st \<in> {None, Some be}"
  shows "leads (quiet be objects good log_ok) settle_rows st"
proof (cases "st_backend st")
  case (Some be')
  then have be: "be' = be" using assms by simp
  show ?thesis
  proof (cases "st_wal st")
    case None
    have "leads (quiet be objects good log_ok) (whenS (\<not> wb_is_empty (sd_buffer (st_shared st))) flush) st"
      by (rule quiet.leads_when) (rule flush_quiet)
    then show ?thesis using Some None by (simp add: leads_def settle_rows_def with_backend_def)
  next
    case h: (Some h)
    have "leads (still be objects good log_ok) (thenS (in_world (be_log_sync be h)) (wal_synced_now be)) st"
      by (rule still.leads_then [OF log_sync_still [OF h] wal_synced_now_still])
    from leads_quiet [OF this] show ?thesis using Some h be by (simp add: leads_def settle_rows_def with_backend_def)
  qed
qed (simp add: leads_def settle_rows_def with_backend_def quiet.refl)

text \<open>The tail of a supersession: settle, commit, bury, and flush a full buffer.\<close>

lemma supersede_tail:
  assumes inn: "rows_in be objects good log_ok rows t st0 (length rows) st"
    and newly: "set newly = live_among victims t" "distinct newly"
    and dead: "\<And>rid. rid \<in> set newly \<Longrightarrow> rid < st_rows st0 \<and> bt_get (sd_tombstones (st_shared st0)) rid = None"
    and room: "unat (tb_mark t) + 1 < 2 ^ 64"
  shows "ends (thenS settle_rows (thenS (write_delete_log newly (tb_mark t) (tb_mark t))
       (thenS (in_shared (modifyS (bury newly (tb_mark t)))) (bindS (getS must_flush) (\<lambda>full.
        thenS (whenS full flush) (returnS (word_of_nat (length newly)))))))) st
     (supersede_ends be objects good log_ok rows victims t)"
proof -
  let ?Q = "supersede_ends be objects good log_ok rows victims t"
  have fail: "?Q r s" if "rows_in be objects good log_ok rows t st0 (length rows) s" "\<not> is_ok r" for r s
    using that by (auto simp: supersede_ends_def rows_in_def intro!: exI [of _ "length rows"])
  have count: "length newly = card (live_among victims t)" using newly by (metis distinct_card)
  have full: "ends (thenS (whenS full flush) (returnS (word_of_nat (length newly)))) s ?Q"
    if "represents be objects good log_ok (table_supersede rows victims t) s" for full s
  proof -
    have "leads (quiet be objects good log_ok) (whenS full flush) s" by (rule quiet.leads_when) (rule flush_quiet)
    then show ?thesis
      by (rule ends_step) (use represents_quiet [OF that] count in \<open>auto simp: supersede_ends_def\<close>)
  qed
  have kill: "ends (thenS (in_shared (modifyS (bury newly (tb_mark t)))) (bindS (getS must_flush) (\<lambda>full.
        thenS (whenS full flush) (returnS (word_of_nat (length newly)))))) s ?Q"
    if s: "rows_in be objects good log_ok rows t st0 (length rows) s" for s
  proof -
    have R: "represents be objects good log_ok (table_add_rows rows t) s"
      and n: "unat (st_rows s) = unat (st_rows st0) + length rows" "sd_tombstones (st_shared s) = sd_tombstones (st_shared st0)"
      using s by (simp_all add: rows_in_def)
    have "rid < st_rows s \<and> bt_get (sd_tombstones (st_shared s)) rid = None" if "rid \<in> set newly" for rid
      using dead [OF that] n by (simp add: word_less_nat_alt)
    moreover have "tb_mark t \<le> tb_mark (table_add_rows rows t)"
      using unat_Suc [OF room] by (simp add: table_add_rows_mark word_le_nat_alt)
    ultimately have "represents be objects good log_ok (table_supersede rows victims t)
        (s\<lparr>st_shared := bury newly (tb_mark t) (st_shared s)\<rparr>)"
      using rows_buried [OF R, of newly "tb_mark t"] by (simp add: table_supersede_def newly(1))
    then show ?thesis using full by (simp add: ends_then ends_get ends_def [of "in_shared _"] in_shared_def)
  qed
  have commit: "ends (thenS (write_delete_log newly (tb_mark t) (tb_mark t))
       (thenS (in_shared (modifyS (bury newly (tb_mark t)))) (bindS (getS must_flush) (\<lambda>full.
        thenS (whenS full flush) (returnS (word_of_nat (length newly))))))) s ?Q"
    if s: "rows_in be objects good log_ok rows t st0 (length rows) s" for s
  proof (rule still_step [OF still.refl])
    show "leads (still be objects good log_ok) (write_delete_log newly (tb_mark t) (tb_mark t)) s"
      by (rule write_delete_log_still) (use s in \<open>auto simp: rows_in_def represents_def\<close>)
  qed (use rows_in_still [OF s] fail kill in blast)+
  have "st_backend st \<in> {None, Some be}" using inn by (auto simp: rows_in_def represents_def)
  from settle_rows_quiet [OF this] show ?thesis
    by (rule ends_step) (use rows_in_quiet [OF inn] fail commit in blast)+
qed

lemma supersede_newly_table:
  assumes ok: "represents be objects good log_ok t st" and newly: "set newly = live_among victims t" "distinct newly"
    and dead: "\<And>rid. rid \<in> set newly \<Longrightarrow> rid < st_rows st \<and> bt_get (sd_tombstones (st_shared st)) rid = None"
    and row: "\<forall>row\<in>set rows. \<forall>cell\<in>set row. cell_utf8 cell"
    and room: "unat (st_rows st) + length rows < 2 ^ 64" "unat (tb_mark t) + 1 < 2 ^ 64" and mark: "tb_mark t = next_sequence st"
  shows "ends (supersede_newly rows newly buffer_base) st (supersede_ends be objects good log_ok rows victims t)"
proof (cases "newly = [] \<and> rows = []")
  case True
  then have "live_among victims t = {}" using newly(1) by simp
  then show ?thesis using ok True by (simp add: supersede_newly_def supersede_ends_def table_supersede_def)
next
  case False
  let ?Q = "supersede_ends be objects good log_ok rows victims t"
  have fail: "?Q r s" if "rows_in be objects good log_ok rows t st k s" "\<not> is_ok r" for r s k
    using that by (auto simp: supersede_ends_def rows_in_def)
  have start: "rows_in be objects good log_ok rows t st 0 st" using ok by (simp add: rows_in_def)
  have loop: "ends (thenS (forS (supersede_row (tb_mark t)) rows) (thenS settle_rows
       (thenS (write_delete_log newly (tb_mark t) (tb_mark t))
       (thenS (in_shared (modifyS (bury newly (tb_mark t)))) (bindS (getS must_flush) (\<lambda>full.
        thenS (whenS full flush) (returnS (word_of_nat (length newly))))))))) s ?Q"
    if "rows_in be objects good log_ok rows t st 0 s" for s
    unfolding ends_then [of "forS _ _"]
    by (rule ends_mono [OF supersede_rows_in [OF that row room, unfolded drop_0]], elim exE conjE, rule passesI)
      (use supersede_tail [OF _ newly dead room(2)] fail in auto)
  have bracket: "ends (bindS (getS next_sequence) (\<lambda>sequence. thenS (open_bracket sequence (length rows))
       (thenS (forS (supersede_row sequence) rows) (thenS settle_rows (thenS (write_delete_log newly sequence sequence)
       (thenS (in_shared (modifyS (bury newly sequence))) (bindS (getS must_flush) (\<lambda>full.
        thenS (whenS full flush) (returnS (word_of_nat (length newly)))))))))))  s ?Q"
    if q: "quiet be objects good log_ok st s" for s
  proof -
    have s: "rows_in be objects good log_ok rows t st 0 s" by (rule rows_in_quiet [OF start q])
    have seq: "next_sequence s = tb_mark t" using quiet_rows [OF q] mark by simp
    have via: "st_backend s \<in> {None, Some be}" using s by (auto simp: rows_in_def represents_def)
    show ?thesis
      unfolding ends_get seq
      by (rule still_step [OF still.refl open_bracket_still [OF via]]) (use rows_in_still [OF s] fail loop in blast)+
  qed
  have "leads (quiet be objects good log_ok) (with_backend (\<lambda>_. whenS (\<exists>rid\<in>set newly. buffer_base \<le> rid) flush)) st"
    by (rule with_backend_quiet, rule quiet.leads_when) (rule flush_quiet)
  then have "ends (thenS (with_backend (\<lambda>_. whenS (\<exists>rid\<in>set newly. buffer_base \<le> rid) flush))
      (bindS (getS next_sequence) (\<lambda>sequence. thenS (open_bracket sequence (length rows))
       (thenS (forS (supersede_row sequence) rows) (thenS settle_rows (thenS (write_delete_log newly sequence sequence)
       (thenS (in_shared (modifyS (bury newly sequence))) (bindS (getS must_flush) (\<lambda>full.
        thenS (whenS full flush) (returnS (word_of_nat (length newly))))))))))))  st ?Q"
    by (rule ends_step) (use rows_in_quiet [OF start] fail bracket in blast)+
  then show ?thesis using False by (auto simp: supersede_newly_def)
qed

lemma supersede_table:
  assumes ok: "store_ok be objects good log_ok st" and row: "\<forall>row\<in>set rows. \<forall>cell\<in>set row. cell_utf8 cell"
    and room: "unat (st_rows st) + length rows < 2 ^ 64" "unat (next_sequence st) + 1 < 2 ^ 64"
  shows "ends (supersede rows victims) st (supersede_ends be objects good log_ok rows victims (table_of objects st))"
proof -
  let ?t = "table_of objects st"
  let ?Q = "supersede_ends be objects good log_ok rows victims ?t"
  note R = store_ok_represents [OF ok]
  have mark: "tb_mark ?t = next_sequence st" by (simp add: table_of_def)
  have fail: "?Q r st" if "\<not> is_ok r" for r
    using that R by (auto simp: supersede_ends_def intro!: exI [of _ 0])
  have body: "ends (bindS (getS (\<lambda>st. (newly_dead victims st, sd_buffer_base (st_shared st)))) (\<lambda>(newly, buffer_base).
       supersede_newly rows newly buffer_base)) st ?Q" if "\<forall>rid\<in>set victims. rid < st_rows st"
    unfolding ends_get prod.case
    by (rule supersede_newly_table [OF R newly_dead_live(1) [OF ok that] newly_dead_distinct(1) newly_dead_live(2) [OF ok that] row room(1)])
      (use mark room(2) in simp_all)
  have range: "ends (thenS (refuse_out_of_range victims) (bindS (getS (\<lambda>st. (newly_dead victims st, sd_buffer_base (st_shared st))))
      (\<lambda>(newly, buffer_base). supersede_newly rows newly buffer_base))) st ?Q"
    by (rule refuse_out_of_range_ends) (use fail body in auto)
  have valid: "snd (forS validate_row rows st) = st"
  proof (induction rows)
    case (Cons row rows)
    then show ?case
      by (cases "fst (validate_row row st)")
        (simp_all add: thenS_def bindS_def validate_row_def split: outcome.split)
  qed simp
  obtain r where v: "forS validate_row rows st = (r, st)" using valid by (metis prod.collapse)
  have "ends (thenS (forS validate_row rows) (thenS (refuse_out_of_range victims)
      (bindS (getS (\<lambda>st. (newly_dead victims st, sd_buffer_base (st_shared st)))) (\<lambda>(newly, buffer_base).
       supersede_newly rows newly buffer_base)))) st ?Q"
    by (cases r) (use range fail v in \<open>auto simp: ends_then ends_def [of "forS _ _"]\<close>)
  then show ?thesis
    using fail by (auto simp: supersede_def ends_then ends_def [of refuse_read_only] refuse_read_only_def)
qed

end

end
