(* ===== verification/Ledger.thy ===== *)
theory Ledger
  imports Writer
begin

text \<open>
  The properties of the writer, on the file-system backend: whatever call of the file system
  fails, an append, a deletion or a supersession leaves the store well formed and its table
  one of those the operation passes through.
\<close>

lemma ends_run: "ends m s Q \<Longrightarrow> m s = (r, s') \<Longrightarrow> Q r s'"
  by (simp add: ends_def)

section \<open>A new store\<close>

lemma fresh_store_ok:
  assumes "with_segment_rows schema key n d = Ok st" "good d"
  shows "store_ok be objects good log_ok st" "sizes_ok st" "next_sequence st = 0" "st_rows st = 0"
    "table_of objects st = \<lparr>tb_latest = [], tb_retired = [], tb_mark = 0\<rparr>"
proof -
  obtain wb where wb: "wb_new schema key = Ok wb" and n: "1 \<le> n"
    and st: "st = \<lparr>st_read_only = False,
           st_slot_shared = \<lparr>sh_schema = schema, sh_ordering_key = key, sh_backend = False\<rparr>,
           st_schema = schema, st_ordering_key = key, st_segment_rows = n, st_rows = 0,
           st_delete_log_sequence = 0, st_generation = 0, st_sections = no_sections, st_backend = None,
           st_wal = None, st_wal_sync = SyncOff, st_last_wal_sync = 0,
           st_shared = \<lparr>sd_segments = [], sd_buffer = wb, sd_buffer_base = 0, sd_knowledge = None,
             sd_tombstones = [], sd_history = []\<rparr>,
           st_world = d\<rparr>"
    using assms(1) by (auto simp: with_segment_rows_def split: if_splits)
  have rows: "wb_ok schema key wb" "wb_rows wb = 0" using wb_new_ok [OF wb] by simp_all
  then show "store_ok be objects good log_ok st"
    using assms(2) by (simp add: store_ok_def st shared_ok_def Let_def contents_def total_rows_def knowledge_ok_def
        table_versions_def buffer_versions_def no_sections_def)
  show "table_of objects st = \<lparr>tb_latest = [], tb_retired = [], tb_mark = 0\<rparr>"
    using rows(2) by (simp add: table_of_def latest_versions_def contents_def buffer_versions_def next_sequence_def
        watermark_def st)
  show "sizes_ok st" "next_sequence st = 0" "st_rows st = 0" by (simp_all add: st sizes_ok_def next_sequence_def watermark_def)
qed

definition sample_schema :: schema where
  "sample_schema = \<lparr>s_fields = [field_new (ascii ''t'') I64 False]\<rparr>"

lemma sample_store: "\<exists>st. with_segment_rows sample_schema 0 4 (sample_fs f) = Ok st"
  by (simp add: with_segment_rows_def wb_new_def sample_schema_def field_new_def)

text \<open>A store in memory with one row.\<close>

lemma sample_row:
  assumes "with_segment_rows sample_schema 0 4 d = Ok st" "fs_good d"
  shows "\<exists>st'. store_append [RvI64 3] st = (Ok 0, st') \<and> sizes_ok st' \<and> st_rows st' = 1 \<and> next_sequence st' = 1 \<and>
    st_read_only st' = False \<and> st_backend st' = None \<and> sd_segments (st_shared st') = [] \<and> sd_history (st_shared st') = [] \<and>
    st_segment_rows st' = 4 \<and> wb_rows (sd_buffer (st_shared st')) = 1 \<and> sd_tombstones (st_shared st') = [] \<and>
    wb_schema (sd_buffer (st_shared st')) = sample_schema \<and> st_wal st' = None \<and>
    store_ok (fs_storage fb) fs_objects fs_good fs_log_ok st' \<and>
    table_of fs_objects st' = \<lparr>tb_latest = [\<lparr>vn_cells = [RvI64 3], vn_born = 0, vn_kill = None\<rparr>], tb_retired = [], tb_mark = 1\<rparr>"
proof -
  note F = fresh_store_ok [OF assms(1), of fs_good, OF assms(2)]
  obtain r st' where run: "store_append [RvI64 3] st = (r, st')" by fastforce
  have E: "r = Ok 0 \<and> sizes_ok st' \<and> st_rows st' = 1 \<and> next_sequence st' = 1 \<and> st_read_only st' = False \<and>
      st_backend st' = None \<and> sd_segments (st_shared st') = [] \<and> sd_history (st_shared st') = [] \<and>
      st_segment_rows st' = 4 \<and> wb_rows (sd_buffer (st_shared st')) = 1 \<and> sd_tombstones (st_shared st') = [] \<and>
      wb_schema (sd_buffer (st_shared st')) = sample_schema \<and> st_wal st' = None"
    using run assms(1)
    by (auto simp: with_segment_rows_def wb_new_def sample_schema_def field_new_def store_append_def thenS_def bindS_def
        refuse_read_only_def validate_row_def wb_validate_def wal_append_def in_shared_def append_row_def wb_append_def
        must_flush_def bump_rows_def whenS_def sizes_ok_def wb_len_def next_sequence_def watermark_def Let_def)
  have "append_ends (fs_storage fb) fs_objects fs_good fs_log_ok [RvI64 3] (table_of fs_objects st) (st_rows st) r st'"
    by (rule ends_run [OF fs.append_table [OF store_ok_represents [OF F(1)]] run]) (simp_all add: F)
  then show ?thesis
    using E F run by (auto simp: append_ends_def represents_def table_append_def add_version_def)
qed

section \<open>Properties\<close>

text \<open>
  C27: An append is atomic on the table.  Whatever fails while a row is logged, accepted and,
  when it fills the buffer, flushed, the store is left well formed, and its table either is
  the old one, and the append did not return success, or the old one with exactly one more
  live version, born at the watermark, whose row id is the number of rows before; no other
  version changes.
\<close>
theorem append_refines:
  assumes "store_ok (fs_storage fb) fs_objects fs_good fs_log_ok st" "\<forall>cell\<in>set row. cell_utf8 cell"
    and "unat (st_rows st) + 1 < 2 ^ 64" "unat (next_sequence st) + 1 < 2 ^ 64"
    and "store_append row st = (r, st')" "sizes_ok st'"
  shows "store_ok (fs_storage fb) fs_objects fs_good fs_log_ok st' \<and>
    (\<not> is_ok r \<and> table_of fs_objects st' = table_of fs_objects st \<or>
     (\<forall>rid. r = Ok rid \<longrightarrow> rid = st_rows st) \<and> table_of fs_objects st' = table_append row (table_of fs_objects st))"
  using ends_run [OF fs.append_table [OF store_ok_represents [OF assms(1)] assms(2-4)] assms(5)] assms(6)
  by (auto simp: append_ends_def represents_def)

theorem append_refines_witness:
  "\<exists>st r st'. with_segment_rows sample_schema 0 4 (sample_fs (\<lambda>_. None)) = Ok st \<and>
     store_append [RvI64 3] st = (r, st') \<and> r = Ok 0 \<and>
     table_of fs_objects st' = \<lparr>tb_latest = [\<lparr>vn_cells = [RvI64 3], vn_born = 0, vn_kill = None\<rparr>], tb_retired = [], tb_mark = 1\<rparr>"
proof -
  obtain st where st: "with_segment_rows sample_schema 0 4 (sample_fs (\<lambda>_. None)) = Ok st" using sample_store by blast
  note F = fresh_store_ok [OF st, of fs_good, OF sample_fs_good(1)]
  obtain st' where run: "store_append [RvI64 3] st = (Ok 0, st')" and sizes: "sizes_ok st'"
    using sample_row [OF st sample_fs_good(1)] by blast
  show ?thesis
    using append_refines [OF F(1) _ _ _ run sizes] F st run by (auto simp: table_append_def add_version_def)
qed

text \<open>
  C28: A deletion is atomic on the table.  Whatever fails, the table either is the old one, and
  an error was returned, or the old one in which exactly the named rows that were still live
  are killed, all at the old watermark, which they spend; the count returned is the number of
  rows killed.  Nothing is spent when no named row was live.
\<close>
theorem tombstone_refines:
  assumes "store_ok (fs_storage fb) fs_objects fs_good fs_log_ok st" "unat (next_sequence st) + 1 < 2 ^ 64"
    and "tombstone ids st = (r, st')" "sizes_ok st'"
  shows "store_ok (fs_storage fb) fs_objects fs_good fs_log_ok st' \<and>
    (\<not> is_ok r \<and> table_of fs_objects st' = table_of fs_objects st \<or>
     r = Ok (word_of_nat (card (live_among ids (table_of fs_objects st)))) \<and>
     table_of fs_objects st' = table_delete ids (table_of fs_objects st))"
  using ends_run [OF fs.tombstone_table [OF assms(1,2)] assms(3)] assms(4)
  by (auto simp: delete_ends_def represents_def)

theorem tombstone_refines_witness:
  "\<exists>st st'. table_of fs_objects st =
       \<lparr>tb_latest = [\<lparr>vn_cells = [RvI64 3], vn_born = 0, vn_kill = None\<rparr>], tb_retired = [], tb_mark = 1\<rparr> \<and>
     tombstone [0, 0] st = (Ok 1, st') \<and> table_of fs_objects st' =
       \<lparr>tb_latest = [\<lparr>vn_cells = [RvI64 3], vn_born = 0, vn_kill = Some 1\<rparr>], tb_retired = [], tb_mark = 2\<rparr>"
proof -
  obtain st0 where st0: "with_segment_rows sample_schema 0 4 (sample_fs (\<lambda>_. None)) = Ok st0" using sample_store by blast
  from sample_row [OF st0 sample_fs_good(1)] obtain st where
    st: "store_ok (fs_storage fb) fs_objects fs_good fs_log_ok st" "st_rows st = 1" "next_sequence st = 1"
      "st_read_only st = False" "st_backend st = None" "sd_segments (st_shared st) = []" "sd_history (st_shared st) = []"
      "wb_rows (sd_buffer (st_shared st)) = 1" "sd_tombstones (st_shared st) = []"
    and t: "table_of fs_objects st =
       \<lparr>tb_latest = [\<lparr>vn_cells = [RvI64 3], vn_born = 0, vn_kill = None\<rparr>], tb_retired = [], tb_mark = 1\<rparr>" by blast
  obtain r st' where run: "tombstone [0, 0] st = (r, st')" by fastforce
  have "newly_dead [0, 0] st = [0]" using st(9) by (simp add: newly_dead_def bt_get_def)
  then have "r = Ok 1 \<and> sizes_ok st'"
    using run st(2-8) by (auto simp: tombstone_def thenS_def bindS_def refuse_read_only_def refuse_out_of_range_def
        first_out_of_range_def tombstone_newly_def with_backend_def write_delete_log_def
        sizes_ok_def consume_sequence_def Let_def)
  then show ?thesis
    using tombstone_refines [OF st(1) _ run] st t run
    by (auto simp: table_delete_def live_among_def table_kill_def kill_versions_def)
qed

text \<open>
  C29: A supersession keeps its order.  Whatever fails, the table either is the old one with
  some of the replacements added, in order, all born at the old watermark and with no row
  killed, and success was not returned; or it has all the replacements and exactly the
  victims that were live are killed, at the same coordinate.  A reader never sees a victim
  killed without every one of its replacements.
\<close>
theorem supersede_refines:
  assumes "store_ok (fs_storage fb) fs_objects fs_good fs_log_ok st" "\<forall>row\<in>set rows. \<forall>cell\<in>set row. cell_utf8 cell"
    and "unat (st_rows st) + length rows < 2 ^ 64" "unat (next_sequence st) + 1 < 2 ^ 64"
    and "supersede rows victims st = (r, st')" "sizes_ok st'"
  shows "store_ok (fs_storage fb) fs_objects fs_good fs_log_ok st' \<and>
    (\<not> is_ok r \<and> (\<exists>k\<le>length rows. table_of fs_objects st' = table_add_rows (take k rows) (table_of fs_objects st)) \<or>
     (\<forall>n. r = Ok n \<longrightarrow> n = word_of_nat (card (live_among victims (table_of fs_objects st)))) \<and>
     table_of fs_objects st' = table_supersede rows victims (table_of fs_objects st))"
  using ends_run [OF fs.supersede_table [OF assms(1-4)] assms(5)] assms(6)
  by (auto simp: supersede_ends_def represents_def)

theorem supersede_refines_witness:
  "\<exists>st st'. table_of fs_objects st =
       \<lparr>tb_latest = [\<lparr>vn_cells = [RvI64 3], vn_born = 0, vn_kill = None\<rparr>], tb_retired = [], tb_mark = 1\<rparr> \<and>
     supersede [[RvI64 4]] [0] st = (Ok 1, st') \<and> table_of fs_objects st' =
       \<lparr>tb_latest = [\<lparr>vn_cells = [RvI64 3], vn_born = 0, vn_kill = Some 1\<rparr>,
                    \<lparr>vn_cells = [RvI64 4], vn_born = 1, vn_kill = None\<rparr>], tb_retired = [], tb_mark = 2\<rparr>"
proof -
  obtain st0 where st0: "with_segment_rows sample_schema 0 4 (sample_fs (\<lambda>_. None)) = Ok st0" using sample_store by blast
  from sample_row [OF st0 sample_fs_good(1)] obtain st1 where
    st1: "store_append [RvI64 3] st0 = (Ok 0, st1)"
      "store_ok (fs_storage fb) fs_objects fs_good fs_log_ok st1" "st_rows st1 = 1" "next_sequence st1 = 1"
    and t: "table_of fs_objects st1 =
       \<lparr>tb_latest = [\<lparr>vn_cells = [RvI64 3], vn_born = 0, vn_kill = None\<rparr>], tb_retired = [], tb_mark = 1\<rparr>" by blast
  obtain r st' where run: "supersede [[RvI64 4]] [0] st1 = (r, st')" by fastforce
  have [simp]: "bt_get [] k = None" for k by (simp add: bt_get_def)
  have "r = Ok 1 \<and> sizes_ok st'"
    using run st1(1) st0
    by (auto simp: with_segment_rows_def wb_new_def sample_schema_def field_new_def store_append_def thenS_def bindS_def
        refuse_read_only_def validate_row_def wb_validate_def wal_append_def in_shared_def append_row_def wb_append_def
        must_flush_def bump_rows_def whenS_def sizes_ok_def wb_len_def Let_def next_sequence_def watermark_def
        supersede_def refuse_out_of_range_def first_out_of_range_def newly_dead_def supersede_newly_def with_backend_def
        open_bracket_def supersede_row_def append_superseding_def settle_rows_def write_delete_log_def bury_def
        knowledge_or_virtual_def materialized_def)
  then show ?thesis
    using supersede_refines [OF st1(2) _ _ _ run] st1 t run
    by (auto simp: table_supersede_def live_among_def table_kill_def kill_versions_def table_add_rows_def add_version_def)
qed

end
