(* ===== verification/Reads.thy ===== *)
theory Reads
  imports Ledger
begin

text \<open>
  What a reader of the store gets.  A snapshot hands out, for every segment and for the
  buffer, a slot that stands for it and a live mask; its rows are exactly the live versions
  of the table, in row-id order, and its reads at a past coordinate exactly the versions
  visible there.  The reads agree whatever object the backend can read, and when it cannot,
  the read fails and says so.
\<close>

section \<open>The segments of a snapshot\<close>

text \<open>The buffer's rows as the last segment, when there are any.\<close>

definition buffered_segment :: "shared \<Rightarrow> segment list" where
  "buffered_segment sd =
     (if wb_is_empty (sd_buffer sd) then [] else (case buffer_segment sd of Ok s \<Rightarrow> [s] | _ \<Rightarrow> []))"

definition all_segments :: "(rstring \<Rightarrow> bytes option) \<Rightarrow> shared \<Rightarrow> segment list" where
  "all_segments objs sd = contents objs (sd_segments sd) @ buffered_segment sd"

definition live_rows :: "id_map \<Rightarrow> segment \<Rightarrow> bool list" where
  "live_rows stamps s = map (\<lambda>row. bt_get stamps (row_id s row) = None) [0..<rb_num_rows (sg_batch s)]"

definition handle_shows :: "read_object \<Rightarrow> id_map \<Rightarrow> segment_handle \<Rightarrow> segment \<Rightarrow> bool" where
  "handle_shows read stamps h s \<longleftrightarrow>
     slot_stands_for read (sh_slot h) s \<and> sl_meta (sh_slot h) = Some (meta_of s) \<and> sequenced s \<and>
     (\<forall>bm. sh_live h = Some bm \<longrightarrow> bitmap_ok bm) \<and>
     liveness \<lparr>sv_segment = s, sv_live = sh_live h\<rparr> = live_rows stamps s"

lemma live_mask_liveness:
  assumes "unat (sg_base_row_id s) + rb_num_rows (sg_batch s) < 2 ^ 64"
  shows "\<exists>live. live_mask stamps (sg_base_row_id s) (sg_base_row_id s + word_of_nat (rb_num_rows (sg_batch s))) =
      (Ok live :: ('e, _) outcome) \<and> (\<forall>bm. live = Some bm \<longrightarrow> bitmap_ok bm) \<and> liveness \<lparr>sv_segment = s, sv_live = live\<rparr> = live_rows stamps s"
proof -
  let ?b = "sg_base_row_id s" and ?n = "rb_num_rows (sg_batch s)"
  have stop: "unat (?b + word_of_nat ?n) = unat ?b + ?n" by (rule unat_add_nat [OF assms])
  then have le: "\<not> ?b + word_of_nat ?n < ?b" by (simp add: word_less_nat_alt)
  have len: "unat (?b + word_of_nat ?n - ?b) = ?n" using assms by (simp add: unat_of_nat)
  show ?thesis
  proof (cases "list_ex (\<lambda>(k, _). ?b \<le> k \<and> k < ?b + word_of_nat ?n) stamps")
    case True
    then show ?thesis using le len
      by (simp add: live_mask_def liveness_def live_rows_def row_id_def)
  next
    case False
    have "bt_get stamps (row_id s row) = None" if "row < ?n" for row
    proof (rule ccontr)
      assume "bt_get stamps (row_id s row) \<noteq> None"
      then obtain kill where "(row_id s row, kill) \<in> set stamps" using bt_get_mem by fastforce
      moreover have "unat (row_id s row) = unat ?b + row" using assms that unat_add_nat [of ?b row] by (simp add: row_id_def)
      ultimately show False using False that stop by (fastforce simp: list_ex_iff word_le_nat_alt word_less_nat_alt)
    qed
    then have "live_rows stamps s = replicate ?n True" by (intro nth_equalityI) (simp_all add: live_rows_def)
    then show ?thesis using False le by (simp add: live_mask_def liveness_def)
  qed
qed

lemma laid_out_all:
  assumes "shared_ok objs p g schema key rows sd"
  shows "laid_out 0 (all_segments objs sd)"
proof (cases "buffered_segment sd")
  case Nil
  then show ?thesis using assms by (simp add: all_segments_def shared_ok_def Let_def)
next
  case (Cons s ss)
  then have b: "buffer_segment sd = Ok s" "ss = []" by (auto simp: buffered_segment_def split: if_splits outcome.splits)
  note V = buffer_segment_versions [OF assms b(1)]
  have n: "laid_out 0 (contents objs (sd_segments sd))" "unat (sd_buffer_base sd) = total_rows (contents objs (sd_segments sd))"
    "unat rows = total_rows (contents objs (sd_segments sd)) + wb_rows (sd_buffer sd)"
    using assms by (simp_all add: shared_ok_def Let_def)
  have "unat rows < 2 ^ LENGTH(64)" by (rule unsigned_less)
  then show ?thesis
    using n V(3,4) by (simp add: all_segments_def Cons b(2) laid_out_append total_rows_def [symmetric] word_unat_eq_iff unat_of_nat)
qed

lemma latest_versions_all:
  assumes "shared_ok objs p g schema key rows sd" "wb_is_empty (sd_buffer sd) \<or> buffer_segment sd = Ok s"
  shows "latest_versions objs sd = concat (map (live_versions (sd_tombstones sd)) (all_segments objs sd))"
proof (cases "wb_is_empty (sd_buffer sd)")
  case True
  then show ?thesis
    by (simp add: latest_versions_def all_segments_def buffered_segment_def buffer_versions_empty wb_is_empty_def)
next
  case False
  then have b: "buffer_segment sd = Ok s" using assms(2) by simp
  from False b buffer_segment_versions(1) [OF assms(1) b] show ?thesis
    by (simp add: latest_versions_def all_segments_def buffered_segment_def)
qed

lemma traverseR_all2_Ok:
  assumes "list_all2 P xs ys" "\<And>x y. P x y \<Longrightarrow> \<exists>z. f x = (Ok z :: ('e, 'z) outcome) \<and> Q z y"
  shows "\<exists>zs. traverseR f xs = (Ok zs :: ('e, 'z list) outcome) \<and> list_all2 Q zs ys"
  using assms(1)
proof (induction rule: list_all2_induct)
  case (Cons x xs y ys)
  then show ?case using assms(2) by fastforce
qed simp

text \<open>The snapshot succeeds exactly when the buffer can be frozen, and shows every segment.\<close>

lemma snapshot_shows:
  assumes ok: "shared_ok objs p g schema key rows sd"
  shows "\<exists>hs. traverseR (snapshot_slot (sd_tombstones sd)) (sd_segments sd) = (Ok hs :: (storage_error, _) outcome) \<and>
    list_all2 (handle_shows (stored objs) (sd_tombstones sd)) hs (contents objs (sd_segments sd))"
proof -
  let ?segs = "contents objs (sd_segments sd)"
  have lay: "laid_out 0 ?segs" using ok by (simp add: shared_ok_def Let_def)
  have "list_all2 (\<lambda>sl s. segment_layout objs p g sl s \<and> s \<in> set ?segs) (sd_segments sd) ?segs"
    using shared_ok_contents(1) [OF ok] by (auto simp: list_all2_conv_all_nth)
  then show ?thesis
  proof (rule traverseR_all2_Ok)
    fix sl s assume a: "segment_layout objs p g sl s \<and> s \<in> set ?segs"
    then have fit: "unat (sg_base_row_id s) + rb_num_rows (sg_batch s) < 2 ^ 64" using laid_out_fits [OF lay] by blast
    from live_mask_liveness [OF this, of "sd_tombstones sd", where ?'e = storage_error] obtain live where
      live: "live_mask (sd_tombstones sd) (sg_base_row_id s) (sg_base_row_id s + word_of_nat (rb_num_rows (sg_batch s))) =
        (Ok live :: (storage_error, _) outcome)"
      "\<forall>bm. live = Some bm \<longrightarrow> bitmap_ok bm" "liveness \<lparr>sv_segment = s, sv_live = live\<rparr> = live_rows (sd_tombstones sd) s" by blast
    show "\<exists>h. snapshot_slot (sd_tombstones sd) sl = (Ok h :: (storage_error, _) outcome) \<and>
        handle_shows (stored objs) (sd_tombstones sd) h s"
      using a live by (simp add: snapshot_slot_def slot_meta_def segment_layout_def meta_of_def handle_shows_def)
  qed
qed

lemma snapshot_of_shows:
  assumes ok: "shared_ok objs p g schema key rows sd"
  shows "snapshot_of sd = Ok hs \<Longrightarrow> list_all2 (handle_shows (stored objs) (sd_tombstones sd)) hs (all_segments objs sd) \<and>
      latest_versions objs sd = concat (map (live_versions (sd_tombstones sd)) (all_segments objs sd))"
    "wb_is_empty (sd_buffer sd) \<or> buffer_segment sd = Ok s \<Longrightarrow> \<exists>hs. snapshot_of sd = Ok hs"
proof -
  obtain ls where ls: "traverseR (snapshot_slot (sd_tombstones sd)) (sd_segments sd) = (Ok ls :: (storage_error, _) outcome)"
    "list_all2 (handle_shows (stored objs) (sd_tombstones sd)) ls (contents objs (sd_segments sd))"
    using snapshot_shows [OF ok] by blast
  have last: "\<exists>live. live_mask (sd_tombstones sd) (sg_base_row_id s)
        (sg_base_row_id s + word_of_nat (rb_num_rows (sg_batch s))) = (Ok live :: (storage_error, _) outcome) \<and>
      handle_shows (stored objs) (sd_tombstones sd) (handle_resident s live) s"
    if s: "buffer_segment sd = Ok s" "\<not> wb_is_empty (sd_buffer sd)" for s
  proof -
    have "s \<in> set (all_segments objs sd)" using s by (simp add: all_segments_def buffered_segment_def)
    from laid_out_fits [OF laid_out_all [OF ok] this] live_mask_liveness [of s "sd_tombstones sd", where ?'e = storage_error]
    obtain live where
      live: "live_mask (sd_tombstones sd) (sg_base_row_id s) (sg_base_row_id s + word_of_nat (rb_num_rows (sg_batch s))) =
        (Ok live :: (storage_error, _) outcome)"
      "\<forall>bm. live = Some bm \<longrightarrow> bitmap_ok bm" "liveness \<lparr>sv_segment = s, sv_live = live\<rparr> = live_rows (sd_tombstones sd) s" by blast
    then show ?thesis
      using buffer_segment_versions(2) [OF ok s(1)]
      by (intro exI [of _ live]) (simp add: handle_shows_def handle_resident_stands, simp add: handle_resident_def slot_resident_def)
  qed
  show "list_all2 (handle_shows (stored objs) (sd_tombstones sd)) hs (all_segments objs sd) \<and>
      latest_versions objs sd = concat (map (live_versions (sd_tombstones sd)) (all_segments objs sd))"
    if run: "snapshot_of sd = Ok hs"
  proof (cases "wb_is_empty (sd_buffer sd)")
    case True
    then show ?thesis
      using run ls latest_versions_all [OF ok] by (simp add: snapshot_of_def all_segments_def buffered_segment_def)
  next
    case False
    then obtain s live where s: "buffer_segment sd = Ok s" and live: "live_mask (sd_tombstones sd) (sg_base_row_id s)
        (sg_base_row_id s + word_of_nat (rb_num_rows (sg_batch s))) = (Ok live :: (storage_error, _) outcome)"
      and hs: "hs = ls @ [handle_resident s live]"
      using run ls(1) by (auto simp: snapshot_of_def)
    then have "list_all2 (handle_shows (stored objs) (sd_tombstones sd)) hs (contents objs (sd_segments sd) @ [s])"
      unfolding hs using last [OF s False] by (intro list_all2_appendI [OF ls(2)]) auto
    then show ?thesis
      using s False latest_versions_all [OF ok, of s] by (simp add: all_segments_def buffered_segment_def)
  qed
  show "\<exists>hs. snapshot_of sd = Ok hs" if "wb_is_empty (sd_buffer sd) \<or> buffer_segment sd = Ok s"
  proof (cases "wb_is_empty (sd_buffer sd)")
    case False
    then show ?thesis using that last [of s] ls(1) by (auto simp: snapshot_of_def)
  qed (simp add: snapshot_of_def ls(1))
qed

section \<open>Reading through a backend that may fail\<close>

text \<open>What one reader can read, the other reads the same.\<close>

definition reads_agree :: "read_object \<Rightarrow> read_object \<Rightarrow> segment_slot \<Rightarrow> bool" where
  "reads_agree read read' sl \<longleftrightarrow> (\<forall>name b. sl_name sl = Some name \<longrightarrow> read name = Ok b \<longrightarrow> read' name = Ok b)"

lemma slot_segment_agree: "reads_agree read read' sl \<Longrightarrow> slot_segment read sl = Ok s \<Longrightarrow> slot_segment read' sl = Ok s"
  by (auto simp: reads_agree_def slot_segment_def slot_fault_def split: option.splits if_splits)

lemma handle_view_agree:
  "reads_agree read read' (sh_slot h) \<Longrightarrow> handle_view read h = Ok v \<Longrightarrow> handle_view read' h = Ok v"
  using slot_segment_agree by (auto simp: handle_view_def)

lemma traverseR_mono:
  "(\<And>x y. x \<in> set xs \<Longrightarrow> f x = Ok y \<Longrightarrow> g x = Ok y) \<Longrightarrow> traverseR f xs = Ok ys \<Longrightarrow> traverseR g xs = Ok ys"
  by (induction xs arbitrary: ys) auto

lemma as_of_agree:
  assumes "\<And>sl. sl \<in> set (ks_history ks) \<union> sh_slot ` set (ks_latest ks) \<Longrightarrow> reads_agree read read' sl"
    and run: "as_of read ks coord = Ok hs"
  shows "as_of read' ks coord = Ok hs"
proof -
  obtain ls history where
    ls: "traverseR (\<lambda>h. bindR (handle_view read h) (\<lambda>v. as_of_live (ks_stamps ks) coord (sv_segment v))) (ks_latest ks) = Ok ls"
    and history: "traverseR (\<lambda>sl. bindR (slot_segment read sl) (as_of_history coord)) (ks_history ks) = Ok history"
    and hs: "hs = ls @ history"
    using run by (auto simp: as_of_def)
  have "traverseR (\<lambda>h. bindR (handle_view read' h) (\<lambda>v. as_of_live (ks_stamps ks) coord (sv_segment v))) (ks_latest ks) = Ok ls"
    by (rule traverseR_mono [OF _ ls]) (use assms(1) handle_view_agree in fastforce)
  moreover have "traverseR (\<lambda>sl. bindR (slot_segment read' sl) (as_of_history coord)) (ks_history ks) = Ok history"
    by (rule traverseR_mono [OF _ history]) (use assms(1) slot_segment_agree in fastforce)
  ultimately show ?thesis by (simp add: as_of_def hs)
qed

lemma touched_kill_agree:
  assumes "\<And>h. h \<in> set latest \<Longrightarrow> reads_agree read read' (sh_slot h)" "touched_kill read latest since kk = Ok ts"
  shows "touched_kill read' latest since kk = Ok ts"
proof -
  have home: "find_home latest rid = (Ok (Some h) :: (storage_error, _) outcome) \<Longrightarrow> h \<in> set latest" for rid h
    by (induction latest) (auto split: if_splits)
  obtain rid kill where kk: "kk = (rid, kill)" by fastforce
  show ?thesis
  proof (cases "kill \<noteq> 0 \<and> kill < since")
    case False
    then obtain found where f: "find_home latest rid = (Ok found :: (storage_error, _) outcome)"
      using assms(2) by (auto simp: touched_kill_def kk)
    show ?thesis
    proof (cases found)
      case (Some h)
      then obtain v where v: "handle_view read h = Ok v" using assms(2) False f by (auto simp: touched_kill_def kk)
      have "h \<in> set latest" using home f Some by simp
      then have "handle_view read' h = Ok v" using handle_view_agree [OF assms(1) v] by simp
      then show ?thesis using assms(2) False f Some v by (auto simp: touched_kill_def kk)
    qed (use assms(2) False f in \<open>simp add: touched_kill_def kk\<close>)
  qed (use assms(2) in \<open>simp add: touched_kill_def kk\<close>)
qed

lemma touched_walk_agree:
  assumes agree: "\<And>sl. sl \<in> set (ks_history ks) \<union> sh_slot ` set (ks_latest ks) \<Longrightarrow> reads_agree read read' sl"
    and run: "touched_walk read ks since = Ok ts"
  shows "touched_walk read' ks since = Ok ts"
proof -
  obtain births kills history where
    b: "traverseR (touched_births read since) (ks_latest ks) = Ok births"
    and k: "traverseR (touched_kill read (ks_latest ks) since) (ks_stamps ks) = Ok kills"
    and h: "traverseR (touched_history read since) (ks_history ks) = Ok history"
    and ts: "ts = concat births @ concat kills @ concat history"
    using run by (auto simp: touched_walk_def)
  have "traverseR (touched_births read' since) (ks_latest ks) = Ok births"
  proof (rule traverseR_mono [OF _ b])
    fix h y assume h: "h \<in> set (ks_latest ks)" "touched_births read since h = Ok y"
    have "reads_agree read read' (sh_slot h)" by (rule agree) (use h(1) in simp)
    then show "touched_births read' since h = Ok y"
      using h(2) handle_view_agree by (fastforce simp: touched_births_def split: if_splits)
  qed
  moreover have "traverseR (touched_kill read' (ks_latest ks) since) (ks_stamps ks) = Ok kills"
    by (rule traverseR_mono [OF touched_kill_agree k]) (use agree in auto)
  moreover have "traverseR (touched_history read' since) (ks_history ks) = Ok history"
  proof (rule traverseR_mono [OF _ h])
    fix sl y assume sl: "sl \<in> set (ks_history ks)" "touched_history read since sl = Ok y"
    have "reads_agree read read' sl" by (rule agree) (use sl(1) in simp)
    then show "touched_history read' since sl = Ok y"
      using sl(2) slot_segment_agree by (fastforce simp: touched_history_def)
  qed
  ultimately show ?thesis by (simp add: touched_walk_def ts)
qed

text \<open>The handles a past read makes hold their segment.\<close>

lemma as_of_resident:
  assumes "as_of read ks coord = Ok hs" "h \<in> set hs"
  shows "\<exists>s live. h = handle_resident s live"
proof -
  obtain ls history where
    ls: "traverseR (\<lambda>h. bindR (handle_view read h) (\<lambda>v. as_of_live (ks_stamps ks) coord (sv_segment v))) (ks_latest ks) = Ok ls"
    and history: "traverseR (\<lambda>sl. bindR (slot_segment read sl) (as_of_history coord)) (ks_history ks) = Ok history"
    and hs: "hs = ls @ history"
    using assms(1) by (auto simp: as_of_def)
  from assms(2) hs consider i where "i < length ls" "h = ls ! i" | i where "i < length history" "h = history ! i"
    by (auto simp: in_set_conv_nth)
  then show ?thesis
  proof cases
    case 1
    then have "bindR (handle_view read (ks_latest ks ! i)) (\<lambda>v. as_of_live (ks_stamps ks) coord (sv_segment v)) = Ok h"
      using traverseR_nth [OF ls] by simp
    then show ?thesis by (auto simp: as_of_live_def)
  next
    case 2
    then have "bindR (slot_segment read (ks_history ks ! i)) (as_of_history coord) = Ok h"
      using traverseR_nth [OF history] by simp
    then show ?thesis by (auto simp: as_of_history_def)
  qed
qed

lemma seen_rows_resident: "seen_rows read (handle_resident s live) = seen_rows read' (handle_resident s live)"
  by (simp add: seen_resident)

section \<open>What a store's readers get\<close>

lemma view_rows_live:
  assumes "handle_shows read stamps h s" "handle_view read h = Ok v"
  shows "view_rows v = map vn_cells (filter (\<lambda>v. vn_kill v = None) (live_versions stamps s))"
proof -
  have h: "slot_stands_for read (sh_slot h) s" and live: "liveness \<lparr>sv_segment = s, sv_live = sh_live h\<rparr> = live_rows stamps s"
    using assms(1) by (simp_all add: handle_shows_def)
  have "v = \<lparr>sv_segment = s, sv_live = sh_live h\<rparr>" using handle_view_stands [OF h] assms(2) by simp
  with view_rows_mask [OF live [unfolded live_rows_def]] show ?thesis
    by (simp add: live_versions_def filter_versions)
qed

lemma snapshot_rows:
  assumes "list_all2 (handle_shows read stamps) hs ss" "traverseR (handle_view read) hs = Ok vs"
  shows "concat (map view_rows vs) =
    map vn_cells (filter (\<lambda>v. vn_kill v = None) (concat (map (live_versions stamps) ss)))"
  using assms
proof (induction arbitrary: vs rule: list_all2_induct)
  case (Cons h hs s ss)
  then show ?case using view_rows_live [of read stamps h s] by auto
qed simp

lemma knowledge_snapshot_reads:
  assumes ok: "shared_ok objs p g schema key rows sd" and run: "knowledge_snapshot_of sd = Ok ks"
  shows "snapshot_reads (stored objs) ks (all_segments objs sd) (contents objs (sd_history sd))"
    "ks_stamps ks = sd_tombstones sd" "ks_history ks = sd_history sd" "snapshot_of sd = Ok (ks_latest ks)"
proof -
  obtain hs where hs: "snapshot_of sd = Ok hs" "ks = \<lparr>ks_latest = hs, ks_history = sd_history sd, ks_stamps = sd_tombstones sd\<rparr>"
    using run by (auto simp: knowledge_snapshot_of_def)
  then show "ks_stamps ks = sd_tombstones sd" "ks_history ks = sd_history sd" "snapshot_of sd = Ok (ks_latest ks)" by simp_all
  have "list_all2 (handle_shows (stored objs) (sd_tombstones sd)) hs (all_segments objs sd)"
    using snapshot_of_shows(1) [OF ok hs(1)] by simp
  then have "list_all2 (\<lambda>h s. slot_stands_for (stored objs) (sh_slot h) s \<and> sl_meta (sh_slot h) = Some (meta_of s) \<and> sequenced s)
      hs (all_segments objs sd)"
    by (rule list_all2_mono) (simp add: handle_shows_def)
  moreover have "list_all2 (\<lambda>sl s. slot_stands_for (stored objs) sl s \<and> superseded_ok s) (sd_history sd) (contents objs (sd_history sd))"
    using shared_ok_contents(2,3) [OF ok] by (simp add: list_all2_conv_all_nth history_layout_def)
  ultimately show "snapshot_reads (stored objs) ks (all_segments objs sd) (contents objs (sd_history sd))"
    using hs(2) by (simp add: snapshot_reads_def)
qed

lemma as_of_versions:
  assumes ok: "shared_ok objs p g schema key rows sd" and run: "knowledge_snapshot_of sd = Ok ks"
    and read: "as_of (stored objs) ks coord = Ok hs"
  shows "concat (map (seen_rows read) hs) = map vn_cells (filter (visible coord) (table_versions objs sd))"
proof -
  note K = knowledge_snapshot_reads [OF ok run]
  have "versions (ks_stamps ks) (all_segments objs sd) (contents objs (sd_history sd)) = table_versions objs sd"
    using snapshot_of_shows(1) [OF ok K(4)] by (simp add: versions_def table_versions_split K(2))
  moreover obtain hs' where "as_of (stored objs) ks coord = Ok hs'"
    "concat (map (seen_rows (stored objs)) hs') = map vn_cells (filter (visible coord)
      (versions (ks_stamps ks) (all_segments objs sd) (contents objs (sd_history sd))))"
    using as_of_refines_versions [OF K(1)] by blast
  moreover have "map (seen_rows read) hs = map (seen_rows (stored objs)) hs"
    using as_of_resident [OF read] seen_rows_resident by (intro map_cong) (auto, metis)
  ultimately show ?thesis using read by (metis outcome.inject(1))
qed

lemma snapshot_slots:
  assumes "snapshot_of sd = Ok hs" "h \<in> set hs"
  shows "sh_slot h \<in> set (sd_segments sd) \<or> sl_name (sh_slot h) = None"
proof -
  obtain ls where ls: "traverseR (snapshot_slot (sd_tombstones sd)) (sd_segments sd) = (Ok ls :: (storage_error, _) outcome)"
    using assms(1) by (auto simp: snapshot_of_def)
  have "sh_slot h \<in> set (sd_segments sd)" if h: "h \<in> set ls"
  proof -
    obtain i where i: "i < length ls" "h = ls ! i" using h by (auto simp: in_set_conv_nth)
    then have "snapshot_slot (sd_tombstones sd) (sd_segments sd ! i) = (Ok h :: (storage_error, _) outcome)"
      "i < length (sd_segments sd)"
      using traverseR_nth [OF ls] traverseR_length [OF ls] by simp_all
    then show ?thesis by (auto simp: snapshot_slot_def)
  qed
  moreover have "sl_name (sh_slot (handle_resident s live)) = None" for s live
    by (simp add: handle_resident_def slot_resident_def)
  ultimately show ?thesis
    using assms ls by (auto simp: snapshot_of_def split: if_splits)
qed

context storage_backend
begin

lemma st_read_agrees:
  assumes "store_ok be objects good log_ok st" "sl_name sl = None \<or> sl \<in> slots_of st"
  shows "reads_agree (st_read st) (stored (objects (st_world st))) sl"
proof (cases "sl_name sl")
  case (Some name)
  then have "name \<in> slot_names (st_shared st)" using assms(2) by (auto simp: slots_of_def slot_names_def)
  then have "public_name name" using slot_names_kinds [OF store_ok_shared [OF assms(1)]] names_public by metis
  moreover have "good (st_world st)" "st_backend st \<in> {None, Some be}" using assms(1) by (simp_all add: store_ok_def)
  ultimately show ?thesis
    using read [of "st_world st" name] Some by (auto simp: reads_agree_def st_read_def stored_def)
qed (simp add: reads_agree_def)

lemma store_snapshot_rows:
  assumes ok: "store_ok be objects good log_ok st" and run: "store_snapshot st = Ok hs"
    and views: "traverseR (handle_view (st_read st)) hs = Ok vs"
  shows "concat (map view_rows vs) = map vn_cells (filter (\<lambda>v. vn_kill v = None) (tb_latest (table_of objects st)))"
proof -
  have snap: "snapshot_of (st_shared st) = Ok hs" using run by (simp add: store_snapshot_def)
  note S = snapshot_of_shows(1) [OF store_ok_shared [OF ok] snap]
  have "traverseR (handle_view (stored (objects (st_world st)))) hs = Ok vs"
  proof (rule traverseR_mono [OF _ views])
    fix h v assume "h \<in> set hs" "handle_view (st_read st) h = Ok v"
    then show "handle_view (stored (objects (st_world st))) h = Ok v"
      using snapshot_slots [OF snap, of h] by (intro handle_view_agree [OF st_read_agrees [OF ok]]) (auto simp: slots_of_def)
  qed
  from snapshot_rows [OF conjunct1 [OF S] this] S show ?thesis by (simp add: table_of_def)
qed

lemma store_as_of_rows:
  assumes ok: "store_ok be objects good log_ok st" and run: "store_knowledge_snapshot st = Ok ks"
    and read: "as_of (st_read st) ks coord = Ok hs"
  shows "concat (map (seen_rows (st_read st)) hs) =
    map vn_cells (filter (visible coord) (tb_latest (table_of objects st) @ tb_retired (table_of objects st)))"
proof -
  have snap: "knowledge_snapshot_of (st_shared st) = Ok ks" using run by (simp add: store_knowledge_snapshot_def)
  note K = knowledge_snapshot_reads [OF store_ok_shared [OF ok] snap]
  have "as_of (stored (objects (st_world st))) ks coord = Ok hs"
    by (rule as_of_agree [OF st_read_agrees [OF ok] read])
      (use snapshot_slots [OF K(4)] in \<open>fastforce simp: slots_of_def K(3)\<close>)
  from as_of_versions [OF store_ok_shared [OF ok] snap this] show ?thesis
    by (simp add: table_of_def table_versions_split)
qed

end

section \<open>What a refresh must look at\<close>

lemma births_fit_timely:
  assumes "sequenced s" "unat (sg_base_row_id s) + rb_num_rows (sg_batch s) < 2 ^ 64"
    and "\<And>row. row < rb_num_rows (sg_batch s) \<Longrightarrow> birth s row < mark"
  shows "births_fit s"
proof (cases "sg_sequence s")
  case (Contiguous base)
  have "unat base + rb_num_rows (sg_batch s) < 2 ^ 64"
  proof (rule ccontr)
    assume wrap: "\<not> unat base + rb_num_rows (sg_batch s) < 2 ^ 64"
    have "unat base < 2 ^ LENGTH(64)" by (rule unsigned_less)
    then have base: "unat base < 2 ^ 64" by simp
    let ?row = "2 ^ 64 - 1 - unat base"
    have row: "?row < rb_num_rows (sg_batch s)" using wrap base by linarith
    have "unat (base + word_of_nat ?row) = unat base + ?row" using base by (intro unat_add_nat) linarith
    then have "unat (birth s ?row) = 2 ^ 64 - 1" using base Contiguous by (simp add: birth_def)
    moreover have "unat mark < 2 ^ LENGTH(64)" by (rule unsigned_less)
    ultimately show False using assms(3) [OF row] by (simp add: word_less_nat_alt)
  qed
  then show ?thesis by (simp add: births_fit_def Contiguous)
next
  case (Explicit births)
  have "unat b + 1 < 2 ^ 64" if b: "b \<in> set births" for b
  proof -
    obtain row where "row < rb_num_rows (sg_batch s)" "b = birth s row"
      using b assms(1) Explicit by (auto simp: in_set_conv_nth sequenced_def birth_def)
    then have "unat b < unat mark" using assms(3) by (simp add: word_less_nat_alt)
    moreover have "unat mark < 2 ^ LENGTH(64)" by (rule unsigned_less)
    ultimately show ?thesis by simp
  qed
  then show ?thesis by (simp add: births_fit_def Explicit)
qed (use assms(2) in \<open>simp add: births_fit_def\<close>)

lemma all_segments_births:
  assumes ok: "shared_ok objs p g schema key rows sd" and snap: "snapshot_of sd = Ok hs" and s: "s \<in> set (all_segments objs sd)"
  shows "births_fit s"
proof (rule births_fit_timely)
  note S = snapshot_of_shows(1) [OF ok snap]
  show "sequenced s" using S s list_all2_member [of "\<lambda>s h. handle_shows (stored objs) (sd_tombstones sd) h s" "all_segments objs sd" hs s]
    by (auto simp: handle_shows_def list_all2_conv_all_nth)
  show "unat (sg_base_row_id s) + rb_num_rows (sg_batch s) < 2 ^ 64" by (rule laid_out_fits [OF laid_out_all [OF ok] s])
  fix row assume row: "row < rb_num_rows (sg_batch s)"
  let ?v = "\<lparr>vn_cells = cells_of s ! row, vn_born = birth s row, vn_kill = bt_get (sd_tombstones sd) (row_id s row)\<rparr>"
  have "?v \<in> set (live_versions (sd_tombstones sd) s)" using row by (simp add: live_versions_def)
  then have "?v \<in> set (latest_versions objs sd)" using S s by auto
  then have "timely (watermark sd rows) ?v" using shared_ok_timely [OF ok] by (simp add: table_versions_split)
  then show "birth s row < watermark sd rows" by (simp add: timely_def)
qed

text \<open>The version at a place of a segment.\<close>

definition live_version :: "id_map \<Rightarrow> segment \<Rightarrow> nat \<Rightarrow> version" where
  "live_version stamps s row =
     \<lparr>vn_cells = cells_of s ! row, vn_born = birth s row, vn_kill = bt_get stamps (row_id s row)\<rparr>"

definition retired_version :: "segment \<Rightarrow> nat \<Rightarrow> version" where
  "retired_version s row = \<lparr>vn_cells = cells_of s ! row, vn_born = birth s row, vn_kill = Some (history_kill s row)\<rparr>"

lemma changed_visibility:
  assumes "visible c v \<noteq> visible c' v" "unat since \<le> unat c + 1" "c \<le> c'"
  shows "since \<le> vn_born v \<or> (\<exists>kill. vn_kill v = Some kill \<and> since \<le> kill)"
  using assms by (auto simp: visible_def word_le_nat_alt word_less_nat_alt split: option.splits)

lemma touched_covers:
  assumes ok: "shared_ok objs p g schema key rows sd" and snap: "knowledge_snapshot_of sd = Ok ks"
    and c: "unat since \<le> unat c + 1" "c \<le> c'"
  shows "\<exists>ts. touched_walk (stored objs) ks since = Ok ts \<and>
    (\<forall>s\<in>set (all_segments objs sd). \<forall>row<rb_num_rows (sg_batch s).
       visible c (live_version (sd_tombstones sd) s row) \<noteq> visible c' (live_version (sd_tombstones sd) s row) \<longrightarrow> (s, row) \<in> set ts) \<and>
    (\<forall>s\<in>set (contents objs (sd_history sd)). \<forall>row<rb_num_rows (sg_batch s).
       visible c (retired_version s row) \<noteq> visible c' (retired_version s row) \<longrightarrow> (s, row) \<in> set ts)"
proof -
  note K = knowledge_snapshot_reads [OF ok snap]
  have "\<forall>s\<in>set (all_segments objs sd). births_fit s" using all_segments_births [OF ok K(4)] by blast
  then obtain ts where
    ts: "touched_walk (stored objs) ks since = Ok ts"
    and live: "\<And>s row kill. s \<in> set (all_segments objs sd) \<Longrightarrow> row < rb_num_rows (sg_batch s) \<Longrightarrow>
       since \<le> birth s row \<or> (bt_get (ks_stamps ks) (row_id s row) = Some kill \<and> (kill = 0 \<or> since \<le> kill)) \<Longrightarrow> (s, row) \<in> set ts"
    and retired: "\<And>s row. s \<in> set (contents objs (sd_history sd)) \<Longrightarrow> row < rb_num_rows (sg_batch s) \<Longrightarrow>
       history_kill s row = 0 \<or> since \<le> history_kill s row \<or> since \<le> birth s row \<Longrightarrow> (s, row) \<in> set ts"
    by (rule touched_walk_total [OF K(1) laid_out_all [OF ok], of since]) (rule that)
  have "(s, row) \<in> set ts" if "s \<in> set (all_segments objs sd)" "row < rb_num_rows (sg_batch s)"
    "visible c (live_version (sd_tombstones sd) s row) \<noteq> visible c' (live_version (sd_tombstones sd) s row)" for s row
    using changed_visibility [OF that(3) c] live [OF that(1,2)] by (auto simp: live_version_def K(2))
  moreover have "(s, row) \<in> set ts" if "s \<in> set (contents objs (sd_history sd))" "row < rb_num_rows (sg_batch s)"
    "visible c (retired_version s row) \<noteq> visible c' (retired_version s row)" for s row
    using changed_visibility [OF that(3) c] retired [OF that(1,2)] by (auto simp: retired_version_def)
  ultimately show ?thesis using ts by blast
qed

context storage_backend
begin

lemma store_touched:
  assumes ok: "store_ok be objects good log_ok st" and run: "store_knowledge_snapshot st = Ok ks"
    and walk: "touched_walk (st_read st) ks since = Ok ts" and c: "unat since \<le> unat c + 1" "c \<le> c'"
  shows "(\<forall>s\<in>set (all_segments (objects (st_world st)) (st_shared st)). \<forall>row<rb_num_rows (sg_batch s).
       (s, row) \<notin> set ts \<longrightarrow> visible c (live_version (sd_tombstones (st_shared st)) s row) =
         visible c' (live_version (sd_tombstones (st_shared st)) s row)) \<and>
    (\<forall>s\<in>set (contents (objects (st_world st)) (sd_history (st_shared st))). \<forall>row<rb_num_rows (sg_batch s).
       (s, row) \<notin> set ts \<longrightarrow> visible c (retired_version s row) = visible c' (retired_version s row))"
proof -
  have snap: "knowledge_snapshot_of (st_shared st) = Ok ks" using run by (simp add: store_knowledge_snapshot_def)
  note K = knowledge_snapshot_reads [OF store_ok_shared [OF ok] snap]
  have agree: "reads_agree (st_read st) (stored (objects (st_world st))) sl"
    if "sl \<in> set (ks_history ks) \<union> sh_slot ` set (ks_latest ks)" for sl
    by (rule st_read_agrees [OF ok]) (use that snapshot_slots [OF K(4)] in \<open>fastforce simp: slots_of_def K(3)\<close>)
  have "touched_walk (stored (objects (st_world st))) ks since = Ok ts" by (rule touched_walk_agree [OF agree walk])
  then show ?thesis using touched_covers [OF store_ok_shared [OF ok] snap c] by auto
qed

end

section \<open>Properties\<close>

text \<open>A store in memory with one buffered row, as its readers find it.\<close>

definition sample_shared :: shared where
  "sample_shared = \<lparr>sd_segments = [],
     sd_buffer = \<lparr>wb_schema = sample_schema, wb_ordering_key = 0, wb_builders = [BI64 [3] [False]], wb_rows = 1,
       wb_ordered = True, wb_last = Some 3\<rparr>,
     sd_buffer_base = 0, sd_knowledge = None, sd_tombstones = [], sd_history = []\<rparr>"

definition no_reads :: read_object where
  "no_reads name = Err (NotFound name)"

lemma sample_reads:
  assumes "with_segment_rows sample_schema 0 4 d = Ok st0" "store_append [RvI64 3] st0 = (Ok 0, st)"
  shows "st_shared st = sample_shared" "st_read st = no_reads"
  using assms
  by (auto simp: with_segment_rows_def wb_new_def sample_schema_def field_new_def store_append_def thenS_def bindS_def
      refuse_read_only_def validate_row_def wb_validate_def wal_append_def in_shared_def append_row_def wb_append_def
      must_flush_def bump_rows_def whenS_def wb_len_def st_read_def no_reads_def sample_shared_def Let_def fun_eq_iff)

lemma is_ok_bind: "is_ok (bindR m f) \<longleftrightarrow> (\<exists>a b. m = Ok a \<and> f a = Ok b)"
  by (cases m; cases "f (case m of Ok a \<Rightarrow> a)") auto

lemma sample_reads_ok:
  "is_ok (bindR (snapshot_of sample_shared) (traverseR (handle_view no_reads)))"
  "is_ok (bindR (knowledge_snapshot_of sample_shared) (\<lambda>ks. as_of no_reads ks 0))"
  "\<exists>ks. knowledge_snapshot_of sample_shared = Ok ks \<and> touched_walk no_reads ks 1 = Ok []"
  "\<exists>s. buffered_segment sample_shared = [s] \<and> rb_num_rows (sg_batch s) = 1"
proof -
  show "is_ok (bindR (snapshot_of sample_shared) (traverseR (handle_view no_reads)))"
    "is_ok (bindR (knowledge_snapshot_of sample_shared) (\<lambda>ks. as_of no_reads ks 0))"
    by code_simp+
  have "bindR (knowledge_snapshot_of sample_shared) (\<lambda>ks. mapR length (touched_walk no_reads ks 1)) = Ok 0"
    by code_simp
  then show "\<exists>ks. knowledge_snapshot_of sample_shared = Ok ks \<and> touched_walk no_reads ks 1 = Ok []" by auto
  have "map (\<lambda>s. rb_num_rows (sg_batch s)) (buffered_segment sample_shared) = [1]" by code_simp
  then show "\<exists>s. buffered_segment sample_shared = [s] \<and> rb_num_rows (sg_batch s) = 1" by auto
qed

text \<open>
  C30: A snapshot shows the live rows.  Reading every handle of a snapshot through a backend
  whose reads may fail either fails or yields, in row-id order, exactly the cells of the
  table's versions that nothing has killed: no dead row, no missing row, no torn segment.
\<close>
theorem snapshot_latest:
  assumes "store_ok (fs_storage fb) fs_objects fs_good fs_log_ok st"
    and "store_snapshot st = Ok hs" "traverseR (handle_view (st_read st)) hs = Ok vs"
  shows "concat (map view_rows vs) =
    map vn_cells (filter (\<lambda>v. vn_kill v = None) (tb_latest (table_of fs_objects st)))"
  by (rule fs.store_snapshot_rows [OF assms])

theorem snapshot_latest_witness:
  "\<exists>(st :: fs store) hs vs. store_snapshot st = Ok hs \<and> traverseR (handle_view (st_read st)) hs = Ok vs \<and>
     concat (map view_rows vs) = [[RvI64 3]]"
proof -
  obtain st0 where st0: "with_segment_rows sample_schema 0 4 (sample_fs (\<lambda>_. None)) = Ok st0" using sample_store by blast
  from sample_row [OF st0 sample_fs_good(1)] obtain st where
    run: "store_append [RvI64 3] st0 = (Ok 0, st)" and ok: "store_ok (fs_storage fb) fs_objects fs_good fs_log_ok st"
    and t: "table_of fs_objects st =
       \<lparr>tb_latest = [\<lparr>vn_cells = [RvI64 3], vn_born = 0, vn_kill = None\<rparr>], tb_retired = [], tb_mark = 1\<rparr>" by blast
  note S = sample_reads [OF st0 run]
  obtain hs vs where hs: "store_snapshot st = Ok hs" "traverseR (handle_view (st_read st)) hs = Ok vs"
    using sample_reads_ok(1) by (auto simp: store_snapshot_def S is_ok_bind)
  moreover from this have "concat (map view_rows vs) = [[RvI64 3]]" using snapshot_latest [OF ok, of hs vs] by (simp add: t)
  ultimately show ?thesis by blast
qed

text \<open>
  C33: A read at a past coordinate is exact.  When it succeeds it yields, of all the versions
  the table still holds, live, dead and retired by compaction, exactly the cells of those born
  at or before the coordinate and not killed by it.
\<close>
theorem as_of_exact:
  assumes "store_ok (fs_storage fb) fs_objects fs_good fs_log_ok st"
    and "store_knowledge_snapshot st = Ok ks" "as_of (st_read st) ks coord = Ok hs"
  shows "concat (map (seen_rows (st_read st)) hs) =
    map vn_cells (filter (visible coord) (tb_latest (table_of fs_objects st) @ tb_retired (table_of fs_objects st)))"
  by (rule fs.store_as_of_rows [OF assms])

theorem as_of_exact_witness:
  "\<exists>(st :: fs store) ks hs. store_knowledge_snapshot st = Ok ks \<and> as_of (st_read st) ks 0 = Ok hs \<and>
     concat (map (seen_rows (st_read st)) hs) = [[RvI64 3]]"
proof -
  obtain st0 where st0: "with_segment_rows sample_schema 0 4 (sample_fs (\<lambda>_. None)) = Ok st0" using sample_store by blast
  from sample_row [OF st0 sample_fs_good(1)] obtain st where
    run: "store_append [RvI64 3] st0 = (Ok 0, st)" and ok: "store_ok (fs_storage fb) fs_objects fs_good fs_log_ok st"
    and t: "table_of fs_objects st =
       \<lparr>tb_latest = [\<lparr>vn_cells = [RvI64 3], vn_born = 0, vn_kill = None\<rparr>], tb_retired = [], tb_mark = 1\<rparr>" by blast
  note S = sample_reads [OF st0 run]
  obtain ks hs where ks: "store_knowledge_snapshot st = Ok ks" "as_of (st_read st) ks 0 = Ok hs"
    using sample_reads_ok(2) by (auto simp: store_knowledge_snapshot_def S is_ok_bind)
  moreover from this have "concat (map (seen_rows (st_read st)) hs) = [[RvI64 3]]"
    using as_of_exact [OF ok, of ks 0 hs] by (simp add: t visible_def)
  ultimately show ?thesis by blast
qed

text \<open>
  C34: A refresh misses nothing.  Of every row version the walk over what changed since a
  coordinate does not visit, the visibility is the same at every coordinate from just before
  that one on: what was computed from the table then can be brought up to date from the
  visited rows alone.
\<close>
theorem touched_complete:
  assumes "store_ok (fs_storage fb) fs_objects fs_good fs_log_ok st"
    and "store_knowledge_snapshot st = Ok ks" "touched_walk (st_read st) ks since = Ok ts"
    and "unat since \<le> unat c + 1" "c \<le> c'"
  shows "(\<forall>s\<in>set (all_segments (fs_objects (st_world st)) (st_shared st)). \<forall>row<rb_num_rows (sg_batch s).
       (s, row) \<notin> set ts \<longrightarrow> visible c (live_version (sd_tombstones (st_shared st)) s row) =
         visible c' (live_version (sd_tombstones (st_shared st)) s row)) \<and>
    (\<forall>s\<in>set (contents (fs_objects (st_world st)) (sd_history (st_shared st))). \<forall>row<rb_num_rows (sg_batch s).
       (s, row) \<notin> set ts \<longrightarrow> visible c (retired_version s row) = visible c' (retired_version s row))"
  by (rule fs.store_touched [OF assms])

theorem touched_complete_witness:
  "\<exists>(st :: fs store) ks ts s. store_knowledge_snapshot st = Ok ks \<and> touched_walk (st_read st) ks 1 = Ok ts \<and>
     s \<in> set (all_segments (fs_objects (st_world st)) (st_shared st)) \<and> rb_num_rows (sg_batch s) = 1 \<and> (s, 0) \<notin> set ts \<and>
     visible 0 (live_version (sd_tombstones (st_shared st)) s 0) = visible 5 (live_version (sd_tombstones (st_shared st)) s 0)"
proof -
  obtain st0 where st0: "with_segment_rows sample_schema 0 4 (sample_fs (\<lambda>_. None)) = Ok st0" using sample_store by blast
  from sample_row [OF st0 sample_fs_good(1)] obtain st where
    run: "store_append [RvI64 3] st0 = (Ok 0, st)" and ok: "store_ok (fs_storage fb) fs_objects fs_good fs_log_ok st" by blast
  note S = sample_reads [OF st0 run]
  obtain ks ts where ks: "store_knowledge_snapshot st = Ok ks" "touched_walk (st_read st) ks 1 = Ok ts" "ts = []"
    using sample_reads_ok(3) by (auto simp: store_knowledge_snapshot_def S)
  obtain s where s: "buffered_segment sample_shared = [s]" "rb_num_rows (sg_batch s) = 1" using sample_reads_ok(4) by blast
  then have "s \<in> set (all_segments (fs_objects (st_world st)) (st_shared st))" by (simp add: all_segments_def S)
  moreover from this have "visible 0 (live_version (sd_tombstones (st_shared st)) s 0) =
      visible 5 (live_version (sd_tombstones (st_shared st)) s 0)"
    using touched_complete [OF ok ks(1,2), of 0 5] ks(3) s(2) by simp
  moreover have "(s, 0) \<notin> set ts" using ks(3) by simp
  ultimately show ?thesis using ks(1,2) s(2) by blast
qed

end
