(* ===== verification/Merge.thy ===== *)
theory Merge
  imports Compaction Reads
begin

text \<open>
  What a compaction rebuilds: the live versions of the table in the order of their key, ties
  in row-id order, as segments that carry their births, and the dead ones, in the same order,
  as history segments that carry births and kills.
\<close>

section \<open>Reading the rows back\<close>

lemma index_at_Ok [simp]: "i < length xs \<Longrightarrow> index_at xs i = Ok (xs ! i)"
  by (simp add: index_at_def)

lemma cell_value_cells:
  assumes "column_ok c" "row < col_len c"
  shows "cell_value c row = (Ok (column_cells c ! row) :: ('e, _) outcome)"
proof (cases c)
  case (Numeric n)
  then have "nc_is_valid (nd_column n) row = (Ok (presence (nc_len (nd_column n)) (nc_validity (nd_column n)) ! row) :: ('e, _) outcome)"
    using assms by (simp add: nc_is_valid_def validity_get_presence)
  then show ?thesis
    using assms Numeric by (cases n) (auto simp: cell_value_def nc_len_def)
next
  case (KeyCol k)
  then have p: "kc_is_valid k row = (Ok (presence (kc_len k) (kc_validity k) ! row) :: ('e, _) outcome)"
    using assms by (simp add: kc_is_valid_def validity_get_presence)
  have code: "unat (kc_codes k ! row) < dict_len (kc_dictionary k)" "row < length (kc_codes k)" "dict_ok (kc_dictionary k)"
    using assms KeyCol by (auto simp: kc_len_def)
  then have "dict_value (kc_dictionary k) (kc_codes k ! row) =
      (Ok (dict_names (kc_dictionary k) ! unat (kc_codes k ! row)) :: ('e, _) outcome)"
    by (simp add: dict_ok_value)
  then show ?thesis
    using assms KeyCol p code by (auto simp: cell_value_def kc_value_at_def)
qed

lemma column_cells_utf8: "column_ok c \<Longrightarrow> cell \<in> set (column_cells c) \<Longrightarrow> cell_utf8 cell"
proof (cases c rule: column_cells.cases)
  case (3 k)
  assume "column_ok c" "cell \<in> set (column_cells c)"
  moreover from this have "dict_names (kc_dictionary k) ! unat code \<in> set (dict_names (kc_dictionary k))"
    if "code \<in> set (kc_codes k)" for code
    using 3 that by (intro nth_mem) simp
  moreover have "\<forall>v\<in>set (dict_names (kc_dictionary k)). valid_utf8 v"
    using \<open>column_ok c\<close> 3 by (simp add: dict_ok_def dict_fits_def)
  ultimately show ?thesis using 3 by (auto split: if_splits dest: set_zip_leftD)
qed (auto split: if_splits)

lemma batch_ok_columns:
  assumes "batch_ok b" "c \<in> set (rb_columns b)"
  shows "column_ok c" "col_len c = rb_num_rows b"
  using assms by (auto simp: batch_ok_def binding_ok_def list_all2_conv_all_nth in_set_conv_nth)

lemma row_cells_of:
  assumes "index < length views" "batch_ok (sg_batch (sv_segment (views ! index)))"
    "row < rb_num_rows (sg_batch (sv_segment (views ! index)))"
  shows "row_cells views index row = (Ok (cells_of (sv_segment (views ! index)) ! row) :: ('e, _) outcome)"
    "\<forall>cell\<in>set (cells_of (sv_segment (views ! index)) ! row). cell_utf8 cell"
proof -
  let ?cs = "rb_columns (sg_batch (sv_segment (views ! index)))"
  have "traverseR (\<lambda>c. cell_value c row) ?cs = (Ok (map (\<lambda>c. column_cells c ! row) ?cs) :: ('e, _) outcome)"
    by (rule traverseR_Ok) (use batch_ok_columns [OF assms(2)] assms(3) in \<open>simp add: cell_value_cells\<close>)
  then show "row_cells views index row = (Ok (cells_of (sv_segment (views ! index)) ! row) :: ('e, _) outcome)"
    using assms by (simp add: row_cells_def cells_of_def)
  show "\<forall>cell\<in>set (cells_of (sv_segment (views ! index)) ! row). cell_utf8 cell"
  proof
    fix cell assume "cell \<in> set (cells_of (sv_segment (views ! index)) ! row)"
    then obtain c where c: "c \<in> set ?cs" "cell = column_cells c ! row" using assms(3) by (auto simp: cells_of_def)
    then have "cell \<in> set (column_cells c)" using batch_ok_columns [OF assms(2) c(1)] assms(3) by simp
    then show "cell_utf8 cell" using column_cells_utf8 batch_ok_columns(1) [OF assms(2) c(1)] by blast
  qed
qed

section \<open>The rows of a segment as merge entries\<close>

text \<open>The version an entry refers to, and the entry of a place.\<close>

definition entry_at :: "nat \<Rightarrow> segment list \<Rightarrow> nat \<times> nat \<Rightarrow> merge_entry" where
  "entry_at key ss = (\<lambda>(index, row).
     (row_key key (cells_of (ss ! index) ! row), row_id (ss ! index) row, index, row))"

definition places :: "segment list \<Rightarrow> (nat \<times> nat) list" where
  "places ss = concat (map (\<lambda>(index, s). map (Pair index) [0..<rb_num_rows (sg_batch s)]) (zip [0..<length ss] ss))"

definition version_at :: "id_map \<Rightarrow> segment list \<Rightarrow> nat \<times> nat \<Rightarrow> version" where
  "version_at stamps ss = (\<lambda>(index, row). live_version stamps (ss ! index) row)"

text \<open>A view of a segment, its live rows those that no tombstone names.\<close>

definition view_shows :: "id_map \<Rightarrow> segment_view \<Rightarrow> segment \<Rightarrow> bool" where
  "view_shows stamps v s \<longleftrightarrow> sv_segment v = s \<and> sequenced s \<and>
     (\<forall>bm. sv_live v = Some bm \<longrightarrow> bitmap_ok bm) \<and> liveness v = live_rows stamps s"

lemma view_shows_live:
  assumes "view_shows stamps v s" "row < rb_num_rows (sg_batch s)"
  shows "sv_is_live v row = (Ok (bt_get stamps (row_id s row) = None) :: ('e, _) outcome)"
proof -
  have live: "liveness v = live_rows stamps s" using assms(1) by (simp add: view_shows_def)
  then have n: "length (liveness v) = rb_num_rows (sg_batch s)" "liveness v ! row = (bt_get stamps (row_id s row) = None)"
    using assms(2) by (simp_all add: live_rows_def)
  show ?thesis
  proof (cases "sv_live v")
    case (Some bm)
    then have "bitmap_ok bm" "liveness v = bits bm" using assms(1) by (simp_all add: view_shows_def liveness_def)
    then show ?thesis using Some n assms(2) bm_get_bits [of bm row] by (simp add: sv_is_live_def)
  qed (use n assms in \<open>simp add: sv_is_live_def liveness_def view_shows_def\<close>)
qed

definition keyed :: "nat \<Rightarrow> schema \<Rightarrow> bool" where
  "keyed key schema \<longleftrightarrow> key < length (s_fields schema) \<and> f_column_type (s_fields schema ! key) = I64 \<and>
     \<not> f_nullable (s_fields schema ! key)"

lemma keyed_column:
  assumes "keyed key (rb_schema b)" "batch_ok b"
  obtains c where "key < length (rb_columns b)" "rb_columns b ! key = Numeric (NI64 c)" "length (nc_values c) = rb_num_rows b"
    "nc_validity c = None"
proof -
  have len: "length (rb_columns b) = length (s_fields (rb_schema b))" using assms(2) by (simp add: batch_ok_def)
  have bind: "binding_ok (rb_num_rows b) (s_fields (rb_schema b) ! key) (rb_columns b ! key)"
    using assms len by (simp add: batch_ok_def keyed_def list_all2_conv_all_nth)
  then have "col_type (rb_columns b ! key) = I64" "col_validity (rb_columns b ! key) = None"
    using assms(1) by (auto simp: binding_ok_def keyed_def)
  moreover from this obtain c where "rb_columns b ! key = Numeric (NI64 c)"
    by (cases "rb_columns b ! key" rule: column_cells.cases) auto
  ultimately show ?thesis
    using that [of c] bind assms(1) len by (simp add: binding_ok_def keyed_def nc_len_def)
qed

lemma view_entries_Ok:
  assumes "view_shows stamps v (ss ! index)" "keyed key (rb_schema (sg_batch (ss ! index)))"
  shows "view_entries key index v = (Ok (map (\<lambda>row. (entry_at key ss (index, row),
      vn_kill (version_at stamps ss (index, row)) = None)) [0..<rb_num_rows (sg_batch (ss ! index))]) :: ('e, _) outcome)"
proof -
  let ?s = "ss ! index"
  have s: "sv_segment v = ?s" "batch_ok (sg_batch ?s)" using assms(1) by (simp_all add: view_shows_def sequenced_def)
  obtain c where c: "key < length (rb_columns (sg_batch ?s))" "rb_columns (sg_batch ?s) ! key = Numeric (NI64 c)"
    "length (nc_values c) = rb_num_rows (sg_batch ?s)" "nc_validity c = None"
    by (rule keyed_column [OF assms(2) s(2)])
  have "row_key key (cells_of ?s ! row) = nc_values c ! row" if "row < rb_num_rows (sg_batch ?s)" for row
    using that c by (simp add: row_key_def cells_of_def presence_def nc_len_def)
  moreover have "sv_is_live v row = (Ok (bt_get stamps (row_id ?s row) = None) :: ('e, _) outcome)"
    if "row < rb_num_rows (sg_batch ?s)" for row
    using assms(1) that by (rule view_shows_live)
  ultimately have "traverseR (\<lambda>row. mapR (\<lambda>live. ((nc_values c ! row, sg_base_row_id ?s + word_of_nat row, index, row), live))
      (sv_is_live v row)) [0..<length (nc_values c)] = (Ok (map (\<lambda>row. (entry_at key ss (index, row),
      vn_kill (version_at stamps ss (index, row)) = None)) [0..<rb_num_rows (sg_batch ?s)]) :: ('e, _) outcome)"
    unfolding c(3) by (intro traverseR_Ok) (simp add: entry_at_def version_at_def live_version_def row_id_def)
  then show ?thesis using s c by (simp add: view_entries_def)
qed

lemma places_map:
  "map (\<lambda>(index, row). F (ss ! index) row) (places ss) = concat (map (\<lambda>s. map (F s) [0..<rb_num_rows (sg_batch s)]) ss)"
proof -
  have "map (\<lambda>(index, row). F (ss ! index) row) (places ss) =
      concat (map (\<lambda>(index, s). map (F (ss ! index)) [0..<rb_num_rows (sg_batch s)]) (zip [0..<length ss] ss))"
    by (simp add: places_def map_concat comp_def case_prod_unfold)
  also have "\<dots> = concat (map (\<lambda>(index, s). map (F s) [0..<rb_num_rows (sg_batch s)]) (zip [0..<length ss] ss))"
    by (intro arg_cong [of _ _ concat] map_cong) (auto simp: set_zip)
  also have "map (\<lambda>(index, s). map (F s) [0..<rb_num_rows (sg_batch s)]) (zip [0..<length ss] ss) =
      map (\<lambda>s. map (F s) [0..<rb_num_rows (sg_batch s)]) (map snd (zip [0..<length ss] ss))"
    by (simp add: comp_def case_prod_unfold del: map_snd_zip)
  finally show ?thesis by simp
qed

lemma place_in_range: "(index, row) \<in> set (places ss) \<longleftrightarrow> index < length ss \<and> row < rb_num_rows (sg_batch (ss ! index))"
proof
  assume "index < length ss \<and> row < rb_num_rows (sg_batch (ss ! index))"
  moreover from this have "(index, ss ! index) \<in> set (zip [0..<length ss] ss)"
    by (auto simp: set_zip intro!: exI [of _ index])
  ultimately show "(index, row) \<in> set (places ss)" by (force simp: places_def)
qed (auto simp: places_def set_zip)

lemma versions_of_places: "map (version_at stamps ss) (places ss) = concat (map (live_versions stamps) ss)"
  using places_map [of "live_version stamps" ss]
  by (simp add: version_at_def live_version_def [abs_def] live_versions_def [abs_def])

lemma ids_of_places:
  assumes "laid_out 0 ss"
  shows "map (\<lambda>(index, row). row_id (ss ! index) row) (places ss) = map word_of_nat [0..<total_rows ss]"
proof -
  have "laid_out n ss \<Longrightarrow> concat (map (\<lambda>s. map (row_id s) [0..<rb_num_rows (sg_batch s)]) ss) =
      map word_of_nat [n..<n + total_rows ss]" for n ss
  proof (induction n ss rule: laid_out.induct)
    case (2 n s ss)
    let ?k = "rb_num_rows (sg_batch s)"
    have "map (row_id s) [0..<?k] = map word_of_nat [n..<n + ?k]"
      using 2 by (intro nth_equalityI) (simp_all add: row_id_def)
    moreover have "[n..<n + (?k + total_rows ss)] = [n..<n + ?k] @ [n + ?k..<n + ?k + total_rows ss]"
      by (simp only: upt_add_eq_append [of n "n + ?k" "total_rows ss"] le_add1 add.assoc [symmetric])
    ultimately show ?case using 2 by (simp add: total_rows_def)
  qed (simp add: total_rows_def)
  from this [OF assms] show ?thesis using places_map [of row_id ss] by simp
qed

text \<open>The live places and the dead ones, in row-id order.\<close>

definition live_places :: "id_map \<Rightarrow> segment list \<Rightarrow> (nat \<times> nat) list" where
  "live_places stamps ss = filter (\<lambda>p. vn_kill (version_at stamps ss p) = None) (places ss)"

definition dead_places :: "id_map \<Rightarrow> segment list \<Rightarrow> (nat \<times> nat) list" where
  "dead_places stamps ss = filter (\<lambda>p. vn_kill (version_at stamps ss p) \<noteq> None) (places ss)"

lemma collect_rows_Ok:
  assumes "list_all2 (view_shows stamps) views ss" "\<forall>s\<in>set ss. keyed key (rb_schema (sg_batch s))"
  shows "collect_rows key views =
    (Ok (map (entry_at key ss) (live_places stamps ss), map (entry_at key ss) (dead_places stamps ss)) :: ('e, _) outcome)"
proof -
  let ?found = "\<lambda>(index, s). map (\<lambda>row. (entry_at key ss (index, row), vn_kill (version_at stamps ss (index, row)) = None))
      [0..<rb_num_rows (sg_batch s)]"
  let ?view = "\<lambda>(view_index, view). view_entries key view_index view"
  have len: "length views = length ss" using assms(1) by (rule list_all2_lengthD)
  have "traverseR ?view (zip [0..<length views] views) =
      (Ok (map ?found (zip [0..<length ss] ss)) :: ('e, _) outcome)"
  proof -
    have "traverseR ?view (zip [0..<length views] views) =
        (Ok (map (\<lambda>(index, view). ?found (index, ss ! index)) (zip [0..<length views] views)) :: ('e, _) outcome)"
    proof (rule traverseR_Ok)
      fix x assume "x \<in> set (zip [0..<length views] views)"
      then obtain i where i: "i < length ss" "x = (i, views ! i)" using len by (auto simp: set_zip)
      then have "view_shows stamps (views ! i) (ss ! i)" "keyed key (rb_schema (sg_batch (ss ! i)))"
        using assms by (simp_all add: list_all2_conv_all_nth)
      then show "?view x = Ok ((\<lambda>(index, view). ?found (index, ss ! index)) x)" by (simp add: i(2) view_entries_Ok)
    qed
    moreover have "map (\<lambda>(index, view). ?found (index, ss ! index)) (zip [0..<length views] views) =
        map ?found (zip [0..<length ss] ss)"
      by (rule nth_equalityI) (use len in simp_all)
    ultimately show ?thesis by simp
  qed
  moreover have "concat (map ?found (zip [0..<length ss] ss)) =
      map (\<lambda>p. (entry_at key ss p, vn_kill (version_at stamps ss p) = None)) (places ss)"
    by (simp add: places_def map_concat comp_def case_prod_unfold)
  ultimately show ?thesis
    by (simp add: collect_rows_def live_places_def dead_places_def filter_map comp_def)
qed

section \<open>Sorting\<close>

definition version_key :: "nat \<Rightarrow> version \<Rightarrow> int" where
  "version_key key v = sint (row_key key (vn_cells v))"

lemma insort_key_map: "insort_key f (h x) (map h xs) = map h (insort_key (\<lambda>x. f (h x)) x xs)"
  by (induction xs) auto

lemma sort_key_map: "sort_key f (map h xs) = map h (sort_key (\<lambda>x. f (h x)) xs)"
  by (induction xs) (simp_all add: insort_key_map)

text \<open>Breaking ties by an increasing second key is what a stable sort does anyway.\<close>

lemma sort_key_ties:
  fixes f :: "'a \<Rightarrow> 'b::linorder" and g :: "'a \<Rightarrow> 'c::linorder"
  assumes "sorted_wrt (\<lambda>x y. g x < g y) xs"
  shows "sort_key (\<lambda>x. (f x, g x)) xs = sort_key f xs"
  using assms
proof (induction xs)
  case (Cons x xs)
  have "\<forall>y\<in>set ys. g x < g y \<Longrightarrow> insort_key (\<lambda>x. (f x, g x)) x ys = insort_key f x ys" for ys
    by (induction ys) (auto simp: less_eq_prod_def)
  then show ?case using Cons by simp
qed simp

lemma places_increase:
  assumes "laid_out 0 ss"
  shows "sorted_wrt (\<lambda>p q. (case p of (index, row) \<Rightarrow> row_id (ss ! index) row) < (case q of (index, row) \<Rightarrow> row_id (ss ! index) row))
    (places ss)"
proof -
  have "total_rows ss < 2 ^ 64" using laid_out_bound [OF assms] by (simp add: total_rows_def)
  then have "sorted_wrt (<) (map (word_of_nat :: nat \<Rightarrow> u64) [0..<total_rows ss])"
    by (auto simp: sorted_wrt_iff_nth_less word_less_nat_alt)
  then show ?thesis unfolding ids_of_places [OF assms, symmetric] sorted_wrt_map by simp
qed

definition merged :: "nat \<Rightarrow> id_map \<Rightarrow> segment list \<Rightarrow> (nat \<times> nat) list \<Rightarrow> (nat \<times> nat) list" where
  "merged key stamps ss ps = sort_key (\<lambda>p. version_key key (version_at stamps ss p)) ps"

lemma merge_order_places:
  assumes "laid_out 0 ss" "ps = filter P (places ss)"
  shows "merge_order (map (entry_at key ss) ps) = map (entry_at key ss) (merged key stamps ss ps)"
proof -
  have "sorted_wrt (\<lambda>p q. (case p of (index, row) \<Rightarrow> row_id (ss ! index) row) < (case q of (index, row) \<Rightarrow> row_id (ss ! index) row)) ps"
    using places_increase [OF assms(1)] unfolding assms(2) by (rule sorted_wrt_filter)
  from sort_key_ties [OF this, of "\<lambda>p. version_key key (version_at stamps ss p)"]
  have ties: "sort_key (\<lambda>p. (version_key key (version_at stamps ss p), case p of (index, row) \<Rightarrow> row_id (ss ! index) row)) ps =
      merged key stamps ss ps" by (simp add: merged_def)
  have "(\<lambda>p. merge_key (entry_at key ss p)) =
      (\<lambda>p. (version_key key (version_at stamps ss p), case p of (index, row) \<Rightarrow> row_id (ss ! index) row))"
    by (auto simp: fun_eq_iff merge_key_def entry_at_def version_key_def version_at_def live_version_def)
  then show ?thesis using ties by (simp add: merge_order_def sort_key_map)
qed

lemma merged_versions:
  "map (version_at stamps ss) (merged key stamps ss ps) = sort_key (version_key key) (map (version_at stamps ss) ps)"
  by (simp add: merged_def sort_key_map)

lemma set_merged [simp]: "set (merged key stamps ss ps) = set ps" "length (merged key stamps ss ps) = length ps"
  by (simp_all add: merged_def)

end
