(* ===== verification/Rebuild.thy ===== *)
theory Rebuild
  imports Merge
begin

text \<open>
  Replaying rows through the append path: the segments the two loops of a compaction build
  hold the rows they were given, in order, with the births (and kills) they came with.
\<close>

lemma length_concat_cells: "length (concat (map cells_of ss)) = total_rows ss"
  by (induction ss) (simp_all add: total_rows_def)

lemma total_rows_snoc: "total_rows (ss @ [s]) = total_rows ss + rb_num_rows (sg_batch s)"
  by (simp add: total_rows_def)

lemma length_buffer_rows [simp]: "length (buffer_rows wb) = wb_rows wb"
  by (simp add: buffer_rows_def)

definition born_in :: "segment \<Rightarrow> u64 list" where
  "born_in s = map (birth s) [0..<rb_num_rows (sg_batch s)]"

lemma born_in_explicit: "sg_sequence s = Explicit births \<Longrightarrow> length births = rb_num_rows (sg_batch s) \<Longrightarrow> born_in s = births"
  by (rule nth_equalityI) (simp_all add: born_in_def birth_def)

lemma with_sequence_Ok:
  "with_sequence s (Explicit births) = Ok s' \<Longrightarrow> length births = rb_num_rows (sg_batch s) \<and> s' = s\<lparr>sg_sequence := Explicit births\<rparr>"
  by (simp add: with_sequence_def split: if_splits)

lemma with_superseded_Ok:
  "with_superseded s kills = Ok s' \<Longrightarrow> length kills = rb_num_rows (sg_batch s) \<and> s' = s\<lparr>sg_superseded := Some kills\<rparr>"
  by (simp add: with_superseded_def split: if_splits)

lemma cells_of_update [simp]:
  "cells_of (s\<lparr>sg_sequence := x\<rparr>) = cells_of s" "cells_of (s\<lparr>sg_superseded := y\<rparr>) = cells_of s"
  by (simp_all add: cells_of_def)

section \<open>Live rows\<close>

text \<open>The segments closed so far hold these rows: cells with births.\<close>

definition closed_live :: "schema \<Rightarrow> bool \<Rightarrow> segment list \<Rightarrow> u64 \<Rightarrow> (row_value list \<times> u64) list \<Rightarrow> bool" where
  "closed_live schema diverging segs base rs \<longleftrightarrow>
     laid_out 0 segs \<and> unat base = total_rows segs \<and>
     (\<forall>s\<in>set segs. sequenced s \<and> 0 < rb_num_rows (sg_batch s) \<and> rb_schema (sg_batch s) = schema \<and>
        (\<not> diverging \<longrightarrow> sg_sequence s = RowIds)) \<and>
     concat (map cells_of segs) = map fst rs \<and>
     (diverging \<longrightarrow> concat (map born_in segs) = map snd rs)"

definition open_live :: "schema \<Rightarrow> nat \<Rightarrow> bool \<Rightarrow> rebuild \<Rightarrow> (row_value list \<times> u64) list \<Rightarrow> bool" where
  "open_live schema key diverging m rs \<longleftrightarrow>
     (\<exists>rs1 rs2. rs = rs1 @ rs2 \<and> closed_live schema diverging (rb_segments m) (rb_base m) rs1 \<and>
        wb_ok schema key (rb_buffer m) \<and> buffer_rows (rb_buffer m) = map fst rs2 \<and>
        (diverging \<longrightarrow> rb_births m = map snd rs2))"

lemma closed_live_length: "closed_live schema diverging segs base rs \<Longrightarrow> total_rows segs = length rs"
  using length_concat_cells [of segs] by (simp add: closed_live_def)

lemma close_live_closed:
  assumes closed: "closed_live schema diverging (rb_segments m) (rb_base m) rs1" and wb: "wb_ok schema key (rb_buffer m)"
    and rows: "buffer_rows (rb_buffer m) = map fst rs2" and births: "diverging \<Longrightarrow> rb_births m = map snd rs2"
    and some: "rs2 \<noteq> []" and fit: "length rs1 + length rs2 < 2 ^ 64" and run: "close_live diverging m = Ok m'"
  shows "closed_live schema diverging (rb_segments m') (rb_base m') (rs1 @ rs2)" "rb_births m' = []"
proof -
  obtain f s where f: "freeze_at (rb_buffer m) (rb_base m) = Ok f"
    and s: "(if diverging then with_sequence f (Explicit (rb_births m)) else Ok f) = (Ok s :: (storage_error, _) outcome)"
    and m': "m' = m\<lparr>rb_segments := rb_segments m @ [s], rb_births := [],
                 rb_base := rb_base m + word_of_nat (wb_len (rb_buffer m))\<rparr>"
    using run by (auto simp: close_live_def)
  show "rb_births m' = []" by (simp add: m')
  note F = cells_of_freeze [OF wb f]
  have n: "wb_rows (rb_buffer m) = length rs2" using rows length_buffer_rows [of "rb_buffer m"] by (metis length_map)
  have s': "s = (if diverging then f\<lparr>sg_sequence := Explicit (rb_births m)\<rparr> else f)" "diverging \<Longrightarrow> length (rb_births m) = length rs2"
    using s births by (auto dest: with_sequence_Ok split: if_splits)
  have seg: "cells_of s = map fst rs2" "rb_num_rows (sg_batch s) = length rs2" "batch_ok (sg_batch s)"
    "sg_base_row_id s = rb_base m" "rb_schema (sg_batch s) = schema" "\<not> diverging \<Longrightarrow> sg_sequence s = RowIds"
    using F n rows by (auto simp: s'(1))
  have born: "born_in s = map snd rs2" if diverging
    using that seg(2) births s' by (subst born_in_explicit) (auto simp: s'(1))
  have "sequenced s" using seg(2,3) s' by (auto simp: sequenced_def split: sequence_info.split) (use F(6) in auto)
  have total: "total_rows (rb_segments m) = length rs1" using closed_live_length [OF closed] .
  have base: "unat (rb_base m) = length rs1" "laid_out 0 (rb_segments m)"
    using closed total by (simp_all add: closed_live_def)
  have "unat (rb_base m + word_of_nat (length rs2)) = length rs1 + length rs2"
    using base(1) fit unat_add_nat [of "rb_base m" "length rs2"] by simp
  moreover have "laid_out 0 (rb_segments m @ [s])"
    using base seg(2,4) fit total by (simp add: laid_out_append total_rows_def [symmetric] word_unat_eq_iff)
  ultimately show "closed_live schema diverging (rb_segments m') (rb_base m') (rs1 @ rs2)"
    using closed seg born some \<open>sequenced s\<close> total n by (simp add: closed_live_def m' total_rows_snoc wb_len_def)
qed

lemma merge_live_open:
  assumes inv: "open_live schema key diverging m rs"
    and cells: "row_cells views index row = (Ok (fst r) :: (storage_error, _) outcome)" "\<forall>cell\<in>set (fst r). cell_utf8 cell"
    and born: "sequence_at (sv_segment (views ! index)) row = (Ok (snd r) :: (storage_error, _) outcome)"
    and fit: "length rs + 1 < 2 ^ 64"
    and run: "merge_live schema key segment_rows diverging views m (v, i, index, row) = Ok m'"
  shows "open_live schema key diverging m' (rs @ [r])"
proof -
  obtain rs1 rs2 where rs: "rs = rs1 @ rs2" and closed: "closed_live schema diverging (rb_segments m) (rb_base m) rs1"
    and wb: "wb_ok schema key (rb_buffer m)" and rows: "buffer_rows (rb_buffer m) = map fst rs2"
    and births: "diverging \<Longrightarrow> rb_births m = map snd rs2"
    using inv by (auto simp: open_live_def)
  obtain buffer where b: "wb_append (rb_buffer m) (fst r) = Ok buffer" using run cells(1) by (auto simp: merge_live_def)
  note W = wb_append_ok [OF wb b cells(2)]
  let ?m = "m\<lparr>rb_buffer := buffer, rb_births := (if diverging then rb_births m @ [snd r] else rb_births m)\<rparr>"
  have m1: "closed_live schema diverging (rb_segments ?m) (rb_base ?m) rs1" "wb_ok schema key (rb_buffer ?m)"
    "buffer_rows (rb_buffer ?m) = map fst (rs2 @ [r])" "diverging \<Longrightarrow> rb_births ?m = map snd (rs2 @ [r])"
    using closed W rows births by simp_all
  have run': "(if segment_rows \<le> wb_len buffer then bindR (map_err MemErr (wb_new schema key)) (\<lambda>fresh.
      mapR (\<lambda>m. m\<lparr>rb_buffer := fresh\<rparr>) (close_live diverging ?m)) else Ok ?m) = Ok m'"
    using run cells(1) b born by (auto simp: merge_live_def Let_def split: if_splits)
  show ?thesis
  proof (cases "segment_rows \<le> wb_len buffer")
    case True
    then obtain fresh m2 where fresh: "wb_new schema key = Ok fresh" and m2: "close_live diverging ?m = Ok m2"
      and m': "m' = m2\<lparr>rb_buffer := fresh\<rparr>" using run' by auto
    have "closed_live schema diverging (rb_segments m2) (rb_base m2) (rs1 @ rs2 @ [r]) \<and> rb_births m2 = []"
      using close_live_closed [OF m1 _ _ m2] fit by (simp add: rs)
    moreover have "wb_ok schema key fresh \<and> buffer_rows fresh = []"
      using wb_new_ok [OF fresh] by (simp add: buffer_rows_def)
    ultimately show ?thesis
      unfolding open_live_def m' by (intro exI [of _ "rs1 @ rs2 @ [r]"] exI [of _ "[]"]) (simp add: rs)
  next
    case False
    then have "m' = ?m" using run' by simp
    then show ?thesis
      using m1 unfolding open_live_def by (intro exI [of _ rs1] exI [of _ "rs2 @ [r]"]) (simp add: rs)
  qed
qed

lemma merge_live_all:
  assumes inv: "open_live schema key diverging m rs"
    and rows: "\<And>e. e \<in> set es \<Longrightarrow> row_cells views (fst (snd (snd e))) (snd (snd (snd e))) = (Ok (fst (f e)) :: (storage_error, _) outcome) \<and>
        (\<forall>cell\<in>set (fst (f e)). cell_utf8 cell) \<and>
        sequence_at (sv_segment (views ! fst (snd (snd e)))) (snd (snd (snd e))) = (Ok (snd (f e)) :: (storage_error, _) outcome)"
    and fit: "length rs + length es < 2 ^ 64"
    and run: "foldR (merge_live schema key segment_rows diverging views) m es = Ok m'"
  shows "open_live schema key diverging m' (rs @ map f es)"
  using inv rows fit run
proof (induction es arbitrary: m rs)
  case (Cons e es)
  obtain v i index row where e: "e = (v, i, index, row)" by (metis prod_cases4)
  obtain m1 where m1: "merge_live schema key segment_rows diverging views m e = Ok m1"
    and rest: "foldR (merge_live schema key segment_rows diverging views) m1 es = Ok m'"
    using Cons.prems(4) by auto
  have "open_live schema key diverging m1 (rs @ [f e])"
    using merge_live_open [OF Cons.prems(1) _ _ _ _ m1 [unfolded e], of "f e"] Cons.prems(2) [of e] Cons.prems(3)
    by (simp add: e)
  then have "open_live schema key diverging m' ((rs @ [f e]) @ map f es)"
    by (rule Cons.IH [OF _ _ _ rest]) (rule Cons.prems(2), simp, use Cons.prems(3) in simp)
  then show ?case by simp
qed simp

lemma rebuild_new_open:
  assumes "rebuild_new schema key = Ok m"
  shows "open_live schema key diverging m []"
proof -
  obtain wb where wb: "wb_new schema key = Ok wb"
    and m: "m = \<lparr>rb_segments = [], rb_buffer = wb, rb_births = [], rb_kills = [], rb_base = 0\<rparr>"
    using assms by (auto simp: rebuild_new_def)
  then show ?thesis
    using wb_new_ok [OF wb] by (simp add: open_live_def closed_live_def total_rows_def buffer_rows_def)
qed

lemma rebuild_live_closed:
  assumes rows: "\<And>e. e \<in> set es \<Longrightarrow> row_cells views (fst (snd (snd e))) (snd (snd (snd e))) = (Ok (fst (f e)) :: (storage_error, _) outcome) \<and>
        (\<forall>cell\<in>set (fst (f e)). cell_utf8 cell) \<and>
        sequence_at (sv_segment (views ! fst (snd (snd e)))) (snd (snd (snd e))) = (Ok (snd (f e)) :: (storage_error, _) outcome)"
    and fit: "length es < 2 ^ 64"
    and run: "rebuild_live schema key segment_rows diverging views es = Ok m"
  shows "closed_live schema diverging (rb_segments m) (rb_base m) (map f es)"
proof -
  obtain m0 m1 where m0: "rebuild_new schema key = Ok m0"
    and m1: "foldR (merge_live schema key segment_rows diverging views) m0 es = Ok m1"
    and m: "(if wb_is_empty (rb_buffer m1) then Ok m1 else close_live diverging m1) = Ok m"
    using run by (auto simp: rebuild_live_def)
  have "open_live schema key diverging m1 (map f es)"
    using merge_live_all [OF rebuild_new_open [OF m0] rows _ m1] fit by simp
  then obtain rs1 rs2 where rs: "map f es = rs1 @ rs2" and closed: "closed_live schema diverging (rb_segments m1) (rb_base m1) rs1"
    and wb: "wb_ok schema key (rb_buffer m1)" and rows: "buffer_rows (rb_buffer m1) = map fst rs2"
    and births: "diverging \<Longrightarrow> rb_births m1 = map snd rs2"
    by (auto simp: open_live_def)
  have n: "wb_rows (rb_buffer m1) = length rs2" using rows length_buffer_rows [of "rb_buffer m1"] by (metis length_map)
  have len: "length rs1 + length rs2 < 2 ^ 64" using fit arg_cong [OF rs, of length] by simp
  show ?thesis
  proof (cases "rs2 = []")
    case True
    then show ?thesis using closed m n rs by (simp add: wb_is_empty_def)
  next
    case False
    then have "close_live diverging m1 = Ok m" using m n by (simp add: wb_is_empty_def)
    from close_live_closed(1) [OF closed wb rows births False len this] show ?thesis by (simp add: rs)
  qed
qed

text \<open>What a reader of the new segments finds: no row is dead, and each has its birth.\<close>

lemma live_versions_born:
  "live_versions [] s = map2 (\<lambda>cells born. \<lparr>vn_cells = cells, vn_born = born, vn_kill = None\<rparr>) (cells_of s) (born_in s)"
  by (rule nth_equalityI) (simp_all add: live_versions_def born_in_def bt_get_def)

lemma concat_live_versions_born:
  "concat (map (live_versions []) ss) =
   map2 (\<lambda>cells born. \<lparr>vn_cells = cells, vn_born = born, vn_kill = None\<rparr>) (concat (map cells_of ss)) (concat (map born_in ss))"
  by (induction ss) (simp_all add: live_versions_born born_in_def)

lemma born_in_row_ids:
  "laid_out n ss \<Longrightarrow> \<forall>s\<in>set ss. sg_sequence s = RowIds \<Longrightarrow> concat (map born_in ss) = map word_of_nat [n..<n + total_rows ss]"
proof (induction n ss rule: laid_out.induct)
  case (2 n s ss)
  let ?k = "rb_num_rows (sg_batch s)"
  have "born_in s = map word_of_nat [n..<n + ?k]"
    using 2 by (intro nth_equalityI) (simp_all add: born_in_def birth_def)
  moreover have "[n..<n + (?k + total_rows ss)] = [n..<n + ?k] @ [n + ?k..<n + ?k + total_rows ss]"
    by (simp only: upt_add_eq_append [of n "n + ?k" "total_rows ss"] le_add1 add.assoc [symmetric])
  ultimately show ?case using 2 by (simp add: total_rows_def)
qed (simp add: total_rows_def)

lemma closed_live_versions:
  assumes closed: "closed_live schema diverging segs base rs" and ids: "\<not> diverging \<Longrightarrow> map snd rs = map word_of_nat [0..<length rs]"
  shows "concat (map (live_versions []) segs) = map (\<lambda>(cells, born). \<lparr>vn_cells = cells, vn_born = born, vn_kill = None\<rparr>) rs"
proof -
  have "concat (map born_in segs) = map snd rs"
  proof (cases diverging)
    case False
    then have "concat (map born_in segs) = map word_of_nat [0..<total_rows segs]"
      using closed by (intro born_in_row_ids [of 0, simplified]) (simp_all add: closed_live_def)
    then show ?thesis using ids [OF False] closed_live_length [OF closed] by simp
  qed (use closed in \<open>simp add: closed_live_def\<close>)
  moreover have "concat (map cells_of segs) = map fst rs" using closed by (simp add: closed_live_def)
  ultimately show ?thesis
    by (simp add: concat_live_versions_born zip_map_map case_prod_unfold zip_same_conv_map)
qed

section \<open>Dead rows\<close>

type_synonym dead_row = "row_value list \<times> u64 \<times> u64"

definition dead_version :: "dead_row \<Rightarrow> version" where
  "dead_version = (\<lambda>(cells, born, kill). \<lparr>vn_cells = cells, vn_born = born, vn_kill = Some kill\<rparr>)"

definition closed_dead :: "schema \<Rightarrow> segment list \<Rightarrow> dead_row list \<Rightarrow> bool" where
  "closed_dead schema segs rs \<longleftrightarrow> (\<forall>s\<in>set segs. superseded_ok s \<and> rb_schema (sg_batch s) = schema) \<and> concat (map history_versions segs) = map dead_version rs"

definition open_dead :: "schema \<Rightarrow> nat \<Rightarrow> rebuild \<Rightarrow> dead_row list \<Rightarrow> bool" where
  "open_dead schema key m rs \<longleftrightarrow>
     (\<exists>rs1 rs2. rs = rs1 @ rs2 \<and> closed_dead schema (rb_segments m) rs1 \<and> wb_ok schema key (rb_buffer m) \<and>
        buffer_rows (rb_buffer m) = map fst rs2 \<and> rb_births m = map (fst \<circ> snd) rs2 \<and> rb_kills m = map (snd \<circ> snd) rs2)"

lemma history_versions_explicit:
  assumes "cells_of s = map fst rs" "sg_sequence s = Explicit (map (fst \<circ> snd) rs)" "sg_superseded s = Some (map (snd \<circ> snd) rs)"
  shows "history_versions s = map dead_version rs"
proof -
  have "rb_num_rows (sg_batch s) = length rs" using arg_cong [OF assms(1), of length] by simp
  then show ?thesis
    using assms by (intro nth_equalityI)
      (simp_all add: history_versions_def dead_version_def birth_def history_kill_def case_prod_unfold)
qed

lemma close_dead_closed:
  assumes closed: "closed_dead schema (rb_segments m) rs1" and wb: "wb_ok schema key (rb_buffer m)"
    and rows: "buffer_rows (rb_buffer m) = map fst rs2" "rb_births m = map (fst \<circ> snd) rs2" "rb_kills m = map (snd \<circ> snd) rs2"
    and run: "close_dead m = Ok m'"
  shows "closed_dead schema (rb_segments m') (rs1 @ rs2)" "rb_births m' = []" "rb_kills m' = []"
proof -
  obtain f s1 s where f: "freeze_at (rb_buffer m) 0 = Ok f"
    and s1: "with_sequence f (Explicit (rb_births m)) = (Ok s1 :: (storage_error, _) outcome)"
    and s: "with_superseded s1 (rb_kills m) = (Ok s :: (storage_error, _) outcome)"
    and m': "m' = m\<lparr>rb_segments := rb_segments m @ [s], rb_births := [], rb_kills := []\<rparr>"
    using run by (auto simp: close_dead_def freeze_def)
  show "rb_births m' = []" "rb_kills m' = []" by (simp_all add: m')
  note F = cells_of_freeze [OF wb f]
  have n: "wb_rows (rb_buffer m) = length rs2" using rows(1) length_buffer_rows [of "rb_buffer m"] by (metis length_map)
  have s': "s = f\<lparr>sg_sequence := Explicit (rb_births m), sg_superseded := Some (rb_kills m)\<rparr>"
    using with_sequence_Ok [OF s1] with_superseded_Ok [OF s] by simp
  have "superseded_ok s \<and> rb_schema (sg_batch s) = schema" using F(2,3,5) n rows by (simp add: superseded_ok_def sequenced_def s')
  moreover have "history_versions s = map dead_version rs2"
    by (rule history_versions_explicit) (use F(1) rows in \<open>simp_all add: s' cells_of_def\<close>)
  ultimately show "closed_dead schema (rb_segments m') (rs1 @ rs2)" using closed by (simp add: closed_dead_def m')
qed

lemma merge_dead_open:
  assumes inv: "open_dead schema key m rs"
    and cells: "row_cells views index row = (Ok (fst r) :: (storage_error, _) outcome)" "\<forall>cell\<in>set (fst r). cell_utf8 cell"
    and born: "sequence_at (sv_segment (views ! index)) row = (Ok (fst (snd r)) :: (storage_error, _) outcome)"
    and kill: "bt_get stamps rid = Some (snd (snd r))"
    and run: "merge_dead schema key segment_rows stamps views m (v, rid, index, row) = Ok m'"
  shows "open_dead schema key m' (rs @ [r])"
proof -
  obtain rs1 rs2 where rs: "rs = rs1 @ rs2" and closed: "closed_dead schema (rb_segments m) rs1"
    and wb: "wb_ok schema key (rb_buffer m)"
    and rows: "buffer_rows (rb_buffer m) = map fst rs2" "rb_births m = map (fst \<circ> snd) rs2" "rb_kills m = map (snd \<circ> snd) rs2"
    using inv by (auto simp: open_dead_def)
  obtain buffer where b: "wb_append (rb_buffer m) (fst r) = Ok buffer" using run cells(1) by (auto simp: merge_dead_def)
  note W = wb_append_ok [OF wb b cells(2)]
  let ?m = "m\<lparr>rb_buffer := buffer, rb_births := rb_births m @ [fst (snd r)], rb_kills := rb_kills m @ [snd (snd r)]\<rparr>"
  have m1: "closed_dead schema (rb_segments ?m) rs1" "wb_ok schema key (rb_buffer ?m)" "buffer_rows (rb_buffer ?m) = map fst (rs2 @ [r])"
    "rb_births ?m = map (fst \<circ> snd) (rs2 @ [r])" "rb_kills ?m = map (snd \<circ> snd) (rs2 @ [r])"
    using closed W rows by simp_all
  have run': "(if segment_rows \<le> wb_len buffer then bindR (map_err MemErr (wb_new schema key)) (\<lambda>fresh.
      mapR (\<lambda>m. m\<lparr>rb_buffer := fresh\<rparr>) (close_dead ?m)) else Ok ?m) = Ok m'"
    using run cells(1) b born kill by (auto simp: merge_dead_def Let_def split: if_splits)
  show ?thesis
  proof (cases "segment_rows \<le> wb_len buffer")
    case True
    then obtain fresh m2 where fresh: "wb_new schema key = Ok fresh" and m2: "close_dead ?m = Ok m2"
      and m': "m' = m2\<lparr>rb_buffer := fresh\<rparr>" using run' by auto
    note C = close_dead_closed [OF m1 m2]
    have "wb_ok schema key fresh \<and> buffer_rows fresh = []"
      using wb_new_ok [OF fresh] by (simp add: buffer_rows_def)
    then show ?thesis
      unfolding open_dead_def m' using C
      by (intro exI [of _ "rs1 @ rs2 @ [r]"] exI [of _ "[]"]) (simp add: rs)
  next
    case False
    then have "m' = ?m" using run' by simp
    then show ?thesis
      using m1 unfolding open_dead_def by (intro exI [of _ rs1] exI [of _ "rs2 @ [r]"]) (simp add: rs)
  qed
qed

lemma merge_dead_all:
  assumes inv: "open_dead schema key m rs"
    and rows: "\<And>e. e \<in> set es \<Longrightarrow> row_cells views (fst (snd (snd e))) (snd (snd (snd e))) = (Ok (fst (f e)) :: (storage_error, _) outcome) \<and>
        (\<forall>cell\<in>set (fst (f e)). cell_utf8 cell) \<and>
        sequence_at (sv_segment (views ! fst (snd (snd e)))) (snd (snd (snd e))) = (Ok (fst (snd (f e))) :: (storage_error, _) outcome) \<and>
        bt_get stamps (fst (snd e)) = Some (snd (snd (f e)))"
    and run: "foldR (merge_dead schema key segment_rows stamps views) m es = Ok m'"
  shows "open_dead schema key m' (rs @ map f es)"
  using inv rows run
proof (induction es arbitrary: m rs)
  case (Cons e es)
  obtain v rid index row where e: "e = (v, rid, index, row)" by (metis prod_cases4)
  obtain m1 where m1: "merge_dead schema key segment_rows stamps views m e = Ok m1"
    and rest: "foldR (merge_dead schema key segment_rows stamps views) m1 es = Ok m'"
    using Cons.prems(3) by auto
  have "open_dead schema key m1 (rs @ [f e])"
    using merge_dead_open [OF Cons.prems(1) _ _ _ _ m1 [unfolded e], of "f e"] Cons.prems(2) [of e] by (simp add: e)
  then have "open_dead schema key m' ((rs @ [f e]) @ map f es)"
    by (rule Cons.IH [OF _ _ rest]) (rule Cons.prems(2), simp)
  then show ?case by simp
qed simp

lemma rebuild_dead_closed:
  assumes rows: "\<And>e. e \<in> set es \<Longrightarrow> row_cells views (fst (snd (snd e))) (snd (snd (snd e))) = (Ok (fst (f e)) :: (storage_error, _) outcome) \<and>
        (\<forall>cell\<in>set (fst (f e)). cell_utf8 cell) \<and>
        sequence_at (sv_segment (views ! fst (snd (snd e)))) (snd (snd (snd e))) = (Ok (fst (snd (f e))) :: (storage_error, _) outcome) \<and>
        bt_get stamps (fst (snd e)) = Some (snd (snd (f e)))"
    and run: "rebuild_dead schema key segment_rows stamps views es = Ok segs"
  shows "closed_dead schema segs (map f es)"
proof (cases "es = []")
  case True
  then show ?thesis using run by (simp add: rebuild_dead_def closed_dead_def)
next
  case False
  then obtain m0 m1 m where m0: "rebuild_new schema key = Ok m0"
    and m1: "foldR (merge_dead schema key segment_rows stamps views) m0 es = Ok m1"
    and m: "(if wb_is_empty (rb_buffer m1) then Ok m1 else close_dead m1) = Ok m" "segs = rb_segments m"
    using run by (auto simp: rebuild_dead_def)
  obtain wb where wb: "wb_new schema key = Ok wb"
    and m0': "m0 = \<lparr>rb_segments = [], rb_buffer = wb, rb_births = [], rb_kills = [], rb_base = 0\<rparr>"
    using m0 by (auto simp: rebuild_new_def)
  have "open_dead schema key m0 []"
    using wb_new_ok [OF wb] by (simp add: open_dead_def closed_dead_def m0' buffer_rows_def)
  from merge_dead_all [OF this rows m1] have "open_dead schema key m1 (map f es)" by simp
  then obtain rs1 rs2 where rs: "map f es = rs1 @ rs2" and closed: "closed_dead schema (rb_segments m1) rs1"
    and wb: "wb_ok schema key (rb_buffer m1)" and b: "buffer_rows (rb_buffer m1) = map fst rs2"
      "rb_births m1 = map (fst \<circ> snd) rs2" "rb_kills m1 = map (snd \<circ> snd) rs2"
    by (auto simp: open_dead_def)
  have n: "wb_rows (rb_buffer m1) = length rs2" using b(1) length_buffer_rows [of "rb_buffer m1"] by (metis length_map)
  show ?thesis
  proof (cases "wb_is_empty (rb_buffer m1)")
    case True
    then show ?thesis using closed m n rs by (simp add: wb_is_empty_def)
  next
    case False
    then have "close_dead m1 = Ok m" using m(1) by simp
    from close_dead_closed(1) [OF closed wb b this] show ?thesis by (simp add: rs m(2))
  qed
qed

end
