(* ===== verification/Generation.thy ===== *)
theory Generation
  imports Rebuild
begin

text \<open>
  The generation a compaction plans: whatever the backend fails to read, a plan that is made
  holds exactly the table's rows, live ones sorted and dead ones retired, at the watermark
  the table had.
\<close>

definition compacted :: "nat \<Rightarrow> version list \<Rightarrow> version list" where
  "compacted key vs = sort_key (version_key key) (filter (\<lambda>v. vn_kill v = None) vs)"

definition retired :: "nat \<Rightarrow> version list \<Rightarrow> version list" where
  "retired key vs = sort_key (version_key key) (filter (\<lambda>v. vn_kill v \<noteq> None) vs)"

definition table_compact :: "nat \<Rightarrow> table \<Rightarrow> table" where
  "table_compact key t =
     t\<lparr>tb_latest := compacted key (tb_latest t), tb_retired := tb_retired t @ retired key (tb_latest t)\<rparr>"

section \<open>The segments to merge\<close>

lemma handle_view_shows:
  assumes "handle_shows read stamps h s" "handle_view read h = Ok v"
  shows "view_shows stamps v s"
proof -
  have h: "slot_stands_for read (sh_slot h) s" using assms(1) by (simp add: handle_shows_def)
  have "v = \<lparr>sv_segment = s, sv_live = sh_live h\<rparr>" using handle_view_stands [OF h] assms(2) by simp
  then show ?thesis using assms(1) by (simp add: view_shows_def handle_shows_def)
qed

lemma views_show:
  assumes "list_all2 (handle_shows read stamps) hs ss" "traverseR (handle_view read) hs = Ok views"
  shows "list_all2 (view_shows stamps) views ss"
  using assms
proof (induction arbitrary: views rule: list_all2_induct)
  case (Cons h hs s ss)
  then show ?case using handle_view_shows by auto
qed simp

lemma shared_ok_keyed: "shared_ok objs p g schema key rows sd \<Longrightarrow> keyed key schema"
  by (auto simp: shared_ok_def Let_def wb_ok_def wb_holds_def keyed_def)

lemma all_segments_fit:
  assumes ok: "shared_ok objs p g schema key rows sd" and s: "s \<in> set (all_segments objs sd)"
  shows "rb_schema (sg_batch s) = schema" "sd_knowledge sd = None \<Longrightarrow> sg_sequence s = RowIds"
proof -
  have "segment_fits schema (sd_knowledge sd) s"
  proof (cases "s \<in> set (contents objs (sd_segments sd))")
    case False
    then have "buffer_segment sd = Ok s" using s by (auto simp: all_segments_def buffered_segment_def split: if_splits outcome.splits)
    then show ?thesis using buffer_segment_versions(5,7) [OF ok] by (simp add: segment_fits_def)
  qed (use ok in \<open>simp add: shared_ok_def Let_def\<close>)
  then show "rb_schema (sg_batch s) = schema" "sd_knowledge sd = None \<Longrightarrow> sg_sequence s = RowIds"
    by (simp_all add: segment_fits_def)
qed

lemma length_live_versions [simp]: "length (live_versions stamps s) = rb_num_rows (sg_batch s)"
  by (simp add: live_versions_def)

lemma length_concat_live_versions: "length (concat (map (live_versions stamps) ss)) = total_rows ss"
  by (induction ss) (simp_all add: total_rows_def)

section \<open>The plan\<close>

text \<open>What an entry's row reads back as.\<close>

definition entry_version :: "id_map \<Rightarrow> segment list \<Rightarrow> merge_entry \<Rightarrow> version" where
  "entry_version stamps ss = (\<lambda>(_, _, p). version_at stamps ss p)"

lemma entry_version_at [simp]: "entry_version stamps ss (entry_at key ss p) = version_at stamps ss p"
  by (simp add: entry_version_def entry_at_def case_prod_unfold)

lemma entry_reads:
  assumes views: "list_all2 (view_shows stamps) views ss" and p: "p \<in> set (places ss)" and e: "e = entry_at key ss p"
  shows "row_cells views (fst (snd (snd e))) (snd (snd (snd e))) = (Ok (vn_cells (entry_version stamps ss e)) :: (storage_error, _) outcome)"
    "\<forall>cell\<in>set (vn_cells (entry_version stamps ss e)). cell_utf8 cell"
    "sequence_at (sv_segment (views ! fst (snd (snd e)))) (snd (snd (snd e))) =
      (Ok (vn_born (entry_version stamps ss e)) :: (storage_error, _) outcome)"
    "bt_get stamps (fst (snd e)) = vn_kill (entry_version stamps ss e)"
proof -
  obtain index row where i: "p = (index, row)" by fastforce
  then have r: "index < length ss" "row < rb_num_rows (sg_batch (ss ! index))" using p by (simp_all add: place_in_range)
  then have v: "index < length views" "view_shows stamps (views ! index) (ss ! index)"
    using views by (auto simp: list_all2_conv_all_nth)
  then have s: "sv_segment (views ! index) = ss ! index" "sequenced (ss ! index)" by (simp_all add: view_shows_def)
  then have b: "batch_ok (sg_batch (sv_segment (views ! index)))" "row < rb_num_rows (sg_batch (sv_segment (views ! index)))"
    using r by (simp_all add: sequenced_def)
  have e': "fst (snd (snd e)) = index" "snd (snd (snd e)) = row" "fst (snd e) = row_id (ss ! index) row"
    "entry_version stamps ss e = live_version stamps (ss ! index) row"
    by (simp_all add: e i entry_at_def entry_version_def version_at_def)
  show "row_cells views (fst (snd (snd e))) (snd (snd (snd e))) = (Ok (vn_cells (entry_version stamps ss e)) :: (storage_error, _) outcome)"
    "\<forall>cell\<in>set (vn_cells (entry_version stamps ss e)). cell_utf8 cell"
    using row_cells_of [OF v(1) b] by (simp_all add: e' s(1) live_version_def)
  show "sequence_at (sv_segment (views ! fst (snd (snd e)))) (snd (snd (snd e))) =
      (Ok (vn_born (entry_version stamps ss e)) :: (storage_error, _) outcome)"
    using sequence_at_birth [OF s(2) r(2)] by (simp add: e' s(1) live_version_def)
  show "bt_get stamps (fst (snd e)) = vn_kill (entry_version stamps ss e)" by (simp add: e' live_version_def)
qed

lemma live_merged_versions:
  "map (version_at stamps ss) (merged key stamps ss (live_places stamps ss)) = compacted key (concat (map (live_versions stamps) ss))"
  "map (version_at stamps ss) (merged key stamps ss (dead_places stamps ss)) = retired key (concat (map (live_versions stamps) ss))"
  unfolding merged_versions versions_of_places [symmetric]
  by (simp_all add: compacted_def retired_def live_places_def dead_places_def filter_map comp_def)

lemma renumbers_not:
  assumes "\<not> renumbers (map (entry_at key ss) ps)" "\<forall>s\<in>set ss. sg_sequence s = RowIds" "set ps \<subseteq> set (places ss)"
  shows "map (\<lambda>p. vn_born (version_at stamps ss p)) ps = map word_of_nat [0..<length ps]"
proof (rule nth_equalityI)
  fix i assume "i < length (map (\<lambda>p. vn_born (version_at stamps ss p)) ps)"
  then have i: "i < length ps" by simp
  obtain index row where p: "ps ! i = (index, row)" by fastforce
  then have "index < length ss" using assms(3) i nth_mem place_in_range by (metis subsetD)
  then have "vn_born (version_at stamps ss (ps ! i)) = row_id (ss ! index) row"
    using assms(2) p by (simp add: version_at_def live_version_def birth_def row_id_def)
  moreover have "(i, entry_at key ss (ps ! i)) \<in> set (zip [0..<length ps] (map (entry_at key ss) ps))"
    using i by (force simp: set_zip)
  then have "row_id (ss ! index) row = word_of_nat i"
    using assms(1) by (fastforce simp: renumbers_def list_ex_iff entry_at_def p)
  ultimately show "map (\<lambda>p. vn_born (version_at stamps ss p)) ps ! i = map word_of_nat [0..<length ps] ! i" using i by simp
qed simp

text \<open>What the plan of a new generation promises.\<close>

definition plan_ok :: "schema \<Rightarrow> nat \<Rightarrow> u64 \<Rightarrow> table \<Rightarrow> new_generation \<Rightarrow> bool" where
  "plan_ok schema key rows t g \<longleftrightarrow>
     laid_out 0 (ng_segments g) \<and> unat (ng_base g) = total_rows (ng_segments g) \<and> ng_base g \<le> rows \<and>
     (\<forall>s\<in>set (ng_segments g). sequenced s \<and> 0 < rb_num_rows (sg_batch s) \<and> rb_schema (sg_batch s) = schema \<and>
        (ng_watermark g = None \<longrightarrow> sg_sequence s = RowIds)) \<and>
     concat (map (live_versions []) (ng_segments g)) = compacted key (tb_latest t) \<and>
     (\<forall>s\<in>set (ng_history g). superseded_ok s \<and> rb_schema (sg_batch s) = schema) \<and>
     concat (map history_versions (ng_history g)) = retired key (tb_latest t) \<and>
     (case ng_watermark g of Some w \<Rightarrow> w = tb_mark t | None \<Rightarrow> ng_base g = tb_mark t) \<and>
     wb_new schema key = Ok (ng_fresh g)"

lemma plan_from_views:
  assumes ok: "shared_ok objs p gen schema key rows sd" and snap: "snapshot_of sd = Ok hs"
    and views: "list_all2 (view_shows (sd_tombstones sd)) views (all_segments objs sd)"
    and live: "order = map (entry_at key (all_segments objs sd)) (merged key (sd_tombstones sd) (all_segments objs sd)
        (live_places (sd_tombstones sd) (all_segments objs sd)))"
    and dead: "dead_order = map (entry_at key (all_segments objs sd)) (merged key (sd_tombstones sd) (all_segments objs sd)
        (dead_places (sd_tombstones sd) (all_segments objs sd)))"
    and diverging: "diverging = (sd_knowledge sd \<noteq> None \<or> dead_order \<noteq> [] \<or> renumbers order)"
    and m: "rebuild_live schema key segment_rows diverging views order = Ok m"
    and history: "rebuild_dead schema key segment_rows (sd_tombstones sd) views dead_order = Ok history"
    and fresh: "wb_new schema key = Ok fresh"
    and t: "tb_latest t = latest_versions objs sd" "tb_mark t = watermark sd rows"
  shows "plan_ok schema key rows t \<lparr>ng_segments = rb_segments m, ng_base = rb_base m, ng_history = history,
    ng_watermark = (if diverging then Some (case map_option kn_next (sd_knowledge sd) of Some w \<Rightarrow> w | None \<Rightarrow> rows) else None),
    ng_fresh = fresh\<rparr>"
proof -
  let ?ss = "all_segments objs sd" and ?stamps = "sd_tombstones sd"
  let ?v = "entry_version ?stamps ?ss"
  let ?live = "\<lambda>e. (vn_cells (?v e), vn_born (?v e))"
  let ?dead = "\<lambda>e. (vn_cells (?v e), vn_born (?v e), the (vn_kill (?v e)))"
  have latest: "latest_versions objs sd = concat (map (live_versions ?stamps) ?ss)"
    using snapshot_of_shows(1) [OF ok snap] by simp
  have total: "total_rows ?ss = unat rows"
    using length_latest_versions [OF shared_ok_layout [OF ok]] by (simp add: latest length_concat_live_versions)
  have lp: "set (live_places ?stamps ?ss) \<subseteq> set (places ?ss)" "set (dead_places ?stamps ?ss) \<subseteq> set (places ?ss)"
    by (auto simp: live_places_def dead_places_def)
  have np: "length (places ?ss) = total_rows ?ss"
    using arg_cong [OF versions_of_places [of ?stamps ?ss], of length] by (simp add: length_concat_live_versions)
  have few: "length order \<le> unat rows"
    using np total by (simp add: live live_places_def) (metis length_filter_le)
  have "unat rows < 2 ^ LENGTH(64)" by (rule unsigned_less)
  then have fit: "length order < 2 ^ 64" using few by simp
  have alive: "vn_kill (?v e) = None" if "e \<in> set order" for e
    using that by (auto simp: live live_places_def)
  have killed: "vn_kill (?v e) \<noteq> None" if "e \<in> set dead_order" for e
    using that by (auto simp: dead dead_places_def)
  have closed: "closed_live schema diverging (rb_segments m) (rb_base m) (map ?live order)"
  proof (rule rebuild_live_closed [OF _ fit m])
    fix e assume "e \<in> set order"
    then obtain q where "q \<in> set (places ?ss)" "e = entry_at key ?ss q" using lp by (auto simp: live)
    from entry_reads [OF views this] show "row_cells views (fst (snd (snd e))) (snd (snd (snd e))) = (Ok (fst (?live e)) :: (storage_error, _) outcome) \<and>
        (\<forall>cell\<in>set (fst (?live e)). cell_utf8 cell) \<and>
        sequence_at (sv_segment (views ! fst (snd (snd e)))) (snd (snd (snd e))) = (Ok (snd (?live e)) :: (storage_error, _) outcome)"
      by simp
  qed
  have gone: "closed_dead schema history (map ?dead dead_order)"
  proof (rule rebuild_dead_closed [OF _ history])
    fix e assume e: "e \<in> set dead_order"
    then obtain q where "q \<in> set (places ?ss)" "e = entry_at key ?ss q" using lp by (auto simp: dead)
    from entry_reads [OF views this] show "row_cells views (fst (snd (snd e))) (snd (snd (snd e))) = (Ok (fst (?dead e)) :: (storage_error, _) outcome) \<and>
        (\<forall>cell\<in>set (fst (?dead e)). cell_utf8 cell) \<and>
        sequence_at (sv_segment (views ! fst (snd (snd e)))) (snd (snd (snd e))) = (Ok (fst (snd (?dead e))) :: (storage_error, _) outcome) \<and>
        bt_get ?stamps (fst (snd e)) = Some (snd (snd (?dead e)))"
      using killed [OF e] by auto
  qed
  have ids: "map snd (map ?live order) = map word_of_nat [0..<length (map ?live order)]" if "\<not> diverging"
  proof -
    have "sd_knowledge sd = None" "\<not> renumbers order" using that diverging by auto
    then have "\<forall>s\<in>set ?ss. sg_sequence s = RowIds" "\<not> renumbers (map (entry_at key ?ss) (merged key ?stamps ?ss (live_places ?stamps ?ss)))"
      using all_segments_fit(2) [OF ok] live by simp_all
    from renumbers_not [OF this(2,1)] lp(1) show ?thesis by (simp add: live comp_def)
  qed
  have "map (\<lambda>(cells, born). \<lparr>vn_cells = cells, vn_born = born, vn_kill = None\<rparr>) (map ?live order) = map ?v order"
    using alive by (auto simp: version.splits)
  also have "map ?v order = compacted key (tb_latest t)"
    using live_merged_versions(1) [of ?stamps ?ss key] by (simp add: live comp_def t(1) latest)
  finally have versions: "concat (map (live_versions []) (rb_segments m)) = compacted key (tb_latest t)"
    using closed_live_versions [OF closed ids] by simp
  have "map dead_version (map ?dead dead_order) = map ?v dead_order"
    using killed by (auto simp: dead_version_def)
  also have "map ?v dead_order = retired key (tb_latest t)"
    using live_merged_versions(2) [of ?stamps ?ss key] by (simp add: dead comp_def t(1) latest)
  finally have hist: "(\<forall>s\<in>set history. superseded_ok s \<and> rb_schema (sg_batch s) = schema) \<and> concat (map history_versions history) = retired key (tb_latest t)"
    using gone by (simp add: closed_dead_def)
  have base: "unat (rb_base m) = length order" using closed closed_live_length [OF closed] by (simp add: closed_live_def)
  have same: "rb_base m = rows" if "\<not> diverging"
  proof -
    have "length dead_order = 0" using that diverging by simp
    then have "dead_places ?stamps ?ss = []" by (simp add: dead)
    then have "live_places ?stamps ?ss = places ?ss"
      by (auto simp: dead_places_def live_places_def filter_empty_conv intro!: filter_True)
    then show ?thesis using base np total by (simp add: live word_unat_eq_iff)
  qed
  have "rb_base m \<le> rows" using base few by (simp add: word_le_nat_alt)
  moreover have "sd_knowledge sd = None" if "\<not> diverging" using that diverging by simp
  ultimately show ?thesis
    using closed versions hist fresh same
    by (auto simp: plan_ok_def closed_live_def t(2) watermark_def split: option.split)
qed

context storage_backend
begin

lemma plan_generation_ok:
  assumes ok: "store_ok be objects good log_ok st" and run: "plan_generation st = Ok g"
  shows "plan_ok (st_schema st) (st_ordering_key st) (st_rows st) (table_of objects st) g"
proof -
  let ?objs = "objects (st_world st)" and ?sd = "st_shared st" and ?key = "st_ordering_key st"
  note sh = store_ok_shared [OF ok]
  obtain hs views live dead m history fresh where snap: "snapshot_of ?sd = Ok hs"
    and v: "traverseR (handle_view (st_read st)) hs = Ok views"
    and c: "collect_rows ?key views = (Ok (live, dead) :: (storage_error, _) outcome)"
    and m: "rebuild_live (st_schema st) ?key (st_segment_rows st)
        (sd_knowledge ?sd \<noteq> None \<or> merge_order dead \<noteq> [] \<or> renumbers (merge_order live)) views (merge_order live) = Ok m"
    and history: "rebuild_dead (st_schema st) ?key (st_segment_rows st) (sd_tombstones ?sd) views (merge_order dead) = Ok history"
    and fresh: "wb_new (st_schema st) ?key = Ok fresh"
    and g: "g = \<lparr>ng_segments = rb_segments m, ng_base = rb_base m, ng_history = history,
      ng_watermark = (if sd_knowledge ?sd \<noteq> None \<or> merge_order dead \<noteq> [] \<or> renumbers (merge_order live)
        then Some (case map_option kn_next (sd_knowledge ?sd) of Some w \<Rightarrow> w | None \<Rightarrow> st_rows st) else None),
      ng_fresh = fresh\<rparr>"
    using run by (auto simp: plan_generation_def store_snapshot_def Let_def split: prod.splits)
  note S = snapshot_of_shows(1) [OF sh snap]
  have "traverseR (handle_view (stored ?objs)) hs = Ok views"
  proof (rule traverseR_mono [OF _ v])
    fix h v assume "h \<in> set hs" "handle_view (st_read st) h = Ok v"
    then show "handle_view (stored ?objs) h = Ok v"
      using snapshot_slots [OF snap, of h] by (intro handle_view_agree [OF st_read_agrees [OF ok]]) (auto simp: slots_of_def)
  qed
  from views_show [OF conjunct1 [OF S] this]
  have views: "list_all2 (view_shows (sd_tombstones ?sd)) views (all_segments ?objs ?sd)" .
  have "\<forall>s\<in>set (all_segments ?objs ?sd). keyed ?key (rb_schema (sg_batch s))"
    using all_segments_fit(1) [OF sh] shared_ok_keyed [OF sh] by simp
  from collect_rows_Ok [OF views this, where ?'e = storage_error] c
  have live: "live = map (entry_at ?key (all_segments ?objs ?sd)) (live_places (sd_tombstones ?sd) (all_segments ?objs ?sd))"
    and dead: "dead = map (entry_at ?key (all_segments ?objs ?sd)) (dead_places (sd_tombstones ?sd) (all_segments ?objs ?sd))"
    by simp_all
  note lay = laid_out_all [OF sh]
  show ?thesis
    unfolding g
    by (rule plan_from_views [OF sh snap views _ _ refl m history fresh])
      (simp_all add: live dead merge_order_places [OF lay live_places_def] merge_order_places [OF lay dead_places_def]
        table_of_def next_sequence_def)
qed

end

end
