(* ===== verification/Compacted.thy ===== *)
theory Compacted
  imports Generation
begin

text \<open>
  A compaction on any backend that keeps its contract: until the manifest is written the
  store and its table are untouched, whatever fails; from then on the table is the compacted
  one, whatever fails after.
\<close>

section \<open>Names\<close>

lemma starts_with_iff: "starts_with prefix name \<longleftrightarrow> (\<exists>rest. name = prefix @ rest)"
  by (auto simp: starts_with_def) (metis append_take_drop_id)

lemma segment_name_prefix: "segment_name g b = segment_prefix g @ padded 20 (unat b) @ ascii ''.tlyseg''"
  by (simp add: segment_name_def segment_prefix_def)

lemma starts_with_segment_prefix: "starts_with (segment_prefix g) (segment_name g' b) \<longleftrightarrow> g = g'"
proof
  assume "starts_with (segment_prefix g) (segment_name g' b)"
  then obtain rest where "segment_name g' b = segment_prefix g @ rest" by (auto simp: starts_with_iff)
  then have "padded 10 (unat g') @ 45 # (padded 20 (unat b) @ ascii ''.tlyseg'') = padded 10 (unat g) @ 45 # rest"
    by (simp add: segment_name_def segment_prefix_def ascii_def)
  from split_at_mark [OF this dash_not_padded(1) dash_not_padded(1)]
  show "g = g'" by (simp add: padded_inject word_unat_eq_iff)
qed (auto simp: starts_with_iff segment_name_prefix)

lemma starts_with_others:
  "\<not> starts_with (delete_log_prefix g) (segment_name g' b)" "\<not> starts_with (ascii ''hist-'') (segment_name g' b)"
  "\<not> starts_with (segment_prefix g) (history_name i)" "\<not> starts_with (delete_log_prefix g) (history_name i)"
  "\<not> starts_with (ascii ''seg-'') (history_name i)" "\<not> starts_with (ascii ''del-'') (history_name i)"
  by (auto simp: starts_with_iff segment_name_def history_name_def segment_prefix_def delete_log_prefix_def ascii_def)

text \<open>Neither cleaning touches what the store's slots name.\<close>

lemma stray_not_slot:
  assumes "shared_ok objs p g schema key rows sd" "is_stray g' sections name" "g' \<noteq> g"
    and "ms_history sections = map history_name [0..<length (sd_history sd)]"
  shows "name \<notin> slot_names sd"
proof
  assume "name \<in> slot_names sd"
  from slot_names_kinds [OF assms(1) this] assms(2,3,4) starts_with_others starts_with_segment_prefix
  show False by (auto simp: is_stray_def)
qed

lemma stale_not_slot:
  assumes "shared_ok objs p g schema key rows sd" "is_stale g name"
  shows "name \<notin> slot_names sd"
proof
  assume "name \<in> slot_names sd"
  from slot_names_kinds [OF assms(1) this] assms(2) starts_with_others starts_with_segment_prefix
  show False by (auto simp: is_stale_def)
qed

section \<open>Writing beside the store\<close>

text \<open>An iteration whose every step may rely on what the steps before it kept.\<close>

context preorder_relation
begin

lemma leads_for_from:
  assumes "\<And>x s'. x \<in> set xs \<Longrightarrow> R s0 s' \<Longrightarrow> leads R (f x) s'" "R s0 s"
  shows "leads R (forS f xs) s"
  using assms
proof (induction xs arbitrary: s)
  case (Cons x xs)
  then show ?case by (auto intro!: leads_then Cons.IH intro: trans)
qed simp

end

text \<open>The objects that hold these segments.\<close>

definition segments_on :: "('d \<Rightarrow> rstring \<Rightarrow> bytes option) \<Rightarrow> (rstring \<times> segment) list \<Rightarrow> 'd store \<Rightarrow> bool" where
  "segments_on objs xs st \<longleftrightarrow> (\<forall>(name, s)\<in>set xs. objs (st_world st) name = Some (encode_segment s))"

lemma segments_on_other:
  "segments_on objs xs st \<Longrightarrow> (\<And>n. n \<in> fst ` set xs \<Longrightarrow> objs (st_world st') n = objs (st_world st) n) \<Longrightarrow> segments_on objs xs st'"
  by (force simp: segments_on_def)

lemma segments_on_append: "segments_on objs (xs @ ys) st \<longleftrightarrow> segments_on objs xs st \<and> segments_on objs ys st"
  by (auto simp: segments_on_def)

lemma still_trans:
  "still be objects good log_ok s t \<Longrightarrow> still be objects good log_ok t u \<Longrightarrow> still be objects good log_ok s u"
  by (rule still.trans)

lemma still_ok: "still be objects good log_ok st st' \<Longrightarrow> store_ok be objects good log_ok st \<Longrightarrow> store_ok be objects good log_ok st'"
  by (simp add: still_def)

lemma still_same:
  "still be objects good log_ok st st' \<Longrightarrow> st_shared st' = st_shared st \<and> st_backend st' = st_backend st \<and>
     st_generation st' = st_generation st \<and> st_schema st' = st_schema st \<and> st_ordering_key st' = st_ordering_key st \<and>
     st_slot_shared st' = st_slot_shared st \<and> st_rows st' = st_rows st"
  by (simp add: still_def unchanged_def)

context storage_backend
begin

lemma list_objects_still: "leads (still be objects good log_ok) (list_objects be) st"
  by (simp add: leads_def list_objects_def still.refl)

lemma list_objects_public:
  assumes "store_ok be objects good log_ok st" "list_objects be st = (Ok names, st')" "name \<in> set names"
  shows "public_name name"
proof -
  have "good (st_world st)" using assms(1) by (simp add: store_ok_def)
  then show ?thesis using list [of "st_world st"] assms(2,3) by (auto simp: list_objects_def)
qed

lemma remove_object_still:
  assumes "public_name name" "store_ok be objects good log_ok st \<Longrightarrow> name \<notin> slot_names (st_shared st)"
  shows "leads (still be objects good log_ok) (remove_object be name) st"
  unfolding remove_object_def
proof (rule in_world_still)
  fix r d' assume ok: "store_ok be objects good log_ok st" and m: "be_remove be name (st_world st) = (r, d')"
  have "good (st_world st)" using ok by (simp add: store_ok_def)
  from remove [OF this assms(1) m] assms(2) [OF ok]
  show "good d' \<and> (\<forall>h. log_ok (st_world st) h \<longrightarrow> log_ok d' h) \<and>
      (\<forall>name. name \<in> slot_names (st_shared st) \<longrightarrow> objects d' name = objects (st_world st) name)"
    by auto
qed

lemma pre_clean_still:
  assumes ok: "store_ok be objects good log_ok st0" and s: "still be objects good log_ok st0 st" and g: "g' \<noteq> st_generation st0"
  shows "leads (still be objects good log_ok) (pre_clean be g' (st_sections st0)) st"
  unfolding pre_clean_def
proof (rule still.leads_bind [OF list_objects_still])
  fix names st1 assume run: "list_objects be st = (Ok names, st1)" and "still be objects good log_ok st st1"
  then have s1: "still be objects good log_ok st0 st1" using s by (metis still.trans)
  show "leads (still be objects good log_ok)
      (forS (\<lambda>name. whenS (is_stray g' (st_sections st0) name) (remove_object be name)) names) st1"
  proof (rule still.leads_for_from [OF _ s1])
    fix name st2 assume n: "name \<in> set names" and s2: "still be objects good log_ok st0 st2"
    show "leads (still be objects good log_ok) (whenS (is_stray g' (st_sections st0) name) (remove_object be name)) st2"
    proof (intro still.leads_when remove_object_still)
      show "public_name name" by (rule list_objects_public [OF still_ok [OF s ok] run n])
      assume stray: "is_stray g' (st_sections st0) name" and ok2: "store_ok be objects good log_ok st2"
      have "ms_history (st_sections st0) = map history_name [0..<length (sd_history (st_shared st2))]"
        using ok still_same [OF s2] by (simp add: store_ok_def)
      then show "name \<notin> slot_names (st_shared st2)"
        using stray_not_slot [OF store_ok_shared [OF ok2] stray] g still_same [OF s2] by simp
    qed
  qed
qed

lemma clean_up_still: "leads (still be objects good log_ok) (clean_up be) st"
proof (rule stillI)
  have "leads unchanged (ignoreS (remove_object be name)) s" for name s
    by (rule same.leads_ignore) (simp add: remove_object_def)
  then have "leads unchanged (bindS (list_objects be)
      (forS (\<lambda>name. whenS (is_stale g name) (ignoreS (remove_object be name))))) s" for g s
    by (intro same.leads_bind same.leads_for same.leads_when) (simp_all add: leads_def list_objects_def same.refl)
  then show "leads unchanged (clean_up be) st"
    using same.leads_ignore by (fastforce simp: leads_def clean_up_def)
next
  assume ok: "store_ok be objects good log_ok st"
  have "leads (still be objects good log_ok) (bindS (list_objects be)
      (forS (\<lambda>name. whenS (is_stale (st_generation st) name) (ignoreS (remove_object be name))))) st"
  proof (rule still.leads_bind [OF list_objects_still])
    fix names st1 assume run: "list_objects be st = (Ok names, st1)" and s1: "still be objects good log_ok st st1"
    show "leads (still be objects good log_ok)
        (forS (\<lambda>name. whenS (is_stale (st_generation st) name) (ignoreS (remove_object be name))) names) st1"
    proof (rule still.leads_for_from [OF _ s1])
      fix name st2 assume n: "name \<in> set names" and s2: "still be objects good log_ok st st2"
      show "leads (still be objects good log_ok) (whenS (is_stale (st_generation st) name) (ignoreS (remove_object be name))) st2"
      proof (intro still.leads_when still.leads_ignore remove_object_still)
        show "public_name name" by (rule list_objects_public [OF ok run n])
        assume stale: "is_stale (st_generation st) name" and ok2: "store_ok be objects good log_ok st2"
        then show "name \<notin> slot_names (st_shared st2)"
          using stale_not_slot [OF store_ok_shared [OF ok2]] still_same [OF s2] by simp
      qed
    qed
  qed
  from still.leads_ignore [OF this] show "leads (still be objects good log_ok) (clean_up be) st"
    by (simp add: leads_def clean_up_def)
qed

text \<open>A write that succeeds has put the object there, and changed no other.\<close>

lemma write_object_ends:
  assumes "good (st_world st)" "public_name name"
  shows "ends (write_object be name b) st (\<lambda>r st'. (\<forall>n. n \<noteq> name \<longrightarrow> objects (st_world st') n = objects (st_world st) n) \<and>
    (is_ok r \<longrightarrow> objects (st_world st') name = Some b))"
proof -
  obtain r d' where w: "be_write be name b (st_world st) = (r, d')" by fastforce
  show ?thesis
    using written [OF assms w] by (cases r) (auto simp: ends_def write_object_def in_world_eq w)
qed

lemma write_segments_ends:
  assumes ok: "store_ok be objects good log_ok st0" and s: "still be objects good log_ok st0 st"
    and names: "\<forall>(name, _)\<in>set xs. public_name name \<and> name \<notin> slot_names (st_shared st0)" "distinct (map fst xs)"
  shows "ends (write_segments be xs) st (\<lambda>r st'. still be objects good log_ok st0 st' \<and>
    (\<forall>n. n \<notin> fst ` set xs \<longrightarrow> objects (st_world st') n = objects (st_world st) n) \<and> (is_ok r \<longrightarrow> segments_on objects xs st'))"
  using s names
proof (induction xs arbitrary: st)
  case Nil
  then show ?case by (simp add: write_segments_def ends_def segments_on_def)
next
  case (Cons x xs)
  obtain name sg where x: "x = (name, sg)" by fastforce
  let ?Q = "\<lambda>r st'. still be objects good log_ok st0 st' \<and>
    (\<forall>n. n \<notin> fst ` set (x # xs) \<longrightarrow> objects (st_world st') n = objects (st_world st) n) \<and>
    (is_ok r \<longrightarrow> segments_on objects (x # xs) st')"
  have pub: "public_name name" "name \<notin> slot_names (st_shared st)" "name \<notin> fst ` set xs"
    using Cons.prems still_same [OF Cons.prems(1)] x by auto
  have "good (st_world st)" using still_ok [OF Cons.prems(1) ok] by (simp add: store_ok_def)
  note W = write_object_ends [OF this pub(1), of "encode_segment sg"]
  have L: "leads (still be objects good log_ok) (write_object be name (encode_segment sg)) st"
    by (rule write_object_still [OF pub(1)]) (use pub(2) in simp)
  obtain r st1 where w: "write_object be name (encode_segment sg) st = (r, st1)" by fastforce
  have s1: "still be objects good log_ok st0 st1" using L w Cons.prems(1) still.trans by (fastforce simp: leads_def)
  have o1: "\<forall>n. n \<noteq> name \<longrightarrow> objects (st_world st1) n = objects (st_world st) n"
    "is_ok r \<Longrightarrow> objects (st_world st1) name = Some (encode_segment sg)"
    using W w by (simp_all add: ends_def)
  have rest: "ends (write_segments be xs) st1 ?Q" if "is_ok r"
  proof (rule ends_mono [OF Cons.IH [OF s1]])
    fix r' st' assume a: "still be objects good log_ok st0 st' \<and>
      (\<forall>n. n \<notin> fst ` set xs \<longrightarrow> objects (st_world st') n = objects (st_world st1) n) \<and> (is_ok r' \<longrightarrow> segments_on objects xs st')"
    then show "?Q r' st'" using o1 that pub(3) by (auto simp: segments_on_def x)
  qed (use Cons.prems in auto)
  have "write_segments be (x # xs) = thenS (write_object be name (encode_segment sg)) (write_segments be xs)"
    by (simp add: write_segments_def x)
  then show ?case using rest s1 o1 w by (cases r) (auto simp: ends_then ends_def [of "write_object _ _ _"] x)
qed

end

lemma unchanged_generation [simp]:
  "st_shared (st\<lparr>st_generation := x\<rparr>) = st_shared st" "st_world (st\<lparr>st_generation := x\<rparr>) = st_world st"
  by simp_all

text \<open>The names of a new generation.\<close>

definition new_objects :: "u64 \<Rightarrow> manifest_sections \<Rightarrow> new_generation \<Rightarrow> (rstring \<times> segment) list" where
  "new_objects generation sections g =
     zip (history_names sections (ng_history g)) (ng_history g) @ named_segments generation (ng_segments g)"

lemma laid_out_distinct:
  "laid_out n ss \<Longrightarrow> \<forall>s\<in>set ss. 0 < rb_num_rows (sg_batch s) \<Longrightarrow> distinct (map sg_base_row_id ss)"
proof (induction n ss rule: laid_out.induct)
  case (2 n s ss)
  have n: "unat (sg_base_row_id s) = n"
    using 2(2) laid_out_bound [of n "s # ss"] by (simp add: unat_of_nat)
  have "sg_base_row_id t \<noteq> sg_base_row_id s" if "t \<in> set ss" for t
    using laid_out_base [of "n + rb_num_rows (sg_batch s)" ss t] 2(2,3) that n by auto
  then have "sg_base_row_id s \<notin> sg_base_row_id ` set ss" by (metis imageE)
  then show ?case using 2 by simp
qed simp

lemma length_history_names [simp]: "length (history_names sections hs) = length hs"
  by (simp add: history_names_def)

lemma new_names:
  assumes sh: "shared_ok objs p gen schema key rows sd" and sections: "length (ms_history sections) = length (sd_history sd)"
    and lay: "laid_out 0 (ng_segments g)" "\<forall>s\<in>set (ng_segments g). 0 < rb_num_rows (sg_batch s)" and g': "g' \<noteq> gen"
  shows "\<forall>(name, _)\<in>set (zip (history_names sections (ng_history g)) (ng_history g)).
      public_name name \<and> name \<notin> slot_names sd"
    "distinct (map fst (zip (history_names sections (ng_history g)) (ng_history g)))"
    "\<forall>(name, _)\<in>set (named_segments g' (ng_segments g)). public_name name \<and> name \<notin> slot_names sd"
    "distinct (map fst (named_segments g' (ng_segments g)))"
    "fst ` set (named_segments g' (ng_segments g)) \<inter> set (history_names sections (ng_history g)) = {}"
    "MANIFEST \<notin> fst ` set (new_objects g' sections g)" "WAL \<notin> fst ` set (new_objects g' sections g)"
proof -
  have "history_name (length (sd_history sd) + i) \<notin> slot_names sd" for i
    using slot_names_kinds [OF sh, of "history_name (length (sd_history sd) + i)"] by (auto simp: history_name_inject)
  then show "\<forall>(name, _)\<in>set (zip (history_names sections (ng_history g)) (ng_history g)).
      public_name name \<and> name \<notin> slot_names sd"
    by (auto simp: history_names_def sections set_zip)
  show "distinct (map fst (zip (history_names sections (ng_history g)) (ng_history g)))"
    by (simp add: history_names_def distinct_map inj_on_def history_name_inject)
  have "segment_name g' b \<notin> slot_names sd" for b
    using slot_names_kinds [OF sh, of "segment_name g' b"] g' by (auto simp: segment_name_inject)
  then show "\<forall>(name, _)\<in>set (named_segments g' (ng_segments g)). public_name name \<and> name \<notin> slot_names sd"
    by (auto simp: named_segments_def)
  have "map fst (named_segments g' (ng_segments g)) = map (segment_name g') (map sg_base_row_id (ng_segments g))"
    by (simp add: named_segments_def)
  then show "distinct (map fst (named_segments g' (ng_segments g)))"
    using laid_out_distinct [OF lay] by (simp add: distinct_map inj_on_def segment_name_inject)
  show "fst ` set (named_segments g' (ng_segments g)) \<inter> set (history_names sections (ng_history g)) = {}"
    by (auto simp: named_segments_def history_names_def)
  show "MANIFEST \<notin> fst ` set (new_objects g' sections g)" "WAL \<notin> fst ` set (new_objects g' sections g)"
    by (auto simp: new_objects_def named_segments_def history_names_def names_differ(1,2,5,6) [symmetric] dest!: set_zip_leftD)
qed

section \<open>The commit\<close>

lemma ends_thenI:
  assumes "ends m s (\<lambda>r s'. I s' \<and> (is_ok r \<longrightarrow> G s'))" "\<And>r s'. I s' \<Longrightarrow> \<not> is_ok r \<Longrightarrow> Q r s'"
    and "\<And>s'. I s' \<Longrightarrow> G s' \<Longrightarrow> ends n s' Q"
  shows "ends (thenS m n) s Q"
  unfolding ends_then by (rule ends_mono [OF assms(1)]) (auto intro!: passesI assms(2,3))

lemma ends_leads_conj: "leads R m s \<Longrightarrow> ends m s Q \<Longrightarrow> ends m s (\<lambda>r s'. R s s' \<and> Q r s')"
  by (simp add: ends_def leads_def split: prod.splits)

definition committed ::
  "'d backend \<Rightarrow> ('d \<Rightarrow> rstring \<Rightarrow> bytes option) \<Rightarrow> ('d \<Rightarrow> bool) \<Rightarrow> ('d \<Rightarrow> log_handle \<Rightarrow> bool) \<Rightarrow>
   'd store \<Rightarrow> new_generation \<Rightarrow> manifest_sections \<Rightarrow> 'd store \<Rightarrow> bool" where
  "committed be objects good log_ok st g next st' \<longleftrightarrow>
     ms_history next = ms_history (st_sections st) @ history_names (st_sections st) (ng_history g) \<and>
     (\<exists>s. still be objects good log_ok st s \<and>
        (st_backend st = None \<and> st' = s \<or>
         st_backend st = Some be \<and> st' = s\<lparr>st_generation := st_generation st + 1\<rparr> \<and>
         segments_on objects (new_objects (st_generation st + 1) (st_sections st) g) s))"

context storage_backend
begin

lemma commit_generation_ends:
  assumes ok: "store_ok be objects good log_ok st" and b: "st_backend st = Some be"
    and plan: "plan_ok (st_schema st) (st_ordering_key st) (st_rows st) (table_of objects st) g"
    and sections: "ms_history sections = ms_history (st_sections st) @ history_names (st_sections st) (ng_history g)"
  shows "ends (commit_generation be g sections) st (\<lambda>r st'.
    (\<not> is_ok r \<and> still be objects good log_ok st st') \<or> (\<exists>next. r = Ok next \<and> committed be objects good log_ok st g next st'))"
proof -
  let ?g = "st_generation st + 1" and ?still = "still be objects good log_ok st"
  let ?Q = "\<lambda>r st'. (\<not> is_ok r \<and> ?still st') \<or> (\<exists>next. r = Ok next \<and> committed be objects good log_ok st g next st')"
  let ?hist = "zip (history_names (st_sections st) (ng_history g)) (ng_history g)" and ?segs = "named_segments ?g (ng_segments g)"
  have hist: "ms_history (st_sections st) = map history_name [0..<length (sd_history (st_shared st))]"
    using ok by (simp add: store_ok_def)
  have lay: "laid_out 0 (ng_segments g)" "\<forall>s\<in>set (ng_segments g). 0 < rb_num_rows (sg_batch s)"
    using plan by (simp_all add: plan_ok_def)
  have len: "length (ms_history (st_sections st)) = length (sd_history (st_shared st))" by (simp add: hist)
  have gen: "?g \<noteq> st_generation st" by simp
  note N = new_names [OF store_ok_shared [OF ok] len lay gen]
  have keep: "?still s'" if "still be objects good log_ok s s'" "?still s" for s s' using still.trans [OF that(2,1)] .
  have fail: "?Q r s" if "?still s" "\<not> is_ok r" for r s using that by simp
  show ?thesis
  proof (cases "traverseR (\<lambda>(name, s). record_of name s) ?segs :: (storage_error, _) outcome")
    case (Ok records)
    let ?next = "sections\<lparr>ms_segments := records\<rparr>"
    have finish: "ends (thenS (modifyS (\<lambda>st. st\<lparr>st_generation := ?g\<rparr>)) (returnS ?next)) s ?Q"
      if "?still s" "segments_on objects (new_objects ?g (st_sections st) g) s" for s
    proof -
      have "committed be objects good log_ok st g ?next (s\<lparr>st_generation := ?g\<rparr>)"
        unfolding committed_def by (intro conjI exI [of _ s] disjI2 that b refl) (simp add: sections)
      then show ?thesis by (simp add: ends_then)
    qed
    have manifest: "ends (thenS (write_object be MANIFEST m) (thenS (modifyS (\<lambda>st. st\<lparr>st_generation := ?g\<rparr>)) (returnS ?next))) s ?Q"
      if s: "?still s" and on: "segments_on objects (new_objects ?g (st_sections st) g) s" for s m
    proof (rule ends_thenI [where I = ?still and G = "segments_on objects (new_objects ?g (st_sections st) g)"])
      have "good (st_world s)" using still_ok [OF s ok] by (simp add: store_ok_def)
      note W = write_object_ends [OF this names_public(3), of m]
      have "leads (still be objects good log_ok) (write_object be MANIFEST m) s"
        by (rule write_object_still [OF names_public(3) store_ok_names(1)])
      from ends_leads_conj [OF this W] show "ends (write_object be MANIFEST m) s
          (\<lambda>r s'. ?still s' \<and> (is_ok r \<longrightarrow> segments_on objects (new_objects ?g (st_sections st) g) s'))"
      proof (rule ends_mono)
        fix r s' assume a: "still be objects good log_ok s s' \<and> (\<forall>n. n \<noteq> MANIFEST \<longrightarrow> objects (st_world s') n = objects (st_world s) n) \<and>
          (is_ok r \<longrightarrow> objects (st_world s') MANIFEST = Some m)"
        then have "segments_on objects (new_objects ?g (st_sections st) g) s'"
          using N(6) by (intro segments_on_other [OF on]) metis
        then show "?still s' \<and> (is_ok r \<longrightarrow> segments_on objects (new_objects ?g (st_sections st) g) s')" using keep a s by blast
      qed
    qed (use fail finish in blast)+
    have segs: "ends (thenS (write_segments be ?segs) (thenS (write_object be MANIFEST m)
        (thenS (modifyS (\<lambda>st. st\<lparr>st_generation := ?g\<rparr>)) (returnS ?next)))) s ?Q"
      if s: "?still s" and on: "segments_on objects ?hist s" for s m
    proof (rule ends_thenI [where I = ?still and G = "segments_on objects (new_objects ?g (st_sections st) g)"])
      show "ends (write_segments be ?segs) s (\<lambda>r s'. ?still s' \<and> (is_ok r \<longrightarrow> segments_on objects (new_objects ?g (st_sections st) g) s'))"
      proof (rule ends_mono [OF write_segments_ends [OF ok s N(3,4)]])
        fix r s' assume a: "?still s' \<and> (\<forall>n. n \<notin> fst ` set ?segs \<longrightarrow> objects (st_world s') n = objects (st_world s) n) \<and>
          (is_ok r \<longrightarrow> segments_on objects ?segs s')"
        have "segments_on objects ?hist s'"
        proof (rule segments_on_other [OF on])
          fix n assume "n \<in> fst ` set ?hist"
          then have "n \<in> set (history_names (st_sections st) (ng_history g))" by (auto dest!: set_zip_leftD)
          then show "objects (st_world s') n = objects (st_world s) n" using a N(5) by blast
        qed
        then show "?still s' \<and> (is_ok r \<longrightarrow> segments_on objects (new_objects ?g (st_sections st) g) s')"
          using a by (simp add: new_objects_def segments_on_append)
      qed
    qed (use fail manifest in blast)+
    have hists: "ends (thenS (write_segments be ?hist) (thenS (write_segments be ?segs) (thenS (write_object be MANIFEST m)
        (thenS (modifyS (\<lambda>st. st\<lparr>st_generation := ?g\<rparr>)) (returnS ?next))))) s ?Q" if s: "?still s" for s m
      by (rule ends_thenI [where I = ?still and G = "segments_on objects ?hist"])
        (rule ends_mono [OF write_segments_ends [OF ok s N(1,2)]], blast, use fail segs in blast, use fail segs in blast)
    have "ends (thenS (pre_clean be ?g (st_sections st)) (thenS (write_segments be ?hist) (thenS (write_segments be ?segs)
        (thenS (write_object be MANIFEST m) (thenS (modifyS (\<lambda>st. st\<lparr>st_generation := ?g\<rparr>)) (returnS ?next)))))) st ?Q" for m
      by (rule ends_step [OF pre_clean_still [OF ok still.refl gen]]) (use fail hists in blast)+
    then show ?thesis using Ok by (simp add: commit_generation_def ends_def bindS_def Let_def)
  qed (simp_all add: commit_generation_def ends_def bindS_def Let_def still.refl)
qed

lemma commit_sections_ends:
  assumes ok: "store_ok be objects good log_ok st"
    and plan: "plan_ok (st_schema st) (st_ordering_key st) (st_rows st) (table_of objects st) g"
  shows "ends (commit_sections g) st (\<lambda>r st'.
    (\<not> is_ok r \<and> still be objects good log_ok st st') \<or> (\<exists>next. r = Ok next \<and> committed be objects good log_ok st g next st'))"
proof (cases "st_backend st")
  case None
  then show ?thesis
    using still.refl by (fastforce simp: ends_def commit_sections_def committed_def next_sections_def Let_def)
next
  case (Some b)
  then have "st_backend st = Some be" using ok by (auto simp: store_ok_def)
  from commit_generation_ends [OF ok this plan, of "next_sections (st_sections st) g"] this
  show ?thesis by (simp add: ends_def commit_sections_def next_sections_def Let_def)
qed

end

end
