(* ===== verification/Adopt.thy ===== *)
theory Adopt
  imports Compacted
begin

text \<open>
  Memory adopts a committed generation, and what a compaction as a whole does to the table.
\<close>

lemma set_compacted: "set (compacted key vs) \<subseteq> set vs" "set (retired key vs) \<subseteq> set vs"
  by (auto simp: compacted_def retired_def)

lemma resident_stands:
  assumes "rb_schema (sg_batch s) = sh_schema shared"
    and "\<And>name. named = Some name \<Longrightarrow> sh_backend shared \<Longrightarrow> objs name = Some (encode_segment s) \<and> segment_ok s"
  shows "slot_stands_for (stored objs) (slot_resident s shared named) s"
  using assms by (auto simp: slot_stands_for_def slot_resident_def slot_evictable_def stored_def)

text \<open>The shared state of the new generation.\<close>

definition adopted_shared :: "bool \<Rightarrow> slot_shared \<Rightarrow> u64 \<Rightarrow> new_generation \<Rightarrow> segment_slot list \<Rightarrow> nat \<Rightarrow> shared" where
  "adopted_shared p shared generation g history n =
     \<lparr>sd_segments = map (\<lambda>s. slot_resident s shared (if p then Some (segment_name generation (sg_base_row_id s)) else None)) (ng_segments g),
      sd_buffer = ng_fresh g, sd_buffer_base = ng_base g,
      sd_knowledge = map_option (\<lambda>next. \<lparr>kn_next = next, kn_buffer_base = next, kn_explicit = None\<rparr>) (ng_watermark g),
      sd_tombstones = [],
      sd_history = history @ map (\<lambda>(s, name). slot_resident s shared (if p then Some name else None))
        (zip (ng_history g) (map (\<lambda>index. history_name (n + index)) [0..<length (ng_history g)]))\<rparr>"

lemma adopted_contents:
  assumes plan: "plan_ok schema key rows t g" and shared: "sh_schema shared = schema"
    and segs: "\<And>s. s \<in> set (ng_segments g) \<Longrightarrow> p \<Longrightarrow> objs (segment_name generation (sg_base_row_id s)) = Some (encode_segment s) \<and> segment_ok s"
    and hists: "\<And>i. i < length (ng_history g) \<Longrightarrow> p \<Longrightarrow>
      objs (history_name (n + i)) = Some (encode_segment (ng_history g ! i)) \<and> segment_ok (ng_history g ! i)"
    and old: "length (contents objs history) = length history" "length history = n"
      "\<And>i. i < n \<Longrightarrow> history_layout objs p i (history ! i) (contents objs history ! i)"
  shows "contents objs (sd_segments (adopted_shared p shared generation g history n)) = ng_segments g"
    "list_all2 (segment_layout objs p generation) (sd_segments (adopted_shared p shared generation g history n)) (ng_segments g)"
    "contents objs (sd_history (adopted_shared p shared generation g history n)) = contents objs history @ ng_history g"
    "\<forall>i<length history + length (ng_history g). history_layout objs p i
       (sd_history (adopted_shared p shared generation g history n) ! i) ((contents objs history @ ng_history g) ! i)"
proof -
  let ?sd = "adopted_shared p shared generation g history n"
  have schemas: "\<forall>s\<in>set (ng_segments g). rb_schema (sg_batch s) = schema \<and> sequenced s \<and> 0 < rb_num_rows (sg_batch s)"
    "\<forall>s\<in>set (ng_history g). rb_schema (sg_batch s) = schema \<and> superseded_ok s"
    using plan by (simp_all add: plan_ok_def)
  show layout: "list_all2 (segment_layout objs p generation) (sd_segments ?sd) (ng_segments g)"
    unfolding list_all2_conv_all_nth
  proof (intro conjI allI impI)
    fix i assume "i < length (sd_segments ?sd)"
    then have i: "i < length (ng_segments g)" by (simp add: adopted_shared_def)
    let ?s = "ng_segments g ! i"
    have mem: "?s \<in> set (ng_segments g)" using i by simp
    have "slot_stands_for (stored objs)
        (slot_resident ?s shared (if p then Some (segment_name generation (sg_base_row_id ?s)) else None)) ?s"
      by (rule resident_stands) (use schemas(1) mem segs [OF mem] shared in \<open>auto split: if_splits\<close>)
    then show "segment_layout objs p generation (sd_segments ?sd ! i) ?s"
      using i schemas(1) mem by (simp add: segment_layout_def adopted_shared_def slot_resident_def)
  qed (simp add: adopted_shared_def)
  have "list_all2 (\<lambda>sl s. slot_stands_for (stored objs) sl s) (sd_segments ?sd) (ng_segments g)"
    using layout by (rule list_all2_mono) (simp add: segment_layout_def)
  then show "contents objs (sd_segments ?sd) = ng_segments g" by (rule contents_all2)
  let ?new = "map (\<lambda>(s, name). slot_resident s shared (if p then Some name else None))
        (zip (ng_history g) (map (\<lambda>index. history_name (n + index)) [0..<length (ng_history g)]))"
  have new: "slot_stands_for (stored objs) (?new ! i) (ng_history g ! i) \<and>
      sl_name (?new ! i) = (if p then Some (history_name (n + i)) else None)" if i: "i < length (ng_history g)" for i
  proof -
    have "slot_stands_for (stored objs) (slot_resident (ng_history g ! i) shared (if p then Some (history_name (n + i)) else None))
        (ng_history g ! i)"
      by (rule resident_stands) (use schemas(2) i hists [OF i] shared in \<open>auto split: if_splits\<close>)
    then show ?thesis using i by (simp add: slot_resident_def)
  qed
  have hist: "sd_history ?sd = history @ ?new" by (simp add: adopted_shared_def)
  have "contents objs ?new = ng_history g"
    by (rule contents_all2) (use new in \<open>simp add: list_all2_conv_all_nth\<close>)
  then show "contents objs (sd_history ?sd) = contents objs history @ ng_history g" by (simp add: hist contents_append)
  show "\<forall>i<length history + length (ng_history g). history_layout objs p i (sd_history ?sd ! i) ((contents objs history @ ng_history g) ! i)"
  proof (intro allI impI)
    fix i assume i: "i < length history + length (ng_history g)"
    show "history_layout objs p i (sd_history ?sd ! i) ((contents objs history @ ng_history g) ! i)"
    proof (cases "i < n")
      case True
      then show ?thesis using old by (simp add: hist nth_append)
    next
      case False
      then have j: "i - n < length (ng_history g)" "n + (i - n) = i" using i old(2) by simp_all
      have "superseded_ok (ng_history g ! (i - n))" using schemas(2) j(1) by simp
      then show ?thesis
        using new [OF j(1)] False j old(1,2) by (simp add: hist nth_append history_layout_def)
    qed
  qed
qed

lemma adopted_shared_ok:
  assumes sh: "shared_ok objs p gen schema key rows sd" and plan: "plan_ok schema key rows t g"
    and t: "tb_latest t = latest_versions objs sd" "tb_mark t = watermark sd rows"
      "tb_retired t = concat (map history_versions (contents objs (sd_history sd)))"
    and shared: "sh_schema shared = schema" and n: "n = length (sd_history sd)"
    and segs: "\<And>s. s \<in> set (ng_segments g) \<Longrightarrow> p \<Longrightarrow> objs (segment_name generation (sg_base_row_id s)) = Some (encode_segment s) \<and> segment_ok s"
    and hists: "\<And>i. i < length (ng_history g) \<Longrightarrow> p \<Longrightarrow>
      objs (history_name (n + i)) = Some (encode_segment (ng_history g ! i)) \<and> segment_ok (ng_history g ! i)"
  shows "shared_ok objs p generation schema key (ng_base g) (adopted_shared p shared generation g (sd_history sd) n)"
    "latest_versions objs (adopted_shared p shared generation g (sd_history sd) n) = compacted key (tb_latest t)"
    "concat (map history_versions (contents objs (sd_history (adopted_shared p shared generation g (sd_history sd) n)))) =
      tb_retired t @ retired key (tb_latest t)"
    "watermark (adopted_shared p shared generation g (sd_history sd) n) (ng_base g) = tb_mark t"
proof -
  let ?sd = "adopted_shared p shared generation g (sd_history sd) n"
  note C = shared_ok_contents [OF sh]
  have A: "contents objs (sd_segments ?sd) = ng_segments g"
    "list_all2 (segment_layout objs p generation) (sd_segments ?sd) (ng_segments g)"
    "contents objs (sd_history ?sd) = contents objs (sd_history sd) @ ng_history g"
    "\<forall>i<length (sd_history sd) + length (ng_history g). history_layout objs p i
       (sd_history ?sd ! i) ((contents objs (sd_history sd) @ ng_history g) ! i)"
    by (rule adopted_contents [OF plan shared segs hists C(2) n [symmetric]]; use C(3) n in simp)+
  have fields: "sd_buffer ?sd = ng_fresh g" "sd_buffer_base ?sd = ng_base g" "sd_tombstones ?sd = []"
    "sd_knowledge ?sd = map_option (\<lambda>next. \<lparr>kn_next = next, kn_buffer_base = next, kn_explicit = None\<rparr>) (ng_watermark g)"
    "length (sd_history ?sd) = length (sd_history sd) + length (ng_history g)"
    by (simp_all add: adopted_shared_def)
  note P = plan [unfolded plan_ok_def]
  have fresh: "wb_ok schema key (ng_fresh g) \<and> wb_rows (ng_fresh g) = 0" using P wb_new_ok by blast
  show latest: "latest_versions objs ?sd = compacted key (tb_latest t)"
    using P fresh by (simp add: latest_versions_def A(1) fields buffer_versions_empty)
  show hist: "concat (map history_versions (contents objs (sd_history ?sd))) = tb_retired t @ retired key (tb_latest t)"
    using P by (simp add: A(3) t(3))
  show mark: "watermark ?sd (ng_base g) = tb_mark t"
    using P by (cases "ng_watermark g") (simp_all add: watermark_def fields)
  have "timely (watermark ?sd (ng_base g)) v" if "v \<in> set (table_versions objs ?sd)" for v
  proof -
    have "v \<in> set (tb_latest t) \<union> set (tb_retired t)"
      using that set_compacted [of key "tb_latest t"] by (auto simp: table_versions_split latest hist)
    then have "v \<in> set (table_versions objs sd)" by (auto simp: table_versions_split t)
    from shared_ok_timely [OF sh this] show ?thesis by (simp add: mark t(2))
  qed
  moreover have "\<forall>s\<in>set (ng_segments g). segment_fits schema (sd_knowledge ?sd) s"
    using P by (simp add: segment_fits_def fields)
  moreover have "knowledge_ok 0 (sd_knowledge ?sd)" by (cases "ng_watermark g") (simp_all add: fields knowledge_ok_def)
  ultimately show "shared_ok objs p generation schema key (ng_base g) ?sd"
    using P A fresh C(2) by (simp add: shared_ok_def Let_def fields)
qed

section \<open>Compaction\<close>

lemma adopt_generation_shared:
  assumes "length (ms_history sections) = length (sd_history (st_shared st))"
  shows "st_shared (adopt_generation g (history_names sections (ng_history g)) st) =
    adopted_shared (st_backend st \<noteq> None) (st_slot_shared st) (st_generation st) g (sd_history (st_shared st))
      (length (sd_history (st_shared st)))"
  using assms by (cases "st_backend st") (simp_all add: adopt_generation_def adopted_shared_def history_names_def Let_def)

lemma adopt_generation_fields [simp]:
  "st_rows (adopt_generation g names st) = ng_base g" "st_world (adopt_generation g names st) = st_world st"
  "st_backend (adopt_generation g names st) = st_backend st" "st_wal (adopt_generation g names st) = st_wal st"
  "st_slot_shared (adopt_generation g names st) = st_slot_shared st" "st_schema (adopt_generation g names st) = st_schema st"
  "st_ordering_key (adopt_generation g names st) = st_ordering_key st" "st_sections (adopt_generation g names st) = st_sections st"
  "st_generation (adopt_generation g names st) = st_generation st"
  by (simp_all add: adopt_generation_def Let_def)

lemma adopted_slots:
  "s \<in> set (ng_segments g) \<Longrightarrow> \<exists>sl\<in>set (sd_segments (adopted_shared p shared generation g history n)). sl_state sl = Some s"
  "i < length (ng_history g) \<Longrightarrow>
   \<exists>sl\<in>set (sd_history (adopted_shared p shared generation g history n)). sl_state sl = Some (ng_history g ! i)"
proof -
  show "s \<in> set (ng_segments g) \<Longrightarrow> \<exists>sl\<in>set (sd_segments (adopted_shared p shared generation g history n)). sl_state sl = Some s"
    by (auto simp: adopted_shared_def slot_resident_def)
  assume i: "i < length (ng_history g)"
  let ?new = "map (\<lambda>(s, name). slot_resident s shared (if p then Some name else None))
        (zip (ng_history g) (map (\<lambda>index. history_name (n + index)) [0..<length (ng_history g)]))"
  have "?new ! i \<in> set ?new" by (rule nth_mem) (use i in simp)
  moreover have "sl_state (?new ! i) = Some (ng_history g ! i)" using i by (simp add: slot_resident_def)
  ultimately show "\<exists>sl\<in>set (sd_history (adopted_shared p shared generation g history n)). sl_state sl = Some (ng_history g ! i)"
    by (auto simp: adopted_shared_def simp del: set_map)
qed

lemma adopt_generation_store:
  assumes ok: "store_ok be objects good log_ok st"
    and plan: "plan_ok (st_schema st) (st_ordering_key st) (st_rows st) (table_of objects st) g"
    and committed: "committed be objects good log_ok st g next st1"
    and st3: "st3 = adopt_generation g (history_names (st_sections st1) (ng_history g)) (st1\<lparr>st_sections := next\<rparr>)"
    and sizes: "sizes_ok st3"
  shows "store_ok be objects good log_ok st3" "table_of objects st3 = table_compact (st_ordering_key st) (table_of objects st)"
proof -
  let ?p = "st_backend st \<noteq> None" and ?n = "length (sd_history (st_shared st))"
  obtain s where s: "still be objects good log_ok st s"
    and st1: "st_backend st = None \<and> st1 = s \<or>
         st_backend st = Some be \<and> st1 = s\<lparr>st_generation := st_generation st + 1\<rparr> \<and>
         segments_on objects (new_objects (st_generation st + 1) (st_sections st) g) s"
    and sect: "ms_history next = ms_history (st_sections st) @ history_names (st_sections st) (ng_history g)"
    using committed by (auto simp: committed_def)
  note S = still_same [OF s]
  have ok_s: "store_ok be objects good log_ok s" "table_of objects s = table_of objects st"
    using s ok by (simp_all add: still_def)
  have names: "ms_history (st_sections st) = map history_name [0..<?n]" "ms_history (st_sections s) = map history_name [0..<?n]"
    using ok ok_s(1) S by (simp_all add: store_ok_def)
  have like_s: "st_shared st1 = st_shared st" "st_backend st1 = st_backend st" "st_schema st1 = st_schema st"
    "st_ordering_key st1 = st_ordering_key st" "st_slot_shared st1 = st_slot_shared st" "st_world st1 = st_world s"
    "st_sections st1 = st_sections s" "st_wal st1 = st_wal s"
    using st1 S by auto
  have len: "length (ms_history (st_sections st1)) = length (sd_history (st_shared (st1\<lparr>st_sections := next\<rparr>)))"
    by (simp add: like_s names)
  have shared3: "st_shared st3 = adopted_shared ?p (st_slot_shared st) (st_generation st1) g (sd_history (st_shared st)) ?n"
    using adopt_generation_shared [OF len, of g] by (simp add: st3 like_s)
  let ?objs = "objects (st_world s)"
  have sh: "shared_ok ?objs ?p (st_generation s) (st_schema st) (st_ordering_key st) (st_rows st) (st_shared st)"
    using store_ok_shared [OF ok_s(1)] S by simp
  have t: "tb_latest (table_of objects st) = latest_versions ?objs (st_shared st)"
    "tb_mark (table_of objects st) = watermark (st_shared st) (st_rows st)"
    "tb_retired (table_of objects st) = concat (map history_versions (contents ?objs (sd_history (st_shared st))))"
    using ok_s(2) S by (simp_all add: table_of_def next_sequence_def)
  have schema: "sh_schema (st_slot_shared st) = st_schema st" using ok by (simp add: store_ok_def)
  have fine: "segment_ok sg" if ?p "sl \<in> set (sd_segments (st_shared st3)) \<union> set (sd_history (st_shared st3))" "sl_state sl = Some sg" for sl sg
    using sizes that by (auto simp: sizes_ok_def st3 like_s)
  have gen: "st_generation st1 = st_generation st + 1" "segments_on objects (new_objects (st_generation st + 1) (st_sections st) g) s" if ?p
    using that st1 by auto
  have segs: "?objs (segment_name (st_generation st1) (sg_base_row_id sg)) = Some (encode_segment sg) \<and> segment_ok sg"
    if sg: "sg \<in> set (ng_segments g)" and p: ?p for sg
  proof -
    have "?objs (segment_name (st_generation st1) (sg_base_row_id sg)) = Some (encode_segment sg)"
      using gen [OF p] sg by (auto simp: segments_on_def new_objects_def named_segments_def)
    moreover have "segment_ok sg"
      using adopted_slots(1) [OF sg, of ?p "st_slot_shared st" "st_generation st1" "sd_history (st_shared st)" ?n] fine [OF p]
      by (auto simp: shared3)
    ultimately show ?thesis by simp
  qed
  have hists: "?objs (history_name (?n + i)) = Some (encode_segment (ng_history g ! i)) \<and> segment_ok (ng_history g ! i)"
    if i: "i < length (ng_history g)" and p: ?p for i
  proof -
    have "(history_name (?n + i), ng_history g ! i) \<in> set (zip (history_names (st_sections st) (ng_history g)) (ng_history g))"
      using i by (auto simp: set_zip history_names_def names intro!: exI [of _ i])
    then have "?objs (history_name (?n + i)) = Some (encode_segment (ng_history g ! i))"
      using gen(2) [OF p] by (auto simp: segments_on_def new_objects_def)
    moreover have "segment_ok (ng_history g ! i)"
      using adopted_slots(2) [OF i, of ?p "st_slot_shared st" "st_generation st1" "sd_history (st_shared st)" ?n] fine [OF p]
      by (auto simp: shared3)
    ultimately show ?thesis by simp
  qed
  note A = adopted_shared_ok [OF sh plan t schema refl segs hists]
  have three: "st_rows st3 = ng_base g" "st_world st3 = st_world s" "st_backend st3 = st_backend st" "st_wal st3 = st_wal s"
    "st_slot_shared st3 = st_slot_shared st" "st_schema st3 = st_schema st" "st_ordering_key st3 = st_ordering_key st"
    "st_sections st3 = next" "st_generation st3 = st_generation st1"
    by (simp_all add: st3 like_s)
  have "length (sd_history (st_shared st3)) = ?n + length (ng_history g)" by (simp add: shared3 adopted_shared_def)
  then have "ms_history next = map history_name [0..<length (sd_history (st_shared st3))]"
    using upt_add_eq_append [of 0 ?n "length (ng_history g)"]
    by (simp add: sect names history_names_def map_shift_upt [symmetric] comp_def)
  then show "store_ok be objects good log_ok st3"
    using ok_s(1) A(1) S by (cases "st_wal s") (simp_all add: store_ok_def three shared3)
  show "table_of objects st3 = table_compact (st_ordering_key st) (table_of objects st)"
    using A by (simp add: table_of_def three shared3 next_sequence_def table_compact_def t)
qed

definition compact_ends ::
  "'d backend \<Rightarrow> ('d \<Rightarrow> rstring \<Rightarrow> bytes option) \<Rightarrow> ('d \<Rightarrow> bool) \<Rightarrow> ('d \<Rightarrow> log_handle \<Rightarrow> bool) \<Rightarrow>
   nat \<Rightarrow> table \<Rightarrow> (storage_error, unit) outcome \<Rightarrow> 'd store \<Rightarrow> bool" where
  "compact_ends be objects good log_ok key t r st' \<longleftrightarrow>
     (\<not> is_ok r \<and> represents be objects good log_ok t st') \<or> represents be objects good log_ok (table_compact key t) st'"

context storage_backend
begin

lemma compact_table:
  assumes ok: "store_ok be objects good log_ok st"
  shows "ends compact st (compact_ends be objects good log_ok (st_ordering_key st) (table_of objects st))"
proof -
  let ?t = "table_of objects st"
  let ?Q = "compact_ends be objects good log_ok (st_ordering_key st) ?t"
  note R = store_ok_represents [OF ok]
  have via: "st_backend st \<in> {None, Some be}" using R by (rule represents_backend)
  have install: "ends (install_generation g nsec) st1 ?Q"
    if plan: "plan_generation st = Ok g" and c: "committed be objects good log_ok st g nsec st1" for g nsec st1
  proof -
    let ?st3 = "adopt_generation g (history_names (st_sections st1) (ng_history g)) (st1\<lparr>st_sections := nsec\<rparr>)"
    have R3: "represents be objects good log_ok (table_compact (st_ordering_key st) ?t) ?st3"
      using adopt_generation_store [OF ok plan_generation_ok [OF ok plan] c refl] c via
      by (auto simp: represents_def committed_def still_def unchanged_def)
    have clean: "leads (still be objects good log_ok) (with_backend clean_up) s"
      if "st_backend s \<in> {None, Some be}" for s
      using that clean_up_still by (auto simp: leads_def with_backend_def still.refl split: option.split)
    have "ends (thenS reset_wal (with_backend clean_up)) ?st3 ?Q"
    proof (rule still_step [OF still.refl reset_wal_still])
      show "?Q r s" if "still be objects good log_ok ?st3 s" "\<not> is_ok r" for r s
        using represents_still [OF R3 that(1)] by (simp add: compact_ends_def)
      show "ends (with_backend clean_up) s ?Q" if s: "still be objects good log_ok ?st3 s" for s
        by (rule ends_leads [OF clean [OF represents_backend [OF represents_still [OF R3 s]]]])
          (use represents_still [OF represents_still [OF R3 s]] in \<open>simp add: compact_ends_def\<close>)
    qed
    then show ?thesis by (simp add: ends_def install_generation_def thenS_def bindS_def Let_def)
  qed
  have commit: "ends (bindS (commit_sections g) (install_generation g)) st ?Q" if plan: "plan_generation st = Ok g" for g
    unfolding ends_bind
    by (rule ends_mono [OF commit_sections_ends [OF ok plan_generation_ok [OF ok plan]]], rule passesI)
      (use install [OF plan] represents_still [OF R] in \<open>auto simp: compact_ends_def\<close>)
  have body: "ends (bindS (\<lambda>st. (plan_generation st, st)) (\<lambda>g. bindS (commit_sections g) (install_generation g))) st ?Q"
  proof (cases "plan_generation st")
    case (Ok g)
    then show ?thesis using commit by (simp add: ends_bind ends_def [of "\<lambda>st. (plan_generation st, st)"])
  qed (use R in \<open>simp_all add: ends_bind ends_def [of "\<lambda>st. (plan_generation st, st)"] compact_ends_def\<close>)
  then show ?thesis
    using R by (simp add: compact_def ends_then ends_def [of refuse_read_only] refuse_read_only_def compact_ends_def)
qed

end

end
