(* ===== verification/Axis.thy ===== *)
theory Axis
  imports Adopt
begin

text \<open>
  The life of a table: any sequence of appends, flushes, deletions, supersessions and
  compactions, with evictions and faults of its segments in between, each of which may fail
  at any call of the file system.  What the table was known to hold at a coordinate the
  watermark has passed never changes again.
\<close>

section \<open>Steps of the abstract table\<close>

inductive table_step :: "table \<Rightarrow> table \<Rightarrow> bool" where
  Stay: "table_step t t"
| Append: "unat (tb_mark t) + 1 < 2 ^ 64 \<Longrightarrow> table_step t (table_append row t)"
| Delete: "unat (tb_mark t) + 1 < 2 ^ 64 \<Longrightarrow> table_step t (table_delete ids t)"
| Add: "unat (tb_mark t) + 1 < 2 ^ 64 \<Longrightarrow> table_step t (table_add_rows rows t)"
| Supersede: "unat (tb_mark t) + 1 < 2 ^ 64 \<Longrightarrow> table_step t (table_supersede rows victims t)"
| Compact: "table_step t (table_compact key t)"

definition table_known :: "u64 \<Rightarrow> table \<Rightarrow> row_value list multiset" where
  "table_known coord t = known_at coord (tb_latest t @ tb_retired t)"

lemma known_at_append: "known_at coord (vs @ ws) = known_at coord vs + known_at coord ws"
  by (simp add: known_at_def)

lemma known_at_mset: "mset vs = mset ws \<Longrightarrow> known_at coord vs = known_at coord ws"
  by (metis known_at_def mset_filter mset_map)

lemma known_at_kill:
  assumes "coord < stamp"
  shows "known_at coord (kill_versions ids stamp vs) = known_at coord vs"
proof -
  have "map vn_cells (filter (visible coord) (map (\<lambda>(rid, v). if word_of_nat rid \<in> ids \<and> vn_kill v = None
      then v\<lparr>vn_kill := Some stamp\<rparr> else v) (zip [n..<n + length vs] vs))) = map vn_cells (filter (visible coord) vs)" for n
  proof (induction vs arbitrary: n)
    case (Cons v vs)
    have "[n..<n + length (v # vs)] = n # [Suc n..<Suc n + length vs]" by (subst upt_rec) (simp del: upt_Suc)
    then show ?case using Cons [of "Suc n"] assms by (auto simp: visible_def)
  qed simp
  from this [of 0] show ?thesis by (simp add: known_at_def kill_versions_def)
qed

lemma known_at_unborn: "\<forall>v\<in>set vs. coord < vn_born v \<Longrightarrow> known_at coord vs = {#}"
  by (auto simp: known_at_def visible_def filter_empty_conv not_le)

lemma add_versions_latest:
  "tb_latest (fold (add_version born) rows t) = tb_latest t @ map (\<lambda>row. \<lparr>vn_cells = row, vn_born = born, vn_kill = None\<rparr>) rows"
  "tb_retired (fold (add_version born) rows t) = tb_retired t"
  by (induction rows arbitrary: t) (simp_all add: add_version_def)

lemma table_known_add:
  assumes "coord < tb_mark t"
  shows "table_known coord (table_add_rows rows t) = table_known coord t"
  using assms
  by (simp add: table_known_def table_add_rows_def add_versions_latest known_at_append known_at_unborn)

lemma table_known_kill: "coord < stamp \<Longrightarrow> table_known coord (table_kill ids stamp t) = table_known coord t"
  by (simp add: table_known_def table_kill_def known_at_append known_at_kill)

lemma compact_known: "table_known coord (table_compact key t) = table_known coord t"
proof -
  have "mset (compacted key (tb_latest t) @ tb_retired t @ retired key (tb_latest t)) = mset (tb_latest t @ tb_retired t)"
    using multiset_partition [of "mset (tb_latest t)" "\<lambda>v. vn_kill v = None"] by (simp add: compacted_def retired_def)
  from known_at_mset [OF this, of coord] show ?thesis by (simp add: table_known_def table_compact_def)
qed

text \<open>The watermark only rises, and what is below it is settled.\<close>

lemma mark_rises: "unat (mark :: u64) + 1 < 2 ^ 64 \<Longrightarrow> mark \<le> mark + 1"
  by (simp add: word_le_nat_alt unat_Suc)

lemma table_step_settled:
  assumes "table_step t t'"
  shows "tb_mark t \<le> tb_mark t'" "coord < tb_mark t \<Longrightarrow> table_known coord t' = table_known coord t"
proof -
  show "tb_mark t \<le> tb_mark t'"
    using assms
    by cases (simp_all add: table_append_def table_delete_def table_kill_def table_add_rows_mark table_supersede_def table_compact_def
        mark_rises)
  have mark: "table_known coord (t\<lparr>tb_mark := m\<rparr>) = table_known coord t" for t m by (simp add: table_known_def)
  have append: "table_append row t = table_add_rows [row] t" for row t
    by (simp add: table_append_def table_add_rows_def add_version_def)
  show "table_known coord t' = table_known coord t" if "coord < tb_mark t"
    using assms that
    by cases (simp_all add: append table_delete_def table_supersede_def table_known_kill table_known_add compact_known mark)
qed

section \<open>Steps of a store\<close>

text \<open>Segments come and go in memory: evicted when the backend can yield them again, faulted in.\<close>

definition slot_moves :: "read_object \<Rightarrow> segment_slot \<Rightarrow> segment_slot \<Rightarrow> bool" where
  "slot_moves read sl sl' \<longleftrightarrow>
     sl' = sl \<or> slot_evictable sl \<and> sl' = sl\<lparr>sl_state := None\<rparr> \<or> slot_loaded read sl = Ok sl'"

definition residency_moves :: "'d store \<Rightarrow> 'd store \<Rightarrow> bool" where
  "residency_moves st st' \<longleftrightarrow>
     (\<exists>segs hists. list_all2 (slot_moves (st_read st)) (sd_segments (st_shared st)) segs \<and>
        list_all2 (slot_moves (st_read st)) (sd_history (st_shared st)) hists \<and>
        st' = st\<lparr>st_shared := (st_shared st)\<lparr>sd_segments := segs, sd_history := hists\<rparr>\<rparr>)"

definition row_ok :: "row_value list \<Rightarrow> bool" where
  "row_ok row \<longleftrightarrow> (\<forall>cell\<in>set row. cell_utf8 cell)"

definition room :: "nat \<Rightarrow> 'd store \<Rightarrow> bool" where
  "room n st \<longleftrightarrow> unat (st_rows st) + n < 2 ^ 64 \<and> unat (next_sequence st) + 1 < 2 ^ 64"

inductive store_step :: "'d store \<Rightarrow> 'd store \<Rightarrow> bool" where
  Append: "store_append row st = (r, st') \<Longrightarrow> row_ok row \<Longrightarrow> room 1 st \<Longrightarrow> sizes_ok st' \<Longrightarrow> store_step st st'"
| Flush: "flush st = (r', st') \<Longrightarrow> sizes_ok st' \<Longrightarrow> store_step st st'"
| Tombstone: "tombstone ids st = (r, st') \<Longrightarrow> room 0 st \<Longrightarrow> sizes_ok st' \<Longrightarrow> store_step st st'"
| Supersede: "supersede rows victims st = (r, st') \<Longrightarrow> \<forall>row\<in>set rows. row_ok row \<Longrightarrow> room (length rows) st \<Longrightarrow>
    sizes_ok st' \<Longrightarrow> store_step st st'"
| Compact: "compact st = (r', st') \<Longrightarrow> sizes_ok st' \<Longrightarrow> store_step st st'"
| Residency: "residency_moves st st' \<Longrightarrow> sizes_ok st' \<Longrightarrow> store_step st st'"

context storage_backend
begin

lemma slot_moves_stands:
  assumes "slot_stands_for (stored objs) sl s" "slot_moves read sl sl'" "reads_agree read (stored objs) sl"
  shows "slot_stands_for (stored objs) sl' s" "sl_name sl' = sl_name sl" "sl_meta sl' = sl_meta sl"
proof -
  consider "sl' = sl" | "slot_evictable sl" "sl' = sl\<lparr>sl_state := None\<rparr>" | "slot_loaded read sl = Ok sl'"
    using assms(2) by (auto simp: slot_moves_def)
  then have "slot_stands_for (stored objs) sl' s \<and> sl_name sl' = sl_name sl \<and> sl_meta sl' = sl_meta sl"
  proof cases
    case 2
    then show ?thesis using slot_evicted_stands [OF assms(1)] by simp
  next
    case 3
    then obtain s' where s': "slot_segment read sl = Ok s'" "sl' = sl\<lparr>sl_state := Some s'\<rparr>" by (auto simp: slot_loaded_def)
    then have "slot_segment (stored objs) sl = Ok s'" using slot_segment_agree [OF assms(3)] by simp
    then have "s' = s" using slot_segment_stands [OF assms(1)] by simp
    then show ?thesis using slot_loaded_stands [OF assms(1)] s'(2) by simp
  qed (use assms(1) in simp)
  then show "slot_stands_for (stored objs) sl' s" "sl_name sl' = sl_name sl" "sl_meta sl' = sl_meta sl" by simp_all
qed

lemma residency_same:
  assumes ok: "store_ok be objects good log_ok st" and moves: "residency_moves st st'"
  shows "store_ok be objects good log_ok st' \<and> table_of objects st' = table_of objects st"
proof -
  obtain segs hists where m: "list_all2 (slot_moves (st_read st)) (sd_segments (st_shared st)) segs"
      "list_all2 (slot_moves (st_read st)) (sd_history (st_shared st)) hists"
    and st': "st' = st\<lparr>st_shared := (st_shared st)\<lparr>sd_segments := segs, sd_history := hists\<rparr>\<rparr>"
    using moves by (auto simp: residency_moves_def)
  let ?objs = "objects (st_world st)" and ?sd = "st_shared st" and ?p = "st_backend st \<noteq> None"
  let ?sd' = "?sd\<lparr>sd_segments := segs, sd_history := hists\<rparr>"
  note sh = store_ok_shared [OF ok]
  note C = shared_ok_contents [OF sh]
  have agree: "reads_agree (st_read st) (stored ?objs) sl" if "sl \<in> set (sd_segments ?sd) \<union> set (sd_history ?sd)" for sl
    by (rule st_read_agrees [OF ok]) (use that in \<open>simp add: slots_of_def\<close>)
  have seg: "list_all2 (segment_layout ?objs ?p (st_generation st)) segs (contents ?objs (sd_segments ?sd))"
    unfolding list_all2_conv_all_nth
  proof (intro conjI allI impI)
    show len: "length segs = length (contents ?objs (sd_segments ?sd))"
      using m(1) C(1) by (metis list_all2_lengthD)
    fix i assume i: "i < length segs"
    then have j: "i < length (sd_segments ?sd)" using m(1) by (simp add: list_all2_lengthD)
    have l: "segment_layout ?objs ?p (st_generation st) (sd_segments ?sd ! i) (contents ?objs (sd_segments ?sd) ! i)"
      and mv: "slot_moves (st_read st) (sd_segments ?sd ! i) (segs ! i)"
      using C(1) m(1) j by (simp_all add: list_all2_conv_all_nth)
    have "reads_agree (st_read st) (stored ?objs) (sd_segments ?sd ! i)" by (rule agree) (use j in simp)
    from slot_moves_stands [OF _ mv this, of "contents ?objs (sd_segments ?sd) ! i"] l
    show "segment_layout ?objs ?p (st_generation st) (segs ! i) (contents ?objs (sd_segments ?sd) ! i)"
      by (simp add: segment_layout_def)
  qed
  have hist: "history_layout ?objs ?p i (hists ! i) (contents ?objs (sd_history ?sd) ! i)" if i: "i < length (sd_history ?sd)" for i
  proof -
    have mv: "slot_moves (st_read st) (sd_history ?sd ! i) (hists ! i)" using m(2) i by (simp add: list_all2_conv_all_nth)
    have "reads_agree (st_read st) (stored ?objs) (sd_history ?sd ! i)" by (rule agree) (use i in simp)
    from slot_moves_stands [OF _ mv this, of "contents ?objs (sd_history ?sd) ! i"] C(3) [OF i] show ?thesis by (simp add: history_layout_def)
  qed
  have len: "length hists = length (sd_history ?sd)" using m(2) by (simp add: list_all2_lengthD)
  have "contents ?objs segs = contents ?objs (sd_segments ?sd)"
    by (rule contents_all2) (rule list_all2_mono [OF seg], simp add: segment_layout_def)
  moreover have "contents ?objs hists = contents ?objs (sd_history ?sd)"
    by (rule contents_all2) (use hist len C(2) in \<open>simp add: list_all2_conv_all_nth history_layout_def\<close>)
  ultimately have con: "contents ?objs (sd_segments ?sd') = contents ?objs (sd_segments ?sd)"
    "contents ?objs (sd_history ?sd') = contents ?objs (sd_history ?sd)" by simp_all
  have "buffer_birth ?sd' row = buffer_birth ?sd row" for row
    by (cases "sd_knowledge ?sd") (auto simp: buffer_birth_def split: option.split)
  then have same: "buffer_versions ?sd' = buffer_versions ?sd" "watermark ?sd' = watermark ?sd"
    by (simp_all add: buffer_versions_def watermark_def fun_eq_iff)
  have latest: "latest_versions ?objs ?sd' = latest_versions ?objs ?sd" "table_versions ?objs ?sd' = table_versions ?objs ?sd"
    by (simp_all only: latest_versions_def table_versions_def con same) simp_all
  have "shared_ok ?objs ?p (st_generation st) (st_schema st) (st_ordering_key st) (st_rows st) ?sd'"
    using sh seg hist len unfolding shared_ok_def Let_def con latest same by simp
  then have "store_ok be objects good log_ok st'"
    using ok len by (cases "st_wal st") (simp_all add: store_ok_def st')
  moreover have "table_of objects st' = table_of objects st"
    using latest con(2) by (simp add: table_of_def st' next_sequence_def same)
  ultimately show ?thesis by simp
qed

text \<open>A step of the store is a step of its table.\<close>

lemma store_step_table:
  assumes "store_step st st'" "store_ok be objects good log_ok st"
  shows "store_ok be objects good log_ok st' \<and> table_step (table_of objects st) (table_of objects st')"
proof -
  note R = store_ok_represents [OF assms(2)]
  have mark: "tb_mark (table_of objects st) = next_sequence st" by (simp add: table_of_def)
  have become: "store_ok be objects good log_ok st' \<and> table_step (table_of objects st) (table_of objects st')"
    if "represents be objects good log_ok t st'" "sizes_ok st'" "table_step (table_of objects st) t" for t
    using that by (simp add: represents_def)
  show ?thesis
    using assms(1)
  proof cases
    case (Append row r)
    then have "append_ends be objects good log_ok row (table_of objects st) (st_rows st) r st'"
      by (intro ends_run [OF append_table [OF R]]) (simp_all add: row_ok_def room_def)
    then show ?thesis
      using Append become table_step.Stay table_step.Append [of "table_of objects st" row] mark
      by (auto simp: append_ends_def room_def)
  next
    case (Flush r)
    have "quiet be objects good log_ok st st'" using flush_quiet [of st] Flush(1) by (simp add: leads_def)
    then show ?thesis using become [OF represents_quiet [OF R]] Flush(2) table_step.Stay by blast
  next
    case (Tombstone ids r)
    then have "delete_ends be objects good log_ok ids (table_of objects st) r st'"
      by (intro ends_run [OF tombstone_table [OF assms(2)]]) (simp_all add: room_def)
    then show ?thesis
      using Tombstone become table_step.Stay table_step.Delete [of "table_of objects st" ids] mark
      by (auto simp: delete_ends_def room_def)
  next
    case (Supersede rows victims r)
    then have "supersede_ends be objects good log_ok rows victims (table_of objects st) r st'"
      by (intro ends_run [OF supersede_table [OF assms(2)]]) (simp_all add: room_def row_ok_def)
    then show ?thesis
      using Supersede become table_step.Add [of "table_of objects st"] table_step.Supersede [of "table_of objects st" rows victims] mark
      by (auto simp: supersede_ends_def room_def)
  next
    case (Compact r)
    have "compact_ends be objects good log_ok (st_ordering_key st) (table_of objects st) r st'"
      by (rule ends_run [OF compact_table [OF assms(2)] Compact(1)])
    then show ?thesis
      using Compact become table_step.Stay table_step.Compact by (auto simp: compact_ends_def)
  next
    case Residency
    then show ?thesis using residency_same [OF assms(2)] table_step.Stay by metis
  qed
qed

lemma store_life:
  assumes "store_step\<^sup>*\<^sup>* st st'" "store_ok be objects good log_ok st"
  shows "store_ok be objects good log_ok st' \<and> tb_mark (table_of objects st) \<le> tb_mark (table_of objects st') \<and>
    (\<forall>coord. coord < tb_mark (table_of objects st) \<longrightarrow>
       table_known coord (table_of objects st') = table_known coord (table_of objects st))"
  using assms(1)
proof (induction rule: rtranclp_induct)
  case (step s u)
  note S = store_step_table [OF step(2) conjunct1 [OF step(3)]]
  have "table_known coord (table_of objects u) = table_known coord (table_of objects s)"
    if "coord < tb_mark (table_of objects st)" for coord
    by (rule table_step_settled(2) [OF conjunct2 [OF S]]) (use that step(3) in auto)
  then show ?case using S step(3) table_step_settled(1) [OF conjunct2 [OF S]] by auto
qed (use assms(2) in simp)

end

section \<open>Properties\<close>

text \<open>A store in memory with two rows, the second with the smaller key.\<close>

definition sample_one :: "'d \<Rightarrow> 'd store" where
  "sample_one d = \<lparr>st_read_only = False,
     st_slot_shared = \<lparr>sh_schema = sample_schema, sh_ordering_key = 0, sh_backend = False\<rparr>,
     st_schema = sample_schema, st_ordering_key = 0, st_segment_rows = 4, st_rows = 1,
     st_delete_log_sequence = 0, st_generation = 0, st_sections = no_sections, st_backend = None,
     st_wal = None, st_wal_sync = SyncOff, st_last_wal_sync = 0, st_shared = sample_shared, st_world = d\<rparr>"

definition sample_two :: "'d \<Rightarrow> 'd store" where
  "sample_two d = (sample_one d)\<lparr>st_rows := 2, st_shared := sample_shared\<lparr>sd_buffer :=
     \<lparr>wb_schema = sample_schema, wb_ordering_key = 0, wb_builders = [BI64 [3, 1] [False, False]], wb_rows = 2,
       wb_ordered = False, wb_last = Some 1\<rparr>\<rparr>\<rparr>"

lemma sample_one_run:
  "with_segment_rows sample_schema 0 4 d = Ok st0 \<Longrightarrow> store_append [RvI64 3] st0 = (Ok 0, sample_one d)"
  by (auto simp: with_segment_rows_def wb_new_def sample_schema_def field_new_def store_append_def thenS_def bindS_def
      refuse_read_only_def validate_row_def wb_validate_def wal_append_def in_shared_def append_row_def wb_append_def
      must_flush_def bump_rows_def whenS_def wb_len_def sample_shared_def sample_one_def Let_def)

lemma sample_two_run: "store_append [RvI64 1] (sample_one d) = (Ok 1, sample_two d)"
  by (simp add: sample_schema_def field_new_def store_append_def thenS_def bindS_def
      refuse_read_only_def validate_row_def wb_validate_def wal_append_def in_shared_def append_row_def wb_append_def
      must_flush_def bump_rows_def whenS_def wb_len_def sample_shared_def sample_one_def sample_two_def Let_def)

lemma sample_memory [simp]: "st_backend (sample_one d) = None" "st_backend (sample_two d) = None"
  "sizes_ok (sample_one d)" "sizes_ok (sample_two d)" "room 1 (sample_one d)"
  "next_sequence (sample_one d) = 1" "st_ordering_key (sample_two d) = 0"
  by (simp_all add: sample_one_def sample_two_def sizes_ok_def room_def next_sequence_def watermark_def sample_shared_def)

lemma sample_one_shared: "st_shared (sample_one d) = sample_shared"
  by (simp add: sample_one_def)

lemma sample_one_ok:
  assumes "fs_good d"
  shows "store_ok (fs_storage fb) fs_objects fs_good fs_log_ok (sample_one d)"
    "table_of fs_objects (sample_one d) = \<lparr>tb_latest = [\<lparr>vn_cells = [RvI64 3], vn_born = 0, vn_kill = None\<rparr>], tb_retired = [], tb_mark = 1\<rparr>"
proof -
  obtain st0 where st0: "with_segment_rows sample_schema 0 4 d = Ok st0"
    by (simp add: with_segment_rows_def wb_new_def sample_schema_def field_new_def)
  from sample_row [OF this assms, of fb] sample_one_run [OF st0]
  show "store_ok (fs_storage fb) fs_objects fs_good fs_log_ok (sample_one d)"
    "table_of fs_objects (sample_one d) = \<lparr>tb_latest = [\<lparr>vn_cells = [RvI64 3], vn_born = 0, vn_kill = None\<rparr>], tb_retired = [], tb_mark = 1\<rparr>"
    by auto
qed

lemma sample_two_ok:
  assumes "fs_good d"
  shows "store_ok (fs_storage fb) fs_objects fs_good fs_log_ok (sample_two d)"
    "table_of fs_objects (sample_two d) = \<lparr>tb_latest = [\<lparr>vn_cells = [RvI64 3], vn_born = 0, vn_kill = None\<rparr>,
       \<lparr>vn_cells = [RvI64 1], vn_born = 1, vn_kill = None\<rparr>], tb_retired = [], tb_mark = 2\<rparr>"
proof -
  have "append_ends (fs_storage fb) fs_objects fs_good fs_log_ok [RvI64 1] (table_of fs_objects (sample_one d))
      (st_rows (sample_one d)) (Ok 1) (sample_two d)"
    by (rule ends_run [OF fs.append_table [OF store_ok_represents [OF sample_one_ok(1) [OF assms]]] sample_two_run])
      (use sample_memory(5) [of d] in \<open>simp_all add: room_def\<close>)
  then show "store_ok (fs_storage fb) fs_objects fs_good fs_log_ok (sample_two d)"
    "table_of fs_objects (sample_two d) = \<lparr>tb_latest = [\<lparr>vn_cells = [RvI64 3], vn_born = 0, vn_kill = None\<rparr>,
       \<lparr>vn_cells = [RvI64 1], vn_born = 1, vn_kill = None\<rparr>], tb_retired = [], tb_mark = 2\<rparr>"
    using sample_one_ok(2) [OF assms] by (auto simp: append_ends_def represents_def table_append_def add_version_def)
qed

lemma sample_compacts:
  "is_ok (fst (compact (sample_two d)))"
  "st_backend (snd (compact (sample_two d))) = None"
  "is_ok (bindR (store_knowledge_snapshot (snd (compact (sample_two d)))) (\<lambda>ks. as_of no_reads ks 0))"
  by code_simp+

text \<open>
  C31: A compaction rewrites the table without losing a version.  Whatever fails, the table
  either is the old one, and success was not returned, or it is the compacted one: the live
  versions in the order of their key, ties in row-id order, each with its cells and birth;
  every dead version added to the history with its birth and kill; and the same watermark.
\<close>
theorem compact_refines:
  assumes "store_ok (fs_storage fb) fs_objects fs_good fs_log_ok st" "compact st = (r, st')" "sizes_ok st'"
  shows "store_ok (fs_storage fb) fs_objects fs_good fs_log_ok st' \<and>
    (\<not> is_ok r \<and> table_of fs_objects st' = table_of fs_objects st \<or>
     table_of fs_objects st' = table_compact (st_ordering_key st) (table_of fs_objects st))"
  using ends_run [OF fs.compact_table [OF assms(1)] assms(2)] assms(3)
  by (auto simp: compact_ends_def represents_def)

theorem compact_refines_witness:
  "\<exists>(st :: fs store) r st'. table_of fs_objects st =
       \<lparr>tb_latest = [\<lparr>vn_cells = [RvI64 3], vn_born = 0, vn_kill = None\<rparr>,
                    \<lparr>vn_cells = [RvI64 1], vn_born = 1, vn_kill = None\<rparr>], tb_retired = [], tb_mark = 2\<rparr> \<and>
     compact st = (r, st') \<and> is_ok r \<and> table_of fs_objects st' =
       \<lparr>tb_latest = [\<lparr>vn_cells = [RvI64 1], vn_born = 1, vn_kill = None\<rparr>,
                    \<lparr>vn_cells = [RvI64 3], vn_born = 0, vn_kill = None\<rparr>], tb_retired = [], tb_mark = 2\<rparr>"
proof -
  note S = sample_two_ok [OF sample_fs_good(1) [of "\<lambda>_. None"]]
  obtain r st' where run: "compact (sample_two (sample_fs (\<lambda>_. None))) = (r, st')" by fastforce
  then have "is_ok r" "sizes_ok st'"
    using sample_compacts(1,2) [of "sample_fs (\<lambda>_. None)"] by (simp_all add: sizes_ok_def)
  with compact_refines [OF S(1) run] have "table_of fs_objects st' =
      table_compact 0 (table_of fs_objects (sample_two (sample_fs (\<lambda>_. None))))" by simp
  also have "\<dots> = \<lparr>tb_latest = [\<lparr>vn_cells = [RvI64 1], vn_born = 1, vn_kill = None\<rparr>,
      \<lparr>vn_cells = [RvI64 3], vn_born = 0, vn_kill = None\<rparr>], tb_retired = [], tb_mark = 2\<rparr>"
    unfolding S(2) by code_simp
  finally show ?thesis using S(2) run \<open>is_ok r\<close> by blast
qed

text \<open>
  C32: The past is settled.  Whatever appends, flushes, deletions, supersessions and
  compactions follow, whatever of them fails and wherever, and whichever segments are evicted
  and faulted in between: reading the table as of a coordinate the watermark had passed
  yields the same rows, as a multiset, then and now.
\<close>
theorem as_of_settled:
  assumes "store_ok (fs_storage fb) fs_objects fs_good fs_log_ok st" "store_step\<^sup>*\<^sup>* st st'" "coord < next_sequence st"
    and "store_knowledge_snapshot st = Ok ks" "as_of (st_read st) ks coord = Ok hs"
    and "store_knowledge_snapshot st' = Ok ks'" "as_of (st_read st') ks' coord = Ok hs'"
  shows "mset (concat (map (seen_rows (st_read st')) hs')) = mset (concat (map (seen_rows (st_read st)) hs))"
proof -
  note L = fs.store_life [OF assms(2,1)]
  have "mset (concat (map (seen_rows (st_read st')) hs')) = table_known coord (table_of fs_objects st')"
    using fs.store_as_of_rows [OF conjunct1 [OF L] assms(6,7)] by (simp add: table_known_def known_at_def)
  moreover have "mset (concat (map (seen_rows (st_read st)) hs)) = table_known coord (table_of fs_objects st)"
    using fs.store_as_of_rows [OF assms(1,4,5)] by (simp add: table_known_def known_at_def)
  moreover have "table_known coord (table_of fs_objects st') = table_known coord (table_of fs_objects st)"
    using L assms(3) by (simp add: table_of_def)
  ultimately show ?thesis by simp
qed

theorem as_of_settled_witness:
  "\<exists>(st :: fs store) st' ks hs ks' hs'. store_step\<^sup>*\<^sup>* st st' \<and>
     store_knowledge_snapshot st = Ok ks \<and> as_of (st_read st) ks 0 = Ok hs \<and>
     store_knowledge_snapshot st' = Ok ks' \<and> as_of (st_read st') ks' 0 = Ok hs' \<and>
     concat (map (seen_rows (st_read st)) hs) = [[RvI64 3]] \<and>
     mset (concat (map (seen_rows (st_read st')) hs')) = {#[RvI64 3]#}"
proof -
  let ?d = "sample_fs (\<lambda>_. None)"
  let ?st = "sample_one ?d" and ?st' = "snd (compact (sample_two ?d))"
  note S = sample_one_ok [OF sample_fs_good(1) [of "\<lambda>_. None"]]
  have reads: "st_read ?st = no_reads" "st_read ?st' = no_reads"
    using sample_memory(1) [of ?d] sample_compacts(2) [of ?d] by (auto simp: st_read_def no_reads_def fun_eq_iff)
  have "store_step ?st (sample_two ?d)"
    by (rule store_step.Append [OF sample_two_run]) (use sample_memory [of ?d] in \<open>simp_all add: row_ok_def\<close>)
  moreover have "store_step (sample_two ?d) ?st'"
    by (rule store_step.Compact [of _ "fst (compact (sample_two ?d))"]) (use sample_compacts(2) [of ?d] in \<open>simp_all add: sizes_ok_def\<close>)
  ultimately have steps: "store_step\<^sup>*\<^sup>* ?st ?st'" by (meson converse_rtranclp_into_rtranclp rtranclp.rtrancl_refl)
  obtain ks hs where ks: "store_knowledge_snapshot ?st = Ok ks" "as_of (st_read ?st) ks 0 = Ok hs"
    using sample_reads_ok(2) by (auto simp: reads store_knowledge_snapshot_def sample_one_shared is_ok_bind)
  obtain ks' hs' where ks': "store_knowledge_snapshot ?st' = Ok ks'" "as_of (st_read ?st') ks' 0 = Ok hs'"
    using sample_compacts(3) [of ?d] by (auto simp: reads is_ok_bind)
  have rows: "concat (map (seen_rows (st_read ?st)) hs) = [[RvI64 3]]"
    using fs.store_as_of_rows [OF S(1) ks] by (simp add: S(2) visible_def)
  have "mset (concat (map (seen_rows (st_read ?st')) hs')) = mset (concat (map (seen_rows (st_read ?st)) hs))"
    by (rule as_of_settled [OF S(1) steps _ ks ks']) (simp add: sample_memory)
  then show ?thesis using steps ks ks' rows by fastforce
qed

end
