(* ===== verification/Plan.thy ===== *)
theory Plan
  imports Where
begin

text \<open>
  The lowered form of a query (\<^verbatim>\<open>src/query_lite/plan.rs\<close>): projections, window calls and their
  frames, scalar expressions, aggregates, grouping keys, ordering, joins, and the columns a
  plan reads.  A plan comes out of a third-party parser's syntax tree; here it is data.
\<close>

section \<open>Expressions\<close>

datatype arith_op = Add | Sub | Mul | Div | Mod

datatype scalar_function = Abs | Round | Floor | Ceil | Sqrt | Ln | Exp | Power

datatype scalar_expr =
    Column rstring
  | Window nat
  | Literal f64
  | Negate scalar_expr
  | Binary arith_op scalar_expr scalar_expr
  | Call scalar_function "scalar_expr list"
  | Case "(scalar_expr predicate \<times> scalar_expr) list" "scalar_expr option"
  | Registered rstring "scalar_expr list"

type_synonym row_predicate = "scalar_expr predicate"

section \<open>Aggregates and windows\<close>

datatype agg_function = CountAgg | SumAgg | AvgAgg | MinAgg | MaxAgg | FirstAgg | LastAgg

record agg_call =
  ac_function :: agg_function
  ac_argument :: "rstring option"
  ac_alias :: "rstring option"

text \<open>Frames: a row count (\<open>None\<close> is unbounded), a span of key values, the whole partition.\<close>

datatype frame = Rows "nat option" | Range u64 | Partition

datatype group_key = KeyColumn rstring | Bucket rstring i64 "i64 option"

fun key_name :: "group_key \<Rightarrow> rstring" where
  "key_name (KeyColumn name) = name"
| "key_name (Bucket name _ _) = name"

definition decimal_int :: "i64 \<Rightarrow> rstring" where
  "decimal_int v = (if sint v < 0 then ascii ''-'' @ decimal (nat (- sint v)) else decimal (nat (sint v)))"

fun key_output_name :: "group_key \<Rightarrow> rstring" where
  "key_output_name (KeyColumn name) = name"
| "key_output_name (Bucket name width None) = name @ ascii '' / '' @ decimal_int width"
| "key_output_name (Bucket name width (Some factor)) =
     ascii ''('' @ name @ ascii '' / '' @ decimal_int width @ ascii '') * '' @ decimal_int factor"

datatype agg_item = KeyItem group_key "rstring option" | CallItem agg_call

datatype window_call =
    AggWindow rstring "rstring list" "group_key list" "rstring option" frame
  | ValueWindow bool rstring nat "group_key list" rstring

fun window_default_name :: "window_call \<Rightarrow> rstring" where
  "window_default_name (AggWindow function _ _ _ _) = function"
| "window_default_name (ValueWindow lead _ _ _ _) = (if lead then ascii ''lead'' else ascii ''lag'')"

fun window_columns :: "window_call \<Rightarrow> rstring list" where
  "window_columns (AggWindow _ args partition_by order_by _) =
     args @ (case order_by of Some name \<Rightarrow> [name] | None \<Rightarrow> []) @ map key_name partition_by"
| "window_columns (ValueWindow _ column _ partition_by order_by) = column # order_by # map key_name partition_by"

section \<open>The plan\<close>

datatype plan_item =
    ColumnItem rstring "rstring option"
  | ComputedItem scalar_expr "window_call list" rstring
  | WindowItem window_call "rstring option"

record having =
  hv_items :: "agg_item list"
  hv_predicate :: row_predicate

datatype projection = Items "plan_item list" | Aggregate "group_key list" "agg_item list" "having option"

record order_by =
  ob_column :: rstring
  ob_descending :: bool
  ob_nulls_first :: "bool option"

datatype as_of_match = AtOrBefore | StrictlyBefore

record join_plan =
  jp_dimension :: rstring
  jp_fact_key :: rstring
  jp_dimension_key :: rstring
  jp_left :: bool
  jp_as_of :: "as_of_match option"
  jp_as_of_named :: "(rstring \<times> rstring) option"

record plan =
  pl_table :: rstring
  pl_join :: "join_plan option"
  pl_projection :: projection
  pl_distinct :: bool
  pl_predicate :: "row_predicate option"
  pl_order_by :: "order_by option"
  pl_limit :: "nat option"
  pl_offset :: "nat option"
  pl_as_of :: "u64 option"

section \<open>Recursion through the tree\<close>

text \<open>The parts of an expression are smaller than it: the arguments, the conditions, the arms.\<close>

lemma size_arg: "x \<in> set xs \<Longrightarrow> f x < Suc (size_list f xs)"
  by (induction xs) auto

lemma size_in_predicate: "e \<in> set_predicate p \<Longrightarrow> f e \<le> size_predicate f p"
  by (induction p) auto

lemma size_arm:
  assumes "(p, e) \<in> set whens"
  shows "size_predicate size p < Suc (size_list (size_prod (size_predicate size) size) whens + n)"
    "size e < Suc (size_list (size_prod (size_predicate size) size) whens + n)"
  using size_arg [OF assms, of "size_prod (size_predicate size) size"] by simp_all

lemma size_condition:
  "(p, e) \<in> set whens \<Longrightarrow> x \<in> set_predicate p \<Longrightarrow>
   size x < Suc (size_list (size_prod (size_predicate size) size) whens + n)"
  using size_in_predicate [of x p size] size_arm(1) [of p e whens n] by simp

lemmas expr_sizes = size_arg size_arm size_condition

section \<open>The columns a plan reads\<close>

fun predicate_columns :: "(scalar_expr \<Rightarrow> rstring set) \<Rightarrow> row_predicate \<Rightarrow> rstring set" where
  "predicate_columns scalar (CompareExpr l _ r) = scalar l \<union> scalar r"
| "predicate_columns scalar (Compare name _ _) = {name}"
| "predicate_columns scalar (KeyEquals name _ _) = {name}"
| "predicate_columns scalar (KeyLike name _ _) = {name}"
| "predicate_columns scalar (KeyIn name _ _) = {name}"
| "predicate_columns scalar (IsNull name _) = {name}"
| "predicate_columns scalar (PAnd p q) = predicate_columns scalar p \<union> predicate_columns scalar q"
| "predicate_columns scalar (POr p q) = predicate_columns scalar p \<union> predicate_columns scalar q"
| "predicate_columns scalar (PNot p) = predicate_columns scalar p"

lemma predicate_columns_cong [fundef_cong]:
  "p = q \<Longrightarrow> (\<And>e. e \<in> set_predicate q \<Longrightarrow> f e = g e) \<Longrightarrow> predicate_columns f p = predicate_columns g q"
  by (induction q arbitrary: p) auto

function scalar_columns :: "scalar_expr \<Rightarrow> rstring set" where
  "scalar_columns (Column name) = {name}"
| "scalar_columns (Window _) = {}"
| "scalar_columns (Literal _) = {}"
| "scalar_columns (Negate e) = scalar_columns e"
| "scalar_columns (Binary _ l r) = scalar_columns l \<union> scalar_columns r"
| "scalar_columns (Call _ args) = \<Union> (set (map scalar_columns args))"
| "scalar_columns (Case whens otherwise) =
     \<Union> (set (map (\<lambda>(condition, value). predicate_columns scalar_columns condition \<union> scalar_columns value) whens)) \<union>
     (case otherwise of Some e \<Rightarrow> scalar_columns e | None \<Rightarrow> {})"
| "scalar_columns (Registered _ args) = \<Union> (set (map scalar_columns args))"
  by pat_completeness auto
termination
  by (relation "measure size") (auto intro: expr_sizes)

definition item_columns :: "plan_item \<Rightarrow> rstring set" where
  "item_columns item =
     (case item of
        ColumnItem name _ \<Rightarrow> {name}
      | ComputedItem e windows _ \<Rightarrow> scalar_columns e \<union> \<Union> (set (map (\<lambda>w. set (window_columns w)) windows))
      | WindowItem call _ \<Rightarrow> set (window_columns call))"

definition agg_item_columns :: "agg_item \<Rightarrow> rstring set" where
  "agg_item_columns item =
     (case item of
        KeyItem key _ \<Rightarrow> {key_name key}
      | CallItem call \<Rightarrow> (case ac_argument call of Some name \<Rightarrow> {name} | None \<Rightarrow> {}))"

definition referenced_columns :: "plan \<Rightarrow> rstring set" where
  "referenced_columns pl =
     (case pl_predicate pl of Some p \<Rightarrow> predicate_columns scalar_columns p | None \<Rightarrow> {}) \<union>
     (case pl_order_by pl of Some ob \<Rightarrow> {ob_column ob} | None \<Rightarrow> {}) \<union>
     (case pl_projection pl of
        Items items \<Rightarrow> \<Union> (set (map item_columns items))
      | Aggregate keys items hv \<Rightarrow>
          set (map key_name keys) \<union> \<Union> (set (map agg_item_columns items)) \<union>
          (case hv of
             None \<Rightarrow> {}
           | Some h \<Rightarrow> \<Union> (set (map agg_item_columns (hv_items h))) \<union> predicate_columns scalar_columns (hv_predicate h)))"

end
