(* ===== verification/Output.thy ===== *)
theory Output
  imports Where Merge
begin

text \<open>
  The result of a query (\<^verbatim>\<open>src/query_lite/exec.rs\<close>): a schema and record batches, the gather
  that collapses rows of several batches into one (\<open>take_rows\<close>), and the stages built on it:
  LIMIT/OFFSET, DISTINCT and \<open>contiguous\<close>.  What matters of a result is the list of its rows;
  each stage is shown to be the function on rows its name says, whatever the batching, the
  dictionaries and the null maps.
\<close>

section \<open>Results\<close>

record query_output =
  qo_schema :: schema
  qo_batches :: "record_batch list"

definition qo_num_rows :: "query_output \<Rightarrow> nat" where
  "qo_num_rows out = sum_list (map rb_num_rows (qo_batches out))"

section \<open>Assembling columns\<close>

definition assemble_numeric :: "u64 list \<Rightarrow> bool list \<Rightarrow> ('e, numeric_column) outcome" where
  "assemble_numeric values validity =
     (if list_all id validity then Ok (nc_new_non_null values) else nc_new_nullable values (from_bools validity))"

definition assemble_key :: "u32 list \<Rightarrow> bool list \<Rightarrow> dictionary \<Rightarrow> ('e, key_column) outcome" where
  "assemble_key codes validity d =
     bindR (if dict_is_empty d \<and> codes \<noteq> [] then mapR fst (dict_intern d []) else Ok d) (\<lambda>d.
       if list_ex Not validity then kc_new_nullable codes (from_bools validity) d else kc_new_non_null codes d)"

text \<open>A number and its null bit, out of a column of the type the schema says.\<close>

definition number_cell :: "column_type \<Rightarrow> column \<Rightarrow> nat \<Rightarrow> ('e, u64 \<times> bool) outcome" where
  "number_cell ct c row =
     (case c of
        Numeric n \<Rightarrow>
          if col_type c = ct then
            bindR (element_at (nc_values (nd_column n)) row) (\<lambda>v. mapR (\<lambda>valid. (v, valid)) (nc_is_valid (nd_column n) row))
          else Panic
      | KeyCol _ \<Rightarrow> Panic)"

definition key_cell :: "column \<Rightarrow> nat \<Rightarrow> ('e, rstring option) outcome" where
  "key_cell c row = (case c of KeyCol k \<Rightarrow> kc_value_at k row | Numeric _ \<Rightarrow> Panic)"

definition numeric_of :: "column_type \<Rightarrow> numeric_column \<Rightarrow> column" where
  "numeric_of ct c = Numeric (if ct = F64 then NF64 c else NI64 c)"

definition gather_numbers :: "column_type \<Rightarrow> ('p \<Rightarrow> ('e, u64 \<times> bool) outcome) \<Rightarrow> 'p list \<Rightarrow> ('e, column) outcome" where
  "gather_numbers ct read picks =
     bindR (traverseR read picks) (\<lambda>cells.
       mapR (numeric_of ct) (assemble_numeric (map fst cells) (map snd cells)))"

definition key_step ::
  "('p \<Rightarrow> ('e, rstring option) outcome) \<Rightarrow> dictionary \<times> u32 list \<times> bool list \<Rightarrow> 'p \<Rightarrow>
   ('e, dictionary \<times> u32 list \<times> bool list) outcome" where
  "key_step read = (\<lambda>(d, codes, validity) pick.
     bindR (read pick) (\<lambda>v.
     case v of
       Some s \<Rightarrow> mapR (\<lambda>(d, code). (d, codes @ [code], validity @ [True])) (dict_intern d s)
     | None \<Rightarrow> Ok (d, codes @ [0], validity @ [False])))"

definition gather_keys :: "('p \<Rightarrow> ('e, rstring option) outcome) \<Rightarrow> 'p list \<Rightarrow> ('e, column) outcome" where
  "gather_keys read picks =
     bindR (foldR (key_step read) (dict_new, [], []) picks) (\<lambda>(d, codes, validity).
       mapR KeyCol (assemble_key codes validity d))"

section \<open>The stages\<close>

definition pick_column :: "record_batch list \<Rightarrow> nat \<Rightarrow> nat \<Rightarrow> ('e, column) outcome" where
  "pick_column batches index b = bindR (element_at batches b) (\<lambda>rb. element_at (rb_columns rb) index)"

definition take_column :: "record_batch list \<Rightarrow> (nat \<times> nat) list \<Rightarrow> nat \<Rightarrow> field \<Rightarrow> ('e, column) outcome" where
  "take_column batches picks index f =
     (if f_column_type f = Key then
        gather_keys (\<lambda>(b, row). bindR (pick_column batches index b) (\<lambda>c. key_cell c row)) picks
      else
        gather_numbers (f_column_type f)
          (\<lambda>(b, row). bindR (pick_column batches index b) (\<lambda>c. number_cell (f_column_type f) c row)) picks)"

definition take_rows :: "schema \<Rightarrow> record_batch list \<Rightarrow> (nat \<times> nat) list \<Rightarrow> ('e, record_batch) outcome" where
  "take_rows s batches picks =
     bindR (traverseR (\<lambda>(index, f). take_column batches picks index f) (zip [0..<length (s_fields s)] (s_fields s)))
       (record_batch_new s)"

definition all_picks :: "record_batch list \<Rightarrow> (nat \<times> nat) list" where
  "all_picks batches =
     concat (map (\<lambda>(b, rb). map (\<lambda>row. (b, row)) [0..<rb_num_rows rb]) (zip [0..<length batches] batches))"

text \<open>\<open>usize::MAX\<close> rows is more than there can be.\<close>

definition limit_output :: "query_output \<Rightarrow> nat \<Rightarrow> nat option \<Rightarrow> ('e, query_output) outcome" where
  "limit_output out offset limit =
     (let kept = drop offset (all_picks (qo_batches out));
          picks = (case limit of None \<Rightarrow> kept | Some n \<Rightarrow> take n kept)
      in if picks = [] then Ok (out\<lparr>qo_batches := []\<rparr>)
         else mapR (\<lambda>batch. out\<lparr>qo_batches := [batch]\<rparr>) (take_rows (qo_schema out) (qo_batches out) picks))"

definition contiguous :: "query_output \<Rightarrow> ('e, record_batch) outcome" where
  "contiguous out =
     (case qo_batches out of
        [batch] \<Rightarrow> Ok batch
      | batches \<Rightarrow> take_rows (qo_schema out) batches (all_picks batches))"

text \<open>The bytes that identify a cell under DISTINCT, and a row's.\<close>

definition canonical_f64 :: "f64 \<Rightarrow> f64" where
  "canonical_f64 x = (if f64_is_nan x then f64_nan else if f64_eq x 0 then 0 else x)"

definition cell_identity :: "column \<Rightarrow> nat \<Rightarrow> ('e, bytes) outcome" where
  "cell_identity c row =
     (case c of
        Numeric (NF64 n) \<Rightarrow>
          bindR (nc_is_valid n row) (\<lambda>valid.
          if valid then mapR (\<lambda>x. 1 # le_bytes 8 (canonical_f64 x)) (element_at (nc_values n) row) else Ok [0])
      | Numeric (NI64 n) \<Rightarrow>
          bindR (nc_is_valid n row) (\<lambda>valid.
          if valid then mapR (\<lambda>x. 2 # le_bytes 8 x) (element_at (nc_values n) row) else Ok [0])
      | KeyCol k \<Rightarrow>
          mapR (\<lambda>v. case v of
              Some s \<Rightarrow> 3 # le_bytes 4 (word_of_nat (length s) :: u32) @ s
            | None \<Rightarrow> [0]) (kc_value_at k row))"

definition row_identity :: "record_batch list \<Rightarrow> nat \<times> nat \<Rightarrow> ('e, bytes) outcome" where
  "row_identity batches = (\<lambda>(b, row).
     bindR (element_at batches b) (\<lambda>rb. mapR concat (traverseR (\<lambda>c. cell_identity c row) (rb_columns rb))))"

definition distinct_step ::
  "record_batch list \<Rightarrow> bytes list \<times> (nat \<times> nat) list \<Rightarrow> nat \<times> nat \<Rightarrow> ('e, bytes list \<times> (nat \<times> nat) list) outcome" where
  "distinct_step batches = (\<lambda>(seen, picks) pick.
     mapR (\<lambda>identity. if identity \<in> set seen then (seen, picks) else (identity # seen, picks @ [pick]))
       (row_identity batches pick))"

definition distinct_output :: "query_output \<Rightarrow> ('e, query_output) outcome" where
  "distinct_output out =
     bindR (foldR (distinct_step (qo_batches out)) ([], []) (all_picks (qo_batches out))) (\<lambda>(_, picks).
       mapR (\<lambda>batch. out\<lparr>qo_batches := [batch]\<rparr>) (take_rows (qo_schema out) (qo_batches out) picks))"

section \<open>The rows of a result\<close>

definition batch_rows :: "record_batch \<Rightarrow> row_value list list" where
  "batch_rows b = map (\<lambda>row. map (\<lambda>c. column_cells c ! row) (rb_columns b)) [0..<rb_num_rows b]"

definition output_rows :: "query_output \<Rightarrow> row_value list list" where
  "output_rows out = concat (map batch_rows (qo_batches out))"

definition batches_ok :: "schema \<Rightarrow> record_batch list \<Rightarrow> bool" where
  "batches_ok s batches \<longleftrightarrow> (\<forall>b\<in>set batches. batch_ok b \<and> rb_schema b = s)"

definition output_ok :: "query_output \<Rightarrow> bool" where
  "output_ok out \<longleftrightarrow> batches_ok (qo_schema out) (qo_batches out)"

text \<open>The texts of some rows fit one dictionary.\<close>

definition cell_texts :: "row_value list \<Rightarrow> rstring list" where
  "cell_texts cells = concat (map (\<lambda>c. case c of RvKey s \<Rightarrow> [s] | _ \<Rightarrow> []) cells)"

definition texts_fit :: "row_value list list \<Rightarrow> bool" where
  "texts_fit rows \<longleftrightarrow> dict_fits (remdups (cell_texts (concat rows)))"

lemma set_cell_texts: "s \<in> set (cell_texts cells) \<longleftrightarrow> RvKey s \<in> set cells"
proof -
  have "s \<in> set (case c of RvKey s \<Rightarrow> [s] | _ \<Rightarrow> []) \<longleftrightarrow> c = RvKey s" for c by (cases c) auto
  then show ?thesis by (auto simp: cell_texts_def)
qed

lemma length_batch_rows [simp]: "length (batch_rows b) = rb_num_rows b"
  by (simp add: batch_rows_def)

lemma cells_of_batch_rows: "cells_of s = batch_rows (sg_batch s)"
  by (simp add: cells_of_def batch_rows_def)

section \<open>The gather\<close>

text \<open>A column that holds given cells, without a null map when none is null.\<close>

definition holds_cells :: "column_type \<Rightarrow> row_value list \<Rightarrow> column \<Rightarrow> bool" where
  "holds_cells ct cells c \<longleftrightarrow>
     column_ok c \<and> col_type c = ct \<and> column_cells c = cells \<and> (RvNull \<notin> set cells \<longrightarrow> col_validity c = None)"

lemma holds_cells_len: "holds_cells ct cells c \<Longrightarrow> col_len c = length cells"
  by (auto simp: holds_cells_def)

lemma assemble_numeric_ok:
  assumes "length values = length validity"
  obtains c where "assemble_numeric values validity = (Ok c :: ('e, _) outcome)" "nc_values c = values"
    "validity_ok (length values) (nc_validity c)" "presence (length values) (nc_validity c) = validity"
    "list_all id validity \<Longrightarrow> nc_validity c = None"
proof (cases "list_all id validity")
  case True
  then have "validity = replicate (length values) True"
    using assms by (intro nth_equalityI) (auto simp: list_all_iff)
  then show ?thesis using that [of "\<lparr>nc_values = values, nc_validity = None\<rparr>"] True
    by (simp add: assemble_numeric_def nc_new_non_null_def validity_ok_def presence_def)
next
  case False
  then show ?thesis using that [of "\<lparr>nc_values = values, nc_validity = Some (from_bools validity)\<rparr>"] assms
    by (simp add: assemble_numeric_def nc_new_nullable_def validity_ok_def presence_def)
qed

definition number_value :: "column_type \<Rightarrow> u64 \<Rightarrow> row_value" where
  "number_value ct v = (if ct = F64 then RvF64 v else RvI64 v)"

definition optional_key :: "rstring option \<Rightarrow> row_value" where
  "optional_key v = (case v of Some s \<Rightarrow> RvKey s | None \<Rightarrow> RvNull)"

lemma map2_fst_snd: "map2 f (map fst xs) (map snd xs) = map (\<lambda>(a, b). f a b) xs"
  by (induction xs) auto

lemma numeric_of_holds:
  assumes "ct \<noteq> Key" "nc_values c = map fst cells" "validity_ok (length cells) (nc_validity c)"
    "presence (length cells) (nc_validity c) = map snd cells" "list_all id (map snd cells) \<Longrightarrow> nc_validity c = None"
  shows "holds_cells ct (map (\<lambda>(v, p). if p then number_value ct v else RvNull) cells) (numeric_of ct c)"
proof -
  have nulls: "RvNull \<in> set (map (\<lambda>(v, p). if p then number_value ct v else RvNull) cells) \<longleftrightarrow> \<not> list_all id (map snd cells)"
    by (force simp: list_all_iff number_value_def split: if_splits)
  have len: "nc_len c = length cells" using assms(2) by (simp add: nc_len_def)
  show ?thesis
    unfolding holds_cells_def nulls
    using assms(1-5) len by (cases ct) (auto simp: numeric_of_def number_value_def map2_fst_snd)
qed

lemma gather_numbers_ok:
  assumes "ct \<noteq> Key" "\<And>p. p \<in> set picks \<Longrightarrow> read p = Ok (cell p)"
  shows "\<exists>c. gather_numbers ct read picks = (Ok c :: ('e, _) outcome) \<and>
    holds_cells ct (map (\<lambda>p. case cell p of (v, valid) \<Rightarrow> if valid then number_value ct v else RvNull) picks) c"
proof -
  let ?cells = "map cell picks"
  obtain c where c: "assemble_numeric (map fst ?cells) (map snd ?cells) = (Ok c :: ('e, _) outcome)"
    "nc_values c = map fst ?cells" "validity_ok (length ?cells) (nc_validity c)"
    "presence (length ?cells) (nc_validity c) = map snd ?cells"
    "list_all id (map snd ?cells) \<Longrightarrow> nc_validity c = None"
    using assemble_numeric_ok [of "map fst ?cells" "map snd ?cells"] by (metis length_map)
  have "traverseR read picks = Ok ?cells" using assms(2) by (rule traverseR_Ok)
  then have "gather_numbers ct read picks = Ok (numeric_of ct c)" using c(1) by (simp add: gather_numbers_def)
  then show ?thesis using numeric_of_holds [OF assms(1) c(2-5)] by (auto simp: comp_def)
qed

text \<open>Codes and null bits that render given texts over a list of names.\<close>

definition coded :: "rstring list \<Rightarrow> u32 list \<Rightarrow> bool list \<Rightarrow> rstring option list \<Rightarrow> bool" where
  "coded names codes validity vs \<longleftrightarrow> length codes = length vs \<and> validity = map (\<lambda>v. v \<noteq> None) vs \<and>
     (\<forall>i<length vs. \<forall>s. vs ! i = Some s \<longrightarrow> unat (codes ! i) < length names \<and> names ! unat (codes ! i) = s) \<and>
     (\<forall>i<length vs. vs ! i = None \<longrightarrow> codes ! i = 0)"

lemma coded_more: "coded names codes validity vs \<Longrightarrow> coded (names @ ext) codes validity vs"
  unfolding coded_def by (auto simp add: nth_append)

lemma coded_snoc:
  assumes "coded names codes validity vs"
    "\<And>s. v = Some s \<Longrightarrow> unat code < length names \<and> names ! unat code = s" "v = None \<Longrightarrow> code = 0"
  shows "coded names (codes @ [code]) (validity @ [v \<noteq> None]) (vs @ [v])"
  using assms unfolding coded_def by (auto simp add: nth_append less_Suc_eq)

lemma dict_intern_total:
  assumes "dict_ok d" "dict_fits us" "set (dict_names d) \<subseteq> set us" "s \<in> set us"
  obtains d' code where "dict_intern d s = (Ok (d', code) :: ('e, _) outcome)" "dict_ok d'"
    "\<exists>ext. dict_names d' = dict_names d @ ext" "set (dict_names d') \<subseteq> set us" "s \<in> set (dict_names d')"
    "unat code < length (dict_names d')" "dict_names d' ! unat code = s"
proof -
  obtain ws where ws: "d = dict_of ws" "dict_fits ws" using assms(1) by (rule dict_okE)
  have str: "valid_utf8 s" using assms(2,4) by (simp add: dict_fits_def)
  have "\<exists>d' code. dict_intern d s = (Ok (d', code) :: ('e, _) outcome)"
  proof (cases "s \<in> set ws")
    case False
    then have "dict_fits (ws @ [s])"
      using ws assms by (intro dict_fits_subset [OF assms(2)]) (auto simp: dict_fits_def)
    then show ?thesis using ws False by (auto simp: dict_intern_of dict_fits_def)
  qed (use ws in \<open>simp add: dict_intern_of\<close>)
  then obtain d' code where i: "dict_intern d s = (Ok (d', code) :: ('e, _) outcome)" by blast
  note S = di.intern_sound [OF assms(1) str i]
  have "\<exists>ext. dict_names d' = dict_names d @ ext" using S(2) by auto
  moreover have "set (dict_names d') \<subseteq> set us" "s \<in> set (dict_names d')" using S(2) assms(3,4) by auto
  ultimately show ?thesis by (rule that [OF i S(1) _ _ _ S(3,4)])
qed

lemma key_fold:
  assumes "\<And>p. p \<in> set picks \<Longrightarrow> read p = Ok (v p)" "dict_fits us" "\<And>p s. p \<in> set picks \<Longrightarrow> v p = Some s \<Longrightarrow> s \<in> set us"
    and "dict_ok d" "set (dict_names d) \<subseteq> set us" "coded (dict_names d) codes validity vs"
  shows "\<exists>d' codes' validity'. foldR (key_step read) (d, codes, validity) picks = (Ok (d', codes', validity') :: ('e, _) outcome) \<and>
    dict_ok d' \<and> coded (dict_names d') codes' validity' (vs @ map v picks)"
  using assms
proof (induction picks arbitrary: d codes validity vs)
  case (Cons p picks)
  have p: "read p = Ok (v p)" "v p = Some s \<Longrightarrow> s \<in> set us" for s
    using Cons.prems(1) Cons.prems(3) [of p s] by simp_all
  have tail: "read q = Ok (v q)" "v q = Some s \<Longrightarrow> s \<in> set us" if "q \<in> set picks" for q s
    using that Cons.prems(1) Cons.prems(3) [of q s] by simp_all
  note IH = Cons.IH [OF tail(1) assms(2) tail(2)]
  show ?case
  proof (cases "v p")
    case None
    then have "coded (dict_names d) (codes @ [0]) (validity @ [False]) (vs @ [v p])"
      using coded_snoc [OF Cons.prems(6), where v = "v p" and code = 0] by simp
    from IH [OF _ _ _ Cons.prems(4,5) this] show ?thesis using p None by (simp add: key_step_def)
  next
    case (Some s)
    obtain d' code where i: "dict_intern d s = (Ok (d', code) :: ('e, _) outcome)" "dict_ok d'"
      "\<exists>ext. dict_names d' = dict_names d @ ext" "set (dict_names d') \<subseteq> set us"
      "unat code < length (dict_names d')" "dict_names d' ! unat code = s"
      using dict_intern_total [OF Cons.prems(4) assms(2) Cons.prems(5) p(2) [OF Some]] by metis
    obtain ext where "dict_names d' = dict_names d @ ext" using i(3) by blast
    then have "coded (dict_names d') codes validity vs" using coded_more [OF Cons.prems(6)] by simp
    from coded_snoc [OF this, where v = "v p" and code = code]
    have "coded (dict_names d') (codes @ [code]) (validity @ [True]) (vs @ [v p])" using Some i(5,6) by simp
    from IH [OF _ _ _ i(2,4) this] show ?thesis using p i(1) Some by (simp add: key_step_def)
  qed
qed simp

lemma coded_cells:
  assumes "coded (dict_names d) codes validity vs" "dict_ok d" "dict_len d \<noteq> 0 \<or> codes = []"
  shows "\<forall>c\<in>set codes. unat c < dict_len d"
    and "map2 (\<lambda>c p. if p then RvKey (dict_names d ! unat c) else RvNull) codes validity = map optional_key vs"
proof -
  show "\<forall>c\<in>set codes. unat c < dict_len d"
  proof
    fix c assume "c \<in> set codes"
    then obtain i where i: "i < length codes" "c = codes ! i" by (auto simp: in_set_conv_nth)
    then have "codes \<noteq> []" by auto
    then show "unat c < dict_len d"
      using assms(1,3) i by (cases "vs ! i") (force simp: coded_def)+
  qed
  show "map2 (\<lambda>c p. if p then RvKey (dict_names d ! unat c) else RvNull) codes validity = map optional_key vs"
  proof (intro nth_equalityI)
    fix i assume "i < length (map2 (\<lambda>c p. if p then RvKey (dict_names d ! unat c) else RvNull) codes validity)"
    then have "i < length vs" using assms(1) by (simp add: coded_def)
    then show "map2 (\<lambda>c p. if p then RvKey (dict_names d ! unat c) else RvNull) codes validity ! i = map optional_key vs ! i"
      using assms(1) by (cases "vs ! i") (force simp: coded_def optional_key_def)+
  qed (use assms(1) in \<open>simp add: coded_def\<close>)
qed

lemma assemble_key_ok:
  assumes "dict_ok d" "coded (dict_names d) codes validity vs"
  shows "\<exists>k. assemble_key codes validity d = (Ok k :: ('e, _) outcome) \<and> holds_cells Key (map optional_key vs) (KeyCol k)"
proof -
  define d' where "d' = (if dict_is_empty d \<and> codes \<noteq> [] then dict_of [[]] else d)"
  have empty: "d = dict_of []" if "dict_len d = 0" using assms(1) that by (elim dict_okE) auto
  have d': "(if dict_is_empty d \<and> codes \<noteq> [] then mapR fst (dict_intern d []) else Ok d) = (Ok d' :: ('e, _) outcome)"
    using empty by (auto simp: d'_def dict_is_empty_def dict_intern_of)
  have fits: "dict_fits [[]]" by (simp add: dict_fits_def)
  have ok: "dict_ok d'" "dict_len d' \<noteq> 0 \<or> codes = []"
    using assms(1) fits by (auto simp: d'_def dict_is_empty_def)
  have "coded (dict_names d') codes validity vs"
    using assms(2) empty coded_more [of "[]" codes validity vs "[[]]"] fits by (auto simp: d'_def dict_is_empty_def)
  note C = coded_cells [OF this ok]
  have len: "length codes = length vs" "validity = map (\<lambda>v. v \<noteq> None) vs" using assms(2) by (auto simp: coded_def)
  have vlen: "length validity = length codes" using len by simp
  have nulls: "list_ex Not validity \<longleftrightarrow> RvNull \<in> set (map optional_key vs)"
    using len(2) by (auto simp: list_ex_iff optional_key_def image_iff split: option.splits)
  show ?thesis
  proof (cases "list_ex Not validity")
    case True
    let ?k = "\<lparr>kc_codes = codes, kc_validity = Some (from_bools validity), kc_dictionary = d'\<rparr>"
    have "assemble_key codes validity d = (Ok ?k :: ('e, _) outcome)"
      using True d' C(1) vlen by (simp add: assemble_key_def kc_new_nullable_eq)
    moreover have "holds_cells Key (map optional_key vs) (KeyCol ?k)"
      using True nulls C vlen ok by (simp add: holds_cells_def validity_ok_def kc_len_def presence_def cong: if_cong)
    ultimately show ?thesis by blast
  next
    case False
    let ?k = "\<lparr>kc_codes = codes, kc_validity = None, kc_dictionary = d'\<rparr>"
    have "assemble_key codes validity d = (Ok ?k :: ('e, _) outcome)"
      using False d' C(1) by (simp add: assemble_key_def kc_new_non_null_eq)
    moreover have "validity = replicate (length codes) True"
      using False vlen by (intro nth_equalityI) (auto simp: list_ex_iff)
    moreover from this have "holds_cells Key (map optional_key vs) (KeyCol ?k)"
      using False nulls C vlen ok by (simp add: holds_cells_def validity_ok_def kc_len_def presence_def cong: if_cong)
    ultimately show ?thesis by blast
  qed
qed

lemma gather_keys_ok:
  assumes "\<And>p. p \<in> set picks \<Longrightarrow> read p = Ok (v p)" "dict_fits us" "\<And>p s. p \<in> set picks \<Longrightarrow> v p = Some s \<Longrightarrow> s \<in> set us"
  shows "\<exists>c. gather_keys read picks = (Ok c :: ('e, _) outcome) \<and> holds_cells Key (map (\<lambda>p. optional_key (v p)) picks) c"
proof -
  have "coded (dict_names dict_new) [] [] []" by (simp add: coded_def)
  then have "\<exists>d codes validity. foldR (key_step read) (dict_new, [], []) picks = (Ok (d, codes, validity) :: ('e, _) outcome) \<and>
      dict_ok d \<and> coded (dict_names d) codes validity ([] @ map v picks)"
    by (intro key_fold [OF assms(1,2,3)]) simp_all
  then obtain d codes validity where
    f: "foldR (key_step read) (dict_new, [], []) picks = (Ok (d, codes, validity) :: ('e, _) outcome)"
      "dict_ok d" "coded (dict_names d) codes validity (map v picks)" by auto
  from assemble_key_ok [OF f(2,3)] obtain k where
    "assemble_key codes validity d = (Ok k :: ('e, _) outcome)" "holds_cells Key (map optional_key (map v picks)) (KeyCol k)"
    by blast
  then show ?thesis using f(1) by (auto simp: gather_keys_def comp_def)
qed

text \<open>Both gathers, by the cells they read.\<close>

definition reads_cell :: "column_type \<Rightarrow> column \<Rightarrow> nat \<Rightarrow> row_value \<Rightarrow> bool" where
  "reads_cell ct c row cell \<longleftrightarrow> column_ok c \<and> col_type c = ct \<and> row < col_len c \<and> column_cells c ! row = cell"

lemma number_cell_reads:
  assumes "reads_cell ct c row cell" "ct \<noteq> Key"
  shows "\<exists>v valid. number_cell ct c row = (Ok (v, valid) :: ('e, _) outcome) \<and>
    (if valid then number_value ct v else RvNull) = cell"
proof -
  from assms obtain n where n: "c = Numeric n" by (cases c) (auto simp: reads_cell_def)
  have row: "row < length (nc_values (nd_column n))" using assms n by (simp add: reads_cell_def nc_len_def)
  have v: "nc_is_valid (nd_column n) row =
      (Ok (presence (nc_len (nd_column n)) (nc_validity (nd_column n)) ! row) :: ('e, _) outcome)"
    using assms n by (simp add: reads_cell_def nc_is_valid_def validity_get_presence)
  have len: "length (presence (length (nc_values (nd_column n))) (nc_validity (nd_column n))) = length (nc_values (nd_column n))"
    using assms n by (simp add: reads_cell_def nc_len_def)
  then show ?thesis
    using assms n row v by (cases n) (auto simp: reads_cell_def number_cell_def element_at_def number_value_def nc_len_def)
qed

lemma key_cell_reads:
  assumes "reads_cell Key c row cell"
  shows "\<exists>v. key_cell c row = (Ok v :: ('e, _) outcome) \<and> optional_key v = cell"
proof -
  from assms obtain k where k: "c = KeyCol k" by (cases c rule: col_type.cases) (auto simp: reads_cell_def)
  have "cell_value c row = (Ok cell :: ('e, _) outcome)"
    using assms cell_value_cells [of c row] by (auto simp: reads_cell_def)
  then show ?thesis
    using k by (auto simp: cell_value_def key_cell_def optional_key_def)
qed

lemma gather_numbers_cells:
  assumes "ct \<noteq> Key" "\<And>p. p \<in> set picks \<Longrightarrow> \<exists>v valid. read p = Ok (v, valid) \<and> (if valid then number_value ct v else RvNull) = want p"
  shows "\<exists>c. gather_numbers ct read picks = (Ok c :: ('e, _) outcome) \<and> holds_cells ct (map want picks) c"
proof -
  have "\<forall>p. \<exists>vb. p \<in> set picks \<longrightarrow> read p = Ok vb \<and> (case vb of (v, valid) \<Rightarrow> if valid then number_value ct v else RvNull) = want p"
    using assms(2) by fastforce
  from choice [OF this] obtain cell where cell: "\<And>p. p \<in> set picks \<Longrightarrow> read p = Ok (cell p)"
    "\<And>p. p \<in> set picks \<Longrightarrow> (case cell p of (v, valid) \<Rightarrow> if valid then number_value ct v else RvNull) = want p"
    by blast
  have "map (\<lambda>p. case cell p of (v, valid) \<Rightarrow> if valid then number_value ct v else RvNull) picks = map want picks"
    using cell(2) by simp
  with gather_numbers_ok [of ct picks read cell, OF assms(1) cell(1)] show ?thesis by simp
qed

lemma gather_keys_cells:
  assumes "\<And>p. p \<in> set picks \<Longrightarrow> \<exists>v. read p = Ok v \<and> optional_key v = want p" "dict_fits us"
    "\<And>p s. p \<in> set picks \<Longrightarrow> want p = RvKey s \<Longrightarrow> s \<in> set us"
  shows "\<exists>c. gather_keys read picks = (Ok c :: ('e, _) outcome) \<and> holds_cells Key (map want picks) c"
proof -
  from assms(1) obtain v where v: "\<And>p. p \<in> set picks \<Longrightarrow> read p = Ok (v p)" "\<And>p. p \<in> set picks \<Longrightarrow> optional_key (v p) = want p"
    by metis
  have us: "s \<in> set us" if "p \<in> set picks" "v p = Some s" for p s
    using assms(3) [OF that(1), of s] v(2) [OF that(1)] that(2) by (simp add: optional_key_def)
  have "map (\<lambda>p. optional_key (v p)) picks = map want picks" using v(2) by simp
  with gather_keys_ok [of picks read v us, OF v(1) assms(2) us] show ?thesis by simp
qed

section \<open>Taking rows\<close>

definition picked :: "record_batch list \<Rightarrow> nat \<times> nat \<Rightarrow> row_value list" where
  "picked batches = (\<lambda>(b, row). batch_rows (batches ! b) ! row)"

definition pick_ok :: "record_batch list \<Rightarrow> nat \<times> nat \<Rightarrow> bool" where
  "pick_ok batches = (\<lambda>(b, row). b < length batches \<and> row < rb_num_rows (batches ! b))"

lemma batch_rows_nth: "row < rb_num_rows b \<Longrightarrow> batch_rows b ! row = map (\<lambda>c. column_cells c ! row) (rb_columns b)"
  by (simp add: batch_rows_def)

lemma batch_ok_column:
  assumes "batch_ok b" "index < length (s_fields (rb_schema b))"
  shows "index < length (rb_columns b)" "column_ok (rb_columns b ! index)"
    "col_type (rb_columns b ! index) = f_column_type (s_fields (rb_schema b) ! index)"
    "col_len (rb_columns b ! index) = rb_num_rows b"
    "f_nullable (s_fields (rb_schema b) ! index) \<or> col_validity (rb_columns b ! index) = None"
proof -
  show len: "index < length (rb_columns b)" using assms by (simp add: batch_ok_def)
  then show "column_ok (rb_columns b ! index)" "col_len (rb_columns b ! index) = rb_num_rows b"
    using batch_ok_columns [OF assms(1) nth_mem] by simp_all
  show "col_type (rb_columns b ! index) = f_column_type (s_fields (rb_schema b) ! index)"
    "f_nullable (s_fields (rb_schema b) ! index) \<or> col_validity (rb_columns b ! index) = None"
    using assms len by (auto simp: batch_ok_def list_all2_conv_all_nth binding_ok_def)
qed

lemma column_cells_no_null: "column_ok c \<Longrightarrow> col_validity c = None \<Longrightarrow> RvNull \<notin> set (column_cells c)"
  by (cases c rule: column_cells.cases) (auto simp: presence_def dest!: set_zip_rightD)

text \<open>A batch assembled from columns that hold the cells of given rows.\<close>

lemma record_batch_new_cells:
  assumes "length cs = length (s_fields s)" "s_fields s \<noteq> []" "\<forall>r\<in>set rows. length r = length (s_fields s)"
    and "\<And>j. j < length cs \<Longrightarrow> holds_cells (f_column_type (s_fields s ! j)) (map (\<lambda>r. r ! j) rows) (cs ! j)"
    and "\<And>j r. j < length cs \<Longrightarrow> r \<in> set rows \<Longrightarrow> f_nullable (s_fields s ! j) \<or> r ! j \<noteq> RvNull"
  shows "\<exists>b. record_batch_new s cs = (Ok b :: ('e, _) outcome) \<and> batch_ok b \<and> rb_schema b = s \<and> batch_rows b = rows"
proof -
  have len: "col_len (cs ! j) = length rows" if "j < length cs" for j using holds_cells_len [OF assms(4) [OF that]] by simp
  have "cs \<noteq> []" using assms(1,2) by auto
  then have n: "(case cs of [] \<Rightarrow> 0 | c # _ \<Rightarrow> col_len c) = length rows"
    using len [of 0] by (cases cs) auto
  have "binding_ok (length rows) (s_fields s ! j) (cs ! j)" if "j < length cs" for j
  proof -
    have "f_nullable (s_fields s ! j) \<or> RvNull \<notin> set (map (\<lambda>r. r ! j) rows)" using assms(5) [OF that] by force
    then show ?thesis using assms(4) [OF that] len [OF that] by (auto simp: binding_ok_def holds_cells_def)
  qed
  then have "list_all (\<lambda>(f, c). binding_ok (length rows) f c) (zip (s_fields s) cs)"
    using assms(1) by (auto simp: list_all_length)
  then have b: "record_batch_new s cs = (Ok \<lparr>rb_schema = s, rb_columns = cs, rb_num_rows = length rows\<rparr> :: ('e, _) outcome)"
    using assms(1) n by (simp add: record_batch_new_def Let_def)
  have "\<forall>c\<in>set cs. column_ok c" using assms(4) by (auto simp: in_set_conv_nth holds_cells_def)
  note B = record_batch_new_ok [OF b this]
  have "batch_rows \<lparr>rb_schema = s, rb_columns = cs, rb_num_rows = length rows\<rparr> = rows"
  proof (rule nth_equalityI)
    fix row assume "row < length (batch_rows \<lparr>rb_schema = s, rb_columns = cs, rb_num_rows = length rows\<rparr>)"
    then have row: "row < length rows" by simp
    have "map (\<lambda>c. column_cells c ! row) cs = rows ! row"
      by (rule nth_equalityI) (use assms(1,3) row assms(4) in \<open>auto simp: holds_cells_def\<close>)
    then show "batch_rows \<lparr>rb_schema = s, rb_columns = cs, rb_num_rows = length rows\<rparr> ! row = rows ! row"
      using row by (simp add: batch_rows_nth)
  qed simp
  then show ?thesis using b B by blast
qed

lemma texts_fit_keys:
  assumes "texts_fit rows" "r \<in> set rows" "RvKey s \<in> set r"
  shows "s \<in> set (remdups (cell_texts (concat rows)))"
  using assms(2,3) by (auto simp: set_cell_texts)

lemma take_rows_ok:
  assumes ok: "batches_ok s batches" and picks: "\<And>p. p \<in> set picks \<Longrightarrow> pick_ok batches p"
    and fit: "texts_fit (map (picked batches) picks)" and fields: "s_fields s \<noteq> []"
  shows "\<exists>b. take_rows s batches picks = (Ok b :: ('e, _) outcome) \<and> batch_ok b \<and> rb_schema b = s \<and>
    batch_rows b = map (picked batches) picks"
proof -
  have at: "fst p < length batches \<and> snd p < rb_num_rows (batches ! fst p) \<and> batch_ok (batches ! fst p) \<and> rb_schema (batches ! fst p) = s"
    if "p \<in> set picks" for p
    using picks [OF that] ok by (auto simp: pick_ok_def batches_ok_def)
  have width: "length (picked batches p) = length (s_fields s)" if "p \<in> set picks" for p
    using at [OF that] by (auto simp: picked_def split_def batch_rows_nth batch_ok_def)
  have cell: "pick_column batches j (fst p) = (Ok (rb_columns (batches ! fst p) ! j) :: ('e, _) outcome)"
    "reads_cell (f_column_type (s_fields s ! j)) (rb_columns (batches ! fst p) ! j) (snd p) (picked batches p ! j)"
    if "p \<in> set picks" "j < length (s_fields s)" for p j
    using at [OF that(1)] batch_ok_column [of "batches ! fst p" j] that(2)
    by (auto simp: pick_column_def element_at_def reads_cell_def picked_def split_def batch_rows_nth)
  have col: "\<exists>c. take_column batches picks j (s_fields s ! j) = (Ok c :: ('e, _) outcome) \<and>
      holds_cells (f_column_type (s_fields s ! j)) (map (\<lambda>p. picked batches p ! j) picks) c"
    if j: "j < length (s_fields s)" for j
  proof (cases "f_column_type (s_fields s ! j) = Key")
    case True
    have "s' \<in> set (remdups (cell_texts (concat (map (picked batches) picks))))"
      if "p \<in> set picks" "picked batches p ! j = RvKey s'" for p s'
    proof (rule texts_fit_keys [OF fit])
      show "picked batches p \<in> set (map (picked batches) picks)" using that(1) by simp
      show "RvKey s' \<in> set (picked batches p)" using j that(2) width [OF that(1)] by (metis nth_mem)
    qed
    moreover have "\<exists>v. (case p of (b, row) \<Rightarrow> bindR (pick_column batches j b) (\<lambda>c. key_cell c row)) = (Ok v :: ('e, _) outcome) \<and>
        optional_key v = picked batches p ! j" if "p \<in> set picks" for p
      using key_cell_reads [OF cell(2) [OF that j, unfolded True]] cell(1) [OF that j] by (simp add: split_def)
    ultimately show ?thesis
      using True fit unfolding texts_fit_def by (simp add: take_column_def gather_keys_cells)
  next
    case False
    have "\<exists>v valid. (case p of (b, row) \<Rightarrow> bindR (pick_column batches j b) (\<lambda>c. number_cell (f_column_type (s_fields s ! j)) c row)) =
        (Ok (v, valid) :: ('e, _) outcome) \<and>
        (if valid then number_value (f_column_type (s_fields s ! j)) v else RvNull) = picked batches p ! j" if "p \<in> set picks" for p
      using number_cell_reads [OF cell(2) [OF that j] False] cell(1) [OF that j] by (simp add: split_def)
    then show ?thesis using False by (simp add: take_column_def gather_numbers_cells)
  qed
  then obtain c where c: "\<And>j. j < length (s_fields s) \<Longrightarrow> take_column batches picks j (s_fields s ! j) = (Ok (c j) :: ('e, _) outcome)"
    "\<And>j. j < length (s_fields s) \<Longrightarrow> holds_cells (f_column_type (s_fields s ! j)) (map (\<lambda>p. picked batches p ! j) picks) (c j)"
    by metis
  let ?cs = "map c [0..<length (s_fields s)]"
  have "traverseR (\<lambda>(index, f). take_column batches picks index f) (zip [0..<length (s_fields s)] (s_fields s)) =
      (Ok (map (\<lambda>(index, f). c index) (zip [0..<length (s_fields s)] (s_fields s))) :: ('e, _) outcome)"
    by (rule traverseR_Ok) (auto simp: set_zip c(1))
  also have "map (\<lambda>(index, f). c index) (zip [0..<length (s_fields s)] (s_fields s)) = ?cs"
    by (intro nth_equalityI) simp_all
  finally have t: "take_rows s batches picks = (record_batch_new s ?cs :: ('e, _) outcome)"
    by (simp add: take_rows_def)
  have "\<exists>b. record_batch_new s ?cs = (Ok b :: ('e, _) outcome) \<and> batch_ok b \<and> rb_schema b = s \<and> batch_rows b = map (picked batches) picks"
  proof (rule record_batch_new_cells [OF _ fields])
    show "\<forall>r\<in>set (map (picked batches) picks). length r = length (s_fields s)"
      using width by auto
    fix j r assume j: "j < length ?cs" and "r \<in> set (map (picked batches) picks)"
    then obtain p where p: "p \<in> set picks" "r = picked batches p" by auto
    show "f_nullable (s_fields s ! j) \<or> r ! j \<noteq> RvNull"
      using batch_ok_column [of "batches ! fst p" j] at [OF p(1)] cell(2) [OF p(1), of j] j p(2)
        column_cells_no_null [of "rb_columns (batches ! fst p) ! j"]
      by (auto simp: reads_cell_def in_set_conv_nth)
  qed (use c(2) in \<open>auto simp: comp_def\<close>)
  then show ?thesis by (simp add: t)
qed

lemma take_rows_exact:
  assumes ok: "batches_ok s batches" and picks: "\<And>p. p \<in> set picks \<Longrightarrow> pick_ok batches p"
    and fit: "texts_fit (map (picked batches) picks)"
  shows "\<exists>b. take_rows s batches picks = (Ok b :: ('e, _) outcome) \<and> batch_ok b \<and> rb_schema b = s \<and>
    batch_rows b = map (picked batches) picks"
proof (cases "s_fields s = []")
  case True
  have "picks = []"
  proof (rule ccontr)
    assume "picks \<noteq> []"
    then obtain p where "p \<in> set picks" by (cases picks) auto
    from picks [OF this] have b: "fst p < length batches" "0 < rb_num_rows (batches ! fst p)" by (auto simp: pick_ok_def)
    then have "batch_ok (batches ! fst p)" "rb_schema (batches ! fst p) = s" using ok by (auto simp: batches_ok_def)
    then show False using True b(2) by (auto simp: batch_ok_def)
  qed
  then show ?thesis using True
    by (cases s) (auto simp: take_rows_def record_batch_new_def batch_ok_def batch_rows_def Let_def)
qed (rule take_rows_ok [OF assms])

lemma all_picks_eq:
  "all_picks batches = concat (map (\<lambda>b. map (Pair b) [0..<rb_num_rows (batches ! b)]) [0..<length batches])"
  unfolding all_picks_def by (rule arg_cong [of _ _ concat], rule nth_equalityI) simp_all

lemma all_picks_ok: "p \<in> set (all_picks batches) \<longleftrightarrow> pick_ok batches p"
  by (cases p) (auto simp: all_picks_eq pick_ok_def image_iff)

lemma map_all_picks: "map (picked batches) (all_picks batches) = concat (map batch_rows batches)"
proof -
  have row: "map (picked batches) (map (Pair b) [0..<rb_num_rows (batches ! b)]) = batch_rows (batches ! b)" for b
    by (rule nth_equalityI) (simp_all add: picked_def)
  have "map (picked batches) (all_picks batches) = concat (map (\<lambda>b. batch_rows (batches ! b)) [0..<length batches])"
    unfolding all_picks_eq map_concat map_map comp_def by (rule arg_cong [of _ _ concat], rule map_cong) (use row in \<open>simp_all add: comp_def\<close>)
  moreover have "map (\<lambda>b. batch_rows (batches ! b)) [0..<length batches] = map batch_rows batches"
    by (rule nth_equalityI) simp_all
  ultimately show ?thesis by simp
qed

lemma texts_fit_subset:
  assumes "texts_fit rows" "set rows' \<subseteq> set rows"
  shows "texts_fit rows'"
proof -
  have "set (remdups (cell_texts (concat rows'))) \<subseteq> set (remdups (cell_texts (concat rows)))"
    using assms(2) by (fastforce simp: set_cell_texts)
  then show ?thesis using dict_fits_subset [OF assms(1) [unfolded texts_fit_def]] by (simp add: texts_fit_def)
qed

text \<open>The stages take some of the picks there are.\<close>

lemma take_some_picks:
  assumes "output_ok out" "texts_fit (output_rows out)" "set picks \<subseteq> set (all_picks (qo_batches out))"
  shows "\<exists>b. take_rows (qo_schema out) (qo_batches out) picks = (Ok b :: ('e, _) outcome) \<and> batch_ok b \<and>
    rb_schema b = qo_schema out \<and> batch_rows b = map (picked (qo_batches out)) picks"
proof (rule take_rows_exact)
  show "texts_fit (map (picked (qo_batches out)) picks)"
    by (rule texts_fit_subset [OF assms(2)])
      (use assms(3) in \<open>auto simp: output_rows_def map_all_picks [symmetric]\<close>)
qed (use assms all_picks_ok in \<open>auto simp: output_ok_def\<close>)

section \<open>The identity of a row\<close>

lemma f64_key_eq_iff: "f64_key x = f64_key y \<longleftrightarrow> f64_scaled x = f64_scaled y"
  using f64_key_less_iff [of x y] f64_key_less_iff [of y x] by linarith

lemma f64_magnitude_sign:
  assumes "f64_magnitude x = f64_magnitude y" "f64_sign x = f64_sign y"
  shows "x = y"
proof (rule bit_word_eqI)
  fix n assume "n < LENGTH(64)"
  then consider "n = 63" | "n < 63" by force
  then show "bit x n = bit y n"
  proof cases
    case 2
    have m: "(0x7FFFFFFFFFFFFFFF :: f64) = mask 63" by (simp add: mask_eq_exp_minus_1)
    have "x AND mask 63 = y AND mask 63"
      using assms(1) by (simp add: f64_magnitude_def m word_unat_eq_iff)
    then have "bit (x AND mask 63) n = bit (y AND mask 63) n" by simp
    then show ?thesis using 2 by (simp add: bit_simps)
  qed (use assms(2) in \<open>simp add: f64_sign_def\<close>)
qed

lemma canonical_f64_eq: "canonical_f64 x = canonical_f64 y \<longleftrightarrow> cmp_f64 x y = Equal"
proof -
  have key: "f64_key x = (if f64_sign x then - int (f64_magnitude x) else int (f64_magnitude x))" for x
    by (simp add: f64_key_def f64_magnitude_def Let_def)
  have nan: "f64_is_nan f64_nan" "\<not> f64_is_nan 0" "f64_key 0 = 0"
    by (simp_all add: f64_nan_def f64_is_nan_def f64_exponent_def f64_fraction_def f64_key_def f64_sign_def)
  have same: "x = y" if "f64_key x = f64_key y" "f64_key x \<noteq> 0" for x y
    using that by (intro f64_magnitude_sign) (auto simp: key split: if_splits)
  show ?thesis
    using same [of x y] nan
    by (auto simp: canonical_f64_def cmp_f64_def f64_partial_cmp_def f64_lt_def f64_eq_def split: bool.splits if_splits)
qed

fun same_cell :: "row_value \<Rightarrow> row_value \<Rightarrow> bool" where
  "same_cell RvNull RvNull \<longleftrightarrow> True"
| "same_cell (RvF64 x) (RvF64 y) \<longleftrightarrow> cmp_f64 x y = Equal"
| "same_cell (RvI64 x) (RvI64 y) \<longleftrightarrow> x = y"
| "same_cell (RvKey s) (RvKey t) \<longleftrightarrow> s = t"
| "same_cell _ _ \<longleftrightarrow> False"

definition same_row :: "row_value list \<Rightarrow> row_value list \<Rightarrow> bool" where
  "same_row = list_all2 same_cell"

text \<open>Each row's first occurrence.\<close>

definition distinct_rows :: "row_value list list \<Rightarrow> row_value list list" where
  "distinct_rows rows = map (nth rows) (filter (\<lambda>i. \<forall>j<i. \<not> same_row (rows ! j) (rows ! i)) [0..<length rows])"

fun identity_bytes :: "row_value \<Rightarrow> bytes" where
  "identity_bytes RvNull = [0]"
| "identity_bytes (RvF64 x) = 1 # le_bytes 8 (canonical_f64 x)"
| "identity_bytes (RvI64 x) = 2 # le_bytes 8 x"
| "identity_bytes (RvKey s) = 3 # le_bytes 4 (word_of_nat (length s) :: u32) @ s"

definition identity_of :: "row_value list \<Rightarrow> bytes" where
  "identity_of row = concat (map identity_bytes row)"

definition short_text :: "row_value \<Rightarrow> bool" where
  "short_text cell \<longleftrightarrow> (case cell of RvKey s \<Rightarrow> length s < 2 ^ 32 | _ \<Rightarrow> True)"

lemma cell_identity_cells:
  assumes "column_ok c" "row < col_len c"
  shows "cell_identity c row = (Ok (identity_bytes (column_cells c ! row)) :: ('e, _) outcome)"
proof -
  have v: "cell_value c row = (Ok (column_cells c ! row) :: ('e, _) outcome)" by (rule cell_value_cells [OF assms])
  show ?thesis
  proof (cases c rule: column_cells.cases)
    case (1 n)
    then obtain valid where valid: "nc_is_valid n row = (Ok valid :: ('e, _) outcome)"
      using v by (auto simp: cell_value_def)
    then show ?thesis using v 1 assms(2)
      by (cases valid) (simp_all add: cell_value_def cell_identity_def element_at_def nc_len_def)
  next
    case (2 n)
    then obtain valid where valid: "nc_is_valid n row = (Ok valid :: ('e, _) outcome)"
      using v by (auto simp: cell_value_def)
    then show ?thesis using v 2 assms(2)
      by (cases valid) (simp_all add: cell_value_def cell_identity_def element_at_def nc_len_def)
  next
    case (3 k)
    then obtain u where "kc_value_at k row = (Ok u :: ('e, _) outcome)" using v by (auto simp: cell_value_def)
    moreover from this have "column_cells c ! row = (case u of Some s \<Rightarrow> RvKey s | None \<Rightarrow> RvNull)"
      using v 3 by (simp add: cell_value_def del: column_cells.simps)
    ultimately show ?thesis using 3 by (cases u) (simp_all add: cell_identity_def del: column_cells.simps)
  qed
qed

lemma identity_prefix:
  assumes "short_text a" "short_text b" "identity_bytes a @ xs = identity_bytes b @ ys"
  shows "same_cell a b \<and> xs = ys"
proof -
  have prefix: "le_bytes n x = le_bytes n y \<and> us = vs" if "le_bytes n x @ us = le_bytes n y @ vs"
    for n and x y :: "'w::len word" and us vs
    using that by simp
  have words: "x = y \<and> xs = ys" if "le_bytes 8 x @ xs = le_bytes 8 y @ ys" for x y :: u64
    using prefix [OF that] by (metis le_word_bytes(3))
  have lens: "m = n \<and> us = vs"
    if "le_bytes 4 (word_of_nat m :: u32) @ us = le_bytes 4 (word_of_nat n :: u32) @ vs" "m < 2 ^ 32" "n < 2 ^ 32" for m n us vs
  proof -
    have "(word_of_nat m :: u32) = word_of_nat n"
      using prefix [OF that(1)] by (metis le_word_bytes(2))
    then show ?thesis using prefix [OF that(1)] unat_of_nat_u32 [OF that(2)] unat_of_nat_u32 [OF that(3)] by metis
  qed
  show ?thesis
  proof (cases a; cases b)
    fix s t assume ab: "a = RvKey s" "b = RvKey t"
    then have "length s = length t \<and> s @ xs = t @ ys"
      using lens [of "length s" "s @ xs" "length t" "t @ ys"] assms by (simp add: short_text_def)
    then have "s = t" "xs = ys" by (auto simp: append_eq_append_conv)
    then show ?thesis using ab by simp
  next
    fix x y assume "a = RvF64 x" "b = RvF64 y"
    then show ?thesis using words [of "canonical_f64 x" "canonical_f64 y"] assms(3) canonical_f64_eq by simp
  next
    fix x y assume "a = RvI64 x" "b = RvI64 y"
    then show ?thesis using words [of x y] assms(3) by simp
  qed (use assms(3) in simp_all)
qed

lemma same_cell_identity: "same_cell a b \<Longrightarrow> identity_bytes a = identity_bytes b"
  by (cases a; cases b) (simp_all, metis canonical_f64_eq)

lemma identity_of_eq:
  assumes "length r = length r'" "\<forall>cell\<in>set r \<union> set r'. short_text cell"
  shows "identity_of r = identity_of r' \<longleftrightarrow> same_row r r'"
  using assms
proof (induction r r' rule: list_induct2)
  case (Cons a r b r')
  have IH: "identity_of r = identity_of r' \<longleftrightarrow> same_row r r'" using Cons by simp
  have short: "short_text a" "short_text b" using Cons.prems by simp_all
  have cons: "identity_of (x # xs) = identity_bytes x @ identity_of xs" for x xs by (simp add: identity_of_def)
  have "same_row (a # r) (b # r') \<longleftrightarrow> same_cell a b \<and> same_row r r'" by (simp add: same_row_def)
  moreover have "identity_bytes a @ identity_of r = identity_bytes b @ identity_of r' \<longleftrightarrow>
      same_cell a b \<and> identity_of r = identity_of r'"
    using identity_prefix [OF short, of "identity_of r" "identity_of r'"] same_cell_identity [of a b] by metis
  ultimately show ?case unfolding cons using IH by simp
qed (simp add: identity_of_def same_row_def)

section \<open>First occurrences\<close>

fun firsts :: "('a \<Rightarrow> 'k) \<Rightarrow> 'k set \<Rightarrow> 'a list \<Rightarrow> 'a list" where
  "firsts key seen [] = []"
| "firsts key seen (x # xs) = (if key x \<in> seen then firsts key seen xs else x # firsts key (insert (key x) seen) xs)"

lemma firsts_snoc: "firsts key seen (xs @ [x]) = firsts key seen xs @ (if key x \<in> seen \<union> key ` set xs then [] else [x])"
  by (induction xs arbitrary: seen) auto

lemma firsts_nth: "firsts key {} xs = map (nth xs) (filter (\<lambda>i. \<forall>j<i. key (xs ! j) \<noteq> key (xs ! i)) [0..<length xs])"
proof (induction xs rule: rev_induct)
  case (snoc x xs)
  have "filter (\<lambda>i. \<forall>j<i. key ((xs @ [x]) ! j) \<noteq> key ((xs @ [x]) ! i)) [0..<length xs] =
      filter (\<lambda>i. \<forall>j<i. key (xs ! j) \<noteq> key (xs ! i)) [0..<length xs]"
    by (rule filter_cong) (auto simp: nth_append)
  moreover have "map (nth (xs @ [x])) (filter P [0..<length xs]) = map (nth xs) (filter P [0..<length xs])" for P
    by (auto simp: nth_append)
  moreover have "(\<forall>j<length xs. key ((xs @ [x]) ! j) \<noteq> key x) \<longleftrightarrow> key x \<notin> key ` set xs"
    by (auto simp: nth_append set_conv_nth image_iff)
  ultimately show ?case using snoc by (simp add: firsts_snoc)
qed simp

lemma firsts_map: "map f (firsts (\<lambda>x. key (f x)) seen xs) = firsts key seen (map f xs)"
  by (induction xs arbitrary: seen) auto

lemma set_firsts: "set (firsts key seen xs) \<subseteq> set xs"
  by (induction xs arbitrary: seen) auto

lemma distinct_fold:
  assumes "\<And>p. p \<in> set ps \<Longrightarrow> row_identity batches p = (Ok (ident p) :: ('e, _) outcome)"
  shows "\<exists>seen'. foldR (distinct_step batches) (seen, picks) ps =
    (Ok (seen', picks @ firsts ident (set seen) ps) :: ('e, _) outcome)"
  using assms
proof (induction ps arbitrary: seen picks)
  case (Cons p ps)
  have p: "row_identity batches p = (Ok (ident p) :: ('e, _) outcome)" by (rule Cons.prems) simp
  have ps: "\<And>q. q \<in> set ps \<Longrightarrow> row_identity batches q = (Ok (ident q) :: ('e, _) outcome)" by (rule Cons.prems) simp
  show ?case using p Cons.IH [OF ps, of seen picks] Cons.IH [OF ps, of "ident p # seen" "picks @ [p]"]
    by (simp add: distinct_step_def)
qed simp

section \<open>A sample\<close>

text \<open>A result of two batches whose key columns have dictionaries of their own.\<close>

definition sample_schema :: schema where
  "sample_schema = \<lparr>s_fields = [field_new (ascii ''k'') Key True, field_new (ascii ''v'') I64 False]\<rparr>"

definition sample_batch :: "u32 list \<Rightarrow> bitmap option \<Rightarrow> rstring list \<Rightarrow> u64 list \<Rightarrow> record_batch" where
  "sample_batch codes validity names vs = \<lparr>rb_schema = sample_schema,
     rb_columns = [KeyCol \<lparr>kc_codes = codes, kc_validity = validity, kc_dictionary = dict_of names\<rparr>,
       Numeric (NI64 \<lparr>nc_values = vs, nc_validity = None\<rparr>)], rb_num_rows = length vs\<rparr>"

definition sample_output :: query_output where
  "sample_output = \<lparr>qo_schema = sample_schema, qo_batches =
     [sample_batch [1, 0] None [ascii ''a'', ascii ''b''] [7, 8],
      sample_batch [0, 0, 0] (Some (from_bools [True, False, True])) [ascii ''b''] [7, 8, 5]]\<rparr>"

lemma sample_output_ok:
  "output_ok sample_output"
  "output_rows sample_output = [[RvKey (ascii ''b''), RvI64 7], [RvKey (ascii ''a''), RvI64 8],
     [RvKey (ascii ''b''), RvI64 7], [RvNull, RvI64 8], [RvKey (ascii ''b''), RvI64 5]]"
  "texts_fit (output_rows sample_output)"
proof -
  have names: "dict_ok (dict_of [ascii ''a'', ascii ''b''])" "dict_names (dict_of [ascii ''a'', ascii ''b'']) = [ascii ''a'', ascii ''b'']"
    "dict_ok (dict_of [ascii ''b''])" "dict_names (dict_of [ascii ''b'']) = [ascii ''b'']"
    by (simp_all add: dict_ok_def dict_fits_def ascii_def dict_names_of)
  show "output_ok sample_output"
    using names by (simp add: output_ok_def sample_output_def batches_ok_def sample_batch_def batch_ok_def sample_schema_def
        field_new_def binding_ok_def kc_len_def nc_len_def validity_ok_def)
  show rows: "output_rows sample_output = [[RvKey (ascii ''b''), RvI64 7], [RvKey (ascii ''a''), RvI64 8],
     [RvKey (ascii ''b''), RvI64 7], [RvNull, RvI64 8], [RvKey (ascii ''b''), RvI64 5]]"
    using names by (simp add: output_rows_def sample_output_def batch_rows_def sample_batch_def upt_rec kc_len_def nc_len_def presence_def)
  show "texts_fit (output_rows sample_output)"
    unfolding rows by (simp add: texts_fit_def cell_texts_def dict_fits_def ascii_def)
qed

section \<open>Properties\<close>

text \<open>
  OFFSET and LIMIT drop and take rows.  On a well-formed result whose texts fit one
  dictionary the stage returns, and the rows of its result, across however many batches they
  came from, are the input's with \<open>offset\<close> of them dropped and at most \<open>limit\<close> taken.
\<close>
theorem limit_rows:
  assumes "output_ok out" "texts_fit (output_rows out)"
  shows "\<exists>out'. limit_output out offset limit = (Ok out' :: ('e, _) outcome) \<and> output_ok out' \<and> qo_schema out' = qo_schema out \<and>
    output_rows out' = (case limit of None \<Rightarrow> drop offset (output_rows out) | Some n \<Rightarrow> take n (drop offset (output_rows out)))"
proof -
  define picks where "picks = (case limit of None \<Rightarrow> drop offset (all_picks (qo_batches out))
    | Some n \<Rightarrow> take n (drop offset (all_picks (qo_batches out))))"
  have rows: "map (picked (qo_batches out)) picks =
      (case limit of None \<Rightarrow> drop offset (output_rows out) | Some n \<Rightarrow> take n (drop offset (output_rows out)))"
    by (simp add: picks_def output_rows_def map_all_picks [symmetric] drop_map take_map split: option.splits)
  have "set picks \<subseteq> set (all_picks (qo_batches out))"
    by (auto simp: picks_def dest: in_set_takeD in_set_dropD split: option.splits)
  from take_some_picks [OF assms this] obtain b where
    b: "take_rows (qo_schema out) (qo_batches out) picks = (Ok b :: ('e, _) outcome)" "batch_ok b"
      "rb_schema b = qo_schema out" "batch_rows b = map (picked (qo_batches out)) picks" by blast
  have step: "limit_output out offset limit = (if picks = [] then Ok (out\<lparr>qo_batches := []\<rparr>)
      else mapR (\<lambda>batch. out\<lparr>qo_batches := [batch]\<rparr>) (take_rows (qo_schema out) (qo_batches out) picks) :: ('e, _) outcome)"
    by (simp add: limit_output_def picks_def Let_def)
  show ?thesis
  proof (cases "picks = []")
    case True
    then have "limit_output out offset limit = (Ok (out\<lparr>qo_batches := []\<rparr>) :: ('e, _) outcome)" using step by simp
    then show ?thesis using rows True
      by (intro exI [of _ "out\<lparr>qo_batches := []\<rparr>"]) (simp add: output_ok_def batches_ok_def output_rows_def)
  next
    case False
    then have "limit_output out offset limit = (Ok (out\<lparr>qo_batches := [b]\<rparr>) :: ('e, _) outcome)" using step b(1) by simp
    then show ?thesis using b(2-4) rows
      by (intro exI [of _ "out\<lparr>qo_batches := [b]\<rparr>"]) (simp add: output_ok_def batches_ok_def output_rows_def)
  qed
qed

theorem limit_rows_witness:
  "\<exists>out'. limit_output sample_output 1 (Some 2) = (Ok out' :: (unit, _) outcome) \<and>
    output_rows out' = [[RvKey (ascii ''a''), RvI64 8], [RvKey (ascii ''b''), RvI64 7]]"
  using limit_rows [OF sample_output_ok(1,3), of 1 "Some 2"] by (auto simp: sample_output_ok(2))

text \<open>
  C40: DISTINCT keeps each row's first occurrence.  On a well-formed result whose texts fit one
  dictionary the stage returns, and keeps exactly the rows that equal no earlier one, in
  order: equal as SQL has it, null with null, floats by the engine's comparison relation
  (all NaNs alike, the two zeros alike), texts by their bytes and not by their codes.
\<close>
theorem distinct_keeps_firsts:
  assumes "output_ok out" "texts_fit (output_rows out)"
  shows "\<exists>out'. distinct_output out = (Ok out' :: ('e, _) outcome) \<and> output_ok out' \<and> qo_schema out' = qo_schema out \<and>
    output_rows out' = distinct_rows (output_rows out)"
proof -
  let ?ps = "all_picks (qo_batches out)"
  let ?ident = "\<lambda>p. identity_of (picked (qo_batches out) p)"
  have at: "fst p < length (qo_batches out)" "snd p < rb_num_rows (qo_batches out ! fst p)"
    "batch_ok (qo_batches out ! fst p)" "rb_schema (qo_batches out ! fst p) = qo_schema out" if "p \<in> set ?ps" for p
    using that assms(1) by (auto simp: all_picks_ok pick_ok_def output_ok_def batches_ok_def)
  have "row_identity (qo_batches out) p = (Ok (?ident p) :: ('e, _) outcome)" if "p \<in> set ?ps" for p
  proof -
    have "traverseR (\<lambda>c. cell_identity c (snd p)) (rb_columns (qo_batches out ! fst p)) =
        (Ok (map (\<lambda>c. identity_bytes (column_cells c ! snd p)) (rb_columns (qo_batches out ! fst p))) :: ('e, _) outcome)"
      by (rule traverseR_Ok) (use batch_ok_columns [OF at(3) [OF that]] at(2) [OF that] in \<open>simp add: cell_identity_cells\<close>)
    then show ?thesis using at [OF that]
      by (simp add: row_identity_def split_def element_at_def picked_def identity_of_def batch_rows_nth comp_def)
  qed
  from distinct_fold [of ?ps, OF this, of "[]" "[]"] obtain seen where
    f: "foldR (distinct_step (qo_batches out)) ([], []) ?ps = (Ok (seen, firsts ?ident {} ?ps) :: ('e, _) outcome)" by auto
  from take_some_picks [OF assms set_firsts] obtain b where
    b: "take_rows (qo_schema out) (qo_batches out) (firsts ?ident {} ?ps) = (Ok b :: ('e, _) outcome)" "batch_ok b"
      "rb_schema b = qo_schema out" "batch_rows b = map (picked (qo_batches out)) (firsts ?ident {} ?ps)" by blast
  have rows: "output_rows out = map (picked (qo_batches out)) ?ps" by (simp add: output_rows_def map_all_picks)
  have row_ok: "length r = length (s_fields (qo_schema out)) \<and> (\<forall>cell\<in>set r. short_text cell)" if r: "r \<in> set (output_rows out)" for r
  proof -
    obtain p where "p \<in> set ?ps" "r = picked (qo_batches out) p" using r rows by auto
    then have "length r = length (s_fields (qo_schema out))"
      using at [of p] by (auto simp: picked_def split_def batch_rows_nth batch_ok_def)
    moreover have "length s < 2 ^ 32" if "RvKey s \<in> set r" for s
    proof -
      have "s \<in> set (remdups (cell_texts (concat (output_rows out))))" using texts_fit_keys [OF assms(2) r that] .
      then have "length s \<le> length (concat (remdups (cell_texts (concat (output_rows out)))))"
        by (simp add: length_concat member_le_sum_list)
      then show ?thesis using assms(2) by (simp add: texts_fit_def dict_fits_def)
    qed
    ultimately show ?thesis by (auto simp: short_text_def split: row_value.splits)
  qed
  have "batch_rows b = firsts identity_of {} (output_rows out)"
    by (simp add: b(4) rows firsts_map)
  also have "\<dots> = distinct_rows (output_rows out)"
  proof -
    have "identity_of (output_rows out ! j) \<noteq> identity_of (output_rows out ! i) \<longleftrightarrow> \<not> same_row (output_rows out ! j) (output_rows out ! i)"
      if "j < i" "i < length (output_rows out)" for i j
      using that row_ok [of "output_rows out ! i"] row_ok [of "output_rows out ! j"] by (subst identity_of_eq) auto
    then show ?thesis
      unfolding firsts_nth distinct_rows_def
      by (intro arg_cong [of _ _ "map (nth (output_rows out))"] filter_cong) auto
  qed
  finally show ?thesis using f b(1-3)
    by (simp add: distinct_output_def output_ok_def batches_ok_def) (simp add: output_rows_def)
qed

theorem distinct_keeps_firsts_witness:
  "\<exists>out'. distinct_output sample_output = (Ok out' :: (unit, _) outcome) \<and>
    output_rows out' = [[RvKey (ascii ''b''), RvI64 7], [RvKey (ascii ''a''), RvI64 8], [RvNull, RvI64 8],
      [RvKey (ascii ''b''), RvI64 5]]"
proof -
  have "distinct_rows (output_rows sample_output) = [[RvKey (ascii ''b''), RvI64 7], [RvKey (ascii ''a''), RvI64 8], [RvNull, RvI64 8],
      [RvKey (ascii ''b''), RvI64 5]]"
    unfolding sample_output_ok(2) by (simp add: distinct_rows_def same_row_def upt_rec All_less_Suc ascii_def)
  then show ?thesis using distinct_keeps_firsts [OF sample_output_ok(1,3)] by auto
qed

end
