(* ===== verification/Sort.thy ===== *)
theory Sort
  imports Output Plan "HOL-Library.Product_Lexorder"
begin

text \<open>
  ORDER BY (\<^verbatim>\<open>src/query_lite/exec.rs\<close>): one sweep over the rows keeps the best
  \<open>OFFSET + LIMIT\<close> of them in a max-heap (all of them when there is no bound), which is then
  sorted and gathered.  The result is exactly the bounded prefix of the stable sort by the
  column's values, with nulls where the query wants them: the heap changes nothing.
\<close>

section \<open>The code\<close>

definition resolve :: "schema \<Rightarrow> rstring \<Rightarrow> (query_error, nat \<times> field) outcome" where
  "resolve s name =
     (case position (\<lambda>f. f_name f = name) (s_fields s) of
        Some index \<Rightarrow> Ok (index, s_fields s ! index)
      | None \<Rightarrow> Err (no_such_column name))"

datatype sort_cell = SortI64 i64 | SortF64 f64

type_synonym sort_entry = "sort_cell option \<times> (nat \<times> nat) \<times> nat"

definition reverse_ordering :: "ordering \<Rightarrow> ordering" where
  "reverse_ordering q = (case q of Less \<Rightarrow> Greater | Equal \<Rightarrow> Equal | Greater \<Rightarrow> Less)"

definition ordering_then :: "ordering \<Rightarrow> ordering \<Rightarrow> ordering" where
  "ordering_then q r = (if q = Equal then r else q)"

definition compare_nat :: "nat \<Rightarrow> nat \<Rightarrow> ordering" where
  "compare_nat a b = (if a < b then Less else if b < a then Greater else Equal)"

text \<open>The derived order of the cells, with the engine's relation on floats.\<close>

fun compare_cells :: "sort_cell \<Rightarrow> sort_cell \<Rightarrow> ordering" where
  "compare_cells (SortF64 l) (SortF64 r) = cmp_f64 l r"
| "compare_cells (SortI64 l) (SortI64 r) = (if sint l < sint r then Less else if sint r < sint l then Greater else Equal)"
| "compare_cells (SortI64 _) (SortF64 _) = Less"
| "compare_cells (SortF64 _) (SortI64 _) = Greater"

definition null_order :: "order_by \<Rightarrow> ordering" where
  "null_order ob = (if ob_nulls_first ob = Some True then Less else Greater)"

definition compare_entries :: "order_by \<Rightarrow> sort_entry \<Rightarrow> sort_entry \<Rightarrow> ordering" where
  "compare_entries ob left right =
     ordering_then
       (case (fst left, fst right) of
          (None, None) \<Rightarrow> Equal
        | (None, Some _) \<Rightarrow> null_order ob
        | (Some _, None) \<Rightarrow> reverse_ordering (null_order ob)
        | (Some l, Some r) \<Rightarrow>
            (if ob_descending ob then reverse_ordering (compare_cells l r) else compare_cells l r))
       (compare_nat (snd (snd left)) (snd (snd right)))"

section \<open>The heap\<close>

definition swap_at :: "'a list \<Rightarrow> nat \<Rightarrow> nat \<Rightarrow> 'a list" where
  "swap_at xs i j = xs[i := xs ! j, j := xs ! i]"

function sift_up :: "('a \<Rightarrow> 'a \<Rightarrow> ordering) \<Rightarrow> 'a list \<Rightarrow> nat \<Rightarrow> 'a list" where
  "sift_up compare heap index =
     (if 0 < index then
        (let parent = (index - 1) div 2
         in if compare (heap ! index) (heap ! parent) \<noteq> Greater then heap
            else sift_up compare (swap_at heap index parent) parent)
      else heap)"
  by pat_completeness auto
termination
  by (relation "measure (\<lambda>(_, _, index). index)") auto

declare sift_up.simps [simp del]

definition worst_of :: "('a \<Rightarrow> 'a \<Rightarrow> ordering) \<Rightarrow> 'a list \<Rightarrow> nat \<Rightarrow> nat" where
  "worst_of compare heap index =
     (let left = 2 * index + 1; right = 2 * index + 2;
          worst = (if left < length heap \<and> compare (heap ! left) (heap ! index) = Greater then left else index)
      in if right < length heap \<and> compare (heap ! right) (heap ! worst) = Greater then right else worst)"

lemma worst_of_cases:
  "worst_of compare heap index \<in> {index, 2 * index + 1, 2 * index + 2}"
  "worst_of compare heap index \<noteq> index \<Longrightarrow> worst_of compare heap index < length heap"
  by (auto simp: worst_of_def Let_def)

function sift_down :: "('a \<Rightarrow> 'a \<Rightarrow> ordering) \<Rightarrow> 'a list \<Rightarrow> nat \<Rightarrow> 'a list" where
  "sift_down compare heap index =
     (let worst = worst_of compare heap index
      in if worst = index then heap else sift_down compare (swap_at heap index worst) worst)"
  by pat_completeness auto
termination
proof (relation "measure (\<lambda>(_, heap, index). length heap - index)")
  fix compare :: "'a \<Rightarrow> 'a \<Rightarrow> ordering" and heap index worst
  assume "worst = worst_of compare heap index" "worst \<noteq> index"
  then show "((compare, swap_at heap index worst, worst), compare, heap, index) \<in> measure (\<lambda>(_, heap, index). length heap - index)"
    using worst_of_cases [of compare heap index] by (auto simp: swap_at_def)
qed simp

declare sift_down.simps [simp del]

text \<open>One row: kept while there is room, afterwards only by displacing the worst kept.\<close>

definition admit_entry :: "('a \<Rightarrow> 'a \<Rightarrow> ordering) \<Rightarrow> nat option \<Rightarrow> 'a list \<Rightarrow> 'a \<Rightarrow> 'a list" where
  "admit_entry compare keep entries entry =
     (if keep = Some (length entries) then
        (if 0 < length entries \<and> compare entry (entries ! 0) = Less then sift_down compare (entries[0 := entry]) 0
         else entries)
      else sift_up compare (entries @ [entry]) (length entries))"

text \<open>\<open>sort_by\<close>: the stable sort by a comparison.\<close>

fun insert_by :: "('a \<Rightarrow> 'a \<Rightarrow> ordering) \<Rightarrow> 'a \<Rightarrow> 'a list \<Rightarrow> 'a list" where
  "insert_by compare x [] = [x]"
| "insert_by compare x (y # ys) = (if compare x y = Greater then y # insert_by compare x ys else x # y # ys)"

definition sort_by :: "('a \<Rightarrow> 'a \<Rightarrow> ordering) \<Rightarrow> 'a list \<Rightarrow> 'a list" where
  "sort_by compare xs = foldr (insert_by compare) xs []"

definition sort_cell_at :: "column \<Rightarrow> nat \<Rightarrow> ('e, sort_cell option) outcome" where
  "sort_cell_at c row =
     (case c of
        Numeric (NF64 n) \<Rightarrow>
          bindR (nc_is_valid n row) (\<lambda>valid.
          if valid then mapR (\<lambda>x. Some (SortF64 x)) (element_at (nc_values n) row) else Ok None)
      | Numeric (NI64 n) \<Rightarrow>
          bindR (nc_is_valid n row) (\<lambda>valid.
          if valid then mapR (\<lambda>x. Some (SortI64 x)) (element_at (nc_values n) row) else Ok None)
      | KeyCol _ \<Rightarrow> Panic)"

definition sort_step ::
  "order_by \<Rightarrow> nat \<Rightarrow> record_batch list \<Rightarrow> nat option \<Rightarrow> sort_entry list \<times> nat \<Rightarrow> nat \<times> nat \<Rightarrow>
   ('e, sort_entry list \<times> nat) outcome" where
  "sort_step ob index batches keep = (\<lambda>(entries, position) (b, row).
     bindR (pick_column batches index b) (\<lambda>c.
     mapR (\<lambda>cell. (admit_entry (compare_entries ob) keep entries (cell, (b, row), position), position + 1))
       (sort_cell_at c row)))"

definition sort_output :: "query_output \<Rightarrow> order_by \<Rightarrow> nat option \<Rightarrow> (query_error, query_output) outcome" where
  "sort_output out ob keep =
     bindR (resolve (qo_schema out) (ob_column ob)) (\<lambda>(index, f).
     if f_column_type f = Key then Err (TypeError (ob_column ob))
     else
       bindR (foldR (sort_step ob index (qo_batches out) keep) ([], 0) (all_picks (qo_batches out))) (\<lambda>(entries, _).
       mapR (\<lambda>batch. out\<lparr>qo_batches := [batch]\<rparr>)
         (take_rows (qo_schema out) (qo_batches out) (map (\<lambda>e. fst (snd e)) (sort_by (compare_entries ob) entries)))))"

section \<open>The heap keeps its order\<close>

text \<open>A comparison that is the order of a key.\<close>

definition compares :: "('a \<Rightarrow> 'a \<Rightarrow> ordering) \<Rightarrow> ('a \<Rightarrow> 'k::linorder) \<Rightarrow> bool" where
  "compares compare key \<longleftrightarrow>
     (\<forall>x y. compare x y = (if key x < key y then Less else if key y < key x then Greater else Equal))"

lemma compares_eq:
  assumes "compares compare key"
  shows "compare x y = Greater \<longleftrightarrow> key y < key x" "compare x y = Less \<longleftrightarrow> key x < key y"
  using assms by (auto simp: compares_def)

abbreviation (input) parent :: "nat \<Rightarrow> nat" where "parent i \<equiv> (i - 1) div 2"

definition heap_at :: "('a \<Rightarrow> 'k::linorder) \<Rightarrow> 'a list \<Rightarrow> nat \<Rightarrow> bool" where
  "heap_at key h i \<longleftrightarrow> key (h ! i) \<le> key (h ! parent i)"

definition max_heap :: "('a \<Rightarrow> 'k::linorder) \<Rightarrow> 'a list \<Rightarrow> bool" where
  "max_heap key h \<longleftrightarrow> (\<forall>i<length h. 0 < i \<longrightarrow> heap_at key h i)"

lemma max_heap_root: "max_heap key h \<Longrightarrow> i < length h \<Longrightarrow> key (h ! i) \<le> key (h ! 0)"
proof (induction i rule: less_induct)
  case (less i)
  show ?case
  proof (cases "i = 0")
    case False
    then have "parent i < i" by auto
    then have "key (h ! parent i) \<le> key (h ! 0)" using less by auto
    moreover have "key (h ! i) \<le> key (h ! parent i)" using less.prems False by (auto simp: max_heap_def heap_at_def)
    ultimately show ?thesis by simp
  qed simp
qed

lemma swap_at_simps [simp]:
  "length (swap_at h i j) = length h"
  "i < length h \<Longrightarrow> j < length h \<Longrightarrow> k < length h \<Longrightarrow>
   swap_at h i j ! k = (if k = j then h ! i else if k = i then h ! j else h ! k)"
  by (auto simp: swap_at_def nth_list_update)

lemma mset_swap_at: "i < length h \<Longrightarrow> j < length h \<Longrightarrow> mset (swap_at h i j) = mset h"
  by (simp add: swap_at_def mset_swap)

text \<open>Everywhere a heap but at one place, whose children are under its parent.\<close>

definition heap_above :: "('a \<Rightarrow> 'k::linorder) \<Rightarrow> 'a list \<Rightarrow> nat \<Rightarrow> bool" where
  "heap_above key h p \<longleftrightarrow> (\<forall>i<length h. 0 < i \<longrightarrow> i \<noteq> p \<longrightarrow> heap_at key h i) \<and>
     (\<forall>c<length h. 0 < c \<longrightarrow> parent c = p \<longrightarrow> 0 < p \<longrightarrow> key (h ! c) \<le> key (h ! parent p))"

lemma sift_up_heap:
  assumes "compares compare key" "p < length h" "heap_above key h p"
  shows "max_heap key (sift_up compare h p) \<and> mset (sift_up compare h p) = mset h"
  using assms(2,3)
proof (induction p arbitrary: h rule: less_induct)
  case (less p)
  let ?q = "parent p"
  show ?case
  proof (cases "0 < p \<and> key (h ! ?q) < key (h ! p)")
    case True
    then have q: "?q < p" by auto
    let ?h = "swap_at h p ?q"
    have lens: "?q < length h" using q less.prems by simp
    have "heap_above key ?h ?q"
      unfolding heap_above_def
    proof (intro conjI allI impI)
      fix i assume i: "i < length ?h" "0 < i" "i \<noteq> ?q"
      have pi: "parent i < length h" using i by auto
      consider "i = p" | "i \<noteq> p" "parent i = p" | "i \<noteq> p" "parent i = ?q" | "i \<noteq> p" "parent i \<noteq> p" "parent i \<noteq> ?q" by blast
      then show "heap_at key ?h i"
      proof cases
        case 1
        then show ?thesis using True less.prems lens by (auto simp: heap_at_def)
      next
        case 2
        then have "key (h ! i) \<le> key (h ! ?q)" using less.prems i True by (auto simp: heap_above_def)
        then show ?thesis using 2 i less.prems lens q by (simp add: heap_at_def)
      next
        case 3
        then have "key (h ! i) \<le> key (h ! ?q)" using less.prems i by (auto simp: heap_above_def heap_at_def)
        then show ?thesis using 3 i less.prems lens True by (auto simp: heap_at_def)
      next
        case 4
        then show ?thesis using i less.prems lens pi by (auto simp: heap_above_def heap_at_def)
      qed
    next
      fix c assume c: "c < length ?h" "0 < c" "parent c = ?q" "0 < ?q"
      have up: "parent ?q < ?q" using c(4) by auto
      have hq: "key (h ! ?q) \<le> key (h ! parent ?q)" using less.prems c(4) lens q by (auto simp: heap_above_def heap_at_def)
      show "key (?h ! c) \<le> key (?h ! parent ?q)"
      proof (cases "c = p")
        case True
        then show ?thesis using hq up lens less.prems q by simp
      next
        case False
        have "c \<noteq> ?q" using c by auto
        moreover have "key (h ! c) \<le> key (h ! ?q)" using False c less.prems by (auto simp: heap_above_def heap_at_def)
        ultimately show ?thesis using False hq up lens less.prems q c by simp
      qed
    qed
    then have "max_heap key (sift_up compare ?h ?q) \<and> mset (sift_up compare ?h ?q) = mset ?h"
      using less.IH [OF q] lens by simp
    then show ?thesis
      using True compares_eq(1) [OF assms(1)] mset_swap_at [of p h ?q] less.prems lens
      by (simp add: sift_up.simps [of compare h p] Let_def)
  next
    case False
    then have "sift_up compare h p = h"
      using compares_eq(1) [OF assms(1)] by (auto simp: sift_up.simps [of compare h p] Let_def)
    moreover have "max_heap key h"
      using False less.prems by (auto simp: max_heap_def heap_above_def heap_at_def not_less)
    ultimately show ?thesis by simp
  qed
qed

definition heap_below :: "('a \<Rightarrow> 'k::linorder) \<Rightarrow> 'a list \<Rightarrow> nat \<Rightarrow> bool" where
  "heap_below key h p \<longleftrightarrow> (\<forall>i<length h. 0 < i \<longrightarrow> parent i \<noteq> p \<longrightarrow> heap_at key h i) \<and>
     (\<forall>c<length h. 0 < c \<longrightarrow> parent c = p \<longrightarrow> 0 < p \<longrightarrow> key (h ! c) \<le> key (h ! parent p))"

lemma parent_iff: "0 < i \<Longrightarrow> parent i = p \<longleftrightarrow> i = 2 * p + 1 \<or> i = 2 * p + 2"
  by auto

lemma worst_of_max:
  assumes "compares compare key" "i < length h" "0 < i" "parent i = p"
  shows "key (h ! i) \<le> key (h ! worst_of compare h p)"
  using assms(2-4) parent_iff [OF assms(3), of p] compares_eq(1) [OF assms(1)]
  by (auto simp: worst_of_def Let_def not_less)

lemma worst_of_self: "compares compare key \<Longrightarrow> key (h ! p) \<le> key (h ! worst_of compare h p)"
  using compares_eq(1) [of compare key] by (auto simp: worst_of_def Let_def not_less)

lemma sift_down_heap:
  assumes "compares compare key" "p < length h" "heap_below key h p"
  shows "max_heap key (sift_down compare h p) \<and> mset (sift_down compare h p) = mset h"
  using assms(2,3)
proof (induction "length h - p" arbitrary: h p rule: less_induct)
  case less
  let ?w = "worst_of compare h p"
  show ?case
  proof (cases "?w = p")
    case True
    have "heap_at key h i" if "i < length h" "0 < i" for i
    proof (cases "parent i = p")
      case p: True
      then show ?thesis using worst_of_max [OF assms(1) that, of p] True by (simp add: heap_at_def)
    qed (use less.prems that in \<open>auto simp: heap_below_def\<close>)
    then have "max_heap key h" by (simp add: max_heap_def)
    then show ?thesis using True by (simp add: sift_down.simps [of compare h p])
  next
    case False
    note w = worst_of_cases [of compare h p]
    have w_len: "?w < length h" using w(2) False by simp
    have w_parent: "parent ?w = p" "p < ?w" using w(1) False by auto
    let ?h = "swap_at h p ?w"
    have "heap_below key ?h ?w"
      unfolding heap_below_def
    proof (intro conjI allI impI)
      fix i assume i: "i < length ?h" "0 < i" "parent i \<noteq> ?w"
      have pi: "parent i < length h" "parent i < i" using i by auto
      consider "i = ?w" | "i \<noteq> ?w" "parent i = p" | "i \<noteq> ?w" "parent i \<noteq> p" "i = p" | "i \<noteq> ?w" "parent i \<noteq> p" "i \<noteq> p" by blast
      then show "heap_at key ?h i"
      proof cases
        case 1
        then show ?thesis using w_len w_parent less.prems worst_of_self [OF assms(1), of h p] by (simp add: heap_at_def)
      next
        case 2
        then show ?thesis using i w_len w_parent less.prems pi worst_of_max [OF assms(1), of i h p] by (simp add: heap_at_def)
      next
        case 3
        have "key (h ! ?w) \<le> key (h ! parent p)"
          using less.prems(2) w_len w_parent 3(3) i(2) unfolding heap_below_def by auto
        then show ?thesis using 3 i w_len w_parent less.prems pi by (simp add: heap_at_def)
      next
        case 4
        then show ?thesis using i w_len less.prems pi by (auto simp: heap_below_def heap_at_def)
      qed
    next
      fix c assume c: "c < length ?h" "0 < c" "parent c = ?w" "0 < ?w"
      have "c \<noteq> p" "c \<noteq> ?w" using c w_parent by auto
      moreover have "key (h ! c) \<le> key (h ! ?w)" using less.prems(2) c w_parent unfolding heap_below_def heap_at_def by auto
      ultimately show "key (?h ! c) \<le> key (?h ! parent ?w)" using c w_len w_parent less.prems by simp
    qed
    then have "max_heap key (sift_down compare ?h ?w) \<and> mset (sift_down compare ?h ?w) = mset ?h"
      using less.hyps [of ?h ?w] w_parent(2) w_len by simp
    then show ?thesis using False mset_swap_at [of p h ?w] less.prems(1) w_len
      by (simp add: sift_down.simps [of compare h p] Let_def)
  qed
qed

section \<open>Sorting\<close>

lemma insert_by_insort: "compares compare key \<Longrightarrow> insert_by compare x ys = insort_key key x ys"
  by (induction ys) (auto simp: compares_eq(1))

lemma sort_by_key: "compares compare key \<Longrightarrow> sort_by compare xs = sort_key key xs"
  by (induction xs) (simp_all add: sort_by_def insert_by_insort)

text \<open>With distinct keys, sorting is a function of the elements alone.\<close>

lemma sort_key_unique:
  assumes "distinct (map key ys)" "sorted (map key ys)" "mset xs = mset ys"
  shows "sort_key key xs = ys"
proof -
  have "mset (map key (sort_key key xs)) = mset (map key ys)" using assms(3) by simp
  then have "distinct (map key (sort_key key xs))" using assms(1) mset_eq_imp_distinct_iff by blast
  moreover have "set xs = set ys" using assms(3) by (rule mset_eq_setD)
  ultimately show ?thesis
    using assms(1,2) by (intro map_sorted_distinct_set_unique [of key]) (auto simp: distinct_map)
qed

lemma sort_key_snoc:
  assumes "distinct (map key (xs @ [x]))"
  shows "sort_key key (xs @ [x]) = insort_key key x (sort_key key xs)"
proof (rule sort_key_unique)
  have "mset (map key (insort_key key x (sort_key key xs))) = mset (map key (xs @ [x]))" by (simp add: mset_insort)
  then show "distinct (map key (insort_key key x (sort_key key xs)))" using assms mset_eq_imp_distinct_iff by blast
qed (simp_all add: sorted_insort_key mset_insort)

lemma take_insort: "sorted (map key xs) \<Longrightarrow> take k (insort_key key a xs) = take k (insort_key key a (take k xs))"
proof (induction xs arbitrary: k)
  case (Cons x xs)
  then show ?case by (cases k) (auto simp: take_Cons')
qed simp

lemma insort_last: "key a < key m \<Longrightarrow> insort_key key a (xs @ [m]) = insort_key key a xs @ [m]"
  by (induction xs) auto

lemma insort_end: "\<forall>x\<in>set xs. key x < key a \<Longrightarrow> insort_key key a xs = xs @ [a]"
  by (induction xs) auto

definition keeping :: "nat option \<Rightarrow> 'a list \<Rightarrow> 'a list" where
  "keeping keep xs = (case keep of None \<Rightarrow> xs | Some k \<Rightarrow> take k xs)"

definition best_kept :: "('a \<Rightarrow> 'k::linorder) \<Rightarrow> nat option \<Rightarrow> 'a list \<Rightarrow> 'a list \<Rightarrow> bool" where
  "best_kept key keep entries seen \<longleftrightarrow> max_heap key entries \<and> sort_key key entries = keeping keep (sort_key key seen)"

text \<open>The heap's root is the last of its entries in order.\<close>

lemma max_heap_last:
  assumes "max_heap key h" "h \<noteq> []" "distinct (map key h)"
  shows "\<exists>ys. sort_key key h = ys @ [h ! 0] \<and> mset ys = mset h - {#h ! 0#} \<and> (\<forall>y\<in>set ys. key y < key (h ! 0))"
proof -
  have root: "\<forall>x\<in>set h. key x \<le> key (h ! 0)" using max_heap_root [OF assms(1)] by (auto simp: in_set_conv_nth)
  obtain r rest where h: "h = r # rest" using assms(2) by (cases h) auto
  let ?ys = "sort_key key rest"
  have less: "\<forall>y\<in>set ?ys. key y < key r" using root assms(3) by (fastforce simp: h order.strict_iff_order image_iff)
  have "sort_key key h = insort_key key r ?ys" by (simp add: h)
  also have "\<dots> = ?ys @ [r]" using less by (rule insort_end)
  finally show ?thesis using less h by auto
qed

lemma admit_best:
  assumes cmp: "compares compare key" and best: "best_kept key keep entries seen" and dist: "distinct (map key (seen @ [a]))"
  shows "best_kept key keep (admit_entry compare keep entries a) (seen @ [a])"
proof -
  let ?S = "sort_key key seen"
  have heap: "max_heap key entries" and sort: "sort_key key entries = keeping keep ?S" using best by (auto simp: best_kept_def)
  have S: "sorted (map key ?S)" "mset ?S = mset seen" by simp_all
  have snoc: "sort_key key (seen @ [a]) = insort_key key a ?S" using dist by (rule sort_key_snoc)
  have "mset (map key (insort_key key a ?S)) = mset (map key (seen @ [a]))" by (simp add: mset_insort)
  then have dist_a: "distinct (map key (insort_key key a ?S))" using dist mset_eq_imp_distinct_iff by blast
  have dist_S: "distinct (map key ?S)" using dist mset_eq_imp_distinct_iff [of "map key ?S" "map key seen"] by simp
  have mset_e: "mset entries = mset (keeping keep ?S)" using sort by (metis mset_sort)
  have dist_e: "distinct (map key entries)"
  proof -
    have "distinct (map key (keeping keep ?S))" using dist_S by (auto simp: keeping_def take_map [symmetric] split: option.splits)
    moreover have "mset (map key entries) = mset (map key (keeping keep ?S))" using mset_e by simp
    ultimately show ?thesis using mset_eq_imp_distinct_iff by blast
  qed
  have len_e: "length entries = length (keeping keep ?S)" using mset_e by (rule mset_eq_length)
  show ?thesis
  proof (cases "keep = Some (length entries)")
    case False
    have all: "keeping keep ?S = ?S" "keeping keep (insort_key key a ?S) = insort_key key a ?S"
      using False len_e by (auto simp: keeping_def split: option.splits)
    have "heap_above key (entries @ [a]) (length entries)"
      unfolding heap_above_def
    proof (intro conjI allI impI)
      fix i assume "i < length (entries @ [a])" "0 < i" "i \<noteq> length entries"
      moreover from this have "parent i < length entries" by auto
      ultimately show "heap_at key (entries @ [a]) i" using heap by (simp add: max_heap_def heap_at_def nth_append)
    qed auto
    from sift_up_heap [OF cmp _ this] have up: "max_heap key (sift_up compare (entries @ [a]) (length entries))"
      "mset (sift_up compare (entries @ [a]) (length entries)) = mset (entries @ [a])" by auto
    have "sort_key key (sift_up compare (entries @ [a]) (length entries)) = insort_key key a ?S"
      by (rule sort_key_unique [OF dist_a]) (use up(2) mset_e all S in \<open>simp_all add: sorted_insort_key mset_insort\<close>)
    then show ?thesis using up(1) False all snoc by (simp add: best_kept_def admit_entry_def)
  next
    case True
    let ?k = "length entries"
    have sort_k: "sort_key key entries = take ?k ?S" using sort True by (simp add: keeping_def)
    have goal: "keeping keep (sort_key key (seen @ [a])) = take ?k (insort_key key a (sort_key key entries))"
      unfolding snoc sort_k using take_insort [OF S(1), of ?k a] True by (simp add: keeping_def)
    show ?thesis
    proof (cases "entries = []")
      case empty: True
      then show ?thesis using True goal by (simp add: best_kept_def admit_entry_def max_heap_def)
    next
      case False
      from max_heap_last [OF heap False dist_e] obtain ys where
        ys: "sort_key key entries = ys @ [entries ! 0]" "mset ys = mset entries - {#entries ! 0#}" "\<forall>y\<in>set ys. key y < key (entries ! 0)"
        by blast
      have len: "length ys = ?k - 1" using arg_cong [OF ys(1), of length] by simp
      have a_new: "key a \<noteq> key (entries ! 0)"
      proof -
        have "entries ! 0 \<in> set seen"
          using mset_e False S(2) by (metis True keeping_def length_greater_0_conv mset_eq_setD nth_mem option.simps(5) set_sort set_take_subset subsetD)
        then show ?thesis using dist by auto
      qed
      show ?thesis
      proof (cases "key a < key (entries ! 0)")
        case less: True
        let ?e = "entries[0 := a]"
        have "heap_below key ?e 0"
          unfolding heap_below_def
        proof (intro conjI allI impI)
          fix i assume "i < length ?e" "0 < i" "parent i \<noteq> 0"
          then show "heap_at key ?e i" using heap by (auto simp: max_heap_def heap_at_def)
        qed simp
        from sift_down_heap [OF cmp _ this] have down: "max_heap key (sift_down compare ?e 0)"
          "mset (sift_down compare ?e 0) = mset ?e" using False by auto
        have "mset ?e = mset (insort_key key a ys)"
          using False ys(2) by (simp add: mset_update mset_insort)
        moreover have "sorted (map key ys)" using arg_cong [OF ys(1), of "\<lambda>xs. sorted (map key xs)"] by (simp add: sorted_append)
        moreover have "distinct (map key (insort_key key a ys))"
        proof -
          have "key a \<notin> key ` set ys"
          proof -
            have "set ys \<subseteq> set entries" using ys(1) by (metis set_append set_sort sup_ge1)
            moreover have "set entries \<subseteq> set seen"
              using mset_e True by (metis keeping_def mset_eq_setD option.simps(5) set_sort set_take_subset)
            ultimately show ?thesis using dist by auto
          qed
          moreover have "distinct (map key (ys @ [entries ! 0]))"
          proof -
            have "mset (map key (sort_key key entries)) = mset (map key entries)" by simp
            then have "distinct (map key (sort_key key entries))" using dist_e mset_eq_imp_distinct_iff by blast
            then show ?thesis unfolding ys(1) .
          qed
          ultimately have "distinct (map key (a # ys))" by simp
          moreover have "mset (map key (insort_key key a ys)) = mset (map key (a # ys))" by (simp add: mset_insort)
          ultimately show ?thesis using mset_eq_imp_distinct_iff by blast
        qed
        ultimately have "sort_key key (sift_down compare ?e 0) = insort_key key a ys"
          using down(2) by (intro sort_key_unique) (simp_all add: sorted_insort_key)
        moreover have "take ?k (insort_key key a (ys @ [entries ! 0])) = insort_key key a ys"
          using insort_last [of key a "entries ! 0" ys] less len False by simp
        ultimately show ?thesis
          using down(1) True less False goal ys(1) compares_eq(2) [OF cmp] by (simp add: best_kept_def admit_entry_def)
      next
        case False
        then have "\<forall>x\<in>set (ys @ [entries ! 0]). key x < key a" using a_new ys(3) by auto
        then have "take ?k (insort_key key a (ys @ [entries ! 0])) = ys @ [entries ! 0]"
          using insort_end [of "ys @ [entries ! 0]" key a] len \<open>entries \<noteq> []\<close> by (cases entries) simp_all
        then show ?thesis using heap True False goal ys(1) compares_eq(2) [OF cmp]
          by (simp add: best_kept_def admit_entry_def)
      qed
    qed
  qed
qed

section \<open>The order of a column's values\<close>

text \<open>Nulls outside the direction, floats by rank, integers by value.\<close>

definition null_rank :: "order_by \<Rightarrow> int" where
  "null_rank ob = (if ob_nulls_first ob = Some True then -1 else 1)"

definition directed :: "order_by \<Rightarrow> int \<Rightarrow> int" where
  "directed ob n = (if ob_descending ob then - n else n)"

definition order_rank :: "order_by \<Rightarrow> row_value \<Rightarrow> int \<times> int \<times> int" where
  "order_rank ob cell =
     (case cell of
        RvF64 x \<Rightarrow> (0, directed ob 1, directed ob (f64_rank x))
      | RvI64 v \<Rightarrow> (0, 0, directed ob (sint v))
      | _ \<Rightarrow> (null_rank ob, 0, 0))"

definition sort_value :: "sort_cell option \<Rightarrow> row_value" where
  "sort_value cell = (case cell of None \<Rightarrow> RvNull | Some (SortI64 v) \<Rightarrow> RvI64 v | Some (SortF64 x) \<Rightarrow> RvF64 x)"

definition entry_key :: "order_by \<Rightarrow> sort_entry \<Rightarrow> (int \<times> int \<times> int) \<times> nat" where
  "entry_key ob e = (order_rank ob (sort_value (fst e)), snd (snd e))"

lemma order_rank_simps [simp]:
  "order_rank ob (sort_value None) = (null_rank ob, 0, 0)"
  "order_rank ob (sort_value (Some (SortI64 v))) = (0, 0, directed ob (sint v))"
  "order_rank ob (sort_value (Some (SortF64 x))) = (0, directed ob 1, directed ob (f64_rank x))"
  by (simp_all add: order_rank_def sort_value_def)

definition key_ordering :: "'k::linorder \<Rightarrow> 'k \<Rightarrow> ordering" where
  "key_ordering a b = (if a < b then Less else if b < a then Greater else Equal)"

lemma key_ordering_pair: "key_ordering (a, b) (c, d) = ordering_then (key_ordering a c) (key_ordering b d)"
  by (auto simp: key_ordering_def ordering_then_def)

lemma directed_ordering:
  "key_ordering (directed ob a) (directed ob b) = (if ob_descending ob then reverse_ordering (key_ordering a b) else key_ordering a b)"
  by (simp add: key_ordering_def directed_def reverse_ordering_def)

lemma null_ordering: "key_ordering (null_rank ob) 0 = null_order ob" "key_ordering 0 (null_rank ob) = reverse_ordering (null_order ob)"
  by (simp_all add: key_ordering_def null_rank_def null_order_def reverse_ordering_def)

lemma key_ordering_same [simp]: "key_ordering a a = Equal" "ordering_then Equal q = q"
  by (simp_all add: key_ordering_def ordering_then_def)

lemma compare_cells_rank:
  "key_ordering (order_rank ob (sort_value (Some l))) (order_rank ob (sort_value (Some r))) =
   (if ob_descending ob then reverse_ordering (compare_cells l r) else compare_cells l r)"
proof (cases l; cases r)
  fix x y assume "l = SortF64 x" "r = SortF64 y"
  moreover have "cmp_f64 x y = key_ordering (f64_rank x) (f64_rank y)" by (simp add: cmp_f64_rank ordering_of_def key_ordering_def)
  ultimately show ?thesis by (simp add: key_ordering_pair directed_ordering)
next
  fix x y assume "l = SortI64 x" "r = SortI64 y"
  moreover have "compare_cells (SortI64 x) (SortI64 y) = key_ordering (sint x) (sint y)" by (simp add: key_ordering_def)
  ultimately show ?thesis by (simp add: key_ordering_pair directed_ordering del: compare_cells.simps)
next
  fix x y assume "l = SortI64 x" "r = SortF64 y"
  then show ?thesis by (simp add: key_ordering_pair) (simp add: key_ordering_def directed_def ordering_then_def reverse_ordering_def)
next
  fix x y assume "l = SortF64 x" "r = SortI64 y"
  then show ?thesis by (simp add: key_ordering_pair) (simp add: key_ordering_def directed_def ordering_then_def reverse_ordering_def)
qed

lemma null_rank_ordering:
  "key_ordering (order_rank ob (sort_value None)) (order_rank ob (sort_value (Some c))) = null_order ob"
  "key_ordering (order_rank ob (sort_value (Some c))) (order_rank ob (sort_value None)) = reverse_ordering (null_order ob)"
  by (cases c; simp add: key_ordering_pair null_ordering; simp add: null_order_def ordering_then_def reverse_ordering_def)+

lemma compare_entries_key: "compares (compare_entries ob) (entry_key ob)"
proof -
  have "compare_entries ob x y = key_ordering (entry_key ob x) (entry_key ob y)" for x y
  proof -
    have pos: "compare_nat (snd (snd x)) (snd (snd y)) = key_ordering (snd (snd x)) (snd (snd y))"
      by (simp add: compare_nat_def key_ordering_def)
    have "(case (fst x, fst y) of
          (None, None) \<Rightarrow> Equal
        | (None, Some _) \<Rightarrow> null_order ob
        | (Some _, None) \<Rightarrow> reverse_ordering (null_order ob)
        | (Some l, Some r) \<Rightarrow>
            (if ob_descending ob then reverse_ordering (compare_cells l r) else compare_cells l r)) =
        key_ordering (order_rank ob (sort_value (fst x))) (order_rank ob (sort_value (fst y)))"
      by (cases "fst x"; cases "fst y")
        (simp_all only: prod.case option.case compare_cells_rank null_rank_ordering key_ordering_same)
    then show ?thesis by (simp add: compare_entries_def entry_key_def key_ordering_pair pos)
  qed
  then show ?thesis by (simp add: compares_def key_ordering_def)
qed

lemma sort_cell_reads:
  assumes "reads_cell ct c row cell" "ct \<noteq> Key"
  shows "\<exists>sc. sort_cell_at c row = (Ok sc :: ('e, _) outcome) \<and> sort_value sc = cell"
proof -
  have v: "cell_value c row = (Ok cell :: ('e, _) outcome)"
    using assms(1) cell_value_cells [of c row] by (auto simp: reads_cell_def)
  have row: "row < col_len c" using assms(1) by (simp add: reads_cell_def)
  from assms obtain n where n: "c = Numeric n" by (cases c) (auto simp: reads_cell_def)
  then obtain valid where valid: "nc_is_valid (nd_column n) row = (Ok valid :: ('e, _) outcome)"
    using v by (cases n) (auto simp: cell_value_def)
  then show ?thesis using v n row
    by (cases n; cases valid) (simp_all add: cell_value_def sort_cell_at_def element_at_def nc_len_def sort_value_def)
qed

section \<open>The sweep\<close>

definition entries_from :: "(nat \<times> nat \<Rightarrow> sort_cell option) \<Rightarrow> nat \<Rightarrow> (nat \<times> nat) list \<Rightarrow> sort_entry list" where
  "entries_from cell n ps = map (\<lambda>(i, p). (cell p, p, i)) (zip [n..<n + length ps] ps)"

lemma entries_from_simps [simp]:
  "entries_from cell n [] = []" "entries_from cell n (p # ps) = (cell p, p, n) # entries_from cell (Suc n) ps"
  by (simp_all add: entries_from_def upt_conv_Cons del: upt_Suc)

lemma entries_from_positions: "map (\<lambda>e. snd (snd e)) (entries_from cell n ps) = [n..<n + length ps]"
  by (induction ps arbitrary: n) (simp_all add: upt_conv_Cons del: upt_Suc)

lemma entries_from_sorted: "sorted_wrt (\<lambda>a b. snd (snd a) < snd (snd b)) (entries_from cell n ps)"
proof -
  have "sorted_wrt (<) (map (\<lambda>e. snd (snd e)) (entries_from cell n ps))"
    unfolding entries_from_positions by simp
  then show ?thesis by (simp add: sorted_wrt_map)
qed

lemma entries_from_distinct: "distinct (map (entry_key ob) (entries_from cell n ps))"
proof -
  have "map snd (map (entry_key ob) (entries_from cell n ps)) = [n..<n + length ps]"
    using entries_from_positions [of cell n ps] by (simp add: entry_key_def comp_def)
  then show ?thesis by (metis distinct_map distinct_upt)
qed

lemma sort_fold:
  assumes "\<And>p. p \<in> set ps \<Longrightarrow> bindR (pick_column batches index (fst p)) (\<lambda>c. sort_cell_at c (snd p)) = (Ok (cell p) :: ('e, _) outcome)"
    and "best_kept (entry_key ob) keep entries seen" "distinct (map (entry_key ob) (seen @ entries_from cell n ps))"
  shows "\<exists>entries'. foldR (sort_step ob index batches keep) (entries, n) ps = (Ok (entries', n + length ps) :: ('e, _) outcome) \<and>
    best_kept (entry_key ob) keep entries' (seen @ entries_from cell n ps)"
  using assms
proof (induction ps arbitrary: entries seen n)
  case (Cons p ps)
  let ?e = "admit_entry (compare_entries ob) keep entries (cell p, p, n)"
  have p: "bindR (pick_column batches index (fst p)) (\<lambda>c. sort_cell_at c (snd p)) = (Ok (cell p) :: ('e, _) outcome)"
    by (rule Cons.prems(1)) simp
  then have step: "sort_step ob index batches keep (entries, n) p = (Ok (?e, n + 1) :: ('e, _) outcome)"
    by (auto simp: sort_step_def split_def)
  have tail: "bindR (pick_column batches index (fst q)) (\<lambda>c. sort_cell_at c (snd q)) = (Ok (cell q) :: ('e, _) outcome)"
    if "q \<in> set ps" for q by (rule Cons.prems(1)) (use that in simp)
  have "best_kept (entry_key ob) keep ?e (seen @ [(cell p, p, n)])"
    by (rule admit_best [OF compare_entries_key Cons.prems(2)]) (use Cons.prems(3) in simp)
  from Cons.IH [OF tail this, of "Suc n"] Cons.prems(3) step show ?case by simp
qed simp

lemma sort_key_positions:
  assumes "sorted_wrt (\<lambda>a b. pos a < (pos b :: nat)) xs"
  shows "sort_key (\<lambda>e. (rank e :: 'k :: linorder, pos e)) xs = sort_key rank xs"
  using assms
proof (induction xs)
  case (Cons x xs)
  have "insort_key (\<lambda>e. (rank e, pos e)) x ys = insort_key rank x ys" if "\<forall>y\<in>set ys. pos x < pos y" for ys
    using that by (induction ys) (auto simp: less_eq_prod_def)
  then show ?case using Cons by simp
qed simp

lemma map_sort_key: "map f (sort_key (\<lambda>x. g (f x)) xs) = sort_key g (map f xs)"
proof (induction xs)
  case (Cons x xs)
  have "map f (insort_key (\<lambda>x. g (f x)) x ys) = insort_key g (f x) (map f ys)" for ys by (induction ys) auto
  then show ?case using Cons by simp
qed simp

lemma sort_key_same: "(\<And>x. x \<in> set xs \<Longrightarrow> f x = g x) \<Longrightarrow> sort_key f xs = sort_key g xs"
proof (induction xs)
  case (Cons x xs)
  have "insort_key f x ys = insort_key g x ys" if "\<forall>y\<in>set ys. f y = g y" "f x = g x" for ys
    using that by (induction ys) auto
  then show ?case using Cons by simp
qed simp

lemma keeping_map: "map f (keeping keep xs) = keeping keep (map f xs)"
  by (simp add: keeping_def take_map split: option.splits)

lemma set_keeping: "set (keeping keep xs) \<subseteq> set xs"
  by (auto simp: keeping_def dest: in_set_takeD split: option.splits)

section \<open>Property\<close>

text \<open>
  C39: ORDER BY is the stable sort, and its top-k heap is exact.  On a well-formed result whose
  texts fit one dictionary, ordering by a numeric column returns, and its rows are the first
  \<open>keep\<close> rows (all of them when there is no bound) of the stable sort of the input's rows by
  the column: floats by the engine's relation with NaN on top, nulls last unless the query
  says first, whatever the direction.
\<close>
theorem order_by_exact:
  assumes "output_ok out" "texts_fit (output_rows out)"
    and "resolve (qo_schema out) (ob_column ob) = Ok (index, f)" "f_column_type f \<noteq> Key"
  shows "\<exists>out'. sort_output out ob keep = Ok out' \<and> output_ok out' \<and> qo_schema out' = qo_schema out \<and>
    output_rows out' = keeping keep (sort_key (\<lambda>row. order_rank ob (row ! index)) (output_rows out))"
proof -
  let ?B = "qo_batches out" and ?ps = "all_picks (qo_batches out)"
  from assms(3) have index: "index < length (s_fields (qo_schema out))" "f = s_fields (qo_schema out) ! index"
    by (auto simp: resolve_def dest: position_Some split: option.splits)
  have read: "\<exists>sc. bindR (pick_column ?B index (fst p)) (\<lambda>c. sort_cell_at c (snd p)) = (Ok sc :: (query_error, _) outcome) \<and>
      sort_value sc = picked ?B p ! index" if "p \<in> set ?ps" for p
  proof -
    have b: "fst p < length ?B" "snd p < rb_num_rows (?B ! fst p)" "batch_ok (?B ! fst p)" "rb_schema (?B ! fst p) = qo_schema out"
      using that assms(1) by (auto simp: all_picks_ok pick_ok_def output_ok_def batches_ok_def)
    have col: "index < length (rb_columns (?B ! fst p))" using batch_ok_column(1) [OF b(3)] index b(4) by simp
    have "reads_cell (f_column_type f) (rb_columns (?B ! fst p) ! index) (snd p) (picked ?B p ! index)"
      using batch_ok_column [OF b(3), of index] index b col
      by (auto simp: reads_cell_def picked_def split_def batch_rows_nth)
    from sort_cell_reads [OF this assms(4)] show ?thesis using b(1) col by (simp add: pick_column_def element_at_def)
  qed
  then obtain cell where cell: "\<And>p. p \<in> set ?ps \<Longrightarrow>
      bindR (pick_column ?B index (fst p)) (\<lambda>c. sort_cell_at c (snd p)) = (Ok (cell p) :: (query_error, _) outcome)"
    "\<And>p. p \<in> set ?ps \<Longrightarrow> sort_value (cell p) = picked ?B p ! index"
    by metis
  let ?A = "entries_from cell 0 ?ps"
  have "\<exists>entries. foldR (sort_step ob index ?B keep) ([], 0) ?ps = (Ok (entries, 0 + length ?ps) :: (query_error, _) outcome) \<and>
      best_kept (entry_key ob) keep entries ([] @ ?A)"
    by (rule sort_fold [of ?ps ?B index cell ob keep "[]" "[]" 0])
      (use cell(1) entries_from_distinct [of ob cell 0 ?ps] in \<open>simp_all add: best_kept_def max_heap_def keeping_def split: option.splits\<close>)
  then obtain entries where
    fold: "foldR (sort_step ob index ?B keep) ([], 0) ?ps = (Ok (entries, length ?ps) :: (query_error, _) outcome)"
      "best_kept (entry_key ob) keep entries ?A"
    by auto
  have picks: "map (\<lambda>e. fst (snd e)) ?A = ?ps"
    by (simp add: entries_from_def comp_def split_def map_snd_zip)
  have in_A: "cell (fst (snd e)) = fst e \<and> fst (snd e) \<in> set ?ps" if "e \<in> set ?A" for e
    using that by (auto simp: entries_from_def dest: set_zip_rightD)
  have "sort_by (compare_entries ob) entries = keeping keep (sort_key (entry_key ob) ?A)"
    using fold(2) by (simp add: sort_by_key [OF compare_entries_key] best_kept_def)
  also have "sort_key (entry_key ob) ?A = sort_key (\<lambda>e. order_rank ob (sort_value (fst e))) ?A"
    unfolding entry_key_def
    by (rule sort_key_positions) (rule entries_from_sorted)
  also have "sort_key (\<lambda>e. order_rank ob (sort_value (fst e))) ?A =
      sort_key (\<lambda>e. order_rank ob (picked ?B (fst (snd e)) ! index)) ?A"
    by (rule sort_key_same) (use in_A cell(2) in force)
  finally have sorted: "map (\<lambda>e. fst (snd e)) (sort_by (compare_entries ob) entries) =
      keeping keep (sort_key (\<lambda>p. order_rank ob (picked ?B p ! index)) ?ps)"
    using map_sort_key [of "\<lambda>e. fst (snd e)" "\<lambda>p. order_rank ob (picked ?B p ! index)" ?A]
    by (simp add: keeping_map picks)
  let ?picks = "keeping keep (sort_key (\<lambda>p. order_rank ob (picked ?B p ! index)) ?ps)"
  have "set ?picks \<subseteq> set ?ps" using set_keeping [of keep "sort_key (\<lambda>p. order_rank ob (picked ?B p ! index)) ?ps"] by simp
  from take_some_picks [OF assms(1,2) this] obtain b where
    b: "take_rows (qo_schema out) ?B ?picks = (Ok b :: (query_error, _) outcome)" "batch_ok b"
      "rb_schema b = qo_schema out" "batch_rows b = map (picked ?B) ?picks" by blast
  have "batch_rows b = keeping keep (sort_key (\<lambda>row. order_rank ob (row ! index)) (output_rows out))"
    using map_sort_key [of "picked ?B" "\<lambda>row. order_rank ob (row ! index)" ?ps]
    by (simp add: b(4) keeping_map output_rows_def map_all_picks)
  then show ?thesis
    using fold(1) b(1-3) assms(3,4) sorted
    by (intro exI [of _ "out\<lparr>qo_batches := [b]\<rparr>"]) (simp add: sort_output_def output_ok_def batches_ok_def output_rows_def)
qed

theorem order_by_exact_witness:
  "\<exists>out'. sort_output sample_output \<lparr>ob_column = ascii ''v'', ob_descending = True, ob_nulls_first = None\<rparr> (Some 3) = Ok out' \<and>
    output_rows out' = [[RvKey (ascii ''a''), RvI64 8], [RvNull, RvI64 8], [RvKey (ascii ''b''), RvI64 7]]"
proof -
  let ?ob = "\<lparr>ob_column = ascii ''v'', ob_descending = True, ob_nulls_first = None\<rparr>"
  have column: "resolve (qo_schema sample_output) (ob_column ?ob) = Ok (1, field_new (ascii ''v'') I64 False)"
    "f_column_type (field_new (ascii ''v'') I64 False) \<noteq> Key"
    by (simp_all add: sample_output_def sample_schema_def field_new_def ascii_def resolve_def)
  have "keeping (Some 3) (sort_key (\<lambda>row. order_rank ?ob (row ! 1)) (output_rows sample_output)) =
      [[RvKey (ascii ''a''), RvI64 8], [RvNull, RvI64 8], [RvKey (ascii ''b''), RvI64 7]]"
    unfolding sample_output_ok(2) by (simp add: keeping_def order_rank_def directed_def)
  then show ?thesis using order_by_exact [OF sample_output_ok(1,3) column, of "Some 3"] by auto
qed

end
