(* ===== verification/Live.thy ===== *)
theory Live
  imports Sort
begin

text \<open>
  What the executor reads of a view (\<^verbatim>\<open>src/query_lite/exec.rs\<close>): the positions of its live
  rows, columns passed through or filtered by the live mask, the sequence pseudocolumn, the
  values of the ordering key, and the check that a snapshot is ordered on it.  The rows of a
  view are those theory \<open>Timeline\<close> has the store's readers see (\<open>view_rows\<close>), so what is
  shown of a query over views composes with what is shown of the store's snapshots.
\<close>

section \<open>The code\<close>

definition live_positions :: "segment_view \<Rightarrow> ('e, nat list) outcome" where
  "live_positions view =
     (let rows = [0..<rb_num_rows (sg_batch (sv_segment view))]
      in mapR (\<lambda>flags. map fst (filter snd (zip rows flags))) (traverseR (sv_is_live view) rows))"

definition filter_validity :: "bitmap option \<Rightarrow> nat list \<Rightarrow> ('e, bitmap option) outcome" where
  "filter_validity validity keep =
     (case validity of
        None \<Rightarrow> Ok None
      | Some bm \<Rightarrow> mapR (\<lambda>bs. Some (from_bools bs)) (traverseR (bm_get bm) keep))"

definition filter_numeric :: "numeric_column \<Rightarrow> nat list \<Rightarrow> ('e, numeric_column) outcome" where
  "filter_numeric c keep =
     bindR (traverseR (element_at (nc_values c)) keep) (\<lambda>values.
     bindR (filter_validity (nc_validity c) keep) (\<lambda>validity.
     case validity of Some bm \<Rightarrow> nc_new_nullable values bm | None \<Rightarrow> Ok (nc_new_non_null values)))"

definition filter_column :: "column \<Rightarrow> segment_view \<Rightarrow> ('e, column) outcome" where
  "filter_column column view =
     bindR (live_positions view) (\<lambda>keep.
     case column of
       Numeric (NF64 c) \<Rightarrow> mapR (\<lambda>c. Numeric (NF64 c)) (filter_numeric c keep)
     | Numeric (NI64 c) \<Rightarrow> mapR (\<lambda>c. Numeric (NI64 c)) (filter_numeric c keep)
     | KeyCol k \<Rightarrow>
         bindR (traverseR (element_at (kc_codes k)) keep) (\<lambda>codes.
         bindR (filter_validity (kc_validity k) keep) (\<lambda>validity.
         mapR KeyCol (case validity of
             Some bm \<Rightarrow> kc_new_nullable codes bm (kc_dictionary k)
           | None \<Rightarrow> kc_new_non_null codes (kc_dictionary k)))))"

definition sequence_column :: "segment_view list \<Rightarrow> rstring \<Rightarrow> ('e, field \<times> column list) outcome" where
  "sequence_column views name =
     mapR (\<lambda>columns. (field_new name I64 False, columns))
       (traverseR (\<lambda>view.
          bindR (live_positions view) (\<lambda>rows.
          mapR (\<lambda>values. Numeric (NI64 (nc_new_non_null values))) (traverseR (sequence_at (sv_segment view)) rows)))
        views)"

definition passthrough ::
  "schema \<Rightarrow> segment_view list \<Rightarrow> rstring \<Rightarrow> rstring option \<Rightarrow> (query_error, field \<times> column list) outcome" where
  "passthrough s views name alias =
     (let out_name = (case alias of Some a \<Rightarrow> a | None \<Rightarrow> name)
      in if name = SEQUENCE_COLUMN then sequence_column views out_name
         else
           bindR (resolve s name) (\<lambda>(index, f).
           bindR (case f_logical f of
               None \<Rightarrow> Ok (field_new out_name (f_column_type f) (f_nullable f))
             | Some logical \<Rightarrow> with_logical (field_new out_name (f_column_type f) (f_nullable f)) logical) (\<lambda>out.
           mapR (\<lambda>columns. (out, columns))
             (traverseR (\<lambda>view.
                bindR (element_at (rb_columns (sg_batch (sv_segment view))) index) (\<lambda>column.
                case sv_live view of None \<Rightarrow> Ok column | Some _ \<Rightarrow> filter_column column view))
              views))))"

definition ordering_clocks :: "column \<Rightarrow> ('e, i64 list) outcome" where
  "ordering_clocks column = (case column of Numeric (NI64 c) \<Rightarrow> Ok (nc_values c) | _ \<Rightarrow> Panic)"

definition clocks_at :: "segment_view \<Rightarrow> nat \<Rightarrow> ('e, i64 list) outcome" where
  "clocks_at view index = bindR (element_at (rb_columns (sg_batch (sv_segment view))) index) ordering_clocks"

text \<open>The first and the last live value of the ordering key.\<close>

definition live_ordering_bounds :: "segment_view \<Rightarrow> ('e, (i64 \<times> i64) option) outcome" where
  "live_ordering_bounds view =
     bindR (clocks_at view (sg_ordering_key (sv_segment view))) (\<lambda>values.
     bindR (live_positions view) (\<lambda>rows.
     case rows of
       [] \<Rightarrow> Ok None
     | first # _ \<Rightarrow>
         bindR (element_at values first) (\<lambda>lo. mapR (\<lambda>hi. Some (lo, hi)) (element_at values (last rows)))))"

datatype disorder = WrongColumn | WithinSegment | AcrossSegments

fun ordering_problem_from ::
  "i64 option \<Rightarrow> segment_view list \<Rightarrow> nat \<Rightarrow> ('e, disorder option) outcome" where
  "ordering_problem_from previous [] order_index = Ok None"
| "ordering_problem_from previous (view # views) order_index =
     (if order_index \<noteq> sg_ordering_key (sv_segment view) then Ok (Some WrongColumn)
      else if \<not> sg_ordered (sv_segment view) then Ok (Some WithinSegment)
      else
        bindR (live_ordering_bounds view) (\<lambda>bounds.
        case bounds of
          None \<Rightarrow> ordering_problem_from previous views order_index
        | Some (lo, hi) \<Rightarrow>
            if (case previous of Some p \<Rightarrow> sint lo < sint p | None \<Rightarrow> False) then Ok (Some AcrossSegments)
            else ordering_problem_from (Some hi) views order_index))"

definition ordering_problem :: "segment_view list \<Rightarrow> nat \<Rightarrow> ('e, disorder option) outcome" where
  "ordering_problem = ordering_problem_from None"

definition check_order :: "segment_view list \<Rightarrow> nat \<Rightarrow> (query_error, unit) outcome" where
  "check_order views order_index =
     bindR (ordering_problem views order_index) (\<lambda>problem.
     case problem of
       None \<Rightarrow> Ok ()
     | Some WrongColumn \<Rightarrow> Err (Unsupported ''windows order by the declared ordering key only'')
     | Some WithinSegment \<Rightarrow> Err (Unordered ''ingest was not sorted'')
     | Some AcrossSegments \<Rightarrow> Err (Unordered ''ingest was not sorted across segments''))"

definition ordering_values :: "segment_view list \<Rightarrow> nat \<Rightarrow> ('e, i64 list list) outcome" where
  "ordering_values views index =
     traverseR (\<lambda>view.
       bindR (element_at (rb_columns (sg_batch (sv_segment view))) index) (\<lambda>column.
       case column of
         Numeric (NI64 c) \<Rightarrow> bindR (live_positions view) (traverseR (element_at (nc_values c)))
       | _ \<Rightarrow> Ok [])) views"

section \<open>Live rows\<close>

definition live_at :: "segment_view \<Rightarrow> nat list" where
  "live_at view = filter (\<lambda>row. liveness view ! row) [0..<rb_num_rows (sg_batch (sv_segment view))]"

lemma filter_zip_map: "map fst (filter snd (zip xs (map P xs))) = filter P xs"
  by (induction xs) auto

lemma live_positions_ok:
  assumes "sview_ok s view"
  shows "live_positions view = (Ok (live_at view) :: ('e, _) outcome)"
proof -
  let ?rows = "[0..<rb_num_rows (sg_batch (sv_segment view))]"
  have "traverseR (sv_is_live view) ?rows = (Ok (map (\<lambda>row. liveness view ! row) ?rows) :: ('e, _) outcome)"
    by (rule traverseR_Ok) (use assms in \<open>simp add: sview_live\<close>)
  then show ?thesis by (simp add: live_positions_def live_at_def filter_zip_map Let_def)
qed

lemma live_at_bound: "row \<in> set (live_at view) \<Longrightarrow> row < rb_num_rows (sg_batch (sv_segment view))"
  by (simp add: live_at_def)

lemma sorted_live_at [simp]: "sorted_wrt (<) (live_at view)"
  unfolding live_at_def by (intro sorted_wrt_filter) simp

lemma live_at_all: "sv_live view = None \<Longrightarrow> live_at view = [0..<rb_num_rows (sg_batch (sv_segment view))]"
  by (simp add: live_at_def liveness_def)

lemma view_rows_at:
  assumes "sview_ok s view"
  shows "view_rows view = map (\<lambda>row. cells_of (sv_segment view) ! row) (live_at view)"
proof -
  have "liveness view = map (\<lambda>row. liveness view ! row) [0..<rb_num_rows (sg_batch (sv_segment view))]"
    by (rule nth_equalityI) (use assms in \<open>auto simp: sview_ok_def liveness_def split: option.splits\<close>)
  then show ?thesis
    using view_rows_mask [of "sv_segment view" "sv_live view" "\<lambda>row. liveness view ! row"]
    by (cases view) (simp add: live_at_def)
qed

lemma length_live_at:
  assumes "sview_ok s view"
  shows "length (live_at view) = sv_live_rows view" "length (view_rows view) = sv_live_rows view"
proof -
  show len: "length (live_at view) = sv_live_rows view"
  proof (cases "sv_live view")
    case (Some bm)
    then have ok: "bitmap_ok bm" "bm_len bm = rb_num_rows (sg_batch (sv_segment view))" using assms by (auto simp: sview_ok_def)
    then have "length (live_at view) = length (filter (\<lambda>i. bits bm ! i) [0..<length (bits bm)])"
      using Some by (simp add: live_at_def liveness_def)
    also have "\<dots> = length (filter id (map (nth (bits bm)) [0..<length (bits bm)]))" by (simp add: filter_map comp_def)
    finally show ?thesis using Some ok by (simp add: sv_live_rows_def count_set_bits map_nth del: length_bits)
  qed (simp add: live_at_all sv_live_rows_def)
  then show "length (view_rows view) = sv_live_rows view" using assms by (simp add: view_rows_at)
qed

lemma view_row_nth:
  assumes "sview_ok s view" "row < rb_num_rows (sg_batch (sv_segment view))" "index < length (s_fields s)"
  shows "cells_of (sv_segment view) ! row ! index = column_cells (rb_columns (sg_batch (sv_segment view)) ! index) ! row"
  using assms batch_ok_column(1) [of "sg_batch (sv_segment view)" index] by (auto simp: cells_of_def sview_ok_def)

text \<open>The cells of one column in the live rows.\<close>

lemma live_cells:
  assumes "sview_ok s view" "index < length (s_fields s)"
  shows "map (\<lambda>r. r ! index) (view_rows view) =
    map (\<lambda>row. column_cells (rb_columns (sg_batch (sv_segment view)) ! index) ! row) (live_at view)"
  using assms live_at_bound [of _ view] by (simp add: view_rows_at view_row_nth)

section \<open>Filtered columns\<close>

lemma map2_nth:
  "length xs = length ys \<Longrightarrow> \<forall>i\<in>set picks. i < length xs \<Longrightarrow>
   map2 f (map (nth xs) picks) (map (nth ys) picks) = map (nth (map2 f xs ys)) picks"
  by (induction picks) auto

lemma filter_validity_ok:
  assumes "validity_ok n v" "\<forall>i\<in>set keep. i < n"
  shows "\<exists>v'. filter_validity v keep = (Ok v' :: ('e, _) outcome) \<and> validity_ok (length keep) v' \<and>
    presence (length keep) v' = map (nth (presence n v)) keep \<and> (v = None \<longrightarrow> v' = None)"
proof (cases v)
  case None
  have "replicate (length keep) True = map (nth (replicate n True)) keep"
    using assms(2) by (intro nth_equalityI) auto
  then show ?thesis using None by (simp add: filter_validity_def validity_ok_def presence_def)
next
  case (Some bm)
  then have bm: "bitmap_ok bm" "bm_len bm = n" using assms(1) by (simp_all add: validity_ok_def)
  have "traverseR (bm_get bm) keep = (Ok (map (nth (bits bm)) keep) :: ('e, _) outcome)"
    by (rule traverseR_Ok) (use assms(2) bm in \<open>simp add: bm_get_bits\<close>)
  then show ?thesis using Some bm by (simp add: filter_validity_def validity_ok_def presence_def)
qed

lemma traverseR_element: "\<forall>i\<in>set keep. i < length xs \<Longrightarrow> traverseR (element_at xs) keep = Ok (map (nth xs) keep)"
  by (rule traverseR_Ok) (simp add: element_at_def)

lemma filter_numeric_ok:
  assumes "validity_ok (nc_len c) (nc_validity c)" "\<forall>i\<in>set keep. i < nc_len c"
  shows "\<exists>v. filter_numeric c keep = (Ok \<lparr>nc_values = map (nth (nc_values c)) keep, nc_validity = v\<rparr> :: ('e, _) outcome) \<and>
    validity_ok (length keep) v \<and> presence (length keep) v = map (nth (presence (nc_len c) (nc_validity c))) keep \<and>
    (nc_validity c = None \<longrightarrow> v = None)"
proof -
  obtain v' where v': "filter_validity (nc_validity c) keep = (Ok v' :: ('e, _) outcome)" "validity_ok (length keep) v'"
    "presence (length keep) v' = map (nth (presence (nc_len c) (nc_validity c))) keep" "nc_validity c = None \<Longrightarrow> v' = None"
    using filter_validity_ok [OF assms, where ?'e = 'e] by metis
  have "traverseR (element_at (nc_values c)) keep = (Ok (map (nth (nc_values c)) keep) :: ('e, _) outcome)"
    by (rule traverseR_element) (use assms(2) in \<open>simp add: nc_len_def\<close>)
  then have "filter_numeric c keep = (Ok \<lparr>nc_values = map (nth (nc_values c)) keep, nc_validity = v'\<rparr> :: ('e, _) outcome)"
    using v' by (cases v') (simp_all add: filter_numeric_def nc_new_nullable_def nc_new_non_null_def validity_ok_def)
  then show ?thesis using v' by (intro exI [of _ v'] conjI impI) simp_all
qed

lemma filter_column_ok:
  assumes "sview_ok s view" "column_ok c" "col_len c = rb_num_rows (sg_batch (sv_segment view))"
  shows "\<exists>c'. filter_column c view = (Ok c' :: ('e, _) outcome) \<and> column_ok c' \<and> col_type c' = col_type c \<and>
    column_cells c' = map (nth (column_cells c)) (live_at view) \<and> (col_validity c = None \<longrightarrow> col_validity c' = None)"
proof -
  let ?keep = "live_at view"
  note live = live_positions_ok [OF assms(1), where 'e = 'e]
  have keep: "\<forall>i\<in>set ?keep. i < col_len c" using assms(3) live_at_bound by simp
  show ?thesis
  proof (cases c rule: column_cells.cases)
    case (1 n)
    then have n: "validity_ok (nc_len n) (nc_validity n)" "\<forall>i\<in>set ?keep. i < nc_len n" using assms(2) keep by simp_all
    obtain v where v: "filter_numeric n ?keep = (Ok \<lparr>nc_values = map (nth (nc_values n)) ?keep, nc_validity = v\<rparr> :: ('e, _) outcome)"
      "validity_ok (length ?keep) v" "presence (length ?keep) v = map (nth (presence (nc_len n) (nc_validity n))) ?keep"
      "nc_validity n = None \<longrightarrow> v = None"
      using filter_numeric_ok [OF n, where ?'e = 'e] by metis
    have "map2 f (map (nth (nc_values n)) ?keep) (presence (length ?keep) v) =
        map (nth (map2 f (nc_values n) (presence (nc_len n) (nc_validity n)))) ?keep" for f
      unfolding v(3) by (rule map2_nth) (use n in \<open>simp_all add: nc_len_def\<close>)
    then show ?thesis using live 1 v by (simp add: filter_column_def nc_len_def)
  next
    case (2 n)
    then have n: "validity_ok (nc_len n) (nc_validity n)" "\<forall>i\<in>set ?keep. i < nc_len n" using assms(2) keep by simp_all
    obtain v where v: "filter_numeric n ?keep = (Ok \<lparr>nc_values = map (nth (nc_values n)) ?keep, nc_validity = v\<rparr> :: ('e, _) outcome)"
      "validity_ok (length ?keep) v" "presence (length ?keep) v = map (nth (presence (nc_len n) (nc_validity n))) ?keep"
      "nc_validity n = None \<longrightarrow> v = None"
      using filter_numeric_ok [OF n, where ?'e = 'e] by metis
    have "map2 f (map (nth (nc_values n)) ?keep) (presence (length ?keep) v) =
        map (nth (map2 f (nc_values n) (presence (nc_len n) (nc_validity n)))) ?keep" for f
      unfolding v(3) by (rule map2_nth) (use n in \<open>simp_all add: nc_len_def\<close>)
    then show ?thesis using live 2 v by (simp add: filter_column_def nc_len_def)
  next
    case (3 k)
    then have k: "validity_ok (kc_len k) (kc_validity k)" "\<forall>code\<in>set (kc_codes k). unat code < dict_len (kc_dictionary k)"
      "\<forall>i\<in>set ?keep. i < kc_len k"
      using assms(2) keep by simp_all
    obtain v' where v': "filter_validity (kc_validity k) ?keep = (Ok v' :: ('e, _) outcome)" "validity_ok (length ?keep) v'"
      "presence (length ?keep) v' = map (nth (presence (kc_len k) (kc_validity k))) ?keep" "kc_validity k = None \<Longrightarrow> v' = None"
      using filter_validity_ok [OF k(1,3), where ?'e = 'e] by metis
    let ?codes = "map (nth (kc_codes k)) ?keep"
    have "traverseR (element_at (kc_codes k)) ?keep = (Ok ?codes :: ('e, _) outcome)"
      by (rule traverseR_element) (use k(3) in \<open>simp add: kc_len_def\<close>)
    moreover have codes: "\<forall>code\<in>set ?codes. unat code < dict_len (kc_dictionary k)"
      using k(2,3) by (auto simp: kc_len_def)
    then have "validate_codes ?codes (kc_dictionary k) = (Ok () :: ('e, _) outcome)"
      by (auto simp: validate_codes_def not_le)
    ultimately have "filter_column c view =
        (Ok (KeyCol \<lparr>kc_codes = ?codes, kc_validity = v', kc_dictionary = kc_dictionary k\<rparr>) :: ('e, _) outcome)"
      using live v' 3
      by (cases v') (simp_all add: filter_column_def kc_new_nullable_def kc_new_non_null_def validity_ok_def)
    moreover have "map2 f ?codes (map (nth (presence (kc_len k) (kc_validity k))) ?keep) =
        map (nth (map2 f (kc_codes k) (presence (kc_len k) (kc_validity k)))) ?keep" for f :: "u32 \<Rightarrow> bool \<Rightarrow> row_value"
      by (rule map2_nth) (use k in \<open>simp_all add: kc_len_def\<close>)
    then have "column_cells (KeyCol \<lparr>kc_codes = ?codes, kc_validity = v', kc_dictionary = kc_dictionary k\<rparr>) =
        map (nth (column_cells c)) ?keep"
      unfolding 3 column_cells.simps key_column.simps kc_len_def length_map v'(3) by (simp only: kc_len_def)
    ultimately show ?thesis using 3 assms(2) v' codes by (auto simp: kc_len_def simp del: column_cells.simps)
  qed
qed

section \<open>Columns passed through\<close>

definition views_ok :: "schema \<Rightarrow> segment_view list \<Rightarrow> bool" where
  "views_ok s views \<longleftrightarrow> (\<forall>view\<in>set views. sview_ok s view)"

definition rows_of_views :: "segment_view list \<Rightarrow> row_value list list" where
  "rows_of_views views = concat (map view_rows views)"

text \<open>A column of a view's rows: of the field's type, holding given cells.\<close>

definition shows_cells :: "column_type \<Rightarrow> bool \<Rightarrow> row_value list \<Rightarrow> column \<Rightarrow> bool" where
  "shows_cells ct nullable cells c \<longleftrightarrow>
     column_ok c \<and> col_type c = ct \<and> column_cells c = cells \<and> (nullable \<or> col_validity c = None)"

lemma view_column_shows:
  assumes "sview_ok s view" "index < length (s_fields s)"
  shows "\<exists>c. bindR (element_at (rb_columns (sg_batch (sv_segment view))) index) (\<lambda>column.
      case sv_live view of None \<Rightarrow> Ok column | Some _ \<Rightarrow> filter_column column view) = (Ok c :: ('e, _) outcome) \<and>
    shows_cells (f_column_type (s_fields s ! index)) (f_nullable (s_fields s ! index)) (map (\<lambda>r. r ! index) (view_rows view)) c"
proof -
  let ?b = "sg_batch (sv_segment view)"
  let ?c = "rb_columns ?b ! index"
  have b: "batch_ok ?b" "rb_schema ?b = s" using assms(1) by (simp_all add: sview_ok_def)
  note C = batch_ok_column [OF b(1), of index, unfolded b(2), OF assms(2)]
  have cells: "map (\<lambda>r. r ! index) (view_rows view) = map (nth (column_cells ?c)) (live_at view)"
    by (rule live_cells [OF assms])
  show ?thesis
  proof (cases "sv_live view")
    case None
    then have "map (nth (column_cells ?c)) (live_at view) = column_cells ?c"
      using C map_nth [of "column_cells ?c"] by (simp add: live_at_all)
    then show ?thesis using C None cells by (auto simp: element_at_def shows_cells_def)
  next
    case (Some bm)
    obtain c' where "filter_column ?c view = (Ok c' :: ('e, _) outcome)" "column_ok c'" "col_type c' = col_type ?c"
      "column_cells c' = map (nth (column_cells ?c)) (live_at view)" "col_validity ?c = None \<longrightarrow> col_validity c' = None"
      using filter_column_ok [OF assms(1) C(2,4), where ?'e = 'e] by metis
    then show ?thesis using C Some cells by (auto simp: element_at_def shows_cells_def)
  qed
qed

lemma traverseR_exists:
  assumes "\<And>x. x \<in> set xs \<Longrightarrow> \<exists>y. f x = (Ok y :: ('e, _) outcome) \<and> P x y"
  shows "\<exists>ys. traverseR f xs = (Ok ys :: ('e, _) outcome) \<and> list_all2 P xs ys"
  using assms
proof (induction xs)
  case (Cons x xs)
  obtain y where "f x = (Ok y :: ('e, _) outcome)" "P x y" using Cons.prems [of x] by auto
  moreover obtain ys where "traverseR f xs = (Ok ys :: ('e, _) outcome)" "list_all2 P xs ys"
    using Cons.IH Cons.prems by (metis list.set_intros(2))
  ultimately show ?case by auto
qed simp

definition out_field :: "field \<Rightarrow> rstring \<Rightarrow> field" where
  "out_field f name = \<lparr>f_name = name, f_column_type = f_column_type f, f_nullable = f_nullable f, f_logical = f_logical f\<rparr>"

definition fields_typed :: "schema \<Rightarrow> bool" where
  "fields_typed s \<longleftrightarrow> (\<forall>f\<in>set (s_fields s). f_logical f = None \<or> f_column_type f = I64)"

lemma passthrough_ok:
  assumes "views_ok s views" "fields_typed s" "name \<noteq> SEQUENCE_COLUMN" "resolve s name = Ok (index, f)"
  shows "\<exists>cs. passthrough s views name alias = Ok (out_field f (case alias of Some a \<Rightarrow> a | None \<Rightarrow> name), cs) \<and>
    list_all2 (\<lambda>view. shows_cells (f_column_type f) (f_nullable f) (map (\<lambda>r. r ! index) (view_rows view))) views cs"
proof -
  let ?name = "case alias of Some a \<Rightarrow> a | None \<Rightarrow> name"
  have index: "index < length (s_fields s)" "f = s_fields s ! index"
    using assms(4) by (auto simp: resolve_def dest: position_Some split: option.splits)
  have "f_logical f = None \<or> f_column_type f = I64" using assms(2) index by (auto simp: fields_typed_def)
  then have field: "(case f_logical f of None \<Rightarrow> Ok (field_new ?name (f_column_type f) (f_nullable f))
      | Some logical \<Rightarrow> with_logical (field_new ?name (f_column_type f) (f_nullable f)) logical) =
      (Ok (out_field f ?name) :: (query_error, _) outcome)"
    by (auto simp: with_logical_def logical_valid_for_def field_new_def out_field_def split: option.split)
  have "\<exists>cs. traverseR (\<lambda>view. bindR (element_at (rb_columns (sg_batch (sv_segment view))) index) (\<lambda>column.
      case sv_live view of None \<Rightarrow> Ok column | Some _ \<Rightarrow> filter_column column view)) views = (Ok cs :: (query_error, _) outcome) \<and>
    list_all2 (\<lambda>view. shows_cells (f_column_type f) (f_nullable f) (map (\<lambda>r. r ! index) (view_rows view))) views cs"
    by (rule traverseR_exists) (use view_column_shows [OF _ index(1)] assms(1) index(2) in \<open>auto simp: views_ok_def\<close>)
  then show ?thesis using assms(3,4) field by (auto simp: passthrough_def Let_def)
qed

section \<open>The time axis\<close>

definition row_clock :: "nat \<Rightarrow> row_value list \<Rightarrow> int" where
  "row_clock key row = sint (row_key key row)"

lemma clocks_at_ok:
  assumes "sview_ok s view" "keyed key s"
  shows "\<exists>vs. clocks_at view key = (Ok vs :: ('e, _) outcome) \<and> length vs = rb_num_rows (sg_batch (sv_segment view)) \<and>
    (\<forall>row<length vs. vs ! row = row_key key (cells_of (sv_segment view) ! row))"
proof -
  let ?b = "sg_batch (sv_segment view)"
  have b: "batch_ok ?b" "keyed key (rb_schema ?b)" using assms by (simp_all add: sview_ok_def)
  obtain c where c: "key < length (rb_columns ?b)" "rb_columns ?b ! key = Numeric (NI64 c)" "length (nc_values c) = rb_num_rows ?b"
    "nc_validity c = None"
    using keyed_column [OF b(2,1)] by blast
  have "row_key key (cells_of (sv_segment view) ! row) = nc_values c ! row" if "row < rb_num_rows ?b" for row
    using view_row_nth [OF assms(1) that, of key] assms(2) c that
    by (simp add: keyed_def row_key_def presence_def nc_len_def)
  then show ?thesis using c by (simp add: clocks_at_def element_at_def ordering_clocks_def)
qed

text \<open>What a segment's ordered flag claims.\<close>

definition order_honest :: "nat \<Rightarrow> segment_view \<Rightarrow> bool" where
  "order_honest key view \<longleftrightarrow> sg_ordering_key (sv_segment view) = key \<and>
     (sg_ordered (sv_segment view) \<longrightarrow> sorted (map (row_clock key) (cells_of (sv_segment view))))"

lemma sorted_map_filter_positions:
  assumes "sorted (map f xs)" "sorted_wrt (<) (is :: nat list)" "\<forall>i\<in>set is. i < length xs"
  shows "sorted (map (\<lambda>i. f (xs ! i)) is)"
  using assms(2,3)
proof (induction "is")
  case (Cons i "is")
  then have "f (xs ! i) \<le> f (xs ! j)" if "j \<in> set is" for j
    using sorted_nth_mono [OF assms(1), of i j] that by (auto simp: less_imp_le)
  then show ?case using Cons by auto
qed simp

lemma live_sorted:
  assumes "sview_ok s view" "order_honest key view" "sg_ordered (sv_segment view)"
  shows "sorted (map (row_clock key) (view_rows view))"
proof -
  have "sorted (map (\<lambda>i. row_clock key (cells_of (sv_segment view) ! i)) (live_at view))"
    using assms(2,3) live_at_bound [of _ view] by (intro sorted_map_filter_positions) (auto simp: order_honest_def)
  then show ?thesis by (simp add: view_rows_at [OF assms(1)] comp_def)
qed

lemma live_ordering_bounds_ok:
  assumes "sview_ok s view" "keyed key s" "sg_ordering_key (sv_segment view) = key"
  shows "\<exists>bounds. live_ordering_bounds view = (Ok bounds :: ('e, _) outcome) \<and>
    map_option (\<lambda>(lo, hi). (sint lo, sint hi)) bounds =
      (if view_rows view = [] then None else Some (row_clock key (hd (view_rows view)), row_clock key (last (view_rows view))))"
proof -
  obtain vs where vs: "clocks_at view key = (Ok vs :: ('e, _) outcome)" "length vs = rb_num_rows (sg_batch (sv_segment view))"
    "\<forall>row<length vs. vs ! row = row_key key (cells_of (sv_segment view) ! row)"
    using clocks_at_ok [OF assms(1,2), where ?'e = 'e] by blast
  note live = live_positions_ok [OF assms(1), where 'e = 'e] and rows = view_rows_at [OF assms(1)]
  show ?thesis
  proof (cases "live_at view")
    case Nil
    then show ?thesis using vs(1) live rows assms(3) by (simp add: live_ordering_bounds_def)
  next
    case (Cons p ps)
    then have b: "p < length vs" "last (p # ps) < length vs"
      using live_at_bound [of _ view] vs(2) by (metis list.set_intros(1)) (metis Cons last_in_set list.distinct(1) live_at_bound vs(2))
    then have "live_ordering_bounds view = (Ok (Some (vs ! p, vs ! last (p # ps))) :: ('e, _) outcome)"
      using vs(1) live assms(3) Cons by (simp add: live_ordering_bounds_def element_at_def)
    then show ?thesis using rows Cons vs(3) b by (simp add: row_clock_def last_map)
  qed
qed

lemma sorted_hd_last:
  assumes "sorted (map f xs)" "xs \<noteq> []" "x \<in> set xs"
  shows "f (hd xs) \<le> f x" "f x \<le> f (last xs)"
proof -
  show "f (hd xs) \<le> f x" using assms by (cases xs) auto
  have "sorted (map f (butlast xs @ [last xs]))" "x \<in> set (butlast xs @ [last xs])" using assms by simp_all
  then show "f x \<le> f (last xs)" by (auto simp: sorted_append simp del: append_butlast_last_id)
qed

lemma ordering_problem_from_ok:
  assumes "views_ok s views" "keyed key s" "\<forall>view\<in>set views. order_honest key view"
  shows "\<exists>p. ordering_problem_from previous views key = (Ok p :: ('e, _) outcome) \<and>
    (p = None \<longleftrightarrow> (\<forall>view\<in>set views. sg_ordered (sv_segment view)) \<and> sorted (map (row_clock key) (rows_of_views views)) \<and>
       (\<forall>pr. previous = Some pr \<longrightarrow> (\<forall>r\<in>set (rows_of_views views). sint pr \<le> row_clock key r)))"
  using assms(1,3)
proof (induction views arbitrary: previous)
  case Nil
  then show ?case by (simp add: rows_of_views_def)
next
  case (Cons view views)
  have ok: "sview_ok s view" "views_ok s views" "order_honest key view" "sg_ordering_key (sv_segment view) = key"
    using Cons.prems by (auto simp: views_ok_def order_honest_def)
  have rows: "rows_of_views (view # views) = view_rows view @ rows_of_views views" by (simp add: rows_of_views_def)
  have IH: "\<exists>p. ordering_problem_from previous views key = (Ok p :: ('e, _) outcome) \<and>
    (p = None \<longleftrightarrow> (\<forall>view\<in>set views. sg_ordered (sv_segment view)) \<and> sorted (map (row_clock key) (rows_of_views views)) \<and>
       (\<forall>pr. previous = Some pr \<longrightarrow> (\<forall>r\<in>set (rows_of_views views). sint pr \<le> row_clock key r)))" for previous
    by (rule Cons.IH) (use ok(2) Cons.prems in auto)
  obtain bounds where b: "live_ordering_bounds view = (Ok bounds :: ('e, _) outcome)"
    "map_option (\<lambda>(lo, hi). (sint lo, sint hi)) bounds =
      (if view_rows view = [] then None else Some (row_clock key (hd (view_rows view)), row_clock key (last (view_rows view))))"
    using live_ordering_bounds_ok [OF ok(1) assms(2) ok(4), where ?'e = 'e] by blast
  show ?case
  proof (cases "sg_ordered (sv_segment view)")
    case False
    then show ?thesis using ok(4) by auto
  next
    case True
    have sorted: "sorted (map (row_clock key) (view_rows view))" by (rule live_sorted [OF ok(1,3) True])
    show ?thesis
    proof (cases "view_rows view = []")
      case empty: True
      then have "bounds = None" using b(2) by simp
      then show ?thesis using IH [of previous] True b(1) ok(4) empty rows by auto
    next
      case False
      then obtain lo hi where lh: "bounds = Some (lo, hi)" "sint lo = row_clock key (hd (view_rows view))"
        "sint hi = row_clock key (last (view_rows view))"
        using b(2) by auto
      have run: "ordering_problem_from previous (view # views) key =
          (if (case previous of Some p \<Rightarrow> sint lo < sint p | None \<Rightarrow> False) then Ok (Some AcrossSegments)
           else ordering_problem_from (Some hi) views key :: ('e, _) outcome)"
        using b(1) lh(1) True ok(4) by simp
      note ends = sorted_hd_last [OF sorted False]
      show ?thesis
      proof (cases "case previous of Some p \<Rightarrow> sint lo < sint p | None \<Rightarrow> False")
        case across: True
        then obtain pr where "previous = Some pr" "row_clock key (hd (view_rows view)) < sint pr" using lh(2) by (cases previous) auto
        moreover have "hd (view_rows view) \<in> set (rows_of_views (view # views))" using False rows by simp
        ultimately show ?thesis unfolding run using across by force
      next
        case within: False
        obtain p where p: "ordering_problem_from (Some hi) views key = (Ok p :: ('e, _) outcome)"
          "p = None \<longleftrightarrow> (\<forall>view\<in>set views. sg_ordered (sv_segment view)) \<and> sorted (map (row_clock key) (rows_of_views views)) \<and>
             (\<forall>r\<in>set (rows_of_views views). row_clock key (last (view_rows view)) \<le> row_clock key r)"
          using IH [of "Some hi"] lh(3) by auto
        have "sint pr \<le> row_clock key r" if "previous = Some pr" "r \<in> set (view_rows view)" for pr r
          using that within lh(2) ends(1) [of r] by auto
        moreover have "row_clock key r \<le> row_clock key (last (view_rows view))" if "r \<in> set (view_rows view)" for r
          by (rule ends(2) [OF that])
        moreover have "last (view_rows view) \<in> set (view_rows view)" using False by simp
        ultimately have "(\<forall>view\<in>set (view # views). sg_ordered (sv_segment view)) \<and>
            sorted (map (row_clock key) (rows_of_views (view # views))) \<and>
            (\<forall>pr. previous = Some pr \<longrightarrow> (\<forall>r\<in>set (rows_of_views (view # views)). sint pr \<le> row_clock key r)) \<longleftrightarrow> p = None"
          unfolding p(2) rows using sorted True by (auto simp: sorted_append) (meson order_trans)+
        then show ?thesis unfolding run using within p(1) by simp
      qed
    qed
  qed
qed

lemma ordering_problem_ok:
  assumes "views_ok s views" "keyed key s" "\<forall>view\<in>set views. order_honest key view"
  shows "\<exists>p. ordering_problem views key = (Ok p :: ('e, _) outcome) \<and>
    (p = None \<longleftrightarrow> (\<forall>view\<in>set views. sg_ordered (sv_segment view)) \<and> sorted (map (row_clock key) (rows_of_views views)))"
  using ordering_problem_from_ok [OF assms, of None, where ?'e = 'e] by (simp add: ordering_problem_def)

end
