(* ===== verification/Grouping.thy ===== *)
theory Grouping
  imports Live Plan
begin

text \<open>
  The terms rows are grouped and partitioned by (\<^verbatim>\<open>src/query_lite/exec.rs\<close>): a symbol column, or a
  bucket of an integer column.  Dictionary codes mean nothing across segments, so each
  segment's codes are first mapped into a key space of the query.  What is shown is that the
  code of a row in that space stands for the row's value: two rows have equal codes exactly
  when they have equal values, whatever segments and dictionaries they come from.
\<close>

section \<open>Integer buckets\<close>

text \<open>\<open>a / b\<close> on \<open>i64\<close>: toward zero; division by zero and the one overflowing quotient panic.\<close>

definition trunc_div :: "int \<Rightarrow> int \<Rightarrow> int" where
  "trunc_div a b = sgn a * sgn b * (\<bar>a\<bar> div \<bar>b\<bar>)"

definition i64_div :: "i64 \<Rightarrow> i64 \<Rightarrow> ('e, i64) outcome" where
  "i64_div a b =
     (if b = 0 \<or> sint a = - (2 ^ 63) \<and> sint b = - 1 then Panic else Ok (word_of_int (trunc_div (sint a) (sint b))))"

section \<open>Terms and codes\<close>

datatype group_code = LabelCode "nat option" | BucketCode i64

datatype group_term = LabelTerm nat | BucketTerm nat i64 "i64 option"

type_synonym code_remap = "(key_column \<times> nat list) option"

definition term_code :: "group_term \<Rightarrow> column list \<Rightarrow> code_remap \<Rightarrow> nat \<Rightarrow> ('e, group_code) outcome" where
  "term_code term columns remap row =
     (case term of
        LabelTerm _ \<Rightarrow>
          (case remap of
             None \<Rightarrow> Panic
           | Some (column, codes) \<Rightarrow>
               bindR (kc_is_valid column row) (\<lambda>valid.
               if valid then
                 bindR (element_at (kc_codes column) row) (\<lambda>code.
                 mapR (\<lambda>u. LabelCode (Some u)) (element_at codes (unat code)))
               else Ok (LabelCode None)))
      | BucketTerm index width factor \<Rightarrow>
          bindR (element_at columns index) (\<lambda>column.
          bindR (ordering_clocks column) (\<lambda>values.
          bindR (element_at values row) (\<lambda>value.
          mapR (\<lambda>bucket. BucketCode (case factor of None \<Rightarrow> bucket | Some m \<Rightarrow> bucket * m)) (i64_div value width)))))"

fun term_column_type :: "group_term \<Rightarrow> column_type" where
  "term_column_type (LabelTerm _) = Key"
| "term_column_type (BucketTerm _ _ _) = I64"

definition resolve_group_key :: "schema \<Rightarrow> group_key \<Rightarrow> nat option \<Rightarrow> (query_error, group_term) outcome" where
  "resolve_group_key s key ordering_key =
     bindR (resolve s (key_name key)) (\<lambda>(index, f).
     (let is_ordering_key = (case ordering_key of None \<Rightarrow> True | Some k \<Rightarrow> k = index)
      in case key of
           KeyColumn name \<Rightarrow>
             (case f_column_type f of
                Key \<Rightarrow> Ok (LabelTerm index)
              | I64 \<Rightarrow> if is_ordering_key then Ok (BucketTerm index 1 None) else Err (TypeError name)
              | F64 \<Rightarrow> Err (TypeError name))
         | Bucket column width factor \<Rightarrow>
             if f_column_type f \<noteq> I64 \<or> \<not> is_ordering_key then Err (TypeError column)
             else Ok (BucketTerm index width factor)))"

definition resolve_partition_key :: "schema \<Rightarrow> nat option \<Rightarrow> group_key \<Rightarrow> (query_error, group_term) outcome" where
  "resolve_partition_key s ordering_key key =
     bindR (resolve s (key_name key)) (\<lambda>(index, f).
     case key of
       KeyColumn name \<Rightarrow>
         (case f_column_type f of
            Key \<Rightarrow> Ok (LabelTerm index)
          | I64 \<Rightarrow> Ok (BucketTerm index 1 None)
          | F64 \<Rightarrow> Err (TypeError name))
     | Bucket column width factor \<Rightarrow>
         (let is_ordering_key = (case ordering_key of None \<Rightarrow> True | Some k \<Rightarrow> k = index)
          in if f_column_type f \<noteq> I64 \<or> \<not> is_ordering_key then Err (TypeError column)
             else Ok (BucketTerm index width factor)))"

section \<open>The key space of a query\<close>

text \<open>
  The hash map from a symbol to its unified code hands out codes by insertion, so it is the
  list of the symbols: a symbol's code is its position.
\<close>

definition unified_code :: "rstring list \<Rightarrow> rstring \<Rightarrow> rstring list \<times> nat" where
  "unified_code names value =
     (case position (\<lambda>name. name = value) names of
        Some code \<Rightarrow> (names, code)
      | None \<Rightarrow> (names @ [value], length names))"

definition unify_step ::
  "dictionary \<Rightarrow> rstring list \<times> nat list \<Rightarrow> nat \<Rightarrow> ('e, rstring list \<times> nat list) outcome" where
  "unify_step d = (\<lambda>(names, codes) code.
     mapR (\<lambda>value. case unified_code names value of (names, u) \<Rightarrow> (names, codes @ [u])) (dict_value d (word_of_nat code)))"

definition unify :: "rstring list \<Rightarrow> dictionary \<Rightarrow> ('e, rstring list \<times> nat list) outcome" where
  "unify names d = foldR (unify_step d) (names, []) [0..<unat (word_of_nat (dict_len d) :: u32)]"

definition term_remap :: "group_term \<Rightarrow> column list \<Rightarrow> rstring list \<Rightarrow> ('e, rstring list \<times> code_remap) outcome" where
  "term_remap term columns names =
     (case term of
        BucketTerm _ _ _ \<Rightarrow> Ok (names, None)
      | LabelTerm index \<Rightarrow>
          bindR (element_at columns index) (\<lambda>column.
          case column of
            KeyCol k \<Rightarrow> mapR (\<lambda>(names, codes). (names, Some (k, codes))) (unify names (kc_dictionary k))
          | Numeric _ \<Rightarrow> Panic))"

text \<open>A partition term refuses a live null first.\<close>

definition partition_remap ::
  "group_term \<Rightarrow> segment_view \<Rightarrow> rstring list \<Rightarrow> (query_error, rstring list \<times> code_remap) outcome" where
  "partition_remap term view names =
     (let columns = rb_columns (sg_batch (sv_segment view))
      in case term of
           BucketTerm _ _ _ \<Rightarrow> Ok (names, None)
         | LabelTerm index \<Rightarrow>
             bindR (element_at columns index) (\<lambda>column.
             case column of
               Numeric _ \<Rightarrow> Panic
             | KeyCol k \<Rightarrow>
                 bindR (if kc_validity k = None then Ok False
                        else bindR (live_positions view) (\<lambda>rows.
                             mapR (\<lambda>flags. list_ex Not flags) (traverseR (kc_is_valid k) rows))) (\<lambda>any_null.
                 if any_null then Err (Unsupported ''PARTITION BY on a column with nulls'')
                 else term_remap term columns names)))"

fun remaps_of ::
  "(group_term \<Rightarrow> rstring list \<Rightarrow> ('e, rstring list \<times> code_remap) outcome) \<Rightarrow> group_term list \<Rightarrow> rstring list list \<Rightarrow>
   ('e, rstring list list \<times> code_remap list) outcome" where
  "remaps_of remap (term # terms) (names # unified) =
     bindR (remap term names) (\<lambda>(names, r).
     mapR (\<lambda>(unified, rs). (names # unified, r # rs)) (remaps_of remap terms unified))"
| "remaps_of remap _ unified = Ok (unified, [])"

definition row_codes ::
  "group_term list \<Rightarrow> column list \<Rightarrow> code_remap list \<Rightarrow> nat \<Rightarrow> ('e, group_code list) outcome" where
  "row_codes terms columns remaps row =
     traverseR (\<lambda>(term, remap). term_code term columns remap row) (zip terms remaps)"

section \<open>Codes stand for values\<close>

definition bucket_of :: "i64 \<Rightarrow> i64 \<Rightarrow> i64 option \<Rightarrow> i64" where
  "bucket_of value width factor =
     (let bucket = word_of_int (trunc_div (sint value) (sint width))
      in case factor of None \<Rightarrow> bucket | Some m \<Rightarrow> bucket * m)"

fun term_value :: "group_term \<Rightarrow> row_value list \<Rightarrow> row_value" where
  "term_value (LabelTerm index) row = row ! index"
| "term_value (BucketTerm index width factor) row = RvI64 (bucket_of (row_key index row) width factor)"

fun code_value :: "rstring list \<Rightarrow> group_code \<Rightarrow> row_value" where
  "code_value names (LabelCode None) = RvNull"
| "code_value names (LabelCode (Some u)) = RvKey (names ! u)"
| "code_value names (BucketCode b) = RvI64 b"

fun code_within :: "rstring list \<Rightarrow> group_code \<Rightarrow> bool" where
  "code_within names (LabelCode (Some u)) \<longleftrightarrow> u < length names"
| "code_within names _ \<longleftrightarrow> True"

text \<open>
  A term fits a schema: a symbol column, or an integer column without nulls and a positive
  width, as the planner demands of a written bucket.
\<close>

fun term_fits :: "schema \<Rightarrow> group_term \<Rightarrow> bool" where
  "term_fits s (LabelTerm index) \<longleftrightarrow> index < length (s_fields s) \<and> f_column_type (s_fields s ! index) = Key"
| "term_fits s (BucketTerm index width _) \<longleftrightarrow> keyed index s \<and> 0 < sint width"

lemma code_value_inject:
  assumes "distinct names" "code_within names c" "code_within names c'"
  shows "code_value names c = code_value names c' \<longleftrightarrow> c = c'"
proof -
  have "names ! u = names ! v \<longleftrightarrow> u = v" if "u < length names" "v < length names" for u v
    using that assms(1) by (simp add: nth_eq_iff_index_eq)
  then show ?thesis
    using assms(2,3)
    by (cases "(names, c)" rule: code_value.cases; cases "(names, c')" rule: code_value.cases) auto
qed

lemma code_extend: "code_within names c \<Longrightarrow> code_within (names @ ext) c \<and> code_value (names @ ext) c = code_value names c"
  by (cases "(names, c)" rule: code_value.cases) (auto simp: nth_append)

text \<open>Unifying a dictionary extends the names and maps every code to its text.\<close>

lemma unified_code_sound:
  assumes "distinct names"
  shows "case unified_code names value of (names', u) \<Rightarrow>
    distinct names' \<and> (\<exists>ext. names' = names @ ext) \<and> set names' = insert value (set names) \<and> u < length names' \<and> names' ! u = value"
  using assms position_Some [of "\<lambda>name. name = value" names] position_None [of "\<lambda>name. name = value" names]
  by (auto simp: unified_code_def nth_append split: option.split)

lemma unify_fold:
  assumes "dict_ok d" "distinct names" "n \<le> dict_len d" "dict_len d < 2 ^ 32"
  shows "\<exists>names' codes. foldR (unify_step d) (names, []) [0..<n] = (Ok (names', codes) :: ('e, _) outcome) \<and>
    distinct names' \<and> (\<exists>ext. names' = names @ ext) \<and> set names' = set names \<union> set (take n (dict_names d)) \<and> length codes = n \<and>
    (\<forall>i<n. codes ! i < length names' \<and> names' ! (codes ! i) = dict_names d ! i)"
  using assms(3)
proof (induction n)
  case 0
  then show ?case using assms(2) by simp
next
  case (Suc n)
  then obtain names' codes where IH: "foldR (unify_step d) (names, []) [0..<n] = (Ok (names', codes) :: ('e, _) outcome)"
    "distinct names'" "\<exists>ext. names' = names @ ext" "set names' = set names \<union> set (take n (dict_names d))" "length codes = n"
    "\<forall>i<n. codes ! i < length names' \<and> names' ! (codes ! i) = dict_names d ! i"
    by auto
  have n: "n < dict_len d" "n < length (dict_names d)" using Suc.prems assms(1) by (auto elim: dict_okE)
  have "unat (word_of_nat n :: u32) = n" using n(1) assms(4) by (simp add: unat_of_nat)
  then have rendered: "dict_value d (word_of_nat n) = (Ok (dict_names d ! n) :: ('e, _) outcome)"
    using assms(1) n by (auto elim!: dict_okE simp: dict_value_of)
  obtain names'' u where u: "unified_code names' (dict_names d ! n) = (names'', u)" by fastforce
  have U: "distinct names''" "\<exists>ext. names'' = names' @ ext" "set names'' = insert (dict_names d ! n) (set names')"
    "u < length names''" "names'' ! u = dict_names d ! n"
    using unified_code_sound [OF IH(2), of "dict_names d ! n"] u by auto
  have "codes ! i < length names'' \<and> names'' ! (codes ! i) = dict_names d ! i" if "i < n" for i
    using U(2) IH(6) that by (auto simp: nth_append)
  then have "\<forall>i<Suc n. (codes @ [u]) ! i < length names'' \<and> names'' ! ((codes @ [u]) ! i) = dict_names d ! i"
    using U(4,5) IH(5) by (auto simp: nth_append less_Suc_eq)
  moreover have "foldR (unify_step d) (names, []) [0..<Suc n] = (Ok (names'', codes @ [u]) :: ('e, _) outcome)"
    using IH(1) rendered u by (simp add: foldR_append unify_step_def)
  moreover have "\<exists>ext. names'' = names @ ext" using U(2) IH(3) by auto
  moreover have "set names'' = set names \<union> set (take (Suc n) (dict_names d))"
    using U(3) IH(4) n(2) by (simp add: take_Suc_conv_app_nth)
  ultimately show ?case using U(1) IH(5) by (intro exI [of _ names''] exI [of _ "codes @ [u]"]) simp
qed

section \<open>A view's codes\<close>

text \<open>A positive width never panics.\<close>

lemma i64_div_ok: "0 < sint b \<Longrightarrow> i64_div a b = Ok (word_of_int (trunc_div (sint a) (sint b)))"
  by (auto simp: i64_div_def)

lemma label_code:
  assumes "column_ok (KeyCol k)" "row < kc_len k" "length codes = dict_len (kc_dictionary k)"
    "\<forall>i<length codes. codes ! i < length names \<and> names ! (codes ! i) = dict_names (kc_dictionary k) ! i"
  shows "\<exists>c. term_code (LabelTerm index) columns (Some (k, codes)) row = (Ok c :: ('e, _) outcome) \<and> code_within names c \<and>
    code_value names c = column_cells (KeyCol k) ! row"
proof -
  let ?p = "presence (kc_len k) (kc_validity k) ! row"
  have row: "row < length (kc_codes k)" using assms(2) by (simp add: kc_len_def)
  have valid: "kc_is_valid k row = (Ok ?p :: ('e, _) outcome)"
    using assms(1,2) by (simp add: kc_is_valid_def validity_get_presence)
  have code: "unat (kc_codes k ! row) < length codes" using assms(1,3) row by simp
  have cell: "column_cells (KeyCol k) ! row =
      (if ?p then RvKey (dict_names (kc_dictionary k) ! unat (kc_codes k ! row)) else RvNull)"
    using assms(1) row by (simp add: kc_len_def)
  show ?thesis
    unfolding cell using valid row code assms(4) by (cases ?p) (auto simp: term_code_def element_at_def)
qed

lemma term_remap_ok:
  assumes "sview_ok s view" "term_fits s term" "distinct names"
  defines "columns \<equiv> rb_columns (sg_batch (sv_segment view))"
  shows "\<exists>names' r. term_remap term columns names = (Ok (names', r) :: ('e, _) outcome) \<and> distinct names' \<and>
    (\<exists>ext. names' = names @ ext) \<and>
    (\<forall>row<rb_num_rows (sg_batch (sv_segment view)). \<exists>c. term_code term columns r row = (Ok c :: ('e, _) outcome) \<and>
       code_within names' c \<and> code_value names' c = term_value term (cells_of (sv_segment view) ! row))"
proof (cases "term")
  case (LabelTerm index)
  have fits: "index < length (s_fields s)" "f_column_type (s_fields s ! index) = Key" using assms(2) LabelTerm by simp_all
  have b: "batch_ok (sg_batch (sv_segment view))" "rb_schema (sg_batch (sv_segment view)) = s" using assms(1) by (simp_all add: sview_ok_def)
  note C = batch_ok_column [OF b(1), of index, unfolded b(2), OF fits(1), folded columns_def]
  obtain k where k: "columns ! index = KeyCol k" using C(3) fits(2) by (cases "columns ! index" rule: column_cells.cases) auto
  have d: "dict_ok (kc_dictionary k)" using C(2) k by simp
  have n: "unat (word_of_nat (dict_len (kc_dictionary k)) :: u32) = dict_len (kc_dictionary k)"
    using dict_ok_len [OF d] by (simp add: unat_of_nat)
  obtain names' codes where U: "unify names (kc_dictionary k) = (Ok (names', codes) :: ('e, _) outcome)" "distinct names'"
    "\<exists>ext. names' = names @ ext" "length codes = dict_len (kc_dictionary k)"
    "\<forall>i<dict_len (kc_dictionary k). codes ! i < length names' \<and> names' ! (codes ! i) = dict_names (kc_dictionary k) ! i"
    using unify_fold [OF d assms(3) order_refl dict_ok_len [OF d], where ?'e = 'e] by (auto simp: unify_def n)
  have "\<exists>c. term_code term columns (Some (k, codes)) row = (Ok c :: ('e, _) outcome) \<and>
      code_within names' c \<and> code_value names' c = term_value term (cells_of (sv_segment view) ! row)"
    if "row < rb_num_rows (sg_batch (sv_segment view))" for row
    using label_code [of k row codes names' index columns, where ?'e = 'e] C(2,4) U(4,5) that k LabelTerm
      view_row_nth [OF assms(1) that fits(1)]
    by (simp add: columns_def [symmetric])
  moreover have "term_remap term columns names = (Ok (names', Some (k, codes)) :: ('e, _) outcome)"
    using LabelTerm C(1) k U(1) by (simp add: term_remap_def element_at_def)
  ultimately show ?thesis using U(2,3) by blast
next
  case (BucketTerm index width factor)
  then have fits: "keyed index s" "0 < sint width" using assms(2) by simp_all
  obtain vs where vs: "clocks_at view index = (Ok vs :: ('e, _) outcome)" "length vs = rb_num_rows (sg_batch (sv_segment view))"
    "\<forall>row<length vs. vs ! row = row_key index (cells_of (sv_segment view) ! row)"
    using clocks_at_ok [OF assms(1) fits(1), where ?'e = 'e] by blast
  have "term_code term columns None row = (Ok (BucketCode (bucket_of (vs ! row) width factor)) :: ('e, _) outcome)"
    if "row < length vs" for row
    using vs(1) that BucketTerm fits(2)
    by (auto simp: term_code_def clocks_at_def columns_def [symmetric] element_at_def i64_div_ok bucket_of_def Let_def split: option.splits if_splits)
  then show ?thesis using BucketTerm vs(2,3) assms(3) by (simp add: term_remap_def)
qed

text \<open>The codes of a row stand for the values of its terms.\<close>

definition stand_for :: "rstring list list \<Rightarrow> group_code list \<Rightarrow> row_value list \<Rightarrow> bool" where
  "stand_for unified cs vs \<longleftrightarrow> length cs = length unified \<and> length vs = length unified \<and>
     (\<forall>j<length unified. code_within (unified ! j) (cs ! j) \<and> code_value (unified ! j) (cs ! j) = vs ! j)"

definition unified_ok :: "group_term list \<Rightarrow> rstring list list \<Rightarrow> bool" where
  "unified_ok terms unified \<longleftrightarrow> length unified = length terms \<and> (\<forall>names\<in>set unified. distinct names)"

definition extends :: "rstring list list \<Rightarrow> rstring list list \<Rightarrow> bool" where
  "extends = list_all2 (\<lambda>names names'. \<exists>ext. names' = names @ ext)"

lemma extends_refl [simp]: "extends unified unified"
  by (simp add: extends_def list_all2_refl)

lemma extends_trans: "extends a b \<Longrightarrow> extends b c \<Longrightarrow> extends a c"
  unfolding extends_def by (rule list_all2_trans) auto

lemma stand_for_extends:
  assumes "stand_for unified cs vs" "extends unified unified'"
  shows "stand_for unified' cs vs"
proof -
  have len: "length unified' = length unified" using assms(2) by (simp add: extends_def list_all2_lengthD)
  have "code_within (unified' ! j) (cs ! j) \<and> code_value (unified' ! j) (cs ! j) = vs ! j" if j: "j < length unified" for j
  proof -
    obtain ext where "unified' ! j = unified ! j @ ext"
      using list_all2_nthD [OF assms(2) [unfolded extends_def] j] by blast
    then show ?thesis using assms(1) j code_extend [of "unified ! j" "cs ! j" ext] by (simp add: stand_for_def)
  qed
  then show ?thesis using assms(1) len by (simp add: stand_for_def)
qed

lemma stand_for_inject:
  assumes "unified_ok terms unified" "stand_for unified cs vs" "stand_for unified cs' vs'"
  shows "cs = cs' \<longleftrightarrow> vs = vs'"
proof -
  have "cs ! j = cs' ! j \<longleftrightarrow> vs ! j = vs' ! j" if "j < length unified" for j
    using code_value_inject [of "unified ! j" "cs ! j" "cs' ! j"] assms that by (auto simp: unified_ok_def stand_for_def)
  then show ?thesis using assms(2,3) by (auto simp: stand_for_def list_eq_iff_nth_eq)
qed

lemma stand_for_Cons:
  "stand_for (names # unified) (c # cs) (v # vs) \<longleftrightarrow> code_within names c \<and> code_value names c = v \<and> stand_for unified cs vs"
  by (auto simp: stand_for_def less_Suc_eq_0_disj)

definition terms_fit :: "schema \<Rightarrow> group_term list \<Rightarrow> bool" where
  "terms_fit s terms \<longleftrightarrow> (\<forall>term\<in>set terms. term_fits s term)"

lemma remaps_of_ok:
  assumes "sview_ok s view" "terms_fit s terms" "unified_ok terms unified"
  defines "columns \<equiv> rb_columns (sg_batch (sv_segment view))"
  shows "\<exists>unified' remaps. remaps_of (\<lambda>term. term_remap term columns) terms unified = (Ok (unified', remaps) :: ('e, _) outcome) \<and>
    unified_ok terms unified' \<and> extends unified unified' \<and>
    (\<forall>row<rb_num_rows (sg_batch (sv_segment view)). \<exists>cs. row_codes terms columns remaps row = (Ok cs :: ('e, _) outcome) \<and>
       stand_for unified' cs (map (\<lambda>term. term_value term (cells_of (sv_segment view) ! row)) terms))"
  using assms(2,3)
proof (induction terms arbitrary: unified)
  case Nil
  then show ?case by (cases unified) (simp_all add: unified_ok_def row_codes_def stand_for_def)
next
  case (Cons t terms)
  then obtain names rest where u: "unified = names # rest" "distinct names" "unified_ok terms rest"
    by (cases unified) (auto simp: unified_ok_def)
  obtain names' r where T: "term_remap t columns names = (Ok (names', r) :: ('e, _) outcome)" "distinct names'"
    "\<exists>ext. names' = names @ ext"
    "\<forall>row<rb_num_rows (sg_batch (sv_segment view)). \<exists>c. term_code t columns r row = (Ok c :: ('e, _) outcome) \<and>
       code_within names' c \<and> code_value names' c = term_value t (cells_of (sv_segment view) ! row)"
    using term_remap_ok [OF assms(1) _ u(2), of t, where ?'e = 'e] Cons.prems(1)
    by (auto simp: terms_fit_def columns_def)
  obtain rest' rs where R: "remaps_of (\<lambda>term. term_remap term columns) terms rest = (Ok (rest', rs) :: ('e, _) outcome)"
    "unified_ok terms rest'" "extends rest rest'"
    "\<forall>row<rb_num_rows (sg_batch (sv_segment view)). \<exists>cs. row_codes terms columns rs row = (Ok cs :: ('e, _) outcome) \<and>
       stand_for rest' cs (map (\<lambda>term. term_value term (cells_of (sv_segment view) ! row)) terms)"
    using Cons.IH [OF _ u(3)] Cons.prems(1) by (auto simp: terms_fit_def)
  have "\<exists>cs. row_codes (t # terms) columns (r # rs) row = (Ok cs :: ('e, _) outcome) \<and>
      stand_for (names' # rest') cs (map (\<lambda>term. term_value term (cells_of (sv_segment view) ! row)) (t # terms))"
    if row: "row < rb_num_rows (sg_batch (sv_segment view))" for row
  proof -
    obtain c cs where "term_code t columns r row = (Ok c :: ('e, _) outcome)" "code_within names' c"
      "code_value names' c = term_value t (cells_of (sv_segment view) ! row)"
      "row_codes terms columns rs row = (Ok cs :: ('e, _) outcome)"
      "stand_for rest' cs (map (\<lambda>term. term_value term (cells_of (sv_segment view) ! row)) terms)"
      using T(4) R(4) row by meson
    then show ?thesis by (intro exI [of _ "c # cs"]) (simp add: row_codes_def stand_for_Cons)
  qed
  moreover have "unified_ok (t # terms) (names' # rest')" "extends unified (names' # rest')"
    using T(2,3) R(2,3) u(1) by (auto simp: unified_ok_def extends_def)
  ultimately show ?case using T(1) R(1) u(1) by (intro exI [of _ "names' # rest'"] exI [of _ "r # rs"]) simp
qed

end
