(* ===== verification/FloatOps.thy ===== *)
theory FloatOps
  imports Compare
begin

text \<open>
  The arithmetic of \<open>f64\<close> the query layer's expressions and aggregates use, executable on bit
  patterns: sum, difference, quotient, remainder, square root, sign, rounding to an integral
  value.  Each result is the exact one rounded once by \<open>f64_round_pack\<close>; a quotient and a
  root carry one sticky digit below sixty exact ones, which rounds as the exact value does.
\<close>

section \<open>Signs\<close>

definition f64_neg :: "f64 \<Rightarrow> f64" where
  "f64_neg x = x XOR 0x8000000000000000"

definition f64_abs :: "f64 \<Rightarrow> f64" where
  "f64_abs x = x AND 0x7FFFFFFFFFFFFFFF"

section \<open>Sums\<close>

definition f64_signed :: "f64 \<Rightarrow> int" where
  "f64_signed x = (if f64_sign x then - int (f64_mantissa x) else int (f64_mantissa x))"

definition f64_is_zero :: "f64 \<Rightarrow> bool" where
  "f64_is_zero x \<longleftrightarrow> f64_is_finite x \<and> f64_mantissa x = 0"

definition f64_add :: "f64 \<Rightarrow> f64 \<Rightarrow> f64" where
  "f64_add x y =
     (if f64_is_nan x \<or> f64_is_nan y then f64_nan
      else if f64_is_infinite x then (if f64_is_infinite y \<and> f64_sign x \<noteq> f64_sign y then f64_nan else x)
      else if f64_is_infinite y then y
      else
        (let e = min (f64_scale x) (f64_scale y);
             v = f64_signed x * 2 ^ nat (f64_scale x - e) + f64_signed y * 2 ^ nat (f64_scale y - e)
         in if v = 0 then f64_zero (f64_sign x \<and> f64_sign y) else f64_round_pack (v < 0) (nat \<bar>v\<bar>) e))"

definition f64_sub :: "f64 \<Rightarrow> f64 \<Rightarrow> f64" where
  "f64_sub x y = f64_add x (f64_neg y)"

section \<open>Quotients\<close>

definition f64_div :: "f64 \<Rightarrow> f64 \<Rightarrow> f64" where
  "f64_div x y =
     (let s = (f64_sign x \<noteq> f64_sign y)
      in if f64_is_nan x \<or> f64_is_nan y then f64_nan
         else if f64_is_infinite x then (if f64_is_infinite y then f64_nan else f64_infinity s)
         else if f64_is_infinite y then f64_zero s
         else if f64_mantissa y = 0 then (if f64_mantissa x = 0 then f64_nan else f64_infinity s)
         else
           (let k = 60 + nat_digits (f64_mantissa y); n = f64_mantissa x * 2 ^ k; q = n div f64_mantissa y
            in f64_round_pack s (2 * q + (if n mod f64_mantissa y = 0 then 0 else 1))
                 (f64_scale x - f64_scale y - int k - 1)))"

text \<open>The remainder of the truncated quotient, exact, with the sign of the dividend.\<close>

definition f64_rem :: "f64 \<Rightarrow> f64 \<Rightarrow> f64" where
  "f64_rem x y =
     (if f64_is_nan x \<or> f64_is_nan y \<or> f64_is_infinite x \<or> f64_is_zero y then f64_nan
      else if f64_is_infinite y then x
      else
        (let e = min (f64_scale x) (f64_scale y);
             a = f64_mantissa x * 2 ^ nat (f64_scale x - e); b = f64_mantissa y * 2 ^ nat (f64_scale y - e)
         in f64_round_pack (f64_sign x) (a mod b) e))"

section \<open>Roots\<close>

fun isqrt :: "nat \<Rightarrow> nat" where
  "isqrt n = (if n = 0 then 0 else let r = 2 * isqrt (n div 4) in if (r + 1) * (r + 1) \<le> n then r + 1 else r)"

declare isqrt.simps [simp del]

lemma isqrt_bounds: "isqrt n * isqrt n \<le> n \<and> n < (isqrt n + 1) * (isqrt n + 1)"
proof (induction n rule: isqrt.induct)
  case (1 n)
  show ?case
  proof (cases "n = 0")
    case False
    define q where "q = isqrt (n div 4)"
    have q: "q * q \<le> n div 4" "n div 4 < (q + 1) * (q + 1)" using 1 [OF False] by (simp_all add: q_def)
    have "4 * (q * q) \<le> n" using q(1) by linarith
    moreover have "n < 4 * ((q + 1) * (q + 1))"
    proof -
      have "Suc (n div 4) \<le> (q + 1) * (q + 1)" using q(2) by simp
      moreover have "n < 4 * Suc (n div 4)" by simp
      ultimately show ?thesis by linarith
    qed
    ultimately show ?thesis
      using False by (subst (1 2 3 4) isqrt.simps) (simp add: Let_def q_def [symmetric] algebra_simps)
  qed (simp add: isqrt.simps)
qed

definition f64_sqrt :: "f64 \<Rightarrow> f64" where
  "f64_sqrt x =
     (if f64_is_nan x then f64_nan
      else if f64_is_zero x then x
      else if f64_sign x then f64_nan
      else if f64_is_infinite x then x
      else
        (let k = (if even (f64_scale x) then 120 else 121); n = f64_mantissa x * 2 ^ k; r = isqrt n
         in f64_round_pack False (2 * r + (if r * r = n then 0 else 1)) ((f64_scale x - int k) div 2 - 1)))"

section \<open>Integral values\<close>

text \<open>An integral value takes the sign of the argument, so a zero keeps its own.\<close>

definition f64_integral :: "f64 \<Rightarrow> int \<Rightarrow> f64" where
  "f64_integral x n = (if f64_is_nan x then f64_nan else if f64_is_infinite x then x
     else f64_round_pack (f64_sign x) (nat \<bar>n\<bar>) 0)"

definition f64_floor_value :: "f64 \<Rightarrow> f64" where
  "f64_floor_value x = f64_integral x (f64_floor_int x)"

definition f64_ceil_value :: "f64 \<Rightarrow> f64" where
  "f64_ceil_value x = f64_integral x (- f64_floor_int (f64_neg x))"

definition f64_round_value :: "f64 \<Rightarrow> f64" where
  "f64_round_value x = f64_integral x (f64_round_int x)"

text \<open>The cast \<open>as i64\<close>: toward zero, saturating, NaN to zero.\<close>

definition i64_of_f64 :: "f64 \<Rightarrow> i64" where
  "i64_of_f64 x =
     (if f64_is_nan x then 0
      else if f64_is_infinite x then (if f64_sign x then word_of_int (- (2 ^ 63)) else word_of_int (2 ^ 63 - 1))
      else i64_saturate (if f64_sign x then - f64_floor_int (f64_neg x) else f64_floor_int x))"

end
