(* ===== verification/Aggregate.thy ===== *)
theory Aggregate
  imports Grouping FloatOps
begin

text \<open>
  Aggregation (\<^verbatim>\<open>src/query_lite/exec.rs\<close>): the accumulators, and the grouped projection with its
  two paths, one over a hash map of all groups and one that streams over buckets of the time
  axis and closes a group as soon as its bucket is left.
\<close>

section \<open>Accumulators\<close>

datatype cell_number = CellF64 f64 | CellI64 i64

fun cell_as_f64 :: "cell_number \<Rightarrow> f64" where
  "cell_as_f64 (CellF64 x) = x"
| "cell_as_f64 (CellI64 v) = f64_of_i64 v"

text \<open>The flags: whether a value was seen, and which end (MAX, LAST) is wanted.\<close>

datatype accumulator =
    CountStar i64
  | CountColumn i64
  | SumF64 f64 bool
  | SumI64 i64 bool
  | AvgAcc f64 i64
  | MinMaxF64 f64 bool bool
  | MinMaxI64 i64 bool bool
  | FirstLastF64 i64 f64 bool bool
  | FirstLastI64 i64 i64 bool bool

definition accumulator_new :: "agg_call \<Rightarrow> column_type option \<Rightarrow> (query_error, accumulator) outcome" where
  "accumulator_new call argument_type =
     (case (ac_function call, argument_type) of
        (CountAgg, None) \<Rightarrow> Ok (CountStar 0)
      | (CountAgg, Some _) \<Rightarrow> Ok (CountColumn 0)
      | (SumAgg, Some F64) \<Rightarrow> Ok (SumF64 0 False)
      | (SumAgg, Some I64) \<Rightarrow> Ok (SumI64 0 False)
      | (AvgAgg, Some F64) \<Rightarrow> Ok (AvgAcc 0 0)
      | (AvgAgg, Some I64) \<Rightarrow> Ok (AvgAcc 0 0)
      | (MinAgg, Some F64) \<Rightarrow> Ok (MinMaxF64 0 False False)
      | (MaxAgg, Some F64) \<Rightarrow> Ok (MinMaxF64 0 False True)
      | (MinAgg, Some I64) \<Rightarrow> Ok (MinMaxI64 0 False False)
      | (MaxAgg, Some I64) \<Rightarrow> Ok (MinMaxI64 0 False True)
      | (FirstAgg, Some F64) \<Rightarrow> Ok (FirstLastF64 0 0 False False)
      | (LastAgg, Some F64) \<Rightarrow> Ok (FirstLastF64 0 0 False True)
      | (FirstAgg, Some I64) \<Rightarrow> Ok (FirstLastI64 0 0 False False)
      | (LastAgg, Some I64) \<Rightarrow> Ok (FirstLastI64 0 0 False True)
      | (_, _) \<Rightarrow> Err (TypeError (ascii ''needs a numeric argument'')))"

fun accumulator_type :: "accumulator \<Rightarrow> column_type" where
  "accumulator_type (CountStar _) = I64"
| "accumulator_type (CountColumn _) = I64"
| "accumulator_type (SumI64 _ _) = I64"
| "accumulator_type (MinMaxI64 _ _ _) = I64"
| "accumulator_type (FirstLastI64 _ _ _ _) = I64"
| "accumulator_type _ = F64"

fun i64_value :: "accumulator \<Rightarrow> i64 option" where
  "i64_value (CountStar n) = Some n"
| "i64_value (CountColumn n) = Some n"
| "i64_value (SumI64 t seen) = (if seen then Some t else None)"
| "i64_value (MinMaxI64 v seen _) = (if seen then Some v else None)"
| "i64_value (FirstLastI64 _ v seen _) = (if seen then Some v else None)"
| "i64_value _ = None"

fun f64_value :: "accumulator \<Rightarrow> f64 option" where
  "f64_value (SumF64 t seen) = (if seen then Some t else None)"
| "f64_value (AvgAcc t n) = (if 0 < sint n then Some (f64_div t (f64_of_i64 n)) else None)"
| "f64_value (MinMaxF64 v seen _) = (if seen then Some v else None)"
| "f64_value (FirstLastF64 _ v seen _) = (if seen then Some v else None)"
| "f64_value _ = None"

definition first_last_replaces :: "bool \<Rightarrow> bool \<Rightarrow> i64 \<Rightarrow> i64 \<Rightarrow> bool" where
  "first_last_replaces seen latest clock held \<longleftrightarrow>
     \<not> seen \<or> (if latest then sint held \<le> sint clock else sint clock < sint held)"

definition checked_add :: "i64 \<Rightarrow> i64 \<Rightarrow> i64 option" where
  "checked_add a b = (let n = sint a + sint b in if - (2 ^ 63) \<le> n \<and> n < 2 ^ 63 then Some (word_of_int n) else None)"

definition SUM_OVERFLOW :: query_error where
  "SUM_OVERFLOW = Compute ''SUM overflows i64''"

fun accumulator_update :: "accumulator \<Rightarrow> cell_number option \<Rightarrow> i64 \<Rightarrow> (query_error, accumulator) outcome" where
  "accumulator_update (CountStar n) cell clock = Ok (CountStar (n + 1))"
| "accumulator_update acc None clock = Ok acc"
| "accumulator_update (CountColumn n) (Some _) clock = Ok (CountColumn (n + 1))"
| "accumulator_update (SumF64 t seen) (Some cell) clock = Ok (SumF64 (f64_add t (cell_as_f64 cell)) True)"
| "accumulator_update (SumI64 t seen) (Some (CellI64 v)) clock =
     (case checked_add t v of Some t' \<Rightarrow> Ok (SumI64 t' True) | None \<Rightarrow> Err SUM_OVERFLOW)"
| "accumulator_update (AvgAcc t n) (Some cell) clock = Ok (AvgAcc (f64_add t (cell_as_f64 cell)) (n + 1))"
| "accumulator_update (MinMaxF64 v seen greatest) (Some cell) clock =
     (let candidate = cell_as_f64 cell;
          replace = \<not> seen \<or> greatest \<and> cmp_f64 candidate v = Greater \<or> \<not> greatest \<and> cmp_f64 candidate v = Less
      in Ok (MinMaxF64 (if replace then candidate else v) True greatest))"
| "accumulator_update (MinMaxI64 v seen greatest) (Some (CellI64 candidate)) clock =
     (let replace = \<not> seen \<or> greatest \<and> sint v < sint candidate \<or> \<not> greatest \<and> sint candidate < sint v
      in Ok (MinMaxI64 (if replace then candidate else v) True greatest))"
| "accumulator_update (FirstLastF64 held v seen latest) (Some cell) clock =
     (if first_last_replaces seen latest clock held then Ok (FirstLastF64 clock (cell_as_f64 cell) True latest)
      else Ok (FirstLastF64 held v True latest))"
| "accumulator_update (FirstLastI64 held v seen latest) (Some (CellI64 candidate)) clock =
     (if first_last_replaces seen latest clock held then Ok (FirstLastI64 clock candidate True latest)
      else Ok (FirstLastI64 held v True latest))"
| "accumulator_update _ (Some (CellF64 _)) clock = Panic"

section \<open>Closed groups\<close>

datatype agg_cells = CellsI64 "i64 option list" | CellsF64 "f64 option list"

definition agg_cells_for :: "column_type \<Rightarrow> agg_cells" where
  "agg_cells_for ct = (if ct = I64 then CellsI64 [] else CellsF64 [])"

fun agg_cells_push :: "agg_cells \<Rightarrow> accumulator \<Rightarrow> agg_cells" where
  "agg_cells_push (CellsI64 cells) acc = CellsI64 (cells @ [i64_value acc])"
| "agg_cells_push (CellsF64 cells) acc = CellsF64 (cells @ [f64_value acc])"

record group_sink =
  gs_keys :: "group_code list list"
  gs_cells :: "agg_cells list"

definition sink_new :: "accumulator list \<Rightarrow> group_sink" where
  "sink_new template = \<lparr>gs_keys = [], gs_cells = map (\<lambda>acc. agg_cells_for (accumulator_type acc)) template\<rparr>"

text \<open>\<open>zip\<close> stops at the shorter list; the cells beyond it stay.\<close>

definition sink_close :: "group_sink \<Rightarrow> group_code list \<times> accumulator list \<Rightarrow> group_sink" where
  "sink_close sink = (\<lambda>(key, accs).
     sink\<lparr>gs_keys := gs_keys sink @ [key],
          gs_cells := map2 agg_cells_push (gs_cells sink) accs @ drop (length accs) (gs_cells sink)\<rparr>)"

section \<open>The grouped projection\<close>

text \<open>
  What the pass over the rows carries.  The hash map from a key to its group holds the
  positions of \<open>open_keys\<close> and is cleared with it, so it is the lookup in that list.
\<close>

record agg_run =
  ag_unified :: "rstring list list"
  ag_open :: "(group_code list \<times> accumulator list) list"
  ag_bucket :: "group_code list option"
  ag_sink :: group_sink

fun is_bucket :: "group_term \<Rightarrow> bool" where
  "is_bucket (BucketTerm _ _ _) = True"
| "is_bucket (LabelTerm _) = False"

definition bucket_codes :: "group_term list \<Rightarrow> 'c list \<Rightarrow> 'c list" where
  "bucket_codes terms codes = map fst (filter (\<lambda>(_, term). is_bucket term) (zip codes terms))"

definition close_open :: "agg_run \<Rightarrow> agg_run" where
  "close_open run = run\<lparr>ag_sink := foldl sink_close (ag_sink run) (ag_open run), ag_open := []\<rparr>"

definition agg_cell :: "column list \<Rightarrow> nat option \<Rightarrow> nat \<Rightarrow> (query_error, cell_number option) outcome" where
  "agg_cell columns argument row =
     (case argument of
        None \<Rightarrow> Ok None
      | Some index \<Rightarrow>
          bindR (element_at columns index) (\<lambda>column.
          case column of
            Numeric (NF64 c) \<Rightarrow>
              bindR (nc_is_valid c row) (\<lambda>valid.
              if valid then mapR (\<lambda>x. Some (CellF64 x)) (element_at (nc_values c) row) else Ok None)
          | Numeric (NI64 c) \<Rightarrow>
              bindR (nc_is_valid c row) (\<lambda>valid.
              if valid then mapR (\<lambda>v. Some (CellI64 v)) (element_at (nc_values c) row) else Ok None)
          | KeyCol _ \<Rightarrow> Err (TypeError (ascii ''aggregates take numeric arguments''))))"

definition leave_bucket :: "group_term list \<Rightarrow> bool \<Rightarrow> group_code list \<Rightarrow> agg_run \<Rightarrow> agg_run" where
  "leave_bucket terms streaming key run =
     (let bucket = bucket_codes terms key
      in if streaming \<and> ag_bucket run \<noteq> Some bucket then (close_open run)\<lparr>ag_bucket := Some bucket\<rparr> else run)"

text \<open>The group of a key, opened with the template when it is new.\<close>

definition enter_group ::
  "accumulator list \<Rightarrow> group_code list \<Rightarrow> (group_code list \<times> accumulator list) list \<Rightarrow>
   (group_code list \<times> accumulator list) list \<times> nat" where
  "enter_group template key groups =
     (case position (\<lambda>g. fst g = key) groups of
        Some slot \<Rightarrow> (groups, slot)
      | None \<Rightarrow> (groups @ [(key, template)], length groups))"

definition update_all ::
  "column list \<Rightarrow> nat option list \<Rightarrow> i64 \<Rightarrow> nat \<Rightarrow> accumulator list \<Rightarrow> (query_error, accumulator list) outcome" where
  "update_all columns arguments clock row accs =
     traverseR (\<lambda>(argument, acc). bindR (agg_cell columns argument row) (\<lambda>cell. accumulator_update acc cell clock))
       (zip arguments accs)"

definition agg_row ::
  "group_term list \<Rightarrow> accumulator list \<Rightarrow> nat option list \<Rightarrow> bool \<Rightarrow> column list \<Rightarrow> code_remap list \<Rightarrow> i64 list option \<Rightarrow>
   agg_run \<Rightarrow> nat \<Rightarrow> (query_error, agg_run) outcome" where
  "agg_row terms template arguments streaming columns remaps clocks run row =
     bindR (row_codes terms columns remaps row) (\<lambda>key.
     (let run = leave_bucket terms streaming key run;
          (groups, slot) = enter_group template key (ag_open run)
      in bindR (case clocks of None \<Rightarrow> Ok 0 | Some vs \<Rightarrow> element_at vs row) (\<lambda>clock.
         mapR (\<lambda>accs. run\<lparr>ag_open := groups[slot := (fst (groups ! slot), accs)]\<rparr>)
           (update_all columns arguments clock row (snd (groups ! slot))))))"

definition agg_view ::
  "group_term list \<Rightarrow> accumulator list \<Rightarrow> nat option list \<Rightarrow> nat option \<Rightarrow> bool \<Rightarrow> agg_run \<Rightarrow> segment_view \<Rightarrow>
   (query_error, agg_run) outcome" where
  "agg_view terms template arguments ordering_key streaming run view =
     (let columns = rb_columns (sg_batch (sv_segment view))
      in bindR (remaps_of (\<lambda>term. term_remap term columns) terms (ag_unified run)) (\<lambda>(unified, remaps).
         bindR (case ordering_key of None \<Rightarrow> Ok None | Some index \<Rightarrow> mapR Some (clocks_at view index)) (\<lambda>clocks.
         bindR (live_positions view) (\<lambda>rows.
         foldR (agg_row terms template arguments streaming columns remaps clocks) (run\<lparr>ag_unified := unified\<rparr>) rows))))"

section \<open>Assembling the result\<close>

fun agg_default_name :: "agg_function \<Rightarrow> rstring" where
  "agg_default_name CountAgg = ascii ''count''"
| "agg_default_name SumAgg = ascii ''sum''"
| "agg_default_name AvgAgg = ascii ''avg''"
| "agg_default_name MinAgg = ascii ''min''"
| "agg_default_name MaxAgg = ascii ''max''"
| "agg_default_name FirstAgg = ascii ''first''"
| "agg_default_name LastAgg = ascii ''last''"

definition assemble_optional :: "u64 option list \<Rightarrow> ('e, numeric_column) outcome" where
  "assemble_optional cells =
     assemble_numeric (map (\<lambda>v. case v of Some x \<Rightarrow> x | None \<Rightarrow> 0) cells) (map (\<lambda>v. v \<noteq> None) cells)"

definition assemble_aggregate :: "rstring \<Rightarrow> agg_cells \<Rightarrow> ('e, field \<times> column) outcome" where
  "assemble_aggregate name cells =
     (case cells of
        CellsI64 vs \<Rightarrow> mapR (\<lambda>c. (field_new name I64 (None \<in> set vs), Numeric (NI64 c))) (assemble_optional vs)
      | CellsF64 vs \<Rightarrow> mapR (\<lambda>c. (field_new name F64 (None \<in> set vs), Numeric (NF64 c))) (assemble_optional vs))"

definition bucket_cell :: "nat \<Rightarrow> group_code list \<Rightarrow> ('e, i64) outcome" where
  "bucket_cell p key =
     bindR (element_at key p) (\<lambda>code. case code of BucketCode v \<Rightarrow> Ok v | LabelCode _ \<Rightarrow> Panic)"

definition label_cell :: "rstring list \<Rightarrow> nat \<Rightarrow> group_code list \<Rightarrow> ('e, rstring option) outcome" where
  "label_cell names p key =
     bindR (element_at key p) (\<lambda>code.
     case code of
       LabelCode (Some u) \<Rightarrow> mapR Some (element_at names u)
     | LabelCode None \<Rightarrow> Ok None
     | BucketCode _ \<Rightarrow> Panic)"

definition assemble_key_item ::
  "rstring \<Rightarrow> group_term \<Rightarrow> rstring list \<Rightarrow> nat \<Rightarrow> group_code list list \<Rightarrow> ('e, field \<times> column) outcome" where
  "assemble_key_item name term names p keys =
     (if term_column_type term = I64 then
        mapR (\<lambda>vs. (field_new name I64 False, Numeric (NI64 (nc_new_non_null vs)))) (traverseR (bucket_cell p) keys)
      else
        bindR (traverseR (label_cell names p) keys) (\<lambda>labels.
        mapR (\<lambda>c. (field_new name Key (None \<in> set labels), c)) (gather_keys Ok labels)))"

fun assemble_items ::
  "group_key list \<Rightarrow> group_term list \<Rightarrow> rstring list list \<Rightarrow> group_sink \<Rightarrow> agg_item list \<Rightarrow> nat \<Rightarrow>
   ('e, (field \<times> column) list) outcome" where
  "assemble_items keys terms unified sink [] next_call = Ok []"
| "assemble_items keys terms unified sink (KeyItem key alias # items) next_call =
     (case position (\<lambda>k. k = key) keys of
        None \<Rightarrow> Panic
      | Some p \<Rightarrow>
          bindR (assemble_key_item (case alias of Some a \<Rightarrow> a | None \<Rightarrow> key_output_name key) (terms ! p) (unified ! p) p
            (gs_keys sink)) (\<lambda>out.
          mapR (\<lambda>outs. out # outs) (assemble_items keys terms unified sink items next_call)))"
| "assemble_items keys terms unified sink (CallItem call # items) next_call =
     bindR (element_at (gs_cells sink) next_call) (\<lambda>cells.
     bindR (assemble_aggregate (case ac_alias call of Some a \<Rightarrow> a | None \<Rightarrow> agg_default_name (ac_function call)) cells) (\<lambda>out.
     mapR (\<lambda>outs. out # outs) (assemble_items keys terms unified sink items (next_call + 1))))"

definition agg_calls :: "agg_item list \<Rightarrow> agg_call list" where
  "agg_calls items = concat (map (\<lambda>item. case item of CallItem call \<Rightarrow> [call] | KeyItem _ _ \<Rightarrow> []) items)"

definition resolve_argument :: "schema \<Rightarrow> agg_call \<Rightarrow> (query_error, nat option \<times> column_type option) outcome" where
  "resolve_argument s call =
     (case ac_argument call of
        None \<Rightarrow> Ok (None, None)
      | Some name \<Rightarrow> mapR (\<lambda>(index, f). (Some index, Some (f_column_type f))) (resolve s name))"

definition project_aggregate ::
  "schema \<Rightarrow> segment_view list \<Rightarrow> nat option \<Rightarrow> group_key list \<Rightarrow> agg_item list \<Rightarrow> (query_error, query_output) outcome" where
  "project_aggregate s views ordering_key keys items =
     bindR (traverseR (\<lambda>key. resolve_group_key s key ordering_key) keys) (\<lambda>terms.
     bindR (traverseR (resolve_argument s) (agg_calls items)) (\<lambda>arguments.
     bindR (traverseR (\<lambda>(call, argument). accumulator_new call (snd argument)) (zip (agg_calls items) arguments)) (\<lambda>template.
     bindR (if list_ex is_bucket terms then
              (case ordering_key of
                 None \<Rightarrow> Ok False
               | Some index \<Rightarrow> mapR (\<lambda>problem. problem = None) (ordering_problem views index))
            else Ok False) (\<lambda>streaming.
     (let start = \<lparr>ag_unified = replicate (length keys) [], ag_open = (if keys = [] then [([], template)] else []),
            ag_bucket = None, ag_sink = sink_new template\<rparr>
      in bindR (foldR (agg_view terms template (map fst arguments) ordering_key streaming) start views) (\<lambda>run.
         (let sink = ag_sink (close_open run)
          in bindR (assemble_items keys terms (ag_unified run) sink items 0) (\<lambda>outs.
             (let s' = \<lparr>s_fields = map fst outs\<rparr>
              in if gs_keys sink = [] then Ok \<lparr>qo_schema = s', qo_batches = []\<rparr>
                 else mapR (\<lambda>b. \<lparr>qo_schema = s', qo_batches = [b]\<rparr>) (record_batch_new s' (map snd outs)))))))))))"

end
