(* ===== verification/Grouped.thy ===== *)
theory Grouped
  imports Aggregate
begin

text \<open>
  What aggregation computes.  A call's value is stated on the cells of its group's rows: a
  count, an exact sum, the least or the greatest cell, the cell of the earliest or the latest
  row on the time axis.  A group is the rows that agree on the values of the terms, in the
  order of their first rows.  Both paths of the grouped projection are shown to compute that.
\<close>

section \<open>The value of a call\<close>

type_synonym agg_event = "cell_number \<times> i64"

fun cell_row :: "cell_number \<Rightarrow> row_value" where
  "cell_row (CellF64 x) = RvF64 x"
| "cell_row (CellI64 v) = RvI64 v"

fun cell_int :: "cell_number \<Rightarrow> int" where
  "cell_int (CellI64 v) = sint v"
| "cell_int (CellF64 _) = 0"

fun cell_rank :: "cell_number \<Rightarrow> int" where
  "cell_rank (CellF64 x) = f64_rank x"
| "cell_rank (CellI64 v) = sint v"

definition float_total :: "agg_event list \<Rightarrow> f64" where
  "float_total xs = foldl f64_add 0 (map (\<lambda>x. cell_as_f64 (fst x)) xs)"

definition int_total :: "agg_event list \<Rightarrow> int" where
  "int_total xs = sum_list (map (\<lambda>x. cell_int (fst x)) xs)"

text \<open>The event a call picks: the least or greatest cell, the earliest or the latest row; among
  equals the first, but for LAST the last.\<close>

definition picked_event :: "agg_function \<Rightarrow> agg_event list \<Rightarrow> agg_event" where
  "picked_event f xs =
     (case f of
        MinAgg \<Rightarrow> hd (sort_key (\<lambda>x. cell_rank (fst x)) xs)
      | MaxAgg \<Rightarrow> hd (sort_key (\<lambda>x. - cell_rank (fst x)) xs)
      | FirstAgg \<Rightarrow> hd (sort_key (\<lambda>x. sint (snd x)) xs)
      | _ \<Rightarrow> last (sort_key (\<lambda>x. sint (snd x)) xs))"

text \<open>The value of a call over a group of \<open>n\<close> rows whose cells that are not null are \<open>xs\<close>.\<close>

definition agg_value :: "agg_function \<Rightarrow> column_type option \<Rightarrow> nat \<Rightarrow> agg_event list \<Rightarrow> row_value" where
  "agg_value f ct n xs =
     (if f = CountAgg then RvI64 (word_of_nat (if ct = None then n else length xs))
      else if xs = [] then RvNull
      else case f of
             SumAgg \<Rightarrow> if ct = Some I64 then RvI64 (word_of_int (int_total xs)) else RvF64 (float_total xs)
           | AvgAgg \<Rightarrow> RvF64 (f64_div (float_total xs) (f64_of_i64 (word_of_nat (length xs))))
           | _ \<Rightarrow> cell_row (fst (picked_event f xs)))"

text \<open>An integer sum that leaves the range at some row, in the order of the rows.\<close>

definition sum_overflows :: "agg_function \<Rightarrow> column_type option \<Rightarrow> agg_event list \<Rightarrow> bool" where
  "sum_overflows f ct xs \<longleftrightarrow> f = SumAgg \<and> ct = Some I64 \<and>
     (\<exists>n\<le>length xs. \<not> (- (2 ^ 63) \<le> int_total (take n xs) \<and> int_total (take n xs) < 2 ^ 63))"

section \<open>The accumulators compute it\<close>

definition acc_at :: "agg_function \<Rightarrow> column_type option \<Rightarrow> nat \<Rightarrow> agg_event list \<Rightarrow> accumulator" where
  "acc_at f ct n xs =
     (let seen = (xs \<noteq> []); e = picked_event f xs;
          v = (if seen then cell_as_f64 (fst e) else 0);
          i = (if seen then word_of_int (cell_int (fst e)) else 0);
          t = (if seen then snd e else 0)
      in case f of
           CountAgg \<Rightarrow> if ct = None then CountStar (word_of_nat n) else CountColumn (word_of_nat (length xs))
         | SumAgg \<Rightarrow> if ct = Some I64 then SumI64 (word_of_int (int_total xs)) seen else SumF64 (float_total xs) seen
         | AvgAgg \<Rightarrow> AvgAcc (float_total xs) (word_of_nat (length xs))
         | MinAgg \<Rightarrow> if ct = Some I64 then MinMaxI64 i seen False else MinMaxF64 v seen False
         | MaxAgg \<Rightarrow> if ct = Some I64 then MinMaxI64 i seen True else MinMaxF64 v seen True
         | FirstAgg \<Rightarrow> if ct = Some I64 then FirstLastI64 t i seen False else FirstLastF64 t v seen False
         | LastAgg \<Rightarrow> if ct = Some I64 then FirstLastI64 t i seen True else FirstLastF64 t v seen True)"

fun cell_typed :: "column_type option \<Rightarrow> cell_number \<Rightarrow> bool" where
  "cell_typed (Some F64) (CellF64 _) \<longleftrightarrow> True"
| "cell_typed (Some I64) (CellI64 _) \<longleftrightarrow> True"
| "cell_typed _ _ \<longleftrightarrow> False"

definition call_typed :: "agg_function \<Rightarrow> column_type option \<Rightarrow> bool" where
  "call_typed f ct \<longleftrightarrow> ct = Some F64 \<or> ct = Some I64 \<or> f = CountAgg \<and> ct = None"

lemma hd_insort: "hd (insort_key k x xs) = (if xs = [] \<or> k x \<le> k (hd xs) then x else hd xs)"
  by (cases xs) auto

lemma last_insort:
  "sorted (map k xs) \<Longrightarrow> last (insort_key k x xs) = (if xs = [] \<or> k (last xs) < k x then x else last xs)"
proof (induction xs)
  case (Cons y ys)
  then show ?case by (cases ys) (auto dest: last_in_set)
qed simp

lemma hd_sort_snoc:
  "hd (sort_key k (xs @ [x])) = (if xs = [] \<or> k x < k (hd (sort_key k xs)) then x else hd (sort_key k xs))"
proof (induction xs)
  case (Cons y ys)
  have "sort_key k (ys @ [x]) \<noteq> []" by (simp flip: set_empty)
  moreover have "sort_key k ys = [] \<longleftrightarrow> ys = []" by (simp flip: set_empty)
  ultimately show ?case using Cons by (auto simp: hd_insort)
qed simp

lemma last_sort_snoc:
  "last (sort_key k (xs @ [x])) = (if xs = [] \<or> k (last (sort_key k xs)) \<le> k x then x else last (sort_key k xs))"
proof (induction xs)
  case (Cons y ys)
  have "sort_key k (ys @ [x]) \<noteq> []" by (simp flip: set_empty)
  moreover have "sort_key k ys = [] \<longleftrightarrow> ys = []" by (simp flip: set_empty)
  ultimately show ?case using Cons by (auto simp: last_insort)
qed simp

lemma sort_key_ends: "xs \<noteq> [] \<Longrightarrow> hd (sort_key k xs) \<in> set xs" "xs \<noteq> [] \<Longrightarrow> last (sort_key k xs) \<in> set xs"
  by (metis hd_in_set set_empty set_sort) (metis last_in_set set_empty set_sort)

lemma picked_in: "xs \<noteq> [] \<Longrightarrow> picked_event f xs \<in> set xs"
  by (cases f) (simp_all add: picked_event_def sort_key_ends)

lemma float_total_snoc [simp]: "float_total (xs @ [x]) = f64_add (float_total xs) (cell_as_f64 (fst x))"
  by (simp add: float_total_def)

lemma int_total_snoc [simp]: "int_total (xs @ [x]) = int_total xs + cell_int (fst x)"
  by (simp add: int_total_def)

lemma float_total_single [simp]: "float_total [x] = f64_add (float_total []) (cell_as_f64 (fst x))"
  by (simp add: float_total_def)

lemma int_total_single [simp]: "int_total [x] = cell_int (fst x)"
  by (simp add: int_total_def)

lemma picked_single [simp]: "picked_event f [x] = x"
  by (cases f) (simp_all add: picked_event_def)

lemma sint_of_int: "- (2 ^ 63) \<le> n \<Longrightarrow> n < 2 ^ 63 \<Longrightarrow> sint (word_of_int n :: i64) = n"
  by (simp add: sint_sbintrunc' signed_take_bit_int_eq_self)

lemma acc_new: "call_typed (ac_function call) ct \<Longrightarrow> accumulator_new call ct = Ok (acc_at (ac_function call) ct 0 [])"
  by (cases "ac_function call") (auto simp: call_typed_def accumulator_new_def acc_at_def float_total_def int_total_def)

lemma picked_snoc:
  "picked_event MinAgg (xs @ [x]) =
     (if xs = [] \<or> cell_rank (fst x) < cell_rank (fst (picked_event MinAgg xs)) then x else picked_event MinAgg xs)"
  "picked_event MaxAgg (xs @ [x]) =
     (if xs = [] \<or> cell_rank (fst (picked_event MaxAgg xs)) < cell_rank (fst x) then x else picked_event MaxAgg xs)"
  "picked_event FirstAgg (xs @ [x]) =
     (if xs = [] \<or> sint (snd x) < sint (snd (picked_event FirstAgg xs)) then x else picked_event FirstAgg xs)"
  "picked_event LastAgg (xs @ [x]) =
     (if xs = [] \<or> sint (snd (picked_event LastAgg xs)) \<le> sint (snd x) then x else picked_event LastAgg xs)"
  by (simp_all add: picked_event_def hd_sort_snoc last_sort_snoc)

lemma events_typed_picked:
  assumes "\<forall>x\<in>set xs. cell_typed ct (fst x)" "xs \<noteq> []"
  shows "cell_typed ct (fst (picked_event f xs))"
  using assms picked_in by blast

lemma cell_typedE:
  assumes "cell_typed ct c"
  obtains x where "ct = Some F64" "c = CellF64 x" | v where "ct = Some I64" "c = CellI64 v"
  using assms by (cases "(ct, c)" rule: cell_typed.cases) auto

lemma sum_overflows_snoc:
  "sum_overflows f ct (xs @ [x]) \<longleftrightarrow> sum_overflows f ct xs \<or>
     f = SumAgg \<and> ct = Some I64 \<and> \<not> (- (2 ^ 63) \<le> int_total xs + cell_int (fst x) \<and> int_total xs + cell_int (fst x) < 2 ^ 63)"
proof -
  have "(\<exists>n\<le>length (xs @ [x]). P (take n (xs @ [x]))) \<longleftrightarrow> (\<exists>n\<le>length xs. P (take n xs)) \<or> P (xs @ [x])" for P
  proof -
    have "take n (xs @ [x]) = take n xs" if "n \<le> length xs" for n using that by simp
    moreover have "take (Suc (length xs)) (xs @ [x]) = xs @ [x]" by simp
    ultimately show ?thesis unfolding length_append_singleton le_Suc_eq by auto
  qed
  from this [of "\<lambda>ys. \<not> (- (2 ^ 63) \<le> int_total ys \<and> int_total ys < 2 ^ 63)"] show ?thesis by (auto simp: sum_overflows_def)
qed

lemma sint_int_total:
  "\<not> sum_overflows SumAgg (Some I64) xs \<Longrightarrow> sint (word_of_int (int_total xs) :: i64) = int_total xs"
  by (rule sint_of_int) (auto simp: sum_overflows_def dest!: spec [of _ "length xs"])

text \<open>One more row: the accumulator is the one at the longer list, or the sum overflows.\<close>

lemma acc_update_null: "accumulator_update (acc_at f ct n xs) None clock = Ok (acc_at f ct (n + 1) xs)"
  by (cases f) (auto simp: acc_at_def Let_def)

lemma acc_update_count:
  assumes "ct \<noteq> None"
  shows "accumulator_update (acc_at CountAgg ct n xs) (Some c) clock = Ok (acc_at CountAgg ct (n + 1) (xs @ [(c, clock)]))"
  using assms by (simp add: acc_at_def Let_def)

lemma acc_update_float:
  assumes "\<forall>x\<in>set xs. cell_typed (Some F64) (fst x)" "f \<noteq> CountAgg"
  shows "accumulator_update (acc_at f (Some F64) n xs) (Some (CellF64 y)) clock =
    Ok (acc_at f (Some F64) (n + 1) (xs @ [(CellF64 y, clock)]))"
proof -
  have e: "\<exists>x t. picked_event f xs = (CellF64 x, t)" if "xs \<noteq> []"
    using events_typed_picked [OF assms(1) that, of f] by (cases "picked_event f xs") (auto elim: cell_typedE)
  show ?thesis
    using assms(2) e
    by (cases f; cases "xs = []")
      (auto simp: acc_at_def Let_def picked_snoc first_last_replaces_def cmp_f64_rank ordering_of_def)
qed

lemma acc_update_int:
  assumes "\<forall>x\<in>set xs. cell_typed (Some I64) (fst x)" "f \<noteq> CountAgg" "\<not> sum_overflows f (Some I64) xs"
  shows "accumulator_update (acc_at f (Some I64) n xs) (Some (CellI64 y)) clock =
    (if sum_overflows f (Some I64) (xs @ [(CellI64 y, clock)]) then Err SUM_OVERFLOW
     else Ok (acc_at f (Some I64) (n + 1) (xs @ [(CellI64 y, clock)])))"
proof -
  have e: "\<exists>v t. picked_event f xs = (CellI64 v, t)" if "xs \<noteq> []"
    using events_typed_picked [OF assms(1) that, of f] by (cases "picked_event f xs") (auto elim: cell_typedE)
  show ?thesis
  proof (cases "f = SumAgg")
    case True
    then show ?thesis
      using assms(3) sint_int_total [of xs]
      by (auto simp: acc_at_def Let_def sum_overflows_snoc checked_add_def)
  next
    case False
    then have "\<not> sum_overflows f (Some I64) (xs @ [(CellI64 y, clock)])" by (simp add: sum_overflows_def)
    then show ?thesis
      using assms(2) e False
      by (cases f; cases "xs = []") (auto simp: acc_at_def Let_def picked_snoc first_last_replaces_def)
  qed
qed

lemma acc_update_cell:
  assumes "\<forall>x\<in>set xs. cell_typed ct (fst x)" "cell_typed ct c" "\<not> sum_overflows f ct xs"
  shows "accumulator_update (acc_at f ct n xs) (Some c) clock =
    (if sum_overflows f ct (xs @ [(c, clock)]) then Err SUM_OVERFLOW else Ok (acc_at f ct (n + 1) (xs @ [(c, clock)])))"
proof (cases "f = CountAgg")
  case True
  moreover have "ct \<noteq> None" using assms(2) by (auto elim: cell_typedE)
  ultimately show ?thesis using acc_update_count [of ct n xs c clock] by (simp add: sum_overflows_def)
next
  case False
  from assms(2) show ?thesis
  proof (cases rule: cell_typedE)
    case (1 x)
    then show ?thesis using acc_update_float [of xs f n x clock] assms(1) False by (simp add: sum_overflows_def)
  next
    case (2 v)
    then show ?thesis using acc_update_int [of xs f n v clock] assms(1,3) False by simp
  qed
qed

definition acc_value :: "accumulator \<Rightarrow> row_value" where
  "acc_value acc =
     (if accumulator_type acc = I64 then (case i64_value acc of Some v \<Rightarrow> RvI64 v | None \<Rightarrow> RvNull)
      else (case f64_value acc of Some x \<Rightarrow> RvF64 x | None \<Rightarrow> RvNull))"

lemma acc_value_at:
  assumes "call_typed f ct" "\<forall>x\<in>set xs. cell_typed ct (fst x)" "length xs < 2 ^ 63"
  shows "acc_value (acc_at f ct n xs) = agg_value f ct n xs"
proof -
  have e: "cell_typed ct (fst (picked_event f xs))" if "xs \<noteq> []" using events_typed_picked [OF assms(2) that] .
  have count: "0 < sint (word_of_nat (length xs) :: i64)" if "xs \<noteq> []"
  proof -
    have "sint (word_of_nat (length xs) :: i64) = int (length xs)"
      using assms(3) sint_of_int [of "int (length xs)"] by simp
    then show ?thesis using that by simp
  qed
  from assms(1) show ?thesis
    unfolding call_typed_def
  proof (elim disjE conjE)
    assume ct: "ct = Some F64"
    then have "\<exists>x. fst (picked_event f xs) = CellF64 x" if "xs \<noteq> []" using e [OF that] by (auto elim: cell_typedE)
    then show ?thesis using ct count by (cases f; cases "xs = []") (auto simp: acc_value_def acc_at_def Let_def agg_value_def)
  next
    assume ct: "ct = Some I64"
    then have "\<exists>v. fst (picked_event f xs) = CellI64 v" if "xs \<noteq> []" using e [OF that] by (auto elim: cell_typedE)
    then show ?thesis using ct count by (cases f; cases "xs = []") (auto simp: acc_value_def acc_at_def Let_def agg_value_def)
  qed (simp add: acc_value_def acc_at_def agg_value_def)
qed

end
