(* ===== verification/Buckets.thy ===== *)
theory Buckets
  imports Grouped
begin

text \<open>
  Grouping rows by a key, abstractly: the groups in the order of their first rows; the state
  of a pass that closes groups whenever a row's bucket differs from the last one's; and that
  over buckets which do not come back the pass ends with the same groups in the same order as
  one that keeps every group open.
\<close>

section \<open>Groups\<close>

definition groups_of :: "('r \<Rightarrow> 'k) \<Rightarrow> 'r list \<Rightarrow> ('k \<times> 'r list) list" where
  "groups_of key rows = map (\<lambda>k. (k, filter (\<lambda>r. key r = k) rows)) (map key (firsts key {} rows))"

definition enter :: "'k \<Rightarrow> 'r \<Rightarrow> ('k \<times> 'r list) list \<Rightarrow> ('k \<times> 'r list) list" where
  "enter k r groups =
     (case position (\<lambda>g. fst g = k) groups of
        Some i \<Rightarrow> groups[i := (k, snd (groups ! i) @ [r])]
      | None \<Rightarrow> groups @ [(k, [r])])"

lemma firsts_keys: "key ` set (firsts key seen xs) = key ` set xs - seen" "distinct (map key (firsts key seen xs))"
proof (induction xs arbitrary: seen)
  case (Cons x xs)
  {
    case 1
    show ?case using Cons(1) by auto
  next
    case 2
    have "key x \<notin> set (map key (firsts key (insert (key x) seen) xs))" using Cons(1) [of "insert (key x) seen"] by auto
    then show ?case using Cons(2) by simp
  }
qed simp_all

lemma fst_groups_of: "map fst (groups_of key rows) = map key (firsts key {} rows)"
  by (simp add: groups_of_def comp_def)

lemma groups_of_keys: "distinct (map fst (groups_of key rows))" "fst ` set (groups_of key rows) = key ` set rows"
proof -
  show "distinct (map fst (groups_of key rows))" by (simp add: fst_groups_of firsts_keys)
  have "fst ` set (groups_of key rows) = set (map key (firsts key {} rows))" by (metis fst_groups_of set_map)
  then show "fst ` set (groups_of key rows) = key ` set rows" by (simp add: firsts_keys)
qed

lemma groups_of_member: "(k, rs) \<in> set (groups_of key rows) \<Longrightarrow> rs = filter (\<lambda>r. key r = k) rows \<and> k \<in> key ` set rows"
  using firsts_keys(1) [of key "{}" rows] by (auto simp: groups_of_def)

lemma groups_enter: "groups_of key (rows @ [r]) = enter (key r) r (groups_of key rows)"
proof (cases "key r \<in> key ` set rows")
  case False
  then have "position (\<lambda>g. fst g = key r) (groups_of key rows) = None"
    using groups_of_keys(2) [of key rows] by (force simp: position_None)
  moreover have "filter (\<lambda>x. key x = key r) rows = []" by (rule filter_False) (metis False image_eqI)
  moreover have "map (\<lambda>k. (k, filter (\<lambda>x. key x = k) (rows @ [r]))) (map key (firsts key {} rows)) = groups_of key rows"
    unfolding groups_of_def map_map comp_def
    using False set_firsts [of key "{}" rows] by (auto intro!: map_cong simp del: map_map)
  ultimately show ?thesis using False by (simp add: enter_def groups_of_def firsts_snoc)
next
  case True
  let ?gs = "groups_of key rows"
  obtain i where i: "position (\<lambda>g. fst g = key r) ?gs = Some i"
    using True groups_of_keys(2) [of key rows] position_None [of "\<lambda>g. fst g = key r" ?gs] by (cases "position (\<lambda>g. fst g = key r) ?gs") force+
  then have at: "i < length ?gs" "fst (?gs ! i) = key r" using position_Some by fastforce+
  have new: "groups_of key (rows @ [r]) = map (\<lambda>(k, rs). if k = key r then (k, rs @ [r]) else (k, rs)) ?gs"
    using True by (auto simp: groups_of_def firsts_snoc)
  have "\<forall>j<length ?gs. fst (?gs ! j) = key r \<longleftrightarrow> j = i"
    using at groups_of_keys(1) [of key rows] by (metis length_map nth_eq_iff_index_eq nth_map)
  then show ?thesis
    unfolding new enter_def i
    by (auto intro!: nth_equalityI simp: nth_list_update split_def at)
qed

lemma groups_of_append:
  assumes "key ` set xs \<inter> key ` set ys = {}"
  shows "groups_of key (xs @ ys) = groups_of key xs @ groups_of key ys"
proof -
  have firsts: "firsts key seen (xs @ ys) = firsts key seen xs @ firsts key (seen \<union> key ` set xs) ys" for seen
    by (induction xs arbitrary: seen) (auto simp: insert_absorb)
  have same: "firsts key (A \<union> B) zs = firsts key A zs" if "key ` set zs \<inter> B = {}" for A B and zs :: "'b list"
    using that by (induction zs arbitrary: A) (auto simp flip: Un_insert_left)
  have "filter (\<lambda>r. key r = key x) ys = []" if "x \<in> set (firsts key {} xs)" for x
    using that set_firsts [of key "{}" xs] assms by (auto simp: filter_empty_conv)
  moreover have "filter (\<lambda>r. key r = key y) xs = []" if "y \<in> set (firsts key {} ys)" for y
    using that set_firsts [of key "{}" ys] assms by (force simp: filter_empty_conv)
  moreover have "firsts key (key ` set xs) ys = firsts key {} ys" using same [of ys "key ` set xs" "{}"] assms by auto
  ultimately show ?thesis by (simp add: groups_of_def firsts)
qed

section \<open>A pass that closes groups\<close>

text \<open>The closed groups, the open ones, the open bucket.\<close>

definition pass_row ::
  "('r \<Rightarrow> 'k) \<Rightarrow> ('r \<Rightarrow> 'b) \<Rightarrow> ('k \<times> 'r list) list \<times> ('k \<times> 'r list) list \<times> 'b option \<Rightarrow> 'r \<Rightarrow>
   ('k \<times> 'r list) list \<times> ('k \<times> 'r list) list \<times> 'b option" where
  "pass_row key bucket = (\<lambda>(closed, opened, last_bucket) r.
     if last_bucket \<noteq> Some (bucket r) then (closed @ opened, enter (key r) r [], Some (bucket r))
     else (closed, enter (key r) r opened, last_bucket))"

text \<open>Buckets that do not come back: a row whose bucket occurred before continues it.\<close>

definition contiguous_buckets :: "('r \<Rightarrow> 'b) \<Rightarrow> 'r list \<Rightarrow> bool" where
  "contiguous_buckets bucket rows \<longleftrightarrow>
     (\<forall>xs y z zs. rows = xs @ y # z # zs \<longrightarrow> bucket z \<in> bucket ` set xs \<longrightarrow> bucket y = bucket z)"

lemma contiguous_prefix: "contiguous_buckets bucket (rows @ [r]) \<Longrightarrow> contiguous_buckets bucket rows"
  unfolding contiguous_buckets_def by (metis append.assoc append_Cons)

lemma keys_apart:
  assumes "\<forall>r r'. key r = key r' \<longrightarrow> bucket r = bucket r'" "\<forall>y\<in>A. Some (bucket y) \<noteq> b" "\<forall>z\<in>B. Some (bucket z) = b"
  shows "key ` A \<inter> key ` B = {}"
proof -
  have "key y \<noteq> key z" if "y \<in> A" "z \<in> B" for y z
  proof
    assume "key y = key z"
    then have "bucket y = bucket z" using assms(1) by metis
    then show False using that assms(2,3) by metis
  qed
  then show ?thesis by blast
qed

lemma pass_invariant:
  assumes "contiguous_buckets bucket rows" "\<forall>r r'. key r = key r' \<longrightarrow> bucket r = bucket r'"
  shows "\<exists>ys zs b. rows = ys @ zs \<and> foldl (pass_row key bucket) ([], [], None) rows = (groups_of key ys, groups_of key zs, b) \<and>
    (\<forall>y\<in>set ys. Some (bucket y) \<noteq> b) \<and> (\<forall>z\<in>set zs. Some (bucket z) = b) \<and> (rows \<noteq> [] \<longrightarrow> zs \<noteq> [])"
  using assms(1)
proof (induction rows rule: rev_induct)
  case Nil
  then show ?case by (simp add: groups_of_def)
next
  case (snoc r rows)
  obtain ys zs b where IH: "rows = ys @ zs" "foldl (pass_row key bucket) ([], [], None) rows = (groups_of key ys, groups_of key zs, b)"
    "\<forall>y\<in>set ys. Some (bucket y) \<noteq> b" "\<forall>z\<in>set zs. Some (bucket z) = b" "rows \<noteq> [] \<longrightarrow> zs \<noteq> []"
    using snoc.IH contiguous_prefix [OF snoc.prems] by blast
  show ?case
  proof (cases "b = Some (bucket r)")
    case True
    then have "foldl (pass_row key bucket) ([], [], None) (rows @ [r]) = (groups_of key ys, groups_of key (zs @ [r]), b)"
      using IH(2) by (simp add: pass_row_def groups_enter)
    then show ?thesis
      using IH(1,3,4) True by (intro exI [of _ ys] exI [of _ "zs @ [r]"] exI [of _ b]) auto
  next
    case False
    have fresh: "bucket r \<notin> bucket ` set rows"
    proof (cases "rows = []")
      case nonempty: False
      then have "zs \<noteq> []" using IH(5) by simp
      then have last: "rows = butlast rows @ [last rows]" "last rows \<in> set zs" using append_butlast_last_id [OF nonempty] \<open>zs \<noteq> []\<close> IH(1) by simp_all
      then have "bucket (last rows) \<noteq> bucket r" using IH(4) False by auto
      moreover have "rows @ [r] = butlast rows @ last rows # r # []" using last(1) by (metis append.assoc append_Cons append_Nil)
      ultimately have before: "bucket r \<notin> bucket ` set (butlast rows)"
        using snoc.prems unfolding contiguous_buckets_def by metis
      have rows: "set rows = insert (last rows) (set (butlast rows))"
        using arg_cong [OF last(1), of set] unfolding set_append by simp
      show ?thesis unfolding rows using before \<open>bucket (last rows) \<noteq> bucket r\<close> by simp
    qed simp
    have "key ` set ys \<inter> key ` set zs = {}" by (rule keys_apart [OF assms(2) IH(3,4)])
    then have "groups_of key rows = groups_of key ys @ groups_of key zs" using IH(1) groups_of_append by blast
    moreover have "enter (key r) r [] = groups_of key [r]" by (simp add: enter_def groups_of_def)
    ultimately have closes: "foldl (pass_row key bucket) ([], [], None) (rows @ [r]) = (groups_of key rows, groups_of key [r], Some (bucket r))"
      using IH(2) False by (simp add: pass_row_def)
    show ?thesis
      by (rule exI [of _ rows], rule exI [of _ "[r]"], rule exI [of _ "Some (bucket r)"], intro conjI)
        (use closes fresh in \<open>auto simp: image_iff\<close>)
  qed
qed

lemma pass_groups:
  assumes "contiguous_buckets bucket rows" "\<forall>r r'. key r = key r' \<longrightarrow> bucket r = bucket r'"
    "foldl (pass_row key bucket) ([], [], None) rows = (closed, opened, b)"
  shows "closed @ opened = groups_of key rows"
proof -
  obtain ys zs b' where I: "rows = ys @ zs"
    "foldl (pass_row key bucket) ([], [], None) rows = (groups_of key ys, groups_of key zs, b')"
    "\<forall>y\<in>set ys. Some (bucket y) \<noteq> b'" "\<forall>z\<in>set zs. Some (bucket z) = b'"
    using pass_invariant [OF assms(1,2)] by (elim exE conjE) (rule that)
  have "rows = ys @ zs" "closed = groups_of key ys" "opened = groups_of key zs" using I(1,2) assms(3) by simp_all
  moreover have "key ` set ys \<inter> key ` set zs = {}" by (rule keys_apart [OF assms(2) I(3,4)])
  ultimately show ?thesis using groups_of_append by metis
qed

section \<open>Buckets of a sorted column\<close>

lemma trunc_div_mono:
  assumes "a \<le> b" "0 < w"
  shows "trunc_div a w \<le> trunc_div b w"
proof -
  have eq: "trunc_div x w = (if 0 \<le> x then x div w else - (- x div w))" for x
    using assms(2) by (auto simp: trunc_div_def sgn_if)
  have "- b div w \<le> - a div w" using assms by (intro zdiv_mono1) auto
  moreover have "0 \<le> b div w" if "0 \<le> b" using that assms(2) by (simp add: pos_imp_zdiv_nonneg_iff)
  moreover have "0 \<le> - a div w" if "a < 0" using that assms(2) by (simp add: pos_imp_zdiv_nonneg_iff)
  moreover have "a div w \<le> b div w" using assms by (intro zdiv_mono1) auto
  ultimately show ?thesis using assms(1) by (auto simp: eq)
qed

lemma contiguous_of_sorted:
  assumes "sorted (map clock rows)"
    and "\<And>r. r \<in> set rows \<Longrightarrow> bucket r = map (\<lambda>g. g (clock r)) gs"
    and "\<And>g x y. g \<in> set gs \<Longrightarrow> x \<in> clock ` set rows \<Longrightarrow> y \<in> clock ` set rows \<Longrightarrow> x \<le> y \<Longrightarrow> (g x :: 'v) = g y \<or> val (g x) < (val (g y) :: int)"
  shows "contiguous_buckets bucket rows"
  unfolding contiguous_buckets_def
proof (intro allI impI)
  fix xs y z zs
  assume rows: "rows = xs @ y # z # zs" and "bucket z \<in> bucket ` set xs"
  then obtain x where x: "x \<in> set xs" "bucket x = bucket z" by auto
  have order: "clock x \<le> clock y" "clock y \<le> clock z"
    using assms(1) x(1) unfolding rows by (auto simp: sorted_append)
  have in_rows: "x \<in> set rows" "y \<in> set rows" "z \<in> set rows" using rows x(1) by auto
  have "g (clock y) = g (clock z)" if "g \<in> set gs" for g
  proof -
    have "g (clock x) = g (clock z)"
      using x(2) in_rows assms(2) that by (metis (no_types, lifting) map_eq_conv)
    then show ?thesis
      using assms(3) [OF that _ _ order(1)] assms(3) [OF that _ _ order(2)] in_rows by auto
  qed
  then show "bucket y = bucket z" using in_rows assms(2) by simp
qed

end
