(* ===== verification/Aggregated.thy ===== *)
theory Aggregated
  imports Buckets
begin

text \<open>
  The grouped projection refines grouping: row by row, view by view, the codes stand for the
  values of the terms, the accumulators for the values of the calls, and the two paths for the
  passes of theory \<open>Buckets\<close>.
\<close>

section \<open>Rows and calls\<close>

fun cell_fits :: "column_type \<Rightarrow> row_value \<Rightarrow> bool" where
  "cell_fits _ RvNull \<longleftrightarrow> True"
| "cell_fits ct (RvF64 _) \<longleftrightarrow> ct = F64"
| "cell_fits ct (RvI64 _) \<longleftrightarrow> ct = I64"
| "cell_fits ct (RvKey _) \<longleftrightarrow> ct = Key"

definition row_typed :: "schema \<Rightarrow> row_value list \<Rightarrow> bool" where
  "row_typed s r \<longleftrightarrow> length r = length (s_fields s) \<and> (\<forall>i<length r. cell_fits (f_column_type (s_fields s ! i)) (r ! i))"

lemma column_cells_fit: "column_ok c \<Longrightarrow> cell \<in> set (column_cells c) \<Longrightarrow> cell_fits (col_type c) cell"
  by (cases c rule: column_cells.cases) (auto dest!: set_zip_leftD split: if_splits)

lemma cells_of_typed:
  assumes "sview_ok s view" "row < rb_num_rows (sg_batch (sv_segment view))"
  shows "row_typed s (cells_of (sv_segment view) ! row)"
proof -
  let ?b = "sg_batch (sv_segment view)"
  have b: "batch_ok ?b" "rb_schema ?b = s" using assms(1) by (simp_all add: sview_ok_def)
  have "length (cells_of (sv_segment view) ! row) = length (s_fields s)"
    using b assms(2) by (simp add: cells_of_def batch_ok_def)
  moreover have "cell_fits (f_column_type (s_fields s ! i)) (cells_of (sv_segment view) ! row ! i)" if "i < length (s_fields s)" for i
  proof -
    note C = batch_ok_column [OF b(1), of i, unfolded b(2), OF that]
    have "column_cells (rb_columns ?b ! i) ! row \<in> set (column_cells (rb_columns ?b ! i))"
      using C(2,4) assms(2) by simp
    then show ?thesis using column_cells_fit [OF C(2)] C(3) view_row_nth [OF assms that] by simp
  qed
  ultimately show ?thesis by (simp add: row_typed_def)
qed

type_synonym call_spec = "agg_function \<times> column_type option \<times> nat option"

definition call_fits :: "schema \<Rightarrow> call_spec \<Rightarrow> bool" where
  "call_fits s = (\<lambda>(f, ct, argument). call_typed f ct \<and>
     (case argument of None \<Rightarrow> ct = None | Some i \<Rightarrow> i < length (s_fields s) \<and> ct = Some (f_column_type (s_fields s ! i))))"

definition cell_of :: "nat option \<Rightarrow> row_value list \<Rightarrow> cell_number option" where
  "cell_of argument r =
     (case argument of
        None \<Rightarrow> None
      | Some i \<Rightarrow> (case r ! i of RvF64 x \<Rightarrow> Some (CellF64 x) | RvI64 v \<Rightarrow> Some (CellI64 v) | _ \<Rightarrow> None))"

definition events_of :: "nat \<Rightarrow> nat option \<Rightarrow> row_value list list \<Rightarrow> agg_event list" where
  "events_of key argument rows =
     concat (map (\<lambda>r. case cell_of argument r of Some c \<Rightarrow> [(c, row_key key r)] | None \<Rightarrow> []) rows)"

lemma events_of_simps [simp]:
  "events_of key argument [] = []"
  "events_of key argument (rows @ [r]) =
     events_of key argument rows @ (case cell_of argument r of Some c \<Rightarrow> [(c, row_key key r)] | None \<Rightarrow> [])"
  by (simp_all add: events_of_def)

lemma length_events: "length (events_of key argument rows) \<le> length rows"
  by (induction rows rule: rev_induct) (auto split: option.split)

lemma cell_of_typed:
  assumes "call_fits s (f, ct, argument)" "row_typed s r" "cell_of argument r = Some c"
  shows "cell_typed ct c"
proof -
  obtain i where i: "argument = Some i" "i < length (s_fields s)" "ct = Some (f_column_type (s_fields s ! i))"
    using assms(1,3) by (cases argument) (auto simp: call_fits_def cell_of_def)
  then have "cell_fits (f_column_type (s_fields s ! i)) (r ! i)" using assms(2) by (simp add: row_typed_def)
  then show ?thesis using assms(3) i by (cases "r ! i") (auto simp: cell_of_def)
qed

lemma events_typed:
  assumes "call_fits s (f, ct, argument)" "\<forall>r\<in>set rows. row_typed s r"
  shows "\<forall>x\<in>set (events_of key argument rows). cell_typed ct (fst x)"
  using assms(2)
proof (induction rows rule: rev_induct)
  case (snoc r rows)
  then show ?case using cell_of_typed [OF assms(1), of r] by (auto split: option.splits)
qed simp

lemma agg_cell_ok:
  assumes "sview_ok s view" "row < rb_num_rows (sg_batch (sv_segment view))" "call_fits s (f, ct, argument)"
  shows "agg_cell (rb_columns (sg_batch (sv_segment view))) argument row =
    Ok (cell_of argument (cells_of (sv_segment view) ! row))"
proof (cases argument)
  case (Some i)
  let ?b = "sg_batch (sv_segment view)"
  have b: "batch_ok ?b" "rb_schema ?b = s" using assms(1) by (simp_all add: sview_ok_def)
  have i: "i < length (s_fields s)" "call_typed f ct" "ct = Some (f_column_type (s_fields s ! i))"
    using assms(3) Some by (auto simp: call_fits_def)
  note C = batch_ok_column [OF b(1), of i, unfolded b(2), OF i(1)]
  have cell: "cells_of (sv_segment view) ! row ! i = column_cells (rb_columns ?b ! i) ! row"
    by (rule view_row_nth [OF assms(1,2) i(1)])
  show ?thesis
  proof (cases "rb_columns ?b ! i" rule: column_cells.cases)
    case (1 c)
    then have "row < nc_len c" "nc_is_valid c row = (Ok (presence (nc_len c) (nc_validity c) ! row) :: (query_error, _) outcome)"
      using C(2,4) assms(2) by (simp_all add: nc_is_valid_def validity_get_presence)
    then show ?thesis
      using 1 C(1,2) Some cell by (auto simp: agg_cell_def element_at_def cell_of_def nc_len_def)
  next
    case (2 c)
    then have "row < nc_len c" "nc_is_valid c row = (Ok (presence (nc_len c) (nc_validity c) ! row) :: (query_error, _) outcome)"
      using C(2,4) assms(2) by (simp_all add: nc_is_valid_def validity_get_presence)
    then show ?thesis
      using 2 C(1,2) Some cell by (auto simp: agg_cell_def element_at_def cell_of_def nc_len_def)
  next
    case (3 k)
    then show ?thesis using C(3) i(2,3) by (simp add: call_typed_def)
  qed
qed (simp add: agg_cell_def cell_of_def)

section \<open>One row\<close>

definition acc_of :: "nat \<Rightarrow> row_value list list \<Rightarrow> call_spec \<Rightarrow> accumulator" where
  "acc_of key rows = (\<lambda>(f, ct, argument). acc_at f ct (length rows) (events_of key argument rows))"

definition call_overflows :: "nat \<Rightarrow> row_value list list \<Rightarrow> call_spec \<Rightarrow> bool" where
  "call_overflows key rows = (\<lambda>(f, ct, argument). sum_overflows f ct (events_of key argument rows))"

lemma traverseR_outcome:
  assumes "\<And>x. x \<in> set xs \<Longrightarrow> f x = (if bad x then Err e else Ok (g x))"
  shows "traverseR f xs = (if \<exists>x\<in>set xs. bad x then Err e else Ok (map g xs))"
  using assms by (induction xs) auto

lemma update_call:
  assumes "call_fits s (f, ct, argument)" "\<forall>x\<in>set rows. row_typed s x" "row_typed s r"
    "\<not> call_overflows key rows (f, ct, argument)"
  shows "accumulator_update (acc_of key rows (f, ct, argument)) (cell_of argument r) (row_key key r) =
    (if call_overflows key (rows @ [r]) (f, ct, argument) then Err SUM_OVERFLOW
     else Ok (acc_of key (rows @ [r]) (f, ct, argument)))"
proof (cases "cell_of argument r")
  case None
  then show ?thesis using assms(4) by (simp add: acc_of_def call_overflows_def acc_update_null)
next
  case (Some c)
  have "cell_typed ct c" by (rule cell_of_typed [OF assms(1,3) Some])
  from acc_update_cell [OF events_typed [OF assms(1,2)] this] assms(4) Some
  show ?thesis by (simp add: acc_of_def call_overflows_def)
qed

lemma update_all_ok:
  assumes "sview_ok s view" "row < rb_num_rows (sg_batch (sv_segment view))" "\<forall>call\<in>set calls. call_fits s call"
    and "\<forall>x\<in>set rows. row_typed s x" "\<forall>call\<in>set calls. \<not> call_overflows key rows call"
  defines "r \<equiv> cells_of (sv_segment view) ! row"
  shows "update_all (rb_columns (sg_batch (sv_segment view))) (map (\<lambda>call. snd (snd call)) calls) (row_key key r) row
      (map (acc_of key rows) calls) =
    (if \<exists>call\<in>set calls. call_overflows key (rows @ [r]) call then Err SUM_OVERFLOW
     else Ok (map (acc_of key (rows @ [r])) calls))"
proof -
  have r: "row_typed s r" unfolding r_def by (rule cells_of_typed [OF assms(1,2)])
  have zip: "zip (map (\<lambda>call. snd (snd call)) calls) (map (acc_of key rows) calls) =
      map (\<lambda>call. (snd (snd call), acc_of key rows call)) calls"
    by (simp add: zip_map_map zip_same_conv_map)
  have traverse_map: "traverseR f (map g xs) = traverseR (\<lambda>x. f (g x)) xs"
    for f :: "'b \<Rightarrow> (query_error, accumulator) outcome" and g and xs :: "'c list"
    by (induction xs) simp_all
  show ?thesis
    unfolding update_all_def zip traverse_map
  proof (rule traverseR_outcome)
    fix call assume call: "call \<in> set calls"
    obtain f ct argument where c: "call = (f, ct, argument)" by (cases call)
    have fits: "call_fits s (f, ct, argument)" "\<not> call_overflows key rows (f, ct, argument)"
      using assms(3,5) call c by auto
    show "(case (snd (snd call), acc_of key rows call) of (argument, acc) \<Rightarrow>
        bindR (agg_cell (rb_columns (sg_batch (sv_segment view))) argument row) (\<lambda>cell. accumulator_update acc cell (row_key key r))) =
      (if call_overflows key (rows @ [r]) call then Err SUM_OVERFLOW else Ok (acc_of key (rows @ [r]) call))"
      using agg_cell_ok [OF assms(1,2) fits(1)] update_call [OF fits(1) assms(4) r fits(2)] c by (simp add: r_def)
  qed
qed

section \<open>The pass\<close>

definition group_shows ::
  "schema \<Rightarrow> nat \<Rightarrow> call_spec list \<Rightarrow> rstring list list \<Rightarrow> group_code list \<times> accumulator list \<Rightarrow>
   row_value list \<times> row_value list list \<Rightarrow> bool" where
  "group_shows s key calls unified g a \<longleftrightarrow>
     stand_for unified (fst g) (fst a) \<and> snd g = map (acc_of key (snd a)) calls \<and>
     (\<forall>call\<in>set calls. \<not> call_overflows key (snd a) call) \<and> (\<forall>r\<in>set (snd a). row_typed s r)"

lemma position_all2:
  assumes "list_all2 R xs ys" "\<And>x y. R x y \<Longrightarrow> P x = Q y"
  shows "position P xs = position Q ys"
  using assms by (induction rule: list_all2_induct) simp_all

definition row_terms :: "group_term list \<Rightarrow> row_value list \<Rightarrow> row_value list" where
  "row_terms terms r = map (\<lambda>term. term_value term r) terms"

lemma enter_shows:
  assumes "list_all2 (group_shows s key calls unified) groups opened" "unified_ok terms unified"
    and "stand_for unified codes k" "row_typed s r"
    and "\<And>rows. \<forall>x\<in>set rows. row_typed s x \<Longrightarrow> \<forall>call\<in>set calls. \<not> call_overflows key rows call \<Longrightarrow>
      update (map (acc_of key rows) calls) =
        (if \<exists>call\<in>set calls. call_overflows key (rows @ [r]) call then Err SUM_OVERFLOW
         else Ok (map (acc_of key (rows @ [r])) calls))"
    and "\<And>call. call \<in> set calls \<Longrightarrow> \<not> call_overflows key [] call"
  defines "result \<equiv> (case enter_group (map (acc_of key []) calls) codes groups of (groups, slot) \<Rightarrow>
      mapR (\<lambda>accs. groups[slot := (fst (groups ! slot), accs)]) (update (snd (groups ! slot))))"
  shows "if \<exists>a\<in>set (enter k r opened). \<exists>call\<in>set calls. call_overflows key (snd a) call then result = Err SUM_OVERFLOW
    else \<exists>groups'. result = Ok groups' \<and> list_all2 (group_shows s key calls unified) groups' (enter k r opened)"
proof -
  have len: "length groups = length opened" using assms(1) by (rule list_all2_lengthD)
  have at: "group_shows s key calls unified (groups ! i) (opened ! i)" if "i < length opened" for i
    using assms(1) that by (simp add: list_all2_conv_all_nth)
  have pos: "position (\<lambda>g. fst g = codes) groups = position (\<lambda>a. fst a = k) opened"
  proof (rule position_all2 [OF assms(1)])
    fix g a assume "group_shows s key calls unified g a"
    then show "fst g = codes \<longleftrightarrow> fst a = k"
      using stand_for_inject [OF assms(2) _ assms(3), of "fst g" "fst a"] by (simp add: group_shows_def)
  qed
  have quiet: "\<forall>a\<in>set opened. \<forall>call\<in>set calls. \<not> call_overflows key (snd a) call"
    using assms(1) by (induction rule: list_all2_induct) (auto simp: group_shows_def)
  show ?thesis
  proof (cases "position (\<lambda>a. fst a = k) opened")
    case None
    then have e: "enter k r opened = opened @ [(k, [r])]" "enter_group (map (acc_of key []) calls) codes groups =
        (groups @ [(codes, map (acc_of key []) calls)], length groups)"
      using pos by (simp_all add: enter_def enter_group_def)
    have "group_shows s key calls unified (codes, map (acc_of key [r]) calls) (k, [r])"
      if "\<forall>call\<in>set calls. \<not> call_overflows key [r] call"
      using that assms(3,4) by (simp add: group_shows_def)
    then show ?thesis
      unfolding e result_def using assms(5) [of "[]"] assms(6) quiet len assms(1)
      by (auto simp: nth_append list_update_append intro!: list_all2_appendI)
  next
    case (Some i)
    then have i: "i < length opened" "fst (opened ! i) = k" using position_Some [OF Some] by auto
    have e: "enter k r opened = opened[i := (k, snd (opened ! i) @ [r])]"
      "enter_group (map (acc_of key []) calls) codes groups = (groups, i)"
      using pos Some by (simp_all add: enter_def enter_group_def)
    note g = at [OF i(1), unfolded group_shows_def]
    have over: "(\<exists>a\<in>set (opened[i := (k, snd (opened ! i) @ [r])]). \<exists>call\<in>set calls. call_overflows key (snd a) call) \<longleftrightarrow>
        (\<exists>call\<in>set calls. call_overflows key (snd (opened ! i) @ [r]) call)"
      (is "(\<exists>a\<in>set ?new. ?bad a) \<longleftrightarrow> ?here")
    proof
      assume "\<exists>a\<in>set ?new. ?bad a"
      then obtain a where a: "a \<in> set ?new" "?bad a" by blast
      then have "a = (k, snd (opened ! i) @ [r]) \<or> a \<in> set opened" using set_update_subset_insert [of opened i] by blast
      then show ?here using a(2) quiet by auto
    next
      assume ?here
      moreover have "(k, snd (opened ! i) @ [r]) \<in> set ?new" by (rule set_update_memI [OF i(1)])
      ultimately show "\<exists>a\<in>set ?new. ?bad a" by (metis snd_conv)
    qed
    have one: "update (snd (groups ! i)) =
        (if \<exists>call\<in>set calls. call_overflows key (snd (opened ! i) @ [r]) call then Err SUM_OVERFLOW
         else Ok (map (acc_of key (snd (opened ! i) @ [r])) calls))"
      using assms(5) [of "snd (opened ! i)"] g by simp
    have "group_shows s key calls unified (fst (groups ! i), map (acc_of key (snd (opened ! i) @ [r])) calls) (k, snd (opened ! i) @ [r])"
      if "\<forall>call\<in>set calls. \<not> call_overflows key (snd (opened ! i) @ [r]) call"
      using that g i(2) assms(4) by (simp add: group_shows_def)
    then show ?thesis
      unfolding e over result_def using one i(1) len assms(1) by (auto intro!: list_all2_update_cong)
  qed
qed

type_synonym pass_state =
  "(row_value list \<times> row_value list list) list \<times> (row_value list \<times> row_value list list) list \<times> row_value list option"

definition row_bucket :: "group_term list \<Rightarrow> row_value list \<Rightarrow> row_value list" where
  "row_bucket terms r = bucket_codes terms (row_terms terms r)"

definition abs_row :: "group_term list \<Rightarrow> bool \<Rightarrow> pass_state \<Rightarrow> row_value list \<Rightarrow> pass_state" where
  "abs_row terms streaming = (\<lambda>(closed, opened, b) r.
     if streaming \<and> b \<noteq> Some (row_bucket terms r) then (closed @ opened, enter (row_terms terms r) r [], Some (row_bucket terms r))
     else (closed, enter (row_terms terms r) r opened, b))"

definition overflowing :: "nat \<Rightarrow> call_spec list \<Rightarrow> pass_state \<Rightarrow> bool" where
  "overflowing key calls = (\<lambda>(closed, opened, b).
     \<exists>a\<in>set closed \<union> set opened. \<exists>call\<in>set calls. call_overflows key (snd a) call)"

lemma call_overflows_more: "call_overflows key rows call \<Longrightarrow> call_overflows key (rows @ [r]) call"
  by (cases call) (auto simp: call_overflows_def sum_overflows_snoc split: option.split)

lemma enter_keeps: "a \<in> set opened \<Longrightarrow> a \<in> set (enter k r opened) \<or> (fst a, snd a @ [r]) \<in> set (enter k r opened)"
proof (cases "position (\<lambda>a. fst a = k) opened")
  case (Some i)
  assume "a \<in> set opened"
  then obtain j where j: "j < length opened" "a = opened ! j" by (auto simp: in_set_conv_nth)
  have i: "i < length opened" "fst (opened ! i) = k" using position_Some [OF Some] by auto
  have "enter k r opened ! j \<in> set (enter k r opened)" using j(1) Some by (simp add: enter_def)
  moreover have "enter k r opened ! j = (if j = i then (k, snd (opened ! i) @ [r]) else opened ! j)"
    using Some j(1) by (simp add: enter_def)
  ultimately show ?thesis using j i by (auto split: if_splits)
qed (auto simp: enter_def)

lemma overflowing_row: "overflowing key calls st \<Longrightarrow> overflowing key calls (abs_row terms streaming st r)"
proof -
  obtain closed opened b where st: "st = (closed, opened, b)" by (cases st)
  assume "overflowing key calls st"
  then obtain a call where a: "a \<in> set closed \<union> set opened" "call \<in> set calls" "call_overflows key (snd a) call"
    unfolding overflowing_def st prod.case by blast
  show ?thesis
  proof (cases "streaming \<and> b \<noteq> Some (row_bucket terms r)")
    case True
    then show ?thesis using a by (auto simp: overflowing_def abs_row_def st)
  next
    case False
    then have run: "abs_row terms streaming st r = (closed, enter (row_terms terms r) r opened, b)"
      unfolding st abs_row_def prod.case by (rule if_not_P)
    have "call_overflows key (snd a @ [r]) call" by (rule call_overflows_more [OF a(3)])
    then show ?thesis
      unfolding run overflowing_def prod.case
      using a enter_keeps [of a opened "row_terms terms r" r] by (metis UnCI UnE snd_conv)
  qed
qed

lemma overflowing_rows: "overflowing key calls st \<Longrightarrow> overflowing key calls (foldl (abs_row terms streaming) st rows)"
  by (induction rows arbitrary: st) (simp_all add: overflowing_row)

definition cells_col :: "nat \<Rightarrow> call_spec \<Rightarrow> accumulator list \<Rightarrow> agg_cells" where
  "cells_col key call accs =
     (if accumulator_type (acc_of key [] call) = I64 then CellsI64 (map i64_value accs) else CellsF64 (map f64_value accs))"

definition closed_shows ::
  "nat \<Rightarrow> call_spec list \<Rightarrow> rstring list list \<Rightarrow> group_sink \<Rightarrow> (row_value list \<times> row_value list list) list \<Rightarrow> bool" where
  "closed_shows key calls unified sink closed \<longleftrightarrow>
     list_all2 (\<lambda>codes a. stand_for unified codes (fst a)) (gs_keys sink) closed \<and>
     gs_cells sink = map (\<lambda>call. cells_col key call (map (\<lambda>a. acc_of key (snd a) call) closed)) calls \<and>
     (\<forall>a\<in>set closed. \<forall>call\<in>set calls. \<not> call_overflows key (snd a) call)"

lemma cells_col_push: "agg_cells_push (cells_col key call accs) acc = cells_col key call (accs @ [acc])"
  by (simp add: cells_col_def)

lemma sink_close_shows:
  assumes "closed_shows key calls unified sink closed" "group_shows s key calls unified g a"
  shows "closed_shows key calls unified (sink_close sink g) (closed @ [a])"
proof -
  obtain codes accs where g: "g = (codes, accs)" by (cases g)
  have "accs = map (acc_of key (snd a)) calls" using assms(2) g by (simp add: group_shows_def)
  then have "map2 agg_cells_push (gs_cells sink) accs @ drop (length accs) (gs_cells sink) =
      map (\<lambda>call. cells_col key call (map (\<lambda>a. acc_of key (snd a) call) (closed @ [a]))) calls"
    using assms(1) by (simp add: closed_shows_def zip_map_map zip_same_conv_map cells_col_push)
  then show ?thesis
    using assms g by (auto simp: closed_shows_def sink_close_def group_shows_def list_all2_appendI)
qed

lemma close_all_shows:
  "closed_shows key calls unified sink closed \<Longrightarrow> list_all2 (group_shows s key calls unified) groups opened \<Longrightarrow>
   closed_shows key calls unified (foldl sink_close sink groups) (closed @ opened)"
proof (induction groups arbitrary: sink closed opened)
  case (Cons g groups)
  then obtain a rest where o: "opened = a # rest" "group_shows s key calls unified g a"
    "list_all2 (group_shows s key calls unified) groups rest"
    by (auto simp: list_all2_Cons1)
  have "closed_shows key calls unified (sink_close sink g) (closed @ [a])"
    by (rule sink_close_shows [OF Cons.prems(1) o(2)])
  from Cons.IH [OF this o(3)] show ?case by (simp add: o(1))
qed simp

fun code_of :: "row_value \<Rightarrow> group_code" where
  "code_of (RvI64 b) = BucketCode b"
| "code_of _ = LabelCode None"

definition bucket_shows :: "group_code list option \<Rightarrow> row_value list option \<Rightarrow> bool" where
  "bucket_shows cb ab \<longleftrightarrow> cb = map_option (map code_of) ab \<and> (\<forall>bs. ab = Some bs \<longrightarrow> set bs \<subseteq> range RvI64)"

lemma bucket_codes_stand:
  assumes "stand_for unified codes (row_terms terms r)" "length unified = length terms"
  shows "bucket_codes terms codes = map code_of (row_bucket terms r)" "set (row_bucket terms r) \<subseteq> range RvI64"
  using assms
proof (induction terms arbitrary: unified codes)
  case (Cons t terms)
  {
    case 1
    obtain names rest c cs where u: "unified = names # rest" "codes = c # cs"
      using 1 by (cases unified; cases codes) (auto simp: stand_for_def row_terms_def)
    then have tail: "stand_for rest cs (row_terms terms r)" "length rest = length terms" "code_value names c = term_value t r"
      using 1 by (auto simp: stand_for_Cons row_terms_def)
    show ?case
      using Cons(1) [OF tail(1,2)] tail(3) u
      by (cases t; cases "(names, c)" rule: code_value.cases) (auto simp: bucket_codes_def row_bucket_def row_terms_def)
  next
    case 2
    obtain names rest c cs where u: "unified = names # rest" "codes = c # cs"
      using 2 by (cases unified; cases codes) (auto simp: stand_for_def row_terms_def)
    then have tail: "stand_for rest cs (row_terms terms r)" "length rest = length terms"
      using 2 by (auto simp: stand_for_Cons row_terms_def)
    show ?case
      using Cons(2) [OF tail] by (cases t) (auto simp: bucket_codes_def row_bucket_def row_terms_def)
  }
qed (auto simp: bucket_codes_def row_bucket_def row_terms_def)

lemma code_of_inject: "set bs \<subseteq> range RvI64 \<Longrightarrow> set bs' \<subseteq> range RvI64 \<Longrightarrow> map code_of bs = map code_of bs' \<longleftrightarrow> bs = bs'"
proof (induction bs arbitrary: bs')
  case (Cons v bs)
  then show ?case by (cases bs') auto
qed auto

definition run_shows ::
  "schema \<Rightarrow> nat \<Rightarrow> call_spec list \<Rightarrow> agg_run \<Rightarrow> pass_state \<Rightarrow> bool" where
  "run_shows s key calls run = (\<lambda>(closed, opened, b).
     list_all2 (group_shows s key calls (ag_unified run)) (ag_open run) opened \<and>
     bucket_shows (ag_bucket run) b \<and> closed_shows key calls (ag_unified run) (ag_sink run) closed)"

lemma leave_bucket_shows:
  assumes "run_shows s key calls run (closed, opened, b)" "length (ag_unified run) = length terms"
    "stand_for (ag_unified run) codes (row_terms terms r)"
  shows "run_shows s key calls (leave_bucket terms streaming codes run)
      (if streaming \<and> b \<noteq> Some (row_bucket terms r) then (closed @ opened, [], Some (row_bucket terms r)) else (closed, opened, b))"
    "ag_unified (leave_bucket terms streaming codes run) = ag_unified run"
proof -
  note codes = bucket_codes_stand [OF assms(3,2)]
  have "ag_bucket run = Some (bucket_codes terms codes) \<longleftrightarrow> b = Some (row_bucket terms r)"
    using assms(1) codes by (cases b) (auto simp: run_shows_def bucket_shows_def code_of_inject)
  moreover have "closed_shows key calls (ag_unified run) (foldl sink_close (ag_sink run) (ag_open run)) (closed @ opened)"
    by (rule close_all_shows [where s = s]) (use assms(1) in \<open>auto simp: run_shows_def\<close>)
  ultimately show "run_shows s key calls (leave_bucket terms streaming codes run)
      (if streaming \<and> b \<noteq> Some (row_bucket terms r) then (closed @ opened, [], Some (row_bucket terms r)) else (closed, opened, b))"
    using assms(1) codes by (auto simp: run_shows_def leave_bucket_def Let_def close_open_def bucket_shows_def)
  show "ag_unified (leave_bucket terms streaming codes run) = ag_unified run"
    by (simp add: leave_bucket_def Let_def close_open_def)
qed

lemma no_overflow_empty: "\<not> call_overflows key [] call"
  by (cases call) (simp add: call_overflows_def sum_overflows_def int_total_def)

lemma agg_row_shows:
  fixes streaming :: bool
  assumes "run_shows s key calls run st" "unified_ok terms (ag_unified run)"
    and "sview_ok s view" "row < rb_num_rows (sg_batch (sv_segment view))" "\<forall>call\<in>set calls. call_fits s call"
    and "row_codes terms (rb_columns (sg_batch (sv_segment view))) remaps row =
      (Ok codes :: (query_error, _) outcome)"
    and "stand_for (ag_unified run) codes (row_terms terms (cells_of (sv_segment view) ! row))"
    and "row < length vs" "vs ! row = row_key key (cells_of (sv_segment view) ! row)"
  defines "st' \<equiv> abs_row terms streaming st (cells_of (sv_segment view) ! row)"
    and "result \<equiv> agg_row terms (map (acc_of key []) calls) (map (\<lambda>call. snd (snd call)) calls) streaming
      (rb_columns (sg_batch (sv_segment view))) remaps (Some vs) run row"
  shows "if overflowing key calls st' then result = Err SUM_OVERFLOW
    else \<exists>run'. result = Ok run' \<and> run_shows s key calls run' st' \<and> ag_unified run' = ag_unified run"
proof -
  let ?r = "cells_of (sv_segment view) ! row" and ?template = "map (acc_of key []) calls"
  let ?columns = "rb_columns (sg_batch (sv_segment view))"
  obtain closed0 opened0 b0 where st: "st = (closed0, opened0, b0)" by (cases st)
  obtain closed opened b where before: "(if streaming \<and> b0 \<noteq> Some (row_bucket terms ?r)
      then (closed0 @ opened0, [], Some (row_bucket terms ?r)) else (closed0, opened0, b0)) = (closed, opened, b)"
    by (metis prod_cases3)
  define run1 where "run1 = leave_bucket terms streaming codes run"
  have run1: "run_shows s key calls run1 (closed, opened, b)" "ag_unified run1 = ag_unified run"
    using leave_bucket_shows [OF assms(1) [unfolded st] _ assms(7), of streaming] assms(2) before
    by (simp_all add: run1_def unified_ok_def)
  have st': "st' = (closed, enter (row_terms terms ?r) ?r opened, b)"
    using before by (cases "streaming \<and> b0 \<noteq> Some (row_bucket terms ?r)") (auto simp: st'_def abs_row_def st)
  have typed: "row_typed s ?r" by (rule cells_of_typed [OF assms(3,4)])
  have opened: "list_all2 (group_shows s key calls (ag_unified run)) (ag_open run1) opened"
    and quiet: "\<forall>a\<in>set closed. \<forall>call\<in>set calls. \<not> call_overflows key (snd a) call"
    using run1 by (auto simp: run_shows_def closed_shows_def)
  define update where "update = update_all ?columns (map (\<lambda>call. snd (snd call)) calls) (row_key key ?r) row"
  have over: "overflowing key calls st' \<longleftrightarrow>
      (\<exists>a\<in>set (enter (row_terms terms ?r) ?r opened). \<exists>call\<in>set calls. call_overflows key (snd a) call)"
    unfolding overflowing_def st' prod.case using quiet by blast
  have one: "update (map (acc_of key rows) calls) =
      (if \<exists>call\<in>set calls. call_overflows key (rows @ [?r]) call then Err SUM_OVERFLOW
       else Ok (map (acc_of key (rows @ [?r])) calls))"
    if "\<forall>x\<in>set rows. row_typed s x" "\<forall>call\<in>set calls. \<not> call_overflows key rows call" for rows
    unfolding update_def by (rule update_all_ok [OF assms(3,4,5) that])
  define entered where "entered = (case enter_group ?template codes (ag_open run1) of (groups, slot) \<Rightarrow>
      mapR (\<lambda>accs. groups[slot := (fst (groups ! slot), accs)]) (update (snd (groups ! slot))))"
  have step: "if overflowing key calls st' then entered = Err SUM_OVERFLOW
    else \<exists>groups'. entered = Ok groups' \<and>
      list_all2 (group_shows s key calls (ag_unified run)) groups' (enter (row_terms terms ?r) ?r opened)"
    unfolding over entered_def by (rule enter_shows [OF opened assms(2,7) typed one no_overflow_empty])
  have "result = mapR (\<lambda>groups. run1\<lparr>ag_open := groups\<rparr>) entered"
  proof -
    obtain groups slot where g: "enter_group ?template codes (ag_open run1) = (groups, slot)" by fastforce
    have "element_at vs row = (Ok (row_key key ?r) :: (query_error, _) outcome)" using assms(8,9) by (simp add: element_at_def)
    then show ?thesis
      using assms(6) g by (cases "update (snd (groups ! slot))")
        (simp_all add: result_def agg_row_def Let_def run1_def [symmetric] entered_def update_def)
  qed
  then show ?thesis
    using step run1 by (auto simp: run_shows_def st' split: if_splits)
qed

lemma run_shows_extends:
  assumes "run_shows s key calls run st" "extends (ag_unified run) unified"
  shows "run_shows s key calls (run\<lparr>ag_unified := unified\<rparr>) st"
proof -
  obtain closed opened b where st: "st = (closed, opened, b)" by (cases st)
  have "list_all2 (group_shows s key calls unified) (ag_open run) opened"
    by (rule list_all2_mono [of "group_shows s key calls (ag_unified run)"])
      (use assms stand_for_extends [OF _ assms(2)] in \<open>auto simp: run_shows_def st group_shows_def\<close>)
  moreover have "list_all2 (\<lambda>codes a. stand_for unified codes (fst a)) (gs_keys (ag_sink run)) closed"
    by (rule list_all2_mono [of "\<lambda>codes a. stand_for (ag_unified run) codes (fst a)"])
      (use assms stand_for_extends [OF _ assms(2)] in \<open>auto simp: run_shows_def st closed_shows_def\<close>)
  ultimately show ?thesis using assms(1) by (simp add: run_shows_def st closed_shows_def)
qed

lemma agg_rows_shows:
  fixes streaming :: bool
  assumes "run_shows s key calls run st" "unified_ok terms (ag_unified run)" "\<not> overflowing key calls st"
    and "sview_ok s view" "\<forall>row\<in>set rows. row < rb_num_rows (sg_batch (sv_segment view))" "\<forall>call\<in>set calls. call_fits s call"
    and "\<forall>row<rb_num_rows (sg_batch (sv_segment view)). \<exists>codes.
      row_codes terms (rb_columns (sg_batch (sv_segment view))) remaps row = (Ok codes :: (query_error, _) outcome) \<and>
      stand_for (ag_unified run) codes (row_terms terms (cells_of (sv_segment view) ! row))"
    and "length vs = rb_num_rows (sg_batch (sv_segment view))"
      "\<forall>row<length vs. vs ! row = row_key key (cells_of (sv_segment view) ! row)"
  defines "st' \<equiv> foldl (abs_row terms streaming) st (map (nth (cells_of (sv_segment view))) rows)"
    and "result \<equiv> foldR (agg_row terms (map (acc_of key []) calls) (map (\<lambda>call. snd (snd call)) calls) streaming
      (rb_columns (sg_batch (sv_segment view))) remaps (Some vs)) run rows"
  shows "if overflowing key calls st' then result = Err SUM_OVERFLOW
    else \<exists>run'. result = Ok run' \<and> run_shows s key calls run' st' \<and> ag_unified run' = ag_unified run"
  using assms(1-3,5,7) unfolding st'_def result_def
proof (induction rows arbitrary: run st)
  case (Cons row rows)
  let ?columns = "rb_columns (sg_batch (sv_segment view))" and ?r = "cells_of (sv_segment view) ! row"
  let ?step = "agg_row terms (map (acc_of key []) calls) (map (\<lambda>call. snd (snd call)) calls) streaming ?columns remaps (Some vs)"
  have row: "row < rb_num_rows (sg_batch (sv_segment view))" using Cons.prems(4) by simp
  obtain codes where codes: "row_codes terms ?columns remaps row = (Ok codes :: (query_error, _) outcome)"
    "stand_for (ag_unified run) codes (row_terms terms ?r)"
    using Cons.prems(5) row by blast
  have clock: "row < length vs" "vs ! row = row_key key ?r" using assms(8,9) row by simp_all
  note one = agg_row_shows [OF Cons.prems(1,2) assms(4) row assms(6) codes clock, of streaming]
  show ?case
  proof (cases "overflowing key calls (abs_row terms streaming st ?r)")
    case True
    then have "overflowing key calls (foldl (abs_row terms streaming) (abs_row terms streaming st ?r) (map (nth (cells_of (sv_segment view))) rows))"
      by (rule overflowing_rows)
    then show ?thesis using one True by simp
  next
    case False
    then obtain run' where run': "?step run row = Ok run'" "run_shows s key calls run' (abs_row terms streaming st ?r)"
      "ag_unified run' = ag_unified run"
      using one by auto
    have "unified_ok terms (ag_unified run')" using Cons.prems(2) run'(3) by simp
    moreover have "\<forall>row\<in>set rows. row < rb_num_rows (sg_batch (sv_segment view))" using Cons.prems(4) by simp
    moreover have "\<forall>row<rb_num_rows (sg_batch (sv_segment view)). \<exists>codes.
        row_codes terms ?columns remaps row = (Ok codes :: (query_error, _) outcome) \<and>
        stand_for (ag_unified run') codes (row_terms terms (cells_of (sv_segment view) ! row))"
      using Cons.prems(5) run'(3) by simp
    ultimately have "if overflowing key calls (foldl (abs_row terms streaming) (abs_row terms streaming st ?r) (map (nth (cells_of (sv_segment view))) rows))
      then foldR ?step run' rows = Err SUM_OVERFLOW
      else \<exists>run''. foldR ?step run' rows = Ok run'' \<and>
        run_shows s key calls run'' (foldl (abs_row terms streaming) (abs_row terms streaming st ?r) (map (nth (cells_of (sv_segment view))) rows)) \<and>
        ag_unified run'' = ag_unified run'"
      by (intro Cons.IH [OF run'(2) _ False])
    then show ?thesis using run'(1,3) by (simp cong: if_cong)
  qed
qed simp

end
