(* ===== verification/Answers.thy ===== *)
theory Answers
  imports Aggregated
begin

text \<open>
  The grouped projection as a whole: the pass over all views, the streaming path and the
  hashing one, and the assembly of the result; the property that says what a grouped query
  answers.
\<close>

section \<open>The pass over the views\<close>

lemma agg_view_shows:
  fixes streaming :: bool
  assumes "run_shows s key calls run st" "unified_ok terms (ag_unified run)" "\<not> overflowing key calls st"
    and "sview_ok s view" "terms_fit s terms" "\<forall>call\<in>set calls. call_fits s call" "keyed key s"
  defines "st' \<equiv> foldl (abs_row terms streaming) st (view_rows view)"
    and "result \<equiv> agg_view terms (map (acc_of key []) calls) (map (\<lambda>call. snd (snd call)) calls) (Some key) streaming run view"
  shows "if overflowing key calls st' then result = Err SUM_OVERFLOW
    else \<exists>run'. result = Ok run' \<and> run_shows s key calls run' st' \<and> unified_ok terms (ag_unified run')"
proof -
  let ?columns = "rb_columns (sg_batch (sv_segment view))" and ?n = "rb_num_rows (sg_batch (sv_segment view))"
  obtain unified remaps where R: "remaps_of (\<lambda>term. term_remap term ?columns) terms (ag_unified run) = (Ok (unified, remaps) :: (query_error, _) outcome)"
    "unified_ok terms unified" "extends (ag_unified run) unified"
    "\<forall>row<?n. \<exists>cs. row_codes terms ?columns remaps row = (Ok cs :: (query_error, _) outcome) \<and>
       stand_for unified cs (map (\<lambda>term. term_value term (cells_of (sv_segment view) ! row)) terms)"
    using remaps_of_ok [OF assms(4,5,2), where ?'e = query_error] by blast
  obtain vs where vs: "clocks_at view key = (Ok vs :: (query_error, _) outcome)" "length vs = ?n"
    "\<forall>row<length vs. vs ! row = row_key key (cells_of (sv_segment view) ! row)"
    using clocks_at_ok [OF assms(4,7), where ?'e = query_error] by blast
  let ?run = "run\<lparr>ag_unified := unified\<rparr>"
  have codes: "\<forall>row<?n. \<exists>codes. row_codes terms ?columns remaps row = (Ok codes :: (query_error, _) outcome) \<and>
      stand_for (ag_unified ?run) codes (row_terms terms (cells_of (sv_segment view) ! row))"
    using R(4) by (simp add: row_terms_def)
  have "unified_ok terms (ag_unified ?run)" "\<forall>row\<in>set (live_at view). row < ?n"
    using R(2) live_at_bound [of _ view] by simp_all
  note rows = agg_rows_shows [OF run_shows_extends [OF assms(1) R(3)] this(1) assms(3,4) this(2) assms(6) codes vs(2,3), of streaming]
  have "result = foldR (agg_row terms (map (acc_of key []) calls) (map (\<lambda>call. snd (snd call)) calls) streaming
      ?columns remaps (Some vs)) ?run (live_at view)"
    using R(1) vs(1) live_positions_ok [OF assms(4), where 'e = query_error] by (simp add: result_def agg_view_def Let_def)
  moreover have "st' = foldl (abs_row terms streaming) st (map (nth (cells_of (sv_segment view))) (live_at view))"
    by (simp add: st'_def view_rows_at [OF assms(4)])
  ultimately show ?thesis using rows R(2) by (auto split: if_splits)
qed

lemma agg_views_shows:
  fixes streaming :: bool
  assumes "run_shows s key calls run st" "unified_ok terms (ag_unified run)" "\<not> overflowing key calls st"
    and "views_ok s views" "terms_fit s terms" "\<forall>call\<in>set calls. call_fits s call" "keyed key s"
  defines "st' \<equiv> foldl (abs_row terms streaming) st (rows_of_views views)"
    and "result \<equiv> foldR (agg_view terms (map (acc_of key []) calls) (map (\<lambda>call. snd (snd call)) calls) (Some key) streaming) run views"
  shows "if overflowing key calls st' then result = Err SUM_OVERFLOW
    else \<exists>run'. result = Ok run' \<and> run_shows s key calls run' st' \<and> unified_ok terms (ag_unified run')"
  using assms(1-4) unfolding st'_def result_def
proof (induction views arbitrary: run st)
  case Nil
  then show ?case by (simp add: rows_of_views_def)
next
  case (Cons view views)
  let ?one = "foldl (abs_row terms streaming) st (view_rows view)"
  have rows: "rows_of_views (view # views) = view_rows view @ rows_of_views views" by (simp add: rows_of_views_def)
  have ok: "sview_ok s view" "views_ok s views" using Cons.prems(4) by (simp_all add: views_ok_def)
  note view = agg_view_shows [OF Cons.prems(1-3) ok(1) assms(5-7), of streaming]
  show ?case
  proof (cases "overflowing key calls ?one")
    case True
    then show ?thesis using view overflowing_rows [OF True, of terms streaming "rows_of_views views"] by (simp add: rows)
  next
    case False
    then obtain run' where run': "agg_view terms (map (acc_of key []) calls) (map (\<lambda>call. snd (snd call)) calls) (Some key) streaming run view = Ok run'"
      "run_shows s key calls run' ?one" "unified_ok terms (ag_unified run')"
      using view by auto
    from Cons.IH [OF run'(2,3) False ok(2)] show ?thesis using run'(1) by (simp add: rows)
  qed
qed

section \<open>Both paths make the groups\<close>

definition agg_groups :: "group_term list \<Rightarrow> row_value list list \<Rightarrow> (row_value list \<times> row_value list list) list" where
  "agg_groups terms rows = (if terms = [] then [([], rows)] else groups_of (row_terms terms) rows)"

definition agg_start :: "group_term list \<Rightarrow> pass_state" where
  "agg_start terms = ([], if terms = [] then [([], [])] else [], None)"

lemma hashing_groups:
  "foldl (abs_row terms False) (agg_start terms) rows = ([], agg_groups terms rows, None)"
proof (induction rows rule: rev_induct)
  case Nil
  then show ?case by (simp add: agg_start_def agg_groups_def groups_of_def)
next
  case (snoc r rows)
  have "enter ([] :: row_value list) r [([], rows)] = [([], rows @ [r])]" by (simp add: enter_def)
  moreover have "row_terms [] r = []" by (simp add: row_terms_def)
  ultimately show ?case using snoc by (simp add: abs_row_def agg_groups_def groups_enter)
qed

text \<open>
  Buckets that keep the order: the product with the factor is at most the value.
\<close>

definition bucket_exact :: "group_term \<Rightarrow> bool" where
  "bucket_exact term =
     (case term of
        BucketTerm _ width factor \<Rightarrow>
          0 < sint width \<and> (case factor of None \<Rightarrow> True | Some m \<Rightarrow> 0 \<le> sint m \<and> sint m \<le> sint width)
      | LabelTerm _ \<Rightarrow> True)"

definition axis_term :: "nat \<Rightarrow> group_term \<Rightarrow> bool" where
  "axis_term key term = (case term of BucketTerm index _ _ \<Rightarrow> index = key | LabelTerm _ \<Rightarrow> True)"

lemma trunc_div_bounds:
  assumes "0 < w"
  shows "\<bar>trunc_div x w\<bar> * w \<le> \<bar>x\<bar>"
proof -
  have "\<bar>trunc_div x w\<bar> = \<bar>x\<bar> div w"
    using assms by (cases "x = 0") (simp_all add: trunc_div_def abs_mult pos_imp_zdiv_nonneg_iff)
  moreover have "\<bar>x\<bar> div w * w \<le> \<bar>x\<bar>" using assms minus_mod_eq_div_mult [of "\<bar>x\<bar>" w] pos_mod_sign [of w "\<bar>x\<bar>"] by linarith
  ultimately show ?thesis by simp
qed

lemma sint_bucket:
  fixes width :: i64 and factor :: "i64 option"
  assumes "0 < sint width" "\<forall>m. factor = Some m \<longrightarrow> 0 \<le> sint m \<and> sint m \<le> sint width" "\<bar>x\<bar> < 2 ^ 63 \<or> x = - (2 ^ 63)"
  shows "sint (case factor of None \<Rightarrow> word_of_int (trunc_div x (sint width)) | Some m \<Rightarrow> word_of_int (trunc_div x (sint width)) * m) =
    trunc_div x (sint width) * (case factor of None \<Rightarrow> 1 | Some m \<Rightarrow> sint m)"
proof -
  let ?q = "trunc_div x (sint width)" and ?f = "case factor of None \<Rightarrow> 1 | Some m \<Rightarrow> sint m"
  have f: "0 \<le> ?f" "?f \<le> sint width" using assms(1,2) by (auto split: option.split)
  have "\<bar>?q\<bar> * ?f \<le> \<bar>?q\<bar> * sint width" using f(2) by (intro mult_left_mono) simp_all
  then have "\<bar>?q * ?f\<bar> \<le> \<bar>x\<bar>" using trunc_div_bounds [OF assms(1), of x] f(1) by (simp add: abs_mult)
  moreover have "?q * ?f \<noteq> 2 ^ 63"
  proof
    assume q: "?q * ?f = 2 ^ 63"
    then have x: "x = - (2 ^ 63)" using \<open>\<bar>?q * ?f\<bar> \<le> \<bar>x\<bar>\<close> assms(3) by auto
    then have "sgn x = - 1" by simp
    then have "?q \<le> 0" using assms(1) by (simp add: trunc_div_def pos_imp_zdiv_nonneg_iff)
    then have "?q * ?f \<le> 0" using f(1) by (simp add: mult_nonpos_nonneg)
    then show False using q by simp
  qed
  ultimately have "- (2 ^ 63) \<le> ?q * ?f" "?q * ?f < 2 ^ 63" using assms(3) by auto
  from sint_of_int [OF this] show ?thesis by (cases factor) (simp_all flip: wi_hom_mult)
qed

lemma sint_range: "\<bar>sint (v :: i64)\<bar> < 2 ^ 63 \<or> sint v = - (2 ^ 63)"
  using sint_ge [of v] sint_less [of v] by auto

lemma streaming_groups:
  assumes "sorted (map (row_clock key) rows)" "\<forall>term\<in>set terms. bucket_exact term \<and> axis_term key term" "terms \<noteq> []"
    and "foldl (abs_row terms True) (agg_start terms) rows = (closed, opened, b)"
  shows "closed @ opened = agg_groups terms rows"
proof -
  let ?buckets = "filter is_bucket terms"
  let ?cell = "\<lambda>term c. case term of
      BucketTerm _ width factor \<Rightarrow> RvI64 (bucket_of (word_of_int c) width factor) | LabelTerm _ \<Rightarrow> RvNull"
  have bucket: "row_bucket terms r = map (\<lambda>term. term_value term r) ?buckets" for r
    by (induction terms) (auto simp: row_bucket_def bucket_codes_def row_terms_def)
  have pass: "abs_row terms True = pass_row (row_terms terms) (row_bucket terms)"
    by (simp add: abs_row_def pass_row_def fun_eq_iff)
  have same: "\<forall>r r'. row_terms terms r = row_terms terms r' \<longrightarrow> row_bucket terms r = row_bucket terms r'"
    by (simp add: row_bucket_def)
  have cell: "term_value term r = ?cell term (row_clock key r)" if "term \<in> set ?buckets" for "term" r
  proof -
    have bucket: "is_bucket term" "axis_term key term" using that assms(2) by simp_all
    show ?thesis by (cases "term") (use bucket in \<open>simp_all add: axis_term_def row_clock_def\<close>)
  qed
  have mono: "?cell term x = ?cell term y \<or>
      (case ?cell term x of RvI64 v \<Rightarrow> sint v | _ \<Rightarrow> 0) < (case ?cell term y of RvI64 v \<Rightarrow> sint v | _ \<Rightarrow> (0 :: int))"
    if "term \<in> set ?buckets" "x \<in> row_clock key ` set rows" "y \<in> row_clock key ` set rows" "x \<le> y" for "term" x y
  proof -
    have "is_bucket term" using that(1) by simp
    then obtain index width factor where t: "term = BucketTerm index width factor" by (cases "term") simp_all
    have "bucket_exact term" using that(1) assms(2) by simp
    then have e: "0 < sint width" "\<forall>m. factor = Some m \<longrightarrow> 0 \<le> sint m \<and> sint m \<le> sint width"
      using t by (auto simp: bucket_exact_def)
    have range: "\<bar>z\<bar> < 2 ^ 63 \<or> z = - (2 ^ 63)" "sint (word_of_int z :: i64) = z" if z: "z \<in> row_clock key ` set rows" for z
    proof -
      obtain v :: i64 where v: "z = sint v" using z by (auto simp: row_clock_def)
      show "\<bar>z\<bar> < 2 ^ 63 \<or> z = - (2 ^ 63)" unfolding v by (rule sint_range)
      show "sint (word_of_int z :: i64) = z" unfolding v by simp
    qed
    have at: "sint (bucket_of (word_of_int z) width factor) = trunc_div z (sint width) * (case factor of None \<Rightarrow> 1 | Some m \<Rightarrow> sint m)"
      if z: "z \<in> row_clock key ` set rows" for z
      using sint_bucket [OF e range(1) [OF z]] range(2) [OF z] by (simp add: bucket_of_def Let_def)
    have "trunc_div x (sint width) * (case factor of None \<Rightarrow> 1 | Some m \<Rightarrow> sint m) \<le>
        trunc_div y (sint width) * (case factor of None \<Rightarrow> 1 | Some m \<Rightarrow> sint m)"
      by (rule mult_right_mono [OF trunc_div_mono [OF that(4) e(1)]]) (use e(2) in \<open>simp split: option.split\<close>)
    then have "sint (bucket_of (word_of_int x) width factor) \<le> sint (bucket_of (word_of_int y) width factor)"
      using at that(2,3) by simp
    then have "bucket_of (word_of_int x) width factor = bucket_of (word_of_int y) width factor \<or>
        sint (bucket_of (word_of_int x) width factor) < sint (bucket_of (word_of_int y) width factor)"
      by (metis order.order_iff_strict signed_word_eqI)
    then show ?thesis using t by simp
  qed
  have "contiguous_buckets (row_bucket terms) rows"
  proof (rule contiguous_of_sorted [OF assms(1), where gs = "map ?cell ?buckets"])
    show "row_bucket terms r = map (\<lambda>g. g (row_clock key r)) (map ?cell ?buckets)" if "r \<in> set rows" for r
      unfolding bucket map_map comp_def by (rule map_cong [OF refl cell])
    show "g x = g y \<or> (case g x of RvI64 v \<Rightarrow> sint v | _ \<Rightarrow> 0) < (case g y of RvI64 v \<Rightarrow> sint v | _ \<Rightarrow> (0 :: int))"
      if g: "g \<in> set (map ?cell ?buckets)" "x \<in> row_clock key ` set rows" "y \<in> row_clock key ` set rows" "x \<le> y" for g x y
    proof -
      obtain t where t: "t \<in> set ?buckets" "g = ?cell t" using g(1) by auto
      show ?thesis unfolding t(2) by (rule mono [OF t(1) g(2-4)])
    qed
  qed
  from pass_groups [OF this same] assms(3,4) show ?thesis by (simp add: agg_groups_def agg_start_def pass)
qed

section \<open>Assembling the columns\<close>

fun call_value :: "nat \<Rightarrow> row_value list list \<Rightarrow> call_spec \<Rightarrow> row_value" where
  "call_value key rows (f, ct, argument) = agg_value f ct (length rows) (events_of key argument rows)"

definition call_type :: "call_spec \<Rightarrow> column_type" where
  "call_type call = accumulator_type (acc_of 0 [] call)"

lemma acc_type: "accumulator_type (acc_of key rows call) = call_type call"
proof -
  obtain f ct argument where c: "call = (f, ct, argument)" by (cases call)
  show ?thesis by (cases f) (auto simp: c call_type_def acc_of_def acc_at_def Let_def)
qed

lemma acc_of_value:
  assumes "call_fits s call" "\<forall>r\<in>set rows. row_typed s r" "length rows < 2 ^ 63"
  shows "acc_value (acc_of key rows call) = call_value key rows call"
proof -
  obtain f ct argument where c: "call = (f, ct, argument)" by (cases call)
  have "call_typed f ct" using assms(1) c by (simp add: call_fits_def)
  moreover have "length (events_of key argument rows) < 2 ^ 63" using length_events [of key argument rows] assms(3) by simp
  ultimately show ?thesis
    using acc_value_at [of f ct "events_of key argument rows" "length rows"] events_typed [of s f ct argument rows key] assms(1,2) c
    by (simp add: acc_of_def)
qed

lemma assemble_optional_ok:
  "\<exists>c. assemble_optional cells = (Ok c :: ('e, _) outcome) \<and> (None \<notin> set cells \<longrightarrow> nc_validity c = None) \<and>
     column_ok (Numeric (NI64 c)) \<and> column_cells (Numeric (NI64 c)) = map (\<lambda>v. case v of Some x \<Rightarrow> RvI64 x | None \<Rightarrow> RvNull) cells \<and>
     column_ok (Numeric (NF64 c)) \<and> column_cells (Numeric (NF64 c)) = map (\<lambda>v. case v of Some x \<Rightarrow> RvF64 x | None \<Rightarrow> RvNull) cells"
proof -
  let ?nums = "map (\<lambda>v. case v of Some x \<Rightarrow> x | None \<Rightarrow> 0) cells" and ?flags = "map (\<lambda>v. v \<noteq> None) cells"
  obtain c where c: "assemble_numeric ?nums ?flags = (Ok c :: ('e, _) outcome)" "nc_values c = ?nums"
    "validity_ok (length ?nums) (nc_validity c)" "presence (length ?nums) (nc_validity c) = ?flags"
    "list_all id ?flags \<Longrightarrow> nc_validity c = None"
    using assemble_numeric_ok [of ?nums ?flags] by (metis length_map)
  have zip: "map2 f ?nums ?flags = map (\<lambda>v. f (case v of Some x \<Rightarrow> x | None \<Rightarrow> 0) (v \<noteq> None)) cells" for f :: "u64 \<Rightarrow> bool \<Rightarrow> row_value"
    by (simp add: zip_map_map zip_same_conv_map)
  have "None \<notin> set cells \<longrightarrow> nc_validity c = None" using c(5) by (metis (mono_tags, lifting) id_apply list.pred_map list_all_iff comp_apply)
  moreover have "column_ok (Numeric (NI64 c))" "column_ok (Numeric (NF64 c))" using c(2,3) by (simp_all add: nc_len_def)
  moreover have "column_cells (Numeric (NI64 c)) = map (\<lambda>v. case v of Some x \<Rightarrow> RvI64 x | None \<Rightarrow> RvNull) cells"
    "column_cells (Numeric (NF64 c)) = map (\<lambda>v. case v of Some x \<Rightarrow> RvF64 x | None \<Rightarrow> RvNull) cells"
    unfolding column_cells.simps nc_len_def c(2) c(4) zip by (auto split: option.split)
  ultimately show ?thesis using c(1) by (simp add: assemble_optional_def del: column_cells.simps column_ok.simps)
qed

lemma assemble_aggregate_ok:
  fixes name :: rstring and key :: nat
  assumes "call_fits s call" "\<forall>rows\<in>set groups. (\<forall>r\<in>set rows. row_typed s r) \<and> length rows < 2 ^ 63"
  defines "cells \<equiv> map (\<lambda>rows. call_value key rows call) groups"
  shows "\<exists>c. assemble_aggregate name (cells_col key call (map (\<lambda>rows. acc_of key rows call) groups)) =
      (Ok (field_new name (call_type call) (RvNull \<in> set cells), c) :: ('e, _) outcome) \<and> holds_cells (call_type call) cells c"
proof -
  have type: "call_type call = I64 \<or> call_type call = F64"
    unfolding call_type_def by (cases "acc_of 0 [] call") simp_all
  have cells: "cells = map (\<lambda>rows. acc_value (acc_of key rows call)) groups"
    unfolding cells_def by (rule map_cong [OF refl]) (use assms(1,2) acc_of_value in auto)
  show ?thesis
  proof (cases "call_type call = I64")
    case True
    let ?vs = "map i64_value (map (\<lambda>rows. acc_of key rows call) groups)"
    have e: "cells = map (\<lambda>v. case v of Some x \<Rightarrow> RvI64 x | None \<Rightarrow> RvNull) ?vs"
      unfolding cells using True by (simp add: acc_value_def acc_type)
    have "RvNull \<in> set cells \<longleftrightarrow> None \<in> set ?vs" unfolding e by (force split: option.splits)
    moreover obtain c where "assemble_optional ?vs = (Ok c :: ('e, _) outcome)" "None \<notin> set ?vs \<longrightarrow> nc_validity c = None"
      "column_ok (Numeric (NI64 c))" "column_cells (Numeric (NI64 c)) = cells"
      using assemble_optional_ok [of ?vs, where ?'e = 'e] by (elim exE conjE) (rule that, assumption+, simp only: e)
    ultimately show ?thesis using True
      by (auto simp: assemble_aggregate_def cells_col_def acc_type holds_cells_def simp del: column_cells.simps column_ok.simps)
  next
    case False
    let ?vs = "map f64_value (map (\<lambda>rows. acc_of key rows call) groups)"
    have e: "cells = map (\<lambda>v. case v of Some x \<Rightarrow> RvF64 x | None \<Rightarrow> RvNull) ?vs"
      unfolding cells using False by (simp add: acc_value_def acc_type)
    have "RvNull \<in> set cells \<longleftrightarrow> None \<in> set ?vs" unfolding e by (force split: option.splits)
    moreover obtain c where "assemble_optional ?vs = (Ok c :: ('e, _) outcome)" "None \<notin> set ?vs \<longrightarrow> nc_validity c = None"
      "column_ok (Numeric (NF64 c))" "column_cells (Numeric (NF64 c)) = cells"
      using assemble_optional_ok [of ?vs, where ?'e = 'e] by (elim exE conjE) (rule that, assumption+, simp only: e)
    ultimately show ?thesis using False type
      by (auto simp: assemble_aggregate_def cells_col_def acc_type holds_cells_def simp del: column_cells.simps column_ok.simps)
  qed
qed

end
