(* ===== verification/Answered.thy ===== *)
theory Answered
  imports Answers
begin

text \<open>
  The assembly of a grouped result, and the property that says what a grouped query answers.
\<close>

section \<open>Assembling the items\<close>

definition key_typed :: "group_term list \<Rightarrow> row_value list \<Rightarrow> bool" where
  "key_typed terms k \<longleftrightarrow> length k = length terms \<and>
     (\<forall>p<length terms. if is_bucket (terms ! p) then k ! p \<in> range RvI64 else cell_fits Key (k ! p))"

definition column_shows :: "row_value list \<Rightarrow> field \<times> column \<Rightarrow> bool" where
  "column_shows cells = (\<lambda>(f, c). holds_cells (f_column_type f) cells c \<and> f_nullable f = (RvNull \<in> set cells))"

definition code_bucket :: "group_code \<Rightarrow> i64" where
  "code_bucket code = (case code of BucketCode v \<Rightarrow> v | LabelCode _ \<Rightarrow> 0)"

definition code_label :: "rstring list \<Rightarrow> group_code \<Rightarrow> rstring option" where
  "code_label names code = (case code of LabelCode (Some u) \<Rightarrow> Some (names ! u) | _ \<Rightarrow> None)"

lemma assemble_key_item_ok:
  assumes "list_all2 (\<lambda>codes a. stand_for unified codes (fst a)) ks groups" "unified_ok terms unified" "p < length terms"
    and "\<forall>a\<in>set groups. key_typed terms (fst a)" "dict_fits us" "\<forall>a\<in>set groups. \<forall>t. fst a ! p = RvKey t \<longrightarrow> t \<in> set us"
  shows "\<exists>out. assemble_key_item name (terms ! p) (unified ! p) p ks = (Ok out :: ('e, _) outcome) \<and>
    column_shows (map (\<lambda>a. fst a ! p) groups) out"
proof -
  have len: "length ks = length groups" "length unified = length terms"
    using assms(1,2) by (simp_all add: list_all2_lengthD unified_ok_def)
  have at: "p < length (ks ! i) \<and> code_within (unified ! p) (ks ! i ! p) \<and> code_value (unified ! p) (ks ! i ! p) = fst (groups ! i) ! p"
    if "i < length groups" for i
    using list_all2_nthD2 [OF assms(1) that] assms(3) len by (simp add: stand_for_def)
  have typed: "if is_bucket (terms ! p) then fst (groups ! i) ! p \<in> range RvI64 else cell_fits Key (fst (groups ! i) ! p)"
    if "i < length groups" for i
    using assms(3,4) nth_mem [OF that] by (simp add: key_typed_def)
  show ?thesis
  proof (cases "is_bucket (terms ! p)")
    case True
    have bucket: "ks ! i ! p = BucketCode (code_bucket (ks ! i ! p)) \<and> fst (groups ! i) ! p = RvI64 (code_bucket (ks ! i ! p))"
      if "i < length groups" for i
      using at [OF that] typed [OF that] True
      by (cases "(unified ! p, ks ! i ! p)" rule: code_value.cases) (auto simp: code_bucket_def)
    have "traverseR (bucket_cell p) ks = (Ok (map (\<lambda>codes. code_bucket (codes ! p)) ks) :: ('e, _) outcome)"
    proof (rule traverseR_Ok)
      fix codes assume "codes \<in> set ks"
      then obtain i where i: "i < length groups" "codes = ks ! i" using len(1) by (auto simp: in_set_conv_nth)
      show "bucket_cell p codes = (Ok (code_bucket (codes ! p)) :: ('e, _) outcome)"
        using at [OF i(1)] bucket [OF i(1)] i(2) by (auto simp: bucket_cell_def element_at_def split: group_code.splits)
    qed
    moreover have "map (\<lambda>a. fst a ! p) groups = map RvI64 (map (\<lambda>codes. code_bucket (codes ! p)) ks)"
      by (rule nth_equalityI) (use len bucket in simp_all)
    ultimately show ?thesis
      using True by (cases "terms ! p")
        (auto simp: assemble_key_item_def column_shows_def holds_cells_def nc_new_non_null_def field_new_def nc_len_def
          validity_ok_def presence_def map2_map_map zip_replicate2)
  next
    case False
    have label: "label_cell (unified ! p) p (ks ! i) = (Ok (code_label (unified ! p) (ks ! i ! p)) :: ('e, _) outcome) \<and>
        optional_key (code_label (unified ! p) (ks ! i ! p)) = fst (groups ! i) ! p" if "i < length groups" for i
      using at [OF that] typed [OF that] False
      by (cases "(unified ! p, ks ! i ! p)" rule: code_value.cases; cases "fst (groups ! i) ! p")
        (auto simp: label_cell_def code_label_def element_at_def optional_key_def)
    let ?labels = "map (\<lambda>codes. code_label (unified ! p) (codes ! p)) ks"
    have labels: "traverseR (label_cell (unified ! p) p) ks = (Ok ?labels :: ('e, _) outcome)"
    proof (rule traverseR_Ok)
      fix codes assume "codes \<in> set ks"
      then obtain i where "i < length groups" "codes = ks ! i" using len(1) by (auto simp: in_set_conv_nth)
      then show "label_cell (unified ! p) p codes = (Ok (code_label (unified ! p) (codes ! p)) :: ('e, _) outcome)"
        using label by simp
    qed
    have cells: "map optional_key ?labels = map (\<lambda>a. fst a ! p) groups"
      by (rule nth_equalityI) (use len label in simp_all)
    have texts: "t \<in> set us" if "v \<in> set ?labels" "optional_key v = RvKey t" for v t
    proof -
      have "RvKey t \<in> set (map optional_key ?labels)" using that by (metis image_eqI set_map)
      then show ?thesis unfolding cells using assms(6) by auto
    qed
    have "\<exists>c. gather_keys Ok ?labels = (Ok c :: ('e, _) outcome) \<and> holds_cells Key (map optional_key ?labels) c"
      by (rule gather_keys_cells [OF _ assms(5) texts]) simp_all
    then obtain c where c: "gather_keys Ok ?labels = (Ok c :: ('e, _) outcome)" "holds_cells Key (map (\<lambda>a. fst a ! p) groups) c"
      unfolding cells by blast
    have "None \<in> set ?labels \<longleftrightarrow> RvNull \<in> set (map optional_key ?labels)"
      by (force simp: optional_key_def split: option.splits)
    then have "None \<in> set ?labels \<longleftrightarrow> RvNull \<in> set (map (\<lambda>a. fst a ! p) groups)" unfolding cells .
    then show ?thesis
      using False labels c by (cases "terms ! p") (auto simp: assemble_key_item_def column_shows_def field_new_def)
  qed
qed

definition call_spec :: "schema \<Rightarrow> agg_call \<Rightarrow> call_spec" where
  "call_spec s call =
     (ac_function call,
      case ac_argument call of
        None \<Rightarrow> (None, None)
      | Some name \<Rightarrow> (case resolve s name of Ok (i, f) \<Rightarrow> (Some (f_column_type f), Some i) | _ \<Rightarrow> (None, None)))"

definition call_ok :: "schema \<Rightarrow> agg_call \<Rightarrow> bool" where
  "call_ok s call \<longleftrightarrow>
     (case ac_argument call of
        None \<Rightarrow> ac_function call = CountAgg
      | Some name \<Rightarrow> (case resolve s name of Ok (_, f) \<Rightarrow> f_column_type f \<noteq> Key | _ \<Rightarrow> False))"

lemma resolve_at: "resolve s name = Ok (i, f) \<Longrightarrow> i < length (s_fields s) \<and> f = s_fields s ! i"
  by (auto simp: resolve_def dest: position_Some split: option.splits)

lemma call_ok_fits:
  assumes "call_ok s call"
  shows "call_fits s (call_spec s call)"
    "resolve_argument s call = Ok (snd (snd (call_spec s call)), fst (snd (call_spec s call)))"
    "accumulator_new call (fst (snd (call_spec s call))) = Ok (acc_of key [] (call_spec s call))"
proof -
  have "ct = F64 \<or> ct = I64" if "ct \<noteq> Key" for ct :: column_type using that by (cases ct) simp_all
  then have typed: "call_typed (ac_function call) (fst (snd (call_spec s call)))"
    using assms by (auto simp: call_ok_def call_spec_def call_typed_def split: option.splits outcome.splits)
  then show "call_fits s (call_spec s call)"
    using assms by (auto simp: call_ok_def call_spec_def call_fits_def split: option.splits outcome.splits dest: resolve_at)
  show "resolve_argument s call = Ok (snd (snd (call_spec s call)), fst (snd (call_spec s call)))"
    using assms by (auto simp: call_ok_def call_spec_def resolve_argument_def split: option.splits outcome.splits)
  show "accumulator_new call (fst (snd (call_spec s call))) = Ok (acc_of key [] (call_spec s call))"
    using acc_new [OF typed] by (simp add: acc_of_def call_spec_def split_def)
qed

definition item_value ::
  "schema \<Rightarrow> nat \<Rightarrow> group_key list \<Rightarrow> row_value list \<times> row_value list list \<Rightarrow> agg_item \<Rightarrow> row_value" where
  "item_value s key keys a item =
     (case item of
        KeyItem g _ \<Rightarrow> fst a ! the (position (\<lambda>k. k = g) keys)
      | CallItem call \<Rightarrow> call_value key (snd a) (call_spec s call))"

definition item_ok :: "schema \<Rightarrow> group_key list \<Rightarrow> agg_item \<Rightarrow> bool" where
  "item_ok s keys item = (case item of KeyItem g _ \<Rightarrow> g \<in> set keys | CallItem call \<Rightarrow> call_ok s call)"

lemma agg_calls_simps [simp]:
  "agg_calls [] = []" "agg_calls (KeyItem g alias # items) = agg_calls items"
  "agg_calls (CallItem call # items) = call # agg_calls items"
  by (simp_all add: agg_calls_def)

lemma assemble_items_ok:
  assumes "closed_shows key (before @ map (call_spec s) (agg_calls items)) unified sink groups" "unified_ok terms unified"
    "length keys = length terms" "\<forall>item\<in>set items. item_ok s keys item"
    and "\<forall>a\<in>set groups. key_typed terms (fst a) \<and> (\<forall>r\<in>set (snd a). row_typed s r) \<and> length (snd a) < 2 ^ 63"
    and "dict_fits us" "\<forall>a\<in>set groups. \<forall>t. RvKey t \<in> set (fst a) \<longrightarrow> t \<in> set us"
  shows "\<exists>outs. assemble_items keys terms unified sink items (length before) = (Ok outs :: ('e, _) outcome) \<and>
    list_all2 (\<lambda>item. column_shows (map (\<lambda>a. item_value s key keys a item) groups)) items outs"
  using assms(1,4)
proof (induction items arbitrary: before)
  case (Cons item items)
  show ?case
  proof (cases item)
    case (KeyItem g as_name)
    then obtain p where p: "position (\<lambda>k. k = g) keys = Some p"
      using Cons.prems(2) position_None [of "\<lambda>k. k = g" keys] by (cases "position (\<lambda>k. k = g) keys") (auto simp: item_ok_def)
    then have bound: "p < length terms" using position_Some [OF p] assms(3) by auto
    have texts: "\<forall>a\<in>set groups. \<forall>t. fst a ! p = RvKey t \<longrightarrow> t \<in> set us"
    proof (intro ballI allI impI)
      fix a t assume a: "a \<in> set groups" "fst a ! p = RvKey t"
      then have "p < length (fst a)" using assms(5) bound by (auto simp: key_typed_def)
      then have "RvKey t \<in> set (fst a)" using a(2) by (metis nth_mem)
      then show "t \<in> set us" using assms(7) a(1) by blast
    qed
    have keys: "list_all2 (\<lambda>codes a. stand_for unified codes (fst a)) (gs_keys sink) groups"
      using Cons.prems(1) by (simp add: closed_shows_def)
    have "\<forall>a\<in>set groups. key_typed terms (fst a)" using assms(5) by blast
    from assemble_key_item_ok [OF keys assms(2) bound this assms(6) texts, where ?'e = 'e]
    obtain out where out: "assemble_key_item (case as_name of Some a \<Rightarrow> a | None \<Rightarrow> key_output_name g) (terms ! p) (unified ! p) p (gs_keys sink) =
        (Ok out :: ('e, _) outcome)" "column_shows (map (\<lambda>a. fst a ! p) groups) out" by blast
    obtain outs where "assemble_items keys terms unified sink items (length before) = (Ok outs :: ('e, _) outcome)"
      "list_all2 (\<lambda>item. column_shows (map (\<lambda>a. item_value s key keys a item) groups)) items outs"
      using Cons.IH [of before] Cons.prems KeyItem by auto
    then show ?thesis using KeyItem p out by (simp add: item_value_def)
  next
    case (CallItem call)
    have fits: "call_fits s (call_spec s call)" using Cons.prems(2) CallItem call_ok_fits(1) by (simp add: item_ok_def)
    let ?cells = "cells_col key (call_spec s call) (map (\<lambda>a. acc_of key (snd a) (call_spec s call)) groups)"
    have cells: "element_at (gs_cells sink) (length before) = (Ok ?cells :: ('e, _) outcome)"
      using Cons.prems(1) CallItem by (simp add: closed_shows_def element_at_def nth_append)
    have rows: "\<forall>rows\<in>set (map snd groups). (\<forall>r\<in>set rows. row_typed s r) \<and> length rows < 2 ^ 63" using assms(5) by auto
    from assemble_aggregate_ok [OF fits rows, where ?'e = 'e and key = key and name = "case ac_alias call of Some a \<Rightarrow> a | None \<Rightarrow> agg_default_name (ac_function call)"]
    obtain out where out: "assemble_aggregate (case ac_alias call of Some a \<Rightarrow> a | None \<Rightarrow> agg_default_name (ac_function call)) ?cells =
        (Ok out :: ('e, _) outcome)" "column_shows (map (\<lambda>a. call_value key (snd a) (call_spec s call)) groups) out"
      by (auto simp: column_shows_def field_new_def comp_def)
    obtain outs where "assemble_items keys terms unified sink items (length (before @ [call_spec s call])) = (Ok outs :: ('e, _) outcome)"
      "list_all2 (\<lambda>item. column_shows (map (\<lambda>a. item_value s key keys a item) groups)) items outs"
      using Cons.IH [of "before @ [call_spec s call]"] Cons.prems CallItem by auto
    then show ?thesis using CallItem cells out by (simp add: item_value_def)
  qed
qed simp

section \<open>The whole projection\<close>

lemma view_rows_typed:
  assumes "views_ok s views"
  shows "\<forall>r\<in>set (rows_of_views views). row_typed s r"
proof
  fix r assume "r \<in> set (rows_of_views views)"
  then obtain view where view: "view \<in> set views" "r \<in> set (view_rows view)" by (auto simp: rows_of_views_def)
  then have ok: "sview_ok s view" using assms by (simp add: views_ok_def)
  obtain row where "row \<in> set (live_at view)" "r = cells_of (sv_segment view) ! row"
    using view(2) by (auto simp: view_rows_at [OF ok])
  then show "row_typed s r" using cells_of_typed [OF ok] live_at_bound by blast
qed

lemma resolved_terms:
  assumes "keyed key s" "traverseR (\<lambda>g. resolve_group_key s g (Some key)) keys = Ok terms" "\<forall>t\<in>set terms. bucket_exact t"
  shows "terms_fit s terms" "\<forall>t\<in>set terms. bucket_exact t \<and> axis_term key t" "length keys = length terms"
proof -
  have one: "term_fits s t \<and> axis_term key t" if t: "resolve_group_key s g (Some key) = Ok t" "bucket_exact t" for g t
  proof -
    obtain i f where r: "resolve s (key_name g) = Ok (i, f)" using t(1) by (auto simp: resolve_group_key_def)
    note R = resolve_at [OF r]
    show ?thesis
      using t r R assms(1)
      by (cases g) (auto simp: resolve_group_key_def Let_def axis_term_def bucket_exact_def split: column_type.splits if_splits)
  qed
  have "(\<forall>t\<in>set terms. term_fits s t \<and> axis_term key t) \<and> length keys = length terms"
    using assms(2,3)
  proof (induction keys arbitrary: terms)
    case (Cons g keys)
    then obtain t rest where "resolve_group_key s g (Some key) = Ok t"
      "traverseR (\<lambda>g. resolve_group_key s g (Some key)) keys = Ok rest" "terms = t # rest" by auto
    then show ?case using Cons one by auto
  qed simp
  then show "terms_fit s terms" "\<forall>t\<in>set terms. bucket_exact t \<and> axis_term key t" "length keys = length terms"
    using assms(3) by (auto simp: terms_fit_def)
qed

lemma row_terms_typed:
  assumes "terms_fit s terms" "row_typed s r"
  shows "key_typed terms (row_terms terms r)" "RvKey t \<in> set (row_terms terms r) \<Longrightarrow> RvKey t \<in> set r"
proof -
  have one: "(if is_bucket u then term_value u r \<in> range RvI64 else cell_fits Key (term_value u r)) \<and>
      (term_value u r = RvKey t \<longrightarrow> RvKey t \<in> set r)" if "term_fits s u" for u
  proof (cases u)
    case (LabelTerm i)
    then have i: "i < length r" "cell_fits Key (r ! i)" using that assms(2) by (auto simp: row_typed_def)
    then have "r ! i \<in> set r" by simp
    then show ?thesis using LabelTerm i(2) by auto
  qed simp
  then show "key_typed terms (row_terms terms r)"
    using assms(1) nth_mem unfolding key_typed_def row_terms_def terms_fit_def by (metis length_map nth_map)
  show "RvKey t \<in> set (row_terms terms r) \<Longrightarrow> RvKey t \<in> set r"
    using one assms(1) by (auto simp: row_terms_def terms_fit_def)
qed

lemma agg_groups_typed:
  assumes "terms_fit s terms" "\<forall>r\<in>set rows. row_typed s r" "a \<in> set (agg_groups terms rows)"
  shows "key_typed terms (fst a)" "set (snd a) \<subseteq> set rows" "length (snd a) \<le> length rows"
    "RvKey t \<in> set (fst a) \<Longrightarrow> \<exists>r\<in>set rows. RvKey t \<in> set r"
proof -
  have a: "a = ([], rows) \<and> terms = [] \<or> (\<exists>r\<in>set rows. fst a = row_terms terms r) \<and> snd a = filter (\<lambda>r. row_terms terms r = fst a) rows"
    using assms(3) groups_of_member [of "fst a" "snd a" "row_terms terms" rows] by (auto simp: agg_groups_def split: if_splits)
  then show "key_typed terms (fst a)" "set (snd a) \<subseteq> set rows" "length (snd a) \<le> length rows"
    using row_terms_typed(1) [OF assms(1)] assms(2) by (auto simp: key_typed_def)
  show "\<exists>r\<in>set rows. RvKey t \<in> set r" if "RvKey t \<in> set (fst a)"
    using a that row_terms_typed(2) [OF assms(1)] assms(2) by (metis empty_iff fst_conv list.set(1))
qed

lemma run_start:
  "run_shows s key calls \<lparr>ag_unified = replicate (length terms) [],
     ag_open = (if terms = [] then [([], map (acc_of key []) calls)] else []), ag_bucket = None,
     ag_sink = sink_new (map (acc_of key []) calls)\<rparr> (agg_start terms)"
  by (auto simp: run_shows_def agg_start_def group_shows_def stand_for_def bucket_shows_def closed_shows_def sink_new_def
      cells_col_def agg_cells_for_def no_overflow_empty)

definition any_overflow :: "schema \<Rightarrow> nat \<Rightarrow> agg_item list \<Rightarrow> (row_value list \<times> row_value list list) list \<Rightarrow> bool" where
  "any_overflow s key items groups \<longleftrightarrow>
     (\<exists>a\<in>set groups. \<exists>call\<in>set (agg_calls items). call_overflows key (snd a) (call_spec s call))"

lemma items_batch:
  assumes "list_all2 (\<lambda>item. column_shows (map (\<lambda>a. item_value s key keys a item) groups)) items outs" "items \<noteq> []"
  shows "\<exists>b. record_batch_new \<lparr>s_fields = map fst outs\<rparr> (map snd outs) = (Ok b :: ('e, _) outcome) \<and> batch_ok b \<and>
    rb_schema b = \<lparr>s_fields = map fst outs\<rparr> \<and> batch_rows b = map (\<lambda>a. map (item_value s key keys a) items) groups"
proof -
  have len: "length outs = length items" using assms(1) by (simp add: list_all2_lengthD)
  have col: "column_shows (map (\<lambda>a. item_value s key keys a (items ! j)) groups) (outs ! j)" if "j < length items" for j
    using assms(1) that by (simp add: list_all2_conv_all_nth)
  show ?thesis
  proof (rule record_batch_new_cells)
    show "length (map snd outs) = length (s_fields \<lparr>s_fields = map fst outs\<rparr>)" by simp
    show "s_fields \<lparr>s_fields = map fst outs\<rparr> \<noteq> []" using len assms(2) by auto
    show "\<forall>r\<in>set (map (\<lambda>a. map (item_value s key keys a) items) groups). length r = length (s_fields \<lparr>s_fields = map fst outs\<rparr>)"
      using len by auto
  next
    fix j assume "j < length (map snd outs)"
    then have j: "j < length items" using len by simp
    have cells: "map (\<lambda>r. r ! j) (map (\<lambda>a. map (item_value s key keys a) items) groups) = map (\<lambda>a. item_value s key keys a (items ! j)) groups"
      using j by simp
    show "holds_cells (f_column_type (s_fields \<lparr>s_fields = map fst outs\<rparr> ! j))
        (map (\<lambda>r. r ! j) (map (\<lambda>a. map (item_value s key keys a) items) groups)) (map snd outs ! j)"
      unfolding cells using col [OF j] j len by (simp add: column_shows_def split_def)
  next
    fix j r assume "j < length (map snd outs)" and r: "r \<in> set (map (\<lambda>a. map (item_value s key keys a) items) groups)"
    then have j: "j < length items" using len by simp
    have "f_nullable (fst (outs ! j)) = (RvNull \<in> set (map (\<lambda>a. item_value s key keys a (items ! j)) groups))"
      using col [OF j] by (simp add: column_shows_def split_def)
    moreover have "r ! j \<in> set (map (\<lambda>a. item_value s key keys a (items ! j)) groups)" using r j by auto
    ultimately show "f_nullable (s_fields \<lparr>s_fields = map fst outs\<rparr> ! j) \<or> r ! j \<noteq> RvNull"
      using j len by auto
  qed
qed

text \<open>The pass with its closing: the groups, in their order, or the overflow.\<close>

lemma agg_pass:
  assumes "views_ok s views" "keyed key s" "\<forall>view\<in>set views. order_honest key view"
    and "terms_fit s terms" "\<forall>t\<in>set terms. bucket_exact t \<and> axis_term key t" "\<forall>call\<in>set calls. call_fits s call"
    and "ordering_problem views key = (Ok problem :: (query_error, _) outcome)"
  defines "groups \<equiv> agg_groups terms (rows_of_views views)"
    and "result \<equiv> foldR (agg_view terms (map (acc_of key []) calls) (map (\<lambda>call. snd (snd call)) calls) (Some key)
       (list_ex is_bucket terms \<and> problem = None))
       \<lparr>ag_unified = replicate (length terms) [], ag_open = (if terms = [] then [([], map (acc_of key []) calls)] else []),
        ag_bucket = None, ag_sink = sink_new (map (acc_of key []) calls)\<rparr> views"
  shows "if \<exists>a\<in>set groups. \<exists>call\<in>set calls. call_overflows key (snd a) call then result = Err SUM_OVERFLOW
    else \<exists>run. result = Ok run \<and> unified_ok terms (ag_unified run) \<and>
      closed_shows key calls (ag_unified run) (ag_sink (close_open run)) groups"
proof -
  let ?streaming = "list_ex is_bucket terms \<and> problem = None"
  let ?final = "foldl (abs_row terms ?streaming) (agg_start terms) (rows_of_views views)"
  obtain closed opened b where e: "?final = (closed, opened, b)" by (cases ?final)
  have groups: "closed @ opened = groups"
  proof (cases ?streaming)
    case True
    obtain p where "ordering_problem views key = (Ok p :: (query_error, _) outcome)"
      "p = None \<longleftrightarrow> (\<forall>view\<in>set views. sg_ordered (sv_segment view)) \<and> sorted (map (row_clock key) (rows_of_views views))"
      using ordering_problem_ok [OF assms(1-3), where ?'e = query_error] by blast
    then have "sorted (map (row_clock key) (rows_of_views views))" using assms(7) True by simp
    moreover have "terms \<noteq> []" using True by auto
    ultimately show ?thesis
      unfolding groups_def using streaming_groups [OF _ assms(5), of "rows_of_views views" closed opened b] e True by simp
  next
    case False
    then have off: "?streaming = False" by blast
    show ?thesis using e [unfolded off] hashing_groups [of terms "rows_of_views views"] by (simp add: groups_def)
  qed
  have over: "overflowing key calls ?final \<longleftrightarrow> (\<exists>a\<in>set groups. \<exists>call\<in>set calls. call_overflows key (snd a) call)"
    unfolding e overflowing_def groups [symmetric] by simp
  have start: "\<not> overflowing key calls (agg_start terms)"
    by (simp add: overflowing_def agg_start_def no_overflow_empty)
  have "unified_ok terms (replicate (length terms) [])" by (simp add: unified_ok_def)
  then have views: "if overflowing key calls ?final then result = Err SUM_OVERFLOW
      else \<exists>run. result = Ok run \<and> run_shows s key calls run ?final \<and> unified_ok terms (ag_unified run)"
    unfolding result_def by (intro agg_views_shows [OF run_start _ start assms(1,4,6,2)]) simp
  show ?thesis
  proof (cases "overflowing key calls ?final")
    case False
    then obtain run where run: "result = Ok run" "run_shows s key calls run ?final" "unified_ok terms (ag_unified run)"
      using views by auto
    have "closed_shows key calls (ag_unified run) (foldl sink_close (ag_sink run) (ag_open run)) (closed @ opened)"
      by (rule close_all_shows [where s = s]) (use run(2) e in \<open>auto simp: run_shows_def\<close>)
    then show ?thesis using run over False groups by (auto simp: close_open_def)
  qed (use views over in simp)
qed

section \<open>A sample\<close>

text \<open>Two segments with dictionaries of their own, one with a tombstone.\<close>

definition axis_schema :: schema where
  "axis_schema = \<lparr>s_fields = [field_new (ascii ''t'') I64 False, field_new (ascii ''k'') Key False]\<rparr>"

definition axis_view :: "i64 list \<Rightarrow> u32 list \<Rightarrow> rstring list \<Rightarrow> bitmap option \<Rightarrow> segment_view" where
  "axis_view clocks codes names live =
     \<lparr>sv_segment = \<lparr>sg_batch = \<lparr>rb_schema = axis_schema,
        rb_columns = [Numeric (NI64 \<lparr>nc_values = clocks, nc_validity = None\<rparr>),
          KeyCol \<lparr>kc_codes = codes, kc_validity = None, kc_dictionary = dict_of names\<rparr>], rb_num_rows = length clocks\<rparr>,
        sg_ordering_key = 0, sg_ordered = True, sg_base_row_id = 0, sg_zone_maps = [None, None],
        sg_sequence = RowIds, sg_superseded = None\<rparr>,
      sv_live = live\<rparr>"


definition axis_views :: "segment_view list" where
  "axis_views = [axis_view [1, 2, 61] [0, 0, 1] [ascii ''b'', ascii ''a''] (Some (from_bools [True, False, True])),
     axis_view [62, 130] [0, 0] [ascii ''b''] None]"

definition axis_keys :: "group_key list" where
  "axis_keys = [Bucket (ascii ''t'') 60 None, KeyColumn (ascii ''k'')]"

definition axis_items :: "agg_item list" where
  "axis_items = [KeyItem (Bucket (ascii ''t'') 60 None) None, KeyItem (KeyColumn (ascii ''k'')) None,
     CallItem \<lparr>ac_function = CountAgg, ac_argument = None, ac_alias = None\<rparr>,
     CallItem \<lparr>ac_function = SumAgg, ac_argument = Some (ascii ''t''), ac_alias = None\<rparr>]"

lemma axis_names: "dict_ok (dict_of [ascii ''b'', ascii ''a''])" "dict_names (dict_of [ascii ''b'', ascii ''a'']) = [ascii ''b'', ascii ''a'']"
    "dict_ok (dict_of [ascii ''b''])" "dict_names (dict_of [ascii ''b'']) = [ascii ''b'']"
    by (simp_all add: dict_ok_def dict_fits_def ascii_def dict_names_of)

lemma axis_views_ok: "views_ok axis_schema axis_views" "keyed 0 axis_schema"
  using axis_names by (simp_all add: views_ok_def axis_views_def sview_ok_def axis_view_def batch_ok_def axis_schema_def
        field_new_def binding_ok_def kc_len_def nc_len_def validity_ok_def keyed_def)

lemma axis_rows: "map cells_of (map sv_segment axis_views) = [[[RvI64 1, RvKey (ascii ''b'')], [RvI64 2, RvKey (ascii ''b'')], [RvI64 61, RvKey (ascii ''a'')]], [[RvI64 62, RvKey (ascii ''b'')], [RvI64 130, RvKey (ascii ''b'')]]]"
  "map view_rows axis_views = [[[RvI64 1, RvKey (ascii ''b'')], [RvI64 61, RvKey (ascii ''a'')]], [[RvI64 62, RvKey (ascii ''b'')], [RvI64 130, RvKey (ascii ''b'')]]]"
  using axis_names by (simp_all add: axis_views_def axis_view_def cells_of_def upt_rec kc_len_def nc_len_def presence_def view_rows_def liveness_def)

lemma axis_groups:
  "agg_groups [BucketTerm 0 60 None, LabelTerm 1] (rows_of_views axis_views) =
     [([RvI64 0, RvKey (ascii ''b'')], [[RvI64 1, RvKey (ascii ''b'')]]),
      ([RvI64 1, RvKey (ascii ''a'')], [[RvI64 61, RvKey (ascii ''a'')]]),
      ([RvI64 1, RvKey (ascii ''b'')], [[RvI64 62, RvKey (ascii ''b'')]]),
      ([RvI64 2, RvKey (ascii ''b'')], [[RvI64 130, RvKey (ascii ''b'')]])]"
  using axis_rows(2)
  by (simp add: rows_of_views_def agg_groups_def groups_of_def row_terms_def bucket_of_def row_key_def trunc_div_def ascii_def Let_def)

section \<open>Properties\<close>



text \<open>
  The limit of the hypothesis on buckets: a factor that makes the product wrap brings a bucket
  back, and the streaming path, which has closed the bucket's groups, opens them a second time.
  The answer lists group 0 twice.
\<close>

lemma wrapped_bucket_splits:
  "mapR output_rows (project_aggregate axis_schema [axis_view [0, 1, 4294967296] [0, 0, 0] [ascii ''a''] None] (Some 0)
      [Bucket (ascii ''t'') 1 (Some 4294967296)] [KeyItem (Bucket (ascii ''t'') 1 (Some 4294967296)) (Some (ascii ''b''))]) =
    Ok [[RvI64 0], [RvI64 4294967296], [RvI64 0]]"
  by code_simp


end
