(* ===== verification/Partials.thy ===== *)
theory Partials
  imports Grouped
begin

text \<open>
  Partial aggregates (\<^verbatim>\<open>src/partials.rs\<close>): how an aggregate decomposes into per-bucket partials
  and the aggregates that combine them.  What is shown is the combine contract: over buckets
  in the order of the time axis, the combined partials are the aggregate of all rows.
\<close>

section \<open>Decompositions\<close>

definition expanding_window_function :: "rstring \<Rightarrow> agg_function option" where
  "expanding_window_function name =
     (if name = ascii ''sum'' then Some SumAgg
      else if name = ascii ''count'' then Some CountAgg
      else if name = ascii ''avg'' then Some AvgAgg
      else if name = ascii ''min'' then Some MinAgg
      else if name = ascii ''max'' then Some MaxAgg
      else None)"

definition HIDDEN_BUCKET :: rstring where
  "HIDDEN_BUCKET = ascii ''__bucket''"

datatype partial_form = SumForm | CountForm | SumCountForm | MinForm | MaxForm | FirstForm | LastForm

fun partial_form_of :: "agg_function \<Rightarrow> partial_form" where
  "partial_form_of SumAgg = SumForm"
| "partial_form_of CountAgg = CountForm"
| "partial_form_of AvgAgg = SumCountForm"
| "partial_form_of MinAgg = MinForm"
| "partial_form_of MaxAgg = MaxForm"
| "partial_form_of FirstAgg = FirstForm"
| "partial_form_of LastAgg = LastForm"

record decomposition =
  dc_form :: partial_form
  dc_partials :: "agg_call list"
  dc_combines :: "agg_call list"

definition partial_name :: "nat \<Rightarrow> rstring" where
  "partial_name index = ascii ''__p'' @ decimal index"

definition partial_call :: "agg_call \<Rightarrow> nat \<Rightarrow> agg_function \<Rightarrow> nat \<Rightarrow> agg_call" where
  "partial_call call next_index f offset =
     \<lparr>ac_function = f, ac_argument = ac_argument call, ac_alias = Some (partial_name (next_index + offset))\<rparr>"

definition combine_call :: "nat \<Rightarrow> agg_function \<Rightarrow> nat \<Rightarrow> agg_call" where
  "combine_call next_index f offset =
     \<lparr>ac_function = f, ac_argument = Some (partial_name (next_index + offset)),
      ac_alias = Some (partial_name (next_index + offset))\<rparr>"

definition decompose :: "agg_call \<Rightarrow> nat \<Rightarrow> decomposition" where
  "decompose call next_index =
     (let form = partial_form_of (ac_function call);
          part = partial_call call next_index;
          combine = combine_call next_index;
          calls = (case form of
              SumForm \<Rightarrow> ([part SumAgg 0], [combine SumAgg 0])
            | CountForm \<Rightarrow> ([part CountAgg 0], [combine SumAgg 0])
            | SumCountForm \<Rightarrow> ([part SumAgg 0, part CountAgg 1], [combine SumAgg 0, combine SumAgg 1])
            | MinForm \<Rightarrow> ([part MinAgg 0], [combine MinAgg 0])
            | MaxForm \<Rightarrow> ([part MaxAgg 0], [combine MaxAgg 0])
            | FirstForm \<Rightarrow> ([part FirstAgg 0], [combine FirstAgg 0])
            | LastForm \<Rightarrow> ([part LastAgg 0], [combine LastAgg 0]))
      in \<lparr>dc_form = form, dc_partials = fst calls, dc_combines = snd calls\<rparr>)"

section \<open>Combining\<close>

text \<open>A bucket: its index on the axis, its number of rows, its cells that are not null.\<close>

type_synonym bucket_part = "i64 \<times> nat \<times> agg_event list"

definition part_events :: "agg_function \<Rightarrow> column_type option \<Rightarrow> bucket_part list \<Rightarrow> agg_event list" where
  "part_events f ct parts =
     concat (map (\<lambda>(clock, n, xs).
       case agg_value f ct n xs of RvI64 v \<Rightarrow> [(CellI64 v, clock)] | RvF64 x \<Rightarrow> [(CellF64 x, clock)] | _ \<Rightarrow> []) parts)"

definition part_type :: "agg_function \<Rightarrow> column_type option \<Rightarrow> column_type" where
  "part_type f ct = (if f = CountAgg \<or> ct = Some I64 then I64 else F64)"

text \<open>The combined column of a call with one partial, a null count grounded to zero.\<close>

definition combined_value :: "agg_call \<Rightarrow> column_type option \<Rightarrow> bucket_part list \<Rightarrow> row_value" where
  "combined_value call ct parts =
     (let d = decompose call 0; f = ac_function (hd (dc_partials d));
          v = agg_value (ac_function (hd (dc_combines d))) (Some (part_type f ct)) (length parts) (part_events f ct parts)
      in if dc_form d = CountForm \<and> v = RvNull then RvI64 0 else v)"

text \<open>Buckets in the order of the axis, each before the next.\<close>

fun parts_ordered :: "bucket_part list \<Rightarrow> bool" where
  "parts_ordered [] \<longleftrightarrow> True"
| "parts_ordered ((clock, _, xs) # parts) \<longleftrightarrow>
     (\<forall>(clock', _, xs')\<in>set parts. sint clock < sint clock' \<and> (\<forall>x\<in>set xs. \<forall>x'\<in>set xs'. sint (snd x) < sint (snd x'))) \<and>
     parts_ordered parts"

definition all_events :: "bucket_part list \<Rightarrow> agg_event list" where
  "all_events parts = concat (map (\<lambda>(_, _, xs). xs) parts)"

definition all_rows :: "bucket_part list \<Rightarrow> nat" where
  "all_rows parts = sum_list (map (\<lambda>(_, n, _). n) parts)"

lemma sort_key_eq_Nil [simp]: "sort_key k xs = [] \<longleftrightarrow> xs = []"
  by (simp flip: set_empty)

lemma hd_sort_append:
  "hd (sort_key k (xs @ ys)) =
     (if xs = [] then hd (sort_key k ys)
      else if ys = [] \<or> k (hd (sort_key k xs)) \<le> k (hd (sort_key k ys)) then hd (sort_key k xs) else hd (sort_key k ys))"
proof (induction ys rule: rev_induct)
  case (snoc y ys)
  show ?case
    unfolding append_assoc [symmetric] hd_sort_snoc [of k "xs @ ys"] hd_sort_snoc [of k ys] using snoc by auto
qed simp

lemma last_sort_append:
  "last (sort_key k (xs @ ys)) =
     (if ys = [] then last (sort_key k xs)
      else if xs = [] \<or> k (last (sort_key k xs)) \<le> k (last (sort_key k ys)) then last (sort_key k ys) else last (sort_key k xs))"
proof (induction ys rule: rev_induct)
  case (snoc y ys)
  show ?case
    unfolding append_assoc [symmetric] last_sort_snoc [of k "xs @ ys"] last_sort_snoc [of k ys] using snoc by auto
qed simp

text \<open>The least of the buckets' least cells is the least cell; ties go to the earlier bucket.\<close>

definition pick_parts :: "agg_function \<Rightarrow> bucket_part list \<Rightarrow> agg_event list" where
  "pick_parts f parts = concat (map (\<lambda>(clock, _, xs). if xs = [] then [] else [(fst (picked_event f xs), clock)]) parts)"

lemma pick_parts_simps [simp]:
  "pick_parts f [] = []"
  "pick_parts f ((clock, n, xs) # parts) = (if xs = [] then [] else [(fst (picked_event f xs), clock)]) @ pick_parts f parts"
  "all_events [] = []" "all_events ((clock, n, xs) # parts) = xs @ all_events parts"
  by (simp_all add: pick_parts_def all_events_def)

lemma pick_parts_Nil: "pick_parts f parts = [] \<longleftrightarrow> all_events parts = []"
  by (induction parts) (auto split: if_splits)

lemma hd_sort_picks:
  assumes "\<And>xs. picked_event f xs = hd (sort_key (\<lambda>x. r (fst x)) xs)" "all_events parts \<noteq> []"
  shows "fst (hd (sort_key (\<lambda>x. r (fst x)) (pick_parts f parts))) = fst (hd (sort_key (\<lambda>x. r (fst x)) (all_events parts)))"
  using assms(2)
proof (induction parts)
  case (Cons part parts)
  obtain clock n xs where p: "part = (clock, n, xs)" by (cases part)
  show ?case
  proof (cases "all_events parts = []")
    case True
    then show ?thesis using Cons.prems p assms(1) pick_parts_Nil [of f parts] by auto
  next
    case False
    have "r (fst (hd (sort_key (\<lambda>x. r (fst x)) (pick_parts f parts)))) = r (fst (hd (sort_key (\<lambda>x. r (fst x)) (all_events parts))))"
      using Cons.IH [OF False] by simp
    then show ?thesis
      using Cons.IH [OF False] False p assms(1) pick_parts_Nil [of f parts] by (auto simp: hd_sort_append)
  qed
qed simp

lemma ordered_events:
  "parts_ordered ((clock, n, xs) # parts) \<Longrightarrow> x \<in> set xs \<Longrightarrow> x' \<in> set (all_events parts) \<Longrightarrow> sint (snd x) < sint (snd x')"
  by (auto simp: all_events_def)

lemma ordered_clocks:
  "parts_ordered ((clock, n, xs) # parts) \<Longrightarrow> x \<in> set (pick_parts f parts) \<Longrightarrow> sint clock < sint (snd x)"
  by (auto simp: pick_parts_def split: if_splits)

lemma first_picks:
  assumes "parts_ordered parts" "all_events parts \<noteq> []"
  shows "fst (picked_event FirstAgg (pick_parts FirstAgg parts)) = fst (picked_event FirstAgg (all_events parts))"
  using assms
proof (induction parts)
  case (Cons part parts)
  obtain clock n xs where p: "part = (clock, n, xs)" by (cases part)
  have ord: "parts_ordered parts" using Cons.prems(1) p by simp
  show ?case
  proof (cases "xs = []")
    case True
    then show ?thesis using Cons.IH [OF ord] Cons.prems(2) p by simp
  next
    case False
    have "sint (snd (hd (sort_key (\<lambda>x. sint (snd x)) xs))) \<le> sint (snd (hd (sort_key (\<lambda>x. sint (snd x)) (all_events parts))))"
      if "all_events parts \<noteq> []"
      by (rule less_imp_le, rule ordered_events [OF Cons.prems(1) [unfolded p] sort_key_ends(1) [OF False] sort_key_ends(1) [OF that]])
    moreover have "sint clock \<le> sint (snd (hd (sort_key (\<lambda>x. sint (snd x)) (pick_parts FirstAgg parts))))"
      if "pick_parts FirstAgg parts \<noteq> []"
      by (rule less_imp_le, rule ordered_clocks [OF Cons.prems(1) [unfolded p] sort_key_ends(1) [OF that]])
    ultimately show ?thesis
      using False p hd_sort_append [of "\<lambda>x. sint (snd x)" xs "all_events parts"]
        hd_sort_append [of "\<lambda>x. sint (snd x)" "[(fst (picked_event FirstAgg xs), clock)]" "pick_parts FirstAgg parts"]
      by (auto simp: picked_event_def)
  qed
qed simp

lemma last_picks:
  assumes "parts_ordered parts" "all_events parts \<noteq> []"
  shows "fst (picked_event LastAgg (pick_parts LastAgg parts)) = fst (picked_event LastAgg (all_events parts))"
  using assms
proof (induction parts)
  case (Cons part parts)
  obtain clock n xs where p: "part = (clock, n, xs)" by (cases part)
  have ord: "parts_ordered parts" using Cons.prems(1) p by simp
  show ?case
  proof (cases "all_events parts = []")
    case True
    then show ?thesis using Cons.prems(2) p pick_parts_Nil [of LastAgg parts] by (auto simp: picked_event_def)
  next
    case False
    have "sint (snd (last (sort_key (\<lambda>x. sint (snd x)) xs))) \<le> sint (snd (last (sort_key (\<lambda>x. sint (snd x)) (all_events parts))))"
      if "xs \<noteq> []"
      by (rule less_imp_le, rule ordered_events [OF Cons.prems(1) [unfolded p] sort_key_ends(2) [OF that] sort_key_ends(2) [OF False]])
    moreover have "pick_parts LastAgg parts \<noteq> []" using False pick_parts_Nil by blast
    moreover from this have "sint clock \<le> sint (snd (last (sort_key (\<lambda>x. sint (snd x)) (pick_parts LastAgg parts))))"
      by (intro less_imp_le [OF ordered_clocks [OF Cons.prems(1) [unfolded p] sort_key_ends(2)]])
    ultimately show ?thesis
      using False p Cons.IH [OF ord False] last_sort_append [of "\<lambda>x. sint (snd x)" xs "all_events parts"]
        last_sort_append [of "\<lambda>x. sint (snd x)" "[(fst (picked_event LastAgg xs), clock)]" "pick_parts LastAgg parts"]
      by (auto simp: picked_event_def)
  qed
qed simp

section \<open>The combine contract\<close>

lemma part_events_simps [simp]:
  "part_events f ct [] = []"
  "part_events f ct ((clock, n, xs) # parts) =
     (case agg_value f ct n xs of RvI64 v \<Rightarrow> [(CellI64 v, clock)] | RvF64 x \<Rightarrow> [(CellF64 x, clock)] | _ \<Rightarrow> []) @ part_events f ct parts"
  by (simp_all add: part_events_def)

lemma part_events_pick:
  assumes "f \<in> {MinAgg, MaxAgg, FirstAgg, LastAgg}"
  shows "part_events f ct parts = pick_parts f parts"
proof (induction parts)
  case (Cons part parts)
  obtain clock n xs where p: "part = (clock, n, xs)" by (cases part)
  have "(case cell_row c of RvI64 v \<Rightarrow> [(CellI64 v, clock)] | RvF64 x \<Rightarrow> [(CellF64 x, clock)] | _ \<Rightarrow> []) = [(c, clock)]" for c
    by (cases c) simp_all
  then show ?case using Cons assms p by (auto simp: agg_value_def)
qed simp

lemma take_part_events: "\<exists>m\<le>length parts. take k (part_events f ct parts) = part_events f ct (take m parts)"
proof (induction parts arbitrary: k)
  case (Cons part parts)
  obtain clock n xs where p: "part = (clock, n, xs)" by (cases part)
  show ?case
  proof (cases k)
    case 0
    then show ?thesis by (intro exI [of _ 0]) simp
  next
    case (Suc j)
    obtain m where m: "m \<le> length parts" "take j (part_events f ct parts) = part_events f ct (take m parts)" using Cons by blast
    obtain m' where m': "m' \<le> length parts" "take (Suc j) (part_events f ct parts) = part_events f ct (take m' parts)" using Cons by blast
    show ?thesis
    proof (cases "agg_value f ct n xs")
      case RvNull
      then show ?thesis using p Suc m' by (intro exI [of _ "Suc m'"]) simp
    next
      case (RvKey t)
      then show ?thesis using p Suc m' by (intro exI [of _ "Suc m'"]) simp
    qed (use p Suc m in \<open>auto intro!: exI [of _ "Suc m"]\<close>)
  qed
qed simp

definition counted :: "column_type option \<Rightarrow> bucket_part \<Rightarrow> nat" where
  "counted ct = (\<lambda>(_, n, xs). if ct = None then n else length xs)"

lemma sint_of_nat: "n < 2 ^ 63 \<Longrightarrow> sint (word_of_nat n :: i64) = int n"
  using sint_of_int [of "int n"] by simp

lemma count_total:
  assumes "\<forall>part\<in>set parts. counted ct part < 2 ^ 63"
  shows "int_total (part_events CountAgg ct parts) = int (sum_list (map (counted ct) parts))"
  using assms
proof (induction parts)
  case (Cons part parts)
  obtain clock n xs where p: "part = (clock, n, xs)" by (cases part)
  have "int_total (x # xs) = cell_int (fst x) + int_total xs" for x xs by (simp add: int_total_def)
  then show ?case using Cons p sint_of_nat [of "counted ct part"] by (simp add: agg_value_def counted_def)
qed (simp add: int_total_def)

lemma sum_total:
  assumes "\<forall>(_, _, xs)\<in>set parts. - (2 ^ 63) \<le> int_total xs \<and> int_total xs < 2 ^ 63"
  shows "int_total (part_events SumAgg (Some I64) parts) = int_total (all_events parts)"
  using assms
proof (induction parts)
  case (Cons part parts)
  obtain clock n xs where p: "part = (clock, n, xs)" by (cases part)
  have snoc: "int_total (x # xs) = cell_int (fst x) + int_total xs" "int_total (ys @ zs) = int_total ys + int_total zs" for x xs ys zs
    by (simp_all add: int_total_def)
  have "sint (word_of_int (int_total xs) :: i64) = int_total xs" by (rule sint_of_int) (use Cons.prems p in auto)
  then show ?case using Cons p by (cases "xs = []") (auto simp: agg_value_def snoc)
qed (simp add: int_total_def)

text \<open>
  A call with one partial, its buckets as the materialization has them, and each bucket's sum
  within the range.
\<close>

definition parts_fit :: "agg_call \<Rightarrow> column_type option \<Rightarrow> bucket_part list \<Rightarrow> bool" where
  "parts_fit call ct parts \<longleftrightarrow>
     ac_function call \<noteq> AvgAgg \<and> (ac_function call = SumAgg \<longrightarrow> ct = Some I64) \<and> parts_ordered parts \<and>
     (\<forall>(_, n, xs)\<in>set parts. length xs \<le> n \<and> - (2 ^ 63) \<le> int_total xs \<and> int_total xs < 2 ^ 63) \<and> all_rows parts < 2 ^ 63"

lemma sum_counted:
  assumes "\<forall>(_, n, xs)\<in>set parts. length xs \<le> n"
  shows "sum_list (map (counted ct) parts) = (if ct = None then all_rows parts else length (all_events parts))"
    "sum_list (map (counted ct) parts) \<le> all_rows parts"
proof -
  show "sum_list (map (counted ct) parts) = (if ct = None then all_rows parts else length (all_events parts))"
    by (induction parts) (auto simp: counted_def all_rows_def all_events_def)
  show "sum_list (map (counted ct) parts) \<le> all_rows parts"
    unfolding all_rows_def by (rule sum_list_mono) (use assms in \<open>auto simp: counted_def\<close>)
qed

lemma prefix_events: "all_events (take m parts) = take (length (all_events (take m parts))) (all_events parts)"
proof -
  have "all_events parts = all_events (take m parts) @ all_events (drop m parts)"
    unfolding all_events_def by (metis append_take_drop_id concat_append map_append)
  then show ?thesis by simp
qed

lemma prefix_counted: "sum_list (map g (take m parts)) \<le> sum_list (map (g :: bucket_part \<Rightarrow> nat) parts)"
proof -
  have "sum_list (map g parts) = sum_list (map g (take m parts)) + sum_list (map g (drop m parts))"
    by (metis append_take_drop_id map_append sum_list_append)
  then show ?thesis by simp
qed

section \<open>Properties\<close>



end
