(* ===== verification/ViewRanges.thy ===== *)
theory ViewRanges
  imports Answers "HOL-Library.Product_Lexorder"
begin

text \<open>
  The bucket arithmetic of maintained views (\<^verbatim>\<open>src/view.rs\<close>): from the keys a change touched to
  runs of buckets, from runs to the range predicates that restrict the source and the
  materialization, the merged ranges of a join view, and the lower bound a cumulative read
  takes from a query's predicate.
\<close>

section \<open>Buckets\<close>

definition bucket_arithmetic :: "group_key \<Rightarrow> i64 \<times> i64" where
  "bucket_arithmetic bucket =
     (case bucket of
        KeyColumn _ \<Rightarrow> (1, 1)
      | Bucket _ width factor \<Rightarrow> (width, case factor of None \<Rightarrow> 1 | Some m \<Rightarrow> m))"

definition i64_saturating_mul :: "i64 \<Rightarrow> i64 \<Rightarrow> i64" where
  "i64_saturating_mul a b = i64_saturate (sint a * sint b)"

definition i64_saturating_add :: "i64 \<Rightarrow> i64 \<Rightarrow> i64" where
  "i64_saturating_add a b = i64_saturate (sint a + sint b)"

definition i64_saturating_sub :: "i64 \<Rightarrow> i64 \<Rightarrow> i64" where
  "i64_saturating_sub a b = i64_saturate (sint a - sint b)"

definition bucket_low :: "i64 \<Rightarrow> i64 \<Rightarrow> i64" where
  "bucket_low index width =
     (if 0 < sint index then i64_saturating_mul index width
      else if index = 0 then - (width - 1)
      else i64_saturating_sub (i64_saturating_mul index width) (width - 1))"

definition bucket_high :: "i64 \<Rightarrow> i64 \<Rightarrow> i64" where
  "bucket_high index width =
     (if 0 < sint index then i64_saturating_add (i64_saturating_mul index width) (width - 1)
      else if index = 0 then width - 1
      else i64_saturating_mul index width)"

section \<open>Runs\<close>

definition run_step :: "(i64 \<times> i64) list \<Rightarrow> i64 \<Rightarrow> (i64 \<times> i64) list" where
  "run_step runs bucket =
     (if runs \<noteq> [] \<and> snd (last runs) + 1 = bucket then butlast runs @ [(fst (last runs), bucket)]
      else runs @ [(bucket, bucket)])"

definition contiguous_runs :: "i64 list \<Rightarrow> (i64 \<times> i64) list" where
  "contiguous_runs buckets = foldl run_step [] buckets"

text \<open>The ordered set the touched buckets are collected in.\<close>

definition touched_buckets :: "i64 \<Rightarrow> i64 list \<Rightarrow> ('e, i64 list) outcome" where
  "touched_buckets width keys =
     mapR (\<lambda>buckets. sort_key sint (remdups buckets)) (traverseR (\<lambda>key. i64_div key width) keys)"

definition touched_runs :: "i64 \<Rightarrow> i64 list \<Rightarrow> ('e, (i64 \<times> i64) list option) outcome" where
  "touched_runs width keys =
     mapR (\<lambda>buckets. if buckets = [] then None else Some (contiguous_runs buckets)) (touched_buckets width keys)"

section \<open>Range predicates\<close>

definition range_arm :: "rstring \<Rightarrow> i64 \<times> i64 \<Rightarrow> 'x predicate" where
  "range_arm column = (\<lambda>(low, high). PAnd (Compare column CGe (NumInt low)) (Compare column CLe (NumInt high)))"

definition ranges_predicate :: "rstring \<Rightarrow> (i64 \<times> i64) list \<Rightarrow> ('e, 'x predicate) outcome" where
  "ranges_predicate column ranges =
     (case map (range_arm column) ranges of
        [] \<Rightarrow> Panic
      | arm # arms \<Rightarrow> Ok (foldl POr arm arms))"

definition source_ranges :: "rstring \<Rightarrow> i64 \<Rightarrow> (i64 \<times> i64) list \<Rightarrow> ('e, 'x predicate) outcome" where
  "source_ranges ordering_key width runs =
     ranges_predicate ordering_key (map (\<lambda>(lo, hi). (bucket_low lo width, bucket_high hi width)) runs)"

definition restricted_predicate ::
  "rstring \<Rightarrow> i64 \<Rightarrow> (i64 \<times> i64) list \<Rightarrow> 'x predicate option \<Rightarrow> ('e, 'x predicate) outcome" where
  "restricted_predicate ordering_key width runs own =
     mapR (\<lambda>ranges. case own of Some p \<Rightarrow> PAnd ranges p | None \<Rightarrow> ranges) (source_ranges ordering_key width runs)"

definition view_ranges :: "rstring \<Rightarrow> i64 \<Rightarrow> (i64 \<times> i64) list \<Rightarrow> ('e, 'x predicate) outcome" where
  "view_ranges bucket_name scale runs =
     ranges_predicate bucket_name (map (\<lambda>(lo, hi). (i64_saturating_mul lo scale, i64_saturating_mul hi scale)) runs)"

section \<open>Ranges of keys\<close>

definition merge_step :: "(i64 \<times> i64) list \<Rightarrow> i64 \<times> i64 \<Rightarrow> (i64 \<times> i64) list" where
  "merge_step acc span =
     (if acc \<noteq> [] \<and> sint (fst span) \<le> sint (i64_saturating_add (snd (last acc)) 1)
      then butlast acc @ [(fst (last acc), if sint (snd (last acc)) < sint (snd span) then snd span else snd (last acc))]
      else acc @ [span])"

definition merge_key_ranges :: "(i64 \<times> i64) list \<Rightarrow> (i64 \<times> i64) list" where
  "merge_key_ranges ranges = foldl merge_step [] (sort_key (\<lambda>(lo, hi). (sint lo, sint hi)) ranges)"

definition key_ranges_to_bucket_runs :: "(i64 \<times> i64) list \<Rightarrow> i64 \<Rightarrow> ('e, (i64 \<times> i64) list) outcome" where
  "key_ranges_to_bucket_runs ranges width =
     (if width = 1 then Ok ranges
      else mapR merge_key_ranges
        (traverseR (\<lambda>(lo, hi). bindR (i64_div lo width) (\<lambda>l. mapR (Pair l) (i64_div hi width))) ranges))"

section \<open>A lower bound\<close>

text \<open>\<open>t.floor() as i64\<close>.\<close>

definition f64_floor_i64 :: "f64 \<Rightarrow> i64" where
  "f64_floor_i64 t =
     (if f64_is_nan t then 0
      else if f64_is_infinite t then (if f64_sign t then word_of_int (- (2 ^ 63)) else word_of_int (2 ^ 63 - 1))
      else i64_saturate (f64_floor_int t))"

fun okey_lower_bound :: "'x predicate \<Rightarrow> rstring \<Rightarrow> i64 option" where
  "okey_lower_bound (PAnd p q) okey =
     (case (okey_lower_bound p okey, okey_lower_bound q okey) of
        (Some a, Some b) \<Rightarrow> Some (if sint a < sint b then b else a)
      | (Some a, None) \<Rightarrow> Some a
      | (None, b) \<Rightarrow> b)"
| "okey_lower_bound (POr p q) okey =
     (case (okey_lower_bound p okey, okey_lower_bound q okey) of
        (Some a, Some b) \<Rightarrow> Some (if sint b < sint a then b else a)
      | _ \<Rightarrow> None)"
| "okey_lower_bound (Compare column op value) okey =
     (if column = okey \<and> op \<in> {CGe, CEq, CGt}
      then Some (case value of NumInt v \<Rightarrow> v | NumFloat t \<Rightarrow> f64_floor_i64 t)
      else None)"
| "okey_lower_bound _ okey = None"

section \<open>Edges\<close>

lemma le_div_int: "0 < (w :: int) \<Longrightarrow> i \<le> x div w \<longleftrightarrow> i * w \<le> x"
proof
  assume w: "0 < w"
  show "i * w \<le> x" if "i \<le> x div w"
  proof -
    have "i * w \<le> (x div w) * w" using that w by (intro mult_right_mono) auto
    then show ?thesis using minus_mod_eq_div_mult [of x w] pos_mod_sign [OF w, of x] by linarith
  qed
  show "i \<le> x div w" if "i * w \<le> x" using zdiv_mono1 [OF that w] w by simp
qed

lemma trunc_div_cases: "0 < w \<Longrightarrow> trunc_div x w = (if 0 \<le> x then x div w else - (- x div w))"
  by (auto simp: trunc_div_def sgn_if)

lemma trunc_div_le:
  assumes "0 < w"
  shows "i \<le> trunc_div x w \<longleftrightarrow> (if 0 < i then i * w \<le> x else i * w - (w - 1) \<le> x)"
    "trunc_div x w \<le> i \<longleftrightarrow> (if i < 0 then x \<le> i * w else x \<le> i * w + (w - 1))"
proof -
  have down: "(- x) div w \<le> - i \<longleftrightarrow> i * w - (w - 1) \<le> x" for i
    using le_div_int [OF assms, of "- i + 1" "- x"] by (auto simp: algebra_simps)
  have up: "x div w \<le> i \<longleftrightarrow> x \<le> i * w + (w - 1)" for i
    using le_div_int [OF assms, of "i + 1" x] by (auto simp: algebra_simps)
  have neg: "- i \<le> (- x) div w \<longleftrightarrow> x \<le> i * w" for i
    using le_div_int [OF assms, of "- i" "- x"] by (simp add: algebra_simps)
  have pos: "0 \<le> x div w" if "0 \<le> x" using that assms by (simp add: pos_imp_zdiv_nonneg_iff)
  have non: "0 \<le> - x div w" if "x < 0" using that assms by (simp add: pos_imp_zdiv_nonneg_iff)
  have ge: "0 \<le> i * w" if "0 \<le> i" using that assms by simp
  have le: "i * w \<le> 0" if "i \<le> 0" using that assms by (simp add: mult_nonpos_nonneg)
  have gt: "w \<le> i * w" if "0 < i" using that assms by (metis mult.commute mult_le_cancel_left1 order_less_imp_not_less zless_imp_add1_zle add_0)
  have lt: "i * w \<le> - w" if "i < 0"
  proof -
    have "w \<le> (- i) * w" using mult_right_mono [of 1 "- i" w] that assms by simp
    then show ?thesis by simp
  qed
  show "i \<le> trunc_div x w \<longleftrightarrow> (if 0 < i then i * w \<le> x else i * w - (w - 1) \<le> x)"
  proof (cases "0 \<le> x")
    case True
    then show ?thesis using trunc_div_cases [OF assms, of x] le_div_int [OF assms, of i x] pos le assms by (cases "0 < i") auto
  next
    case False
    then show ?thesis using trunc_div_cases [OF assms, of x] down [of i] non gt assms by (cases "0 < i") auto
  qed
  show "trunc_div x w \<le> i \<longleftrightarrow> (if i < 0 then x \<le> i * w else x \<le> i * w + (w - 1))"
  proof (cases "0 \<le> x")
    case True
    then show ?thesis using trunc_div_cases [OF assms, of x] up [of i] pos lt assms by (cases "i < 0") auto
  next
    case False
    then show ?thesis using trunc_div_cases [OF assms, of x] neg [of i] non ge assms by (cases "i < 0") auto
  qed
qed

lemma sint_bounds: "- (2 ^ 63) \<le> sint (v :: i64)" "sint (v :: i64) < 2 ^ 63"
  using sint_ge [of v] sint_lt [of v] by simp_all

lemma sint_saturate: "sint (i64_saturate n) = (if n < - (2 ^ 63) then - (2 ^ 63) else if 2 ^ 63 \<le> n then 2 ^ 63 - 1 else n)"
  by (simp add: i64_saturate_def int_word_sint)

lemma sint_pred: "0 < sint (w :: i64) \<Longrightarrow> sint (w - 1) = sint w - 1"
  using sint_bounds [of w] sint_of_int [of "sint w - 1"] by (simp flip: wi_hom_sub)

text \<open>An index that some key has.\<close>

definition bucket_index :: "i64 \<Rightarrow> i64 \<Rightarrow> bool" where
  "bucket_index width index \<longleftrightarrow> - (2 ^ 63) \<le> sint index * sint width \<and> sint index * sint width < 2 ^ 63"

lemma sint_trunc: "0 < sint w \<Longrightarrow> sint (word_of_int (trunc_div (sint k) (sint w)) :: i64) = trunc_div (sint (k :: i64)) (sint (w :: i64))"
proof (rule sint_of_int)
  assume w: "0 < sint w"
  have "\<bar>trunc_div (sint k) (sint w)\<bar> * 1 \<le> \<bar>trunc_div (sint k) (sint w)\<bar> * sint w" using w by (intro mult_left_mono) auto
  then have b: "\<bar>trunc_div (sint k) (sint w)\<bar> \<le> \<bar>sint k\<bar>" using trunc_div_bounds [OF w, of "sint k"] by linarith
  show "- (2 ^ 63) \<le> trunc_div (sint k) (sint w)" using b sint_bounds [of k] by linarith
  show "trunc_div (sint k) (sint w) < 2 ^ 63"
    using trunc_div_le(2) [OF w, of "sint k" "2 ^ 63 - 1"] sint_bounds [of k] w
    by (auto simp: algebra_simps)
qed

lemma bucket_index_trunc:
  fixes w k :: i64
  assumes w: "0 < sint w"
  shows "bucket_index w (word_of_int (trunc_div (sint k) (sint w)))"
proof -
  have q: "trunc_div (sint k) (sint w) * sint w = sint ((word_of_int (trunc_div (sint k) (sint w)) :: i64) * w)"
    using sint_bucket [of w "Some w" "sint k"] w sint_range [of k] by simp
  show ?thesis unfolding bucket_index_def sint_trunc [OF w] q by (rule conjI, rule sint_bounds, rule sint_bounds)
qed

lemma bucket_edges:
  fixes w k i :: i64
  assumes "0 < sint w" "bucket_index w i"
  shows "sint (bucket_low i w) \<le> sint k \<longleftrightarrow> sint i \<le> trunc_div (sint k) (sint w)"
    "sint k \<le> sint (bucket_high i w) \<longleftrightarrow> trunc_div (sint k) (sint w) \<le> sint i"
proof -
  note b = sint_bounds [of k] and w = sint_bounds [of w] and p = sint_pred [OF assms(1)]
  define q where "q = sint i * sint w"
  have mul: "sint (i64_saturating_mul i w) = q"
    using assms(2) by (simp add: i64_saturating_mul_def sint_saturate bucket_index_def q_def)
  have zero: "i = 0 \<longleftrightarrow> sint i = 0" using signed_word_eqI [of i 0] by auto
  have low0: "sint (1 - w) = 1 - sint w"
    using sint_of_int [of "1 - sint w"] assms(1) w by (simp flip: wi_hom_sub)
  have neg: "q \<le> 0" if "\<not> 0 < sint i" using that assms(1) by (simp add: mult_nonpos_nonneg q_def)
  have none: "q = 0" if "sint i = 0" using that by (simp add: q_def)
  show "sint (bucket_low i w) \<le> sint k \<longleftrightarrow> sint i \<le> trunc_div (sint k) (sint w)"
    using trunc_div_le(1) [OF assms(1), of "sint i" "sint k", folded q_def] b neg none assms(1)
    by (auto simp: bucket_low_def mul zero low0 i64_saturating_sub_def sint_saturate p)
  have pos: "0 \<le> q" if "0 < sint i" using that assms(1) by (simp add: q_def)
  show "sint k \<le> sint (bucket_high i w) \<longleftrightarrow> trunc_div (sint k) (sint w) \<le> sint i"
    using trunc_div_le(2) [OF assms(1), of "sint k" "sint i", folded q_def] b pos none assms(1)
    by (auto simp: bucket_high_def mul zero i64_saturating_add_def sint_saturate p)
qed

section \<open>Runs cover their buckets\<close>

definition covered :: "(i64 \<times> i64) list \<Rightarrow> int set" where
  "covered ranges = (\<Union>(lo, hi)\<in>set ranges. {sint lo..sint hi})"

lemma covered_simps [simp]:
  "covered [] = {}" "covered (ranges @ ranges') = covered ranges \<union> covered ranges'" "covered [(lo, hi)] = {sint lo..sint hi}"
  by (auto simp: covered_def)

lemma contiguous_runs_ok:
  assumes "sorted_wrt (<) (map sint (buckets :: i64 list))"
  shows "covered (contiguous_runs buckets) = sint ` set buckets \<and>
    (buckets \<noteq> [] \<longrightarrow> contiguous_runs buckets \<noteq> [] \<and> snd (last (contiguous_runs buckets)) = last buckets) \<and>
    (\<forall>(lo, hi)\<in>set (contiguous_runs buckets). lo \<in> set buckets \<and> hi \<in> set buckets)"
  using assms
proof (induction buckets rule: rev_induct)
  case (snoc b bs)
  have sorted: "sorted_wrt (<) (map sint bs)" and least: "\<forall>x\<in>set bs. sint x < sint b"
    using snoc.prems by (auto simp: sorted_wrt_append)
  note IH = snoc.IH [OF sorted]
  define runs where "runs = contiguous_runs bs"
  have step: "contiguous_runs (bs @ [b]) = run_step runs b" by (simp add: contiguous_runs_def runs_def)
  have all: "covered (run_step runs b) = insert (sint b) (covered runs) \<and> snd (last (run_step runs b)) = b \<and> run_step runs b \<noteq> [] \<and>
    (\<forall>(lo, hi)\<in>set (run_step runs b). lo \<in> set (bs @ [b]) \<and> hi \<in> set (bs @ [b]))"
  proof (cases "runs \<noteq> [] \<and> snd (last runs) + 1 = b")
    case True
    then obtain init lo hi where r: "runs = init @ [(lo, hi)]" by (metis append_butlast_last_id surj_pair)
    then have hi: "hi \<in> set bs" "lo \<in> set bs" using IH by (auto simp: runs_def [symmetric])
    then have "sint hi < sint b" using least by blast
    moreover have b: "hi + 1 = b" using True r by simp
    ultimately have succ: "sint b = sint hi + 1"
      using sint_of_int [of "sint hi + 1"] sint_bounds [of hi] sint_bounds [of b] by (auto simp flip: wi_hom_add)
    have "sint lo \<le> sint hi + 1"
    proof (rule ccontr)
      assume "\<not> sint lo \<le> sint hi + 1"
      then show False using least hi(2) succ by auto
    qed
    then have "{sint lo..sint b} = insert (sint b) {sint lo..sint hi}" unfolding succ by auto
    moreover have "run_step runs b = init @ [(lo, b)]" using b by (simp add: run_step_def r)
    ultimately show ?thesis using IH hi by (auto simp: r runs_def [symmetric])
  next
    case False
    then have "run_step runs b = runs @ [(b, b)]" by (auto simp: run_step_def)
    then show ?thesis using IH by (auto simp: runs_def [symmetric])
  qed
  show ?case using all IH by (auto simp: step runs_def)
qed (simp add: contiguous_runs_def)

lemma touched_buckets_ok:
  assumes "0 < sint width"
  shows "\<exists>buckets. touched_buckets width keys = (Ok buckets :: ('e, _) outcome) \<and> sorted_wrt (<) (map sint buckets) \<and>
    set buckets = (\<lambda>key. word_of_int (trunc_div (sint key) (sint width))) ` set keys"
proof -
  let ?bs = "map (\<lambda>key. word_of_int (trunc_div (sint key) (sint width)) :: i64) keys"
  have "traverseR (\<lambda>key. i64_div key width) keys = (Ok ?bs :: ('e, _) outcome)"
    by (rule traverseR_Ok) (rule i64_div_ok [OF assms])
  moreover have "sorted_wrt (<) (map sint (sort_key sint (remdups ?bs)))"
  proof -
    have "sorted (map sint (sort_key sint (remdups ?bs)))" by simp
    moreover have "distinct (map sint (sort_key sint (remdups ?bs)))"
      by (simp add: distinct_map distinct_sort inj_on_def signed_word_eqI)
    ultimately show ?thesis by (metis strict_sorted_iff)
  qed
  ultimately show ?thesis by (simp add: touched_buckets_def image_comp)
qed

section \<open>Range predicates test the ranges\<close>

lemma range_arm_truth:
  assumes "cell_at s view column row = RvI64 k"
  shows "row_truth (range_arm column r) s view scalars row = (if sint (fst r) \<le> sint k \<and> sint k \<le> sint (snd r) then TT else FF)"
  using assms by (cases r) (auto simp: range_arm_def truth_of_def min_def less_eq_truth_def)

lemma ranges_predicate_truth:
  assumes "cell_at s view column row = RvI64 k" "ranges \<noteq> []"
  shows "\<exists>p. ranges_predicate column ranges = (Ok p :: ('e, _) outcome) \<and>
    row_truth p s view scalars row = (if \<exists>r\<in>set ranges. sint (fst r) \<le> sint k \<and> sint k \<le> sint (snd r) then TT else FF)"
proof -
  have arms: "row_truth (foldl POr p (map (range_arm column) rs)) s view scalars row =
      (if row_truth p s view scalars row = TT \<or> (\<exists>r\<in>set rs. sint (fst r) \<le> sint k \<and> sint k \<le> sint (snd r)) then TT else FF)"
    if "row_truth p s view scalars row \<noteq> UU" for p rs
    using that
  proof (induction rs arbitrary: p)
    case Nil
    then show ?case by (cases "row_truth p s view scalars row") auto
  next
    case (Cons r rs)
    have one: "row_truth (POr p (range_arm column r)) s view scalars row =
        (if row_truth p s view scalars row = TT \<or> sint (fst r) \<le> sint k \<and> sint k \<le> sint (snd r) then TT else FF)"
      using Cons.prems range_arm_truth [OF assms(1), of r scalars]
      by (cases "row_truth p s view scalars row") (auto simp: max_def less_eq_truth_def)
    have "row_truth (POr p (range_arm column r)) s view scalars row \<noteq> UU" unfolding one by simp
    from Cons.IH [OF this] show ?case unfolding one by auto
  qed
  obtain r rs where r: "ranges = r # rs" using assms(2) by (cases ranges) auto
  have "row_truth (range_arm column r) s view scalars row \<noteq> UU" using range_arm_truth [OF assms(1), of r scalars] by simp
  from arms [OF this, of rs] show ?thesis using range_arm_truth [OF assms(1), of r scalars] by (simp add: ranges_predicate_def r)
qed

section \<open>Merging keeps the keys\<close>

lemma merge_step_ok:
  assumes "\<forall>(lo, hi)\<in>set acc. sint lo \<le> sint hi" "\<forall>(lo, hi)\<in>set acc. sint lo \<le> sint (fst span)" "sint (fst span) \<le> sint (snd span)"
  shows "covered (merge_step acc span) = covered acc \<union> {sint (fst span)..sint (snd span)}"
    "\<forall>(lo, hi)\<in>set (merge_step acc span). sint lo \<le> sint hi"
    "\<forall>(lo, hi)\<in>set (merge_step acc span). sint lo \<le> sint (fst span)"
proof -
  have "covered (merge_step acc span) = covered acc \<union> {sint (fst span)..sint (snd span)} \<and>
      (\<forall>(lo, hi)\<in>set (merge_step acc span). sint lo \<le> sint hi \<and> sint lo \<le> sint (fst span))"
  proof (cases "acc \<noteq> [] \<and> sint (fst span) \<le> sint (i64_saturating_add (snd (last acc)) 1)")
    case True
    then obtain init lo hi where a: "acc = init @ [(lo, hi)]" by (metis append_butlast_last_id surj_pair)
    have l: "sint lo \<le> sint hi" "sint lo \<le> sint (fst span)" using assms a by auto
    have "sint (1 :: i64) = 1" by simp
    then have "sint (fst span) \<le> sint hi + 1"
      using True a sint_bounds [of hi] sint_bounds [of "fst span"] by (auto simp: i64_saturating_add_def sint_saturate split: if_splits)
    then have "{sint lo..max (sint hi) (sint (snd span))} = {sint lo..sint hi} \<union> {sint (fst span)..sint (snd span)}"
      using l assms(3) by auto
    moreover have "sint (if sint hi < sint (snd span) then snd span else hi) = max (sint hi) (sint (snd span))" by simp
    moreover have "merge_step acc span = init @ [(lo, if sint hi < sint (snd span) then snd span else hi)]"
      using True a by (simp add: merge_step_def)
    ultimately show ?thesis using assms a l by auto
  next
    case False
    then have "merge_step acc span = acc @ [span]" by (auto simp: merge_step_def)
    then show ?thesis using assms by (cases span) auto
  qed
  then show "covered (merge_step acc span) = covered acc \<union> {sint (fst span)..sint (snd span)}"
    "\<forall>(lo, hi)\<in>set (merge_step acc span). sint lo \<le> sint hi"
    "\<forall>(lo, hi)\<in>set (merge_step acc span). sint lo \<le> sint (fst span)"
    by auto
qed

lemma merge_steps_ok:
  assumes "\<forall>(lo, hi)\<in>set acc. sint lo \<le> sint hi" "\<forall>(lo, hi)\<in>set acc. \<forall>span\<in>set spans. sint lo \<le> sint (fst span)"
    "sorted (map (\<lambda>(lo, hi). (sint lo, sint hi)) spans)" "\<forall>(lo, hi)\<in>set spans. sint lo \<le> sint hi"
  shows "covered (foldl merge_step acc spans) = covered acc \<union> covered spans \<and>
    (\<forall>(lo, hi)\<in>set (foldl merge_step acc spans). sint lo \<le> sint hi)"
  using assms
proof (induction spans arbitrary: acc)
  case (Cons span spans)
  have "sint (fst span) \<le> sint (fst later)" if "later \<in> set spans" for later
  proof -
    have "(case span of (lo, hi) \<Rightarrow> (sint lo, sint hi)) \<le> (case later of (lo, hi) \<Rightarrow> (sint lo, sint hi))"
      using Cons.prems(3) that by auto
    then show ?thesis by (cases span; cases later) auto
  qed
  moreover have one: "\<forall>(lo, hi)\<in>set acc. sint lo \<le> sint (fst span)" "sint (fst span) \<le> sint (snd span)"
    using Cons.prems(2,4) by auto
  note S = merge_step_ok [OF Cons.prems(1) one]
  ultimately have "\<forall>(lo, hi)\<in>set (merge_step acc span). \<forall>later\<in>set spans. sint lo \<le> sint (fst later)" by fastforce
  from Cons.IH [OF S(2) this] Cons.prems(3,4) show ?case using S(1) by (cases span) (auto simp: covered_def)
qed (simp add: covered_def)

lemma merge_key_ranges_ok:
  assumes "\<forall>(lo, hi)\<in>set ranges. sint lo \<le> sint hi"
  shows "covered (merge_key_ranges ranges) = covered ranges" "\<forall>(lo, hi)\<in>set (merge_key_ranges ranges). sint lo \<le> sint hi"
proof -
  let ?spans = "sort_key (\<lambda>(lo, hi). (sint lo, sint hi)) ranges"
  have "covered (foldl merge_step [] ?spans) = covered [] \<union> covered ?spans \<and> (\<forall>(lo, hi)\<in>set (foldl merge_step [] ?spans). sint lo \<le> sint hi)"
    by (rule merge_steps_ok) (use assms in simp_all)
  then show "covered (merge_key_ranges ranges) = covered ranges" "\<forall>(lo, hi)\<in>set (merge_key_ranges ranges). sint lo \<le> sint hi"
    by (auto simp: merge_key_ranges_def covered_def)
qed

lemma trunc_div_interval:
  assumes "0 < w" "lo \<le> hi"
  shows "(\<lambda>x. trunc_div x w) ` {lo..hi} = {trunc_div lo w..trunc_div hi w}"
proof (intro equalityI subsetI)
  fix j assume j: "j \<in> {trunc_div lo w..trunc_div hi w}"
  let ?edge = "if 0 < j then j * w else j * w - (w - 1)"
  show "j \<in> (\<lambda>x. trunc_div x w) ` {lo..hi}"
  proof (cases "j = trunc_div lo w")
    case False
    then have "\<not> j \<le> trunc_div lo w" "j \<le> trunc_div hi w" using j by auto
    moreover have edge: "j \<le> trunc_div x w \<longleftrightarrow> ?edge \<le> x" for x
      unfolding trunc_div_le(1) [OF assms(1)] by (cases "0 < j") simp_all
    ultimately have "lo \<le> ?edge" "?edge \<le> hi" unfolding edge by linarith+
    moreover have "trunc_div ?edge w = j"
    proof (rule antisym)
      show "j \<le> trunc_div ?edge w" unfolding trunc_div_le(1) [OF assms(1)] by simp
      show "trunc_div ?edge w \<le> j" unfolding trunc_div_le(2) [OF assms(1)] using assms(1) by simp
    qed
    ultimately show ?thesis by (metis atLeastAtMost_iff image_eqI)
  qed (use assms in auto)
qed (use trunc_div_mono [OF _ assms(1)] in auto)

lemma bucket_runs_ok:
  fixes width :: i64 and ranges :: "(i64 \<times> i64) list"
  assumes "0 < sint width" "\<forall>(lo, hi)\<in>set ranges. sint lo \<le> sint hi"
  shows "\<exists>runs. key_ranges_to_bucket_runs ranges width = (Ok runs :: ('e, _) outcome) \<and>
    covered runs = (\<lambda>x. trunc_div x (sint width)) ` covered ranges"
proof (cases "width = 1")
  case True
  have "trunc_div x 1 = x" for x by (simp add: trunc_div_def sgn_mult_abs)
  then show ?thesis using True by (simp add: key_ranges_to_bucket_runs_def)
next
  case False
  let ?f = "\<lambda>key :: i64. word_of_int (trunc_div (sint key) (sint width)) :: i64"
  let ?buckets = "map (\<lambda>(lo, hi). (?f lo, ?f hi)) ranges"
  have f: "sint (?f key) = trunc_div (sint key) (sint width)" for key :: i64 by (rule sint_trunc [OF assms(1)])
  have "traverseR (\<lambda>(lo, hi). bindR (i64_div lo width) (\<lambda>l. mapR (Pair l) (i64_div hi width))) ranges = (Ok ?buckets :: ('e, _) outcome)"
    by (rule traverseR_Ok) (auto simp: i64_div_ok [OF assms(1)])
  moreover have "\<forall>(lo, hi)\<in>set ?buckets. sint lo \<le> sint hi"
    using assms(2) trunc_div_mono [OF _ assms(1)] by (auto simp: f)
  moreover have "covered ?buckets = (\<lambda>x. trunc_div x (sint width)) ` covered ranges"
  proof -
    have "{trunc_div (sint (fst r)) (sint width)..trunc_div (sint (snd r)) (sint width)} =
        (\<lambda>x. trunc_div x (sint width)) ` {sint (fst r)..sint (snd r)}" if "r \<in> set ranges" for r
      using trunc_div_interval [OF assms(1), of "sint (fst r)" "sint (snd r)"] assms(2) that by (cases r) auto
    then show ?thesis by (simp add: covered_def f image_UN split_def cong: SUP_cong_simp)
  qed
  ultimately show ?thesis using False merge_key_ranges_ok(1) [of ?buckets] by (simp add: key_ranges_to_bucket_runs_def)
qed

lemma infinite_above: "f64_is_infinite t \<Longrightarrow> \<not> f64_sign t \<Longrightarrow> f64_le TWO_63 t"
proof -
  assume t: "f64_is_infinite t" "\<not> f64_sign t"
  have "f64_exponent t = 2047" using t(1) by (simp add: f64_is_infinite_def)
  then have "2047 = f64_magnitude t div 2 ^ 52" by (simp add: f64_fields)
  then have "2047 * 2 ^ 52 \<le> f64_magnitude t" by (metis div_times_less_eq_dividend)
  then have "int (2047 * 2 ^ 52) \<le> int (f64_magnitude t)" by (simp only: of_nat_le_iff)
  moreover have "f64_key t = int (f64_magnitude t)" using t(2) by (simp only: f64_key_def f64_magnitude_def Let_def if_False simp_thms)
  ultimately have "int (2047 * 2 ^ 52) \<le> f64_key t" by simp
  moreover have "f64_key TWO_63 \<le> int (2047 * 2 ^ 52)"
  proof -
    have "f64_exponent TWO_63 = 1086" "\<not> f64_sign TWO_63" by code_simp+
    moreover from this(1) have "f64_magnitude TWO_63 \<le> 2047 * 2 ^ 52"
      using div_mult_mod_eq [of "f64_magnitude TWO_63" "2 ^ 52"] mod_less_divisor [of "2 ^ 52" "f64_magnitude TWO_63"]
      by (simp add: f64_fields)
    then have "int (f64_magnitude TWO_63) \<le> int (2047 * 2 ^ 52)" by (simp only: of_nat_le_iff)
    moreover have "f64_key TWO_63 = int (f64_magnitude TWO_63)"
      using calculation(2) by (simp only: f64_key_def f64_magnitude_def Let_def if_False simp_thms)
    ultimately show ?thesis by simp
  qed
  ultimately have "f64_key TWO_63 \<le> f64_key t" by simp
  then show "f64_le TWO_63 t" using t two_63_not_nan by (simp add: f64_le_def f64_is_nan_def f64_is_infinite_def)
qed

section \<open>Properties\<close>

text \<open>The two bucket terms a definition may have: an index, or the start of its bucket.\<close>

definition view_bucket :: "i64 \<Rightarrow> bool \<Rightarrow> group_key" where
  "view_bucket width start = Bucket (ascii ''t'') width (if start then Some width else None)"

text \<open>
  C36: a refresh deletes what it recomputes.  For the keys a change touched, the predicate put on
  the source holds exactly for the rows whose bucket one of those keys is in, and the predicate
  put on the materialization exactly for the rows that store the value of such a bucket; on
  every other row both are false.  That holds over the whole range of the key, negative keys
  with their truncating division and edges that saturate included.
\<close>
theorem refresh_ranges_agree:
  assumes "0 < sint width" "keys \<noteq> []"
    and "cell_at s view okey row = RvI64 k" "cell_at s' view' bucket row' = RvI64 (bucket_of k' width (if start then Some width else None))"
  defines "hit x \<equiv> \<exists>key\<in>set keys. trunc_div (sint key) (sint width) = trunc_div (sint (x :: i64)) (sint width)"
  shows "\<exists>runs p q. touched_runs width keys = (Ok (Some runs) :: ('e, _) outcome) \<and>
    source_ranges okey width runs = (Ok p :: ('e, _) outcome) \<and>
    view_ranges bucket (snd (bucket_arithmetic (view_bucket width start))) runs = (Ok q :: ('e, _) outcome) \<and>
    row_truth p s view scalars row = (if hit k then TT else FF) \<and>
    row_truth q s' view' scalars' row' = (if hit k' then TT else FF)"
proof -
  obtain buckets where b: "touched_buckets width keys = (Ok buckets :: ('e, _) outcome)" "sorted_wrt (<) (map sint buckets)"
    "set buckets = (\<lambda>key. word_of_int (trunc_div (sint key) (sint width))) ` set keys"
    using touched_buckets_ok [OF assms(1), where ?'e = 'e] by blast
  define runs where "runs = contiguous_runs buckets"
  have nonempty: "buckets \<noteq> []" using b(3) assms(2) by auto
  have R: "covered runs = sint ` set buckets" "runs \<noteq> []" "\<forall>(lo, hi)\<in>set runs. lo \<in> set buckets \<and> hi \<in> set buckets"
    using contiguous_runs_ok [OF b(2), folded runs_def] nonempty by simp_all
  have run: "touched_runs width keys = (Ok (Some runs) :: ('e, _) outcome)" "runs \<noteq> []"
    using b(1) nonempty R(2) by (simp_all add: touched_runs_def runs_def [symmetric])
  have index: "bucket_index width lo \<and> bucket_index width hi" if "(lo, hi) \<in> set runs" for lo hi
    using R(3) that b(3) bucket_index_trunc [OF assms(1)] by auto
  have hits: "(\<exists>(lo, hi)\<in>set runs. sint lo \<le> trunc_div (sint x) (sint width) \<and> trunc_div (sint x) (sint width) \<le> sint hi) \<longleftrightarrow> hit x" for x
  proof -
    have "(\<exists>(lo, hi)\<in>set runs. sint lo \<le> trunc_div (sint x) (sint width) \<and> trunc_div (sint x) (sint width) \<le> sint hi) \<longleftrightarrow>
        trunc_div (sint x) (sint width) \<in> covered runs"
      unfolding covered_def by fastforce
    also have "\<dots> \<longleftrightarrow> hit x"
    proof -
      have set: "covered runs = (\<lambda>key. trunc_div (sint key) (sint width)) ` set keys"
        by (simp add: R(1) b(3) image_image sint_trunc [OF assms(1)])
      show ?thesis unfolding set hit_def by (simp only: image_iff) (metis (no_types))
    qed
    finally show ?thesis .
  qed
  let ?sources = "map (\<lambda>(lo, hi). (bucket_low lo width, bucket_high hi width)) runs"
  let ?scale = "snd (bucket_arithmetic (view_bucket width start))"
  let ?stored = "bucket_of k' width (if start then Some width else None)"
  let ?views = "map (\<lambda>(lo, hi). (i64_saturating_mul lo ?scale, i64_saturating_mul hi ?scale)) runs"
  obtain p where p: "source_ranges okey width runs = (Ok p :: ('e, _) outcome)"
    "row_truth p s view scalars row = (if \<exists>r\<in>set ?sources. sint (fst r) \<le> sint k \<and> sint k \<le> sint (snd r) then TT else FF)"
    using ranges_predicate_truth [OF assms(3), of ?sources scalars, where ?'e = 'e] run(2) unfolding source_ranges_def by auto
  obtain q where q: "view_ranges bucket ?scale runs = (Ok q :: ('e, _) outcome)"
    "row_truth q s' view' scalars' row' = (if \<exists>r\<in>set ?views. sint (fst r) \<le> sint ?stored \<and> sint ?stored \<le> sint (snd r) then TT else FF)"
    using ranges_predicate_truth [OF assms(4), of ?views scalars', where ?'e = 'e] run(2) unfolding view_ranges_def by auto
  have "(\<exists>r\<in>set ?sources. sint (fst r) \<le> sint k \<and> sint k \<le> sint (snd r)) \<longleftrightarrow> hit k"
    unfolding hits [symmetric] using bucket_edges [OF assms(1)] index by (auto split: prod.splits) blast+
  moreover have "(\<exists>r\<in>set ?views. sint (fst r) \<le> sint ?stored \<and> sint ?stored \<le> sint (snd r)) \<longleftrightarrow> hit k'"
  proof -
    have mul: "sint (i64_saturating_mul i ?scale) = sint i * (if start then sint width else 1)" if "bucket_index width i" for i
      using that sint_bounds [of i]
      by (auto simp: i64_saturating_mul_def sint_saturate bucket_index_def bucket_arithmetic_def view_bucket_def)
    have stored: "sint ?stored = trunc_div (sint k') (sint width) * (if start then sint width else 1)"
      using sint_bucket [OF assms(1), of "if start then Some width else None" "sint k'"] assms(1) sint_range [of k']
      by (simp add: bucket_of_def Let_def split: if_splits)
    have factor: "(0 :: int) < (if start then sint width else 1)" using assms(1) by simp
    have "sint (i64_saturating_mul lo ?scale) \<le> sint ?stored \<and> sint ?stored \<le> sint (i64_saturating_mul hi ?scale) \<longleftrightarrow>
        sint lo \<le> trunc_div (sint k') (sint width) \<and> trunc_div (sint k') (sint width) \<le> sint hi" if "(lo, hi) \<in> set runs" for lo hi
      using mul index [OF that] factor unfolding stored by (simp add: mult_le_cancel_right)
    then show ?thesis unfolding hits [symmetric] by (auto split: prod.splits) blast+
  qed
  ultimately show ?thesis using run(1) p q by (intro exI [of _ runs] exI [of _ p] exI [of _ q]) simp
qed

theorem refresh_ranges_agree_witness:
  "\<exists>runs p. touched_runs 60 [- 5, 130, 70] = (Ok (Some runs) :: (unit, _) outcome) \<and>
    source_ranges (ascii ''t'') 60 runs = (Ok p :: (unit, unit predicate) outcome) \<and>
    row_truth p \<lparr>s_fields = [field_new (ascii ''t'') I64 False]\<rparr> sample_view (\<lambda>_. Panic) 0 = TT"
proof -
  have cell: "cell_at \<lparr>s_fields = [field_new (ascii ''t'') I64 False]\<rparr> sample_view (ascii ''t'') 0 = RvI64 5"
    by (simp add: cell_at_def field_new_def sample_view_def sample_segment_def presence_def nc_len_def)
  have stored: "cell_at \<lparr>s_fields = [field_new (ascii ''t'') I64 False]\<rparr> sample_view (ascii ''t'') 0 =
      RvI64 (bucket_of 300 60 (if False then Some 60 else None))"
    using cell by (simp add: bucket_of_def trunc_div_def)
  have hit: "\<exists>key\<in>set [- 5, 130, 70]. trunc_div (sint (key :: i64)) (sint (60 :: i64)) = trunc_div (sint (5 :: i64)) (sint (60 :: i64))"
    by (simp add: trunc_div_def)
  have "(0 :: int) < sint (60 :: i64)" "[- 5, 130, 70 :: i64] \<noteq> []" by simp_all
  from refresh_ranges_agree [OF this cell stored, where ?'e = unit and scalars = "\<lambda>_. Panic"] show ?thesis
    unfolding if_P [OF hit] by blast
qed

text \<open>
  The merged ranges of a join view hold the keys of the ranges that were merged, no more and
  no fewer, and the bucket runs made of them are the buckets of those keys.
\<close>
theorem merged_ranges_cover:
  assumes "0 < sint width" "\<forall>(lo, hi)\<in>set ranges. sint lo \<le> sint hi"
  shows "covered (merge_key_ranges ranges) = covered ranges \<and>
    (\<exists>runs. key_ranges_to_bucket_runs (merge_key_ranges ranges) width = (Ok runs :: ('e, _) outcome) \<and>
       covered runs = (\<lambda>x. trunc_div x (sint width)) ` covered ranges)"
  using bucket_runs_ok [OF assms(1) merge_key_ranges_ok(2) [OF assms(2)], where ?'e = 'e] merge_key_ranges_ok(1) [OF assms(2)] by simp

theorem merged_ranges_cover_witness:
  "covered (merge_key_ranges [(100, 130), (- 70, 20), (15 :: i64, 99)]) = {- 70..130} \<and>
    (\<exists>runs. key_ranges_to_bucket_runs (merge_key_ranges [(100, 130), (- 70, 20), (15, 99)]) 60 = (Ok runs :: (unit, _) outcome) \<and>
       covered runs = (\<lambda>x. trunc_div x 60) ` {- 70..130})"
proof -
  have c: "covered [(100, 130), (- 70, 20), (15 :: i64, 99)] = {- 70..130}" by (auto simp: covered_def)
  show ?thesis
    using merged_ranges_cover [of "60 :: i64" "[(100, 130), (- 70, 20), (15 :: i64, 99)]", where ?'e = unit] unfolding c by simp
qed



end
