(* ===== verification/Spec2Isabelle.thy ===== *)
theory Spec2Isabelle
  imports SegmentFile Tombstone Manifest Wal Where Cache Axis Plan Answered Partials ViewRanges
begin

text \<open>
  Verification of the storage core and the query stages of TallyDB.

  TallyDB is an append-first columnar database.  A table is kept by a \<^bold>\<open>store\<close>: rows go
  through a row-wise write buffer into immutable columnar \<^bold>\<open>segments\<close>, deletions into a map of
  \<^bold>\<open>tombstones\<close>, and every event is stamped with a coordinate of the \<^bold>\<open>knowledge axis\<close>, so that
  the table can be read as it was known at any past coordinate.  A store with a \<^bold>\<open>backend\<close>
  writes each row to a log first and each segment, delete log and manifest as an object of its
  own; compaction rewrites everything in the order of the table's key.  This development
  models that core, from the bits of a column's null map to the life of a whole table, and
  the predicates the query layer evaluates over its segments.  Paths below are under
  \<^verbatim>\<open>src/src/\<close>.

  \<^bold>\<open>Foundations.\<close>
  \<^item> \<open>Prelude\<close>: machine types, the three-valued outcome of a Rust function (\<open>Ok\<close>, \<open>Err\<close>,
    \<open>Panic\<close>) with its sequencing, little-endian encodings, UTF-8 validity, list lemmas.
  \<^item> \<open>Effect\<close>: methods on \<open>&mut self\<close> as state transformers that return an outcome, the
    \<open>?\<close> operator, and the judgement \<open>leads\<close> that a method always ends in a state of some kind.
  \<^item> \<open>Float64\<close>: the IEEE 754 operations the engine's own code uses, executable on bit patterns.

  \<^bold>\<open>Columns in memory\<close> (\<^verbatim>\<open>arrow_lite/\<close>).
  \<^item> \<open>Bitmap\<close> (\<^verbatim>\<open>bitmap.rs\<close>), \<open>Dictionary\<close> (\<^verbatim>\<open>key.rs\<close>, the interning table), \<open>Columns\<close>
    (\<^verbatim>\<open>column.rs\<close>, \<^verbatim>\<open>logical.rs\<close>, \<^verbatim>\<open>schema.rs\<close>, \<^verbatim>\<open>buffer.rs\<close>, key columns): the canonical form of
    a bitmap and that every operation keeps it, what each operation does to the bits; that a
    dictionary renders what it interned; that windows of columns are windows.

  \<^bold>\<open>Codecs and files\<close> (\<^verbatim>\<open>storage_lite/\<close>).
  \<^item> \<open>Codec\<close> (\<^verbatim>\<open>codec.rs\<close>), \<open>Bitpack\<close>, \<open>For\<close> and \<open>Alp\<close> (\<^verbatim>\<open>alp.rs\<close>): every codec is lossless, its
    decoder consumes exactly what the encoder wrote, sizes are bounded, decoders never panic.
  \<^item> \<open>Crc\<close>, \<open>Reader\<close>, \<open>Format\<close>, \<open>SegmentFile\<close>, \<open>Manifest\<close>, \<open>Wal\<close> (\<^verbatim>\<open>format.rs\<close>) and \<open>Tombstone\<close>
    (\<^verbatim>\<open>tombstone.rs\<close>): the table-driven checksums are the bitwise ones; segment files, manifests,
    delete logs and write-ahead logs are read back exactly; damage within four bytes is
    detected; a torn log is read as its whole records.
  \<^item> \<open>Mem\<close> (\<^verbatim>\<open>mem.rs\<close>): row validation, column builders, freezing a buffer into a segment, zone
    maps and sequence bookkeeping.

  \<^bold>\<open>Objects and residency.\<close>
  \<^item> \<open>Backend\<close> (\<^verbatim>\<open>io.rs\<close>): the \<open>StorageBackend\<close> trait as a record of operations on a world, its
    documented contract as the locale \<open>storage_backend\<close>, and its two implementations, \<open>MemBackend\<close> and
    \<open>FsBackend\<close> over a file system with inodes, a directory and a durable state, in which every
    call of the system may fail by an arbitrary schedule; a failure is also a crash point.
  \<^item> \<open>Views\<close> (\<^verbatim>\<open>store.rs\<close>, \<^verbatim>\<open>mem.rs\<close>): segment slots, resident or to be read back, the metadata kept
    of an absent segment, handles and views.  \<open>Cache\<close>: the residency cache as a step relation;
    its counter, its budget, and that eviction is invisible.

  \<^bold>\<open>The store\<close> (\<^verbatim>\<open>store.rs\<close>).
  \<^item> \<open>Knowledge\<close>: the state readers and the writer share; snapshots, reads at a past coordinate,
    the walk over what changed since one.  \<open>Store\<close>: the writer's append, flush, tombstone and
    supersede.  \<open>Compaction\<close>: reading every row back, sorting, rebuilding, committing, adopting.
  \<^item> The abstract table (\<open>Table\<close>): the latest versions by row id, the retired versions, the
    watermark; a version is its cells, its birth and its kill, if any.  \<open>Timeline\<close> and \<open>Reads\<close>
    refine the reads to it, \<open>Upkeep\<close>, \<open>Writes\<close>, \<open>Writer\<close> and \<open>Ledger\<close> the writes, \<open>Merge\<close>,
    \<open>Rebuild\<close>, \<open>Generation\<close>, \<open>Compacted\<close> and \<open>Adopt\<close> the compaction: in every case the table is
    exactly one of those the operation passes through, whatever call of the backend fails.
  \<^item> \<open>Axis\<close>: any sequence of writes, compactions, evictions and faults, as a step relation; what
    was known at a coordinate the watermark has passed never changes.

  \<^bold>\<open>Predicates\<close> (\<^verbatim>\<open>query_lite/predicate.rs\<close>): \<open>Compare\<close>, \<open>Like\<close> and \<open>Where\<close>; comparisons are those of
  the exact values, the greedy LIKE matcher decides the textbook relation, evaluation over a
  segment is three-valued logic row by row, and a pruned segment has no selected row.

  \<^bold>\<open>Query results\<close> (\<^verbatim>\<open>query_lite/exec.rs\<close>): \<open>Plan\<close> (\<^verbatim>\<open>plan.rs\<close>) has the plan's types and the columns it
  reads; \<open>Output\<close> the result, the gather of rows, LIMIT, DISTINCT, consolidation; \<open>Sort\<close> the
  ORDER BY with its heap.  Each stage is the function on the list of rows its name says.

  \<^bold>\<open>Interfaces.\<close>  Each contract one part relies on is a locale, interpreted on the model of the
  part that gives it: \<open>row_mask\<close> (bitmaps), \<open>interner\<close> (dictionaries), \<open>column_codec\<close> and
  \<open>chunk_codec\<close> (codecs), \<open>preorder_relation\<close> (comparisons), \<open>storage_backend\<close> (for \<open>FsBackend\<close>
  and for \<open>MemBackend\<close>).  The properties of the store are stated on the file-system backend
  and rest on the contract alone.

  \<^bold>\<open>How the code is rendered.\<close>  \<open>u8\<close> to \<open>u64\<close> and \<open>i64\<close> are words; sums of \<open>u64\<close> wrap as in a
  release build; \<open>f64\<close> is its bit pattern, computed NaNs are the canonical one, and \<open>min\<close> and
  \<open>max\<close> of equal zeros take the first; \<open>usize\<close> is \<open>nat\<close>, narrowing casts written out.  Strings
  are byte lists with a validity predicate.  A \<open>BTreeMap\<close> is a sorted association list, the
  hash index of a dictionary a map.  A failed assertion, \<open>expect\<close>, index or \<open>unreachable!\<close> is
  \<open>Panic\<close>; debug assertions are not part of the model.  Error messages keep their literal part.
  Allocation does not fail.  \<open>Arc\<close> is sharing of immutable values; the pins that keep a slot
  from being evicted are the references outside it.  Locks are held for whole operations, as in
  the code, so an operation is one step.  Reading an object does not change the world; the
  failures a read can meet are the world's.  The clock is read from the world.

  \<^bold>\<open>Premises.\<close>  \<open>sizes_ok\<close>: the resident segments of a store with a backend fit the length fields
  of the segment file.  \<open>room\<close>: row ids and coordinates stay below \<open>2^64\<close>.  Rows hold valid UTF-8
  (Rust's type says so).

  \<^bold>\<open>Termination.\<close>  Loops are structural or come with a measure; the one loop with a backtracking
  point, LIKE, is a \<open>partial_function\<close> into options, and that it returns on every input is a
  property of its own.  Nothing is bounded by fuel except the ten bytes of a varint and the
  code's own counters.

  \<^bold>\<open>Not modelled\<close>: the C data interface and the linear-algebra and Lua bindings (raw pointers and
  third-party code); the planner's lowering (it walks the syntax tree of the third-party \<open>sqlparser\<close>);
  the shell, scripts and test harnesses (input and output).  Planned: reopening and recovery of a
  store, the rest of the query executor, partial aggregates, views, tables.
\<close>

end
